(* ===== verification/Prelude.thy ===== *)
theory Prelude
  imports Main "HOL-Library.Word" "HOL-Library.Multiset"
begin

text \<open>
  Shared ground of the development: the values a Go operation can end with (a result or a
  run-time failure), the slice operations of Go with their bounds checks, loops over index
  ranges, and the arithmetic of majorities that elections and commitment rest on.

  Go's \<open>int\<close> (64 bits) is \<open>int\<close> here; \<open>uint64\<close> and \<open>uint32\<close> values, whose
  wrap-around is visible to the program, are words.
\<close>

section \<open>Results of Go code\<close>

datatype go_error =
    IndexOutOfRange          \<comment> \<open>run-time panic of \<open>xs[i]\<close>\<close>
  | SliceBounds              \<comment> \<open>run-time panic of \<open>xs[i:]\<close>, \<open>xs[:i]\<close>, \<open>make([]T, n)\<close>\<close>
  | DivideByZero             \<comment> \<open>run-time panic of \<open>x / 0\<close> and \<open>x % 0\<close>\<close>
  | NilDereference           \<comment> \<open>run-time panic of a method call on a nil pointer that reads it\<close>
  | TypeAssertion            \<comment> \<open>run-time panic of \<open>x.(T)\<close>\<close>
  | ClosedChannel            \<comment> \<open>run-time panic of closing a channel twice\<close>
  | Fatal string             \<comment> \<open>\<open>log.Fatalf\<close>: the process exits\<close>

type_synonym 'a go = "go_error + 'a"

definition go_bind :: "'a go \<Rightarrow> ('a \<Rightarrow> 'b go) \<Rightarrow> 'b go" where
  "go_bind m f = (case m of Inl e \<Rightarrow> Inl e | Inr x \<Rightarrow> f x)"

definition go_map :: "('a \<Rightarrow> 'b) \<Rightarrow> 'a go \<Rightarrow> 'b go" where
  "go_map f m = (case m of Inl e \<Rightarrow> Inl e | Inr x \<Rightarrow> Inr (f x))"

lemma go_bind_simps [simp]:
  "go_bind (Inl e) f = Inl e"
  "go_bind (Inr x) f = f x"
  by (simp_all add: go_bind_def)

lemma go_map_simps [simp]:
  "go_map f (Inl e) = Inl e"
  "go_map f (Inr x) = Inr (f x)"
  by (simp_all add: go_map_def)

lemma go_bind_eq_Inr: "go_bind m f = Inr y \<longleftrightarrow> (\<exists>x. m = Inr x \<and> f x = Inr y)"
  by (auto simp: go_bind_def split: sum.splits)

lemma go_map_eq_Inr: "go_map f m = Inr y \<longleftrightarrow> (\<exists>x. m = Inr x \<and> y = f x)"
  by (auto simp: go_map_def split: sum.splits)

text \<open>A loop whose body may fail.\<close>

fun go_fold :: "('a \<Rightarrow> 'b \<Rightarrow> 'b go) \<Rightarrow> 'a list \<Rightarrow> 'b \<Rightarrow> 'b go" where
  "go_fold f [] s = Inr s"
| "go_fold f (x # xs) s = go_bind (f x s) (go_fold f xs)"

lemma go_fold_append: "go_fold f (xs @ ys) s = go_bind (go_fold f xs s) (go_fold f ys)"
  by (induction xs arbitrary: s) (auto simp: go_bind_def split: sum.splits)

lemma go_fold_pure: "(\<And>x s. x \<in> set xs \<Longrightarrow> f x s = Inr (g x s)) \<Longrightarrow> go_fold f xs s = Inr (fold g xs s)"
  by (induction xs arbitrary: s) auto

section \<open>Slices\<close>

definition go_index :: "'a list \<Rightarrow> int \<Rightarrow> 'a go" where
  "go_index xs i = (if 0 \<le> i \<and> i < int (length xs) then Inr (xs ! nat i) else Inl IndexOutOfRange)"

definition go_set :: "'a list \<Rightarrow> int \<Rightarrow> 'a \<Rightarrow> 'a list go" where
  "go_set xs i v =
     (if 0 \<le> i \<and> i < int (length xs) then Inr (xs[nat i := v]) else Inl IndexOutOfRange)"

definition go_slice_from :: "'a list \<Rightarrow> int \<Rightarrow> 'a list go" where
  "go_slice_from xs i =
     (if 0 \<le> i \<and> i \<le> int (length xs) then Inr (drop (nat i) xs) else Inl SliceBounds)"

text \<open>Go lets \<open>xs[:i]\<close> reach up to the capacity of \<open>xs\<close>; no caller in this program asks for
  more than the length, so the length is the bound here.\<close>

definition go_slice_to :: "'a list \<Rightarrow> int \<Rightarrow> 'a list go" where
  "go_slice_to xs i =
     (if 0 \<le> i \<and> i \<le> int (length xs) then Inr (take (nat i) xs) else Inl SliceBounds)"

lemma go_index_in [simp]: "0 \<le> i \<Longrightarrow> i < int (length xs) \<Longrightarrow> go_index xs i = Inr (xs ! nat i)"
  by (simp add: go_index_def)

lemma go_set_in [simp]: "0 \<le> i \<Longrightarrow> i < int (length xs) \<Longrightarrow> go_set xs i v = Inr (xs[nat i := v])"
  by (simp add: go_set_def)

lemma go_slice_from_in [simp]:
  "0 \<le> i \<Longrightarrow> i \<le> int (length xs) \<Longrightarrow> go_slice_from xs i = Inr (drop (nat i) xs)"
  by (simp add: go_slice_from_def)

lemma go_slice_to_in [simp]:
  "0 \<le> i \<Longrightarrow> i \<le> int (length xs) \<Longrightarrow> go_slice_to xs i = Inr (take (nat i) xs)"
  by (simp add: go_slice_to_def)

lemma go_slice_to_neg [simp]: "i < 0 \<Longrightarrow> go_slice_to xs i = Inl SliceBounds"
  by (simp add: go_slice_to_def)

section \<open>FNV-1a hashing (\<open>hash/fnv\<close>, 32 bits)\<close>

unbundle bit_operations_syntax

definition fnv32a :: "string \<Rightarrow> 32 word" where
  "fnv32a s = fold (\<lambda>c h. (h XOR of_char c) * 16777619) s 2166136261"

section \<open>Decimal numbers (\<open>strconv.Itoa\<close>)\<close>

definition digit :: "nat \<Rightarrow> char" where
  "digit d = char_of (48 + d)"

fun nat_digits :: "nat \<Rightarrow> string" where
  "nat_digits n = (if n < 10 then [digit n] else nat_digits (n div 10) @ [digit (n mod 10)])"

declare nat_digits.simps [simp del]

definition Itoa :: "int \<Rightarrow> string" where
  "Itoa i = (if i < 0 then ''-'' @ nat_digits (nat (- i)) else nat_digits (nat i))"

lemma of_digit [simp]: "d < 10 \<Longrightarrow> (of_char (digit d) :: nat) = 48 + d"
  by (simp add: digit_def)

lemma digit_no_dash:
  assumes "d < 10"
  shows "digit d \<noteq> CHR ''-'' \<and> digit d \<noteq> CHR ''o''"
proof -
  have "(of_char (digit d) :: nat) \<noteq> of_char (CHR ''-'') \<and> (of_char (digit d) :: nat) \<noteq> of_char (CHR ''o'')"
    unfolding of_digit [OF assms] using assms by simp
  then show ?thesis by metis
qed

definition digits_value :: "string \<Rightarrow> nat" where
  "digits_value s = foldl (\<lambda>v c. 10 * v + (of_char c - 48)) 0 s"

lemma digits_value_snoc: "digits_value (s @ [c]) = 10 * digits_value s + (of_char c - 48)"
  by (simp add: digits_value_def)

lemma digits_round_trip: "digits_value (nat_digits n) = n"
proof (induction n rule: nat_digits.induct)
  case (1 n)
  show ?case
  proof (cases "n < 10")
    case True
    then show ?thesis by (subst nat_digits.simps) (simp add: digits_value_def)
  next
    case False
    then have "digits_value (nat_digits n) = 10 * (n div 10) + n mod 10"
      using 1 by (subst nat_digits.simps) (simp add: digits_value_snoc)
    then show ?thesis by simp
  qed
qed

lemma digits_set: "c \<in> set (nat_digits n) \<Longrightarrow> c \<noteq> CHR ''-'' \<and> c \<noteq> CHR ''o''"
proof (induction n rule: nat_digits.induct)
  case (1 n)
  show ?case
  proof (cases "n < 10")
    case True
    then show ?thesis using "1.prems" digit_no_dash [of n] by (simp add: nat_digits.simps [of n])
  next
    case False
    then have "c \<in> set (nat_digits (n div 10)) \<or> c = digit (n mod 10)"
      using "1.prems" by (simp add: nat_digits.simps [of n] disj_commute)
    then show ?thesis using "1.IH" [OF False] digit_no_dash [of "n mod 10"] by fastforce
  qed
qed

lemma Itoa_inject:
  assumes "0 \<le> i" and "0 \<le> j" and "Itoa i = Itoa j"
  shows "i = j"
proof -
  have "nat_digits (nat i) = nat_digits (nat j)" using assms by (simp add: Itoa_def)
  then have "nat i = nat j" by (metis digits_round_trip)
  then show ?thesis using assms(1,2) by simp
qed

lemma Itoa_prefix: "0 \<le> i \<Longrightarrow> takeWhile (\<lambda>c. c \<noteq> CHR ''-'') (Itoa i @ CHR ''-'' # r) = Itoa i"
  using digits_set by (auto simp: Itoa_def takeWhile_append)

lemma Itoa_start: "0 \<le> i \<Longrightarrow> Itoa i \<noteq> CHR ''o'' # r"
  using digits_set [of "CHR ''o''" "nat i"] by (auto simp: Itoa_def)

section \<open>Majorities\<close>

text \<open>A set of votes of more than half of a finite electorate, as \<open>count > len(peers)/2\<close> tests it.
  The quorum interface has one law, that two quorums meet; elections and commitment use no other.\<close>

locale quorums =
  fixes electorate :: "'p set"
    and quorum :: "'p set \<Rightarrow> bool"
  assumes quorum_sub: "quorum Q \<Longrightarrow> Q \<subseteq> electorate"
    and quorum_meet: "quorum Q \<Longrightarrow> quorum R \<Longrightarrow> Q \<inter> R \<noteq> {}"
begin

lemma quorum_common_voter:
  assumes "quorum Q" and "quorum R"
  shows "\<exists>v \<in> electorate. v \<in> Q \<and> v \<in> R"
  using quorum_meet [OF assms] quorum_sub [OF assms(1)] by blast

text \<open>One ballot per voter: two choices that each hold a quorum are the same choice.\<close>

lemma quorum_choice_unique:
  assumes "quorum Q" and "quorum R"
    and "\<And>v. v \<in> Q \<Longrightarrow> ballot v = Some c" and "\<And>v. v \<in> R \<Longrightarrow> ballot v = Some d"
  shows "c = d"
  using quorum_common_voter [OF assms(1,2)] assms(3,4) by fastforce

end

definition majority :: "'p set \<Rightarrow> 'p set \<Rightarrow> bool" where
  "majority U Q \<longleftrightarrow> finite U \<and> Q \<subseteq> U \<and> card U div 2 < card Q"

lemma majority_meet:
  assumes "majority U Q" and "majority U R"
  shows "Q \<inter> R \<noteq> {}"
proof
  assume disj: "Q \<inter> R = {}"
  from assms have fin: "finite Q" "finite R" "finite U" and sub: "Q \<union> R \<subseteq> U"
    by (auto simp: majority_def intro: finite_subset)
  have "card Q + card R = card (Q \<union> R)" using fin disj by (simp add: card_Un_disjoint)
  also have "\<dots> \<le> card U" using fin sub by (simp add: card_mono)
  finally show False using assms by (auto simp: majority_def)
qed

interpretation maj: quorums U "majority U" for U :: "'p set"
proof unfold_locales
  show "majority U Q \<Longrightarrow> Q \<subseteq> U" for Q by (simp add: majority_def)
  show "majority U Q \<Longrightarrow> majority U R \<Longrightarrow> Q \<inter> R \<noteq> {}" for Q R by (rule majority_meet)
qed

section \<open>Lists\<close>

lemma fst_image_mem [simp, intro]: "(a, b) \<in> S \<Longrightarrow> a \<in> fst ` S"
  by force

lemma count_filter_upd:
  assumes "i < length xs"
  shows "length (filter P (xs[i := v])) + (if P (xs ! i) then 1 else 0) =
         length (filter P xs) + (if P v then 1 else 0)"
proof -
  have xs: "xs = take i xs @ xs ! i # drop (Suc i) xs" using assms by (rule id_take_nth_drop)
  have upd: "xs[i := v] = take i xs @ v # drop (Suc i) xs" using assms by (rule upd_conv_take_nth_drop)
  show ?thesis unfolding upd by (subst (3) xs) simp
qed

lemma filter_all_length: "length (filter P xs) = length xs \<longleftrightarrow> (\<forall>x \<in> set xs. P x)"
proof
  assume all: "length (filter P xs) = length xs"
  show "\<forall>x \<in> set xs. P x"
  proof
    fix x assume "x \<in> set xs"
    then show "P x" using length_filter_less [of x xs P] all by fastforce
  qed
qed simp

end
