(* ===== verification/MRCoordinator.thy ===== *)
theory MRCoordinator
  imports Prelude
begin

text \<open>
  The MapReduce coordinator (\<open>mr/coordinator.go\<close>, \<open>mr/rpc.go\<close>): it hands map tasks to workers,
  then, when all of them are completed, reduce tasks, takes back tasks that are overdue, and
  counts completions. Its invariant ties the two counters and the phase to the task tables.
\<close>

section \<open>State\<close>

datatype TaskState = TaskIdle | TaskInProgress | TaskCompleted

datatype TaskType = MapTask | ReduceTask | WaitTask | ExitTask

record TaskInfo =
  InfoId :: int
  State_of :: TaskState
  StartTime :: int
  InfoFile :: string

record Task =
  TaskType_of :: TaskType
  TaskId :: int
  InputFile :: string
  OutputFile :: string
  NReduce :: int
  NMap :: int

record Coordinator =
  files :: "string list"
  nReduce :: int
  nMap :: int
  mapTasks :: "TaskInfo list"
  mapDone :: int
  reduceTasks :: "TaskInfo list"
  reduceDone :: int
  phase :: TaskType
  allDone :: bool

record ReportTaskArgs =
  ReportType :: TaskType
  ReportId :: int
  ReportSuccess :: bool

text \<open>The zero value of a \<open>Task\<close>: its type is the first of the enumeration.\<close>

definition zero_task :: Task where
  "zero_task = \<lparr>TaskType_of = MapTask, TaskId = 0, InputFile = '''', OutputFile = '''', NReduce = 0, NMap = 0\<rparr>"

section \<open>Operations\<close>

text \<open>\<open>make([]TaskInfo, n)\<close> panics for a negative \<open>n\<close>.\<close>

definition MakeCoordinator :: "string list \<Rightarrow> int \<Rightarrow> Coordinator go" where
  "MakeCoordinator fs nR =
     (if nR < 0 then Inl SliceBounds
      else Inr
        \<lparr>files = fs, nReduce = nR, nMap = int (length fs),
         mapTasks = map (\<lambda>i. \<lparr>InfoId = int i, State_of = TaskIdle, StartTime = 0, InfoFile = fs ! i\<rparr>) [0..<length fs],
         mapDone = 0,
         reduceTasks = map (\<lambda>i. \<lparr>InfoId = int i, State_of = TaskIdle, StartTime = 0, InfoFile = ''''\<rparr>) [0..<nat nR],
         reduceDone = 0, phase = MapTask, allDone = False\<rparr>)"

text \<open>The scan for the first idle task among the first \<open>n\<close>.\<close>

fun first_idle :: "TaskInfo list \<Rightarrow> nat \<Rightarrow> nat \<Rightarrow> nat option" where
  "first_idle [] i n = None"
| "first_idle (t # ts) i n =
     (if i \<ge> n then None else if State_of t = TaskIdle then Some i else first_idle ts (Suc i) n)"

definition assign_task :: "int \<Rightarrow> TaskInfo \<Rightarrow> TaskInfo" where
  "assign_task now t = t\<lparr>State_of := TaskInProgress, StartTime := now\<rparr>"

definition GetTask :: "int \<Rightarrow> Coordinator \<Rightarrow> Coordinator \<times> Task" where
  "GetTask now c =
     (if allDone c then (c, zero_task\<lparr>TaskType_of := ExitTask\<rparr>)
      else if phase c = MapTask then
        (case first_idle (mapTasks c) 0 (nat (nMap c)) of
           Some i \<Rightarrow>
             (c\<lparr>mapTasks := (mapTasks c)[i := assign_task now (mapTasks c ! i)]\<rparr>,
              zero_task\<lparr>TaskType_of := MapTask, TaskId := int i, InputFile := files c ! i,
                        NReduce := nReduce c, NMap := nMap c\<rparr>)
         | None \<Rightarrow> (c, zero_task\<lparr>TaskType_of := WaitTask\<rparr>))
      else
        (case first_idle (reduceTasks c) 0 (nat (nReduce c)) of
           Some i \<Rightarrow>
             (c\<lparr>reduceTasks := (reduceTasks c)[i := assign_task now (reduceTasks c ! i)]\<rparr>,
              zero_task\<lparr>TaskType_of := ReduceTask, TaskId := int i, NReduce := nReduce c, NMap := nMap c\<rparr>)
         | None \<Rightarrow> (c, zero_task\<lparr>TaskType_of := WaitTask\<rparr>)))"

definition set_state :: "TaskInfo list \<Rightarrow> nat \<Rightarrow> TaskState \<Rightarrow> TaskInfo list" where
  "set_state ts i st = ts[i := (ts ! i)\<lparr>State_of := st\<rparr>]"

definition ReportTask :: "ReportTaskArgs \<Rightarrow> Coordinator \<Rightarrow> Coordinator" where
  "ReportTask args c =
     (let i = nat (ReportId args) in
      case ReportType args of
        MapTask \<Rightarrow>
          (if ReportId args < 0 \<or> ReportId args \<ge> nMap c then c
           else if State_of (mapTasks c ! i) = TaskCompleted then c
           else if ReportSuccess args then
             (let c1 = c\<lparr>mapTasks := set_state (mapTasks c) i TaskCompleted, mapDone := mapDone c + 1\<rparr> in
              if mapDone c1 = nMap c1 then c1\<lparr>phase := ReduceTask\<rparr> else c1)
           else c\<lparr>mapTasks := set_state (mapTasks c) i TaskIdle\<rparr>)
      | ReduceTask \<Rightarrow>
          (if ReportId args < 0 \<or> ReportId args \<ge> nReduce c then c
           else if State_of (reduceTasks c ! i) = TaskCompleted then c
           else if ReportSuccess args then
             (let c1 = c\<lparr>reduceTasks := set_state (reduceTasks c) i TaskCompleted, reduceDone := reduceDone c + 1\<rparr> in
              if reduceDone c1 = nReduce c1 then c1\<lparr>allDone := True\<rparr> else c1)
           else c\<lparr>reduceTasks := set_state (reduceTasks c) i TaskIdle\<rparr>)
      | _ \<Rightarrow> c)"

definition Done :: "Coordinator \<Rightarrow> bool" where
  "Done c = allDone c"

text \<open>One round of \<open>checkTimeoutTasks\<close> at time \<open>now\<close>, in milliseconds.\<close>

definition take_back :: "int \<Rightarrow> TaskInfo \<Rightarrow> TaskInfo" where
  "take_back now t =
     (if State_of t = TaskInProgress \<and> now - StartTime t > 10 * 1000 then t\<lparr>State_of := TaskIdle\<rparr> else t)"

definition checkTimeoutTasks :: "int \<Rightarrow> Coordinator \<Rightarrow> Coordinator" where
  "checkTimeoutTasks now c =
     c\<lparr>mapTasks := map (take_back now) (mapTasks c), reduceTasks := map (take_back now) (reduceTasks c)\<rparr>"

section \<open>Invariant\<close>

definition completed :: "TaskInfo list \<Rightarrow> nat" where
  "completed ts = length (filter (\<lambda>t. State_of t = TaskCompleted) ts)"

definition coord_inv :: "Coordinator \<Rightarrow> bool" where
  "coord_inv c \<longleftrightarrow>
     0 \<le> nReduce c \<and> nMap c = int (length (files c)) \<and>
     int (length (mapTasks c)) = nMap c \<and> int (length (reduceTasks c)) = nReduce c \<and>
     mapDone c = int (completed (mapTasks c)) \<and> reduceDone c = int (completed (reduceTasks c)) \<and>
     phase c = (if 0 < nMap c \<and> mapDone c = nMap c then ReduceTask else MapTask) \<and>
     allDone c = (0 < nReduce c \<and> reduceDone c = nReduce c)"

lemma completed_upd:
  "i < length ts \<Longrightarrow> completed (ts[i := t]) + (if State_of (ts ! i) = TaskCompleted then 1 else 0) =
     completed ts + (if State_of t = TaskCompleted then 1 else 0)"
  unfolding completed_def by (rule count_filter_upd)

lemma completed_le: "completed ts \<le> length ts"
  by (simp add: completed_def)

lemma completed_all: "completed ts = length ts \<longleftrightarrow> (\<forall>t \<in> set ts. State_of t = TaskCompleted)"
  unfolding completed_def by (rule filter_all_length)

lemma completed_take_back [simp]: "completed (map (take_back now) ts) = completed ts"
  by (induction ts) (auto simp: completed_def take_back_def)

lemma first_idle_Some:
  "first_idle ts i n = Some k \<Longrightarrow> i \<le> k \<and> k < n \<and> k - i < length ts \<and> State_of (ts ! (k - i)) = TaskIdle"
proof (induction ts i n rule: first_idle.induct)
  case (2 t ts i n)
  show ?case
  proof (cases "i < n \<and> State_of t \<noteq> TaskIdle")
    case True
    then have IH: "Suc i \<le> k \<and> k < n \<and> k - Suc i < length ts \<and> State_of (ts ! (k - Suc i)) = TaskIdle"
      using 2 by simp
    then have "k - i = Suc (k - Suc i)" by linarith
    then show ?thesis using IH by simp
  qed (use 2 in \<open>auto split: if_splits\<close>)
qed simp

lemma first_idle_None:
  "first_idle ts i n = None \<Longrightarrow> k < length ts \<Longrightarrow> i + k < n \<Longrightarrow> State_of (ts ! k) \<noteq> TaskIdle"
proof (induction ts i n arbitrary: k rule: first_idle.induct)
  case (2 t ts i n)
  then show ?case by (cases k) (auto split: if_splits)
qed simp

lemma MakeCoordinator_inv: "MakeCoordinator fs n = Inr c \<Longrightarrow> coord_inv c"
  by (auto simp: MakeCoordinator_def coord_inv_def completed_def filter_map o_def split: if_splits)

lemma completed_assign:
  assumes "i < length ts" and "State_of (ts ! i) = TaskIdle"
  shows "completed (ts[i := assign_task now (ts ! i)]) = completed ts"
  using completed_upd [OF assms(1), of "assign_task now (ts ! i)"] assms(2) by (simp add: assign_task_def)

lemma GetTask_inv: "coord_inv c \<Longrightarrow> coord_inv (fst (GetTask now c))"
  by (auto simp: GetTask_def coord_inv_def completed_assign split: option.splits dest!: first_idle_Some)

lemma completed_report:
  assumes "i < length ts" and "State_of (ts ! i) \<noteq> TaskCompleted"
  shows "completed (set_state ts i TaskCompleted) = completed ts + 1" "completed (set_state ts i TaskIdle) = completed ts"
  using completed_upd [OF assms(1), of "(ts ! i)\<lparr>State_of := _\<rparr>"] assms(2) by (simp_all add: set_state_def)

lemma set_state_length [simp]: "length (set_state ts i st) = length ts"
  by (simp add: set_state_def)

lemma not_completed_less:
  "i < length ts \<Longrightarrow> State_of (ts ! i) \<noteq> TaskCompleted \<Longrightarrow> completed ts < length ts"
  using completed_all [of ts] completed_le [of ts] nth_mem by (metis le_neq_implies_less)

lemma ReportTask_inv:
  assumes "coord_inv c"
  shows "coord_inv (ReportTask args c)"
proof -
  let ?i = "nat (ReportId args)"
  have m: "?i < length (mapTasks c)" if "0 \<le> ReportId args" "ReportId args < nMap c"
    using that assms unfolding coord_inv_def by linarith
  have r: "?i < length (reduceTasks c)" if "0 \<le> ReportId args" "ReportId args < nReduce c"
    using that assms unfolding coord_inv_def by linarith
  show ?thesis
  proof (cases "ReportType args")
    case MapTask
    show ?thesis
    proof (cases "0 \<le> ReportId args \<and> ReportId args < nMap c \<and> State_of (mapTasks c ! ?i) \<noteq> TaskCompleted")
      case True
      then show ?thesis using assms m not_completed_less [of ?i "mapTasks c"] MapTask
        by (auto simp: ReportTask_def Let_def coord_inv_def completed_report)
    qed (use assms MapTask in \<open>auto simp: ReportTask_def Let_def\<close>)
  next
    case ReduceTask
    show ?thesis
    proof (cases "0 \<le> ReportId args \<and> ReportId args < nReduce c \<and> State_of (reduceTasks c ! ?i) \<noteq> TaskCompleted")
      case True
      then show ?thesis using assms r not_completed_less [of ?i "reduceTasks c"] ReduceTask
        by (auto simp: ReportTask_def Let_def coord_inv_def completed_report)
    qed (use assms ReduceTask in \<open>auto simp: ReportTask_def Let_def\<close>)
  qed (use assms in \<open>simp_all add: ReportTask_def\<close>)
qed

lemma checkTimeoutTasks_inv: "coord_inv c \<Longrightarrow> coord_inv (checkTimeoutTasks now c)"
  by (simp add: checkTimeoutTasks_def coord_inv_def)

end
