(* ===== verification/MRWorker.thy ===== *)
theory MRWorker
  imports MRCoordinator "HOL-Library.List_Lexorder" "HOL-Library.Char_ord"
begin

text \<open>
  The MapReduce worker (\<open>mr/worker.go\<close>), the sequential reference \<open>main/mrsequential.go\<close> and the
  word-count and indexer plugins (\<open>mrapps\<close>). A file is a text, or, if a map task wrote it, the
  stream of key/value pairs it encoded as JSON. The encoder of \<open>encoding/json\<close> writes the replacement character
  for every byte of a string that is no part of well-formed UTF-8, so the decoder does not always read
  back what was given to the encoder: \<open>json_read\<close> is what it reads.

  Failures of the operating system are an argument: which files can be opened and created, and
  which encodes succeed. The sort of the standard library may order equal keys either way, so
  it is an argument too, with its documented contract.
\<close>

section \<open>Files\<close>

record KeyValue =
  Key :: string
  Value :: string

datatype content = Text string | Stream "KeyValue list"

type_synonym filesys = "string \<Rightarrow> content option"

record io =
  open_ok :: "string \<Rightarrow> bool"
  create_ok :: "string \<Rightarrow> bool"
  encode_ok :: "string \<Rightarrow> nat \<Rightarrow> bool"

definition reliable :: io where
  "reliable = \<lparr>open_ok = (\<lambda>_. True), create_ok = (\<lambda>_. True), encode_ok = (\<lambda>_ _. True)\<rparr>"

section \<open>Key/value pairs as JSON\<close>

text \<open>The length of the well-formed UTF-8 sequence a string starts with; \<open>0\<close> if there is none
  (\<open>utf8.DecodeRuneInString\<close> returns \<open>RuneError\<close> and the width 1).\<close>

definition byte_in :: "nat \<Rightarrow> nat \<Rightarrow> string \<Rightarrow> nat \<Rightarrow> bool" where
  "byte_in lo hi s i \<longleftrightarrow> i < length s \<and> lo \<le> of_char (s ! i) \<and> of_char (s ! i) \<le> hi"

definition rune_len :: "string \<Rightarrow> nat" where
  "rune_len s =
     (if byte_in 0 0x7F s 0 then 1
      else if byte_in 0xC2 0xDF s 0 \<and> byte_in 0x80 0xBF s 1 then 2
      else if byte_in 0xE0 0xEF s 0 \<and> byte_in 0x80 0xBF s 1 \<and> byte_in 0x80 0xBF s 2 \<and>
        (byte_in 0xE0 0xE0 s 0 \<longrightarrow> byte_in 0xA0 0xBF s 1) \<and> (byte_in 0xED 0xED s 0 \<longrightarrow> byte_in 0x80 0x9F s 1) then 3
      else if byte_in 0xF0 0xF4 s 0 \<and> byte_in 0x80 0xBF s 1 \<and> byte_in 0x80 0xBF s 2 \<and> byte_in 0x80 0xBF s 3 \<and>
        (byte_in 0xF0 0xF0 s 0 \<longrightarrow> byte_in 0x90 0xBF s 1) \<and> (byte_in 0xF4 0xF4 s 0 \<longrightarrow> byte_in 0x80 0x8F s 1) then 4
      else 0)"

text \<open>A string as the encoder ranges over it: its runes, \<open>None\<close> for a byte that belongs to none.\<close>

function runes :: "string \<Rightarrow> string option list" where
  "runes [] = []"
| "runes (c # s) =
     (let n = rune_len (c # s) in
      if n = 0 then None # runes s else Some (take n (c # s)) # runes (drop (n - 1) s))"
  by pat_completeness auto
termination by (relation "measure length") auto

definition valid_utf8 :: "string \<Rightarrow> bool" where
  "valid_utf8 s \<longleftrightarrow> None \<notin> set (runes s)"

text \<open>\<open>U+FFFD\<close>, the replacement character, \<open>U+2028\<close> and \<open>U+2029\<close>.\<close>

definition RuneError :: string where
  "RuneError = [CHR 0xEF, CHR 0xBF, CHR 0xBD]"

definition utf8_replaced :: "string \<Rightarrow> string" where
  "utf8_replaced s = concat (map (\<lambda>r. case r of None \<Rightarrow> RuneError | Some u \<Rightarrow> u) (runes s))"

definition json_read :: "KeyValue \<Rightarrow> KeyValue" where
  "json_read kv = \<lparr>Key = utf8_replaced (Key kv), Value = utf8_replaced (Value kv)\<rparr>"

definition hex_digit :: "nat \<Rightarrow> char" where
  "hex_digit n = ''0123456789abcdef'' ! n"

text \<open>One rune of a string of the output; characters of HTML are escaped too.\<close>

definition json_rune :: "string option \<Rightarrow> string" where
  "json_rune r =
     (let esc = CHR 0x5C in
      case r of
        None \<Rightarrow> esc # ''ufffd''
      | Some u \<Rightarrow>
          if u = [CHR 0x22] \<or> u = [esc] then esc # u
          else if u = [CHR 0x08] then esc # ''b'' else if u = [CHR 0x0C] then esc # ''f''
          else if u = [CHR 0x0A] then esc # ''n'' else if u = [CHR 0x0D] then esc # ''r''
          else if u = [CHR 0x09] then esc # ''t''
          else if byte_in 0 0x1F u 0 \<or> u = ''<'' \<or> u = ''>'' \<or> u = ''&''
          then esc # ''u00'' @ [hex_digit (of_char (hd u) div 16), hex_digit (of_char (hd u) mod 16)]
          else if u = [CHR 0xE2, CHR 0x80, CHR 0xA8] then esc # ''u2028''
          else if u = [CHR 0xE2, CHR 0x80, CHR 0xA9] then esc # ''u2029''
          else u)"

definition json_string :: "string \<Rightarrow> string" where
  "json_string s = [CHR 0x22] @ concat (map json_rune (runes s)) @ [CHR 0x22]"

definition json_line :: "KeyValue \<Rightarrow> string" where
  "json_line kv = ''{'' @ json_string ''Key'' @ '':'' @ json_string (Key kv) @ '',''
     @ json_string ''Value'' @ '':'' @ json_string (Value kv) @ ''}'' @ [CHR 0x0A]"

text \<open>A stream holds the pairs the encoder was given; its text is one line for each.\<close>

fun file_text :: "content \<Rightarrow> string" where
  "file_text (Text t) = t"
| "file_text (Stream kvs) = concat (map json_line kvs)"

text \<open>A file that cannot be opened is skipped; a text is no stream, and its first decode fails.\<close>

fun decoded :: "content option \<Rightarrow> KeyValue list" where
  "decoded (Some (Stream kvs)) = map json_read kvs"
| "decoded _ = []"

text \<open>Well-formed strings are read back as they are, and texts in ASCII are well-formed.\<close>

lemma concat_runes:
  assumes "valid_utf8 s"
  shows "utf8_replaced s = s"
  using assms unfolding valid_utf8_def utf8_replaced_def
proof (induction s rule: runes.induct)
  case (2 c s)
  let ?n = "rune_len (c # s)"
  have "?n \<noteq> 0" using "2.prems" by (auto simp: Let_def split: if_splits)
  moreover have "take ?n (c # s) @ drop (?n - 1) s = c # s" if "?n \<noteq> 0"
    using that by (cases ?n) simp_all
  ultimately show ?case using "2.IH"(2) "2.prems" by (simp add: Let_def)
qed simp

lemma json_read_valid: "valid_utf8 (Key kv) \<Longrightarrow> valid_utf8 (Value kv) \<Longrightarrow> json_read kv = kv"
  by (simp add: json_read_def concat_runes)

lemma ascii_valid:
  assumes "\<forall>c \<in> set s. of_char c < (128 :: nat)"
  shows "valid_utf8 s"
proof -
  have "rune_len (c # r) = 1" if "of_char c < (128 :: nat)" for c r
    using that by (simp add: rune_len_def byte_in_def)
  then have "runes s = map (\<lambda>c. Some [c]) s" using assms by (induction s) simp_all
  then show ?thesis by (auto simp: valid_utf8_def)
qed

lemma utf8_replaced_ascii: "\<forall>c \<in> set s. of_char c < (128 :: nat) \<Longrightarrow> utf8_replaced s = s"
  by (simp add: ascii_valid concat_runes)

text \<open>A byte that belongs to no rune becomes three.\<close>

lemma utf8_replaced_invalid: "utf8_replaced (CHR 0xFF # s) = RuneError @ utf8_replaced s"
  by (simp add: utf8_replaced_def rune_len_def byte_in_def Let_def)

section \<open>File names\<close>

definition mr_name :: "int \<Rightarrow> int \<Rightarrow> string" where
  "mr_name x y = ''mr-'' @ Itoa x @ ''-'' @ Itoa y"

definition out_name :: "int \<Rightarrow> string" where
  "out_name y = ''mr-out-'' @ Itoa y"

section \<open>The map task\<close>

definition ihash :: "string \<Rightarrow> int" where
  "ihash key = uint (fnv32a key AND 0x7fffffff)"

text \<open>The loop that puts each pair into its bucket.\<close>

fun fill_buckets :: "int \<Rightarrow> KeyValue list \<Rightarrow> KeyValue list list \<Rightarrow> KeyValue list list go" where
  "fill_buckets n [] bs = Inr bs"
| "fill_buckets n (kv # kvs) bs =
     (if n = 0 then Inl DivideByZero
      else go_bind (go_index bs (ihash (Key kv) mod n)) (\<lambda>b.
           go_bind (go_set bs (ihash (Key kv) mod n) (b @ [kv])) (fill_buckets n kvs)))"

definition make_buckets :: "int \<Rightarrow> KeyValue list list go" where
  "make_buckets n = (if n < 0 then Inl SliceBounds else Inr (replicate (nat n) []))"

fun encode_from :: "(nat \<Rightarrow> bool) \<Rightarrow> nat \<Rightarrow> KeyValue list \<Rightarrow> KeyValue list \<times> bool" where
  "encode_from ok i [] = ([], True)"
| "encode_from ok i (kv # kvs) =
     (if ok i then (let (written, b) = encode_from ok (Suc i) kvs in (kv # written, b)) else ([], False))"

text \<open>The loop that writes the buckets from number \<open>i\<close> on; the flag says whether it got through.\<close>

fun write_buckets :: "io \<Rightarrow> int \<Rightarrow> int \<Rightarrow> KeyValue list list \<Rightarrow> filesys \<Rightarrow> filesys \<times> bool" where
  "write_buckets os x i [] fs = (fs, True)"
| "write_buckets os x i (b # bs) fs =
     (let filename = mr_name x i in
      if \<not> create_ok os filename then (fs, False)
      else
        let (written, ok) = encode_from (encode_ok os filename) 0 b;
            fs1 = fs(filename \<mapsto> Stream written)
        in if ok then write_buckets os x (i + 1) bs fs1 else (fs1, False))"

type_synonym map_fun = "string \<Rightarrow> string \<Rightarrow> KeyValue list"
type_synonym reduce_fun = "string \<Rightarrow> string list \<Rightarrow> string"

text \<open>The files afterwards, and the success flag of the report.\<close>

definition performMapTask :: "map_fun \<Rightarrow> io \<Rightarrow> Task \<Rightarrow> filesys \<Rightarrow> (filesys \<times> bool) go" where
  "performMapTask mapf os task fs =
     (if \<not> open_ok os (InputFile task) then Inr (fs, False)
      else case fs (InputFile task) of
        None \<Rightarrow> Inr (fs, False)
      | Some c \<Rightarrow>
          (let kva = mapf (InputFile task) (file_text c) in
           go_bind (make_buckets (NReduce task)) (\<lambda>bs.
           go_map (\<lambda>bs. write_buckets os (TaskId task) 0 bs fs)
             (fill_buckets (NReduce task) kva bs))))"

section \<open>The reduce task\<close>

definition read_intermediate :: "io \<Rightarrow> int \<Rightarrow> int \<Rightarrow> filesys \<Rightarrow> KeyValue list" where
  "read_intermediate os y nM fs =
     concat (map (\<lambda>x. if open_ok os (mr_name (int x) y) then decoded (fs (mr_name (int x) y)) else []) [0..<nat nM])"

text \<open>The loop over runs of equal keys: one output line for each.\<close>

function reduce_groups :: "reduce_fun \<Rightarrow> KeyValue list \<Rightarrow> (string \<times> string) list" where
  "reduce_groups reducef [] = []"
| "reduce_groups reducef (kv # rest) =
     (let same = takeWhile (\<lambda>x. Key x = Key kv) rest;
          values = map Value (kv # same)
      in (Key kv, reducef (Key kv) values) # reduce_groups reducef (dropWhile (\<lambda>x. Key x = Key kv) rest))"
  by pat_completeness auto
termination
  by (relation "measure (\<lambda>(f, kvs). length kvs)") (auto simp: le_imp_less_Suc length_dropWhile_le)

definition output_text :: "(string \<times> string) list \<Rightarrow> string" where
  "output_text ls = concat (map (\<lambda>(k, v). k @ '' '' @ v @ [CHR 0x0A]) ls)"

type_synonym sort_fun = "KeyValue list \<Rightarrow> KeyValue list"

definition performReduceTask :: "sort_fun \<Rightarrow> reduce_fun \<Rightarrow> io \<Rightarrow> Task \<Rightarrow> filesys \<Rightarrow> filesys \<times> bool" where
  "performReduceTask sortf reducef os task fs =
     (let kva = sortf (read_intermediate os (TaskId task) (NMap task) fs);
          outputFileName = out_name (TaskId task)
      in if \<not> create_ok os outputFileName then (fs, False)
         else (fs(outputFileName \<mapsto> Text (output_text (reduce_groups reducef kva))), True))"

section \<open>The sequential program\<close>

fun seq_collect :: "map_fun \<Rightarrow> io \<Rightarrow> filesys \<Rightarrow> string list \<Rightarrow> KeyValue list \<Rightarrow> KeyValue list go" where
  "seq_collect mapf os fs [] intermediate = Inr intermediate"
| "seq_collect mapf os fs (f # rest) intermediate =
     (if \<not> open_ok os f then Inl (Fatal (''cannot open '' @ f))
      else case fs f of
        None \<Rightarrow> Inl (Fatal (''cannot open '' @ f))
      | Some c \<Rightarrow> seq_collect mapf os fs rest (intermediate @ mapf f (file_text c)))"

definition mrsequential :: "sort_fun \<Rightarrow> map_fun \<Rightarrow> reduce_fun \<Rightarrow> io \<Rightarrow> string list \<Rightarrow> filesys \<Rightarrow> filesys go" where
  "mrsequential sortf mapf reducef os args fs =
     (if length args < 1 then Inl (Fatal ''Usage: mrsequential xxx.so inputfiles...'')
      else go_map (\<lambda>intermediate.
             let oname = ''mr-out-0'' in
             if create_ok os oname
             then fs(oname \<mapsto> Text (output_text (reduce_groups reducef (sortf intermediate)))) else fs)
           (seq_collect mapf os fs args []))"

section \<open>The plugins\<close>

text \<open>\<open>strings.FieldsFunc\<close>: the maximal runs of characters that are no separators.\<close>

function FieldsFunc :: "(char \<Rightarrow> bool) \<Rightarrow> string \<Rightarrow> string list" where
  "FieldsFunc sep s =
     (let s1 = dropWhile sep s in
      if s1 = [] then []
      else takeWhile (\<lambda>c. \<not> sep c) s1 # FieldsFunc sep (dropWhile (\<lambda>c. \<not> sep c) s1))"
  by pat_completeness auto
termination
proof (relation "measure (\<lambda>(sep, s). length s)")
  fix sep :: "char \<Rightarrow> bool" and s s1
  assume s1: "s1 = dropWhile sep s" "s1 \<noteq> []"
  then have "\<not> sep (hd s1)" using hd_dropWhile by metis
  then have "length (dropWhile (\<lambda>c. \<not> sep c) s1) < length s1"
    using s1(2) by (cases s1) (auto simp: le_imp_less_Suc length_dropWhile_le)
  also have "length s1 \<le> length s" by (simp add: s1(1) length_dropWhile_le)
  finally show "((sep, dropWhile (\<lambda>c. \<not> sep c) s1), sep, s) \<in> measure (\<lambda>(sep, s). length s)" by simp
qed simp

declare FieldsFunc.simps [simp del]

text \<open>\<open>unicode.IsLetter\<close> is an argument: characters are bytes here, and which of them are letters
  depends on the encoding.\<close>

definition wc_Map :: "(char \<Rightarrow> bool) \<Rightarrow> map_fun" where
  "wc_Map isLetter filename contents =
     map (\<lambda>w. \<lparr>Key = w, Value = ''1''\<rparr>) (FieldsFunc (\<lambda>r. \<not> isLetter r) contents)"

definition wc_Reduce :: reduce_fun where
  "wc_Reduce key values = Itoa (int (length values))"

text \<open>The indexer ranges over a Go map, in an order the run-time picks.\<close>

definition indexer_Map :: "(string list \<Rightarrow> string list) \<Rightarrow> (char \<Rightarrow> bool) \<Rightarrow> map_fun" where
  "indexer_Map order isLetter document contents =
     map (\<lambda>w. \<lparr>Key = w, Value = document\<rparr>) (order (remdups (FieldsFunc (\<lambda>r. \<not> isLetter r) contents)))"

fun Join_with :: "string \<Rightarrow> string list \<Rightarrow> string" where
  "Join_with sep [] = ''''"
| "Join_with sep [x] = x"
| "Join_with sep (x # y # ys) = x @ sep @ Join_with sep (y # ys)"

definition indexer_Reduce :: reduce_fun where
  "indexer_Reduce key values = Itoa (int (length values)) @ '' '' @ Join_with '','' (sort values)"

section \<open>File names are distinct\<close>

lemma mr_name_inject:
  assumes "0 \<le> x" "0 \<le> y" "0 \<le> x'" "0 \<le> y'" and "mr_name x y = mr_name x' y'"
  shows "x = x' \<and> y = y'"
proof -
  have e: "Itoa x @ CHR ''-'' # Itoa y = Itoa x' @ CHR ''-'' # Itoa y'" using assms(5) by (simp add: mr_name_def)
  then have "Itoa x = Itoa x'" using Itoa_prefix assms(1,3) by metis
  then show ?thesis using e assms(1-4) Itoa_inject by auto
qed

lemma mr_name_not_out: "0 \<le> x \<Longrightarrow> mr_name x y \<noteq> out_name z"
proof
  assume x: "0 \<le> x" and "mr_name x y = out_name z"
  then have e: "Itoa x @ CHR ''-'' # Itoa y = ''out-'' @ Itoa z" by (simp add: mr_name_def out_name_def)
  obtain c cs where "Itoa x = c # cs"
    using x by (cases "Itoa x") (auto simp: Itoa_def nat_digits.simps [of "nat x"] split: if_splits)
  then show False using e Itoa_start [OF x, of cs] by auto
qed

lemma out_name_inject: "0 \<le> x \<Longrightarrow> 0 \<le> y \<Longrightarrow> out_name x = out_name y \<Longrightarrow> x = y"
  by (simp add: out_name_def Itoa_inject)

section \<open>Buckets\<close>

definition in_bucket :: "int \<Rightarrow> nat \<Rightarrow> KeyValue \<Rightarrow> bool" where
  "in_bucket n j kv \<longleftrightarrow> ihash (Key kv) mod n = int j"

lemma fill_buckets_spec:
  assumes "0 < n" and "length bs = nat n"
  shows "fill_buckets n kvs bs = Inr (map (\<lambda>j. bs ! j @ filter (in_bucket n j) kvs) [0..<nat n])"
  using assms(2)
proof (induction kvs arbitrary: bs)
  case Nil
  then show ?case by (simp add: map_nth flip: Nil)
next
  case (Cons kv kvs)
  let ?b = "nat (ihash (Key kv) mod n)"
  have b: "0 \<le> ihash (Key kv) mod n" "ihash (Key kv) mod n < int (length bs)"
    using assms(1) Cons.prems by auto
  have "fill_buckets n (kv # kvs) bs = fill_buckets n kvs (bs[?b := bs ! ?b @ [kv]])"
    using assms(1) b by simp
  also have "\<dots> = Inr (map (\<lambda>j. bs[?b := bs ! ?b @ [kv]] ! j @ filter (in_bucket n j) kvs) [0..<nat n])"
    using Cons by simp
  also have "\<dots> = Inr (map (\<lambda>j. bs ! j @ filter (in_bucket n j) (kv # kvs)) [0..<nat n])"
    using b Cons.prems by (auto simp: in_bucket_def nth_list_update)
  finally show ?case .
qed

lemma encode_reliable: "(\<And>i. ok i) \<Longrightarrow> encode_from ok i kvs = (kvs, True)"
  by (induction kvs arbitrary: i) auto

lemma write_buckets_spec:
  assumes "0 \<le> x" and "0 \<le> i"
  shows "\<exists>fs'. write_buckets reliable x i bs fs = (fs', True) \<and>
    (\<forall>j < length bs. fs' (mr_name x (i + int j)) = Some (Stream (bs ! j))) \<and>
    (\<forall>f. (\<forall>j < length bs. f \<noteq> mr_name x (i + int j)) \<longrightarrow> fs' f = fs f)"
  using assms(2)
proof (induction bs arbitrary: i fs)
  case (Cons b bs)
  let ?fs1 = "fs(mr_name x i \<mapsto> Stream b)"
  obtain fs' where IH: "write_buckets reliable x (i + 1) bs ?fs1 = (fs', True)"
    "\<forall>j < length bs. fs' (mr_name x (i + 1 + int j)) = Some (Stream (bs ! j))"
    "\<And>f. (\<forall>j < length bs. f \<noteq> mr_name x (i + 1 + int j)) \<Longrightarrow> fs' f = ?fs1 f"
    using Cons.IH [of "i + 1" ?fs1] Cons.prems by (metis add_nonneg_nonneg zero_le_one)
  have w: "write_buckets reliable x i (b # bs) fs = (fs', True)"
    using IH(1) by (simp add: reliable_def encode_reliable)
  have "mr_name x i \<noteq> mr_name x (i + 1 + int j)" for j
    using mr_name_inject [of x i x "i + 1 + int j"] assms(1) Cons.prems by auto
  then have "fs' (mr_name x i) = Some (Stream b)" using IH(3) [of "mr_name x i"] by simp
  then have "fs' (mr_name x (i + int j)) = Some (Stream ((b # bs) ! j))" if "j < length (b # bs)" for j
    using that IH(2) by (cases j) (auto simp: add_ac)
  moreover have "fs' f = fs f" if "\<forall>j < length (b # bs). f \<noteq> mr_name x (i + int j)" for f
  proof -
    have "f \<noteq> mr_name x (i + 1 + int j)" if "j < length bs" for j
      using \<open>\<forall>j < length (b # bs). f \<noteq> mr_name x (i + int j)\<close> [rule_format, of "Suc j"] that by (simp add: add_ac)
    moreover have "f \<noteq> mr_name x i" using that by force
    ultimately show ?thesis using IH(3) [of f] by simp
  qed
  ultimately show ?case using w by blast
qed simp

lemma performMapTask_reliable:
  assumes "0 \<le> TaskId task" and "0 < NReduce task" and "fs (InputFile task) = Some c"
  shows "\<exists>fs'. performMapTask mapf reliable task fs = Inr (fs', True) \<and>
    (\<forall>j < nat (NReduce task). fs' (mr_name (TaskId task) (int j)) =
        Some (Stream (filter (in_bucket (NReduce task) j) (mapf (InputFile task) (file_text c))))) \<and>
    (\<forall>f. (\<forall>j < nat (NReduce task). f \<noteq> mr_name (TaskId task) (int j)) \<longrightarrow> fs' f = fs f)"
proof -
  let ?n = "NReduce task" and ?kva = "mapf (InputFile task) (file_text c)"
  let ?bs = "map (\<lambda>j. filter (in_bucket ?n j) ?kva) [0..<nat ?n]"
  have "fill_buckets ?n ?kva (replicate (nat ?n) []) = Inr ?bs"
    using fill_buckets_spec [OF assms(2), of "replicate (nat ?n) []" ?kva] by simp
  then have "performMapTask mapf reliable task fs = Inr (write_buckets reliable (TaskId task) 0 ?bs fs)"
    using assms by (simp add: performMapTask_def make_buckets_def Let_def) (simp add: reliable_def)
  then show ?thesis using write_buckets_spec [OF assms(1), of 0 ?bs fs] by auto
qed

section \<open>Reducing\<close>

text \<open>The contract of a sort by key, and of a reduce function that does not depend on the order in
  which the values of a key reach it.\<close>

locale key_sorter =
  fixes sortf :: sort_fun
  assumes sort_perm: "mset (sortf kvs) = mset kvs"
    and sort_ordered: "sorted (map Key (sortf kvs))"

locale reducer =
  fixes reducef :: reduce_fun
  assumes order_free: "mset vs = mset ws \<Longrightarrow> reducef k vs = reducef k ws"

locale reduce_phase = key_sorter sortf + reducer reducef for sortf reducef

definition values_of :: "string \<Rightarrow> KeyValue list \<Rightarrow> string list" where
  "values_of k kvs = map Value (filter (\<lambda>x. Key x = k) kvs)"

text \<open>What reducing a bag of pairs means: one line for each key, with the reduction of all its
  values.\<close>

definition summary :: "reduce_fun \<Rightarrow> KeyValue list \<Rightarrow> (string \<times> string) set" where
  "summary reducef kvs = (\<lambda>k. (k, reducef k (values_of k kvs))) ` Key ` set kvs"

lemma run_is_filter:
  assumes "sorted (map Key kvs)" and "\<forall>x \<in> set kvs. k \<le> Key x"
  shows "takeWhile (\<lambda>x. Key x = k) kvs = filter (\<lambda>x. Key x = k) kvs"
    "dropWhile (\<lambda>x. Key x = k) kvs = filter (\<lambda>x. Key x \<noteq> k) kvs"
  using assms
proof (induction kvs)
  case (Cons x kvs)
  {
    case 1
    show ?case
    proof (cases "Key x = k")
      case False
      then have "\<forall>y \<in> set (x # kvs). Key y \<noteq> k" using 1 by auto
      then show ?thesis using False by (simp add: filter_empty_conv)
    qed (use Cons 1 in auto)
  next
    case 2
    show ?case
    proof (cases "Key x = k")
      case False
      then have "\<forall>y \<in> set (x # kvs). Key y \<noteq> k" using 2 by auto
      then show ?thesis using False by simp
    qed (use Cons 2 in auto)
  }
qed simp_all

lemma reduce_groups_sorted:
  assumes "sorted (map Key kvs)"
  shows "set (reduce_groups reducef kvs) = summary reducef kvs \<and> distinct (map fst (reduce_groups reducef kvs))"
  using assms
proof (induction reducef kvs rule: reduce_groups.induct)
  case (2 reducef kv rest)
  let ?D = "dropWhile (\<lambda>x. Key x = Key kv) rest"
  have le: "\<forall>x \<in> set rest. Key kv \<le> Key x" and so: "sorted (map Key rest)" using "2.prems" by auto
  note run = run_is_filter [OF so le]
  have "sorted (map Key ?D)" unfolding run(2) using so by (rule sorted_filter)
  then have IH: "set (reduce_groups reducef ?D) = summary reducef ?D" "distinct (map fst (reduce_groups reducef ?D))"
    using "2.IH" by auto
  have eq: "reduce_groups reducef (kv # rest) = (Key kv, reducef (Key kv) (values_of (Key kv) (kv # rest))) # reduce_groups reducef ?D"
    by (simp add: Let_def run(1) values_of_def)
  have same: "values_of k ?D = values_of k (kv # rest)" if "k \<noteq> Key kv" for k
    using that by (auto simp: run(2) values_of_def intro!: arg_cong [where f = "map Value"] filter_cong)
  have keys: "Key ` set (kv # rest) = insert (Key kv) (Key ` set ?D)" by (auto simp: run(2))
  have notin: "Key kv \<notin> Key ` set ?D" by (auto simp: run(2))
  have "(\<lambda>k. (k, reducef k (values_of k (kv # rest)))) ` Key ` set ?D = summary reducef ?D"
    unfolding summary_def by (rule image_cong [OF refl]) (use notin same in metis)
  then have "summary reducef (kv # rest) = insert (Key kv, reducef (Key kv) (values_of (Key kv) (kv # rest))) (summary reducef ?D)"
    unfolding summary_def keys by simp
  moreover have "Key kv \<notin> fst ` set (reduce_groups reducef ?D)"
    unfolding IH(1) using notin by (auto simp: summary_def)
  ultimately show ?case unfolding eq using IH by simp
qed (simp add: summary_def)

lemma distinct_concat_upt:
  "(\<And>j. j < n \<Longrightarrow> distinct (g j)) \<Longrightarrow> (\<And>i j. i < j \<Longrightarrow> j < n \<Longrightarrow> set (g i) \<inter> set (g j) = {}) \<Longrightarrow>
   distinct (concat (map g [0..<n]))"
  by (induction n) (auto simp: disjoint_iff)

context reduce_phase
begin

lemma summary_perm:
  assumes "mset kvs = mset kvs'"
  shows "summary reducef kvs = summary reducef kvs'"
proof -
  have "mset (values_of k kvs) = mset (values_of k kvs')" for k
    unfolding values_of_def by (simp add: assms)
  then have "reducef k (values_of k kvs) = reducef k (values_of k kvs')" for k by (rule order_free)
  then show ?thesis using mset_eq_setD [OF assms] by (simp add: summary_def)
qed

lemma reduce_summary:
  "set (reduce_groups reducef (sortf kvs)) = summary reducef kvs \<and> distinct (map fst (reduce_groups reducef (sortf kvs)))"
  using reduce_groups_sorted [OF sort_ordered] summary_perm [OF sort_perm] by simp

text \<open>Reducing a bag part by part gives the lines of reducing it whole, if equal keys stay together.\<close>

lemma reduce_parts:
  assumes parts: "\<And>j. j < n \<Longrightarrow> mset (part j) = filter_mset (\<lambda>kv. f (Key kv) = j) (mset kvs)"
    and f: "\<And>kv. kv \<in> set kvs \<Longrightarrow> f (Key kv) < n"
  shows "mset (concat (map (\<lambda>j. reduce_groups reducef (sortf (part j))) [0..<n])) =
    mset (reduce_groups reducef (sortf kvs))"
proof -
  let ?g = "\<lambda>j. reduce_groups reducef (sortf (part j))"
  have sp: "set (part j) = {kv \<in> set kvs. f (Key kv) = j}" if "j < n" for j
    using parts [OF that] by (metis set_mset_filter set_mset_mset)
  have vals: "reducef k (values_of k (part j)) = reducef k (values_of k kvs)" if "j < n" "f k = j" for j k
  proof (rule order_free)
    show "mset (values_of k (part j)) = mset (values_of k kvs)"
      unfolding values_of_def using parts [OF that(1)] that(2) by (auto simp: filter_filter_mset intro!: arg_cong [where f = "image_mset Value"] filter_mset_cong)
  qed
  have set_g: "set (?g j) = {l \<in> summary reducef kvs. f (fst l) = j}" if "j < n" for j
    using reduce_summary [of "part j"] vals [OF that] sp [OF that] by (auto simp: summary_def)
  have "set (concat (map ?g [0..<n])) = summary reducef kvs"
    using set_g f by (auto simp: summary_def)
  moreover have "distinct (concat (map ?g [0..<n]))"
  proof (rule distinct_concat_upt)
    show "distinct (?g j)" for j using reduce_summary [of "part j"] by (simp add: distinct_map)
    show "set (?g i) \<inter> set (?g j) = {}" if "i < j" "j < n" for i j
      using that set_g [of i] set_g [of j] by auto
  qed
  moreover have "set (reduce_groups reducef (sortf kvs)) = summary reducef kvs" "distinct (reduce_groups reducef (sortf kvs))"
    using reduce_summary [of kvs] by (simp_all add: distinct_map)
  ultimately show ?thesis by (metis set_eq_iff_mset_eq_distinct)
qed

end

lemma reduce_phase_intro: "key_sorter sortf \<Longrightarrow> reducer reducef \<Longrightarrow> reduce_phase sortf reducef"
  by (simp add: reduce_phase_def)

interpretation stable: key_sorter "sort_key Key"
  by unfold_locales simp_all

interpretation wc: reduce_phase "sort_key Key" wc_Reduce
proof (intro reduce_phase_intro stable.key_sorter_axioms)
  show "reducer wc_Reduce" by unfold_locales (auto simp: wc_Reduce_def dest: mset_eq_length)
qed

interpretation indexer: reduce_phase "sort_key Key" indexer_Reduce
proof (intro reduce_phase_intro stable.key_sorter_axioms)
  have "sort vs = sort ws" if "mset vs = mset ws" for vs ws :: "string list"
    by (rule properties_for_sort) (simp_all add: that)
  then show "reducer indexer_Reduce"
    by unfold_locales (metis indexer_Reduce_def mset_eq_length)
qed

lemma seq_collect_spec:
  assumes "\<And>f. f \<in> set args \<Longrightarrow> fs f \<noteq> None"
  shows "seq_collect mapf reliable fs args acc = Inr (acc @ concat (map (\<lambda>f. mapf f (file_text (the (fs f)))) args))"
  using assms
proof (induction args arbitrary: acc)
  case (Cons f args)
  then obtain c where "fs f = Some c" by auto
  then show ?case using Cons by (auto simp: reliable_def)
qed simp

end
