(* ===== verification/MRJob.thy ===== *)
theory MRJob
  imports MRWorker
begin

text \<open>
  A whole MapReduce job: one coordinator, any number of workers and the file system they share.
  Workers ask for tasks, run them, report and crash at any moment between these; the
  coordinator takes overdue tasks back, so a task may be run several times, also after it was
  reported complete by someone else. The result is compared with the sequential program.

  The run of a task is one step here, though the code writes its files one by one. A file operation that
  fails leaves the step's partial files, but a worker that dies inside a task does so between two steps;
  the theory \<open>MRPlugins\<close> has a run that is cut short. Files are written in place, so such
  runs can lose output (\<open>truncated_rerun_loses_output\<close>, \<open>late_crash_destroys_output\<close>); the
  results on whole jobs are for clean runs, in which every task's file operations succeed.
\<close>

section \<open>The job\<close>

datatype worker = Free | Working Task | Reporting ReportTaskArgs

record job =
  coord :: Coordinator
  workers :: "nat \<Rightarrow> worker"
  disk :: filesys

datatype job_event =
    Ask nat int                   \<comment> \<open>\<open>getTask\<close>, at a time\<close>
  | Run nat io map_fun            \<comment> \<open>\<open>performMapTask\<close> or \<open>performReduceTask\<close>\<close>
  | Report nat                    \<comment> \<open>\<open>reportTask\<close>\<close>
  | Crash nat
  | Check int                     \<comment> \<open>a round of \<open>checkTimeoutTasks\<close>\<close>

definition set_worker :: "nat \<Rightarrow> worker \<Rightarrow> job \<Rightarrow> job" where
  "set_worker w st j = j\<lparr>workers := (workers j)(w := st)\<rparr>"

definition report_of :: "Task \<Rightarrow> bool \<Rightarrow> ReportTaskArgs" where
  "report_of task ok = \<lparr>ReportType = TaskType_of task, ReportId = TaskId task, ReportSuccess = ok\<rparr>"

text \<open>The switch of \<open>Worker\<close> on the task it got: waiting ends in asking again, and a worker that was
  told to exit makes room for a new one.\<close>

definition take_up :: "Task \<Rightarrow> worker" where
  "take_up task = (case TaskType_of task of MapTask \<Rightarrow> Working task | ReduceTask \<Rightarrow> Working task
     | WaitTask \<Rightarrow> Free | ExitTask \<Rightarrow> Free)"

definition run_task :: "sort_fun \<Rightarrow> reduce_fun \<Rightarrow> map_fun \<Rightarrow> io \<Rightarrow> Task \<Rightarrow> filesys \<Rightarrow> (filesys \<times> bool) go" where
  "run_task sortf reducef mapf os task fs =
     (case TaskType_of task of
        MapTask \<Rightarrow> performMapTask mapf os task fs
      | ReduceTask \<Rightarrow> Inr (performReduceTask sortf reducef os task fs)
      | _ \<Rightarrow> Inr (fs, False))"

text \<open>A task that panics takes its worker down.\<close>

definition job_step :: "sort_fun \<Rightarrow> reduce_fun \<Rightarrow> job_event \<Rightarrow> job \<Rightarrow> job option" where
  "job_step sortf reducef e j =
     (case e of
        Ask w now \<Rightarrow>
          (if workers j w = Free then
             (let (c, task) = GetTask now (coord j) in Some (set_worker w (take_up task) (j\<lparr>coord := c\<rparr>)))
           else None)
      | Run w os mapf \<Rightarrow>
          (case workers j w of
             Working task \<Rightarrow>
               (case run_task sortf reducef mapf os task (disk j) of
                  Inl _ \<Rightarrow> Some (set_worker w Free j)
                | Inr (fs, ok) \<Rightarrow> Some (set_worker w (Reporting (report_of task ok)) (j\<lparr>disk := fs\<rparr>)))
           | _ \<Rightarrow> None)
      | Report w \<Rightarrow>
          (case workers j w of
             Reporting args \<Rightarrow> Some (set_worker w Free (j\<lparr>coord := ReportTask args (coord j)\<rparr>))
           | _ \<Rightarrow> None)
      | Crash w \<Rightarrow> Some (set_worker w Free j)
      | Check now \<Rightarrow> Some (j\<lparr>coord := checkTimeoutTasks now (coord j)\<rparr>))"

fun job_steps :: "sort_fun \<Rightarrow> reduce_fun \<Rightarrow> job_event list \<Rightarrow> job \<Rightarrow> job option" where
  "job_steps sortf reducef [] j = Some j"
| "job_steps sortf reducef (e # es) j = Option.bind (job_step sortf reducef e j) (job_steps sortf reducef es)"

definition job_start :: "Coordinator \<Rightarrow> filesys \<Rightarrow> job" where
  "job_start c fs = \<lparr>coord = c, workers = (\<lambda>_. Free), disk = fs\<rparr>"

text \<open>A clean event is one whose file operations succeed as a whole, and whose map function returns
  the pairs of \<open>mapf\<close> in some order.\<close>

definition clean :: "map_fun \<Rightarrow> job_event \<Rightarrow> bool" where
  "clean mapf e \<longleftrightarrow> (case e of Run w os m \<Rightarrow> os = reliable \<and> (\<forall>f t. mset (m f t) = mset (mapf f t)) | _ \<Rightarrow> True)"

inductive job_run :: "sort_fun \<Rightarrow> reduce_fun \<Rightarrow> map_fun \<Rightarrow> string list \<Rightarrow> int \<Rightarrow> filesys \<Rightarrow> job \<Rightarrow> bool"
  for sortf reducef mapf fs nR fs0 where
  job_begin: "MakeCoordinator fs nR = Inr c \<Longrightarrow> job_run sortf reducef mapf fs nR fs0 (job_start c fs0)"
| job_next: "job_run sortf reducef mapf fs nR fs0 j \<Longrightarrow> clean mapf e \<Longrightarrow>
    job_step sortf reducef e j = Some j' \<Longrightarrow> job_run sortf reducef mapf fs nR fs0 j'"

section \<open>What the tasks leave on disk\<close>

text \<open>Input files are there and are not named like the files of the job.\<close>

definition inputs_ok :: "string list \<Rightarrow> filesys \<Rightarrow> bool" where
  "inputs_ok fs fs0 \<longleftrightarrow> (\<forall>f \<in> set fs. fs0 f \<noteq> None \<and> (\<forall>x y. 0 \<le> x \<longrightarrow> 0 \<le> y \<longrightarrow> f \<noteq> mr_name x y \<and> f \<noteq> out_name y))"

definition emitted :: "map_fun \<Rightarrow> filesys \<Rightarrow> string \<Rightarrow> KeyValue list" where
  "emitted mapf fs0 f = mapf f (file_text (the (fs0 f)))"

definition map_written :: "map_fun \<Rightarrow> string list \<Rightarrow> int \<Rightarrow> filesys \<Rightarrow> filesys \<Rightarrow> nat \<Rightarrow> bool" where
  "map_written mapf fs nR fs0 d x \<longleftrightarrow>
     (\<forall>y < nat nR. \<exists>kvs. d (mr_name (int x) (int y)) = Some (Stream kvs) \<and>
        mset kvs = filter_mset (in_bucket nR y) (mset (emitted mapf fs0 (fs ! x))))"

definition all_emitted :: "map_fun \<Rightarrow> string list \<Rightarrow> filesys \<Rightarrow> KeyValue list" where
  "all_emitted mapf fs fs0 = concat (map (emitted mapf fs0) fs)"

text \<open>The texts the map function emits survive the intermediate files: they are well-formed UTF-8.\<close>

definition texts_ok :: "map_fun \<Rightarrow> string list \<Rightarrow> filesys \<Rightarrow> bool" where
  "texts_ok mapf fs fs0 \<longleftrightarrow> list_all (\<lambda>kv. valid_utf8 (Key kv) \<and> valid_utf8 (Value kv)) (all_emitted mapf fs fs0)"

definition reduce_written ::
  "sort_fun \<Rightarrow> reduce_fun \<Rightarrow> map_fun \<Rightarrow> string list \<Rightarrow> int \<Rightarrow> filesys \<Rightarrow> filesys \<Rightarrow> nat \<Rightarrow> bool" where
  "reduce_written sortf reducef mapf fs nR fs0 d y \<longleftrightarrow>
     (\<exists>kva. d (out_name (int y)) = Some (Text (output_text (reduce_groups reducef (sortf kva)))) \<and>
        mset kva = filter_mset (in_bucket nR y) (mset (all_emitted mapf fs fs0)))"

definition task_ok :: "string list \<Rightarrow> int \<Rightarrow> Coordinator \<Rightarrow> Task \<Rightarrow> bool" where
  "task_ok fs nR c task \<longleftrightarrow> NReduce task = nR \<and> NMap task = int (length fs) \<and> 0 \<le> TaskId task \<and>
     (case TaskType_of task of
        MapTask \<Rightarrow> TaskId task < int (length fs) \<and> InputFile task = fs ! nat (TaskId task)
      | ReduceTask \<Rightarrow> TaskId task < nR \<and> phase c = ReduceTask
      | _ \<Rightarrow> False)"

definition report_ok ::
  "sort_fun \<Rightarrow> reduce_fun \<Rightarrow> map_fun \<Rightarrow> string list \<Rightarrow> int \<Rightarrow> filesys \<Rightarrow> filesys \<Rightarrow> ReportTaskArgs \<Rightarrow> bool" where
  "report_ok sortf reducef mapf fs nR fs0 d args \<longleftrightarrow> ReportSuccess args \<longrightarrow> 0 \<le> ReportId args \<and>
     (case ReportType args of
        MapTask \<Rightarrow> map_written mapf fs nR fs0 d (nat (ReportId args))
      | ReduceTask \<Rightarrow> reduce_written sortf reducef mapf fs nR fs0 d (nat (ReportId args))
      | _ \<Rightarrow> True)"

definition worker_ok ::
  "sort_fun \<Rightarrow> reduce_fun \<Rightarrow> map_fun \<Rightarrow> string list \<Rightarrow> int \<Rightarrow> filesys \<Rightarrow> Coordinator \<Rightarrow> filesys \<Rightarrow> worker \<Rightarrow> bool" where
  "worker_ok sortf reducef mapf fs nR fs0 c d w \<longleftrightarrow>
     (case w of Free \<Rightarrow> True | Working task \<Rightarrow> task_ok fs nR c task
      | Reporting args \<Rightarrow> report_ok sortf reducef mapf fs nR fs0 d args)"

definition tables_ok ::
  "sort_fun \<Rightarrow> reduce_fun \<Rightarrow> map_fun \<Rightarrow> string list \<Rightarrow> int \<Rightarrow> filesys \<Rightarrow> Coordinator \<Rightarrow> filesys \<Rightarrow> bool" where
  "tables_ok sortf reducef mapf fs nR fs0 c d \<longleftrightarrow>
     coord_inv c \<and> files c = fs \<and> nReduce c = nR \<and>
     (\<forall>x < length fs. State_of (mapTasks c ! x) = TaskCompleted \<longrightarrow> map_written mapf fs nR fs0 d x) \<and>
     (\<forall>y < nat nR. State_of (reduceTasks c ! y) = TaskCompleted \<longrightarrow> reduce_written sortf reducef mapf fs nR fs0 d y)"

definition job_inv :: "sort_fun \<Rightarrow> reduce_fun \<Rightarrow> map_fun \<Rightarrow> string list \<Rightarrow> int \<Rightarrow> filesys \<Rightarrow> job \<Rightarrow> bool" where
  "job_inv sortf reducef mapf fs nR fs0 j \<longleftrightarrow>
     tables_ok sortf reducef mapf fs nR fs0 (coord j) (disk j) \<and>
     (\<forall>f \<in> set fs. disk j f = fs0 f) \<and>
     (\<forall>w. worker_ok sortf reducef mapf fs nR fs0 (coord j) (disk j) (workers j w))"

section \<open>Running a task\<close>

text \<open>A task keeps what other tasks have written and the input files.\<close>

definition keeps ::
  "sort_fun \<Rightarrow> reduce_fun \<Rightarrow> map_fun \<Rightarrow> string list \<Rightarrow> int \<Rightarrow> filesys \<Rightarrow> filesys \<Rightarrow> filesys \<Rightarrow> bool" where
  "keeps sortf reducef mapf fs nR fs0 d d' \<longleftrightarrow>
     (\<forall>x. map_written mapf fs nR fs0 d x \<longrightarrow> map_written mapf fs nR fs0 d' x) \<and>
     (\<forall>y. reduce_written sortf reducef mapf fs nR fs0 d y \<longrightarrow> reduce_written sortf reducef mapf fs nR fs0 d' y) \<and>
     (\<forall>f \<in> set fs. d' f = d f)"

lemma keeps_refl [simp]: "keeps sortf reducef mapf fs nR fs0 d d"
  by (simp add: keeps_def)

lemma map_written_cong:
  "map_written mapf fs nR fs0 d x \<Longrightarrow> (\<And>y. d' (mr_name (int x) (int y)) = d (mr_name (int x) (int y))) \<Longrightarrow>
   map_written mapf fs nR fs0 d' x"
  by (simp add: map_written_def)

lemma reduce_written_cong:
  "reduce_written sortf reducef mapf fs nR fs0 d y \<Longrightarrow> d' (out_name (int y)) = d (out_name (int y)) \<Longrightarrow>
   reduce_written sortf reducef mapf fs nR fs0 d' y"
  by (simp add: reduce_written_def)

lemma run_map:
  assumes t: "task_ok fs nR c task" "TaskType_of task = MapTask" and inp: "inputs_ok fs fs0"
    and d: "\<forall>f \<in> set fs. d f = fs0 f" and m: "\<And>f t. mset (m f t) = mset (mapf f t)" and nR: "0 < nR"
  shows "\<exists>d'. performMapTask m reliable task d = Inr (d', True) \<and> keeps sortf reducef mapf fs nR fs0 d d' \<and>
    map_written mapf fs nR fs0 d' (nat (TaskId task))"
proof -
  let ?x = "TaskId task" and ?f = "InputFile task"
  have x: "0 \<le> ?x" "?x < int (length fs)" and f: "?f = fs ! nat ?x" and n: "NReduce task = nR"
    using t by (auto simp: task_ok_def)
  have mem: "?f \<in> set fs" using x f by auto
  then obtain cn where cn: "d ?f = Some cn" "fs0 ?f = Some cn" using d inp by (fastforce simp: inputs_ok_def)
  obtain d' where d': "performMapTask m reliable task d = Inr (d', True)"
    "\<And>j. j < nat nR \<Longrightarrow> d' (mr_name ?x (int j)) = Some (Stream (filter (in_bucket nR j) (m ?f (file_text cn))))"
    "\<And>g. (\<And>j. g \<noteq> mr_name ?x (int j)) \<Longrightarrow> d' g = d g"
    using performMapTask_reliable [of task d cn m] x(1) cn(1) nR n by auto
  have w: "map_written mapf fs nR fs0 d' (nat ?x)"
    using d'(2) x(1) cn(2) f m by (auto simp: map_written_def emitted_def)
  have "keeps sortf reducef mapf fs nR fs0 d d'"
    unfolding keeps_def
  proof (intro conjI allI impI ballI)
    fix x' assume x': "map_written mapf fs nR fs0 d x'"
    show "map_written mapf fs nR fs0 d' x'"
    proof (cases "int x' = ?x")
      case True
      then show ?thesis using w by (metis nat_int)
    next
      case False
      then show ?thesis using mr_name_inject [of "int x'" _ ?x] x(1) by (intro map_written_cong [OF x'] d'(3)) fastforce
    qed
  next
    fix y assume "reduce_written sortf reducef mapf fs nR fs0 d y"
    then show "reduce_written sortf reducef mapf fs nR fs0 d' y"
      by (rule reduce_written_cong) (use d'(3) mr_name_not_out [OF x(1)] in metis)
  next
    fix g assume "g \<in> set fs"
    then show "d' g = d g" using inp x(1) by (intro d'(3)) (auto simp: inputs_ok_def)
  qed
  then show ?thesis using d'(1) w by blast
qed

lemma all_maps_completed:
  assumes "coord_inv c" and "phase c = ReduceTask" and "x < length (files c)"
  shows "State_of (mapTasks c ! x) = TaskCompleted"
proof -
  have "completed (mapTasks c) = length (mapTasks c)" "length (mapTasks c) = length (files c)"
    using assms(1,2) by (auto simp: coord_inv_def split: if_splits)
  then show ?thesis using completed_all [of "mapTasks c"] assms(3) by simp
qed

lemma filter_mset_concat: "filter_mset P (mset (concat xss)) = sum_list (map (\<lambda>xs. filter_mset P (mset xs)) xss)"
  by (induction xss) auto

lemma read_written:
  assumes "\<And>x. x < length fs \<Longrightarrow> map_written mapf fs nR fs0 d x" and "y < nat nR" and tx: "texts_ok mapf fs fs0"
  shows "mset (read_intermediate reliable (int y) (int (length fs)) d) =
    filter_mset (in_bucket nR y) (mset (all_emitted mapf fs fs0))"
proof -
  let ?part = "\<lambda>x. decoded (d (mr_name (int x) (int y)))"
  have part: "mset (?part x) = filter_mset (in_bucket nR y) (mset (emitted mapf fs0 (fs ! x)))" if x: "x < length fs" for x
  proof -
    obtain kvs where kvs: "d (mr_name (int x) (int y)) = Some (Stream kvs)"
      "mset kvs = filter_mset (in_bucket nR y) (mset (emitted mapf fs0 (fs ! x)))"
      using assms(1) [OF x] assms(2) by (auto simp: map_written_def)
    have "kv \<in> set (all_emitted mapf fs fs0)" if "kv \<in> set kvs" for kv
      using that x kvs(2) by (auto simp: all_emitted_def dest!: arg_cong [where f = set_mset])
    then have "map json_read kvs = kvs" using tx by (intro map_idI json_read_valid) (auto simp: texts_ok_def list_all_iff)
    then show ?thesis using kvs by simp
  qed
  have "mset (read_intermediate reliable (int y) (int (length fs)) d) = sum_list (map (\<lambda>x. mset (?part x)) [0..<length fs])"
    by (simp add: read_intermediate_def reliable_def mset_concat comp_def)
  also have "map (\<lambda>x. mset (?part x)) [0..<length fs] =
      map (\<lambda>x. filter_mset (in_bucket nR y) (mset (emitted mapf fs0 (fs ! x)))) [0..<length fs]"
    using part by simp
  also have "\<dots> = map (\<lambda>f. filter_mset (in_bucket nR y) (mset (emitted mapf fs0 f))) fs"
    by (rule nth_equalityI) simp_all
  finally show ?thesis by (simp add: all_emitted_def filter_mset_concat comp_def)
qed

lemma run_reduce:
  assumes t: "task_ok fs nR c task" "TaskType_of task = ReduceTask" and inp: "inputs_ok fs fs0" and tx: "texts_ok mapf fs fs0"
    and c: "tables_ok sortf reducef mapf fs nR fs0 c d"
  shows "\<exists>d'. performReduceTask sortf reducef reliable task d = (d', True) \<and> keeps sortf reducef mapf fs nR fs0 d d' \<and>
    reduce_written sortf reducef mapf fs nR fs0 d' (nat (TaskId task))"
proof -
  let ?y = "TaskId task"
  let ?kva = "read_intermediate reliable ?y (NMap task) d"
  let ?d' = "d(out_name ?y \<mapsto> Text (output_text (reduce_groups reducef (sortf ?kva))))"
  have y: "0 \<le> ?y" "?y < nR" "NMap task = int (length fs)" "phase c = ReduceTask" using t by (auto simp: task_ok_def)
  have "map_written mapf fs nR fs0 d x" if "x < length fs" for x
    using that c y(4) all_maps_completed [of c x] by (auto simp: tables_ok_def)
  from read_written [OF this, of "nat ?y"] y tx
  have kva: "mset ?kva = filter_mset (in_bucket nR (nat ?y)) (mset (all_emitted mapf fs fs0))" by simp
  have w: "reduce_written sortf reducef mapf fs nR fs0 ?d' (nat ?y)" using kva y(1) unfolding reduce_written_def by auto
  have "keeps sortf reducef mapf fs nR fs0 d ?d'" unfolding keeps_def
  proof (intro conjI allI impI ballI)
    fix x assume "map_written mapf fs nR fs0 d x"
    then show "map_written mapf fs nR fs0 ?d' x"
      by (rule map_written_cong) (use mr_name_not_out in simp)
  next
    fix y' assume r: "reduce_written sortf reducef mapf fs nR fs0 d y'"
    show "reduce_written sortf reducef mapf fs nR fs0 ?d' y'"
    proof (cases "int y' = ?y")
      case True
      then show ?thesis using w by (metis nat_int)
    next
      case False
      then show ?thesis using out_name_inject [of "int y'" ?y] y(1) by (intro reduce_written_cong [OF r]) auto
    qed
  next
    fix g assume "g \<in> set fs"
    then show "?d' g = d g" using inp y(1) by (auto simp: inputs_ok_def)
  qed
  then show ?thesis using w by (auto simp: performReduceTask_def Let_def reliable_def)
qed

section \<open>Every step keeps the invariant\<close>

lemma report_ok_keeps:
  "keeps sortf reducef mapf fs nR fs0 d d' \<Longrightarrow> report_ok sortf reducef mapf fs nR fs0 d args \<Longrightarrow>
   report_ok sortf reducef mapf fs nR fs0 d' args"
  by (auto simp: keeps_def report_ok_def split: TaskType.splits)

lemma worker_ok_keeps:
  "keeps sortf reducef mapf fs nR fs0 d d' \<Longrightarrow> worker_ok sortf reducef mapf fs nR fs0 c d w \<Longrightarrow>
   worker_ok sortf reducef mapf fs nR fs0 c d' w"
  by (auto simp: worker_ok_def report_ok_keeps split: worker.splits)

lemma worker_ok_phase:
  "worker_ok sortf reducef mapf fs nR fs0 c d w \<Longrightarrow> (phase c = ReduceTask \<Longrightarrow> phase c' = ReduceTask) \<Longrightarrow>
   worker_ok sortf reducef mapf fs nR fs0 c' d w"
  by (auto simp: worker_ok_def task_ok_def split: worker.splits TaskType.splits)

lemma run_task_ok:
  assumes t: "task_ok fs nR c task" and inp: "inputs_ok fs fs0" and tx: "texts_ok mapf fs fs0"
    and c: "tables_ok sortf reducef mapf fs nR fs0 c d" and d: "\<forall>f \<in> set fs. d f = fs0 f"
    and m: "\<And>f t. mset (m f t) = mset (mapf f t)" and e: "run_task sortf reducef m reliable task d = Inr (d', ok)"
  shows "keeps sortf reducef mapf fs nR fs0 d d' \<and> report_ok sortf reducef mapf fs nR fs0 d' (report_of task ok)"
proof (cases "TaskType_of task")
  case MapTask
  have id: "0 \<le> TaskId task" and n: "NReduce task = nR" using t by (auto simp: task_ok_def)
  have "0 \<le> nR" using c by (auto simp: tables_ok_def coord_inv_def)
  then consider "0 < nR" | "nR = 0" by linarith
  then show ?thesis
  proof cases
    case 1
    then show ?thesis using run_map [OF t MapTask inp d, of m mapf sortf reducef] m e MapTask id
      by (auto simp: run_task_def report_ok_def report_of_def)
  next
    case 2
    have "fill_buckets 0 kvs bs = Inr bs' \<Longrightarrow> bs' = bs" for kvs bs bs' by (cases kvs) auto
    then have "d' = d" using e 2 n MapTask
      by (fastforce simp: run_task_def performMapTask_def make_buckets_def Let_def go_map_eq_Inr split: if_splits option.splits)
    then show ?thesis using 2 MapTask id by (simp add: report_ok_def report_of_def map_written_def)
  qed
next
  case ReduceTask
  have "0 \<le> TaskId task" using t by (auto simp: task_ok_def)
  then show ?thesis using run_reduce [OF t ReduceTask inp tx c] e ReduceTask
    by (auto simp: run_task_def report_ok_def report_of_def)
qed (use t in \<open>auto simp: task_ok_def\<close>)

lemma inv_worker:
  "job_inv sortf reducef mapf fs nR fs0 j \<Longrightarrow> worker_ok sortf reducef mapf fs nR fs0 (coord j) (disk j) (workers j w)"
  by (simp add: job_inv_def)

lemma inv_set_worker:
  "job_inv sortf reducef mapf fs nR fs0 j \<Longrightarrow> worker_ok sortf reducef mapf fs nR fs0 (coord j) (disk j) st \<Longrightarrow>
   job_inv sortf reducef mapf fs nR fs0 (set_worker w st j)"
  by (simp add: job_inv_def set_worker_def)

lemma inv_disk:
  assumes "job_inv sortf reducef mapf fs nR fs0 j" and "keeps sortf reducef mapf fs nR fs0 (disk j) d'"
  shows "job_inv sortf reducef mapf fs nR fs0 (j\<lparr>disk := d'\<rparr>)"
proof -
  have "tables_ok sortf reducef mapf fs nR fs0 (coord j) d'"
    using assms by (auto simp: job_inv_def tables_ok_def keeps_def)
  then show ?thesis using assms worker_ok_keeps [OF assms(2)] by (simp add: job_inv_def keeps_def)
qed

lemma inv_coord:
  assumes inv: "job_inv sortf reducef mapf fs nR fs0 j" and t: "tables_ok sortf reducef mapf fs nR fs0 c' (disk j)"
    and ph: "phase (coord j) = ReduceTask \<Longrightarrow> phase c' = ReduceTask"
  shows "job_inv sortf reducef mapf fs nR fs0 (j\<lparr>coord := c'\<rparr>)"
  using inv t worker_ok_phase [of sortf reducef mapf fs nR fs0 "coord j" "disk j" _ c'] ph by (simp add: job_inv_def)

text \<open>Which tasks are completed, operation by operation.\<close>

lemma assign_completed:
  "first_idle ts 0 n = Some i \<Longrightarrow>
   State_of (ts[i := assign_task now (ts ! i)] ! x) = TaskCompleted \<longleftrightarrow> State_of (ts ! x) = TaskCompleted"
  by (cases "x = i") (auto simp: assign_task_def dest!: first_idle_Some)

lemma tables_GetTask:
  assumes "tables_ok sortf reducef mapf fs nR fs0 c d"
  shows "tables_ok sortf reducef mapf fs nR fs0 (fst (GetTask now c)) d" "phase (fst (GetTask now c)) = phase c"
    "worker_ok sortf reducef mapf fs nR fs0 (fst (GetTask now c)) d (take_up (snd (GetTask now c)))"
proof -
  have c: "coord_inv c" "files c = fs" "nReduce c = nR" using assms by (auto simp: tables_ok_def)
  then have nM: "nMap c = int (length fs)" and ph: "phase c = MapTask \<or> phase c = ReduceTask"
    by (auto simp: coord_inv_def)
  show "tables_ok sortf reducef mapf fs nR fs0 (fst (GetTask now c)) d"
    using assms GetTask_inv [OF c(1), of now] unfolding tables_ok_def
    by (auto simp: GetTask_def assign_completed split: option.splits)
  show "phase (fst (GetTask now c)) = phase c" by (auto simp: GetTask_def split: option.splits)
  show "worker_ok sortf reducef mapf fs nR fs0 (fst (GetTask now c)) d (take_up (snd (GetTask now c)))"
    using c nM ph
    by (auto simp: GetTask_def take_up_def worker_ok_def task_ok_def zero_task_def split: option.splits dest!: first_idle_Some)
qed

lemma set_state_completed:
  "i < length ts \<Longrightarrow> State_of (set_state ts i st ! x) = (if x = i then st else State_of (ts ! x))"
  by (simp add: set_state_def nth_list_update)

lemma tables_ReportTask:
  assumes t: "tables_ok sortf reducef mapf fs nR fs0 c d" and r: "report_ok sortf reducef mapf fs nR fs0 d args"
  shows "tables_ok sortf reducef mapf fs nR fs0 (ReportTask args c) d"
    "phase c = ReduceTask \<Longrightarrow> phase (ReportTask args c) = ReduceTask"
proof -
  have c: "coord_inv c" "files c = fs" "nReduce c = nR" using t by (auto simp: tables_ok_def)
  then have len: "length (mapTasks c) = length fs" "nMap c = int (length fs)" "length (reduceTasks c) = nat nR"
    by (auto simp: coord_inv_def)
  show "phase c = ReduceTask \<Longrightarrow> phase (ReportTask args c) = ReduceTask"
    by (auto simp: ReportTask_def Let_def split: TaskType.splits)
  have i: "coord_inv (ReportTask args c)" by (rule ReportTask_inv [OF c(1)])
  show "tables_ok sortf reducef mapf fs nR fs0 (ReportTask args c) d"
  proof (cases "ReportType args")
    case MapTask
    then show ?thesis using t r i len unfolding tables_ok_def
      by (auto simp: ReportTask_def Let_def set_state_completed report_ok_def split: if_splits)
  next
    case ReduceTask
    then show ?thesis using t r i len unfolding tables_ok_def
      by (auto simp: ReportTask_def Let_def set_state_completed report_ok_def split: if_splits)
  qed (use t in \<open>simp_all add: ReportTask_def\<close>)
qed

lemma tables_checkTimeoutTasks:
  assumes "tables_ok sortf reducef mapf fs nR fs0 c d"
  shows "tables_ok sortf reducef mapf fs nR fs0 (checkTimeoutTasks now c) d"
proof -
  have c: "coord_inv c" using assms by (simp add: tables_ok_def)
  have "State_of (take_back now t) = TaskCompleted \<longleftrightarrow> State_of t = TaskCompleted" for t
    by (simp add: take_back_def)
  then show ?thesis using assms checkTimeoutTasks_inv [OF c, of now] unfolding tables_ok_def
    by (auto simp: checkTimeoutTasks_def coord_inv_def)
qed

lemma inv_step:
  assumes inv: "job_inv sortf reducef mapf fs nR fs0 j" and inp: "inputs_ok fs fs0" and tx: "texts_ok mapf fs fs0"
    and cl: "clean mapf e" and e: "job_step sortf reducef e j = Some j'"
  shows "job_inv sortf reducef mapf fs nR fs0 j'"
proof (cases e)
  case (Ask w now)
  have t: "tables_ok sortf reducef mapf fs nR fs0 (coord j) (disk j)" using inv by (simp add: job_inv_def)
  obtain c task where g: "GetTask now (coord j) = (c, task)" by (rule prod.exhaust)
  then have j': "j' = set_worker w (take_up task) (j\<lparr>coord := c\<rparr>)"
    using e Ask by (auto simp: job_step_def split: if_splits)
  show ?thesis unfolding j'
    using tables_GetTask [OF t, of now] g by (intro inv_set_worker inv_coord [OF inv]) simp_all
next
  case (Run w os m)
  then obtain task where w: "workers j w = Working task" using e by (auto simp: job_step_def split: worker.splits)
  have os: "os = reliable" "\<And>f t. mset (m f t) = mset (mapf f t)" using cl Run by (auto simp: clean_def)
  have ok: "task_ok fs nR (coord j) task" using inv_worker [OF inv, of w] w by (simp add: worker_ok_def)
  show ?thesis
  proof (cases "run_task sortf reducef m os task (disk j)")
    case (Inl err)
    then show ?thesis using e Run w inv by (auto simp: job_step_def worker_ok_def intro!: inv_set_worker)
  next
    case (Inr r)
    obtain d' b where r: "r = (d', b)" by (rule prod.exhaust)
    have "keeps sortf reducef mapf fs nR fs0 (disk j) d' \<and> report_ok sortf reducef mapf fs nR fs0 d' (report_of task b)"
      by (rule run_task_ok [OF ok inp tx]) (use inv os Inr r in \<open>auto simp: job_inv_def\<close>)
    then show ?thesis using e Run w Inr r inv_disk [OF inv, of d']
      by (auto simp: job_step_def worker_ok_def intro!: inv_set_worker)
  qed
next
  case (Report w)
  then obtain args where w: "workers j w = Reporting args" using e by (auto simp: job_step_def split: worker.splits)
  have t: "tables_ok sortf reducef mapf fs nR fs0 (coord j) (disk j)" using inv by (simp add: job_inv_def)
  have r: "report_ok sortf reducef mapf fs nR fs0 (disk j) args"
    using inv_worker [OF inv, of w] w by (simp add: worker_ok_def)
  show ?thesis using e Report w tables_ReportTask [OF t r] inv_coord [OF inv]
    by (auto simp: job_step_def worker_ok_def intro!: inv_set_worker)
next
  case (Crash w)
  then show ?thesis using e inv by (auto simp: job_step_def worker_ok_def intro!: inv_set_worker)
next
  case (Check now)
  have t: "tables_ok sortf reducef mapf fs nR fs0 (coord j) (disk j)" using inv by (simp add: job_inv_def)
  show ?thesis using e Check inv_coord [OF inv tables_checkTimeoutTasks [OF t]]
    by (auto simp: job_step_def checkTimeoutTasks_def)
qed

lemma job_run_inv:
  assumes "job_run sortf reducef mapf fs nR fs0 j" and inp: "inputs_ok fs fs0" and tx: "texts_ok mapf fs fs0"
  shows "job_inv sortf reducef mapf fs nR fs0 j"
  using assms(1)
proof (induction rule: job_run.induct)
  case (job_begin c)
  then have "coord_inv c" "files c = fs" "nReduce c = nR"
    "\<And>x. x < length fs \<Longrightarrow> State_of (mapTasks c ! x) = TaskIdle"
    "\<And>y. y < nat nR \<Longrightarrow> State_of (reduceTasks c ! y) = TaskIdle"
    using MakeCoordinator_inv by (auto simp: MakeCoordinator_def split: if_splits)
  then show ?case by (simp add: job_inv_def job_start_def tables_ok_def worker_ok_def)
next
  case (job_next j e j')
  then show ?case using inv_step inp tx by blast
qed

section \<open>Properties of jobs\<close>

lemma all_reduces_completed:
  assumes "coord_inv c" and "allDone c" and "y < nat (nReduce c)"
  shows "State_of (reduceTasks c ! y) = TaskCompleted"
proof -
  have "completed (reduceTasks c) = length (reduceTasks c)" "length (reduceTasks c) = nat (nReduce c)"
    using assms(1,2) by (auto simp: coord_inv_def)
  then show ?thesis using completed_all [of "reduceTasks c"] assms(3) by simp
qed

text \<open>When the coordinator reports the job done, the output files hold together exactly the lines that
  \<open>mrsequential\<close> writes, in whatever order the workers took their steps.\<close>

lemma job_result:
  assumes run: "job_run sortf reducef mapf fs nR fs0 j" and "Done (coord j)"
    and "fs \<noteq> []" and inp: "inputs_ok fs fs0" and tx: "texts_ok mapf fs fs0" and "key_sorter sortf" and "reducer reducef"
  shows "\<exists>ls l fs'. (\<forall>y < nat nR. disk j (out_name (int y)) = Some (Text (output_text (ls y)))) \<and>
    mrsequential sortf mapf reducef reliable fs fs0 = Inr fs' \<and>
    fs' ''mr-out-0'' = Some (Text (output_text l)) \<and> mset (concat (map ls [0..<nat nR])) = mset l"
proof -
  have "tables_ok sortf reducef mapf fs nR fs0 (coord j) (disk j)"
    using job_run_inv [OF run inp tx] by (simp add: job_inv_def)
  then have c: "coord_inv (coord j)" "nReduce (coord j) = nR" and all: "\<And>y. y < nat nR \<Longrightarrow>
      State_of (reduceTasks (coord j) ! y) = TaskCompleted \<Longrightarrow> reduce_written sortf reducef mapf fs nR fs0 (disk j) y"
    by (auto simp: tables_ok_def)
  have nR: "0 < nR" using c assms(2) by (auto simp: coord_inv_def Done_def)
  have "\<forall>y. \<exists>kva. y < nat nR \<longrightarrow> disk j (out_name (int y)) = Some (Text (output_text (reduce_groups reducef (sortf kva)))) \<and>
      mset kva = filter_mset (in_bucket nR y) (mset (all_emitted mapf fs fs0))"
    using all all_reduces_completed [OF c(1)] assms(2) c(2) unfolding reduce_written_def Done_def by blast
  then obtain kva where kva: "\<And>y. y < nat nR \<Longrightarrow> disk j (out_name (int y)) = Some (Text (output_text (reduce_groups reducef (sortf (kva y)))))"
    "\<And>y. y < nat nR \<Longrightarrow> mset (kva y) = filter_mset (in_bucket nR y) (mset (all_emitted mapf fs fs0))"
    by metis
  let ?l = "reduce_groups reducef (sortf (all_emitted mapf fs fs0))"
  have b: "in_bucket nR y = (\<lambda>kv. nat (ihash (Key kv) mod nR) = y)" for y
    using nR by (auto simp: in_bucket_def fun_eq_iff)
  have "mset (concat (map (\<lambda>y. reduce_groups reducef (sortf (kva y))) [0..<nat nR])) = mset ?l"
    by (rule reduce_phase.reduce_parts [OF reduce_phase_intro [OF assms(6,7)], where f = "\<lambda>k. nat (ihash k mod nR)"])
       (use kva(2) nR in \<open>simp_all add: b\<close>)
  moreover have "mrsequential sortf mapf reducef reliable fs fs0 = Inr (fs0(''mr-out-0'' \<mapsto> Text (output_text ?l)))"
    using seq_collect_spec [of fs fs0 mapf "[]"] inp assms(3)
    by (simp add: mrsequential_def inputs_ok_def all_emitted_def emitted_def [abs_def] Suc_le_eq)
       (simp add: reliable_def)
  ultimately show ?thesis using kva(1) by (intro exI) auto
qed

definition letter :: "char \<Rightarrow> bool" where
  "letter c \<longleftrightarrow> CHR ''a'' \<le> c \<and> c \<le> CHR ''z''"

definition demo_disk :: filesys where
  "demo_disk = [''f'' \<mapsto> Text ''b a b'']"

definition demo_coord :: Coordinator where
  "demo_coord = \<lparr>files = [''f''], nReduce = 1, nMap = 1,
     mapTasks = [\<lparr>InfoId = 0, State_of = TaskIdle, StartTime = 0, InfoFile = ''f''\<rparr>], mapDone = 0,
     reduceTasks = [\<lparr>InfoId = 0, State_of = TaskIdle, StartTime = 0, InfoFile = ''''\<rparr>], reduceDone = 0,
     phase = MapTask, allDone = False\<rparr>"

lemma demo_coord_made: "MakeCoordinator [''f''] 1 = Inr demo_coord"
  by (simp add: MakeCoordinator_def demo_coord_def)

lemma demo_words: "wc_Map letter ''f'' ''b a b'' =
    [\<lparr>Key = ''b'', Value = ''1''\<rparr>, \<lparr>Key = ''a'', Value = ''1''\<rparr>, \<lparr>Key = ''b'', Value = ''1''\<rparr>]"
  by (simp add: wc_Map_def letter_def FieldsFunc.simps Let_def less_eq_char_def)

lemma demo_names: "mr_name 0 0 = ''mr-0-0''" "out_name 0 = ''mr-out-0''"
  by (simp_all add: mr_name_def out_name_def Itoa_def nat_digits.simps digit_def char_of_def bit_Suc_0_iff)

text \<open>A worker takes the map task and stalls; the task is taken back and another worker runs it, and
  the first one runs it once more before the reduce task starts.\<close>

definition demo_job :: "io \<Rightarrow> job_event list" where
  "demo_job os =
     [Ask 0 0, Check 20000, Ask 1 20000, Run 1 reliable (wc_Map letter), Report 1,
      Run 0 os (wc_Map letter), Ask 2 21000, Run 2 reliable (wc_Map letter), Report 2]"

lemmas job_eval = demo_job_def job_start_def demo_coord_def job_step_def GetTask_def
  set_worker_def take_up_def zero_task_def assign_task_def checkTimeoutTasks_def take_back_def
  run_task_def performMapTask_def make_buckets_def Let_def report_of_def ReportTask_def set_state_def
  performReduceTask_def read_intermediate_def

lemma demo_job_runs:
  "\<exists>j. job_steps (sort_key Key) wc_Reduce (demo_job reliable) (job_start demo_coord demo_disk) = Some j \<and> Done (coord j)"
  by (simp add: job_eval demo_disk_def demo_words demo_names Done_def reliable_def encode_reliable json_read_def utf8_replaced_ascii)

lemma job_steps_run:
  assumes "job_run sortf reducef mapf fs nR fs0 j" and "\<forall>e \<in> set es. clean mapf e"
    and "job_steps sortf reducef es j = Some j'"
  shows "job_run sortf reducef mapf fs nR fs0 j'"
  using assms
proof (induction es arbitrary: j)
  case (Cons e es)
  then obtain j1 where "job_step sortf reducef e j = Some j1" "job_steps sortf reducef es j1 = Some j'"
    by (auto simp: bind_eq_Some_conv)
  moreover have "job_run sortf reducef mapf fs nR fs0 j1"
    by (rule job_next [OF Cons.prems(1)]) (use Cons.prems(2) calculation(1) in auto)
  ultimately show ?case using Cons by simp
qed simp

lemma demo_inputs: "inputs_ok [''f''] demo_disk"
  by (simp add: inputs_ok_def demo_disk_def mr_name_def out_name_def)

lemma demo_texts: "texts_ok (wc_Map letter) [''f''] demo_disk"
  by (simp add: texts_ok_def all_emitted_def emitted_def demo_disk_def demo_words ascii_valid)

text \<open>Files that are cut short break this. Intermediate files are written in place, so a slow worker
  that runs a completed map task once more and fails half-way leaves a truncated file; the reduce
  task reads what is there, and the job is done with an output that lacks words.\<close>

theorem truncated_rerun_loses_output:
  "\<exists>j fs'. job_steps (sort_key Key) wc_Reduce (demo_job (reliable\<lparr>encode_ok := (\<lambda>_ i. i = 0)\<rparr>))
       (job_start demo_coord demo_disk) = Some j \<and> Done (coord j) \<and>
     disk j (out_name 0) = Some (Text (output_text [(''b'', ''1'')])) \<and>
     mrsequential (sort_key Key) (wc_Map letter) wc_Reduce reliable [''f''] demo_disk = Inr fs' \<and>
     fs' ''mr-out-0'' = Some (Text (output_text [(''a'', ''1''), (''b'', ''2'')]))"
proof -
  have i: "Itoa 1 = ''1''" "Itoa 2 = ''2''"
    by (simp_all add: Itoa_def nat_digits.simps digit_def char_of_def bit_Suc_0_iff)
  show ?thesis
    by (simp add: job_eval demo_disk_def demo_words demo_names Done_def reliable_def encode_reliable json_read_def utf8_replaced_ascii
        mrsequential_def wc_Reduce_def i insort_key_def)
qed

section \<open>Progress of the coordinator\<close>

definition stay_completed :: "TaskInfo list \<Rightarrow> TaskInfo list \<Rightarrow> bool" where
  "stay_completed ts ts' \<longleftrightarrow>
     (\<forall>x < length ts. State_of (ts ! x) = TaskCompleted \<longrightarrow> State_of (ts' ! x) = TaskCompleted)"

lemma stay_refl [simp]: "stay_completed ts ts"
  by (simp add: stay_completed_def)

lemma stay_assign: "first_idle ts 0 n = Some i \<Longrightarrow> stay_completed ts (ts[i := assign_task now (ts ! i)])"
  by (simp add: stay_completed_def assign_completed)

lemma stay_set:
  "State_of (ts ! i) \<noteq> TaskCompleted \<or> st = TaskCompleted \<Longrightarrow> stay_completed ts (set_state ts i st)"
  by (cases "i < length ts") (auto simp: stay_completed_def set_state_def nth_list_update)

lemma stay_take_back: "stay_completed ts (map (take_back now) ts)"
  by (simp add: stay_completed_def take_back_def)

lemma stay_GetTask:
  "stay_completed (mapTasks c) (mapTasks (fst (GetTask now c)))"
  "stay_completed (reduceTasks c) (reduceTasks (fst (GetTask now c)))"
  by (auto simp: GetTask_def stay_assign split: option.splits)

lemma stay_ReportTask:
  "stay_completed (mapTasks c) (mapTasks (ReportTask args c))"
  "stay_completed (reduceTasks c) (reduceTasks (ReportTask args c))"
  by (auto simp: ReportTask_def Let_def stay_set split: TaskType.splits)

text \<open>A completed task is never handed out or counted again: through every operation of the
  coordinator a completed map or reduce task stays completed, and a finished job stays
  finished.\<close>

theorem completed_is_final:
  assumes "c' \<in> {fst (GetTask now c), ReportTask args c, checkTimeoutTasks now c}"
  shows "(\<forall>x < length (mapTasks c). State_of (mapTasks c ! x) = TaskCompleted \<longrightarrow> State_of (mapTasks c' ! x) = TaskCompleted) \<and>
    (\<forall>y < length (reduceTasks c). State_of (reduceTasks c ! y) = TaskCompleted \<longrightarrow> State_of (reduceTasks c' ! y) = TaskCompleted) \<and>
    (Done c \<longrightarrow> Done c')"
proof -
  have "stay_completed (mapTasks c) (mapTasks c') \<and> stay_completed (reduceTasks c) (reduceTasks c')"
    using assms stay_GetTask stay_ReportTask stay_take_back by (auto simp: checkTimeoutTasks_def)
  moreover have "Done c \<longrightarrow> Done c'"
    using assms by (auto simp: Done_def GetTask_def ReportTask_def Let_def checkTimeoutTasks_def split: TaskType.splits)
  ultimately show ?thesis unfolding stay_completed_def by blast
qed

theorem completed_is_final_witness:
  "State_of (mapTasks (checkTimeoutTasks 99999
      (ReportTask \<lparr>ReportType = MapTask, ReportId = 0, ReportSuccess = True\<rparr> demo_coord)) ! 0) = TaskCompleted"
proof -
  let ?c = "ReportTask \<lparr>ReportType = MapTask, ReportId = 0, ReportSuccess = True\<rparr> demo_coord"
  from completed_is_final [of "checkTimeoutTasks 99999 ?c" 99999 ?c]
  show ?thesis by (simp add: ReportTask_def demo_coord_def set_state_def)
qed

lemma first_idle_some:
  assumes "x < length ts" and "x < n" and "State_of (ts ! x) = TaskIdle"
  shows "\<exists>k \<le> x. first_idle ts 0 n = Some k"
proof (cases "first_idle ts 0 n")
  case None
  then show ?thesis using first_idle_None [OF None, of x] assms by simp
next
  case (Some k)
  have "\<not> x < k"
  proof
    assume "x < k"
    have "i + x < k \<Longrightarrow> first_idle ts i n = Some k \<Longrightarrow> State_of (ts ! x) \<noteq> TaskIdle" for i
    proof (induction ts i n arbitrary: x rule: first_idle.induct)
      case (2 t ts i n)
      then show ?case by (cases x) (auto split: if_splits)
    qed simp
    from this [of 0] show False using \<open>x < k\<close> Some assms(3) by simp
  qed
  then show ?thesis using Some by auto
qed

text \<open>C39: A task whose worker has been silent for more than ten seconds is handed out again. In a consistent
  state of the coordinator whose job is not done, if a task of the current phase has been in progress
  for that long, then after the next round of \<open>checkTimeoutTasks\<close> the next request is answered with a task of the
  phase, this one or one with a smaller number.\<close>

theorem overdue_task_is_handed_out:
  assumes "coord_inv c" and "\<not> Done c" and "tasks = (if phase c = MapTask then mapTasks c else reduceTasks c)"
    and "x < length tasks" and "State_of (tasks ! x) = TaskInProgress" and "now - StartTime (tasks ! x) > 10000"
  shows "let task = snd (GetTask later (checkTimeoutTasks now c)) in
    TaskType_of task = phase c \<and> 0 \<le> TaskId task \<and> TaskId task \<le> int x"
proof -
  have ph: "phase c = MapTask \<or> phase c = ReduceTask" using assms(1) by (auto simp: coord_inv_def)
  have idle: "State_of (map (take_back now) tasks ! x) = TaskIdle" using assms(4-6) by (simp add: take_back_def)
  have "length tasks = (if phase c = MapTask then nat (nMap c) else nat (nReduce c))"
    using assms(1,3) by (auto simp: coord_inv_def)
  then have "\<exists>k \<le> x. first_idle (map (take_back now) tasks) 0 (if phase c = MapTask then nat (nMap c) else nat (nReduce c)) = Some k"
    using first_idle_some [OF _ _ idle] assms(4) by simp
  then show ?thesis using ph assms(2,3)
    by (auto simp: GetTask_def checkTimeoutTasks_def Done_def zero_task_def Let_def)
qed

theorem overdue_task_is_handed_out_witness:
  "TaskType_of (snd (GetTask 20001 (checkTimeoutTasks 20000 (fst (GetTask 0 demo_coord))))) = MapTask"
proof -
  have i: "coord_inv (fst (GetTask 0 demo_coord))" by (rule GetTask_inv [OF MakeCoordinator_inv [OF demo_coord_made]])
  from overdue_task_is_handed_out [OF i _ refl, of 0 20000 20001] show ?thesis
    by (simp add: GetTask_def demo_coord_def assign_task_def Done_def Let_def)
qed

text \<open>A job without input files is never done: the coordinator stays in the map phase, since only
  the report of a map task ends it, and tells every worker to wait.\<close>

theorem empty_job_never_done:
  assumes "job_run sortf reducef mapf [] nR fs0 j"
  shows "\<not> Done (coord j) \<and> phase (coord j) = MapTask"
proof -
  have "allDone (coord j) = False \<and> phase (coord j) = MapTask \<and> mapTasks (coord j) = [] \<and> (\<forall>w. workers j w = Free)"
    using assms
  proof (induction rule: job_run.induct)
    case (job_begin c)
    then show ?case by (auto simp: MakeCoordinator_def job_start_def split: if_splits)
  next
    case (job_next j e j')
    then show ?case by (cases e) (auto simp: job_step_def GetTask_def take_up_def zero_task_def set_worker_def
          checkTimeoutTasks_def)
  qed
  then show ?thesis by (simp add: Done_def)
qed

theorem empty_job_never_done_witness:
  "\<exists>c. MakeCoordinator [] 3 = Inr c \<and> \<not> Done (coord (job_start c demo_disk))"
proof -
  obtain c where c: "MakeCoordinator [] 3 = Inr c" by (simp add: MakeCoordinator_def)
  from empty_job_never_done [OF job_begin [OF c, of "sort_key Key" wc_Reduce "wc_Map letter" demo_disk]] c
  show ?thesis by blast
qed

end
