(* ===== verification/JsonEntries.thy ===== *)
theory JsonEntries
  imports Prelude
begin

text \<open>
  What the tests use of \<open>encoding/json\<close> (\<open>kvtest1/kvtest.go\<close>: \<open>PutJson\<close>, \<open>GetJson\<close>): \<open>json.Marshal\<close> of
  a struct with two integer fields and of a slice of such structs, and \<open>json.Unmarshal\<close> of the text
  \<open>Marshal\<close> writes, which has no spaces and the fields in order. A text of another form is an error
  here.
\<close>

section \<open>Integers\<close>

definition is_digit :: "char \<Rightarrow> bool" where
  "is_digit c \<longleftrightarrow> 48 \<le> (of_char c :: nat) \<and> (of_char c :: nat) \<le> 57"

definition parse_nat :: "string \<Rightarrow> (nat \<times> string) option" where
  "parse_nat s = (let ds = takeWhile is_digit s in if ds = [] then None else Some (digits_value ds, dropWhile is_digit s))"

definition parse_int :: "string \<Rightarrow> (int \<times> string) option" where
  "parse_int s = (case s of
     c # r \<Rightarrow> (if c = CHR ''-'' then map_option (\<lambda>(n, r'). (- int n, r')) (parse_nat r)
              else map_option (\<lambda>(n, r'). (int n, r')) (parse_nat s))
   | [] \<Rightarrow> None)"

lemma digits_are_digits: "c \<in> set (nat_digits n) \<Longrightarrow> is_digit c"
proof (induction n arbitrary: c rule: nat_digits.induct)
  case (1 n)
  have d: "is_digit (digit (n mod 10))" "n < 10 \<Longrightarrow> is_digit (digit n)" by (simp_all add: is_digit_def)
  then show ?case using 1 by (cases "n < 10") (auto simp: nat_digits.simps [of n])
qed

lemma nat_digits_nonempty [simp]: "nat_digits n \<noteq> []"
  by (simp add: nat_digits.simps [of n])

lemma parse_nat_digits:
  assumes "r = [] \<or> \<not> is_digit (hd r)"
  shows "parse_nat (nat_digits n @ r) = Some (n, r)"
proof -
  have "takeWhile is_digit (nat_digits n @ r) = nat_digits n" "dropWhile is_digit (nat_digits n @ r) = r"
    using assms digits_are_digits by (cases r; auto simp: takeWhile_append dropWhile_append)+
  then show ?thesis by (simp add: parse_nat_def digits_round_trip)
qed

lemma parse_Itoa:
  assumes "r = [] \<or> \<not> is_digit (hd r)"
  shows "parse_int (Itoa i @ r) = Some (i, r)"
proof (cases "0 \<le> i")
  case True
  obtain c cs where c: "nat_digits (nat i) = c # cs" using nat_digits_nonempty by (cases "nat_digits (nat i)") auto
  then have "c \<noteq> CHR ''-''" using digits_set [of c "nat i"] by simp
  then show ?thesis using parse_nat_digits [OF assms, of "nat i"] c True by (simp add: parse_int_def Itoa_def)
next
  case False
  then show ?thesis using parse_nat_digits [OF assms, of "nat (- i)"] by (simp add: parse_int_def Itoa_def)
qed

section \<open>Structs and slices\<close>

text \<open>\<open>pre "x" s\<close> is what follows the text \<open>x\<close> in \<open>s\<close>.\<close>

definition pre :: "string \<Rightarrow> string \<Rightarrow> string option" where
  "pre x s = (if take (length x) s = x then Some (drop (length x) s) else None)"

lemma pre_append [simp]: "pre x (x @ r) = Some r"
  by (simp add: pre_def)

definition dquote :: char where
  "dquote = CHR 0x22"

definition field :: "string \<Rightarrow> string" where
  "field k = dquote # k @ dquote # '':''"

definition marshal_pair :: "string \<Rightarrow> string \<Rightarrow> int \<times> int \<Rightarrow> string" where
  "marshal_pair k1 k2 p = ''{'' @ field k1 @ Itoa (fst p) @ '','' @ field k2 @ Itoa (snd p) @ ''}''"

definition parse_pair :: "string \<Rightarrow> string \<Rightarrow> string \<Rightarrow> ((int \<times> int) \<times> string) option" where
  "parse_pair k1 k2 s =
     Option.bind (pre (''{'' @ field k1) s) (\<lambda>s1. Option.bind (parse_int s1) (\<lambda>(a, s2).
     Option.bind (pre ('','' @ field k2) s2) (\<lambda>s3. Option.bind (parse_int s3) (\<lambda>(b, s4).
     map_option (\<lambda>s5. ((a, b), s5)) (pre ''}'' s4)))))"

lemma not_digit [simp]: "\<not> is_digit CHR '',''" "\<not> is_digit CHR ''}''"
  by (simp_all add: is_digit_def)

lemma parse_marshal_pair: "parse_pair k1 k2 (marshal_pair k1 k2 p @ r) = Some (p, r)"
proof -
  have "pre (''{'' @ field k1) (marshal_pair k1 k2 p @ r) = Some (Itoa (fst p) @ '','' @ field k2 @ Itoa (snd p) @ ''}'' @ r)"
    using pre_append [of "''{'' @ field k1" "Itoa (fst p) @ '','' @ field k2 @ Itoa (snd p) @ ''}'' @ r"] by (simp add: marshal_pair_def)
  moreover have "parse_int (Itoa (fst p) @ '','' @ field k2 @ Itoa (snd p) @ ''}'' @ r) = Some (fst p, '','' @ field k2 @ Itoa (snd p) @ ''}'' @ r)"
    by (rule parse_Itoa) simp
  moreover have "pre ('','' @ field k2) ('','' @ field k2 @ Itoa (snd p) @ ''}'' @ r) = Some (Itoa (snd p) @ ''}'' @ r)"
    using pre_append [of "'','' @ field k2" "Itoa (snd p) @ ''}'' @ r"] by simp
  moreover have "parse_int (Itoa (snd p) @ ''}'' @ r) = Some (snd p, ''}'' @ r)" by (rule parse_Itoa) simp
  moreover have "pre ''}'' (''}'' @ r) = Some r" by (rule pre_append)
  ultimately show ?thesis by (simp add: parse_pair_def)
qed

fun marshal_items :: "string \<Rightarrow> string \<Rightarrow> (int \<times> int) list \<Rightarrow> string" where
  "marshal_items k1 k2 [] = []"
| "marshal_items k1 k2 [p] = marshal_pair k1 k2 p"
| "marshal_items k1 k2 (p # ps) = marshal_pair k1 k2 p @ '','' @ marshal_items k1 k2 ps"

definition marshal_slice :: "string \<Rightarrow> string \<Rightarrow> (int \<times> int) list \<Rightarrow> string" where
  "marshal_slice k1 k2 ps = ''['' @ marshal_items k1 k2 ps @ '']''"

text \<open>Every item takes at least one character, so the length of the text is fuel enough.\<close>

fun parse_items :: "nat \<Rightarrow> string \<Rightarrow> string \<Rightarrow> string \<Rightarrow> (int \<times> int) list option" where
  "parse_items 0 k1 k2 s = None"
| "parse_items (Suc n) k1 k2 s =
     (case parse_pair k1 k2 s of
        None \<Rightarrow> None
      | Some (p, r) \<Rightarrow> (if r = '']'' then Some [p]
          else case pre '','' r of None \<Rightarrow> None | Some r' \<Rightarrow> map_option (\<lambda>ps. p # ps) (parse_items n k1 k2 r')))"

definition unmarshal_slice :: "string \<Rightarrow> string \<Rightarrow> string \<Rightarrow> (int \<times> int) list option" where
  "unmarshal_slice k1 k2 s =
     Option.bind (pre ''['' s) (\<lambda>r. if r = '']'' then Some [] else parse_items (length r) k1 k2 r)"

lemma parse_items_marshal:
  assumes "ps \<noteq> []" and "length ps \<le> n"
  shows "parse_items n k1 k2 (marshal_items k1 k2 ps @ '']'') = Some ps"
  using assms
proof (induction k1 k2 ps arbitrary: n rule: marshal_items.induct)
  case (2 k1 k2 p)
  then show ?case using parse_marshal_pair [of k1 k2 p "'']''"] by (cases n) auto
next
  case (3 k1 k2 p q ps)
  then obtain m where n: "n = Suc m" "length (q # ps) \<le> m" by (cases n) auto
  have "parse_pair k1 k2 (marshal_items k1 k2 (p # q # ps) @ '']'') = Some (p, '','' @ marshal_items k1 k2 (q # ps) @ '']'')"
    using parse_marshal_pair [of k1 k2 p "'','' @ marshal_items k1 k2 (q # ps) @ '']''"] by simp
  moreover have "pre '','' ('','' @ marshal_items k1 k2 (q # ps) @ '']'') = Some (marshal_items k1 k2 (q # ps) @ '']'')"
    by (rule pre_append)
  moreover have "'','' @ marshal_items k1 k2 (q # ps) @ '']'' \<noteq> '']''" by simp
  ultimately show ?case using 3(1) [OF _ n(2)] n(1) by (simp del: marshal_items.simps append_Cons append_Nil)
qed simp

lemma length_marshal_items: "length ps \<le> length (marshal_items k1 k2 ps)"
  by (induction k1 k2 ps rule: marshal_items.induct) (auto simp: marshal_pair_def)

lemma marshal_items_start: "marshal_items k1 k2 (p # ps) @ r \<noteq> '']''"
  by (cases ps) (simp_all add: marshal_pair_def)

text \<open>A slice that was marshalled unmarshals to itself.\<close>

theorem unmarshal_marshal: "unmarshal_slice k1 k2 (marshal_slice k1 k2 ps) = Some ps"
proof (cases ps)
  case Nil
  then show ?thesis by (simp add: unmarshal_slice_def marshal_slice_def pre_def)
next
  case (Cons p ps')
  have "pre ''['' (marshal_slice k1 k2 ps) = Some (marshal_items k1 k2 ps @ '']'')"
    unfolding marshal_slice_def by (rule pre_append)
  then show ?thesis
    using parse_items_marshal [of ps "length (marshal_items k1 k2 ps @ '']'')" k1 k2] length_marshal_items [of ps k1 k2]
      marshal_items_start [of k1 k2 p ps' "'']''"] Cons
    by (simp add: unmarshal_slice_def del: append_Cons append_Nil marshal_items.simps)
qed

text \<open>\<open>json.Unmarshal\<close> of a single struct: the whole text must be used.\<close>

definition unmarshal_pair :: "string \<Rightarrow> string \<Rightarrow> string \<Rightarrow> (int \<times> int) option" where
  "unmarshal_pair k1 k2 s = (case parse_pair k1 k2 s of Some (p, []) \<Rightarrow> Some p | _ \<Rightarrow> None)"

lemma unmarshal_marshal_pair: "unmarshal_pair k1 k2 (marshal_pair k1 k2 p) = Some p"
  using parse_marshal_pair [of k1 k2 p "[]"] by (simp add: unmarshal_pair_def)

end
