(* ===== verification/Commands.thy ===== *)
theory Commands
  imports MRJob JsonEntries
begin

text \<open>
  The programs of \<open>main\<close>: what each does with its arguments and which calls it makes. The services they
  start and talk to (\<open>lockservice\<close>, \<open>pbservice\<close>, \<open>viewservice\<close>, \<open>diskv\<close>) are not part of the repository: a
  server program is the call that starts its server, and a client program takes the operations it calls
  as arguments. Plugins are looked up through arguments, and the calls between the MapReduce programs go over a
  socket that may not be there and may lose a request or a reply. \<open>mrsequential\<close> is run from its command line, with
  the plugin it loads and the methods by which its pairs are sorted.
\<close>

section \<open>Programs\<close>

text \<open>\<open>Exit\<close>: \<open>os.Exit\<close> with what was printed before; \<open>Returns\<close>: the end of \<open>main\<close>; \<open>Serves\<close>: a server was started
  with these arguments and the program sleeps from then on, for ever or for a number of seconds.\<close>

datatype 'a process = Exit int "string list" | Returns "string list" | Serves "int option" 'a

definition lockd_main :: "string list \<Rightarrow> (string \<times> string \<times> bool) process" where
  "lockd_main args =
     (if length args = 4 \<and> args ! 1 = ''-p'' then Serves None (args ! 2, args ! 3, True)
      else if length args = 4 \<and> args ! 1 = ''-b'' then Serves None (args ! 2, args ! 3, False)
      else Exit 1 [''Usage: lockd -p|-b primaryport backupport''])"

definition lockc_usage :: "'a process" where
  "lockc_usage = Exit 1 [''Usage: lockc -l|-u primaryport backupport lockname'']"

definition show_bool :: "bool \<Rightarrow> string" where
  "show_bool b = (if b then ''true'' else ''false'')"

definition lockc_main :: "(string \<Rightarrow> string \<Rightarrow> 'ck) \<Rightarrow> ('ck \<Rightarrow> string \<Rightarrow> 'w \<Rightarrow> 'w \<times> bool) \<Rightarrow> ('ck \<Rightarrow> string \<Rightarrow> 'w \<Rightarrow> 'w \<times> bool) \<Rightarrow>
    string list \<Rightarrow> 'w \<Rightarrow> 'w \<times> unit process" where
  "lockc_main MakeClerk Lock Unlock args w =
     (if length args = 5 then
        (let ck = MakeClerk (args ! 2) (args ! 3) in
         if args ! 1 = ''-l'' then (let (w1, ok) = Lock ck (args ! 4) w in (w1, Returns [''reply: '' @ show_bool ok]))
         else if args ! 1 = ''-u'' then (let (w1, ok) = Unlock ck (args ! 4) w in (w1, Returns [''reply: '' @ show_bool ok]))
         else (w, lockc_usage))
      else (w, lockc_usage))"

definition viewd_main :: "string list \<Rightarrow> string process" where
  "viewd_main args = (if length args \<noteq> 2 then Exit 1 [''Usage: viewd port''] else Serves None (args ! 1))"

definition pbd_main :: "string list \<Rightarrow> (string \<times> string) process" where
  "pbd_main args = (if length args \<noteq> 3 then Exit 1 [''Usage: pbd viewport myport''] else Serves None (args ! 1, args ! 2))"

definition pbc_main :: "(string \<Rightarrow> string \<Rightarrow> 'ck) \<Rightarrow> ('ck \<Rightarrow> string \<Rightarrow> 'w \<Rightarrow> 'w \<times> string) \<Rightarrow> ('ck \<Rightarrow> string \<Rightarrow> string \<Rightarrow> 'w \<Rightarrow> 'w) \<Rightarrow>
    string list \<Rightarrow> 'w \<Rightarrow> 'w \<times> unit process" where
  "pbc_main MakeClerk Get Put args w =
     (if length args = 3 then
        (let ck = MakeClerk (args ! 1) ''''; (w1, v) = Get ck (args ! 2) w in (w1, Returns [v]))
      else if length args = 4 then
        (let ck = MakeClerk (args ! 1) '''' in (Put ck (args ! 2) (args ! 3) w, Returns []))
      else (w, Exit 1 [''Usage: pbc viewport key'', ''       pbc viewport key value'']))"

section \<open>diskvd\<close>

text \<open>\<open>strconv.ParseInt(s, 10, 64)\<close> and \<open>Atoi\<close> without their error, which the program drops: a text that is no
  number is 0, a number that does not fit the nearest one that does.\<close>

definition ParseInt :: "string \<Rightarrow> int" where
  "ParseInt s =
     (let neg = (s \<noteq> [] \<and> hd s = CHR ''-''); ds = (if s \<noteq> [] \<and> (hd s = CHR ''-'' \<or> hd s = CHR ''+'') then tl s else s) in
      if ds = [] \<or> \<not> list_all is_digit ds then 0
      else let n = int (digits_value ds) in
        if \<not> neg \<and> n \<ge> 2 ^ 63 then 2 ^ 63 - 1
        else if neg \<and> n > 2 ^ 63 then - (2 ^ 63)
        else if neg then - n else n)"

definition ParseBool :: "string \<Rightarrow> bool" where
  "ParseBool s \<longleftrightarrow> s \<in> set [''1'', ''t'', ''T'', ''true'', ''TRUE'', ''True'']"

record diskvd_args =
  gid :: int
  masters :: "string list"
  replicas :: "string list"
  my_index :: int
  unreliable :: bool
  dir :: string
  restart_flag :: bool

definition diskvd_init :: diskvd_args where
  "diskvd_init = \<lparr>gid = -1, masters = [], replicas = [], my_index = -1, unreliable = False, dir = '''', restart_flag = False\<rparr>"

text \<open>The loop over pairs of arguments; a last argument without a partner is not looked at. \<open>None\<close>: \<open>usage\<close>.\<close>

fun diskvd_scan :: "string list \<Rightarrow> diskvd_args \<Rightarrow> diskvd_args option" where
  "diskvd_scan (a0 # a1 # rest) c =
     (if a0 = ''-g'' then diskvd_scan rest (c\<lparr>gid := ParseInt a1\<rparr>)
      else if a0 = ''-m'' then diskvd_scan rest (c\<lparr>masters := masters c @ [a1]\<rparr>)
      else if a0 = ''-s'' then diskvd_scan rest (c\<lparr>replicas := replicas c @ [a1]\<rparr>)
      else if a0 = ''-i'' then diskvd_scan rest (c\<lparr>my_index := ParseInt a1\<rparr>)
      else if a0 = ''-u'' then diskvd_scan rest (c\<lparr>unreliable := ParseBool a1\<rparr>)
      else if a0 = ''-d'' then diskvd_scan rest (c\<lparr>dir := a1\<rparr>)
      else if a0 = ''-r'' then diskvd_scan rest (c\<lparr>restart_flag := ParseBool a1\<rparr>)
      else None)"
| "diskvd_scan _ c = Some c"

definition diskvd_usage :: "'a process" where
  "diskvd_usage = Exit 1 [''Usage: diskvd -g gid -m master... -s server... -i my-index -d dir'']"

definition diskvd_main :: "string list \<Rightarrow> diskvd_args process" where
  "diskvd_main args =
     (case diskvd_scan (tl args) diskvd_init of
        None \<Rightarrow> diskvd_usage
      | Some c \<Rightarrow>
          if gid c < 0 \<or> my_index c < 0 \<or> length (masters c) < 1 \<or> my_index c \<ge> int (length (replicas c)) \<or> dir c = ''''
          then diskvd_usage else Serves (Some (10 * 60)) c)"

text \<open>What the arguments mean: flags with values, in which the last value of a flag counts and the values
  of \<open>-m\<close> and \<open>-s\<close> are collected.\<close>

fun arg_pairs :: "string list \<Rightarrow> (string \<times> string) list" where
  "arg_pairs (a0 # a1 # rest) = (a0, a1) # arg_pairs rest"
| "arg_pairs _ = []"

definition given :: "string \<Rightarrow> (string \<times> string) list \<Rightarrow> string list" where
  "given f ps = map snd (filter (\<lambda>p. fst p = f) ps)"

definition last_given :: "'a \<Rightarrow> (string \<Rightarrow> 'a) \<Rightarrow> string \<Rightarrow> (string \<times> string) list \<Rightarrow> 'a" where
  "last_given d f k ps = (if given k ps = [] then d else f (last (given k ps)))"

definition diskvd_known :: "string \<times> string \<Rightarrow> bool" where
  "diskvd_known p \<longleftrightarrow> fst p \<in> set [''-g'', ''-m'', ''-s'', ''-i'', ''-u'', ''-d'', ''-r'']"

lemma given_simps [simp]: "given f [] = []" "given f ((k, v) # ps) = (if k = f then v # given f ps else given f ps)"
  by (simp_all add: given_def)

lemma last_given_simps [simp]: "last_given d f k [] = d"
  "last_given d f k ((k', v) # ps) = last_given (if k' = k then f v else d) f k ps"
  by (auto simp: last_given_def)

lemma diskvd_scan_spec:
  "diskvd_scan as c =
     (if list_all diskvd_known (arg_pairs as) then
        Some \<lparr>gid = last_given (gid c) ParseInt ''-g'' (arg_pairs as), masters = masters c @ given ''-m'' (arg_pairs as),
          replicas = replicas c @ given ''-s'' (arg_pairs as), my_index = last_given (my_index c) ParseInt ''-i'' (arg_pairs as),
          unreliable = last_given (unreliable c) ParseBool ''-u'' (arg_pairs as), dir = last_given (dir c) (\<lambda>v. v) ''-d'' (arg_pairs as),
          restart_flag = last_given (restart_flag c) ParseBool ''-r'' (arg_pairs as)\<rparr>
      else None)"
  by (induction as c rule: diskvd_scan.induct) (simp_all add: diskvd_known_def)

text \<open>\<open>diskvd\<close> starts a server exactly for arguments that name only its flags and give a group, at least
  one master, an index of one of the replicas and a directory; the server then gets the last value of each
  flag and all masters and replicas in order. Otherwise the program prints its usage and exits.\<close>

theorem diskvd_serves_exactly:
  "diskvd_main args =
     (let ps = arg_pairs (tl args); g = last_given (-1) ParseInt ''-g'' ps; i = last_given (-1) ParseInt ''-i'' ps in
      if list_all diskvd_known ps \<and> 0 \<le> g \<and> 0 \<le> i \<and> i < int (length (given ''-s'' ps)) \<and> given ''-m'' ps \<noteq> [] \<and> last_given '''' (\<lambda>v. v) ''-d'' ps \<noteq> ''''
      then Serves (Some 600) \<lparr>gid = g, masters = given ''-m'' ps, replicas = given ''-s'' ps, my_index = i,
          unreliable = last_given False ParseBool ''-u'' ps, dir = last_given '''' (\<lambda>v. v) ''-d'' ps, restart_flag = last_given False ParseBool ''-r'' ps\<rparr>
      else Exit 1 [''Usage: diskvd -g gid -m master... -s server... -i my-index -d dir''])"
  unfolding diskvd_main_def diskvd_scan_spec by (simp add: Let_def diskvd_init_def diskvd_usage_def Suc_le_eq not_le not_less)

text \<open>A group or index that is no number is taken for 0, and passes the check.\<close>

lemma ParseInt_not_number: "\<not> list_all is_digit s \<Longrightarrow> hd s \<noteq> CHR ''-'' \<Longrightarrow> hd s \<noteq> CHR ''+'' \<Longrightarrow> ParseInt s = 0"
  by (auto simp: ParseInt_def Let_def)

theorem diskvd_takes_any_group:
  "diskvd_main [''diskvd'', ''-g'', ''ten'', ''-m'', ''m'', ''-s'', ''s'', ''-i'', ''x'', ''-d'', ''d''] =
     Serves (Some 600) \<lparr>gid = 0, masters = [''m''], replicas = [''s''], my_index = 0, unreliable = False, dir = ''d'', restart_flag = False\<rparr>"
  by (simp add: diskvd_main_def diskvd_init_def ParseInt_def is_digit_def Let_def)

lemma ParseInt_Itoa:
  assumes "- (2 ^ 63) \<le> i" and "i < 2 ^ 63"
  shows "ParseInt (Itoa i) = i"
proof -
  obtain c cs where c: "nat_digits (nat \<bar>i\<bar>) = c # cs" using nat_digits_nonempty by (cases "nat_digits (nat \<bar>i\<bar>)") auto
  have d: "list_all is_digit (nat_digits (nat \<bar>i\<bar>))" using digits_are_digits by (auto simp: list_all_iff)
  then have "c \<noteq> CHR ''-''" "c \<noteq> CHR ''+''" using c by (auto simp: is_digit_def)
  then show ?thesis using assms c d digits_round_trip [of "nat \<bar>i\<bar>"] by (cases "i < 0") (auto simp: ParseInt_def Itoa_def Let_def)
qed

section \<open>The MapReduce programs\<close>

text \<open>A plugin is what \<open>plugin.Open\<close> finds; a symbol of another type fails its type assertion, a run-time panic.\<close>

datatype symbol = MapSym map_fun | ReduceSym reduce_fun | OtherSym

definition loadPlugin :: "(string \<Rightarrow> 'p option) \<Rightarrow> ('p \<Rightarrow> string \<Rightarrow> symbol option) \<Rightarrow> string \<Rightarrow> (map_fun \<times> reduce_fun) go" where
  "loadPlugin Open Lookup filename =
     (case Open filename of
        None \<Rightarrow> Inl (Fatal (''cannot load plugin '' @ filename))
      | Some p \<Rightarrow>
          (case Lookup p ''Map'' of
             None \<Rightarrow> Inl (Fatal (''cannot find Map in '' @ filename))
           | Some xmapf \<Rightarrow>
               (case xmapf of
                  MapSym mapf \<Rightarrow>
                    (case Lookup p ''Reduce'' of
                       None \<Rightarrow> Inl (Fatal (''cannot find Reduce in '' @ filename))
                     | Some xreducef \<Rightarrow> (case xreducef of ReduceSym reducef \<Rightarrow> Inr (mapf, reducef) | _ \<Rightarrow> Inl TypeAssertion))
                | _ \<Rightarrow> Inl TypeAssertion)))"

lemma loadPlugin_loads:
  "loadPlugin Open Lookup f = Inr (mapf, reducef) \<longleftrightarrow>
     (\<exists>p. Open f = Some p \<and> Lookup p ''Map'' = Some (MapSym mapf) \<and> Lookup p ''Reduce'' = Some (ReduceSym reducef))"
  by (auto simp: loadPlugin_def split: option.splits symbol.splits)

text \<open>Calls between workers and the coordinator: the socket of the user who runs both, and the methods
  \<open>net/rpc\<close> finds for the registered coordinator.\<close>

definition coordinatorSock :: "int \<Rightarrow> string" where
  "coordinatorSock uid = ''/var/tmp/5840-mr-'' @ Itoa uid"

definition coord_server :: "int \<Rightarrow> bool \<Rightarrow> string set \<Rightarrow> string set go" where
  "coord_server uid listen_ok sockets =
     (let s1 = sockets - {coordinatorSock uid} in
      if \<not> listen_ok then Inl (Fatal ''listen error:'') else Inr (insert (coordinatorSock uid) s1))"

datatype mr_args = GetTaskArgs | ReportArgs ReportTaskArgs | ExampleArgs int
datatype mr_reply = GetTaskReply Task | ReportTaskReply | ExampleReply int

definition Example :: "int \<Rightarrow> mr_reply" where
  "Example x = ExampleReply (x + 1)"

definition coord_method :: "int \<Rightarrow> string \<Rightarrow> mr_args \<Rightarrow> Coordinator \<Rightarrow> (Coordinator \<times> mr_reply) option" where
  "coord_method now rpcname args c =
     (case args of
        GetTaskArgs \<Rightarrow> if rpcname = ''Coordinator.GetTask'' then (let (c1, t) = GetTask now c in Some (c1, GetTaskReply t)) else None
      | ReportArgs r \<Rightarrow> if rpcname = ''Coordinator.ReportTask'' then Some (ReportTask r c, ReportTaskReply) else None
      | ExampleArgs x \<Rightarrow> if rpcname = ''Coordinator.Example'' then Some (c, Example x) else None)"

text \<open>What becomes of a call on an open connection.\<close>

datatype call_fate = Answered | RequestLost | ReplyLost

text \<open>\<open>call\<close>: the coordinator afterwards, and the reply if there is one; without a connection the caller exits.\<close>

definition call :: "string set \<Rightarrow> int \<Rightarrow> call_fate \<Rightarrow> int \<Rightarrow> string \<Rightarrow> mr_args \<Rightarrow> Coordinator \<Rightarrow> Coordinator \<times> mr_reply option go" where
  "call sockets uid fate now rpcname args c =
     (if coordinatorSock uid \<notin> sockets then (c, Inl (Fatal ''dialing:''))
      else if fate = RequestLost then (c, Inr None)
      else case coord_method now rpcname args c of
             None \<Rightarrow> (c, Inr None)
           | Some (c1, reply) \<Rightarrow> (c1, Inr (if fate = ReplyLost then None else Some reply)))"

definition getTask :: "string set \<Rightarrow> int \<Rightarrow> call_fate \<Rightarrow> int \<Rightarrow> Coordinator \<Rightarrow> Coordinator \<times> Task go" where
  "getTask sockets uid fate now c =
     (let (c1, r) = call sockets uid fate now ''Coordinator.GetTask'' GetTaskArgs c in
      (c1, go_bind r (\<lambda>reply. case reply of Some (GetTaskReply t) \<Rightarrow> Inr t
             | _ \<Rightarrow> Inl (Fatal ''Failed to get task from coordinator''))))"

definition CallExample :: "string set \<Rightarrow> int \<Rightarrow> call_fate \<Rightarrow> int \<Rightarrow> Coordinator \<Rightarrow> string go" where
  "CallExample sockets uid fate now c =
     go_map (\<lambda>reply. case reply of Some (ExampleReply y) \<Rightarrow> ''reply.Y '' @ Itoa y | _ \<Rightarrow> ''call failed!'')
       (snd (call sockets uid fate now ''Coordinator.Example'' (ExampleArgs 99) c))"

text \<open>A worker of the same user gets what the coordinator hands out, or exits; a task whose reply is lost stays
  handed out.\<close>

lemma getTask_cases:
  assumes "coord_server uid True sockets = Inr sockets'"
  shows "getTask sockets' uid Answered now c = (let (c1, t) = GetTask now c in (c1, Inr t))"
    "getTask sockets' uid RequestLost now c = (c, Inl (Fatal ''Failed to get task from coordinator''))"
    "getTask sockets' uid ReplyLost now c = (fst (GetTask now c), Inl (Fatal ''Failed to get task from coordinator''))"
  using assms by (auto simp: coord_server_def Let_def getTask_def call_def coord_method_def split: prod.splits)

lemma getTask_other_user:
  "coord_server uid True {} = Inr sockets \<Longrightarrow> uid' \<noteq> uid \<Longrightarrow> getTask sockets uid' fate now c = (c, Inl (Fatal ''dialing:''))"
proof -
  assume "coord_server uid True {} = Inr sockets" and "uid' \<noteq> uid"
  moreover have "Itoa uid' \<noteq> Itoa uid" if "uid' \<noteq> uid" for uid' uid
    using parse_Itoa [of "[]" uid'] parse_Itoa [of "[]" uid] that by auto
  ultimately show ?thesis by (auto simp: coord_server_def getTask_def call_def coordinatorSock_def)
qed

lemma CallExample_answer: "coordinatorSock uid \<in> sockets \<Longrightarrow> CallExample sockets uid Answered now c = Inr (''reply.Y '' @ Itoa 100)"
  by (simp add: CallExample_def call_def coord_method_def Example_def)

section \<open>The coordinator's and the worker's main\<close>

text \<open>\<open>mrcoordinator\<close> asks every second whether the job is done, while events of the job happen, and sleeps
  a last second; \<open>None\<close>: it has not returned.\<close>

fun coordinator_loop :: "sort_fun \<Rightarrow> reduce_fun \<Rightarrow> job_event list list \<Rightarrow> job \<Rightarrow> job option" where
  "coordinator_loop sortf reducef [] j = None"
| "coordinator_loop sortf reducef (es # ess) j =
     (if Done (coord j) then job_steps sortf reducef es j
      else Option.bind (job_steps sortf reducef es j) (coordinator_loop sortf reducef ess))"

definition mrcoordinator_main :: "sort_fun \<Rightarrow> reduce_fun \<Rightarrow> string list \<Rightarrow> job_event list list \<Rightarrow> filesys \<Rightarrow> (job option) go" where
  "mrcoordinator_main sortf reducef args ess fs =
     (if length args < 2 then Inl (Fatal ''Usage: mrcoordinator inputfiles...'')
      else go_map (\<lambda>c. coordinator_loop sortf reducef ess (job_start c fs)) (MakeCoordinator (tl args) 10))"

definition mrworker_main :: "(string \<Rightarrow> 'p option) \<Rightarrow> ('p \<Rightarrow> string \<Rightarrow> symbol option) \<Rightarrow> string list \<Rightarrow> (map_fun \<times> reduce_fun) go" where
  "mrworker_main Open Lookup args =
     (if length args \<noteq> 2 then Inl (Fatal ''Usage: mrworker xxx.so'') else loadPlugin Open Lookup (args ! 1))"

lemma Done_steps: "Done (coord j) \<Longrightarrow> job_step sortf reducef e j = Some j' \<Longrightarrow> Done (coord j')"
  by (auto simp: Done_def job_step_def set_worker_def GetTask_def ReportTask_def checkTimeoutTasks_def Let_def
      split: job_event.splits worker.splits sum.splits prod.splits if_splits option.splits TaskType.splits)

lemma Done_stays: "Done (coord j) \<Longrightarrow> job_steps sortf reducef es j = Some j' \<Longrightarrow> Done (coord j')"
  by (induction es arbitrary: j) (auto simp: bind_eq_Some_conv dest: Done_steps)

lemma coordinator_loop_run:
  assumes "coordinator_loop sortf reducef ess j = Some j'" and "job_run sortf reducef mapf fs nR fs0 j"
    and "list_all (list_all (clean mapf)) ess"
  shows "job_run sortf reducef mapf fs nR fs0 j' \<and> Done (coord j')"
  using assms
proof (induction ess arbitrary: j)
  case (Cons es ess)
  have c: "\<forall>e \<in> set es. clean mapf e" using Cons.prems(3) by (simp add: list_all_iff)
  show ?case
  proof (cases "Done (coord j)")
    case True
    then have "job_steps sortf reducef es j = Some j'" using Cons.prems(1) by simp
    then show ?thesis using True job_steps_run [OF Cons.prems(2) c] Done_stays by blast
  next
    case False
    then obtain j1 where j1: "job_steps sortf reducef es j = Some j1" "coordinator_loop sortf reducef ess j1 = Some j'"
      using Cons.prems(1) by (auto simp: bind_eq_Some_conv)
    show ?thesis using Cons.IH [OF j1(2) job_steps_run [OF Cons.prems(2) c j1(1)]] Cons.prems(3) by simp
  qed
qed simp

text \<open>C6: When the program \<open>mrcoordinator\<close> returns, its job has the result of the sequential program: the ten
  output files hold together exactly the lines that \<open>mrsequential\<close> writes for the same files. The number of
  workers and the order of their steps are arbitrary, and so are workers that die between two steps (while they ask,
  before they run a task they got, before they report it), lost reports, and tasks taken back and run again, also after they
  were completed and in the last second. The conditions are that no run of a task is cut short (each is one step
  whose file operations all succeed; without this the output can be lost, as other theorems here show),
  that the map function returns the same pairs each time, in some order, that keys and values are well-formed UTF-8,
  which the JSON of the intermediate files keeps, that the sort sorts, that the reduce function does not depend
  on the order of values, and that the input files exist and are not named like the job's own.\<close>

theorem coordinator_exits_with_result:
  assumes "mrcoordinator_main sortf reducef (prog # fs) ess fs0 = Inr (Some j)" and "list_all (list_all (clean mapf)) ess"
    and "inputs_ok fs fs0" and "texts_ok mapf fs fs0" and "key_sorter sortf" and "reducer reducef"
  shows "\<exists>ls l fs'. (\<forall>y < 10. disk j (out_name (int y)) = Some (Text (output_text (ls y)))) \<and>
    mrsequential sortf mapf reducef reliable fs fs0 = Inr fs' \<and>
    fs' ''mr-out-0'' = Some (Text (output_text l)) \<and> mset (concat (map ls [0..<10])) = mset l"
proof -
  obtain c where c: "MakeCoordinator fs 10 = Inr c" "coordinator_loop sortf reducef ess (job_start c fs0) = Some j" "fs \<noteq> []"
    using assms(1) by (auto simp: mrcoordinator_main_def go_map_eq_Inr split: if_splits)
  have "job_run sortf reducef mapf fs 10 fs0 j \<and> Done (coord j)" by (rule coordinator_loop_run [OF c(2) job_begin [OF c(1)] assms(2)])
  then show ?thesis using job_result [of sortf reducef mapf fs 10 fs0 j] c(3) assms(3-6) by simp
qed

definition demo_seconds :: "job_event list list" where
  "demo_seconds = [[Ask 0 0, Run 0 reliable (wc_Map letter), Report 0],
     concat (map (\<lambda>i. [Ask i 1000, Run i reliable (wc_Map letter), Report i]) [0..<10]), [Ask 3 2000]]"

lemma demo_seconds_run:
  "map_option (\<lambda>j. Done (coord j)) (case mrcoordinator_main (sort_key Key) wc_Reduce [''mrcoordinator'', ''f''] demo_seconds demo_disk of
     Inr r \<Rightarrow> r | Inl _ \<Rightarrow> None) = Some True"
  by code_simp

theorem coordinator_exits_with_result_witness:
  "\<exists>j ls l fs'. mrcoordinator_main (sort_key Key) wc_Reduce [''mrcoordinator'', ''f''] demo_seconds demo_disk = Inr (Some j) \<and>
     disk j (out_name 3) = Some (Text (output_text (ls 3))) \<and>
     mrsequential (sort_key Key) (wc_Map letter) wc_Reduce reliable [''f''] demo_disk = Inr fs' \<and>
     fs' ''mr-out-0'' = Some (Text (output_text l)) \<and> mset (concat (map ls [0..<10])) = mset l"
proof -
  obtain j where j: "mrcoordinator_main (sort_key Key) wc_Reduce [''mrcoordinator'', ''f''] demo_seconds demo_disk = Inr (Some j)"
    using demo_seconds_run by (auto split: sum.splits)
  have "list_all (list_all (clean (wc_Map letter))) demo_seconds" by (auto simp: demo_seconds_def clean_def list_all_iff)
  from coordinator_exits_with_result [OF j this demo_inputs demo_texts stable.key_sorter_axioms wc.reducer_axioms]
  obtain ls l fs' where r: "\<forall>y < 10. disk j (out_name (int y)) = Some (Text (output_text (ls y)))"
    "mrsequential (sort_key Key) (wc_Map letter) wc_Reduce reliable [''f''] demo_disk = Inr fs'"
    "fs' ''mr-out-0'' = Some (Text (output_text l))" "mset (concat (map ls [0..<10])) = mset l" by blast
  have "disk j (out_name (int 3)) = Some (Text (output_text (ls 3)))" using r(1) by (elim allE [of _ 3]) simp
  then have "disk j (out_name 3) = Some (Text (output_text (ls 3)))" by simp
  then show ?thesis using j r(2-4) by blast
qed

text \<open>A worker takes its functions from the plugin it is given, and nothing else starts one.\<close>

lemma mrworker_starts:
  "mrworker_main Open Lookup args = Inr (mapf, reducef) \<longleftrightarrow> length args = 2 \<and> loadPlugin Open Lookup (args ! 1) = Inr (mapf, reducef)"
  by (simp add: mrworker_main_def)

section \<open>The sequential program and its command line\<close>

text \<open>The methods \<open>ByKey\<close> gives the sort; indices outside the slice panic.\<close>

definition ByKey_Len :: "KeyValue list \<Rightarrow> int" where
  "ByKey_Len a = int (length a)"

definition ByKey_Swap :: "KeyValue list \<Rightarrow> int \<Rightarrow> int \<Rightarrow> KeyValue list go" where
  "ByKey_Swap a i j = go_bind (go_index a j) (\<lambda>y. go_bind (go_index a i) (\<lambda>x. go_bind (go_set a i y) (\<lambda>a1. go_set a1 j x)))"

definition ByKey_Less :: "KeyValue list \<Rightarrow> int \<Rightarrow> int \<Rightarrow> bool go" where
  "ByKey_Less a i j = go_bind (go_index a i) (\<lambda>x. go_map (\<lambda>y. Key x < Key y) (go_index a j))"

text \<open>\<open>mrsequential.go\<close> has a copy of its own of \<open>loadPlugin\<close>.\<close>

definition seq_loadPlugin :: "(string \<Rightarrow> 'p option) \<Rightarrow> ('p \<Rightarrow> string \<Rightarrow> symbol option) \<Rightarrow> string \<Rightarrow> (map_fun \<times> reduce_fun) go" where
  "seq_loadPlugin Open Lookup filename =
     go_bind (case Open filename of None \<Rightarrow> Inl (Fatal (''cannot load plugin '' @ filename)) | Some p \<Rightarrow> Inr p) (\<lambda>p.
     go_bind (case Lookup p ''Map'' of None \<Rightarrow> Inl (Fatal (''cannot find Map in '' @ filename)) | Some s \<Rightarrow> Inr s) (\<lambda>xmapf.
     go_bind (case xmapf of MapSym mapf \<Rightarrow> Inr mapf | _ \<Rightarrow> Inl TypeAssertion) (\<lambda>mapf.
     go_bind (case Lookup p ''Reduce'' of None \<Rightarrow> Inl (Fatal (''cannot find Reduce in '' @ filename)) | Some s \<Rightarrow> Inr s) (\<lambda>xreducef.
     go_bind (case xreducef of ReduceSym reducef \<Rightarrow> Inr reducef | _ \<Rightarrow> Inl TypeAssertion) (\<lambda>reducef.
     Inr (mapf, reducef))))))"

definition mrsequential_main ::
  "sort_fun \<Rightarrow> (string \<Rightarrow> 'p option) \<Rightarrow> ('p \<Rightarrow> string \<Rightarrow> symbol option) \<Rightarrow> io \<Rightarrow> string list \<Rightarrow> filesys \<Rightarrow> filesys go" where
  "mrsequential_main sortf Open Lookup os args fs =
     (if length args < 3 then Inl (Fatal ''Usage: mrsequential xxx.so inputfiles...'')
      else go_bind (seq_loadPlugin Open Lookup (args ! 1)) (\<lambda>(mapf, reducef). mrsequential sortf mapf reducef os (drop 2 args) fs))"

text \<open>The two copies load the same functions and fail in the same way.\<close>

lemma seq_loadPlugin_eq: "seq_loadPlugin Open Lookup f = loadPlugin Open Lookup f"
  by (auto simp: seq_loadPlugin_def loadPlugin_def split: option.splits symbol.splits)

text \<open>Swapping permutes the slice and is its own inverse.\<close>

lemma ByKey_Swap_inside:
  assumes "0 \<le> i" "i < ByKey_Len a" "0 \<le> j" "j < ByKey_Len a"
  shows "ByKey_Swap a i j = Inr (a[nat i := a ! nat j, nat j := a ! nat i])"
  using assms by (auto simp: ByKey_Swap_def ByKey_Len_def go_index_def go_set_def nat_less_iff)

lemma ByKey_Swap_permutes:
  assumes "ByKey_Swap a i j = Inr b"
  shows "mset b = mset a \<and> ByKey_Swap b i j = Inr a"
proof -
  have r: "0 \<le> i" "i < ByKey_Len a" "0 \<le> j" "j < ByKey_Len a"
    using assms by (auto simp: ByKey_Swap_def ByKey_Len_def go_bind_eq_Inr go_index_def go_set_def nat_less_iff split: if_splits)
  then have b: "b = a[nat i := a ! nat j, nat j := a ! nat i]" using assms by (simp add: ByKey_Swap_inside)
  have n: "nat i < length a" "nat j < length a" using r by (auto simp: ByKey_Len_def nat_less_iff)
  have "mset b = mset a" using mset_swap [OF n(2) n(1)] n by (simp add: b)
  moreover have "ByKey_Swap b i j = Inr a"
    using r n by (subst ByKey_Swap_inside) (auto simp: b ByKey_Len_def list_eq_iff_nth_eq nth_list_update)
  ultimately show ?thesis by simp
qed

text \<open>After a sort that sorts, \<open>Less\<close> holds of no later element and an earlier one.\<close>

lemma sorted_no_Less:
  assumes "key_sorter sortf" "i \<le> j" "j < length kvs"
  shows "ByKey_Less (sortf kvs) (int j) (int i) = Inr False"
proof -
  have s: "sorted (map Key (sortf kvs))" "length (sortf kvs) = length kvs"
    using assms(1) by (auto simp: key_sorter_def dest: mset_eq_length)
  then have "Key (sortf kvs ! i) \<le> Key (sortf kvs ! j)" using sorted_nth_mono [OF s(1) assms(2)] assms(2,3) by simp
  then show ?thesis using s(2) assms(2,3) by (simp add: ByKey_Less_def go_index_def go_map_def not_less)
qed

text \<open>The program on a command line: the plugin's functions on the files after it.\<close>

lemma mrsequential_main_runs:
  "mrsequential_main sortf Open Lookup os args fs = Inr fs' \<longleftrightarrow>
     (\<exists>mapf reducef. 3 \<le> length args \<and> loadPlugin Open Lookup (args ! 1) = Inr (mapf, reducef) \<and>
        mrsequential sortf mapf reducef os (drop 2 args) fs = Inr fs')"
  by (auto simp: mrsequential_main_def seq_loadPlugin_eq go_bind_eq_Inr)

end
