(* ===== verification/LabRPC.thy ===== *)
theory LabRPC
  imports Prelude
begin

text \<open>
  The simulated network (\<open>labrpc/labrpc.go\<close>): client ends connected to servers by name, servers
  that dispatch a request to a method of one of their services, and the life of a request in
  \<open>processReq\<close>, which may drop it, run it, and then drop, delay or return the reply.

  A server is an object; the network holds pointers to servers and compares them to learn whether
  the server it called is still the one in place. Encoded arguments and replies are values here:
  what a handler gets is a copy of the arguments. The methods of a service, found by reflection,
  are a parameter of the service. Random choices are arguments.
\<close>

section \<open>Services and servers\<close>

record ('o, 'a, 'r) Service =
  svc_name :: string
  rcvr :: 'o
  methods :: "string \<Rightarrow> ('o \<Rightarrow> 'a \<Rightarrow> 'o \<times> 'r) option"

record ('o, 'a, 'r) Server =
  services :: "string \<Rightarrow> ('o, 'a, 'r) Service option"
  rs_count :: int

definition MakeServer :: "('o, 'a, 'r) Server" where
  "MakeServer = \<lparr>services = (\<lambda>_. None), rs_count = 0\<rparr>"

definition AddService :: "('o, 'a, 'r) Service \<Rightarrow> ('o, 'a, 'r) Server \<Rightarrow> ('o, 'a, 'r) Server" where
  "AddService svc rs = rs\<lparr>services := (services rs)(svc_name svc \<mapsto> svc)\<rparr>"

text \<open>What reflection says of a method of the receiver; \<open>MakeService\<close> keeps the ones of the form of a handler. The parameters
  count the receiver; \<open>m_in2_ptr\<close> is whether the third is a pointer.\<close>

record ('o, 'a, 'r) reflect_method =
  m_name :: string
  m_pkgpath :: string
  m_numin :: nat
  m_in2_ptr :: bool
  m_numout :: nat
  m_func :: "'o \<Rightarrow> 'a \<Rightarrow> 'o \<times> 'r"

definition not_a_handler :: "('o, 'a, 'r) reflect_method \<Rightarrow> bool" where
  "not_a_handler m \<longleftrightarrow> m_pkgpath m \<noteq> [] \<or> m_numin m \<noteq> 3 \<or> \<not> m_in2_ptr m \<or> m_numout m \<noteq> 0"

definition MakeService :: "string \<Rightarrow> 'o \<Rightarrow> ('o, 'a, 'r) reflect_method list \<Rightarrow> ('o, 'a, 'r) Service" where
  "MakeService tname r ms =
     \<lparr>svc_name = tname, rcvr = r,
      methods = fold (\<lambda>m tab. if not_a_handler m then tab else tab(m_name m \<mapsto> m_func m)) ms (\<lambda>_. None)\<rparr>"

definition Server_GetCount :: "('o, 'a, 'r) Server \<Rightarrow> int" where
  "Server_GetCount rs = rs_count rs"

definition Service_dispatch ::
  "string \<Rightarrow> 'a \<Rightarrow> ('o, 'a, 'r) Service \<Rightarrow> (('o, 'a, 'r) Service \<times> 'r) go" where
  "Service_dispatch methname args svc =
     (case methods svc methname of
        None \<Rightarrow> Inl (Fatal ''labrpc.Service.dispatch(): unknown method'')
      | Some f \<Rightarrow> (let (o', reply) = f (rcvr svc) args in Inr (svc\<lparr>rcvr := o'\<rparr>, reply)))"

text \<open>\<open>strings.LastIndex(svcMeth, ".")\<close>, -1 if there is no dot, and the two slices around it.\<close>

fun last_dot :: "string \<Rightarrow> nat \<Rightarrow> int \<Rightarrow> int" where
  "last_dot [] i found = found"
| "last_dot (c # cs) i found = last_dot cs (Suc i) (if c = CHR ''.'' then int i else found)"

definition split_method :: "string \<Rightarrow> (string \<times> string) go" where
  "split_method svcMeth =
     (let dot = last_dot svcMeth 0 (-1) in
      go_bind (go_slice_to svcMeth dot) (\<lambda>serviceName.
      go_map (\<lambda>methodName. (serviceName, methodName)) (go_slice_from svcMeth (dot + 1))))"

definition Server_dispatch ::
  "string \<Rightarrow> 'a \<Rightarrow> ('o, 'a, 'r) Server \<Rightarrow> (('o, 'a, 'r) Server \<times> 'r) go" where
  "Server_dispatch svcMeth args rs =
     (let rs1 = rs\<lparr>rs_count := rs_count rs + 1\<rparr> in
      go_bind (split_method svcMeth) (\<lambda>(serviceName, methodName).
        case services rs1 serviceName of
          None \<Rightarrow> Inl (Fatal ''labrpc.Server.dispatch(): unknown service'')
        | Some svc \<Rightarrow>
            go_map (\<lambda>(svc1, reply). (rs1\<lparr>services := (services rs1)(serviceName \<mapsto> svc1)\<rparr>, reply))
              (Service_dispatch methodName args svc)))"

section \<open>The network\<close>

text \<open>Pointers to servers are numbers; \<open>objs\<close> is what they point to. A deleted server is a nil entry
  under its name, as is one never added.\<close>

record ('e, 'n, 'o, 'a, 'r) Network =
  reliable :: bool
  longDelays :: bool
  longReordering :: bool
  ends :: "'e set"
  enabled :: "'e \<Rightarrow> bool"
  connections :: "'e \<Rightarrow> 'n option"
  servers :: "'n \<Rightarrow> nat option"
  rn_count :: "32 word"
  rn_bytes :: "64 word"
  rn_done :: bool
  objs :: "nat \<Rightarrow> ('o, 'a, 'r) Server"

type_synonym ('e, 'n, 'o, 'a, 'r) net_op = "('e, 'n, 'o, 'a, 'r) Network \<Rightarrow> ('e, 'n, 'o, 'a, 'r) Network"

definition MakeNetwork :: "('e, 'n, 'o, 'a, 'r) Network" where
  "MakeNetwork = \<lparr>reliable = True, longDelays = False, longReordering = False, ends = {}, enabled = (\<lambda>_. False),
     connections = (\<lambda>_. None), servers = (\<lambda>_. None), rn_count = 0, rn_bytes = 0,
     rn_done = False, objs = (\<lambda>_. MakeServer)\<rparr>"

definition Reliable :: "bool \<Rightarrow> ('e, 'n, 'o, 'a, 'r) net_op" where
  "Reliable yes rn = rn\<lparr>reliable := yes\<rparr>"

definition LongReordering :: "bool \<Rightarrow> ('e, 'n, 'o, 'a, 'r) net_op" where
  "LongReordering yes rn = rn\<lparr>longReordering := yes\<rparr>"

definition LongDelays :: "bool \<Rightarrow> ('e, 'n, 'o, 'a, 'r) net_op" where
  "LongDelays yes rn = rn\<lparr>longDelays := yes\<rparr>"

definition IsReliable :: "('e, 'n, 'o, 'a, 'r) Network \<Rightarrow> bool" where
  "IsReliable rn = reliable rn"

definition IsLongDelays :: "('e, 'n, 'o, 'a, 'r) Network \<Rightarrow> bool" where
  "IsLongDelays rn = longDelays rn"

definition MakeEnd :: "'e \<Rightarrow> ('e, 'n, 'o, 'a, 'r) Network \<Rightarrow> ('e, 'n, 'o, 'a, 'r) Network go" where
  "MakeEnd endname rn =
     (if endname \<in> ends rn then Inl (Fatal ''MakeEnd: already exists'')
      else Inr (rn\<lparr>ends := insert endname (ends rn), enabled := (enabled rn)(endname := False),
                   connections := (connections rn)(endname := None)\<rparr>))"

definition DeleteEnd :: "'e \<Rightarrow> ('e, 'n, 'o, 'a, 'r) Network \<Rightarrow> ('e, 'n, 'o, 'a, 'r) Network go" where
  "DeleteEnd endname rn =
     (if endname \<notin> ends rn then Inl (Fatal ''MakeEnd: does not exist'')
      else Inr (rn\<lparr>ends := ends rn - {endname}, enabled := (enabled rn)(endname := False),
                   connections := (connections rn)(endname := None)\<rparr>))"

definition AddServer :: "'n \<Rightarrow> nat \<Rightarrow> ('e, 'n, 'o, 'a, 'r) net_op" where
  "AddServer servername ptr rn = rn\<lparr>servers := (servers rn)(servername \<mapsto> ptr)\<rparr>"

definition DeleteServer :: "'n \<Rightarrow> ('e, 'n, 'o, 'a, 'r) net_op" where
  "DeleteServer servername rn = rn\<lparr>servers := (servers rn)(servername := None)\<rparr>"

definition Connect :: "'e \<Rightarrow> 'n \<Rightarrow> ('e, 'n, 'o, 'a, 'r) net_op" where
  "Connect endname servername rn = rn\<lparr>connections := (connections rn)(endname \<mapsto> servername)\<rparr>"

definition Enable :: "'e \<Rightarrow> bool \<Rightarrow> ('e, 'n, 'o, 'a, 'r) net_op" where
  "Enable endname yes rn = rn\<lparr>enabled := (enabled rn)(endname := yes)\<rparr>"

definition GetTotalCount :: "('e, 'n, 'o, 'a, 'r) Network \<Rightarrow> int" where
  "GetTotalCount rn = sint (rn_count rn)"

definition GetTotalBytes :: "('e, 'n, 'o, 'a, 'r) Network \<Rightarrow> int" where
  "GetTotalBytes rn = sint (rn_bytes rn)"

text \<open>\<open>rn_done\<close>: the channel \<open>done\<close> is closed.\<close>

definition Network_Cleanup :: "('e, 'n, 'o, 'a, 'r) Network \<Rightarrow> ('e, 'n, 'o, 'a, 'r) Network go" where
  "Network_Cleanup rn = (if rn_done rn then Inl ClosedChannel else Inr (rn\<lparr>rn_done := True\<rparr>))"

definition readEndnameInfo :: "'e \<Rightarrow> ('e, 'n, 'o, 'a, 'r) Network \<Rightarrow> bool \<times> 'n option \<times> nat option \<times> bool \<times> bool" where
  "readEndnameInfo endname rn =
     (enabled rn endname, connections rn endname,
      (case connections rn endname of None \<Rightarrow> None | Some servername \<Rightarrow> servers rn servername),
      reliable rn, longReordering rn)"

definition isServerDead :: "'e \<Rightarrow> 'n \<Rightarrow> nat \<Rightarrow> ('e, 'n, 'o, 'a, 'r) Network \<Rightarrow> bool" where
  "isServerDead endname servername ptr rn \<longleftrightarrow> enabled rn endname = False \<or> servers rn servername \<noteq> Some ptr"

section \<open>The life of a request\<close>

text \<open>What \<open>processReq\<close> has read about the server it calls, and where the request stands: not yet
  looked at, with the handler started but not finished, finished with a reply, or about to be
  answered. \<open>handler\<close> is the goroutine that runs the handler, which goes on even when the request
  was given up; \<open>replied\<close> is what was sent on \<open>replyCh\<close>, at most one message.\<close>

record ('e, 'n, 'a, 'r) request_state =
  endname :: 'e
  svcMeth :: string
  req_args :: 'a
  target :: "('n \<times> nat \<times> bool \<times> bool) option"
  handler :: "'r option"
  held :: "'r option option"
  replied :: "'r option option"

definition new_request :: "'e \<Rightarrow> string \<Rightarrow> 'a \<Rightarrow> ('e, 'n, 'a, 'r) request_state" where
  "new_request e meth args = \<lparr>endname = e, svcMeth = meth, req_args = args, target = None, handler = None,
     held = None, replied = None\<rparr>"

text \<open>The first part of \<open>processReq\<close>: the request is dropped, started, or held for a failure reply.\<close>

definition begin_request :: "bool \<Rightarrow> ('e, 'n, 'o, 'a, 'r) Network \<Rightarrow> ('e, 'n, 'a, 'r) request_state \<Rightarrow> ('e, 'n, 'a, 'r) request_state" where
  "begin_request dropped rn q =
     (case readEndnameInfo (endname q) rn of
        (True, Some servername, Some ptr, rel, longre) \<Rightarrow>
          (if rel = False \<and> dropped then q\<lparr>replied := Some None\<rparr>
           else q\<lparr>target := Some (servername, ptr, rel, longre)\<rparr>)
      | _ \<Rightarrow> q\<lparr>held := Some None\<rparr>)"

text \<open>How long, in milliseconds, a request that reaches no server is held before its failure reply.\<close>

definition LONGDELAY :: int where "LONGDELAY = 7000"

definition no_server_delay :: "int \<Rightarrow> ('e, 'n, 'o, 'a, 'r) Network \<Rightarrow> int" where
  "no_server_delay rnd rn = (if IsLongDelays rn then rnd mod LONGDELAY else rnd mod 100)"

text \<open>The handler goroutine.\<close>

definition run_handler ::
  "('e, 'n, 'o, 'a, 'r) Network \<Rightarrow> ('e, 'n, 'a, 'r) request_state \<Rightarrow>
   (('e, 'n, 'o, 'a, 'r) Network \<times> ('e, 'n, 'a, 'r) request_state) go" where
  "run_handler rn q =
     (case target q of
        None \<Rightarrow> Inr (rn, q)
      | Some (_, ptr, _, _) \<Rightarrow>
          go_map (\<lambda>(obj, reply). (rn\<lparr>objs := (objs rn)(ptr := obj)\<rparr>, q\<lparr>handler := Some reply\<rparr>))
            (Server_dispatch (svcMeth q) (req_args q) (objs rn ptr)))"

text \<open>The rest of \<open>processReq\<close>, when the handler has replied or the server was found dead.\<close>

definition end_request :: "bool \<Rightarrow> bool \<Rightarrow> ('e, 'n, 'o, 'a, 'r) Network \<Rightarrow> ('e, 'n, 'a, 'r) request_state \<Rightarrow> ('e, 'n, 'a, 'r) request_state" where
  "end_request dropped delay rn q =
     (case target q of
        None \<Rightarrow> q
      | Some (servername, ptr, rel, longre) \<Rightarrow>
          (let serverDead = isServerDead (endname q) servername ptr rn in
           case handler q of
             None \<Rightarrow> if serverDead then q\<lparr>replied := Some None\<rparr> else q
           | Some reply \<Rightarrow>
               if serverDead then q\<lparr>replied := Some None\<rparr>
               else if rel = False \<and> dropped then q\<lparr>replied := Some None\<rparr>
               else if longre \<and> delay then q\<lparr>held := Some (Some reply)\<rparr>
               else q\<lparr>replied := Some (Some reply)\<rparr>))"

definition release_held :: "('e, 'n, 'a, 'r) request_state \<Rightarrow> ('e, 'n, 'a, 'r) request_state" where
  "release_held q = (case held q of None \<Rightarrow> q | Some r \<Rightarrow> q\<lparr>replied := Some r, held := None\<rparr>)"

text \<open>What \<open>ClientEnd.Call\<close> returns once its request was answered: the reply, or failure.\<close>

definition Call_result :: "('e, 'n, 'a, 'r) request_state \<Rightarrow> 'r option option" where
  "Call_result q = replied q"

section \<open>The network at work\<close>

record ('e, 'n, 'o, 'a, 'r) net_sys =
  network :: "('e, 'n, 'o, 'a, 'r) Network"
  requests :: "('e, 'n, 'a, 'r) request_state list"

text \<open>\<open>ClientEnd.Call\<close> hands its request to the network, which counts it; each request then goes its
  own way. The tester changes the network at any time, and may put a new server object, not yet
  called, under any name. Lengths of encodings do not matter for what is proved here: the counter of bytes is
  among the things that may change, and the theory \<open>NetBytes\<close> says how.\<close>

inductive net_step :: "('e, 'n, 'o, 'a, 'r) net_sys \<Rightarrow> ('e, 'n, 'o, 'a, 'r) net_sys \<Rightarrow> bool" where
  send: "net_step s (s\<lparr>network := (network s)\<lparr>rn_count := rn_count (network s) + 1\<rparr>,
      requests := requests s @ [new_request e meth args]\<rparr>)"
| begins: "k < length (requests s) \<Longrightarrow> q = requests s ! k \<Longrightarrow> target q = None \<Longrightarrow> held q = None \<Longrightarrow> replied q = None \<Longrightarrow>
    net_step s (s\<lparr>requests := (requests s)[k := begin_request dropped (network s) q]\<rparr>)"
| handles: "k < length (requests s) \<Longrightarrow> q = requests s ! k \<Longrightarrow> target q \<noteq> None \<Longrightarrow> handler q = None \<Longrightarrow>
    run_handler (network s) q = Inr (rn, q') \<Longrightarrow> net_step s \<lparr>network = rn, requests = (requests s)[k := q']\<rparr>"
| ends: "k < length (requests s) \<Longrightarrow> q = requests s ! k \<Longrightarrow> target q \<noteq> None \<Longrightarrow> held q = None \<Longrightarrow> replied q = None \<Longrightarrow>
    net_step s (s\<lparr>requests := (requests s)[k := end_request dropped delay (network s) q]\<rparr>)"
| releases: "k < length (requests s) \<Longrightarrow> q = requests s ! k \<Longrightarrow>
    net_step s (s\<lparr>requests := (requests s)[k := release_held q]\<rparr>)"
| changes: "objs rn = objs (network s) \<Longrightarrow> net_step s (s\<lparr>network := rn\<rparr>)"
| adds: "net_step s (s\<lparr>network := (network s)\<lparr>objs := (objs (network s))(ptr := AddService svc (objs (network s) ptr))\<rparr>\<rparr>)"

inductive net_run :: "('e, 'n, 'o, 'a, 'r) net_sys \<Rightarrow> bool" where
  net_init: "net_run \<lparr>network = MakeNetwork, requests = []\<rparr>"
| net_next: "net_run s \<Longrightarrow> net_step s s' \<Longrightarrow> net_run s'"

definition genuine :: "('e, 'n, 'a, 'r) request_state \<Rightarrow> bool" where
  "genuine q \<longleftrightarrow> (\<forall>r. replied q = Some (Some r) \<or> held q = Some (Some r) \<longrightarrow> handler q = Some r) \<and>
     (handler q \<noteq> None \<longrightarrow> target q \<noteq> None)"

definition ran_on :: "nat \<Rightarrow> ('e, 'n, 'a, 'r) request_state \<Rightarrow> bool" where
  "ran_on ptr q \<longleftrightarrow> handler q \<noteq> None \<and> (\<exists>nm rel lr. target q = Some (nm, ptr, rel, lr))"

definition net_inv :: "('e, 'n, 'o, 'a, 'r) net_sys \<Rightarrow> bool" where
  "net_inv s \<longleftrightarrow> (\<forall>q \<in> set (requests s). genuine q) \<and>
     (\<forall>ptr. rs_count (objs (network s) ptr) = int (length (filter (ran_on ptr) (requests s))))"

lemma Server_dispatch_count: "Server_dispatch meth args rs = Inr (rs', r) \<Longrightarrow> rs_count rs' = rs_count rs + 1"
  by (auto simp: Server_dispatch_def Let_def go_bind_eq_Inr go_map_eq_Inr split: option.splits)

text \<open>A step of one request that neither runs its handler nor makes up a reply.\<close>

lemma net_inv_update:
  assumes "net_inv s" and "k < length (requests s)" and "genuine q'"
    and "handler q' = handler (requests s ! k)" and "target q' = target (requests s ! k) \<or> handler (requests s ! k) = None"
  shows "net_inv (s\<lparr>requests := (requests s)[k := q']\<rparr>)"
proof -
  have "ran_on ptr q' = ran_on ptr (requests s ! k)" for ptr using assms(4,5) unfolding ran_on_def by metis
  then have "length (filter (ran_on ptr) ((requests s)[k := q'])) = length (filter (ran_on ptr) (requests s))" for ptr
    using count_filter_upd [OF assms(2), of "ran_on ptr" q'] by simp
  moreover have "\<forall>q \<in> set ((requests s)[k := q']). genuine q"
    using assms(1,3) set_update_subset_insert [of "requests s" k q'] unfolding net_inv_def by blast
  ultimately show ?thesis using assms(1) by (simp add: net_inv_def)
qed

lemma net_inv_handles:
  assumes inv: "net_inv s" and k: "k < length (requests s)" and h: "handler (requests s ! k) = None"
    and t: "target (requests s ! k) \<noteq> None" and r: "run_handler (network s) (requests s ! k) = Inr (rn, q')"
  shows "net_inv \<lparr>network = rn, requests = (requests s)[k := q']\<rparr>"
proof -
  let ?q = "requests s ! k"
  obtain nm p rel lr where tg: "target ?q = Some (nm, p, rel, lr)" using t by auto
  then obtain obj reply where d: "Server_dispatch (svcMeth ?q) (req_args ?q) (objs (network s) p) = Inr (obj, reply)"
    and rn: "rn = (network s)\<lparr>objs := (objs (network s))(p := obj)\<rparr>" and q': "q' = ?q\<lparr>handler := Some reply\<rparr>"
    using r by (auto simp: run_handler_def go_map_eq_Inr)
  have g: "genuine ?q" using inv nth_mem [OF k] by (auto simp: net_inv_def)
  then have "genuine q'" using h tg unfolding q' genuine_def by auto
  then have all: "\<forall>q \<in> set ((requests s)[k := q']). genuine q"
    using inv set_update_subset_insert [of "requests s" k q'] unfolding net_inv_def by blast
  have "rs_count (objs rn ptr) = int (length (filter (ran_on ptr) ((requests s)[k := q'])))" for ptr
  proof -
    have old: "rs_count (objs (network s) ptr) = int (length (filter (ran_on ptr) (requests s)))"
      using inv by (simp add: net_inv_def)
    have "ran_on ptr q' \<longleftrightarrow> ptr = p" "\<not> ran_on ptr ?q" using tg h by (auto simp: ran_on_def q')
    then have "int (length (filter (ran_on ptr) ((requests s)[k := q']))) =
        int (length (filter (ran_on ptr) (requests s))) + (if ptr = p then 1 else 0)"
      using count_filter_upd [OF k, of "ran_on ptr" q'] by auto
    then show ?thesis using old Server_dispatch_count [OF d] by (cases "ptr = p") (simp_all add: rn)
  qed
  then show ?thesis using all by (simp add: net_inv_def)
qed

lemma begin_request_frame:
  "handler (begin_request dropped rn q) = handler q" "genuine q \<Longrightarrow> handler q = None \<Longrightarrow> genuine (begin_request dropped rn q)"
  by (auto simp: begin_request_def genuine_def split: prod.splits bool.splits option.splits if_splits)

lemma end_request_frame:
  "handler (end_request dropped delay rn q) = handler q" "target (end_request dropped delay rn q) = target q"
  "genuine q \<Longrightarrow> genuine (end_request dropped delay rn q)"
  by (auto simp: end_request_def genuine_def Let_def split: prod.splits option.splits if_splits)

lemma release_held_frame:
  "handler (release_held q) = handler q" "target (release_held q) = target q" "genuine q \<Longrightarrow> genuine (release_held q)"
  by (auto simp: release_held_def genuine_def split: option.splits)

lemma net_inv_step: "net_step s s' \<Longrightarrow> net_inv s \<Longrightarrow> net_inv s'"
proof (induction rule: net_step.induct)
  case (send s e meth args)
  then show ?case by (auto simp: net_inv_def new_request_def genuine_def ran_on_def)
next
  case (begins k s q dropped)
  then have g: "genuine q" using nth_mem [of k "requests s"] by (auto simp: net_inv_def)
  then have "handler q = None" using begins by (auto simp: genuine_def)
  then show ?case using begins g by (intro net_inv_update) (auto simp: begin_request_frame)
next
  case (handles k s q rn q')
  then show ?case using net_inv_handles by blast
next
  case (ends k s q dropped delay)
  then have "genuine q" using nth_mem [of k "requests s"] by (auto simp: net_inv_def)
  then show ?case using ends by (intro net_inv_update) (auto simp: end_request_frame)
next
  case (releases k s q)
  then have "genuine q" using nth_mem [of k "requests s"] by (auto simp: net_inv_def)
  then show ?case using releases by (intro net_inv_update) (auto simp: release_held_frame)
next
  case (changes rn s)
  then show ?case by (simp add: net_inv_def)
next
  case (adds s ptr svc)
  then show ?case by (simp add: net_inv_def AddService_def)
qed

lemma net_run_inv: "net_run s \<Longrightarrow> net_inv s"
proof (induction rule: net_run.induct)
  case net_init
  show ?case by (simp add: net_inv_def MakeNetwork_def MakeServer_def)
next
  case (net_next s s')
  then show ?case using net_inv_step by blast
qed

section \<open>Properties of the network\<close>

text \<open>C25: A call that succeeds has been served. Whatever the network does to a request, a reply that
  \<open>Call\<close> returns is the reply the handler of the addressed server computed for this request, and
  the number of requests a server object has dispatched is the number of calls whose handler has
  run on it: no request is run twice, and none without a call.\<close>

theorem replies_are_served_once:
  assumes "net_run s"
  shows "(\<forall>q \<in> set (requests s). \<forall>r. Call_result q = Some (Some r) \<longrightarrow> handler q = Some r \<and> (\<exists>ptr. ran_on ptr q)) \<and>
    Server_GetCount (objs (network s) ptr) = int (length (filter (ran_on ptr) (requests s)))"
proof -
  have inv: "net_inv s" by (rule net_run_inv [OF assms])
  have "handler q = Some r \<and> (\<exists>ptr. ran_on ptr q)" if "q \<in> set (requests s)" "replied q = Some (Some r)" for q r
  proof -
    have g: "genuine q" using inv that(1) by (simp add: net_inv_def)
    then have h: "handler q = Some r" "target q \<noteq> None" using that(2) by (auto simp: genuine_def)
    then show ?thesis unfolding ran_on_def by auto
  qed
  then show ?thesis using inv by (simp add: net_inv_def Call_result_def Server_GetCount_def)
qed

text \<open>A server that was replaced does not answer. When \<open>processReq\<close> ends a request, it returns or
  holds a reply only if the client end is still enabled and the server object it called is still
  the one under its name; otherwise, once the server is deleted, the caller gets a failure even
  if the handler has run.\<close>

theorem deleted_server_does_not_answer:
  assumes "target q = Some (servername, ptr, rel, longre)"
  shows "(isServerDead (endname q) servername ptr rn \<longrightarrow> replied (end_request dropped delay rn q) = Some None) \<and>
    isServerDead (endname q) servername ptr (DeleteServer servername rn) \<and>
    (handler q = Some r \<and> \<not> isServerDead (endname q) servername ptr rn \<and> rel \<and> \<not> longre \<longrightarrow>
       replied (end_request dropped delay rn q) = Some (Some r))"
  using assms by (auto simp: end_request_def Let_def isServerDead_def DeleteServer_def split: option.splits)

text \<open>On a reliable network a call to a live server is served: through an enabled end connected to a
  server in place, and without long reordering, the request is run by that server and its reply
  comes back, whatever the random choices are.\<close>

theorem reliable_call_is_served:
  assumes "enabled rn e" and "connections rn e = Some servername" and "servers rn servername = Some ptr"
    and "reliable rn" and "\<not> longReordering rn"
    and "Server_dispatch meth args (objs rn ptr) = Inr (obj, r)"
  shows "let q1 = begin_request dropped rn (new_request e meth args) in
     \<exists>rn' q2. run_handler rn q1 = Inr (rn', q2) \<and> objs rn' ptr = obj \<and>
       Call_result (end_request dropped' delay rn' q2) = Some (Some r)"
  using assms
  by (auto simp: begin_request_def readEndnameInfo_def new_request_def run_handler_def end_request_def
      isServerDead_def Call_result_def Let_def)

definition demo_adder :: "(nat, nat, nat) Service" where
  "demo_adder = \<lparr>svc_name = ''S'', rcvr = 5, methods = [''Add'' \<mapsto> (\<lambda>o' a. (o' + a, o'))]\<rparr>"

definition demo_net :: "(nat, nat, nat, nat, nat) Network" where
  "demo_net = Enable 0 True (Connect 0 7 (AddServer 7 1
     (MakeNetwork\<lparr>objs := (\<lambda>_. MakeServer)(1 := AddService demo_adder MakeServer)\<rparr>)))"

lemma demo_dispatch: "\<exists>obj. Server_dispatch ''S.Add'' 3 (objs demo_net 1) = Inr (obj, 5)"
  by (simp add: demo_net_def Enable_def Connect_def AddServer_def MakeNetwork_def AddService_def demo_adder_def
      MakeServer_def Server_dispatch_def split_method_def Service_dispatch_def Let_def)

theorem reliable_call_is_served_witness:
  "\<exists>rn' q. run_handler demo_net (begin_request True demo_net (new_request 0 ''S.Add'' 3)) = Inr (rn', q) \<and>
     Call_result (end_request True True rn' q) = Some (Some 5)"
proof -
  obtain obj where d: "Server_dispatch ''S.Add'' 3 (objs demo_net 1) = Inr (obj, 5)" using demo_dispatch by blast
  have n: "enabled demo_net 0" "connections demo_net 0 = Some 7" "servers demo_net 7 = Some 1" "reliable demo_net"
    "\<not> longReordering demo_net"
    by (simp_all add: demo_net_def Enable_def Connect_def AddServer_def MakeNetwork_def)
  from reliable_call_is_served [OF n d, of True True True] show ?thesis by (auto simp: Let_def)
qed

theorem deleted_server_does_not_answer_witness:
  "replied (end_request False False (DeleteServer 7 demo_net)
     ((new_request 0 ''S.Add'' 3)\<lparr>target := Some (7, 1, True, False), handler := Some 5\<rparr>)) = Some None"
proof -
  let ?q = "(new_request 0 ''S.Add'' 3)\<lparr>target := Some (7, 1, True, False), handler := Some 5\<rparr>"
  have t: "target ?q = Some (7, 1, True, False)" by simp
  from deleted_server_does_not_answer [OF t, of "DeleteServer 7 demo_net" False False] show ?thesis
    by (simp add: isServerDead_def DeleteServer_def)
qed

lemma demo_net_run: "net_run \<lparr>network = demo_net, requests = []\<rparr>"
proof -
  let ?s = "\<lparr>network = MakeNetwork, requests = []\<rparr> :: (nat, nat, nat, nat, nat) net_sys"
  have "net_run (?s\<lparr>network := (network ?s)\<lparr>objs := (objs (network ?s))(1 := AddService demo_adder (objs (network ?s) 1))\<rparr>\<rparr>)"
    by (rule net_next [OF net_init adds])
  from net_next [OF this changes [of demo_net]] show ?thesis
    by (simp add: demo_net_def Enable_def Connect_def AddServer_def MakeNetwork_def)
qed

theorem replies_are_served_once_witness:
  "\<exists>(s :: (nat, nat, nat, nat, nat) net_sys) q. net_run s \<and> requests s = [q] \<and> Call_result q = Some (Some (5::nat)) \<and> handler q = Some 5 \<and>
     Server_GetCount (objs (network s) 1) = int (length (filter (ran_on 1) (requests s)))"
proof -
  define rn where "rn = demo_net\<lparr>rn_count := rn_count demo_net + 1\<rparr>"
  define q0 :: "(nat, nat, nat, nat) request_state" where "q0 = new_request 0 ''S.Add'' 3"
  define q1 where "q1 = q0\<lparr>target := Some (7, 1, True, False)\<rparr>"
  define q2 where "q2 = q1\<lparr>handler := Some 5\<rparr>"
  define q3 where "q3 = q2\<lparr>replied := Some (Some 5)\<rparr>"
  note qs = q3_def q2_def q1_def q0_def new_request_def
  have n: "enabled rn 0" "connections rn 0 = Some 7" "servers rn 7 = Some 1" "reliable rn" "\<not> longReordering rn"
    by (simp_all add: rn_def demo_net_def Enable_def Connect_def AddServer_def MakeNetwork_def)
  obtain obj where "Server_dispatch ''S.Add'' 3 (objs demo_net 1) = Inr (obj, 5)" using demo_dispatch by blast
  then have d: "Server_dispatch ''S.Add'' 3 (objs rn 1) = Inr (obj, 5)" by (simp add: rn_def)
  define rn' where "rn' = rn\<lparr>objs := (objs rn)(1 := obj)\<rparr>"
  have b: "begin_request False rn q0 = q1" using n by (simp add: begin_request_def readEndnameInfo_def qs)
  have h: "run_handler rn q1 = Inr (rn', q2)" using d by (simp add: run_handler_def rn'_def qs)
  have e: "end_request False False rn' q2 = q3" using n by (simp add: end_request_def isServerDead_def rn'_def qs)
  have "net_run \<lparr>network = rn, requests = [q0]\<rparr>"
    using net_next [OF demo_net_run send [of _ 0 "''S.Add''" 3]] by (simp add: rn_def q0_def)
  then have "net_run \<lparr>network = rn, requests = [q1]\<rparr>"
    using net_next [OF _ begins [of 0 "\<lparr>network = rn, requests = [q0]\<rparr>" q0 False]] b by (simp add: qs)
  then have "net_run \<lparr>network = rn', requests = [q2]\<rparr>"
    using net_next [OF _ handles [of 0 "\<lparr>network = rn, requests = [q1]\<rparr>" q1 rn' q2]] h by (simp add: qs)
  then have r: "net_run \<lparr>network = rn', requests = [q3]\<rparr>"
    using net_next [OF _ ends [of 0 "\<lparr>network = rn', requests = [q2]\<rparr>" q2 False False]] e by (simp add: qs)
  from replies_are_served_once [OF r, of 1] r show ?thesis
    by (intro exI [of _ "\<lparr>network = rn', requests = [q3]\<rparr>"] exI [of _ q3]) (simp add: Call_result_def qs)
qed

end
