(* ===== verification/NetBytes.thy ===== *)
theory NetBytes
  imports LabRPC
begin

text \<open>
  The statistics of the simulated network and its end (\<open>labrpc/labrpc.go\<close>): the goroutine of \<open>MakeNetwork\<close>
  receives a request, counts it and the bytes of its arguments; a reply is counted when it is sent back; \<open>Cleanup\<close>
  closes \<open>done\<close>, after which the goroutine may stop and a \<open>Call\<close> may give up instead of handing in its request.

  \<open>alen\<close> and \<open>rlen\<close>, the lengths of encoded arguments and replies, are parameters: encodings are the business of
  \<open>labgob\<close>. The steps refine the ones of \<open>LabRPC\<close>, so what is proved there holds of these runs.
\<close>

section \<open>Counting\<close>

definition add_bytes :: "nat \<Rightarrow> ('e, 'n, 'o, 'a, 'r) net_op" where
  "add_bytes n rn = rn\<lparr>rn_bytes := rn_bytes rn + of_nat n\<rparr>"

text \<open>The body of the goroutine's loop for one request.\<close>

definition receive :: "('a \<Rightarrow> nat) \<Rightarrow> 'e \<Rightarrow> string \<Rightarrow> 'a \<Rightarrow> ('e, 'n, 'o, 'a, 'r) net_sys \<Rightarrow> ('e, 'n, 'o, 'a, 'r) net_sys" where
  "receive alen e meth args ns =
     ns\<lparr>network := add_bytes (alen args) ((network ns)\<lparr>rn_count := rn_count (network ns) + 1\<rparr>),
        requests := requests ns @ [new_request e meth args]\<rparr>"

text \<open>What an answer adds: nothing for a failure, the length of the reply otherwise.\<close>

definition reply_bytes :: "('r \<Rightarrow> nat) \<Rightarrow> ('e, 'n, 'a, 'r) request_state \<Rightarrow> nat" where
  "reply_bytes rlen q = (case replied q of Some (Some r) \<Rightarrow> rlen r | _ \<Rightarrow> 0)"

definition answer_request :: "('r \<Rightarrow> nat) \<Rightarrow> nat \<Rightarrow> ('e, 'n, 'a, 'r) request_state \<Rightarrow> ('e, 'n, 'o, 'a, 'r) net_sys \<Rightarrow> ('e, 'n, 'o, 'a, 'r) net_sys" where
  "answer_request rlen k q ns =
     ns\<lparr>network := add_bytes (reply_bytes rlen q) (network ns), requests := (requests ns)[k := q]\<rparr>"

text \<open>\<open>cn_loop\<close>: the goroutine still receives; \<open>cn_refused\<close>: the calls that gave up as the network was closed.\<close>

record ('e, 'n, 'o, 'a, 'r) counted_net =
  cn_sys :: "('e, 'n, 'o, 'a, 'r) net_sys"
  cn_loop :: bool
  cn_refused :: nat

abbreviation rnet_of :: "('e, 'n, 'o, 'a, 'r) counted_net \<Rightarrow> ('e, 'n, 'o, 'a, 'r) Network" where
  "rnet_of c \<equiv> network (cn_sys c)"

abbreviation reqs_of :: "('e, 'n, 'o, 'a, 'r) counted_net \<Rightarrow> ('e, 'n, 'a, 'r) request_state list" where
  "reqs_of c \<equiv> requests (cn_sys c)"

definition same_counters :: "('e, 'n, 'o, 'a, 'r) Network \<Rightarrow> ('e, 'n, 'o, 'a, 'r) Network \<Rightarrow> bool" where
  "same_counters rn rn' \<longleftrightarrow> objs rn' = objs rn \<and> rn_count rn' = rn_count rn \<and> rn_bytes rn' = rn_bytes rn \<and> rn_done rn' = rn_done rn"

inductive counted_step :: "('a \<Rightarrow> nat) \<Rightarrow> ('r \<Rightarrow> nat) \<Rightarrow> ('e, 'n, 'o, 'a, 'r) counted_net \<Rightarrow> ('e, 'n, 'o, 'a, 'r) counted_net \<Rightarrow> bool"
  for alen :: "'a \<Rightarrow> nat" and rlen :: "'r \<Rightarrow> nat" where
  takes: "cn_loop c \<Longrightarrow> counted_step alen rlen c (c\<lparr>cn_sys := receive alen e meth args (cn_sys c)\<rparr>)"
| refuses: "rn_done (rnet_of c) \<Longrightarrow> counted_step alen rlen c (c\<lparr>cn_refused := Suc (cn_refused c)\<rparr>)"
| looks: "k < length (reqs_of c) \<Longrightarrow> q = reqs_of c ! k \<Longrightarrow> target q = None \<Longrightarrow> held q = None \<Longrightarrow> replied q = None \<Longrightarrow>
    counted_step alen rlen c (c\<lparr>cn_sys := (cn_sys c)\<lparr>requests := (reqs_of c)[k := begin_request dropped (rnet_of c) q]\<rparr>\<rparr>)"
| runs: "k < length (reqs_of c) \<Longrightarrow> q = reqs_of c ! k \<Longrightarrow> target q \<noteq> None \<Longrightarrow> handler q = None \<Longrightarrow>
    run_handler (rnet_of c) q = Inr (rn, q') \<Longrightarrow>
    counted_step alen rlen c (c\<lparr>cn_sys := \<lparr>network = rn, requests = (reqs_of c)[k := q']\<rparr>\<rparr>)"
| replies: "k < length (reqs_of c) \<Longrightarrow> q = reqs_of c ! k \<Longrightarrow> target q \<noteq> None \<Longrightarrow> held q = None \<Longrightarrow> replied q = None \<Longrightarrow>
    counted_step alen rlen c (c\<lparr>cn_sys := answer_request rlen k (end_request dropped delay (rnet_of c) q) (cn_sys c)\<rparr>)"
| fires: "k < length (reqs_of c) \<Longrightarrow> q = reqs_of c ! k \<Longrightarrow> held q \<noteq> None \<Longrightarrow>
    counted_step alen rlen c (c\<lparr>cn_sys := answer_request rlen k (release_held q) (cn_sys c)\<rparr>)"
| set_up: "same_counters (rnet_of c) rn \<Longrightarrow> counted_step alen rlen c (c\<lparr>cn_sys := (cn_sys c)\<lparr>network := rn\<rparr>\<rparr>)"
| serves: "counted_step alen rlen c (c\<lparr>cn_sys := (cn_sys c)\<lparr>network :=
      (rnet_of c)\<lparr>objs := (objs (rnet_of c))(ptr := AddService svc (objs (rnet_of c) ptr))\<rparr>\<rparr>\<rparr>)"
| closes: "Network_Cleanup (rnet_of c) = Inr rn \<Longrightarrow> counted_step alen rlen c (c\<lparr>cn_sys := (cn_sys c)\<lparr>network := rn\<rparr>\<rparr>)"
| stops: "rn_done (rnet_of c) \<Longrightarrow> counted_step alen rlen c (c\<lparr>cn_loop := False\<rparr>)"

inductive counted_run :: "('a \<Rightarrow> nat) \<Rightarrow> ('r \<Rightarrow> nat) \<Rightarrow> ('e, 'n, 'o, 'a, 'r) counted_net \<Rightarrow> bool"
  for alen :: "'a \<Rightarrow> nat" and rlen :: "'r \<Rightarrow> nat" where
  counted_init: "counted_run alen rlen \<lparr>cn_sys = \<lparr>network = MakeNetwork, requests = []\<rparr>, cn_loop = True, cn_refused = 0\<rparr>"
| counted_next: "counted_run alen rlen c \<Longrightarrow> counted_step alen rlen c c' \<Longrightarrow> counted_run alen rlen c'"

section \<open>Refinement\<close>

lemma net_sys_update:
  "s\<lparr>network := rn, requests := qs\<rparr> = \<lparr>network = rn, requests = qs\<rparr>"
  "s\<lparr>requests := qs, network := rn\<rparr> = \<lparr>network = rn, requests = qs\<rparr>"
  "s\<lparr>requests := qs\<rparr> = \<lparr>network = network s, requests = qs\<rparr>"
  for s :: "('e, 'n, 'o, 'a, 'r) net_sys"
  by simp_all

lemma net_run_changes: "net_run s \<Longrightarrow> objs rn = objs (network s) \<Longrightarrow> net_run (s\<lparr>network := rn\<rparr>)"
  using net_next [OF _ changes] by blast

lemma counted_step_net_run: "counted_step alen rlen c c' \<Longrightarrow> net_run (cn_sys c) \<Longrightarrow> net_run (cn_sys c')"
proof (induction rule: counted_step.induct)
  case (takes c e meth args)
  from net_run_changes [OF net_next [OF takes.prems send [of _ e meth args]], of "add_bytes (alen args) ((rnet_of c)\<lparr>rn_count := rn_count (rnet_of c) + 1\<rparr>)"]
  show ?case by (simp add: receive_def add_bytes_def net_sys_update)
next
  case (looks k c q dropped)
  then show ?case using net_next [OF looks.prems begins] by simp
next
  case (runs k c q rn q')
  then show ?case using net_next [OF runs.prems handles] by simp
next
  case (replies k c q dropped delay)
  have "net_run ((cn_sys c)\<lparr>requests := (reqs_of c)[k := end_request dropped delay (rnet_of c) q]\<rparr>)"
    using net_next [OF replies.prems net_step.ends [OF replies.hyps]] .
  from net_run_changes [OF this, of "add_bytes _ (rnet_of c)"] show ?case by (simp add: answer_request_def add_bytes_def net_sys_update)
next
  case (fires k c q)
  have "net_run ((cn_sys c)\<lparr>requests := (reqs_of c)[k := release_held q]\<rparr>)"
    using net_next [OF fires.prems releases [OF fires.hyps(1,2)]] .
  from net_run_changes [OF this, of "add_bytes _ (rnet_of c)"] show ?case by (simp add: answer_request_def add_bytes_def net_sys_update)
next
  case (set_up c rn)
  then show ?case by (simp add: net_run_changes same_counters_def)
next
  case (serves c ptr svc)
  then show ?case using net_next [OF serves.prems adds] by simp
next
  case (closes c rn)
  then show ?case by (auto intro!: net_run_changes simp: Network_Cleanup_def split: if_splits)
qed simp_all

lemma counted_net_run: "counted_run alen rlen c \<Longrightarrow> net_run (cn_sys c)"
  by (induction rule: counted_run.induct) (auto intro: net_init counted_step_net_run)

section \<open>What is counted\<close>

text \<open>What the calls themselves have seen: the arguments of each, and the reply of each that succeeded.\<close>

definition traffic :: "('a \<Rightarrow> nat) \<Rightarrow> ('r \<Rightarrow> nat) \<Rightarrow> ('e, 'n, 'a, 'r) request_state list \<Rightarrow> nat" where
  "traffic alen rlen qs =
     (\<Sum>q \<leftarrow> qs. alen (req_args q)) + (\<Sum>r \<leftarrow> List.map_filter (\<lambda>q. Option.bind (Call_result q) id) qs. rlen r)"

lemma traffic_eq: "traffic alen rlen qs = sum_list (map (\<lambda>q. alen (req_args q) + reply_bytes rlen q) qs)"
  by (induction qs) (auto simp: traffic_def reply_bytes_def Call_result_def map_filter_simps split: option.splits)

definition counted_inv :: "('a \<Rightarrow> nat) \<Rightarrow> ('r \<Rightarrow> nat) \<Rightarrow> ('e, 'n, 'o, 'a, 'r) counted_net \<Rightarrow> bool" where
  "counted_inv alen rlen c \<longleftrightarrow> rn_count (rnet_of c) = of_nat (length (reqs_of c)) \<and>
     rn_bytes (rnet_of c) = of_nat (traffic alen rlen (reqs_of c)) \<and> (cn_loop c \<or> rn_done (rnet_of c)) \<and>
     (\<forall>q \<in> set (reqs_of c). held q \<noteq> None \<longrightarrow> replied q = None)"

lemma traffic_update:
  assumes "k < length qs" and "req_args q = req_args (qs ! k)" and "reply_bytes rlen q = reply_bytes rlen (qs ! k) + d"
  shows "traffic alen rlen (qs[k := q]) = traffic alen rlen qs + d"
  using assms elem_le_sum_list [of k "map (\<lambda>q. alen (req_args q) + reply_bytes rlen q) qs"]
  by (simp add: traffic_eq map_update sum_list_update)

text \<open>A step of request number \<open>k\<close> to \<open>q\<close> that adds \<open>d\<close> bytes keeps the counts right.\<close>

lemma counted_inv_update:
  assumes "counted_inv alen rlen c" and "k < length (reqs_of c)" and "req_args q = req_args (reqs_of c ! k)"
    and "reply_bytes rlen q = reply_bytes rlen (reqs_of c ! k) + d" and "held q \<noteq> None \<longrightarrow> replied q = None"
    and "rn_bytes rn = rn_bytes (rnet_of c) + of_nat d" "rn_count rn = rn_count (rnet_of c)" "rn_done rn = rn_done (rnet_of c)"
  shows "counted_inv alen rlen (c\<lparr>cn_sys := \<lparr>network = rn, requests = (reqs_of c)[k := q]\<rparr>\<rparr>)"
proof -
  have "\<forall>q' \<in> set ((reqs_of c)[k := q]). held q' \<noteq> None \<longrightarrow> replied q' = None"
    using assms(1,5) set_update_subset_insert [of "reqs_of c" k q] unfolding counted_inv_def by blast
  then show ?thesis using assms(1,6-8) traffic_update [OF assms(2-4), of alen] by (simp add: counted_inv_def)
qed

lemma request_frames:
  "req_args (begin_request dropped rn q) = req_args q" "req_args (end_request dropped delay rn q) = req_args q"
  "req_args (release_held q) = req_args q"
  by (auto simp: begin_request_def end_request_def release_held_def Let_def split: prod.splits option.splits if_splits bool.splits)

lemma one_answer:
  "held q = None \<Longrightarrow> replied q = None \<Longrightarrow> held (begin_request dropped rn q) \<noteq> None \<longrightarrow> replied (begin_request dropped rn q) = None"
  "held q = None \<Longrightarrow> replied q = None \<Longrightarrow> held (end_request dropped delay rn q) \<noteq> None \<longrightarrow> replied (end_request dropped delay rn q) = None"
  "held q \<noteq> None \<Longrightarrow> held (release_held q) = None"
  "replied q = None \<Longrightarrow> reply_bytes rlen (begin_request dropped rn q) = 0"
  by (auto simp: begin_request_def end_request_def release_held_def reply_bytes_def Let_def split: prod.splits option.splits if_splits bool.splits)

lemma run_handler_frame:
  "run_handler rn q = Inr (rn', q') \<Longrightarrow> rn_bytes rn' = rn_bytes rn \<and> rn_count rn' = rn_count rn \<and> rn_done rn' = rn_done rn \<and>
     req_args q' = req_args q \<and> held q' = held q \<and> replied q' = replied q"
  by (auto simp: run_handler_def go_map_eq_Inr split: option.splits)

lemma counted_inv_step: "counted_step alen rlen c c' \<Longrightarrow> counted_inv alen rlen c \<Longrightarrow> counted_inv alen rlen c'"
proof (induction rule: counted_step.induct)
  case (takes c e meth args)
  then show ?case by (auto simp: counted_inv_def receive_def add_bytes_def new_request_def traffic_eq reply_bytes_def)
next
  case (looks k c q dropped)
  have z: "reply_bytes rlen q = 0" using looks by (simp add: reply_bytes_def)
  show ?case unfolding net_sys_update
    using looks z by (intro counted_inv_update [where d = 0]) (auto simp: request_frames one_answer)
next
  case (runs k c q rn q')
  note f = run_handler_frame [OF runs.hyps(5)]
  have "held q \<noteq> None \<longrightarrow> replied q = None" using runs by (auto simp: counted_inv_def)
  then show ?case using runs f by (intro counted_inv_update [where d = 0]) (auto simp: reply_bytes_def)
next
  case (replies k c q dropped delay)
  have z: "reply_bytes rlen q = 0" using replies by (simp add: reply_bytes_def)
  show ?case unfolding answer_request_def net_sys_update
    using replies z one_answer(2) [OF replies.hyps(4,5)] by (intro counted_inv_update) (auto simp: request_frames add_bytes_def)
next
  case (fires k c q)
  have "replied q = None" using fires by (auto simp: counted_inv_def)
  then have z: "reply_bytes rlen q = 0" by (simp add: reply_bytes_def)
  show ?case unfolding answer_request_def net_sys_update
    using fires z one_answer(3) [OF fires.hyps(3)] by (intro counted_inv_update) (auto simp: request_frames add_bytes_def)
qed (auto simp: counted_inv_def same_counters_def Network_Cleanup_def split: if_splits)

lemma counted_run_inv: "counted_run alen rlen c \<Longrightarrow> counted_inv alen rlen c"
proof (induction rule: counted_run.induct)
  case counted_init
  show ?case by (simp add: counted_inv_def MakeNetwork_def traffic_eq)
next
  case (counted_next c c')
  then show ?case using counted_inv_step by blast
qed

lemma sint_of_nat_small:
  "n < 2 ^ 63 \<Longrightarrow> sint (of_nat n :: 64 word) = int n" "n < 2 ^ 31 \<Longrightarrow> sint (of_nat n :: 32 word) = int n"
  by (simp_all add: signed_of_nat signed_take_bit_int_eq_self)

text \<open>C26: The statistics of the network tell the truth. In every run, requests dropped, delayed, answered late or left
  without an answer included, the total of RPCs is the number of requests handed in and the total of bytes is the length of their
  arguments plus the length of the replies that were sent back, failures and dropped replies not counted, as long as the
  two stay below \<open>2^31\<close> and \<open>2^63\<close>, where the counters wrap around. The run is one of the network of \<open>LabRPC\<close>, and a call
  always finds somebody to talk to: the goroutine receives until the network is closed.\<close>

theorem traffic_is_counted:
  assumes "counted_run alen rlen c"
  shows "net_run (cn_sys c) \<and> (cn_loop c \<or> rn_done (rnet_of c)) \<and>
    (length (reqs_of c) < 2 ^ 31 \<longrightarrow> GetTotalCount (rnet_of c) = int (length (reqs_of c))) \<and>
    (traffic alen rlen (reqs_of c) < 2 ^ 63 \<longrightarrow> GetTotalBytes (rnet_of c) = int (traffic alen rlen (reqs_of c)))"
proof -
  have "counted_inv alen rlen c" by (rule counted_run_inv [OF assms])
  then show ?thesis using counted_net_run [OF assms]
    by (auto simp: counted_inv_def GetTotalCount_def GetTotalBytes_def sint_of_nat_small)
qed

text \<open>A network whose goroutine has stopped takes no request again, an answer is never replaced by another, and
  a network is closed once.\<close>

lemma answered_once:
  assumes "counted_step alen rlen c c'" and "counted_inv alen rlen c" and "k < length (reqs_of c)" and "replied (reqs_of c ! k) = Some x"
  shows "replied (reqs_of c' ! k) = Some x"
proof -
  have "held (reqs_of c ! k) = None" using assms(2-4) nth_mem by (fastforce simp: counted_inv_def)
  with assms(1,3,4) show ?thesis
    by (cases rule: counted_step.cases)
      (auto simp: receive_def answer_request_def nth_append nth_list_update dest!: run_handler_frame)
qed

lemma stopped_network:
  assumes "(counted_step alen rlen)\<^sup>*\<^sup>* c c'" and "\<not> cn_loop c"
  shows "\<not> cn_loop c' \<and> length (reqs_of c') = length (reqs_of c)"
  using assms
proof (induction rule: rtranclp_induct)
  case (step c1 c2)
  from step.hyps(2) step.IH step.prems show ?case by (cases rule: counted_step.cases) (auto simp: answer_request_def)
qed simp

lemma Cleanup_once: "Network_Cleanup rn = Inr rn' \<Longrightarrow> Network_Cleanup rn' = Inl ClosedChannel"
  by (auto simp: Network_Cleanup_def split: if_splits)

section \<open>A counted call\<close>

lemma demo_counted_start:
  "counted_run alen rlen \<lparr>cn_sys = \<lparr>network = demo_net, requests = []\<rparr>, cn_loop = True, cn_refused = 0\<rparr>"
proof -
  let ?c = "\<lparr>cn_sys = \<lparr>network = MakeNetwork, requests = []\<rparr>, cn_loop = True, cn_refused = 0\<rparr> :: (nat, nat, nat, nat, nat) counted_net"
  note s = counted_next [OF counted_init serves [of alen rlen ?c 1 demo_adder]]
  from counted_next [OF s set_up [of _ demo_net]] show ?thesis
    by (simp add: demo_net_def Enable_def Connect_def AddServer_def MakeNetwork_def same_counters_def)
qed

theorem traffic_is_counted_witness:
  "\<exists>c :: (nat, nat, nat, nat, nat) counted_net. counted_run (\<lambda>_. 12) (\<lambda>_. 9) c \<and> map Call_result (reqs_of c) = [Some (Some 5)] \<and>
     GetTotalCount (rnet_of c) = 1 \<and> GetTotalBytes (rnet_of c) = 21"
proof -
  define rn where "rn = add_bytes 12 (demo_net\<lparr>rn_count := rn_count demo_net + 1\<rparr>)"
  define q0 :: "(nat, nat, nat, nat) request_state" where "q0 = new_request 0 ''S.Add'' 3"
  define q1 where "q1 = q0\<lparr>target := Some (7, 1, True, False)\<rparr>"
  define q2 where "q2 = q1\<lparr>handler := Some 5\<rparr>"
  define q3 where "q3 = q2\<lparr>replied := Some (Some 5)\<rparr>"
  note qs = q3_def q2_def q1_def q0_def new_request_def
  define at where "at rn q = \<lparr>cn_sys = \<lparr>network = rn, requests = [q]\<rparr>, cn_loop = True, cn_refused = 0\<rparr>"
    for rn :: "(nat, nat, nat, nat, nat) Network" and q
  have n: "enabled rn 0" "connections rn 0 = Some 7" "servers rn 7 = Some 1" "reliable rn" "\<not> longReordering rn"
    by (simp_all add: rn_def add_bytes_def demo_net_def Enable_def Connect_def AddServer_def MakeNetwork_def)
  obtain obj where "Server_dispatch ''S.Add'' 3 (objs demo_net 1) = Inr (obj, 5)" using demo_dispatch by blast
  then have d: "Server_dispatch ''S.Add'' 3 (objs rn 1) = Inr (obj, 5)" by (simp add: rn_def add_bytes_def)
  define rn' where "rn' = rn\<lparr>objs := (objs rn)(1 := obj)\<rparr>"
  have b: "begin_request False rn q0 = q1" using n by (simp add: begin_request_def readEndnameInfo_def qs)
  have h: "run_handler rn q1 = Inr (rn', q2)" using d by (simp add: run_handler_def rn'_def qs)
  have e: "end_request False False rn' q2 = q3" using n by (simp add: end_request_def isServerDead_def rn'_def qs)
  let ?run = "counted_run (\<lambda>_. 12) (\<lambda>_. 9)"
  have "?run (at rn q0)" using counted_next [OF demo_counted_start takes [of _ "\<lambda>_. 12" "\<lambda>_. 9" 0 "''S.Add''" 3]]
    by (simp add: at_def rn_def q0_def receive_def)
  from counted_next [OF this looks [of 0 _ _ "\<lambda>_. 12" "\<lambda>_. 9" False]] have "?run (at rn q1)" using b by (simp add: at_def qs)
  from counted_next [OF this runs [of 0 _ _ rn' q2]] have "?run (at rn' q2)" using h by (simp add: at_def qs)
  from counted_next [OF this replies [of 0 _ _ "\<lambda>_. 12" "\<lambda>_. 9" False False]] have r: "?run (at (add_bytes 9 rn') q3)"
    using e by (simp add: at_def qs answer_request_def reply_bytes_def)
  have "reqs_of (at (add_bytes 9 rn') q3) = [q3]" by (simp add: at_def)
  moreover have "traffic (\<lambda>_. 12) (\<lambda>_. 9) [q3] = 21" by (simp add: traffic_eq reply_bytes_def qs)
  ultimately show ?thesis using traffic_is_counted [OF r] r
    by (intro exI [of _ "at (add_bytes 9 rn') q3"]) (simp add: Call_result_def qs)
qed

end
