(* ===== verification/Persister.thy ===== *)
theory Persister
  imports Prelude
begin

text \<open>
  The stable storage of a peer (\<open>tester1/persister.go\<close>): two byte strings, the encoded Raft
  state and the service's snapshot, always replaced together. The element types are
  parameters: Raft stores encoded values in the first and opaque service bytes in the second.
  The interface Raft relies on is the locale \<open>stable_storage\<close>.
\<close>

section \<open>The persister\<close>

record ('r, 's) Persister =
  raftstate :: "'r list"
  snapshot :: "'s list"

definition MakePersister :: "('r, 's) Persister" where
  "MakePersister = \<lparr>raftstate = [], snapshot = []\<rparr>"

text \<open>\<open>clone\<close> makes a slice of the same length and copies the elements over.\<close>

definition clone :: "'b list \<Rightarrow> 'b list" where
  "clone orig = map (\<lambda>i. orig ! i) [0..<length orig]"

definition Persister_Copy :: "('r, 's) Persister \<Rightarrow> ('r, 's) Persister" where
  "Persister_Copy ps = MakePersister\<lparr>raftstate := raftstate ps, snapshot := snapshot ps\<rparr>"

definition ReadRaftState :: "('r, 's) Persister \<Rightarrow> 'r list" where
  "ReadRaftState ps = clone (raftstate ps)"

definition RaftStateSize :: "('r, 's) Persister \<Rightarrow> nat" where
  "RaftStateSize ps = length (raftstate ps)"

definition Save :: "'r list \<Rightarrow> 's list \<Rightarrow> ('r, 's) Persister \<Rightarrow> ('r, 's) Persister" where
  "Save rs snap ps = ps\<lparr>raftstate := clone rs, snapshot := clone snap\<rparr>"

definition ReadSnapshot :: "('r, 's) Persister \<Rightarrow> 's list" where
  "ReadSnapshot ps = clone (snapshot ps)"

definition SnapshotSize :: "('r, 's) Persister \<Rightarrow> nat" where
  "SnapshotSize ps = length (snapshot ps)"

lemma clone_id [simp]: "clone xs = xs"
  by (simp add: clone_def map_nth)

section \<open>The storage interface\<close>

locale stable_storage =
  fixes save :: "'r list \<Rightarrow> 's list \<Rightarrow> 'p \<Rightarrow> 'p"
    and read_state :: "'p \<Rightarrow> 'r list"
    and read_snap :: "'p \<Rightarrow> 's list"
    and copy :: "'p \<Rightarrow> 'p"
  assumes state_save: "read_state (save r s p) = r"
    and snap_save: "read_snap (save r s p) = s"
    and state_copy: "read_state (copy p) = read_state p"
    and snap_copy: "read_snap (copy p) = read_snap p"
begin

text \<open>Saving a new Raft state with the snapshot read back keeps the snapshot.\<close>

lemma resave_keeps_snapshot: "read_snap (save r (read_snap p) p) = read_snap p"
  by (rule snap_save)

text \<open>What a restarted peer reads is the last state saved, through any number of copies.\<close>

lemma restart_reads_last_save:
  "read_state ((copy ^^ n) (save r s p)) = r \<and> read_snap ((copy ^^ n) (save r s p)) = s"
  by (induction n) (simp_all add: state_save snap_save state_copy snap_copy)

end

interpretation ps: stable_storage Save ReadRaftState ReadSnapshot Persister_Copy
  by unfold_locales
     (simp_all add: Save_def ReadRaftState_def ReadSnapshot_def Persister_Copy_def MakePersister_def)

lemma MakePersister_reads [simp]:
  "ReadRaftState MakePersister = []"
  "ReadSnapshot MakePersister = []"
  by (simp_all add: MakePersister_def ReadRaftState_def ReadSnapshot_def)

lemmas persister_reads [simp] =
  ps.state_save ps.snap_save ps.state_copy ps.snap_copy

end
