(* ===== verification/RaftPeer.thy ===== *)
theory RaftPeer
  imports Persister
begin

text \<open>
  One Raft peer (\<open>raft1/raft.go\<close>): its state, the helpers on the log with its snapshot offset,
  persistence, and every operation that runs under the peer's mutex: the three RPC handlers,
  the parts of the election and replication goroutines before and after their RPC, \<open>Start\<close>,
  \<open>Snapshot\<close> and the applier. An operation is one atomic section between a lock and an unlock;
  a goroutine that releases the lock in between is several operations.

  The command type is a parameter \<open>'c\<close>; a nil command is \<open>None\<close>. A call of
  \<open>resetElectionTimeout\<close> reads the clock and a random number, which are arguments.
\<close>

section \<open>State\<close>

datatype State = Follower | Candidate | Leader

record 'c LogEntry =
  Command :: "'c option"
  Term :: int

text \<open>\<open>labgob\<close> writes a stream of self-describing values and reads them back one at a time; the
  bytes of a Raft state are the sequence of values encoded.\<close>

datatype 'c gob = GInt int | GLog "'c LogEntry list"

type_synonym ('c, 's) storage = "('c gob, 's) Persister"

record ('c, 's) Raft =
  npeers :: nat                       \<comment> \<open>\<open>len(rf.peers)\<close>\<close>
  persister :: "('c, 's) storage"
  me :: int
  dead :: bool
  currentTerm :: int
  votedFor :: int
  log :: "'c LogEntry list"
  commitIndex :: int
  lastApplied :: int
  nextIndex :: "int list"
  matchIndex :: "int list"
  state :: State
  lastHeartbeat :: int
  electionTimeout :: int
  votesReceived :: int
  lastIncludedIndex :: int
  lastIncludedTerm :: int

type_synonym tick = "int \<times> int"  \<comment> \<open>the time now and the value of \<open>rand.Intn(150)\<close>\<close>

section \<open>Helpers\<close>

definition GetState :: "('c, 's) Raft \<Rightarrow> int \<times> bool" where
  "GetState rf = (currentTerm rf, state rf = Leader)"

definition getLastLogIndex :: "('c, 's) Raft \<Rightarrow> int" where
  "getLastLogIndex rf = int (length (log rf)) - 1 + lastIncludedIndex rf"

definition getLastLogTerm :: "('c, 's) Raft \<Rightarrow> int" where
  "getLastLogTerm rf = (if length (log rf) = 0 then lastIncludedTerm rf else Term (last (log rf)))"

definition toArrayIndex :: "('c, 's) Raft \<Rightarrow> int \<Rightarrow> int" where
  "toArrayIndex rf realIndex = realIndex - lastIncludedIndex rf"

definition getLogTerm :: "('c, 's) Raft \<Rightarrow> int \<Rightarrow> int" where
  "getLogTerm rf realIndex =
     (let arrayIndex = toArrayIndex rf realIndex in
      if arrayIndex < 0 \<or> arrayIndex \<ge> int (length (log rf)) then -1
      else Term (log rf ! nat arrayIndex))"

section \<open>Persistence\<close>

definition encode_state :: "('c, 's) Raft \<Rightarrow> 'c gob list" where
  "encode_state rf =
     [GInt (currentTerm rf), GInt (votedFor rf), GLog (log rf),
      GInt (lastIncludedIndex rf), GInt (lastIncludedTerm rf)]"

definition persist :: "('c, 's) Raft \<Rightarrow> ('c, 's) Raft" where
  "persist rf = rf\<lparr>persister := Save (encode_state rf) (ReadSnapshot (persister rf)) (persister rf)\<rparr>"

text \<open>The save of \<open>Snapshot\<close> and \<open>InstallSnapshot\<close>: the new state and the new snapshot together.\<close>

definition persist_with :: "'s list \<Rightarrow> ('c, 's) Raft \<Rightarrow> ('c, 's) Raft" where
  "persist_with snap rf = rf\<lparr>persister := Save (encode_state rf) snap (persister rf)\<rparr>"

fun decode_int :: "'c gob list \<Rightarrow> (int \<times> 'c gob list) option" where
  "decode_int (GInt i # rest) = Some (i, rest)"
| "decode_int _ = None"

fun decode_log :: "'c gob list \<Rightarrow> ('c LogEntry list \<times> 'c gob list) option" where
  "decode_log (GLog l # rest) = Some (l, rest)"
| "decode_log _ = None"

text \<open>The five decodes in order; the first that fails abandons the restore.\<close>

definition decode_state :: "'c gob list \<Rightarrow> (int \<times> int \<times> 'c LogEntry list \<times> int \<times> int) option" where
  "decode_state d =
     Option.bind (decode_int d) (\<lambda>(term, d). Option.bind (decode_int d) (\<lambda>(voted, d).
     Option.bind (decode_log d) (\<lambda>(lg, d). Option.bind (decode_int d) (\<lambda>(lii, d).
     Option.bind (decode_int d) (\<lambda>(lit, d). Some (term, voted, lg, lii, lit))))))"

definition readPersist :: "'c gob list \<Rightarrow> ('c, 's) Raft \<Rightarrow> ('c, 's) Raft" where
  "readPersist d rf =
     (if length d < 1 then rf
      else case decode_state d of
        None \<Rightarrow> rf
      | Some (term, voted, lg, lii, lit) \<Rightarrow>
          rf\<lparr>currentTerm := term, votedFor := voted, log := lg,
             lastIncludedIndex := lii, lastIncludedTerm := lit,
             lastApplied := (if lastApplied rf < lii then lii else lastApplied rf),
             commitIndex := (if commitIndex rf < lii then lii else commitIndex rf)\<rparr>)"

definition PersistBytes :: "('c, 's) Raft \<Rightarrow> nat" where
  "PersistBytes rf = RaftStateSize (persister rf)"

section \<open>Timeouts, start and stop\<close>

definition resetElectionTimeout :: "tick \<Rightarrow> ('c, 's) Raft \<Rightarrow> ('c, 's) Raft" where
  "resetElectionTimeout tk rf = rf\<lparr>electionTimeout := 150 + snd tk, lastHeartbeat := fst tk\<rparr>"

definition Kill :: "('c, 's) Raft \<Rightarrow> ('c, 's) Raft" where
  "Kill rf = rf\<lparr>dead := True\<rparr>"

definition killed :: "('c, 's) Raft \<Rightarrow> bool" where
  "killed rf = dead rf"

definition Make :: "nat \<Rightarrow> int \<Rightarrow> ('c, 's) storage \<Rightarrow> tick \<Rightarrow> ('c, 's) Raft" where
  "Make peers i ps tk =
     readPersist (ReadRaftState ps)
       (resetElectionTimeout tk
         \<lparr>npeers = peers, persister = ps, me = i, dead = False, currentTerm = 0, votedFor = -1,
          log = [\<lparr>Command = None, Term = 0\<rparr>], commitIndex = 0, lastApplied = 0,
          nextIndex = [], matchIndex = [], state = Follower, lastHeartbeat = 0,
          electionTimeout = 0, votesReceived = 0, lastIncludedIndex = 0, lastIncludedTerm = 0\<rparr>)"

text \<open>Step down to a newer term, as the handlers and reply handlers all do.\<close>

definition newTerm :: "int \<Rightarrow> ('c, 's) Raft \<Rightarrow> ('c, 's) Raft" where
  "newTerm t rf = persist (rf\<lparr>currentTerm := t, votedFor := -1, state := Follower\<rparr>)"

section \<open>Snapshots of the service\<close>

definition Snapshot :: "int \<Rightarrow> 's list \<Rightarrow> ('c, 's) Raft \<Rightarrow> ('c, 's) Raft" where
  "Snapshot index snap rf =
     (if index \<le> lastIncludedIndex rf then rf
      else
        let arrayIndex = index - lastIncludedIndex rf in
        if arrayIndex \<ge> int (length (log rf)) then rf
        else
          let lit = Term (log rf ! nat arrayIndex);
              tail = (if arrayIndex + 1 < int (length (log rf)) then drop (nat (arrayIndex + 1)) (log rf) else []);
              newLog = \<lparr>Command = None, Term = lit\<rparr> # tail
          in persist_with snap
               (rf\<lparr>lastIncludedTerm := lit, log := newLog, lastIncludedIndex := index\<rparr>))"

section \<open>RequestVote\<close>

record RequestVoteArgs =
  RVTerm :: int
  CandidateId :: int
  LastLogIndex :: int
  LastLogTerm :: int

record RequestVoteReply =
  RVRTerm :: int
  VoteGranted :: bool

definition logIsAtLeastAsUpToDate :: "RequestVoteArgs \<Rightarrow> ('c, 's) Raft \<Rightarrow> bool" where
  "logIsAtLeastAsUpToDate args rf \<longleftrightarrow>
     (if LastLogTerm args > getLastLogTerm rf then True
      else if LastLogTerm args = getLastLogTerm rf then LastLogIndex args \<ge> getLastLogIndex rf
      else False)"

definition RequestVote ::
  "tick \<Rightarrow> RequestVoteArgs \<Rightarrow> ('c, 's) Raft \<Rightarrow> ('c, 's) Raft \<times> RequestVoteReply" where
  "RequestVote tk args rf =
     (let reply = \<lparr>RVRTerm = currentTerm rf, VoteGranted = False\<rparr> in
      if RVTerm args < currentTerm rf then (rf, reply)
      else
        let rf1 = (if RVTerm args > currentTerm rf then newTerm (RVTerm args) rf else rf) in
        if (votedFor rf1 = -1 \<or> votedFor rf1 = CandidateId args) \<and> logIsAtLeastAsUpToDate args rf1
        then (resetElectionTimeout tk (persist (rf1\<lparr>votedFor := CandidateId args\<rparr>)),
              reply\<lparr>VoteGranted := True\<rparr>)
        else (rf1, reply))"

section \<open>AppendEntries\<close>

record 'c AppendEntriesArgs =
  AETerm :: int
  LeaderId :: int
  PrevLogIndex :: int
  PrevLogTerm :: int
  Entries :: "'c LogEntry list"
  LeaderCommit :: int

record AppendEntriesReply =
  AERTerm :: int
  Success :: bool
  ConflictTerm :: int
  ConflictIndex :: int

text \<open>The scan back to the first index of the conflicting term.\<close>

function conflict_scan :: "('c, 's) Raft \<Rightarrow> int \<Rightarrow> int \<Rightarrow> int" where
  "conflict_scan rf t conflictIndex =
     (if conflictIndex > lastIncludedIndex rf \<and> getLogTerm rf (conflictIndex - 1) = t
      then conflict_scan rf t (conflictIndex - 1) else conflictIndex)"
  by pat_completeness auto
termination
  by (relation "measure (\<lambda>(rf, t, i). nat (i - lastIncludedIndex rf))") auto

declare conflict_scan.simps [simp del]

text \<open>The loop that looks for the first entry in conflict: the log, possibly cut, and the number
  of entries already present. Cutting at a negative array index is a run-time panic.\<close>

fun merge_entries ::
  "('c, 's) Raft \<Rightarrow> int \<Rightarrow> 'c LogEntry list \<Rightarrow> ('c LogEntry list \<times> 'c LogEntry list) go" where
  "merge_entries rf insertIndex [] = Inr (log rf, [])"
| "merge_entries rf insertIndex (e # es) =
     (if insertIndex \<le> getLastLogIndex rf then
        (if getLogTerm rf insertIndex \<noteq> Term e
         then go_map (\<lambda>l. (l, e # es)) (go_slice_to (log rf) (toArrayIndex rf insertIndex))
         else merge_entries rf (insertIndex + 1) es)
      else Inr (log rf, e # es))"

definition append_new :: "'c LogEntry list \<times> 'c LogEntry list \<Rightarrow> ('c, 's) Raft \<Rightarrow> ('c, 's) Raft" where
  "append_new p rf =
     (case p of (lg, rest) \<Rightarrow>
        if rest \<noteq> [] then persist (rf\<lparr>log := lg @ rest\<rparr>) else rf\<lparr>log := lg\<rparr>)"

definition advance_commit :: "int \<Rightarrow> ('c, 's) Raft \<Rightarrow> ('c, 's) Raft" where
  "advance_commit leaderCommit rf =
     (if leaderCommit > commitIndex rf
      then rf\<lparr>commitIndex := (if leaderCommit > getLastLogIndex rf then getLastLogIndex rf else leaderCommit)\<rparr>
      else rf)"

text \<open>The consistency check on \<open>PrevLogIndex\<close>: \<open>None\<close> when it passes, otherwise the conflict term
  and index of the refusal.\<close>

definition log_mismatch :: "'c AppendEntriesArgs \<Rightarrow> ('c, 's) Raft \<Rightarrow> (int \<times> int) option" where
  "log_mismatch args rf =
     (if PrevLogIndex args > 0 then
        (if PrevLogIndex args < lastIncludedIndex rf then Some (-1, lastIncludedIndex rf + 1)
         else if PrevLogIndex args > getLastLogIndex rf then Some (-1, getLastLogIndex rf + 1)
         else
           let prevLogTerm = getLogTerm rf (PrevLogIndex args) in
           if prevLogTerm \<noteq> PrevLogTerm args
           then Some (prevLogTerm, conflict_scan rf prevLogTerm (PrevLogIndex args))
           else None)
      else None)"

definition AppendEntries ::
  "tick \<Rightarrow> 'c AppendEntriesArgs \<Rightarrow> ('c, 's) Raft \<Rightarrow> (('c, 's) Raft \<times> AppendEntriesReply) go" where
  "AppendEntries tk args rf =
     (let reply = \<lparr>AERTerm = currentTerm rf, Success = False, ConflictTerm = 0, ConflictIndex = 0\<rparr> in
      if AETerm args < currentTerm rf then Inr (rf, reply)
      else
        let rf1 = (if AETerm args > currentTerm rf then newTerm (AETerm args) rf else rf);
            rf2 = resetElectionTimeout tk (rf1\<lparr>state := Follower\<rparr>)
        in case log_mismatch args rf2 of
             Some (ct, ci) \<Rightarrow> Inr (rf2, reply\<lparr>ConflictTerm := ct, ConflictIndex := ci\<rparr>)
           | None \<Rightarrow>
               go_map (\<lambda>rf3. (advance_commit (LeaderCommit args) rf3, reply\<lparr>Success := True\<rparr>))
                 (if length (Entries args) > 0
                  then go_map (\<lambda>p. append_new p rf2)
                         (merge_entries rf2 (PrevLogIndex args + 1) (Entries args))
                  else Inr rf2))"

section \<open>InstallSnapshot\<close>

record 's InstallSnapshotArgs =
  ISTerm :: int
  ISLeaderId :: int
  ISLastIncludedIndex :: int
  ISLastIncludedTerm :: int
  ISData :: "'s list"

text \<open>The log after the snapshot: a placeholder for the last entry covered, then whatever the
  peer's own log holds beyond it.\<close>

definition snapshot_log :: "'s InstallSnapshotArgs \<Rightarrow> ('c, 's) Raft \<Rightarrow> 'c LogEntry list" where
  "snapshot_log args rf =
     \<lparr>Command = None, Term = ISLastIncludedTerm args\<rparr> #
     (if ISLastIncludedIndex args < getLastLogIndex rf then
        (let startIdx = toArrayIndex rf (ISLastIncludedIndex args + 1) in
         if startIdx > 0 \<and> startIdx < int (length (log rf)) then drop (nat startIdx) (log rf) else [])
      else [])"

definition InstallSnapshot ::
  "tick \<Rightarrow> 's InstallSnapshotArgs \<Rightarrow> ('c, 's) Raft \<Rightarrow> ('c, 's) Raft \<times> int" where
  "InstallSnapshot tk args rf =
     (let reply = currentTerm rf in
      if ISTerm args < currentTerm rf then (rf, reply)
      else
        let rf1 = (if ISTerm args > currentTerm rf then newTerm (ISTerm args) rf else rf);
            rf2 = resetElectionTimeout tk rf1
        in if ISLastIncludedIndex args \<le> lastIncludedIndex rf2 then (rf2, reply)
           else
             let rf3 = rf2\<lparr>log := snapshot_log args rf2,
                           lastIncludedIndex := ISLastIncludedIndex args,
                           lastIncludedTerm := ISLastIncludedTerm args,
                           commitIndex := (if ISLastIncludedIndex args > commitIndex rf2
                                           then ISLastIncludedIndex args else commitIndex rf2)\<rparr>
             in (persist_with (ISData args) rf3, reply))"

section \<open>Start\<close>

definition Start :: "'c option \<Rightarrow> ('c, 's) Raft \<Rightarrow> ('c, 's) Raft \<times> int \<times> int \<times> bool" where
  "Start command rf =
     (if state rf \<noteq> Leader then (rf, -1, -1, False)
      else
        let rf1 = persist (rf\<lparr>log := log rf @ [\<lparr>Command = command, Term = currentTerm rf\<rparr>]\<rparr>)
        in (rf1, getLastLogIndex rf1, currentTerm rf1, True))"

section \<open>Elections\<close>

text \<open>\<open>checkElectionTimeout\<close> returns whether it has started the \<open>startElection\<close> goroutine.\<close>

definition checkElectionTimeout :: "tick \<Rightarrow> ('c, 's) Raft \<Rightarrow> ('c, 's) Raft \<times> bool" where
  "checkElectionTimeout tk rf =
     (if fst tk - lastHeartbeat rf > electionTimeout rf
      then (resetElectionTimeout tk
              (persist (rf\<lparr>state := Candidate, currentTerm := currentTerm rf + 1, votedFor := me rf\<rparr>)), True)
      else (rf, False))"

text \<open>\<open>startElection\<close> up to its unlock: the vote count starts at one and the same request goes to
  every other peer.\<close>

definition startElection :: "('c, 's) Raft \<Rightarrow> ('c, 's) Raft \<times> RequestVoteArgs" where
  "startElection rf =
     (let rf1 = rf\<lparr>votesReceived := 1\<rparr> in
      (rf1, \<lparr>RVTerm = currentTerm rf1, CandidateId = me rf1, LastLogIndex = getLastLogIndex rf1,
             LastLogTerm = getLastLogTerm rf1\<rparr>))"

definition other_peers :: "('c, 's) Raft \<Rightarrow> nat list" where
  "other_peers rf = filter (\<lambda>i. int i \<noteq> me rf) [0..<npeers rf]"

definition initializeLeaderState :: "('c, 's) Raft \<Rightarrow> ('c, 's) Raft" where
  "initializeLeaderState rf =
     rf\<lparr>nextIndex := map (\<lambda>_. getLastLogIndex rf + 1) [0..<npeers rf],
        matchIndex := map (\<lambda>_. 0) [0..<npeers rf]\<rparr>"

text \<open>The goroutine of \<open>startElection\<close> after a reply.\<close>

definition voteReply :: "RequestVoteArgs \<Rightarrow> RequestVoteReply \<Rightarrow> ('c, 's) Raft \<Rightarrow> ('c, 's) Raft" where
  "voteReply args reply rf =
     (if state rf \<noteq> Candidate \<or> currentTerm rf \<noteq> RVTerm args then rf
      else if RVRTerm reply > currentTerm rf then newTerm (RVRTerm reply) rf
      else if VoteGranted reply then
        (let rf1 = rf\<lparr>votesReceived := votesReceived rf + 1\<rparr> in
         if votesReceived rf1 > int (npeers rf1) div 2
         then initializeLeaderState (rf1\<lparr>state := Leader\<rparr>) else rf1)
      else rf)"

section \<open>Replication\<close>

datatype ('c, 's) follower_rpc = SendAppend "'c AppendEntriesArgs" | SendSnapshot "'s InstallSnapshotArgs"

definition sendHeartbeats :: "('c, 's) Raft \<Rightarrow> nat list" where
  "sendHeartbeats rf = (if state rf \<noteq> Leader then [] else other_peers rf)"

text \<open>\<open>sendToFollower\<close> up to its unlock: the request for one follower, if still leader.\<close>

definition sendToFollower :: "nat \<Rightarrow> ('c, 's) Raft \<Rightarrow> ('c, 's) follower_rpc option go" where
  "sendToFollower server rf =
     (if state rf \<noteq> Leader then Inr None
      else go_bind (go_index (nextIndex rf) (int server)) (\<lambda>next.
        if next \<le> lastIncludedIndex rf then
          Inr (Some (SendSnapshot \<lparr>ISTerm = currentTerm rf, ISLeaderId = me rf,
             ISLastIncludedIndex = lastIncludedIndex rf, ISLastIncludedTerm = lastIncludedTerm rf,
             ISData = ReadSnapshot (persister rf)\<rparr>))
        else
          let prevLogIndex = next - 1;
              prevLogTerm = (if prevLogIndex > 0 then
                               (if prevLogIndex = lastIncludedIndex rf then lastIncludedTerm rf
                                else getLogTerm rf prevLogIndex)
                             else 0);
              arrayIndex = toArrayIndex rf next
          in go_map (\<lambda>entries. Some (SendAppend \<lparr>AETerm = currentTerm rf, LeaderId = me rf,
                 PrevLogIndex = prevLogIndex, PrevLogTerm = prevLogTerm, Entries = entries,
                 LeaderCommit = commitIndex rf\<rparr>))
               (if arrayIndex < int (length (log rf)) then go_slice_from (log rf) arrayIndex else Inr [])))"

definition snapshotReply ::
  "tick \<Rightarrow> nat \<Rightarrow> 's InstallSnapshotArgs \<Rightarrow> int \<Rightarrow> ('c, 's) Raft \<Rightarrow> ('c, 's) Raft go" where
  "snapshotReply tk server args replyTerm rf =
     (if replyTerm > currentTerm rf then Inr (resetElectionTimeout tk (newTerm replyTerm rf))
      else if state rf = Leader \<and> ISTerm args = currentTerm rf then
        go_bind (go_set (nextIndex rf) (int server) (ISLastIncludedIndex args + 1)) (\<lambda>ni.
        go_map (\<lambda>mi. rf\<lparr>nextIndex := ni, matchIndex := mi\<rparr>)
          (go_set (matchIndex rf) (int server) (ISLastIncludedIndex args)))
      else Inr rf)"

text \<open>\<open>tryCommit\<close>: the peers known to hold index \<open>n\<close>, the leader counted without looking.\<close>

fun count_match :: "('c, 's) Raft \<Rightarrow> int \<Rightarrow> nat list \<Rightarrow> int \<Rightarrow> int go" where
  "count_match rf n [] cnt = Inr cnt"
| "count_match rf n (i # is) cnt =
     (if int i \<noteq> me rf then
        go_bind (go_index (matchIndex rf) (int i)) (\<lambda>m.
          count_match rf n is (if m \<ge> n then cnt + 1 else cnt))
      else count_match rf n is cnt)"

fun commit_scan :: "int list \<Rightarrow> ('c, 's) Raft \<Rightarrow> ('c, 's) Raft go" where
  "commit_scan [] rf = Inr rf"
| "commit_scan (n # ns) rf =
     (if getLogTerm rf n \<noteq> currentTerm rf then commit_scan ns rf
      else go_bind (count_match rf n [0..<npeers rf] 1) (\<lambda>cnt.
        commit_scan ns (if cnt > int (npeers rf) div 2 then rf\<lparr>commitIndex := n\<rparr> else rf)))"

definition tryCommit :: "('c, 's) Raft \<Rightarrow> ('c, 's) Raft go" where
  "tryCommit rf = commit_scan [commitIndex rf + 1..getLastLogIndex rf] rf"

text \<open>The search for the last array index at least 1 with a given term; -1 if there is none.\<close>

fun last_index_of_term :: "'c LogEntry list \<Rightarrow> int \<Rightarrow> nat \<Rightarrow> int" where
  "last_index_of_term lg t 0 = -1"
| "last_index_of_term lg t (Suc i) =
     (if Term (lg ! Suc i) = t then int (Suc i) else last_index_of_term lg t i)"

definition next_after_conflict :: "AppendEntriesReply \<Rightarrow> ('c, 's) Raft \<Rightarrow> int" where
  "next_after_conflict reply rf =
     (let next = (if ConflictTerm reply = -1 then ConflictIndex reply
                  else
                    let i = last_index_of_term (log rf) (ConflictTerm reply) (length (log rf) - 1) in
                    if i \<ge> 0 then i + 1 else ConflictIndex reply)
      in if next < 1 then 1 else next)"

definition handleAppendEntriesReply ::
  "tick \<Rightarrow> nat \<Rightarrow> 'c AppendEntriesArgs \<Rightarrow> AppendEntriesReply \<Rightarrow> ('c, 's) Raft \<Rightarrow> ('c, 's) Raft go" where
  "handleAppendEntriesReply tk server args reply rf =
     (if state rf \<noteq> Leader \<or> currentTerm rf \<noteq> AETerm args then Inr rf
      else if AERTerm reply > currentTerm rf then
        Inr (resetElectionTimeout tk (newTerm (AERTerm reply) rf))
      else if Success reply then
        go_bind (go_set (nextIndex rf) (int server) (PrevLogIndex args + int (length (Entries args)) + 1)) (\<lambda>ni.
        go_bind (go_set (matchIndex rf) (int server) (PrevLogIndex args + int (length (Entries args)))) (\<lambda>mi.
          tryCommit (rf\<lparr>nextIndex := ni, matchIndex := mi\<rparr>)))
      else
        go_map (\<lambda>ni. rf\<lparr>nextIndex := ni\<rparr>)
          (go_set (nextIndex rf) (int server) (next_after_conflict reply rf)))"

section \<open>Applying\<close>

record ('c, 's) ApplyMsg =
  CommandValid :: bool
  MsgCommand :: "'c option"
  CommandIndex :: int
  SnapshotValid :: bool
  MsgSnapshot :: "'s list"
  SnapshotTerm :: int
  SnapshotIndex :: int

definition command_msg :: "'c \<Rightarrow> int \<Rightarrow> ('c, 's) ApplyMsg" where
  "command_msg cmd i = \<lparr>CommandValid = True, MsgCommand = Some cmd, CommandIndex = i,
     SnapshotValid = False, MsgSnapshot = [], SnapshotTerm = 0, SnapshotIndex = 0\<rparr>"

definition snapshot_msg :: "('c, 's) Raft \<Rightarrow> ('c, 's) ApplyMsg" where
  "snapshot_msg rf = \<lparr>CommandValid = False, MsgCommand = None, CommandIndex = 0,
     SnapshotValid = True, MsgSnapshot = ReadSnapshot (persister rf),
     SnapshotTerm = lastIncludedTerm rf, SnapshotIndex = lastIncludedIndex rf\<rparr>"

text \<open>The first locked section of one round of the applier: a snapshot the service has not seen
  is sent first, and the lock is released for the send.\<close>

definition applier_snapshot :: "('c, 's) Raft \<Rightarrow> (('c, 's) Raft \<times> ('c, 's) ApplyMsg) option" where
  "applier_snapshot rf =
     (if commitIndex rf > lastApplied rf \<and> lastApplied rf < lastIncludedIndex rf
      then Some (rf\<lparr>lastApplied := lastIncludedIndex rf\<rparr>, snapshot_msg rf) else None)"

definition msg_at :: "('c, 's) Raft \<Rightarrow> int \<Rightarrow> ('c, 's) ApplyMsg list" where
  "msg_at rf i =
     (if i \<le> lastIncludedIndex rf then []
      else
        let arrayIndex = toArrayIndex rf i in
        if arrayIndex \<ge> 0 \<and> arrayIndex < int (length (log rf))
        then (case Command (log rf ! nat arrayIndex) of None \<Rightarrow> [] | Some c \<Rightarrow> [command_msg c i])
        else [])"

text \<open>The section that collects the committed commands.\<close>

definition applier_collect :: "('c, 's) Raft \<Rightarrow> ('c, 's) Raft \<times> ('c, 's) ApplyMsg list" where
  "applier_collect rf =
     (rf\<lparr>lastApplied := commitIndex rf\<rparr>,
      concat (map (msg_at rf) [lastApplied rf + 1..commitIndex rf]))"

text \<open>One round of the applier when nothing else gets the lock during the sends.\<close>

definition applier_round :: "('c, 's) Raft \<Rightarrow> ('c, 's) Raft \<times> ('c, 's) ApplyMsg list" where
  "applier_round rf =
     (if commitIndex rf > lastApplied rf then
        (case applier_snapshot rf of
           None \<Rightarrow> applier_collect rf
         | Some (rf1, m) \<Rightarrow> (let (rf2, ms) = applier_collect rf1 in (rf2, m # ms)))
      else (rf, []))"

section \<open>The ticker\<close>

text \<open>What one round of the ticker does with the state it read, and how long it sleeps.\<close>

definition ticker_checks_timeout :: "State \<Rightarrow> bool" where
  "ticker_checks_timeout st = (case st of Follower \<Rightarrow> True | Candidate \<Rightarrow> True | Leader \<Rightarrow> False)"

definition ticker_sleep :: "State \<Rightarrow> int \<Rightarrow> int" where
  "ticker_sleep st rnd = (if st = Leader then 50 else 50 + rnd mod 100)"

end
