(* ===== verification/KVServer.thy ===== *)
theory KVServer
  imports Prelude "HOL-Library.List_Lexorder" "HOL-Library.Char_ord"
begin

text \<open>
  The versioned key/value server (\<open>kvsrv1/server.go\<close> with the message types of
  \<open>kvsrv1/rpc/rpc.go\<close>) and the sequential model the tests check histories against
  (\<open>models1/kv.go\<close>). The server keeps values and versions in two maps; the model keeps one
  value and one version per key. The refinement lemma says that each handler is one step of
  the model on the key it names and leaves the other keys alone.
\<close>

section \<open>Messages (\<open>kvsrv1/rpc/rpc.go\<close>)\<close>

type_synonym Err = string
type_synonym Tversion = "64 word"

definition OK :: Err where "OK = ''OK''"
definition ErrNoKey :: Err where "ErrNoKey = ''ErrNoKey''"
definition ErrVersion :: Err where "ErrVersion = ''ErrVersion''"
definition ErrMaybe :: Err where "ErrMaybe = ''ErrMaybe''"
definition ErrWrongLeader :: Err where "ErrWrongLeader = ''ErrWrongLeader''"
definition ErrWrongGroup :: Err where "ErrWrongGroup = ''ErrWrongGroup''"

lemmas err_defs = OK_def ErrNoKey_def ErrVersion_def ErrMaybe_def ErrWrongLeader_def ErrWrongGroup_def

lemma err_distinct [simp]:
  "OK \<noteq> ErrNoKey" "OK \<noteq> ErrVersion" "OK \<noteq> ErrMaybe"
  "ErrNoKey \<noteq> OK" "ErrNoKey \<noteq> ErrVersion" "ErrNoKey \<noteq> ErrMaybe"
  "ErrVersion \<noteq> OK" "ErrVersion \<noteq> ErrNoKey" "ErrVersion \<noteq> ErrMaybe"
  "ErrMaybe \<noteq> OK" "ErrMaybe \<noteq> ErrNoKey" "ErrMaybe \<noteq> ErrVersion"
  by (simp_all add: err_defs)

record PutArgs =
  PutKey :: string
  PutValue :: string
  PutVersion :: Tversion

record GetReply =
  ReplyValue :: string
  ReplyVersion :: Tversion
  ReplyErr :: Err

section \<open>The server (\<open>kvsrv1/server.go\<close>)\<close>

record KVServer =
  data :: "string \<rightharpoonup> string"
  versions :: "string \<rightharpoonup> Tversion"

definition MakeKVServer :: KVServer where
  "MakeKVServer = \<lparr>data = Map.empty, versions = Map.empty\<rparr>"

text \<open>The reply struct arrives zeroed; \<open>Get\<close> fills it in. A read of an absent map entry is Go's
  zero value.\<close>

definition KVServer_Get :: "KVServer \<Rightarrow> string \<Rightarrow> GetReply" where
  "KVServer_Get kv key =
     (case data kv key of
        None \<Rightarrow> \<lparr>ReplyValue = [], ReplyVersion = 0, ReplyErr = ErrNoKey\<rparr>
      | Some value \<Rightarrow>
          \<lparr>ReplyValue = value,
           ReplyVersion = (case versions kv key of None \<Rightarrow> 0 | Some v \<Rightarrow> v),
           ReplyErr = OK\<rparr>)"

definition KVServer_Put :: "KVServer \<Rightarrow> PutArgs \<Rightarrow> KVServer \<times> Err" where
  "KVServer_Put kv args =
     (case versions kv (PutKey args) of
        Some currentVersion \<Rightarrow>
          (if PutVersion args \<noteq> currentVersion then (kv, ErrVersion)
           else (kv\<lparr>data := (data kv)(PutKey args \<mapsto> PutValue args),
                    versions := (versions kv)(PutKey args \<mapsto> currentVersion + 1)\<rparr>, OK))
      | None \<Rightarrow>
          (if PutVersion args = 0
           then (kv\<lparr>data := (data kv)(PutKey args \<mapsto> PutValue args),
                    versions := (versions kv)(PutKey args \<mapsto> 1)\<rparr>, OK)
           else (kv, ErrNoKey)))"

text \<open>The two maps always have the same keys.\<close>

definition kv_inv :: "KVServer \<Rightarrow> bool" where
  "kv_inv kv \<longleftrightarrow> dom (data kv) = dom (versions kv)"

lemma kv_inv_init [simp]: "kv_inv MakeKVServer"
  by (simp add: kv_inv_def MakeKVServer_def)

lemma kv_inv_put: "kv_inv kv \<Longrightarrow> kv_inv (fst (KVServer_Put kv args))"
  by (auto simp: kv_inv_def KVServer_Put_def split: option.splits)

section \<open>The sequential model (\<open>models1/kv.go\<close>)\<close>

record KvInput =
  Op :: "8 word"
  InKey :: string
  InValue :: string
  InVersion :: "64 word"

record KvOutput =
  OutValue :: string
  OutVersion :: "64 word"
  OutErr :: string

record KvState =
  StValue :: string
  StVersion :: "64 word"

type_synonym history = "(KvInput \<times> KvOutput) list"

definition KvModel_Init :: KvState where
  "KvModel_Init = \<lparr>StValue = [], StVersion = 0\<rparr>"

text \<open>\<open>Step\<close> says whether the output is allowed and gives the next state; \<open>None\<close> is the
  \<open>"<invalid>"\<close> state of an unknown operation code.\<close>

definition KvModel_Step :: "KvState \<Rightarrow> KvInput \<Rightarrow> KvOutput \<Rightarrow> bool \<times> KvState option" where
  "KvModel_Step st inp out =
     (if Op inp = 0 then (OutValue out = StValue st, Some st)
      else if Op inp = 1 then
        (if StVersion st = InVersion inp
         then (OutErr out = OK \<or> OutErr out = ErrMaybe,
               Some \<lparr>StValue = InValue inp, StVersion = StVersion st + 1\<rparr>)
         else (OutErr out = ErrVersion \<or> OutErr out = ErrMaybe, Some st))
      else (False, None))"

text \<open>\<open>Partition\<close> groups the operations by key, in key order, each group in history order.\<close>

definition KvModel_Partition :: "history \<Rightarrow> history list" where
  "KvModel_Partition hist =
     (let keys = sort (remdups (map (\<lambda>v. InKey (fst v)) hist))
      in map (\<lambda>k. filter (\<lambda>v. InKey (fst v) = k) hist) keys)"

text \<open>Running the model over a sequence of operations: \<open>None\<close> if some output is not allowed.\<close>

fun model_run :: "KvState \<Rightarrow> history \<Rightarrow> KvState option" where
  "model_run st [] = Some st"
| "model_run st ((inp, out) # h) =
     (case KvModel_Step st inp out of
        (True, Some st') \<Rightarrow> model_run st' h
      | _ \<Rightarrow> None)"

lemma model_run_append:
  "model_run st (h @ g) = (case model_run st h of None \<Rightarrow> None | Some st' \<Rightarrow> model_run st' g)"
  by (induction st h rule: model_run.induct) (auto split: prod.splits bool.splits option.splits)

section \<open>Refinement: the server implements the model key by key\<close>

definition kv_abs :: "KVServer \<Rightarrow> string \<Rightarrow> KvState" where
  "kv_abs kv k =
     \<lparr>StValue = (case data kv k of None \<Rightarrow> [] | Some v \<Rightarrow> v),
      StVersion = (case versions kv k of None \<Rightarrow> 0 | Some n \<Rightarrow> n)\<rparr>"

lemma kv_abs_init [simp]: "kv_abs MakeKVServer k = KvModel_Init"
  by (simp add: kv_abs_def MakeKVServer_def KvModel_Init_def)

lemma kv_abs_put_other: "k \<noteq> PutKey args \<Longrightarrow> kv_abs (fst (KVServer_Put kv args)) k = kv_abs kv k"
  by (auto simp: KVServer_Put_def kv_abs_def split: option.splits)

text \<open>The put handler's effect on the key it names, in the terms of the model: it succeeds
  exactly when the versions agree.\<close>

lemma kv_abs_put_same:
  "KVServer_Put kv args = (kv', e) \<Longrightarrow>
   kv_abs kv' (PutKey args) =
     (if StVersion (kv_abs kv (PutKey args)) = PutVersion args
      then \<lparr>StValue = PutValue args, StVersion = PutVersion args + 1\<rparr>
      else kv_abs kv (PutKey args))"
  by (auto simp: KVServer_Put_def kv_abs_def split: option.splits if_splits)

lemma put_err:
  "snd (KVServer_Put kv args) =
     (if StVersion (kv_abs kv (PutKey args)) = PutVersion args then OK
      else if versions kv (PutKey args) = None then ErrNoKey else ErrVersion)"
  by (auto simp: KVServer_Put_def kv_abs_def split: option.splits)

lemma get_value: "kv_inv kv \<Longrightarrow> ReplyValue (KVServer_Get kv k) = StValue (kv_abs kv k)"
  by (auto simp: KVServer_Get_def kv_abs_def split: option.splits)

lemma get_version: "kv_inv kv \<Longrightarrow> ReplyVersion (KVServer_Get kv k) = StVersion (kv_abs kv k)"
proof -
  assume "kv_inv kv"
  then have "data kv k = None \<longleftrightarrow> versions kv k = None" unfolding kv_inv_def by (metis domIff)
  then show ?thesis by (auto simp: KVServer_Get_def kv_abs_def split: option.splits)
qed

lemma get_err:
  "ReplyErr (KVServer_Get kv k) = (if data kv k = None then ErrNoKey else OK)"
  by (auto simp: KVServer_Get_def split: option.splits)

section \<open>Histories of the server\<close>

text \<open>The requests one server executes, one after the other under its mutex, and the
  operation records the test wrappers log for them (\<open>kvtest1/porcupine.go\<close>).\<close>

datatype kv_req = ReqGet string | ReqPut PutArgs

definition log_get :: "string \<Rightarrow> GetReply \<Rightarrow> KvInput \<times> KvOutput" where
  "log_get key r =
     (\<lparr>Op = 0, InKey = key, InValue = [], InVersion = 0\<rparr>,
      \<lparr>OutValue = ReplyValue r, OutVersion = ReplyVersion r, OutErr = ReplyErr r\<rparr>)"

definition log_put :: "PutArgs \<Rightarrow> Err \<Rightarrow> KvInput \<times> KvOutput" where
  "log_put args e =
     (\<lparr>Op = 1, InKey = PutKey args, InValue = PutValue args, InVersion = PutVersion args\<rparr>,
      \<lparr>OutValue = [], OutVersion = 0, OutErr = e\<rparr>)"

fun serve :: "KVServer \<Rightarrow> kv_req list \<Rightarrow> history \<times> KVServer" where
  "serve kv [] = ([], kv)"
| "serve kv (ReqGet k # rs) =
     (let (h, kv') = serve kv rs in (log_get k (KVServer_Get kv k) # h, kv'))"
| "serve kv (ReqPut args # rs) =
     (let (kv1, e) = KVServer_Put kv args; (h, kv') = serve kv1 rs in (log_put args e # h, kv'))"

text \<open>The model has no \<open>ErrNoKey\<close> answer to a put; a history is in its range when no put got one.\<close>

definition no_put_nokey :: "history \<Rightarrow> bool" where
  "no_put_nokey h \<longleftrightarrow> (\<forall>(inp, out) \<in> set h. Op inp = 1 \<longrightarrow> OutErr out \<noteq> ErrNoKey)"

lemma log_key [simp]: "InKey (fst (log_get k r)) = k" "InKey (fst (log_put a e)) = PutKey a"
  by (simp_all add: log_get_def log_put_def)

lemma step_get:
  "kv_inv kv \<Longrightarrow> model_run (kv_abs kv k) (log_get k (KVServer_Get kv k) # h) = model_run (kv_abs kv k) h"
  by (simp add: log_get_def KvModel_Step_def get_value)

lemma step_put:
  assumes put: "KVServer_Put kv args = (kv', e)" and e: "e \<noteq> ErrNoKey"
  shows "model_run (kv_abs kv (PutKey args)) (log_put args e # h) =
         model_run (kv_abs kv' (PutKey args)) h"
proof -
  have "e = (if StVersion (kv_abs kv (PutKey args)) = PutVersion args then OK else ErrVersion)"
    using put_err [of kv args] put e by (auto split: if_splits)
  then show ?thesis by (simp add: log_put_def KvModel_Step_def kv_abs_put_same [OF put])
qed

lemma serve_accepted:
  assumes "kv_inv kv" and "no_put_nokey (fst (serve kv rs))"
  shows "model_run (kv_abs kv k) (filter (\<lambda>v. InKey (fst v) = k) (fst (serve kv rs))) =
         Some (kv_abs (snd (serve kv rs)) k)"
  using assms
proof (induction kv rs rule: serve.induct)
  case (1 kv)
  then show ?case by simp
next
  case (2 kv k' rs)
  then have "no_put_nokey (fst (serve kv rs))" by (simp add: no_put_nokey_def split: prod.splits)
  with 2 show ?case by (auto simp: step_get simp del: model_run.simps(2) split: prod.splits)
next
  case (3 kv args rs)
  obtain kv1 e where put: "KVServer_Put kv args = (kv1, e)" by (cases "KVServer_Put kv args")
  have inv1: "kv_inv kv1" using kv_inv_put [OF "3.prems"(1), of args] put by simp
  have e: "e \<noteq> ErrNoKey" and nk: "no_put_nokey (fst (serve kv1 rs))"
    using "3.prems"(2) put by (auto simp: no_put_nokey_def log_put_def split: prod.splits)
  have IH: "model_run (kv_abs kv1 k) (filter (\<lambda>v. InKey (fst v) = k) (fst (serve kv1 rs))) =
      Some (kv_abs (snd (serve kv1 rs)) k)"
    using "3.IH" put inv1 nk by simp
  show ?case
  proof (cases "k = PutKey args")
    case True
    then show ?thesis using IH put e
      by (auto simp: step_put [OF put e] simp del: model_run.simps(2) split: prod.splits)
  next
    case False
    then have "kv_abs kv1 k = kv_abs kv k" using kv_abs_put_other [of k args kv] put by simp
    with False IH put show ?thesis by (auto split: prod.splits)
  qed
qed

lemma partition_member:
  "h \<in> set (KvModel_Partition hist) \<Longrightarrow> \<exists>k. h = filter (\<lambda>v. InKey (fst v) = k) hist"
  by (auto simp: KvModel_Partition_def Let_def)

section \<open>Properties\<close>

text \<open>Every history of a key/value server that starts empty is accepted by the sequential
  model the tests use: after partitioning by key, each part runs in the model without a
  rejected output, as long as no put in it was answered \<open>ErrNoKey\<close>.\<close>

theorem kv_history_in_model:
  assumes "no_put_nokey (fst (serve MakeKVServer rs))"
    and "h \<in> set (KvModel_Partition (fst (serve MakeKVServer rs)))"
  shows "model_run KvModel_Init h \<noteq> None"
proof -
  from partition_member [OF assms(2)] obtain k
    where "h = filter (\<lambda>v. InKey (fst v) = k) (fst (serve MakeKVServer rs))" by blast
  then show ?thesis using serve_accepted [OF kv_inv_init assms(1), of k] by simp
qed

definition demo_reqs :: "kv_req list" where
  "demo_reqs =
     [ReqPut \<lparr>PutKey = ''a'', PutValue = ''x'', PutVersion = 0\<rparr>, ReqGet ''a'',
      ReqPut \<lparr>PutKey = ''a'', PutValue = ''y'', PutVersion = 0\<rparr>,
      ReqPut \<lparr>PutKey = ''a'', PutValue = ''y'', PutVersion = 1\<rparr>, ReqGet ''a'']"

theorem kv_history_in_model_witness:
  "let hist = fst (serve MakeKVServer demo_reqs) in
   map (\<lambda>v. OutErr (snd v)) hist = [OK, OK, ErrVersion, OK, OK] \<and>
   KvModel_Partition hist = [hist] \<and> model_run KvModel_Init hist \<noteq> None"
proof -
  let ?hist = "fst (serve MakeKVServer demo_reqs)"
  have part: "KvModel_Partition ?hist = [?hist]"
    by (simp add: demo_reqs_def KvModel_Partition_def log_get_def log_put_def KVServer_Get_def
        KVServer_Put_def MakeKVServer_def)
  have nk: "no_put_nokey ?hist"
    by (simp add: demo_reqs_def no_put_nokey_def log_get_def log_put_def KVServer_Get_def
        KVServer_Put_def MakeKVServer_def)
  have errs: "map (\<lambda>v. OutErr (snd v)) ?hist = [OK, OK, ErrVersion, OK, OK]"
    by (simp add: demo_reqs_def log_get_def log_put_def KVServer_Get_def
        KVServer_Put_def MakeKVServer_def)
  show ?thesis using kv_history_in_model [OF nk, of ?hist] part errs by (simp add: Let_def)
qed

text \<open>The put handler is a compare-and-set on the version. It stores the value and moves the
  version on by one (modulo 2 to the 64) exactly when the version sent equals the current one,
  where an absent key counts as version 0; otherwise the server is unchanged and the answer is
  \<open>ErrNoKey\<close> for an absent key and \<open>ErrVersion\<close> for a present one. Other keys never change.\<close>

theorem put_is_compare_and_set:
  "let (kv', e) = KVServer_Put kv args; k = PutKey args;
       cur = (case versions kv k of None \<Rightarrow> 0 | Some v \<Rightarrow> v) in
   (PutVersion args = cur \<and> e = OK \<and> data kv' = (data kv)(k \<mapsto> PutValue args) \<and>
      versions kv' = (versions kv)(k \<mapsto> cur + 1))
   \<or> (PutVersion args \<noteq> cur \<and> kv' = kv \<and>
      e = (if versions kv k = None then ErrNoKey else ErrVersion))"
  by (auto simp: KVServer_Put_def Let_def split: option.splits prod.splits if_splits)

text \<open>The sequential model of the tests rejects an answer the server gives: for a put with a
  non-zero version to a key that does not exist the server answers \<open>ErrNoKey\<close>, and no such
  output is allowed by the model in the corresponding state.\<close>

theorem model_rejects_nokey_put:
  "versions kv (PutKey args) = None \<Longrightarrow> PutVersion args \<noteq> 0 \<Longrightarrow>
   KVServer_Put kv args = (kv, ErrNoKey) \<and>
   model_run (kv_abs kv (PutKey args)) [log_put args ErrNoKey] = None"
  by (auto simp: KVServer_Put_def log_put_def KvModel_Step_def kv_abs_def split: prod.splits)

theorem model_rejects_nokey_put_witness:
  "let args = \<lparr>PutKey = ''a'', PutValue = ''x'', PutVersion = 3\<rparr> in
   KVServer_Put MakeKVServer args = (MakeKVServer, ErrNoKey) \<and>
   model_run (kv_abs MakeKVServer ''a'') [log_put args ErrNoKey] = None"
  using model_rejects_nokey_put
    [of MakeKVServer "\<lparr>PutKey = ''a'', PutValue = ''x'', PutVersion = 3\<rparr>"]
  by (simp add: MakeKVServer_def)

end
