(* ===== verification/TesterGroup.thy ===== *)
theory TesterGroup
  imports LabRPC Persister
begin

text \<open>
  The server groups of the tester (\<open>tester1/group.go\<close>, \<open>tester1/srv.go\<close>) over the simulated network:
  a group of servers, each with a client end to every server of the group, that are started,
  connected, partitioned and shut down.

  Persisters are shared with the services that write to them, so they live in a store, \<open>disks\<close>;
  a server holds a pointer. Services are objects of the network's servers, and \<open>svcs\<close> refers to
  them there. \<open>Kill\<close> and the services a start function makes are parameters; the strings that
  \<open>Randstring\<close> makes are arguments. A client end is known by its name.
\<close>

section \<open>State\<close>

record TServer =
  saved :: "nat option"
  svcs :: "(nat \<times> string) list option"
  endNames :: "string list option"

text \<open>The start function: ends, group, server, persister to services.\<close>

type_synonym ('o, 'a, 'q) FstartServer = "string list \<Rightarrow> int \<Rightarrow> int \<Rightarrow> nat \<Rightarrow> ('o, 'a, 'q) Service list"

record ('o, 'a, 'q) ServerGrp =
  srvs :: "TServer list"
  servernames :: "string list"
  grp_gid :: int
  connected :: "bool list"
  mks :: "('o, 'a, 'q) FstartServer"

type_synonym ('o, 'a, 'q) tester_net = "(string, string, 'o, 'a, 'q) Network"

record ('r, 's, 'o, 'a, 'q) world =
  rnet :: "('o, 'a, 'q) tester_net"
  disks :: "nat \<Rightarrow> ('r, 's) Persister"
  next_disk :: nat
  next_obj :: nat

section \<open>One server\<close>

definition ServerName :: "int \<Rightarrow> int \<Rightarrow> string" where
  "ServerName gid i = ''server-'' @ Itoa gid @ ''-'' @ Itoa i"

text \<open>A nil slice has no elements.\<close>

definition names_of :: "TServer \<Rightarrow> string list" where
  "names_of s = (case endNames s of None \<Rightarrow> [] | Some ns \<Rightarrow> ns)"

definition make_one_end :: "int \<Rightarrow> string list \<Rightarrow> nat \<Rightarrow> ('o, 'a, 'q) tester_net \<Rightarrow> ('o, 'a, 'q) tester_net go" where
  "make_one_end gid ns j rn = go_map (Connect (ns ! j) (ServerName gid (int j))) (MakeEnd (ns ! j) rn)"

definition makeServer ::
  "(nat \<Rightarrow> string) \<Rightarrow> int \<Rightarrow> nat \<Rightarrow> ('o, 'a, 'q) tester_net \<Rightarrow> (TServer \<times> ('o, 'a, 'q) tester_net) go" where
  "makeServer rnd gid nsrv rn =
     (let ns = map rnd [0..<nsrv] in
      go_map (\<lambda>rn'. (\<lparr>saved = None, svcs = None, endNames = Some ns\<rparr>, rn'))
        (go_fold (make_one_end gid ns) [0..<nsrv] rn))"

definition new_disk ::
  "('r, 's) Persister \<Rightarrow> ('r, 's, 'o, 'a, 'q) world \<Rightarrow> nat \<times> ('r, 's, 'o, 'a, 'q) world" where
  "new_disk d w = (next_disk w, w\<lparr>disks := (disks w)(next_disk w := d), next_disk := next_disk w + 1\<rparr>)"

definition startServer ::
  "(nat \<Rightarrow> string) \<Rightarrow> int \<Rightarrow> TServer \<Rightarrow> ('r, 's, 'o, 'a, 'q) world \<Rightarrow> (TServer \<times> ('r, 's, 'o, 'a, 'q) world) go" where
  "startServer rnd gid s w =
     go_map (\<lambda>(srv, rn).
         let (d, w1) = new_disk (case saved s of Some ptr \<Rightarrow> Persister_Copy (disks w ptr) | None \<Rightarrow> MakePersister) w
         in (srv\<lparr>saved := Some d\<rparr>, w1\<lparr>rnet := rn\<rparr>))
       (makeServer rnd gid (length (names_of s)) (rnet w))"

text \<open>\<open>Server.connect\<close> and \<open>Server.disconnect\<close>: the outgoing ends.\<close>

definition Server_connect ::
  "bool list \<Rightarrow> int list \<Rightarrow> TServer \<Rightarrow> ('o, 'a, 'q) tester_net \<Rightarrow> ('o, 'a, 'q) tester_net go" where
  "Server_connect conn to s rn =
     go_fold (\<lambda>j rn. go_bind (go_index conn j) (\<lambda>c.
         if c then go_map (\<lambda>endname. Enable endname True rn) (go_index (names_of s) j) else Inr rn)) to rn"

definition Server_disconnect ::
  "int list \<Rightarrow> TServer \<Rightarrow> ('o, 'a, 'q) tester_net \<Rightarrow> ('o, 'a, 'q) tester_net go" where
  "Server_disconnect from s rn =
     (if endNames s = None then Inr rn
      else go_fold (\<lambda>j rn. go_map (\<lambda>endname. Enable endname False rn) (go_index (names_of s) j)) from rn)"

text \<open>\<open>Kill\<close> of one service, where the network keeps the object.\<close>

definition kill_service ::
  "('o \<Rightarrow> 'o) \<Rightarrow> nat \<times> string \<Rightarrow> ('o, 'a, 'q) tester_net \<Rightarrow> ('o, 'a, 'q) tester_net" where
  "kill_service kill ref rn =
     (let (ptr, nm) = ref; obj = objs rn ptr in
      case services obj nm of
        None \<Rightarrow> rn
      | Some svc \<Rightarrow> rn\<lparr>objs := (objs rn)(ptr := obj\<lparr>services := (services obj)(nm \<mapsto> svc\<lparr>rcvr := kill (rcvr svc)\<rparr>)\<rparr>)\<rparr>)"

definition kill_all :: "('o \<Rightarrow> 'o) \<Rightarrow> TServer \<Rightarrow> ('o, 'a, 'q) tester_net \<Rightarrow> ('o, 'a, 'q) tester_net" where
  "kill_all kill s = fold (kill_service kill) (case svcs s of None \<Rightarrow> [] | Some refs \<Rightarrow> refs)"

definition shutdownServer ::
  "('o \<Rightarrow> 'o) \<Rightarrow> TServer \<Rightarrow> ('r, 's, 'o, 'a, 'q) world \<Rightarrow> TServer \<times> ('r, 's, 'o, 'a, 'q) world" where
  "shutdownServer kill s w =
     (let (s1, w1) = (case saved s of
            None \<Rightarrow> (s, w)
          | Some ptr \<Rightarrow> (let (d, w1) = new_disk (Persister_Copy (disks w ptr)) w in (s\<lparr>saved := Some d\<rparr>, w1)))
      in (s1\<lparr>svcs := None\<rparr>, w1\<lparr>rnet := kill_all kill s1 (rnet w1)\<rparr>))"

section \<open>A group\<close>

definition makeSrvGrp ::
  "(nat \<Rightarrow> nat \<Rightarrow> string) \<Rightarrow> int \<Rightarrow> nat \<Rightarrow> ('o, 'a, 'q) FstartServer \<Rightarrow> ('o, 'a, 'q) tester_net \<Rightarrow>
   (('o, 'a, 'q) ServerGrp \<times> ('o, 'a, 'q) tester_net) go" where
  "makeSrvGrp rnd gid n start rn =
     go_map (\<lambda>(ss, rn'). (\<lparr>srvs = ss, servernames = map (\<lambda>i. ServerName gid (int i)) [0..<n], grp_gid = gid,
            connected = replicate n False, mks = start\<rparr>, rn'))
       (go_fold (\<lambda>i (ss, rn). go_map (\<lambda>(s, rn'). (ss @ [s], rn')) (makeServer (rnd i) gid n rn)) [0..<n] ([], rn))"

definition Grp_N :: "('o, 'a, 'q) ServerGrp \<Rightarrow> nat" where
  "Grp_N sg = length (srvs sg)"

definition SrvNames :: "('o, 'a, 'q) ServerGrp \<Rightarrow> string list" where
  "SrvNames sg = servernames sg"

definition SrvName :: "int \<Rightarrow> ('o, 'a, 'q) ServerGrp \<Rightarrow> string go" where
  "SrvName i sg = go_index (servernames sg) i"

definition Services :: "('o, 'a, 'q) ServerGrp \<Rightarrow> (nat \<times> string) list option list" where
  "Services sg = map svcs (srvs sg)"

definition SrvNamesTo :: "int list \<Rightarrow> ('o, 'a, 'q) ServerGrp \<Rightarrow> string list go" where
  "SrvNamesTo to sg = go_fold (\<lambda>i ns. go_map (\<lambda>n. ns @ [n]) (go_index (servernames sg) i)) to []"

definition all_srvs :: "('o, 'a, 'q) ServerGrp \<Rightarrow> int list" where
  "all_srvs sg = map int [0..<length (srvs sg)]"

definition IsConnected :: "int \<Rightarrow> ('o, 'a, 'q) ServerGrp \<Rightarrow> bool go" where
  "IsConnected i sg = go_index (connected sg) i"

definition GetConnected :: "('o, 'a, 'q) ServerGrp \<Rightarrow> bool list" where
  "GetConnected sg = connected sg"

text \<open>Operations on a group change the group and the world.\<close>

type_synonym ('r, 's, 'o, 'a, 'q) grp_state = "('o, 'a, 'q) ServerGrp \<times> ('r, 's, 'o, 'a, 'q) world"

definition Grp_connect :: "int \<Rightarrow> int list \<Rightarrow> ('r, 's, 'o, 'a, 'q) grp_state \<Rightarrow> ('r, 's, 'o, 'a, 'q) grp_state go" where
  "Grp_connect i to = (\<lambda>(sg, w).
     go_bind (go_set (connected sg) i True) (\<lambda>conn.
     go_bind (go_index (srvs sg) i) (\<lambda>s.
     go_bind (Server_connect conn to s (rnet w)) (\<lambda>rn.
     go_map (\<lambda>rn'. (sg\<lparr>connected := conn\<rparr>, w\<lparr>rnet := rn'\<rparr>))
       (go_fold (\<lambda>j rn. go_bind (go_index conn j) (\<lambda>c.
            if c then go_bind (go_index (srvs sg) j) (\<lambda>t.
              go_map (\<lambda>endname. Enable endname True rn) (go_index (names_of t) i)) else Inr rn)) to rn)))))"

definition Grp_disconnect :: "int \<Rightarrow> int list \<Rightarrow> ('r, 's, 'o, 'a, 'q) grp_state \<Rightarrow> ('r, 's, 'o, 'a, 'q) grp_state go" where
  "Grp_disconnect i from = (\<lambda>(sg, w).
     go_bind (go_set (connected sg) i False) (\<lambda>conn.
     go_bind (go_index (srvs sg) i) (\<lambda>s.
     go_bind (Server_disconnect from s (rnet w)) (\<lambda>rn.
     go_map (\<lambda>rn'. (sg\<lparr>connected := conn\<rparr>, w\<lparr>rnet := rn'\<rparr>))
       (go_fold (\<lambda>j rn. go_bind (go_index (srvs sg) j) (\<lambda>t.
            if endNames t = None then Inr rn
            else go_map (\<lambda>endname. Enable endname False rn) (go_index (names_of t) i))) from rn)))))"

definition ConnectOne :: "int \<Rightarrow> ('r, 's, 'o, 'a, 'q) grp_state \<Rightarrow> ('r, 's, 'o, 'a, 'q) grp_state go" where
  "ConnectOne i st = Grp_connect i (all_srvs (fst st)) st"

definition ConnectAll :: "('r, 's, 'o, 'a, 'q) grp_state \<Rightarrow> ('r, 's, 'o, 'a, 'q) grp_state go" where
  "ConnectAll st = go_fold ConnectOne (all_srvs (fst st)) st"

definition DisconnectAll :: "int \<Rightarrow> ('r, 's, 'o, 'a, 'q) grp_state \<Rightarrow> ('r, 's, 'o, 'a, 'q) grp_state go" where
  "DisconnectAll i st = Grp_disconnect i (all_srvs (fst st)) st"

text \<open>The largest stored state or snapshot; a server that was never started has a nil persister.\<close>

definition max_size :: "(('r, 's) Persister \<Rightarrow> nat) \<Rightarrow> ('r, 's, 'o, 'a, 'q) grp_state \<Rightarrow> nat go" where
  "max_size size_of = (\<lambda>(sg, w).
     go_fold (\<lambda>s m. case saved s of None \<Rightarrow> Inl NilDereference
        | Some ptr \<Rightarrow> Inr (if size_of (disks w ptr) > m then size_of (disks w ptr) else m)) (srvs sg) 0)"

definition LogSize :: "('r, 's, 'o, 'a, 'q) grp_state \<Rightarrow> nat go" where
  "LogSize = max_size RaftStateSize"

definition Grp_SnapshotSize :: "('r, 's, 'o, 'a, 'q) grp_state \<Rightarrow> nat go" where
  "Grp_SnapshotSize = max_size SnapshotSize"

definition StartServer ::
  "(nat \<Rightarrow> string) \<Rightarrow> int \<Rightarrow> ('r, 's, 'o, 'a, 'q) grp_state \<Rightarrow> ('r, 's, 'o, 'a, 'q) grp_state go" where
  "StartServer rnd i = (\<lambda>(sg, w).
     go_bind (go_index (srvs sg) i) (\<lambda>s.
     go_bind (startServer rnd (grp_gid sg) s w) (\<lambda>(srv, w1).
       let new = mks sg (names_of srv) (grp_gid sg) i (the (saved srv));
           ptr = next_obj w1;
           labsrv = fold AddService new MakeServer;
           rn = (rnet w1)\<lparr>objs := (objs (rnet w1))(ptr := labsrv)\<rparr>;
           srv' = srv\<lparr>svcs := Some (map (\<lambda>svc. (ptr, svc_name svc)) new)\<rparr>
       in go_map (\<lambda>ss. (sg\<lparr>srvs := ss\<rparr>,
              w1\<lparr>rnet := AddServer (ServerName (grp_gid sg) i) ptr rn, next_obj := ptr + 1\<rparr>))
            (go_set (srvs sg) i srv'))))"

definition Grp_start :: "(nat \<Rightarrow> nat \<Rightarrow> string) \<Rightarrow> ('r, 's, 'o, 'a, 'q) grp_state \<Rightarrow> ('r, 's, 'o, 'a, 'q) grp_state go" where
  "Grp_start rnd st = go_fold (\<lambda>i. StartServer (rnd (nat i)) i) (all_srvs (fst st)) st"

definition StartServers :: "(nat \<Rightarrow> nat \<Rightarrow> string) \<Rightarrow> ('r, 's, 'o, 'a, 'q) grp_state \<Rightarrow> ('r, 's, 'o, 'a, 'q) grp_state go" where
  "StartServers rnd st = go_bind (Grp_start rnd st) ConnectAll"

definition ShutdownServer :: "('o \<Rightarrow> 'o) \<Rightarrow> int \<Rightarrow> ('r, 's, 'o, 'a, 'q) grp_state \<Rightarrow> ('r, 's, 'o, 'a, 'q) grp_state go" where
  "ShutdownServer kill i st =
     go_bind (Grp_disconnect i (all_srvs (fst st)) st) (\<lambda>(sg, w).
     let w1 = w\<lparr>rnet := DeleteServer (ServerName (grp_gid sg) i) (rnet w)\<rparr> in
     go_bind (go_index (srvs sg) i) (\<lambda>s.
       let (s', w2) = shutdownServer kill s w1 in
       go_map (\<lambda>ss. (sg\<lparr>srvs := ss\<rparr>, w2)) (go_set (srvs sg) i s')))"

definition Grp_Shutdown :: "('o \<Rightarrow> 'o) \<Rightarrow> ('r, 's, 'o, 'a, 'q) grp_state \<Rightarrow> ('r, 's, 'o, 'a, 'q) grp_state go" where
  "Grp_Shutdown kill st = go_fold (ShutdownServer kill) (all_srvs (fst st)) st"

definition Grp_cleanup :: "('o \<Rightarrow> 'o) \<Rightarrow> ('r, 's, 'o, 'a, 'q) grp_state \<Rightarrow> ('r, 's, 'o, 'a, 'q) grp_state" where
  "Grp_cleanup kill = (\<lambda>(sg, w). (sg, w\<lparr>rnet := fold (kill_all kill) (srvs sg) (rnet w)\<rparr>))"

text \<open>The two parts start as slices of zeros; the next free place is \<open>j\<close>.\<close>

definition partition_step :: "int \<Rightarrow> int \<Rightarrow> int list \<times> int list \<times> int \<Rightarrow> (int list \<times> int list \<times> int) go" where
  "partition_step l i = (\<lambda>(p1, p2, j).
     if i \<noteq> l then
       (if j < int (length p1) then go_map (\<lambda>p. (p, p2, j + 1)) (go_set p1 j i)
        else go_map (\<lambda>p. (p1, p, j + 1)) (go_set p2 (j - int (length p1)) i))
     else Inr (p1, p2, j))"

definition MakePartition :: "int \<Rightarrow> ('o, 'a, 'q) ServerGrp \<Rightarrow> (int list \<times> int list) go" where
  "MakePartition l sg =
     (let n = length (srvs sg) in
      go_bind (go_fold (partition_step l) (all_srvs sg) (replicate (n div 2 + 1) 0, replicate (n div 2) 0, 0))
        (\<lambda>(p1, p2, j). go_map (\<lambda>p. (p1, p)) (go_set p2 (int (length p2) - 1) l)))"

definition Partition :: "int list \<Rightarrow> int list \<Rightarrow> ('r, 's, 'o, 'a, 'q) grp_state \<Rightarrow> ('r, 's, 'o, 'a, 'q) grp_state go" where
  "Partition p1 p2 st =
     go_bind (go_fold (\<lambda>i st. go_bind (Grp_disconnect i p2 st) (Grp_connect i p1)) p1 st)
       (go_fold (\<lambda>i st. go_bind (Grp_disconnect i p1 st) (Grp_connect i p2)) p2)"

definition GetCount :: "'n \<Rightarrow> ('e, 'n, 'o, 'a, 'q) Network \<Rightarrow> int go" where
  "GetCount servername rn =
     (case servers rn servername of None \<Rightarrow> Inl NilDereference | Some ptr \<Rightarrow> Inr (Server_GetCount (objs rn ptr)))"

definition RpcCount :: "int \<Rightarrow> ('r, 's, 'o, 'a, 'q) grp_state \<Rightarrow> int go" where
  "RpcCount server = (\<lambda>(sg, w). GetCount (ServerName (grp_gid sg) server) (rnet w))"

section \<open>All groups\<close>

type_synonym ('o, 'a, 'q) Groups = "int \<rightharpoonup> ('o, 'a, 'q) ServerGrp"

definition newGroups :: "('o, 'a, 'q) Groups" where
  "newGroups = Map.empty"

definition MakeGroup ::
  "(nat \<Rightarrow> nat \<Rightarrow> string) \<Rightarrow> int \<Rightarrow> nat \<Rightarrow> ('o, 'a, 'q) FstartServer \<Rightarrow> ('o, 'a, 'q) Groups \<times> ('r, 's, 'o, 'a, 'q) world \<Rightarrow>
   (('o, 'a, 'q) Groups \<times> ('r, 's, 'o, 'a, 'q) world) go" where
  "MakeGroup rnd gid nsrv start = (\<lambda>(gs, w).
     go_map (\<lambda>(sg, rn). (gs(gid \<mapsto> sg), w\<lparr>rnet := rn\<rparr>)) (makeSrvGrp rnd gid nsrv start (rnet w)))"

definition lookupGroup :: "int \<Rightarrow> ('o, 'a, 'q) Groups \<Rightarrow> ('o, 'a, 'q) ServerGrp option" where
  "lookupGroup gid gs = gs gid"

definition deleteGroup :: "int \<Rightarrow> ('o, 'a, 'q) Groups \<Rightarrow> ('o, 'a, 'q) Groups" where
  "deleteGroup gid gs = gs(gid := None)"

text \<open>\<open>cleanup\<close> visits the groups in the order in which Go iterates over the map, an argument.\<close>

definition Groups_cleanup ::
  "('o \<Rightarrow> 'o) \<Rightarrow> int list \<Rightarrow> ('o, 'a, 'q) Groups \<Rightarrow> ('r, 's, 'o, 'a, 'q) world \<Rightarrow> ('r, 's, 'o, 'a, 'q) world" where
  "Groups_cleanup kill order gs w =
     fold (\<lambda>gid w. case gs gid of None \<Rightarrow> w | Some sg \<Rightarrow> snd (Grp_cleanup kill (sg, w))) order w"

section \<open>Links\<close>

text \<open>A wired group has an end from every server to every server, each with a name of its own.\<close>

definition link_name :: "('o, 'a, 'q) ServerGrp \<Rightarrow> nat \<Rightarrow> nat \<Rightarrow> string" where
  "link_name sg a b = names_of (srvs sg ! a) ! b"

definition wired :: "('o, 'a, 'q) ServerGrp \<Rightarrow> bool" where
  "wired sg \<longleftrightarrow> (let n = length (srvs sg) in length (connected sg) = n \<and>
     (\<forall>s \<in> set (srvs sg). endNames s \<noteq> None \<and> length (names_of s) = n) \<and>
     (\<forall>a < n. \<forall>b < n. \<forall>c < n. \<forall>d < n. link_name sg a b = link_name sg c d \<longrightarrow> a = c \<and> b = d))"

definition linked :: "('r, 's, 'o, 'a, 'q) grp_state \<Rightarrow> nat \<Rightarrow> nat \<Rightarrow> bool" where
  "linked st a b \<longleftrightarrow> enabled (rnet (snd st)) (link_name (fst st) a b)"

lemma link_name_inject:
  assumes "wired sg" and "a < length (srvs sg)" "b < length (srvs sg)" "c < length (srvs sg)" "d < length (srvs sg)"
  shows "link_name sg a b = link_name sg c d \<longleftrightarrow> a = c \<and> b = d"
  using assms unfolding wired_def Let_def by blast

text \<open>Switching a set of ends.\<close>

definition switch :: "bool \<Rightarrow> string set \<Rightarrow> ('o, 'a, 'q) tester_net \<Rightarrow> ('o, 'a, 'q) tester_net" where
  "switch v E rn = rn\<lparr>enabled := (\<lambda>e. if e \<in> E then v else enabled rn e)\<rparr>"

lemma switch_empty [simp]: "switch v {} rn = rn"
  by (simp add: switch_def)

lemma switch_insert: "switch v (insert e E) rn = switch v E (Enable e v rn)"
  by (auto simp: switch_def Enable_def fun_eq_iff)

lemma switch_sel [simp]:
  "enabled (switch v E rn) e = (if e \<in> E then v else enabled rn e)" "ends (switch v E rn) = ends rn"
  "reliable (switch v E rn) = reliable rn" "longReordering (switch v E rn) = longReordering rn"
  "connections (switch v E rn) = connections rn" "servers (switch v E rn) = servers rn" "objs (switch v E rn) = objs rn"
  by (simp_all add: switch_def)

lemma fold_switch:
  assumes "\<And>b rn. b \<in> set ts \<Longrightarrow> f (int b) rn = Inr (if P b then Enable (nm b) v rn else rn)"
  shows "go_fold f (map int ts) rn = Inr (switch v {nm b | b. b \<in> set ts \<and> P b} rn)"
  using assms
proof (induction ts arbitrary: rn)
  case (Cons t ts)
  have "{nm b | b. b \<in> set (t # ts) \<and> P b} = (if P t then insert (nm t) {nm b | b. b \<in> set ts \<and> P b} else {nm b | b. b \<in> set ts \<and> P b})"
    by auto
  then show ?case using Cons by (simp add: switch_insert)
qed simp

lemma wired_server:
  assumes "wired sg" and "a < length (srvs sg)"
  shows "endNames (srvs sg ! a) \<noteq> None" "length (names_of (srvs sg ! a)) = length (srvs sg)"
  using assms by (auto simp: wired_def Let_def)

lemma connect_eq:
  assumes w: "wired sg" and i: "i < length (srvs sg)" and ts: "set ts \<subseteq> {..<length (srvs sg)}"
    and conn: "conn = (connected sg)[i := True]"
  shows "Grp_connect (int i) (map int ts) (sg, wd) =
    Inr (sg\<lparr>connected := conn\<rparr>, wd\<lparr>rnet := switch True {link_name sg b i | b. b \<in> set ts \<and> conn ! b}
       (switch True {link_name sg i b | b. b \<in> set ts \<and> conn ! b} (rnet wd))\<rparr>)"
proof -
  let ?n = "length (srvs sg)"
  have len: "length conn = ?n" using w conn by (simp add: wired_def Let_def)
  have out: "Server_connect conn (map int ts) (srvs sg ! i) rn = Inr (switch True {link_name sg i b | b. b \<in> set ts \<and> conn ! b} rn)" for rn :: "('a, 'b, 'c) tester_net"
    unfolding Server_connect_def
    by (subst fold_switch [where P = "\<lambda>b. conn ! b" and nm = "\<lambda>b. link_name sg i b" and v = True])
       (use ts len wired_server [OF w i] in \<open>auto simp: link_name_def\<close>)
  have inc: "go_fold (\<lambda>j rn. go_bind (go_index conn j) (\<lambda>c. if c then go_bind (go_index (srvs sg) j) (\<lambda>t.
        go_map (\<lambda>endname. Enable endname True rn) (go_index (names_of t) (int i))) else Inr rn)) (map int ts) rn =
      Inr (switch True {link_name sg b i | b. b \<in> set ts \<and> conn ! b} rn)"
    for rn :: "('a, 'b, 'c) tester_net"
    by (subst fold_switch [where P = "\<lambda>b. conn ! b" and nm = "\<lambda>b. link_name sg b i" and v = True])
       (use ts len wired_server [OF w] i in \<open>auto simp: link_name_def\<close>)
  have "go_set (connected sg) (int i) True = Inr conn" using w i conn by (simp add: wired_def Let_def)
  then show ?thesis using i by (simp add: Grp_connect_def out inc)
qed

lemma disconnect_eq:
  assumes w: "wired sg" and i: "i < length (srvs sg)" and ts: "set ts \<subseteq> {..<length (srvs sg)}"
  shows "Grp_disconnect (int i) (map int ts) (sg, wd) =
    Inr (sg\<lparr>connected := (connected sg)[i := False]\<rparr>, wd\<lparr>rnet := switch False {link_name sg b i | b. b \<in> set ts}
       (switch False {link_name sg i b | b. b \<in> set ts} (rnet wd))\<rparr>)"
proof -
  have lt: "b < length (srvs sg)" if "b \<in> set ts" for b using ts that by blast
  have out: "Server_disconnect (map int ts) (srvs sg ! i) rn = Inr (switch False {link_name sg i b | b. b \<in> set ts} rn)" for rn :: "('a, 'b, 'c) tester_net"
    unfolding Server_disconnect_def
    by (subst fold_switch [where P = "\<lambda>_. True" and nm = "\<lambda>b. link_name sg i b" and v = False])
       (use ts wired_server [OF w i] in \<open>auto simp: link_name_def\<close>)
  have inc: "go_fold (\<lambda>j rn. go_bind (go_index (srvs sg) j) (\<lambda>t. if endNames t = None then Inr rn
        else go_map (\<lambda>endname. Enable endname False rn) (go_index (names_of t) (int i)))) (map int ts) rn =
      Inr (switch False {link_name sg b i | b. b \<in> set ts} rn)"
    for rn :: "('a, 'b, 'c) tester_net"
    by (subst fold_switch [where P = "\<lambda>_. True" and nm = "\<lambda>b. link_name sg b i" and v = False])
       (simp_all add: link_name_def lt i wired_server [OF w lt])
  have "go_set (connected sg) (int i) False = Inr ((connected sg)[i := False])" using w i by (simp add: wired_def Let_def)
  then show ?thesis using i by (simp add: Grp_disconnect_def out inc)
qed

section \<open>What connecting and disconnecting do to the links\<close>

lemma wired_conn [simp]: "length c = length (connected sg) \<Longrightarrow> wired (sg\<lparr>connected := c\<rparr>) = wired sg"
  by (simp add: wired_def link_name_def Let_def)

lemma linked_switch:
  assumes w: "wired sg" and ab: "a < length (srvs sg)" "b < length (srvs sg)"
    and i: "i < length (srvs sg)" and X: "X \<subseteq> {..<length (srvs sg)}"
  shows "link_name sg a b \<in> {link_name sg x i | x. x \<in> X} \<longleftrightarrow> b = i \<and> a \<in> X"
    and "link_name sg a b \<in> {link_name sg i x | x. x \<in> X} \<longleftrightarrow> a = i \<and> b \<in> X"
  using assms link_name_inject [OF w ab] by (auto simp: subset_iff)

text \<open>One round of \<open>Partition\<close>: server \<open>i\<close> leaves the servers of \<open>q\<close> and joins those of \<open>p\<close>.\<close>

definition regroup :: "nat list \<Rightarrow> nat list \<Rightarrow> int \<Rightarrow> ('r, 's, 'o, 'a, 'q) grp_state \<Rightarrow> ('r, 's, 'o, 'a, 'q) grp_state go" where
  "regroup p q i st = go_bind (Grp_disconnect i (map int q) st) (Grp_connect i (map int p))"

definition same_wires :: "('r, 's, 'o, 'a, 'q) grp_state \<Rightarrow> ('r, 's, 'o, 'a, 'q) grp_state \<Rightarrow> bool" where
  "same_wires st st' \<longleftrightarrow> srvs (fst st') = srvs (fst st) \<and> wired (fst st') \<and> grp_gid (fst st') = grp_gid (fst st) \<and>
     mks (fst st') = mks (fst st) \<and> reliable (rnet (snd st')) = reliable (rnet (snd st)) \<and>
     longReordering (rnet (snd st')) = longReordering (rnet (snd st)) \<and> servers (rnet (snd st')) = servers (rnet (snd st)) \<and>
     connections (rnet (snd st')) = connections (rnet (snd st)) \<and> objs (rnet (snd st')) = objs (rnet (snd st)) \<and>
     disks (snd st') = disks (snd st)"

lemma same_wires_trans: "same_wires a b \<Longrightarrow> same_wires b c \<Longrightarrow> same_wires a c"
  by (simp add: same_wires_def)

lemma regroup_links:
  assumes w: "wired (fst st)" and n: "n = length (srvs (fst st))" and i: "i < n" and pq: "set p \<subseteq> {..<n}" "set q \<subseteq> {..<n}"
  shows "\<exists>st'. regroup p q (int i) st = Inr st' \<and> same_wires st st' \<and> connected (fst st') = (connected (fst st))[i := True] \<and>
    (\<forall>a < n. \<forall>b < n. linked st' a b \<longleftrightarrow>
       (a = i \<and> b \<in> set p \<or> b = i \<and> a \<in> set p) \<and> connected (fst st') ! a \<and> connected (fst st') ! b \<or>
       linked st a b \<and> \<not> (a = i \<and> b \<in> set q \<or> b = i \<and> a \<in> set q))"
proof -
  obtain sg wd where st: "st = (sg, wd)" by (rule prod.exhaust)
  define sg1 where "sg1 = sg\<lparr>connected := (connected sg)[i := False]\<rparr>"
  define conn where "conn = (connected sg)[i := True]"
  have w0: "wired sg" "wired sg1" and lc: "length (connected sg) = n" using w st n by (auto simp: sg1_def wired_def Let_def link_name_def)
  have n1: "length (srvs sg) = n" "length (srvs sg1) = n" and nm: "link_name sg1 = link_name sg"
    using st n by (auto simp: sg1_def link_name_def fun_eq_iff)
  have c1: "conn = (connected sg1)[i := True]" by (simp add: sg1_def conn_def)
  let ?off = "switch False {link_name sg b i | b. b \<in> set q} (switch False {link_name sg i b | b. b \<in> set q} (rnet wd))"
  let ?on = "switch True {link_name sg b i | b. b \<in> set p \<and> conn ! b} (switch True {link_name sg i b | b. b \<in> set p \<and> conn ! b} ?off)"
  let ?st' = "(sg\<lparr>connected := conn\<rparr>, wd\<lparr>rnet := ?on\<rparr>)"
  have "regroup p q (int i) st = Inr ?st'"
    using disconnect_eq [OF w0(1), of i q wd] connect_eq [OF w0(2), of i p conn "wd\<lparr>rnet := ?off\<rparr>"] i pq n1 nm c1 st
    by (simp add: regroup_def sg1_def)
  moreover have "same_wires st ?st'" using w0(1) lc st by (simp add: same_wires_def conn_def)
  moreover have "linked ?st' a b \<longleftrightarrow> (a = i \<and> b \<in> set p \<or> b = i \<and> a \<in> set p) \<and> conn ! a \<and> conn ! b \<or>
       linked st a b \<and> \<not> (a = i \<and> b \<in> set q \<or> b = i \<and> a \<in> set q)" if ab: "a < n" "b < n" for a b
  proof -
    have P: "{x. x \<in> set p \<and> conn ! x} \<subseteq> {..<n}" using pq by auto
    note sw = linked_switch [OF w0(1), of a b i, unfolded n1, OF ab i]
    have ci: "conn ! i" using lc i by (simp add: conn_def)
    have nm': "link_name (sg\<lparr>connected := conn\<rparr>) = link_name sg" by (simp add: link_name_def fun_eq_iff)
    have "linked ?st' a b \<longleftrightarrow> b = i \<and> a \<in> set p \<and> conn ! a \<or> a = i \<and> b \<in> set p \<and> conn ! b \<or>
        enabled ?off (link_name sg a b)"
      using sw [OF P] nm' by (auto simp: linked_def)
    also have "enabled ?off (link_name sg a b) \<longleftrightarrow> linked st a b \<and> \<not> (a = i \<and> b \<in> set q \<or> b = i \<and> a \<in> set q)"
      using sw [OF pq(2)] by (simp add: linked_def st)
    finally show ?thesis using ci by auto
  qed
  ultimately show ?thesis using st by (auto simp: conn_def)
qed

text \<open>The whole loop over one side. The first lemma is its propositional core.\<close>

lemma join_step:
  assumes "L1 \<longleftrightarrow> (ax \<and> bp \<or> bx \<and> ap) \<and> (ca \<or> ax) \<and> (cb \<or> bx) \<or> L0" and "ax \<Longrightarrow> ap" and "bx \<Longrightarrow> bp"
  shows "(L0 \<or> ap \<and> bp \<and> ((ax \<or> axs) \<or> bx \<or> bxs) \<and> (ca \<or> ax \<or> axs) \<and> (cb \<or> bx \<or> bxs)) =
    (L1 \<or> ap \<and> bp \<and> (axs \<or> bxs) \<and> ((ca \<or> ax) \<or> axs) \<and> ((cb \<or> bx) \<or> bxs))"
  using assms by (cases ax; cases bx; simp; blast)

definition joined ::
  "nat \<Rightarrow> nat list \<Rightarrow> nat list \<Rightarrow> nat list \<Rightarrow> ('r, 's, 'o, 'a, 'q) grp_state \<Rightarrow> ('r, 's, 'o, 'a, 'q) grp_state \<Rightarrow> bool" where
  "joined n p q xs st st' \<longleftrightarrow>
     (\<forall>a < n. connected (fst st') ! a \<longleftrightarrow> connected (fst st) ! a \<or> a \<in> set xs) \<and>
     (\<forall>a < n. \<forall>b < n. a \<in> set p \<and> b \<in> set q \<or> a \<in> set q \<and> b \<in> set p \<longrightarrow>
        (linked st' a b \<longleftrightarrow> linked st a b \<and> a \<notin> set xs \<and> b \<notin> set xs)) \<and>
     (\<forall>a < n. \<forall>b < n. \<not> (a \<in> set p \<and> b \<in> set q \<or> a \<in> set q \<and> b \<in> set p) \<longrightarrow>
        (linked st a b \<or> a \<in> set p \<and> b \<in> set p \<and> (a \<in> set xs \<or> b \<in> set xs) \<and> (connected (fst st) ! a \<or> a \<in> set xs) \<and>
           (connected (fst st) ! b \<or> b \<in> set xs)) = linked st' a b)"

lemma regroup_loop:
  assumes "wired (fst st)" and "n = length (srvs (fst st))" and "set xs \<subseteq> set p" and "set p \<subseteq> {..<n}" "set q \<subseteq> {..<n}"
    and "set p \<inter> set q = {}"
  shows "\<exists>st'. go_fold (regroup p q) (map int xs) st = Inr st' \<and> same_wires st st' \<and> joined n p q xs st st'"
  using assms
proof (induction xs arbitrary: st)
  case Nil
  then show ?case by (auto simp: same_wires_def joined_def)
next
  case (Cons x xs)
  have x: "x < n" "x \<in> set p" using Cons.prems(3,4) by auto
  obtain st1 where s1: "regroup p q (int x) st = Inr st1" "same_wires st st1" "connected (fst st1) = (connected (fst st))[x := True]"
    "\<And>a b. a < n \<Longrightarrow> b < n \<Longrightarrow> linked st1 a b \<longleftrightarrow>
       (a = x \<and> b \<in> set p \<or> b = x \<and> a \<in> set p) \<and> connected (fst st1) ! a \<and> connected (fst st1) ! b \<or>
       linked st a b \<and> \<not> (a = x \<and> b \<in> set q \<or> b = x \<and> a \<in> set q)"
    using regroup_links [OF Cons.prems(1,2) x(1) Cons.prems(4,5)] by blast
  have w1: "wired (fst st1)" "n = length (srvs (fst st1))" using s1(2) Cons.prems(2) by (auto simp: same_wires_def)
  have len: "length (connected (fst st)) = n" using Cons.prems(1,2) by (simp add: wired_def Let_def)
  have c1: "a < n \<Longrightarrow> connected (fst st1) ! a \<longleftrightarrow> connected (fst st) ! a \<or> a = x" for a
    using s1(3) len by (cases "a = x") auto
  have sub: "set xs \<subseteq> set p" using Cons.prems(3) by simp
  obtain st' where st': "go_fold (regroup p q) (map int xs) st1 = Inr st'" "same_wires st1 st'" and j: "joined n p q xs st1 st'"
    using Cons.IH [OF w1 sub Cons.prems(4-6)] by blast
  note j = j [unfolded joined_def]
  note jc = j [THEN conjunct1, rule_format] and jx = j [THEN conjunct2, THEN conjunct1, rule_format]
    and jj = j [THEN conjunct2, THEN conjunct2, rule_format]
  have "connected (fst st') ! a \<longleftrightarrow> connected (fst st) ! a \<or> a \<in> set (x # xs)" if "a < n" for a
    using jc [OF that] c1 [OF that] by auto
  moreover have "linked st' a b \<longleftrightarrow> linked st a b \<and> a \<notin> set (x # xs) \<and> b \<notin> set (x # xs)"
    if ab: "a < n" "b < n" "a \<in> set p \<and> b \<in> set q \<or> a \<in> set q \<and> b \<in> set p" for a b
  proof -
    have "\<not> (a = x \<and> b \<in> set p \<or> b = x \<and> a \<in> set p)" "a = x \<Longrightarrow> b \<in> set q" "b = x \<Longrightarrow> a \<in> set q"
      using ab(3) x(2) Cons.prems(6) by auto
    then have "linked st1 a b \<longleftrightarrow> linked st a b \<and> a \<noteq> x \<and> b \<noteq> x" using s1(4) [OF ab(1,2)] by blast
    then show ?thesis unfolding jx [OF ab] list.set insert_iff by blast
  qed
  moreover have "(linked st a b \<or> a \<in> set p \<and> b \<in> set p \<and> (a \<in> set (x # xs) \<or> b \<in> set (x # xs)) \<and>
      (connected (fst st) ! a \<or> a \<in> set (x # xs)) \<and> (connected (fst st) ! b \<or> b \<in> set (x # xs))) = linked st' a b"
    if ab: "a < n" "b < n" "\<not> (a \<in> set p \<and> b \<in> set q \<or> a \<in> set q \<and> b \<in> set p)" for a b
  proof -
    have "\<not> (a = x \<and> b \<in> set q \<or> b = x \<and> a \<in> set q)" using ab(3) x(2) by blast
    then have "linked st1 a b \<longleftrightarrow> (a = x \<and> b \<in> set p \<or> b = x \<and> a \<in> set p) \<and> (connected (fst st) ! a \<or> a = x) \<and>
        (connected (fst st) ! b \<or> b = x) \<or> linked st a b"
      using s1(4) [OF ab(1,2)] c1 [OF ab(1)] c1 [OF ab(2)] by simp
    moreover have "a = x \<Longrightarrow> a \<in> set p" "b = x \<Longrightarrow> b \<in> set p" using x by auto
    ultimately show ?thesis
      unfolding jj [OF ab, symmetric] c1 [OF ab(1)] c1 [OF ab(2)] list.set insert_iff by (rule join_step)
  qed
  ultimately have "joined n p q (x # xs) st st'" unfolding joined_def by presburger
  then show ?case using s1(1) st'(1) same_wires_trans [OF s1(2) st'(2)] by auto
qed

text \<open>Splitting a group: two servers of the two parts are linked exactly if they are in the same part,
  in both directions; the links of every other pair, and everything else on the network, stay as they
  were. The parts must not share a server.\<close>

lemma partition_splits_core:
  assumes "wired (fst st)" and "n = length (srvs (fst st))" and "set p1 \<subseteq> {..<n}" and "set p2 \<subseteq> {..<n}" and "set p1 \<inter> set p2 = {}"
  shows "\<exists>st'. Partition (map int p1) (map int p2) st = Inr st' \<and> same_wires st st' \<and>
    (\<forall>a < n. connected (fst st') ! a \<longleftrightarrow> connected (fst st) ! a \<or> a \<in> set p1 \<union> set p2) \<and>
    (\<forall>a < n. \<forall>b < n. linked st' a b \<longleftrightarrow>
       (if a \<in> set p1 \<union> set p2 \<and> b \<in> set p1 \<union> set p2 then a \<in> set p1 \<longleftrightarrow> b \<in> set p1 else linked st a b))"
proof -
  obtain st1 where s1: "go_fold (regroup p1 p2) (map int p1) st = Inr st1" "same_wires st st1" and j1: "joined n p1 p2 p1 st st1"
    using regroup_loop [OF assms(1,2) _ assms(3-5), of p1] by blast
  have w1: "wired (fst st1)" "n = length (srvs (fst st1))" using s1(2) assms(2) by (auto simp: same_wires_def)
  have dis: "set p2 \<inter> set p1 = {}" using assms(5) by blast
  obtain st' where s2: "go_fold (regroup p2 p1) (map int p2) st1 = Inr st'" "same_wires st1 st'" and j2: "joined n p2 p1 p2 st1 st'"
    using regroup_loop [OF w1 _ assms(4,3) dis, of p2] by blast
  note j1 = j1 [unfolded joined_def] and j2 = j2 [unfolded joined_def]
  have "Partition (map int p1) (map int p2) st = Inr st'"
    using s1(1) s2(1) by (simp add: Partition_def regroup_def [abs_def])
  moreover have "connected (fst st') ! a \<longleftrightarrow> connected (fst st) ! a \<or> a \<in> set p1 \<union> set p2" if "a < n" for a
    using j1 [THEN conjunct1, rule_format, OF that] j2 [THEN conjunct1, rule_format, OF that] by simp
  moreover have "linked st' a b \<longleftrightarrow>
       (if a \<in> set p1 \<union> set p2 \<and> b \<in> set p1 \<union> set p2 then a \<in> set p1 \<longleftrightarrow> b \<in> set p1 else linked st a b)"
    if ab: "a < n" "b < n" for a b
  proof (cases "a \<in> set p1 \<and> b \<in> set p2 \<or> a \<in> set p2 \<and> b \<in> set p1")
    case True
    then show ?thesis
      using j1 [THEN conjunct2, THEN conjunct1, rule_format, OF ab] j2 [THEN conjunct2, THEN conjunct1, rule_format, OF ab] assms(5)
      by auto
  next
    case False
    then have "\<not> (a \<in> set p2 \<and> b \<in> set p1 \<or> a \<in> set p1 \<and> b \<in> set p2)" by blast
    then show ?thesis
      using j1 [THEN conjunct2, THEN conjunct2, rule_format, OF ab False]
        j2 [THEN conjunct2, THEN conjunct2, rule_format, OF ab] assms(5) by auto
  qed
  ultimately show ?thesis using same_wires_trans [OF s1(2) s2(2)] by blast
qed

section \<open>Starting a group\<close>

lemma connect_is_regroup:
  assumes "wired (fst st)" and "i < length (srvs (fst st))" and "set p \<subseteq> {..<length (srvs (fst st))}"
  shows "Grp_connect (int i) (map int p) st = regroup p [] (int i) st"
proof -
  obtain sg wd where st: "st = (sg, wd)" by (rule prod.exhaust)
  let ?sg1 = "sg\<lparr>connected := (connected sg)[i := False]\<rparr>"
  have w: "wired sg" "wired ?sg1" using assms(1) st by (auto simp: wired_def Let_def link_name_def)
  have nm: "link_name ?sg1 = link_name sg" by (simp add: link_name_def fun_eq_iff)
  show ?thesis
    using disconnect_eq [OF w(1), of i "[]" wd] connect_eq [OF w(1), of i p "(connected sg)[i := True]" wd]
      connect_eq [OF w(2), of i p "(connected sg)[i := True]" wd] assms(2,3) st nm
    by (simp add: regroup_def)
qed

lemma ConnectAll_is_regroup:
  assumes "wired (fst st)" and "n = length (srvs (fst st))" and "set xs \<subseteq> {..<n}"
  shows "go_fold ConnectOne (map int xs) st = go_fold (regroup [0..<n] []) (map int xs) st"
  using assms
proof (induction xs arbitrary: st)
  case (Cons x xs)
  have x: "x < n" "set [0..<n] \<subseteq> {..<n}" using Cons.prems by auto
  have one: "ConnectOne (int x) st = regroup [0..<n] [] (int x) st"
    using connect_is_regroup [OF Cons.prems(1), of x "[0..<n]"] x Cons.prems(2) by (simp add: ConnectOne_def all_srvs_def)
  obtain st1 where s1: "regroup [0..<n] [] (int x) st = Inr st1" "same_wires st st1"
    using regroup_links [OF Cons.prems(1,2) x, of "[]"] by auto
  then have "wired (fst st1)" "n = length (srvs (fst st1))" using Cons.prems(2) by (auto simp: same_wires_def)
  then show ?case using Cons.IH Cons.prems(3) one s1(1) by simp
qed simp

lemma ConnectAll_links:
  assumes "wired (fst st)" and "n = length (srvs (fst st))"
  shows "\<exists>st'. ConnectAll st = Inr st' \<and> same_wires st st' \<and> (\<forall>a < n. connected (fst st') ! a) \<and>
    (\<forall>a < n. \<forall>b < n. linked st' a b)"
proof -
  have all: "set [0..<n] \<subseteq> {..<n}" by auto
  obtain st' where s: "go_fold (regroup [0..<n] []) (map int [0..<n]) st = Inr st'" "same_wires st st'"
      and j: "joined n [0..<n] [] [0..<n] st st'"
    using regroup_loop [OF assms subset_refl all, of "[]"] by auto
  have "ConnectAll st = Inr st'" using ConnectAll_is_regroup [OF assms all] s(1) assms(2) by (simp add: ConnectAll_def all_srvs_def)
  moreover have "\<forall>a < n. connected (fst st') ! a" "\<forall>a < n. \<forall>b < n. linked st' a b" using j unfolding joined_def by auto
  ultimately show ?thesis using s(2) by blast
qed

lemma ServerName_inject [simp]: "ServerName gid (int i) = ServerName gid (int j) \<longleftrightarrow> i = j"
  using Itoa_inject [of "int i" "int j"] by (auto simp: ServerName_def)

text \<open>The ends of one server, made and connected.\<close>

definition wires :: "int \<Rightarrow> string list \<Rightarrow> ('o, 'a, 'q) tester_net \<Rightarrow> ('o, 'a, 'q) tester_net \<Rightarrow> bool" where
  "wires gid ns rn rn' \<longleftrightarrow> ends rn' = ends rn \<union> set ns \<and> servers rn' = servers rn \<and> objs rn' = objs rn \<and>
     (\<forall>j < length ns. connections rn' (ns ! j) = Some (ServerName gid (int j))) \<and>
     (\<forall>e. e \<notin> set ns \<longrightarrow> connections rn' e = connections rn e)"

lemma make_ends:
  assumes "distinct ns" and "set ns \<inter> ends rn = {}" and "k \<le> length ns"
  shows "\<exists>rn'. go_fold (make_one_end gid ns) [0..<k] rn = Inr rn' \<and> wires gid (take k ns) rn rn'"
  using assms(3)
proof (induction k)
  case (Suc k)
  then obtain rn1 where r: "go_fold (make_one_end gid ns) [0..<k] rn = Inr rn1" and w: "wires gid (take k ns) rn rn1" by auto
  have k: "k < length ns" using Suc.prems by simp
  have new: "ns ! k \<notin> set (take k ns)" using assms(1) k by (auto simp: in_set_conv_nth nth_eq_iff_index_eq)
  have "ns ! k \<notin> ends rn" using assms(2) nth_mem [OF k] by blast
  then have fresh: "ns ! k \<notin> ends rn1" using new w by (simp add: wires_def)
  have tk: "take (Suc k) ns = take k ns @ [ns ! k]" using k by (simp add: take_Suc_conv_app_nth)
  let ?rn' = "Connect (ns ! k) (ServerName gid (int k)) (rn1\<lparr>ends := insert (ns ! k) (ends rn1), enabled := (enabled rn1)(ns ! k := False),
      connections := (connections rn1)(ns ! k := None)\<rparr>)"
  have "go_fold (make_one_end gid ns) [0..<Suc k] rn = Inr ?rn'"
    using r fresh by (simp add: go_fold_append make_one_end_def MakeEnd_def)
  moreover have "wires gid (take (Suc k) ns) rn ?rn'"
    using w new k unfolding wires_def tk by (auto simp: Connect_def nth_append less_Suc_eq in_set_conv_nth)
  ultimately show ?case by blast
qed (simp add: wires_def)

text \<open>Server \<open>i\<close> is running: its name leads to an object with the services its start function gave,
  its ends are connected, and its persister has a given content.\<close>

definition running :: "('r, 's, 'o, 'a, 'q) grp_state \<Rightarrow> (nat \<Rightarrow> string) \<Rightarrow> nat \<Rightarrow> ('r, 's) Persister \<Rightarrow> nat \<Rightarrow> nat \<Rightarrow> bool" where
  "running st rnd i content d ptr \<longleftrightarrow> (let (sg, w) = st; n = length (srvs sg); ns = map rnd [0..<n] in
     endNames (srvs sg ! i) = Some ns \<and> saved (srvs sg ! i) = Some d \<and> disks w d = content \<and>
     servers (rnet w) (ServerName (grp_gid sg) (int i)) = Some ptr \<and>
     objs (rnet w) ptr = fold AddService (mks sg ns (grp_gid sg) (int i) d) MakeServer \<and>
     svcs (srvs sg ! i) = Some (map (\<lambda>svc. (ptr, svc_name svc)) (mks sg ns (grp_gid sg) (int i) d)) \<and>
     (\<forall>j < n. connections (rnet w) (ns ! j) = Some (ServerName (grp_gid sg) (int j))))"

definition old_content :: "TServer \<Rightarrow> ('r, 's, 'o, 'a, 'q) world \<Rightarrow> ('r, 's) Persister" where
  "old_content s w = (case saved s of Some ptr \<Rightarrow> disks w ptr | None \<Rightarrow> MakePersister)"

lemma Persister_Copy_id: "Persister_Copy p = p"
  by (simp add: Persister_Copy_def)

lemma StartServer_runs:
  assumes i: "i < length (srvs sg)" and n: "length (names_of (srvs sg ! i)) = length (srvs sg)"
    and ns: "ns = map rnd [0..<length (srvs sg)]" and "distinct ns" and "set ns \<inter> ends (rnet w) = {}"
  shows "\<exists>srv rn. StartServer rnd (int i) (sg, w) = Inr (sg\<lparr>srvs := (srvs sg)[i := srv]\<rparr>,
      w\<lparr>rnet := rn, disks := (disks w)(next_disk w := old_content (srvs sg ! i) w), next_disk := next_disk w + 1, next_obj := next_obj w + 1\<rparr>) \<and>
    ends rn = ends (rnet w) \<union> set ns \<and> servers rn = (servers (rnet w))(ServerName (grp_gid sg) (int i) \<mapsto> next_obj w) \<and>
    (\<forall>p. p \<noteq> next_obj w \<longrightarrow> objs rn p = objs (rnet w) p) \<and> (\<forall>e. e \<notin> set ns \<longrightarrow> connections rn e = connections (rnet w) e) \<and>
    running (sg\<lparr>srvs := (srvs sg)[i := srv]\<rparr>, w\<lparr>rnet := rn, disks := (disks w)(next_disk w := old_content (srvs sg ! i) w),
      next_disk := next_disk w + 1, next_obj := next_obj w + 1\<rparr>) rnd i (old_content (srvs sg ! i) w) (next_disk w) (next_obj w)"
proof -
  have len: "length ns = length (srvs sg)" using ns by simp
  obtain rn1 where m: "go_fold (make_one_end (grp_gid sg) ns) [0..<length (srvs sg)] (rnet w) = Inr rn1"
      and w1: "wires (grp_gid sg) ns (rnet w) rn1"
    using make_ends [OF assms(4,5), of "length ns"] len by auto
  let ?new = "mks sg ns (grp_gid sg) (int i) (next_disk w)"
  let ?srv = "\<lparr>saved = Some (next_disk w), svcs = Some (map (\<lambda>svc. (next_obj w, svc_name svc)) ?new), endNames = Some ns\<rparr>"
  let ?rn = "AddServer (ServerName (grp_gid sg) (int i)) (next_obj w) (rn1\<lparr>objs := (objs rn1)(next_obj w := fold AddService ?new MakeServer)\<rparr>)"
  have mk: "makeServer rnd (grp_gid sg) (length (srvs sg)) (rnet w) = Inr (\<lparr>saved = None, svcs = None, endNames = Some ns\<rparr>, rn1)"
    using m by (simp add: makeServer_def ns)
  have "StartServer rnd (int i) (sg, w) = Inr (sg\<lparr>srvs := (srvs sg)[i := ?srv]\<rparr>,
      w\<lparr>rnet := ?rn, disks := (disks w)(next_disk w := old_content (srvs sg ! i) w), next_disk := next_disk w + 1, next_obj := next_obj w + 1\<rparr>)"
    using i n mk by (simp add: StartServer_def startServer_def new_disk_def names_of_def old_content_def Persister_Copy_id Let_def split: option.splits)
  then show ?thesis using w1 i len ns
    by (intro exI [of _ ?srv] exI [of _ ?rn]) (simp add: running_def wires_def AddServer_def Let_def)
qed

lemma running_frame:
  assumes "running (sg, w) rnd i c d ptr" and "length (srvs sg') = length (srvs sg)" and "srvs sg' ! i = srvs sg ! i"
    and "grp_gid sg' = grp_gid sg" and "mks sg' = mks sg" and "disks w' d = disks w d"
    and "servers (rnet w') (ServerName (grp_gid sg) (int i)) = servers (rnet w) (ServerName (grp_gid sg) (int i))"
    and "objs (rnet w') ptr = objs (rnet w) ptr"
    and "\<And>j. j < length (srvs sg) \<Longrightarrow> connections (rnet w') (rnd j) = connections (rnet w) (rnd j)"
  shows "running (sg', w') rnd i c d ptr"
  using assms by (simp add: running_def Let_def)

text \<open>How far \<open>start\<close> is after \<open>k\<close> servers.\<close>

definition started ::
  "(nat \<Rightarrow> nat \<Rightarrow> string) \<Rightarrow> ('r, 's, 'o, 'a, 'q) grp_state \<Rightarrow> nat \<Rightarrow> ('r, 's, 'o, 'a, 'q) grp_state \<Rightarrow> bool" where
  "started rnd st0 k st \<longleftrightarrow> (let (sg0, w0) = st0; (sg, w) = st; n = length (srvs sg0) in
     length (srvs sg) = n \<and> grp_gid sg = grp_gid sg0 \<and> mks sg = mks sg0 \<and> connected sg = connected sg0 \<and>
     (\<forall>i. k \<le> i \<and> i < n \<longrightarrow> srvs sg ! i = srvs sg0 ! i) \<and>
     next_disk w = next_disk w0 + k \<and> next_obj w = next_obj w0 + k \<and> (\<forall>d < next_disk w0. disks w d = disks w0 d) \<and>
     ends (rnet w) = ends (rnet w0) \<union> {rnd i j | i j. i < k \<and> j < n} \<and>
     (\<forall>i < k. running st (rnd i) i (old_content (srvs sg0 ! i) w0) (next_disk w0 + i) (next_obj w0 + i)))"

text \<open>What a start relies on: every server has its slice of names, every persister is allocated, and
  the new end names are distinct and unused.\<close>

definition startable :: "(nat \<Rightarrow> nat \<Rightarrow> string) \<Rightarrow> ('r, 's, 'o, 'a, 'q) grp_state \<Rightarrow> bool" where
  "startable rnd st \<longleftrightarrow> (let (sg, w) = st; n = length (srvs sg) in length (connected sg) = n \<and>
     (\<forall>s \<in> set (srvs sg). length (names_of s) = n \<and> (\<forall>d. saved s = Some d \<longrightarrow> d < next_disk w)) \<and>
     inj_on (\<lambda>(i, j). rnd i j) ({..<n} \<times> {..<n}) \<and> (\<forall>i < n. \<forall>j < n. rnd i j \<notin> ends (rnet w)))"

lemma start_step:
  assumes sb: "startable rnd st0" and s: "started rnd st0 k st" and k: "k < length (srvs (fst st0))"
  shows "\<exists>st'. StartServer (rnd k) (int k) st = Inr st' \<and> started rnd st0 (Suc k) st'"
proof -
  obtain sg0 w0 sg w where st: "st0 = (sg0, w0)" "st = (sg, w)" by (metis prod.exhaust)
  let ?n = "length (srvs sg0)" and ?ns = "map (rnd k) [0..<length (srvs sg)]"
  have inj: "i < ?n \<Longrightarrow> j < ?n \<Longrightarrow> i' < ?n \<Longrightarrow> j' < ?n \<Longrightarrow> rnd i j = rnd i' j' \<longleftrightarrow> i = i' \<and> j = j'" for i j i' j'
    using sb by (auto simp: startable_def st Let_def inj_on_def)
  have fr: "i < ?n \<Longrightarrow> j < ?n \<Longrightarrow> rnd i j \<notin> ends (rnet w0)" for i j using sb by (simp add: startable_def st Let_def)
  have s': "length (srvs sg) = ?n" "grp_gid sg = grp_gid sg0" "mks sg = mks sg0" "connected sg = connected sg0"
    "\<And>i. k \<le> i \<Longrightarrow> i < ?n \<Longrightarrow> srvs sg ! i = srvs sg0 ! i" "next_disk w = next_disk w0 + k" "next_obj w = next_obj w0 + k"
    "\<And>d. d < next_disk w0 \<Longrightarrow> disks w d = disks w0 d" "ends (rnet w) = ends (rnet w0) \<union> {rnd i j | i j. i < k \<and> j < ?n}"
    "\<And>i. i < k \<Longrightarrow> running (sg, w) (rnd i) i (old_content (srvs sg0 ! i) w0) (next_disk w0 + i) (next_obj w0 + i)"
    using s by (auto simp: started_def st Let_def)
  have k': "k < ?n" "srvs sg ! k \<in> set (srvs sg0)" using k s'(5) by (auto simp: st)
  have "\<forall>d. saved (srvs sg0 ! k) = Some d \<longrightarrow> d < next_disk w0" using sb k'(1) nth_mem by (auto simp: startable_def st Let_def)
  then have old: "old_content (srvs sg ! k) w = old_content (srvs sg0 ! k) w0"
    using s'(5) [of k] s'(8) k'(1) by (simp add: old_content_def split: option.splits)
  have dis: "distinct ?ns" using inj k' s'(1) by (auto simp: distinct_conv_nth)
  have fre: "set ?ns \<inter> ends (rnet w) = {}" using s'(1,9) fr inj k' by fastforce
  have len: "length (names_of (srvs sg ! k)) = length (srvs sg)" using k' sb s'(1) by (simp add: startable_def st Let_def)
  obtain srv rn where run: "StartServer (rnd k) (int k) (sg, w) = Inr (sg\<lparr>srvs := (srvs sg)[k := srv]\<rparr>,
      w\<lparr>rnet := rn, disks := (disks w)(next_disk w := old_content (srvs sg ! k) w), next_disk := next_disk w + 1, next_obj := next_obj w + 1\<rparr>)"
    "ends rn = ends (rnet w) \<union> set ?ns" "servers rn = (servers (rnet w))(ServerName (grp_gid sg) (int k) \<mapsto> next_obj w)"
    "\<And>p. p \<noteq> next_obj w \<Longrightarrow> objs rn p = objs (rnet w) p" "\<And>e. e \<notin> set ?ns \<Longrightarrow> connections rn e = connections (rnet w) e"
    "running (sg\<lparr>srvs := (srvs sg)[k := srv]\<rparr>, w\<lparr>rnet := rn, disks := (disks w)(next_disk w := old_content (srvs sg ! k) w),
      next_disk := next_disk w + 1, next_obj := next_obj w + 1\<rparr>) (rnd k) k (old_content (srvs sg ! k) w) (next_disk w) (next_obj w)"
    using StartServer_runs [OF _ len refl dis fre] k' s'(1) by fastforce
  let ?sg' = "sg\<lparr>srvs := (srvs sg)[k := srv]\<rparr>"
  let ?w' = "w\<lparr>rnet := rn, disks := (disks w)(next_disk w := old_content (srvs sg ! k) w), next_disk := next_disk w + 1, next_obj := next_obj w + 1\<rparr>"
  have keep: "running (?sg', ?w') (rnd i) i (old_content (srvs sg0 ! i) w0) (next_disk w0 + i) (next_obj w0 + i)" if "i < k" for i
  proof (rule running_frame [OF s'(10) [OF that]])
    fix j
    assume "j < length (srvs sg)"
    then have "rnd i j \<noteq> rnd k x" if "x < ?n" for x using inj [of i j k x] that \<open>i < k\<close> k'(1) s'(1) by simp
    then have "rnd i j \<notin> set ?ns" using s'(1) by (simp add: image_iff)
    then show "connections (rnet ?w') (rnd i j) = connections (rnet w) (rnd i j)" using run(5) by simp
  qed (use that s'(6,7) run(3,4) in auto)
  have "running (?sg', ?w') (rnd i) i (old_content (srvs sg0 ! i) w0) (next_disk w0 + i) (next_obj w0 + i)" if "i < Suc k" for i
    using keep [of i] run(6) that s'(6,7) old by (cases "i = k") auto
  moreover have "ends rn = ends (rnet w0) \<union> {rnd i j | i j. i < Suc k \<and> j < ?n}"
    unfolding run(2) s'(9) using s'(1) by (force simp: less_Suc_eq)
  ultimately have "started rnd st0 (Suc k) (?sg', ?w')" using s'(1-8) by (simp add: started_def st Let_def)
  then show ?thesis using run(1) st by blast
qed

lemma start_runs:
  assumes sb: "startable rnd st0" and n: "n = length (srvs (fst st0))"
  shows "\<exists>st. Grp_start rnd st0 = Inr st \<and> started rnd st0 n st"
proof -
  have "\<exists>st. go_fold (\<lambda>i. StartServer (rnd (nat i)) i) (map int [0..<k]) st0 = Inr st \<and> started rnd st0 k st" if "k \<le> n" for k
    using that
  proof (induction k)
    case 0
    then show ?case by (auto simp: started_def Let_def split: prod.splits)
  next
    case (Suc k)
    then obtain st where "go_fold (\<lambda>i. StartServer (rnd (nat i)) i) (map int [0..<k]) st0 = Inr st" "started rnd st0 k st" by auto
    then show ?case using start_step [OF sb, of k st] Suc.prems n by (auto simp: go_fold_append)
  qed
  then show ?thesis using n by (simp add: Grp_start_def all_srvs_def)
qed

lemma link_name_running: "running (sg, w) rnd a c d ptr \<Longrightarrow> b < length (srvs sg) \<Longrightarrow> link_name sg a b = rnd b"
  by (simp add: running_def link_name_def names_of_def Let_def)

text \<open>Starting a group: every server runs with the content of its old persister, or an empty one,
  in a persister of its own; every end of the group is enabled and leads to the object of the
  server it was made for.\<close>

lemma started_group_is_linked:
  assumes sb: "startable rnd st0" and n: "n = length (srvs (fst st0))"
  shows "\<exists>st. StartServers rnd st0 = Inr st \<and> length (srvs (fst st)) = n \<and> grp_gid (fst st) = grp_gid (fst st0) \<and>
    (\<forall>i < n. connected (fst st) ! i \<and> running st (rnd i) i (old_content (srvs (fst st0) ! i) (snd st0)) (next_disk (snd st0) + i) (next_obj (snd st0) + i)) \<and>
    (\<forall>a < n. \<forall>b < n. readEndnameInfo (rnd a b) (rnet (snd st)) =
       (True, Some (ServerName (grp_gid (fst st0)) (int b)), Some (next_obj (snd st0) + b),
        reliable (rnet (snd st)), longReordering (rnet (snd st))))"
proof -
  obtain sg1 w1 where s1: "Grp_start rnd st0 = Inr (sg1, w1)" and g: "started rnd st0 n (sg1, w1)"
    using start_runs [OF sb n] by auto
  obtain sg0 w0 where st0: "st0 = (sg0, w0)" by (rule prod.exhaust)
  have n1: "length (srvs sg1) = n" "length (connected sg1) = n" "grp_gid sg1 = grp_gid sg0"
    using g sb n by (simp_all add: started_def startable_def Let_def st0)
  have run: "running (sg1, w1) (rnd i) i (old_content (srvs sg0 ! i) w0) (next_disk w0 + i) (next_obj w0 + i)" if "i < n" for i
    using g that n by (auto simp: started_def Let_def st0)
  have nm: "link_name sg1 a b = rnd a b" if "a < n" "b < n" for a b
    using link_name_running [OF run [OF that(1)]] that(2) n1 by simp
  have nms: "endNames (srvs sg1 ! i) = Some (map (rnd i) [0..<n])" if "i < n" for i using run [OF that] n1 by (simp add: running_def Let_def)
  have "endNames s \<noteq> None \<and> length (names_of s) = n" if "s \<in> set (srvs sg1)" for s
    using nms that n1(1) by (auto simp: in_set_conv_nth names_of_def)
  moreover have "a < n \<Longrightarrow> b < n \<Longrightarrow> c < n \<Longrightarrow> d < n \<Longrightarrow> rnd a b = rnd c d \<Longrightarrow> a = c \<and> b = d" for a b c d
    using sb n by (auto simp: startable_def Let_def st0 inj_on_def)
  ultimately have "wired (fst (sg1, w1))" using n1 nm by (auto simp: wired_def Let_def)
  then obtain sg w where s2: "ConnectAll (sg1, w1) = Inr (sg, w)" and sw: "same_wires (sg1, w1) (sg, w)"
      and conn: "\<And>a. a < n \<Longrightarrow> connected sg ! a" and lk: "\<And>a b. a < n \<Longrightarrow> b < n \<Longrightarrow> linked (sg, w) a b"
    using ConnectAll_links [of "(sg1, w1)" n] n1(1) by auto
  note sw = sw [unfolded same_wires_def fst_conv snd_conv]
  have run': "running (sg, w) (rnd i) i (old_content (srvs sg0 ! i) w0) (next_disk w0 + i) (next_obj w0 + i)" if "i < n" for i
    by (rule running_frame [OF run [OF that]]) (use sw in auto)
  have "linked (sg, w) a b \<longleftrightarrow> enabled (rnet w) (rnd a b)" if "a < n" "b < n" for a b
    using nm [OF that] sw by (simp add: linked_def link_name_def)
  then have "readEndnameInfo (rnd a b) (rnet w) = (True, Some (ServerName (grp_gid sg0) (int b)), Some (next_obj w0 + b),
      reliable (rnet w), longReordering (rnet w))" if "a < n" "b < n" for a b
    using run' [OF that(1)] run' [OF that(2)] lk [OF that] that sw n1 by (simp add: readEndnameInfo_def running_def Let_def)
  moreover have "length (srvs sg) = n" "grp_gid sg = grp_gid sg0" using sw n1 by simp_all
  ultimately show ?thesis using s1 s2 run' conn st0 by (auto simp: StartServers_def)
qed

section \<open>Shutting a server down and starting it again\<close>

lemma kill_service_frame [simp]:
  "enabled (kill_service kill ref rn) = enabled rn" "servers (kill_service kill ref rn) = servers rn"
  "ends (kill_service kill ref rn) = ends rn" "connections (kill_service kill ref rn) = connections rn"
  by (auto simp: kill_service_def Let_def split: prod.splits option.splits)

lemma kill_fold_frame [simp]:
  "enabled (fold (kill_service kill) refs rn) = enabled rn" "servers (fold (kill_service kill) refs rn) = servers rn"
  "ends (fold (kill_service kill) refs rn) = ends rn" "connections (fold (kill_service kill) refs rn) = connections rn"
  by (induction refs arbitrary: rn) simp_all

lemma kill_all_frame [simp]:
  "enabled (kill_all kill s rn) = enabled rn" "servers (kill_all kill s rn) = servers rn"
  "ends (kill_all kill s rn) = ends rn" "connections (kill_all kill s rn) = connections rn"
  by (simp_all add: kill_all_def)

lemma disconnect_links:
  assumes w: "wired sg" and n: "n = length (srvs sg)" and i: "i < n"
  shows "\<exists>rn. DisconnectAll (int i) (sg, wd) = Inr (sg\<lparr>connected := (connected sg)[i := False]\<rparr>, wd\<lparr>rnet := rn\<rparr>) \<and>
    servers rn = servers (rnet wd) \<and> ends rn = ends (rnet wd) \<and> connections rn = connections (rnet wd) \<and> objs rn = objs (rnet wd) \<and>
    (\<forall>a < n. \<forall>b < n. enabled rn (link_name sg a b) \<longleftrightarrow> enabled (rnet wd) (link_name sg a b) \<and> a \<noteq> i \<and> b \<noteq> i)"
proof -
  let ?rn = "switch False {link_name sg b i | b. b \<in> set [0..<n]} (switch False {link_name sg i b | b. b \<in> set [0..<n]} (rnet wd))"
  have all: "set [0..<n] \<subseteq> {..<n}" by auto
  have "DisconnectAll (int i) (sg, wd) = Inr (sg\<lparr>connected := (connected sg)[i := False]\<rparr>, wd\<lparr>rnet := ?rn\<rparr>)"
    using disconnect_eq [OF w, of i "[0..<n]" wd] i n by (simp add: DisconnectAll_def all_srvs_def subset_iff)
  moreover have "enabled ?rn (link_name sg a b) \<longleftrightarrow> enabled (rnet wd) (link_name sg a b) \<and> a \<noteq> i \<and> b \<noteq> i" if "a < n" "b < n" for a b
    using linked_switch [OF w, of a b i "set [0..<n]", folded n, OF that i all] that by auto
  ultimately show ?thesis by (intro exI [of _ ?rn]) simp
qed

text \<open>Shutting down server \<open>i\<close>: no link to or from it is left and the others stay, its name leads
  nowhere, and its persister is a new one with the content of the old.\<close>

theorem shutdown_isolates:
  assumes w: "wired (fst st)" and n: "n = length (srvs (fst st))" and i: "i < n" and d: "saved (srvs (fst st) ! i) = Some d"
  shows "\<exists>st'. ShutdownServer kill (int i) st = Inr st' \<and> wired (fst st') \<and> length (srvs (fst st')) = n \<and>
    (\<forall>a < n. \<forall>b < n. linked st' a b \<longleftrightarrow> linked st a b \<and> a \<noteq> i \<and> b \<noteq> i) \<and>
    servers (rnet (snd st')) = (servers (rnet (snd st)))(ServerName (grp_gid (fst st)) (int i) := None) \<and>
    (\<forall>j < n. j \<noteq> i \<longrightarrow> srvs (fst st') ! j = srvs (fst st) ! j) \<and> svcs (srvs (fst st') ! i) = None \<and>
    saved (srvs (fst st') ! i) = Some (next_disk (snd st)) \<and>
    disks (snd st') = (disks (snd st))(next_disk (snd st) := disks (snd st) d) \<and> next_disk (snd st') = next_disk (snd st) + 1"
proof -
  obtain sg wd where st: "st = (sg, wd)" by (rule prod.exhaust)
  obtain rn where D: "Grp_disconnect (int i) (all_srvs sg) (sg, wd) = Inr (sg\<lparr>connected := (connected sg)[i := False]\<rparr>, wd\<lparr>rnet := rn\<rparr>)"
      and rn: "servers rn = servers (rnet wd)"
        "\<And>a b. a < n \<Longrightarrow> b < n \<Longrightarrow> enabled rn (link_name sg a b) \<longleftrightarrow> enabled (rnet wd) (link_name sg a b) \<and> a \<noteq> i \<and> b \<noteq> i"
    using disconnect_links [of sg n i wd] w n i st by (auto simp: DisconnectAll_def)
  let ?s = "(srvs sg ! i)\<lparr>saved := Some (next_disk wd), svcs := None\<rparr>"
  let ?sg' = "sg\<lparr>connected := (connected sg)[i := False], srvs := (srvs sg)[i := ?s]\<rparr>"
  have nms: "names_of (srvs ?sg' ! a) = names_of (srvs sg ! a)" "(endNames (srvs ?sg' ! a) = None) = (endNames (srvs sg ! a) = None)" if "a < n" for a
    using that i n st by (cases "a = i"; simp add: names_of_def)+
  have ln: "link_name ?sg' a b = link_name sg a b" if "a < n" for a b unfolding link_name_def nms(1) [OF that] ..
  have "endNames s \<noteq> None \<and> length (names_of s) = n" if mem: "s \<in> set (srvs ?sg')" for s
  proof -
    obtain a where "a < n" "s = srvs ?sg' ! a" using mem n st unfolding in_set_conv_nth by auto
    then show ?thesis using nms [of a] wired_server [of sg a] w n st by simp
  qed
  then have "wired ?sg'" using w n st ln link_name_inject [of sg] by (auto simp: wired_def Let_def)
  moreover have "\<exists>w'. ShutdownServer kill (int i) st = Inr (?sg', w') \<and> enabled (rnet w') = enabled rn \<and>
      servers (rnet w') = (servers rn)(ServerName (grp_gid sg) (int i) := None) \<and>
      disks w' = (disks wd)(next_disk wd := disks wd d) \<and> next_disk w' = next_disk wd + 1"
    using D d i n st by (simp add: ShutdownServer_def shutdownServer_def new_disk_def DeleteServer_def Persister_Copy_id Let_def)
  ultimately show ?thesis using rn i n st ln by (auto simp: linked_def)
qed

lemma StartServer_content:
  assumes "i < length (srvs sg)" and "length (names_of (srvs sg ! i)) = length (srvs sg)" and "distinct (map rnd [0..<length (srvs sg)])"
    and "set (map rnd [0..<length (srvs sg)]) \<inter> ends (rnet w) = {}"
  shows "\<exists>st'. StartServer rnd (int i) (sg, w) = Inr st' \<and> running st' rnd i (old_content (srvs sg ! i) w) (next_disk w) (next_obj w)"
  using StartServer_runs [OF assms(1,2) refl assms(3,4)] by blast

text \<open>C33: Restarting a server after a shutdown: the new instance starts from what was stored when the
  server was shut down, whatever the old instance writes to its persister afterwards.\<close>

theorem restart_reads_state_at_shutdown:
  assumes w: "wired (fst st)" and n: "n = length (srvs (fst st))" and i: "i < n" and d: "saved (srvs (fst st) ! i) = Some d"
    and alloc: "d < next_disk (snd st)" and kill: "ShutdownServer kill (int i) st = Inr (sg1, w1)"
    and rnd: "distinct (map rnd [0..<n])" "set (map rnd [0..<n]) \<inter> ends (rnet w1) = {}"
  shows "\<exists>st'. StartServer rnd (int i) (sg1, w1\<lparr>disks := (disks w1)(d := late)\<rparr>) = Inr st' \<and>
    running st' rnd i (disks (snd st) d) (next_disk w1) (next_obj w1)"
proof -
  have s1: "wired sg1" "length (srvs sg1) = n" "saved (srvs sg1 ! i) = Some (next_disk (snd st))"
    "disks w1 = (disks (snd st))(next_disk (snd st) := disks (snd st) d)"
    using shutdown_isolates [OF w n i d, of kill] kill by auto
  have "old_content (srvs sg1 ! i) (w1\<lparr>disks := (disks w1)(d := late)\<rparr>) = disks (snd st) d"
    using s1(3,4) alloc by (simp add: old_content_def)
  then show ?thesis
    using StartServer_content [of i sg1 rnd "w1\<lparr>disks := (disks w1)(d := late)\<rparr>"] wired_server(2) [OF s1(1), of i] s1(2) i rnd by simp
qed

section \<open>Choosing the two parts\<close>

text \<open>The two slices are the two ends of one list in which the servers other than \<open>l\<close> fill the zeros
  from the front.\<close>

definition places :: "nat \<Rightarrow> nat \<Rightarrow> int list \<Rightarrow> int list \<times> int list \<times> int" where
  "places a N ys = (let Z = ys @ replicate (N - length ys) 0 in (take a Z, drop a Z, int (length ys)))"

lemma place_one:
  assumes "length ys < N" and "i \<noteq> l" and "a \<le> N"
  shows "partition_step l i (places a N ys) = Inr (places a N (ys @ [i]))"
proof -
  define Z where "Z = ys @ replicate (N - length ys) 0"
  have Z': "Z[length ys := i] = (ys @ [i]) @ replicate (N - length (ys @ [i])) 0" and len: "length Z = N"
    using assms(1) by (auto simp: Z_def Suc_diff_Suc [symmetric])
  have "partition_step l i (take a Z, drop a Z, int (length ys)) = Inr (take a (Z[length ys := i]), drop a (Z[length ys := i]), int (length ys) + 1)"
    using assms len by (auto simp: partition_step_def take_update_swap drop_update_swap nat_diff_distrib list_update_beyond)
  then show ?thesis unfolding places_def Let_def Z' [symmetric] by (simp add: Z_def)
qed

lemma place_all:
  assumes "length ys + length (filter (\<lambda>i. i \<noteq> l) xs) \<le> N" and "a \<le> N"
  shows "go_fold (partition_step l) xs (places a N ys) = Inr (places a N (ys @ filter (\<lambda>i. i \<noteq> l) xs))"
  using assms(1)
proof (induction xs arbitrary: ys)
  case (Cons x xs)
  show ?case
  proof (cases "x = l")
    case True
    then have "partition_step l x (places a N ys) = Inr (places a N ys)" by (simp add: partition_step_def places_def Let_def)
    then show ?thesis using Cons True by simp
  next
    case False
    then show ?thesis using Cons.IH [of "ys @ [x]"] Cons.prems place_one [OF _ False assms(2), of ys] by simp
  qed
qed simp

definition others :: "int \<Rightarrow> nat \<Rightarrow> int list" where
  "others l n = filter (\<lambda>i. i \<noteq> l) (map int [0..<n])"

lemma others_props: "distinct (others l n)" "set (others l n) = {0..<int n} - {l}"
  by (auto simp: others_def distinct_map image_int_atLeastLessThan)

lemma length_others: "0 \<le> l \<Longrightarrow> l < int n \<Longrightarrow> length (others l n) = n - 1"
  using others_props [of l n] distinct_card [of "others l n"] by auto

lemma MakePartition_eq:
  assumes l: "0 \<le> l" "l < int n" and n: "n = length (srvs sg)" and Z: "Z = others l n @ replicate (2 * (n div 2) + 1 - (n - 1)) 0"
  shows "MakePartition l sg = go_map (\<lambda>p. (take (n div 2 + 1) Z, p)) (go_set (drop (n div 2 + 1) Z) (int (n div 2) - 1) l)"
proof -
  have "go_fold (partition_step l) (all_srvs sg) (places (n div 2 + 1) (2 * (n div 2) + 1) []) = Inr (places (n div 2 + 1) (2 * (n div 2) + 1) (others l n))"
    using place_all [of "[]" l "all_srvs sg" "2 * (n div 2) + 1" "n div 2 + 1"] length_others [OF l] n
    by (simp add: all_srvs_def others_def)
  moreover have "places (n div 2 + 1) (2 * (n div 2) + 1) (others l n) = (take (n div 2 + 1) Z, drop (n div 2 + 1) Z, int (n - 1))"
    unfolding places_def length_others [OF l] Let_def Z ..
  moreover have "places (n div 2 + 1) (2 * (n div 2) + 1) [] = (replicate (n div 2 + 1) 0, replicate (n div 2) 0, 0)"
    by (simp add: places_def Let_def)
  moreover have "length (drop (n div 2 + 1) Z) = n div 2" using length_others [OF l] l Z by simp
  ultimately show ?thesis unfolding MakePartition_def Let_def n [symmetric] by simp
qed

lemma MakePartition_odd:
  assumes l: "0 \<le> l" "l < int n" and n: "n = length (srvs sg)" and m: "n = 2 * m + 1" "0 < m"
  shows "MakePartition l sg = Inr (take (m + 1) (others l n), drop (m + 1) (others l n) @ [l])"
proof -
  let ?Z = "others l n @ [0]"
  have div2: "n div 2 = m" and len: "length (others l n) = 2 * m" using m length_others [OF l] by auto
  have "MakePartition l sg = go_map (\<lambda>p. (take (m + 1) ?Z, p)) (go_set (drop (m + 1) ?Z) (int m - 1) l)"
    using MakePartition_eq [OF l n refl] div2 m by simp
  moreover have "go_set (drop (m + 1) (others l n) @ [0]) (int m - 1) l = Inr (drop (m + 1) (others l n) @ [l])"
    using len m(2) list_update_length [of "drop (m + 1) (others l n)" 0 "[]" l] by (simp add: nat_diff_distrib)
  ultimately show ?thesis using len m(2) by simp
qed

lemma others_nat: "0 \<le> l \<Longrightarrow> others l n = map int (filter (\<lambda>i. i \<noteq> nat l) [0..<n])"
  by (auto simp: others_def filter_map comp_def intro!: arg_cong [where f = "map int"] filter_cong)

text \<open>C32: Partitioning around a leader: in a group of an odd number of servers, at least three, the
  parts of \<open>MakePartition\<close> share no server and cover all of them, and after \<open>Partition\<close> the leader is
  linked with less than half of the servers, while a majority is linked among itself and with none of
  the leader's side.\<close>

theorem partition_isolates_leader:
  assumes "wired (fst st)" and "n = length (srvs (fst st))" and m: "n = 2 * m + 1" "0 < m" and l: "l < n"
  shows "\<exists>p1 p2 st'. MakePartition (int l) (fst st) = Inr (map int p1, map int p2) \<and> Partition (map int p1) (map int p2) st = Inr st' \<and>
    distinct (p1 @ p2) \<and> set p1 \<union> set p2 = {..<n} \<and> length p1 = m + 1 \<and> l \<in> set p2 \<and> same_wires st st' \<and>
    (\<forall>a < n. connected (fst st') ! a) \<and> {b. b < n \<and> linked st' l b} = set p2 \<and>
    (\<forall>a < n. \<forall>b < n. linked st' a b \<longleftrightarrow> (a \<in> set p1 \<longleftrightarrow> b \<in> set p1))"
proof -
  define os where "os = filter (\<lambda>i. i \<noteq> l) [0..<n]"
  define p1 where "p1 = take (m + 1) os"
  define p2 where "p2 = drop (m + 1) os @ [l]"
  have os: "others (int l) n = map int os" "distinct os" "set os = {..<n} - {l}" using others_nat [of "int l" n] by (auto simp: os_def)
  then have len: "length os = 2 * m" using distinct_card [of os] m l by simp
  have mk: "MakePartition (int l) (fst st) = Inr (map int p1, map int p2)"
    using MakePartition_odd [of "int l" n "fst st" m] assms os(1) by (simp add: p1_def p2_def take_map drop_map)
  have app: "p1 @ p2 = os @ [l]" by (simp add: p1_def p2_def)
  then have d: "distinct (p1 @ p2)" using os by simp
  have "set p1 \<union> set p2 = set os \<union> {l}" using arg_cong [OF app, of set] by simp
  then have un: "set p1 \<union> set p2 = {..<n}" using os(3) l by auto
  have sub: "set p1 \<subseteq> {..<n}" "set p2 \<subseteq> {..<n}" "set p1 \<inter> set p2 = {}" using un d by auto
  obtain st' where st': "Partition (map int p1) (map int p2) st = Inr st'" "same_wires st st'"
    "\<And>a. a < n \<Longrightarrow> connected (fst st') ! a \<longleftrightarrow> connected (fst st) ! a \<or> a \<in> set p1 \<union> set p2"
    "\<And>a b. a < n \<Longrightarrow> b < n \<Longrightarrow> linked st' a b \<longleftrightarrow>
       (if a \<in> set p1 \<union> set p2 \<and> b \<in> set p1 \<union> set p2 then a \<in> set p1 \<longleftrightarrow> b \<in> set p1 else linked st a b)"
    using partition_splits_core [OF assms(1,2) sub] by blast
  have lk: "linked st' a b \<longleftrightarrow> (a \<in> set p1 \<longleftrightarrow> b \<in> set p1)" if "a < n" "b < n" for a b
    using st'(4) [OF that] that un by simp
  have "l \<in> set p2" by (simp add: p2_def)
  moreover have "{b. b < n \<and> linked st' l b} = set p2"
  proof -
    have "l \<notin> set p1" using \<open>l \<in> set p2\<close> sub(3) by blast
    then have "b < n \<Longrightarrow> linked st' l b \<longleftrightarrow> b \<notin> set p1" for b using lk [OF l] by simp
    then show ?thesis using un sub(3) by auto
  qed
  moreover have "length p1 = m + 1" using len m(2) by (simp add: p1_def)
  moreover have "\<forall>a < n. connected (fst st') ! a" using st'(3) un by simp
  ultimately show ?thesis using mk st'(1,2) d un lk by blast
qed

text \<open>With an even number of servers the second part has one place too many, which keeps the
  initial zero: server 0 is named in the second part although it is in the first, unless it is the
  leader. A group of two gets server 0 twice in the first part, or in both. A group of fewer servers
  panics.\<close>

theorem even_partition_repeats_server_0:
  assumes "0 \<le> l" and "l < int n" and "n = length (srvs sg)" and "n = 2 * m" and "2 \<le> m"
  shows "MakePartition l sg = Inr (take (m + 1) (others l n), drop (m + 1) (others l n) @ [0, l])"
proof -
  let ?Z = "others l n @ [0, 0]"
  have div2: "n div 2 = m" and len: "length (others l n) = 2 * m - 1" using assms length_others [OF assms(1,2)] by auto
  have "2 * (n div 2) + 1 - (n - 1) = Suc (Suc 0)" using assms(4,5) by simp
  then have two: "replicate (2 * (n div 2) + 1 - (n - 1)) (0 :: int) = [0, 0]" by (simp only: replicate.simps)
  have "MakePartition l sg = go_map (\<lambda>p. (take (m + 1) ?Z, p)) (go_set (drop (m + 1) ?Z) (int m - 1) l)"
    by (rule MakePartition_eq [OF assms(1-3) refl, unfolded two, unfolded div2])
  moreover have place: "length (drop (m + 1) (others l n) @ [0]) = m - 1" using len assms(5) by simp
  then have "go_set (drop (m + 1) (others l n) @ [0, 0]) (int m - 1) l = Inr (drop (m + 1) (others l n) @ [0, l])"
    using len assms(5) list_update_length [of "drop (m + 1) (others l n) @ [0]" 0 "[]" l, unfolded place] by (simp add: nat_diff_distrib)
  ultimately show ?thesis using len assms(5) by simp
qed

theorem MakePartition_of_few_panics:
  assumes "length (srvs sg) < 2"
  shows "MakePartition l sg = Inl IndexOutOfRange"
proof -
  have "srvs sg = [] \<or> (\<exists>s. srvs sg = [s])" using assms by (cases "srvs sg") (auto simp: less_Suc_eq)
  then show ?thesis by (auto simp: MakePartition_def all_srvs_def partition_step_def go_set_def Let_def)
qed

section \<open>A new group can be started\<close>

lemma makeSrvGrp_makes:
  assumes inj: "inj_on (\<lambda>(i, j). rnd i j) ({..<n} \<times> {..<n})" and fr: "\<And>i j. i < n \<Longrightarrow> j < n \<Longrightarrow> rnd i j \<notin> ends rn" and k: "k \<le> n"
  shows "\<exists>ss rn'. go_fold (\<lambda>i (ss, rn). go_map (\<lambda>(s, rn'). (ss @ [s], rn')) (makeServer (rnd i) gid n rn)) [0..<k] ([], rn) = Inr (ss, rn') \<and>
    length ss = k \<and> (\<forall>s \<in> set ss. length (names_of s) = n \<and> saved s = None) \<and> ends rn' = ends rn \<union> {rnd i j | i j. i < k \<and> j < n}"
  using k
proof (induction k)
  case (Suc k)
  let ?step = "\<lambda>i (ss, rn). go_map (\<lambda>(s, rn'). (ss @ [s], rn')) (makeServer (rnd i) gid n rn)"
  obtain ss rn1 where s: "go_fold ?step [0..<k] ([], rn) = Inr (ss, rn1)" "length ss = k"
    "\<forall>s \<in> set ss. length (names_of s) = n \<and> saved s = None" "ends rn1 = ends rn \<union> {rnd i j | i j. i < k \<and> j < n}"
    using Suc.IH Suc.prems by auto
  let ?ns = "map (rnd k) [0..<n]"
  have neq: "i < n \<Longrightarrow> j < n \<Longrightarrow> j' < n \<Longrightarrow> rnd i j = rnd k j' \<Longrightarrow> i = k \<and> j = j'" for i j j'
    using inj_onD [OF inj, of "(i, j)" "(k, j')"] Suc.prems by auto
  have kn: "k < n" using Suc.prems by simp
  have "distinct ?ns" using neq [OF kn] by (auto simp: distinct_map inj_on_def)
  moreover have "rnd k j \<notin> ends rn1" if j: "j < n" for j
  proof
    assume "rnd k j \<in> ends rn1"
    then obtain i j' where "i < k" "j' < n" "rnd i j' = rnd k j" using s(4) fr [OF kn j] by auto
    then show False using neq [of i j' j] j kn by simp
  qed
  then have "set ?ns \<inter> ends rn1 = {}" by auto
  ultimately obtain rn2 where r: "go_fold (make_one_end gid ?ns) [0..<n] rn1 = Inr rn2" and w: "wires gid ?ns rn1 rn2"
    using make_ends [of ?ns rn1 n gid] by auto
  have "makeServer (rnd k) gid n rn1 = Inr (\<lparr>saved = None, svcs = None, endNames = Some ?ns\<rparr>, rn2)" using r by (simp add: makeServer_def)
  moreover have "{rnd i j | i j. i < Suc k \<and> j < n} = {rnd i j | i j. i < k \<and> j < n} \<union> set ?ns" by (force simp: less_Suc_eq)
  then have "ends rn2 = ends rn \<union> {rnd i j | i j. i < Suc k \<and> j < n}" using w s(4) by (simp add: wires_def Un_assoc)
  moreover have "go_fold ?step [0..<Suc k] ([], rn) = go_bind (go_fold ?step [0..<k] ([], rn)) (?step k)"
    by (simp add: go_fold_append go_bind_def split: sum.splits)
  ultimately show ?case using s(1-3) by (intro exI [of _ "ss @ [\<lparr>saved = None, svcs = None, endNames = Some ?ns\<rparr>]"] exI [of _ rn2]) (simp add: names_of_def)
qed simp

lemma made_group_startable:
  assumes inj: "inj_on (\<lambda>(i, j). rnd i j) ({..<n} \<times> {..<n})" "inj_on (\<lambda>(i, j). rnd' i j) ({..<n} \<times> {..<n})"
    and fr: "\<And>i j. i < n \<Longrightarrow> j < n \<Longrightarrow> rnd i j \<notin> ends (rnet w) \<and> rnd' i j \<notin> ends (rnet w)"
    and neq: "\<And>i j i' j'. i < n \<Longrightarrow> j < n \<Longrightarrow> i' < n \<Longrightarrow> j' < n \<Longrightarrow> rnd' i j \<noteq> rnd i' j'"
  shows "\<exists>sg rn. makeSrvGrp rnd gid n start (rnet w) = Inr (sg, rn) \<and> startable rnd' (sg, w\<lparr>rnet := rn\<rparr>) \<and> length (srvs sg) = n \<and>
    grp_gid sg = gid \<and> mks sg = start \<and> (\<forall>s \<in> set (srvs sg). saved s = None)"
proof -
  obtain ss rn where s: "go_fold (\<lambda>i (ss, rn). go_map (\<lambda>(s, rn'). (ss @ [s], rn')) (makeServer (rnd i) gid n rn)) [0..<n] ([], rnet w) = Inr (ss, rn)"
    "length ss = n" "\<forall>s \<in> set ss. length (names_of s) = n \<and> saved s = None" "ends rn = ends (rnet w) \<union> {rnd i j | i j. i < n \<and> j < n}"
    using makeSrvGrp_makes [OF inj(1) conjunct1 [OF fr] order_refl, of gid] by blast
  have "rnd' i j \<notin> ends rn" if "i < n" "j < n" for i j using fr [OF that] neq [OF that] s(4) by auto
  then have "startable rnd' (\<lparr>srvs = ss, servernames = map (\<lambda>i. ServerName gid (int i)) [0..<n], grp_gid = gid,
      connected = replicate n False, mks = start\<rparr>, w\<lparr>rnet := rn\<rparr>)"
    unfolding startable_def Let_def prod.case using s(2,3) inj(2) by simp
  then show ?thesis using s(1-3) by (simp add: makeSrvGrp_def)
qed

section \<open>Witnesses\<close>

definition demo_names :: "nat \<Rightarrow> nat \<Rightarrow> nat \<Rightarrow> string" where
  "demo_names k i j = Itoa (int (k + 3 * i + j))"

definition demo_world :: "(nat, nat, nat, nat, nat) world" where
  "demo_world = \<lparr>rnet = MakeNetwork, disks = (\<lambda>_. MakePersister), next_disk = 0, next_obj = 0\<rparr>"

lemma demo_names_eq:
  "j < 3 \<Longrightarrow> j' < 3 \<Longrightarrow> demo_names k i j = demo_names k i' j' \<longleftrightarrow> i = i' \<and> j = j'"
proof -
  assume "j < 3" "j' < 3"
  then have "k + 3 * i + j = k + 3 * i' + j' \<longleftrightarrow> i = i' \<and> j = j'" by presburger
  then show ?thesis using Itoa_inject [of "int (k + 3 * i + j)" "int (k + 3 * i' + j')"] by (auto simp: demo_names_def)
qed

lemma demo_names_neq: "i < 3 \<Longrightarrow> j < 3 \<Longrightarrow> demo_names 9 i' j' \<noteq> demo_names 0 i j"
  using Itoa_inject [of "int (9 + 3 * i' + j')" "int (0 + 3 * i + j)"] by (auto simp: demo_names_def)

lemma demo_names_inj: "inj_on (\<lambda>(i, j). demo_names k i j) ({..<3} \<times> {..<3})"
  by (auto simp: inj_on_def demo_names_eq)

lemma demo_group: "\<exists>(sg :: (nat, nat, nat) ServerGrp) rn. makeSrvGrp (demo_names 0) 1 3 (\<lambda>_ _ _ _. []) (rnet demo_world) = Inr (sg, rn) \<and>
    startable (demo_names 9) (sg, demo_world\<lparr>rnet := rn\<rparr>) \<and> length (srvs sg) = 3 \<and> grp_gid sg = 1 \<and> mks sg = (\<lambda>_ _ _ _. []) \<and>
    (\<forall>s \<in> set (srvs sg). saved s = None)"
  by (rule made_group_startable) (simp_all add: demo_names_inj demo_names_neq demo_world_def MakeNetwork_def)

definition demo_grp :: "(nat, nat, nat) ServerGrp" where
  "demo_grp = \<lparr>srvs = map (\<lambda>i. \<lparr>saved = Some i, svcs = None, endNames = Some (map (demo_names 0 i) [0..<3])\<rparr>) [0..<3],
     servernames = map (\<lambda>i. ServerName 1 (int i)) [0..<3], grp_gid = 1, connected = [True, True, True], mks = (\<lambda>_ _ _ _. [])\<rparr>"

lemma demo_grp_wired: "wired demo_grp" and demo_grp_length: "length (srvs demo_grp) = 3"
proof -
  show n: "length (srvs demo_grp) = 3" by (simp add: demo_grp_def)
  have "link_name demo_grp a b = demo_names 0 a b" if "a < 3" "b < 3" for a b
    using that by (simp add: link_name_def demo_grp_def names_of_def)
  then show "wired demo_grp" using n by (auto simp: wired_def demo_names_eq Let_def) (auto simp: demo_grp_def names_of_def)
qed

theorem partition_isolates_leader_witness:
  "\<exists>p1 p2 st'. MakePartition 0 demo_grp = Inr (map int p1, map int p2) \<and> Partition (map int p1) (map int p2) (demo_grp, demo_world) = Inr st' \<and>
     length p1 = 2 \<and> {b. b < 3 \<and> linked st' 0 b} = set p2"
  using partition_isolates_leader [of "(demo_grp, demo_world)" 3 1 0] demo_grp_wired demo_grp_length by fastforce

theorem restart_reads_state_at_shutdown_witness:
  "\<exists>sg1 w1 st'. ShutdownServer id 1 (demo_grp, demo_world\<lparr>next_disk := 3\<rparr>) = Inr (sg1, w1) \<and>
     StartServer (demo_names 9 1) 1 (sg1, w1\<lparr>disks := (disks w1)(1 := \<lparr>raftstate = [7], snapshot = []\<rparr>)\<rparr>) = Inr st' \<and>
     running st' (demo_names 9 1) 1 MakePersister (next_disk w1) (next_obj w1)"
proof -
  let ?st = "(demo_grp, demo_world\<lparr>next_disk := 3\<rparr>)"
  have st: "wired (fst ?st)" "3 = length (srvs (fst ?st))" "1 < (3 :: nat)" "saved (srvs (fst ?st) ! 1) = Some 1" "1 < next_disk (snd ?st)"
    using demo_grp_wired demo_grp_length by (auto simp: demo_grp_def)
  obtain sg1 w1 where s: "ShutdownServer id (int 1) ?st = Inr (sg1, w1)" using shutdown_isolates [OF st(1-4), of id] by auto
  obtain rn where D: "Grp_disconnect 1 (all_srvs demo_grp) (demo_grp, demo_world\<lparr>next_disk := 3\<rparr>) =
      Inr (demo_grp\<lparr>connected := (connected demo_grp)[1 := False]\<rparr>, demo_world\<lparr>next_disk := 3, rnet := rn\<rparr>)" "ends rn = {}"
    using disconnect_links [of demo_grp 3 1 "demo_world\<lparr>next_disk := 3\<rparr>"] st by (auto simp: DisconnectAll_def demo_world_def MakeNetwork_def)
  have "ends (rnet w1) = {}"
    using s D demo_grp_length by (auto simp: ShutdownServer_def shutdownServer_def new_disk_def DeleteServer_def Let_def split: option.splits)
  moreover have "distinct (map (demo_names 9 1) [0..<3])" by (auto simp: distinct_map inj_on_def demo_names_eq)
  ultimately show ?thesis
    using restart_reads_state_at_shutdown [OF st s, of "demo_names 9 1" "\<lparr>raftstate = [7], snapshot = []\<rparr>"] s by (auto simp: demo_world_def)
qed

theorem even_partition_repeats_server_0_witness:
  "MakePartition 2 (demo_grp\<lparr>srvs := replicate 4 \<lparr>saved = None, svcs = None, endNames = None\<rparr>\<rparr>) = Inr ([0, 1, 3], [0, 2])"
proof -
  let ?sg = "demo_grp\<lparr>srvs := replicate 4 \<lparr>saved = None, svcs = None, endNames = None\<rparr>\<rparr>"
  have o4: "others 2 4 = [0, 1, 3]" by code_simp
  have p: "0 \<le> (2 :: int)" "2 < int 4" "4 = length (srvs ?sg)" "4 = 2 * (2 :: nat)" "(2 :: nat) \<le> 2" by simp_all
  have "take (2 + 1) [0, 1, 3] = [0, 1, 3 :: int]" "drop (2 + 1) [0, 1, 3 :: int] = []" by code_simp+
  then show ?thesis using even_partition_repeats_server_0 [OF p] unfolding o4 by (simp only: append_Nil)
qed

end
