(* ===== verification/ReplicatedSM.thy ===== *)
theory ReplicatedSM
  imports RaftPeer KVServer TesterGroup
begin

text \<open>
  The replicated state machine package (\<open>kvraft1/rsm\<close>): \<open>RSM\<close> as far as it is written
  (\<open>MakeRSM\<close> makes a Raft peer, \<open>Submit\<close> refuses every command), the counter service
  its tests replicate (\<open>rsm/server.go\<close>: \<open>DoOp\<close>, \<open>Snapshot\<close>, \<open>Restore\<close>), and the tester's helpers
  (\<open>rsm/test.go\<close>): \<open>onePartition\<close>, which looks for a server that executes a command,
  \<open>oneInc\<close>, \<open>oneNull\<close>, \<open>checkCounter\<close>, \<open>countValue\<close>, \<open>disconnectLeader\<close>, \<open>connect\<close> and \<open>Leader\<close>.

  \<open>onePartition\<close> is written over the function that submits, so that its search can be stated for any.
\<close>

section \<open>The replicated state machine\<close>

record ('c, 's) RSM =
  rsm_me :: int
  rsm_rf :: "('c, 's) Raft"
  maxraftstate :: int

definition MakeRSM :: "nat \<Rightarrow> int \<Rightarrow> ('c, 's) storage \<Rightarrow> int \<Rightarrow> tick \<Rightarrow> ('c, 's) RSM" where
  "MakeRSM nends i ps maxr tk = \<lparr>rsm_me = i, rsm_rf = Make nends i ps tk, maxraftstate = maxr\<rparr>"

definition RSM_Raft :: "('c, 's) RSM \<Rightarrow> ('c, 's) Raft" where
  "RSM_Raft r = rsm_rf r"

definition Submit :: "'c \<Rightarrow> ('c, 's) RSM \<Rightarrow> Err \<times> 'p option" where
  "Submit req r = (ErrWrongLeader, None)"

section \<open>The counter service\<close>

datatype rsm_req = Inc | Null | Dec

datatype rsm_rep = IncRep int | NullRep

datatype counter_item = GobInt int | GobOther

record rsmSrv =
  srv_rsm :: "(rsm_req, counter_item) RSM option"
  counter :: int

definition makeRsmSrv :: "nat \<Rightarrow> int \<Rightarrow> (rsm_req, counter_item) storage \<Rightarrow> int \<Rightarrow> tick \<Rightarrow> rsmSrv" where
  "makeRsmSrv nends srv ps maxr tk = \<lparr>srv_rsm = Some (MakeRSM nends srv ps maxr tk), counter = 0\<rparr>"

definition DoOp :: "rsm_req \<Rightarrow> rsmSrv \<Rightarrow> (rsm_rep \<times> rsmSrv) go" where
  "DoOp req rs =
     (case req of
        Inc \<Rightarrow> let rs1 = rs\<lparr>counter := counter rs + 1\<rparr> in Inr (IncRep (counter rs1), rs1)
      | Null \<Rightarrow> Inr (NullRep, rs)
      | _ \<Rightarrow> Inl (Fatal ''DoOp should execute only Inc''))"

definition rsmSrv_Snapshot :: "rsmSrv \<Rightarrow> counter_item list" where
  "rsmSrv_Snapshot rs = [GobInt (counter rs)]"

definition rsmSrv_Restore :: "counter_item list \<Rightarrow> rsmSrv \<Rightarrow> rsmSrv go" where
  "rsmSrv_Restore bytes rs =
     (case bytes of GobInt n # _ \<Rightarrow> Inr (rs\<lparr>counter := n\<rparr>) | _ \<Rightarrow> Inl (Fatal ''couldn't decode counter''))"

definition rsmSrv_Kill :: "rsmSrv \<Rightarrow> rsmSrv" where
  "rsmSrv_Kill rs = rs\<lparr>srv_rsm := None\<rparr>"

definition rsmSrv_Raft :: "rsmSrv \<Rightarrow> (rsm_req, counter_item) Raft go" where
  "rsmSrv_Raft rs = (case srv_rsm rs of None \<Rightarrow> Inl NilDereference | Some r \<Rightarrow> Inr (RSM_Raft r))"

text \<open>A replica executes the commands it is handed, in order.\<close>

fun do_ops :: "rsm_req list \<Rightarrow> rsmSrv \<Rightarrow> (rsm_rep list \<times> rsmSrv) go" where
  "do_ops [] rs = Inr ([], rs)"
| "do_ops (q # qs) rs = go_bind (DoOp q rs) (\<lambda>(rep, rs1). go_map (\<lambda>(reps, rs2). (rep # reps, rs2)) (do_ops qs rs1))"

section \<open>The tester\<close>

record rsm_test =
  rsm_srvs :: "rsmSrv list"
  leader :: int

definition NSRV :: nat where "NSRV = 3"

definition inPartition :: "int \<Rightarrow> int list option \<Rightarrow> bool" where
  "inPartition s p = (case p of None \<Rightarrow> True | Some is \<Rightarrow> s \<in> set is)"

text \<open>What the tester sees at one try: the group and the servers.\<close>

type_synonym ('o, 'a, 'q) view = "('o, 'a, 'q) ServerGrp \<times> rsmSrv list"

type_synonym submitter = "rsm_req \<Rightarrow> (rsm_req, counter_item) RSM \<Rightarrow> Err \<times> rsm_rep option"

text \<open>The loop over the servers, with the view at each try: the index to go on with, or the reply and the
  server that gave it.\<close>

fun try_servers :: "submitter \<Rightarrow> int list option \<Rightarrow> rsm_req \<Rightarrow> nat \<Rightarrow> ('o, 'a, 'q) view list \<Rightarrow> int \<Rightarrow>
    (int + int \<times> rsm_rep option) go" where
  "try_servers submit p req n [] index = Inr (Inl index)"
| "try_servers submit p req n ((sg, ss) # vs) index =
     go_bind (IsConnected index sg) (\<lambda>conn.
     go_bind (if conn then go_map Some (go_index ss index) else Inr None) (\<lambda>os.
       case Option.bind os srv_rsm of
         Some r \<Rightarrow>
           if inPartition index p \<and> fst (submit req r) = OK then Inr (Inr (index, snd (submit req r)))
           else try_servers submit p req n vs ((index + 1) mod int n)
       | None \<Rightarrow> try_servers submit p req n vs ((index + 1) mod int n)))"

text \<open>The rounds that fit into \<open>NSEC\<close> seconds; every round has one try for each server.\<close>

fun onePartition :: "submitter \<Rightarrow> int list option \<Rightarrow> rsm_req \<Rightarrow> (nat \<Rightarrow> ('o, 'a, 'q) view) list \<Rightarrow> rsm_test \<Rightarrow>
    (rsm_rep option \<times> rsm_test) go" where
  "onePartition submit p req [] ts = Inr (None, ts)"
| "onePartition submit p req (round # rounds) ts =
     go_bind (try_servers submit p req (length (rsm_srvs ts)) (map round [0..<length (rsm_srvs ts)]) (leader ts)) (\<lambda>r. case r of
       Inr (index, rep) \<Rightarrow> Inr (rep, ts\<lparr>leader := index\<rparr>)
     | Inl _ \<Rightarrow> onePartition submit p req rounds ts)"

definition oneInc :: "(nat \<Rightarrow> ('o, 'a, 'q) view) list \<Rightarrow> rsm_test \<Rightarrow> (int option \<times> rsm_test) go" where
  "oneInc rounds ts = go_bind (onePartition Submit None Inc rounds ts) (\<lambda>(rep, ts').
     case rep of None \<Rightarrow> Inr (None, ts') | Some (IncRep n) \<Rightarrow> Inr (Some n, ts') | _ \<Rightarrow> Inl (Fatal ''interface conversion''))"

definition oneNull :: "(nat \<Rightarrow> ('o, 'a, 'q) view) list \<Rightarrow> rsm_test \<Rightarrow> (unit option \<times> rsm_test) go" where
  "oneNull rounds ts = go_bind (onePartition Submit None Null rounds ts) (\<lambda>(rep, ts').
     case rep of None \<Rightarrow> Inr (None, ts') | Some NullRep \<Rightarrow> Inr (Some (), ts') | _ \<Rightarrow> Inl (Fatal ''interface conversion''))"

definition countValue :: "int \<Rightarrow> rsmSrv list \<Rightarrow> int" where
  "countValue v ss = int (length (filter (\<lambda>s. counter s = v) ss))"

text \<open>\<open>checkCounter\<close>: thirty looks at the servers.\<close>

fun check_polls :: "int \<Rightarrow> int \<Rightarrow> rsmSrv list list \<Rightarrow> unit go" where
  "check_polls v nsrv [] = Inl (Fatal ''checkCounter'')"
| "check_polls v nsrv (ss # rest) = (if countValue v ss \<ge> nsrv then Inr () else check_polls v nsrv rest)"

definition checkCounter :: "int \<Rightarrow> int \<Rightarrow> (nat \<Rightarrow> rsmSrv list) \<Rightarrow> unit go" where
  "checkCounter v nsrv look = check_polls v nsrv (map look [0..<30])"

definition disconnectLeader ::
  "rsm_test \<Rightarrow> ('r, 's, 'o, 'a, 'q) grp_state \<Rightarrow> (int \<times> ('r, 's, 'o, 'a, 'q) grp_state) go" where
  "disconnectLeader ts st = go_map (\<lambda>st'. (leader ts, st')) (DisconnectAll (leader ts) st)"

definition rsm_connect :: "int \<Rightarrow> ('r, 's, 'o, 'a, 'q) grp_state \<Rightarrow> ('r, 's, 'o, 'a, 'q) grp_state go" where
  "rsm_connect i st = ConnectOne i st"

text \<open>\<open>Leader\<close>: the services of every server; those that are Raft peers tell whether they lead.\<close>

fun Leader_scan :: "nat \<Rightarrow> ('c, 'd) Raft option list list \<Rightarrow> bool \<times> nat" where
  "Leader_scan i [] = (False, 0)"
| "Leader_scan i (ss # rest) =
     (if \<exists>s \<in> set ss. (case s of Some rf \<Rightarrow> snd (GetState rf) | None \<Rightarrow> False) then (True, i) else Leader_scan (i + 1) rest)"

definition Leader_of :: "('c, 'd) Raft option list list \<Rightarrow> bool \<times> nat" where
  "Leader_of ss = Leader_scan 0 ss"

section \<open>The counter\<close>

lemma do_ops_append:
  "do_ops (xs @ ys) rs = go_bind (do_ops xs rs) (\<lambda>(r1, rs1). go_map (\<lambda>(r2, rs2). (r1 @ r2, rs2)) (do_ops ys rs1))"
proof (induction xs arbitrary: rs)
  case Nil
  show ?case by (cases "do_ops ys rs") auto
next
  case (Cons q xs)
  show ?case
  proof (cases "DoOp q rs")
    case (Inr r)
    then show ?thesis using Cons by (cases r; cases "do_ops xs (snd r)") (auto simp: go_bind_def go_map_def split: sum.splits)
  qed simp
qed

text \<open>What replicas execute depends only on the counter they start from.\<close>

lemma do_ops_counter:
  "counter a = counter b \<Longrightarrow> do_ops qs a = Inr (reps, a') \<Longrightarrow> \<exists>b'. do_ops qs b = Inr (reps, b') \<and> counter b' = counter a'"
proof (induction qs arbitrary: a b reps)
  case (Cons q qs)
  then obtain rep a1 reps1 where a1: "DoOp q a = Inr (rep, a1)" "do_ops qs a1 = Inr (reps1, a')" "reps = rep # reps1"
    by (auto simp: go_bind_eq_Inr go_map_eq_Inr)
  obtain b1 where b1: "DoOp q b = Inr (rep, b1)" "counter b1 = counter a1"
    using a1(1) Cons.prems(1) by (cases q) (auto simp: DoOp_def Let_def)
  then show ?case using Cons.IH [OF _ a1(2), of b1] a1 by auto
qed simp

text \<open>The counter counts increments, and the replies are its values in turn.\<close>

lemma do_ops_counts:
  "do_ops qs rs = Inr (reps, rs') \<Longrightarrow>
     counter rs' = counter rs + int (length (filter (\<lambda>q. q = Inc) qs)) \<and> length reps = length qs \<and>
     (\<forall>i < length qs. reps ! i = (if qs ! i = Inc then IncRep (counter rs + int (length (filter (\<lambda>q. q = Inc) (take (Suc i) qs)))) else NullRep))"
proof (induction qs arbitrary: rs reps)
  case (Cons q qs)
  then obtain rep rs1 reps1 where r: "DoOp q rs = Inr (rep, rs1)" "do_ops qs rs1 = Inr (reps1, rs')" "reps = rep # reps1"
    by (auto simp: go_bind_eq_Inr go_map_eq_Inr)
  have q: "counter rs1 = counter rs + (if q = Inc then 1 else 0)" "rep = (if q = Inc then IncRep (counter rs + 1) else NullRep)"
    using r(1) by (cases q; auto simp: DoOp_def Let_def)+
  show ?case using Cons.IH [OF r(2)] q r(3) by (auto simp: nth_Cons' less_Suc_eq_0_disj add.assoc)
qed simp

lemma do_ops_total: "Dec \<notin> set qs \<Longrightarrow> \<exists>r. do_ops qs rs = Inr r"
proof (induction qs arbitrary: rs)
  case (Cons q qs)
  then obtain rep rs1 where "DoOp q rs = Inr (rep, rs1)" by (cases q) (auto simp: DoOp_def Let_def)
  then show ?case using Cons.IH [of rs1] Cons.prems by auto
qed simp

text \<open>A replica restored from a snapshot is as good as one that executed everything. If a server executes some
  commands, takes a snapshot and executes more, then any server restored from that snapshot
  answers the further commands the same and ends with the same counter.\<close>

theorem restored_replica_agrees:
  assumes "do_ops (xs @ ys) rs = Inr (reps, rs')" and "do_ops xs rs = Inr (reps1, rs1)"
  shows "\<exists>fresh' fresh''. rsmSrv_Restore (rsmSrv_Snapshot rs1) fresh = Inr fresh' \<and>
     do_ops ys fresh' = Inr (drop (length xs) reps, fresh'') \<and> counter fresh'' = counter rs'"
proof -
  obtain r2 where r2: "do_ops ys rs1 = Inr (r2, rs')" "reps = reps1 @ r2"
    using assms by (auto simp: do_ops_append go_map_eq_Inr)
  have "length reps1 = length xs" using do_ops_counts [OF assms(2)] by simp
  then have d: "drop (length xs) reps = r2" using r2(2) by simp
  have "counter rs1 = counter (fresh\<lparr>counter := counter rs1\<rparr>)" by simp
  from do_ops_counter [OF this r2(1)] obtain b where "do_ops ys (fresh\<lparr>counter := counter rs1\<rparr>) = Inr (r2, b)" "counter b = counter rs'" by blast
  then show ?thesis using d by (auto simp: rsmSrv_Restore_def rsmSrv_Snapshot_def)
qed

theorem restored_replica_agrees_witness:
  "\<exists>f' f''. rsmSrv_Restore (rsmSrv_Snapshot \<lparr>srv_rsm = None, counter = 2\<rparr>) \<lparr>srv_rsm = None, counter = 9\<rparr> = Inr f' \<and>
     do_ops [Null, Inc] f' = Inr ([NullRep, IncRep 3], f'') \<and> counter f'' = 3"
proof -
  let ?rs = "\<lparr>srv_rsm = None, counter = 0\<rparr>"
  have a: "do_ops ([Inc, Inc] @ [Null, Inc]) ?rs = Inr ([IncRep 1, IncRep 2, NullRep, IncRep 3], \<lparr>srv_rsm = None, counter = 3\<rparr>)"
    by (simp add: DoOp_def)
  have b: "do_ops [Inc, Inc] ?rs = Inr ([IncRep 1, IncRep 2], \<lparr>srv_rsm = None, counter = 2\<rparr>)" by (simp add: DoOp_def)
  from restored_replica_agrees [OF a b, of "\<lparr>srv_rsm = None, counter = 9\<rparr>"] show ?thesis by simp
qed

section \<open>The tester's search\<close>

text \<open>A reply comes from a server that was connected, running, in the partition and accepted the command.\<close>

lemma try_servers_reply:
  "try_servers submit p req n vs index = Inr (Inr (j, rep)) \<Longrightarrow>
     \<exists>sg ss r. (sg, ss) \<in> set vs \<and> IsConnected j sg = Inr True \<and> go_index ss j = Inr (ss ! nat j) \<and> srv_rsm (ss ! nat j) = Some r \<and>
       inPartition j p \<and> submit req r = (OK, rep)"
proof (induction vs arbitrary: index)
  case (Cons v vs)
  obtain sg ss where v: "v = (sg, ss)" by (cases v)
  obtain conn where c: "IsConnected index sg = Inr conn" using Cons.prems v by (auto simp: go_bind_eq_Inr)
  have more: ?case if "try_servers submit p req n vs ((index + 1) mod int n) = Inr (Inr (j, rep))"
    using Cons.IH [OF that] by (metis list.set_intros(2))
  show ?case
  proof (cases conn)
    case True
    obtain s where s: "go_index ss index = Inr s" using Cons.prems v c True by (auto simp: go_bind_eq_Inr go_map_eq_Inr)
    then have s': "s = ss ! nat index" by (auto simp: go_index_def split: if_splits)
    show ?thesis
    proof (cases "srv_rsm s")
      case None
      then show ?thesis using Cons.prems v c True s more by simp
    next
      case (Some r)
      show ?thesis
      proof (cases "inPartition index p \<and> fst (submit req r) = OK")
        case acc: True
        then have "j = index" "snd (submit req r) = rep" using Cons.prems v c True s Some by auto
        then show ?thesis using v c True s s' Some acc by (intro exI [of _ sg] exI [of _ ss] exI [of _ r]) (auto simp: prod_eq_iff)
      next
        case False
        then show ?thesis using Cons.prems v c True s Some more by (auto split: if_splits)
      qed
    qed
  qed (use Cons.prems v c more in simp)
qed simp

text \<open>Views of a group of \<open>n\<close> servers never make the search fail.\<close>

definition fits :: "nat \<Rightarrow> ('o, 'a, 'q) view \<Rightarrow> bool" where
  "fits n v \<longleftrightarrow> length (connected (fst v)) = n \<and> length (snd v) = n"

lemma try_servers_total:
  assumes "\<forall>v \<in> set vs. fits n v" and "0 \<le> index" and "index < int n"
  shows "\<exists>r. try_servers submit p req n vs index = Inr r"
  using assms
proof (induction vs arbitrary: index)
  case (Cons v vs)
  obtain sg ss where v: "v = (sg, ss)" by (cases v)
  have i: "0 \<le> (index + 1) mod int n" "(index + 1) mod int n < int n" using Cons.prems(2,3) by auto
  note IH = Cons.IH [OF _ i]
  show ?case using IH Cons.prems v
    by (cases "connected sg ! nat index"; cases "srv_rsm (ss ! nat index)") (auto simp: IsConnected_def fits_def)
qed simp

lemma try_servers_refused:
  assumes "\<And>r. fst (submit req r) \<noteq> OK"
  shows "try_servers submit p req n vs index \<noteq> Inr (Inr x)"
proof
  assume "try_servers submit p req n vs index = Inr (Inr x)"
  then obtain r where "submit req r = (OK, snd x)" using try_servers_reply [of submit p req n vs index "fst x" "snd x"] by auto
  then show False using assms [of r] by simp
qed

text \<open>No command is ever executed through \<open>RSM\<close>. Whatever the state of the servers and however long the tester
  tries, \<open>Submit\<close> refuses, so \<open>onePartition\<close> ends with nil and leaves its idea of the leader alone,
  and so do \<open>oneInc\<close> and \<open>oneNull\<close>.\<close>

theorem rsm_never_executes:
  assumes "\<forall>round \<in> set rounds. \<forall>i < length (rsm_srvs ts). fits (length (rsm_srvs ts)) (round i)"
    and "0 \<le> leader ts" and "leader ts < int (length (rsm_srvs ts))"
  shows "onePartition Submit p req rounds ts = Inr (None, ts) \<and> oneInc rounds ts = Inr (None, ts) \<and> oneNull rounds ts = Inr (None, ts)"
proof -
  have "onePartition Submit p req rounds ts = Inr (None, ts)" for p req using assms
  proof (induction rounds)
    case (Cons round rounds)
    let ?n = "length (rsm_srvs ts)"
    obtain r where r: "try_servers Submit p req ?n (map round [0..<?n]) (leader ts) = Inr r"
      using try_servers_total [of "map round [0..<?n]" ?n "leader ts" Submit p req] Cons.prems by auto
    then obtain index where "r = Inl index"
      using try_servers_refused [of Submit req p ?n "map round [0..<?n]" "leader ts"]
      by (cases r) (auto simp: Submit_def ErrWrongLeader_def OK_def)
    then show ?case using Cons r by simp
  qed simp
  then show ?thesis by (simp add: oneInc_def oneNull_def)
qed

definition demo_group :: "(unit, unit, unit) ServerGrp" where
  "demo_group = \<lparr>srvs = [], servernames = [], grp_gid = 0, connected = [True, True, True], mks = (\<lambda>_ _ _ _. [])\<rparr>"

definition demo_servers :: "rsmSrv list" where
  "demo_servers = map (\<lambda>i. makeRsmSrv 3 (int i) MakePersister (-1) (0, 0)) [0..<3]"

theorem rsm_never_executes_witness:
  "oneInc [\<lambda>i. (demo_group, demo_servers)] \<lparr>rsm_srvs = demo_servers, leader = 1\<rparr> = Inr (None, \<lparr>rsm_srvs = demo_servers, leader = 1\<rparr>)"
proof -
  have "length demo_servers = 3" by (simp add: demo_servers_def)
  then show ?thesis using rsm_never_executes [of "[\<lambda>i. (demo_group, demo_servers)]" "\<lparr>rsm_srvs = demo_servers, leader = 1\<rparr>"]
    by (simp add: fits_def demo_group_def)
qed

text \<open>With any way to submit, a reply means that the server the tester then takes for the leader executed the command.\<close>

lemma onePartition_reply:
  assumes "onePartition submit p req rounds ts = Inr (Some rep, ts')"
  shows "ts' = ts\<lparr>leader := leader ts'\<rparr> \<and> inPartition (leader ts') p \<and>
    (\<exists>round i sg ss r. round \<in> set rounds \<and> i < length (rsm_srvs ts) \<and> round i = (sg, ss) \<and> IsConnected (leader ts') sg = Inr True \<and>
       srv_rsm (ss ! nat (leader ts')) = Some r \<and> submit req r = (OK, Some rep))"
  using assms
proof (induction rounds)
  case (Cons round rounds)
  let ?n = "length (rsm_srvs ts)"
  obtain x where x: "try_servers submit p req ?n (map round [0..<?n]) (leader ts) = Inr x"
    using Cons.prems by (auto simp: go_bind_eq_Inr)
  show ?case
  proof (cases x)
    case (Inl k)
    then show ?thesis using Cons.IH Cons.prems x by (auto 0 4)
  next
    case (Inr y)
    then have y: "y = (leader ts', Some rep)" "ts' = ts\<lparr>leader := leader ts'\<rparr>" using Cons.prems x by (cases y; auto)+
    obtain sg ss r where r: "(sg, ss) \<in> set (map round [0..<?n])" "IsConnected (leader ts') sg = Inr True"
      "srv_rsm (ss ! nat (leader ts')) = Some r" "inPartition (leader ts') p" "submit req r = (OK, Some rep)"
      using try_servers_reply [of submit p req ?n "map round [0..<?n]" "leader ts" "leader ts'" "Some rep"] x Inr y(1) by auto
    obtain i where i: "i < ?n" "round i = (sg, ss)" using r(1) by auto
    have "round \<in> set (round # rounds)" by simp
    then show ?thesis using r(2-5) y(2) i by blast
  qed
qed simp

text \<open>\<open>checkCounter\<close> passes exactly if some look finds enough servers with the value.\<close>

lemma check_polls_iff: "check_polls v nsrv looks = Inr () \<longleftrightarrow> (\<exists>ss \<in> set looks. countValue v ss \<ge> nsrv)"
  by (induction looks) auto

lemma checkCounter_iff: "checkCounter v nsrv look = Inr () \<longleftrightarrow> (\<exists>i < 30. countValue v (look i) \<ge> nsrv)"
  by (auto simp: checkCounter_def check_polls_iff)

text \<open>Replicas that have executed the same commands pass it with the number of increments.\<close>

lemma replicas_pass_checkCounter:
  assumes "i < 30" and "length (look i) = n"
    and "\<forall>s \<in> set (look i). \<exists>s0 reps. counter s0 = 0 \<and> do_ops qs s0 = Inr (reps, s)"
  shows "checkCounter (int (length (filter (\<lambda>q. q = Inc) qs))) (int n) look = Inr ()"
proof -
  have "\<forall>s \<in> set (look i). counter s = int (length (filter (\<lambda>q. q = Inc) qs))" using assms(3) do_ops_counts by fastforce
  then have "filter (\<lambda>s. counter s = int (length (filter (\<lambda>q. q = Inc) qs))) (look i) = look i" by (simp add: filter_id_conv)
  then show ?thesis using assms(1,2) unfolding checkCounter_iff countValue_def by (intro exI [of _ i]) simp
qed

text \<open>\<open>Leader\<close> names the first server with a peer that leads.\<close>

definition leads :: "('c, 'd) Raft option list \<Rightarrow> bool" where
  "leads ss \<longleftrightarrow> (\<exists>rf. Some rf \<in> set ss \<and> snd (GetState rf))"

lemma Leader_scan_spec:
  "Leader_scan k ss = (if \<exists>i < length ss. leads (ss ! i) then (True, k + (LEAST i. i < length ss \<and> leads (ss ! i))) else (False, 0))"
proof (induction ss arbitrary: k)
  case (Cons s ss)
  have s: "(\<exists>x \<in> set s. (case x of Some rf \<Rightarrow> snd (GetState rf) | None \<Rightarrow> False)) \<longleftrightarrow> leads s"
    by (force simp: leads_def split: option.splits)
  show ?case
  proof (cases "leads s")
    case True
    then have "(LEAST i. i < length (s # ss) \<and> leads ((s # ss) ! i)) = 0" by (intro Least_equality) auto
    then show ?thesis using True s by auto
  next
    case False
    have ex: "(\<exists>i < length (s # ss). leads ((s # ss) ! i)) \<longleftrightarrow> (\<exists>i < length ss. leads (ss ! i))"
      using False by (auto simp: less_Suc_eq_0_disj)
    show ?thesis
    proof (cases "\<exists>i < length ss. leads (ss ! i)")
      case True
      then obtain i where i: "i < length ss \<and> leads (ss ! i)" by blast
      have "(LEAST i. i < length (s # ss) \<and> leads ((s # ss) ! i)) = Suc (LEAST i. Suc i < length (s # ss) \<and> leads ((s # ss) ! Suc i))"
        by (rule Least_Suc [of _ "Suc i"]) (use i False in auto)
      then show ?thesis using Cons True False s ex by simp
    next
      case none: False
      then show ?thesis using Cons False s ex by auto
    qed
  qed
qed simp

end
