(* ===== verification/TesterClients.thy ===== *)
theory TesterClients
  imports LabRPC
begin

text \<open>
  The clients of the tester (\<open>tester1/clnts.go\<close>): a client makes an end to a server when it first
  calls it, and the tester allows or forbids connections. The map from server names to ends is a
  list of pairs, in the order in which Go visits it; an end is known by its name, which
  \<open>Randstring\<close> makes and which is an argument here. Clients are shared, so the set of all clients
  holds pointers to them.
\<close>

section \<open>One client\<close>

record Clnt =
  clnt_ends :: "(string \<times> string) list"
  clnt_srvs :: "string list option"

type_synonym ('o, 'a, 'q) cnet = "(string, string, 'o, 'a, 'q) Network"

definition makeClntTo :: "string list option \<Rightarrow> Clnt" where
  "makeClntTo to = \<lparr>clnt_ends = [], clnt_srvs = to\<rparr>"

definition allowedL :: "string \<Rightarrow> Clnt \<Rightarrow> bool" where
  "allowedL server clnt = (case clnt_srvs clnt of None \<Rightarrow> True | Some ns \<Rightarrow> server \<in> set ns)"

definition Clnt_makeEnd :: "string \<Rightarrow> string \<Rightarrow> Clnt \<Rightarrow> ('o, 'a, 'q) cnet \<Rightarrow> (string \<times> Clnt \<times> ('o, 'a, 'q) cnet) go" where
  "Clnt_makeEnd rnd server clnt rn =
     (case map_of (clnt_ends clnt) server of
        Some e \<Rightarrow> Inr (e, clnt, rn)
      | None \<Rightarrow> go_map (\<lambda>rn1.
            let rn2 = Connect rnd server rn1;
                rn3 = (if allowedL server clnt then Enable rnd True rn2 else Enable rnd False rn2)
            in (rnd, clnt\<lparr>clnt_ends := clnt_ends clnt @ [(server, rnd)]\<rparr>, rn3))
          (MakeEnd rnd rn))"

text \<open>\<open>Call\<close> hands a request on the client's end to the network.\<close>

definition Clnt_Call ::
  "string \<Rightarrow> string \<Rightarrow> string \<Rightarrow> 'a \<Rightarrow> Clnt \<Rightarrow> ('o, 'a, 'q) cnet \<Rightarrow> ((string, string, 'a, 'q) request_state \<times> Clnt \<times> ('o, 'a, 'q) cnet) go" where
  "Clnt_Call rnd server meth args clnt rn =
     go_map (\<lambda>(e, clnt', rn'). (new_request e meth args, clnt', rn')) (Clnt_makeEnd rnd server clnt rn)"

definition Clnt_ConnectAll :: "Clnt \<Rightarrow> ('o, 'a, 'q) cnet \<Rightarrow> Clnt \<times> ('o, 'a, 'q) cnet" where
  "Clnt_ConnectAll clnt rn = (clnt\<lparr>clnt_srvs := None\<rparr>, fold (\<lambda>(s, e). Enable e True) (clnt_ends clnt) rn)"

definition Clnt_ConnectTo :: "string list option \<Rightarrow> Clnt \<Rightarrow> ('o, 'a, 'q) cnet \<Rightarrow> Clnt \<times> ('o, 'a, 'q) cnet" where
  "Clnt_ConnectTo to clnt rn =
     (let clnt' = clnt\<lparr>clnt_srvs := to\<rparr> in
      (clnt', fold (\<lambda>(s, e) rn. if allowedL s clnt' then Enable e True rn else rn) (clnt_ends clnt) rn))"

definition Clnt_Disconnect :: "string \<Rightarrow> Clnt \<Rightarrow> ('o, 'a, 'q) cnet \<Rightarrow> Clnt \<times> ('o, 'a, 'q) cnet" where
  "Clnt_Disconnect srv clnt rn = (clnt, fold (\<lambda>(s, e) rn. if s = srv then Enable e False rn else rn) (clnt_ends clnt) rn)"

definition Clnt_DisconnectAll :: "Clnt \<Rightarrow> ('o, 'a, 'q) cnet \<Rightarrow> Clnt \<times> ('o, 'a, 'q) cnet" where
  "Clnt_DisconnectAll clnt rn = (clnt\<lparr>clnt_srvs := Some []\<rparr>, fold (\<lambda>(s, e). Enable e False) (clnt_ends clnt) rn)"

definition Clnt_remove :: "Clnt \<Rightarrow> ('o, 'a, 'q) cnet \<Rightarrow> ('o, 'a, 'q) cnet go" where
  "Clnt_remove clnt rn = go_fold (\<lambda>(s, e). DeleteEnd e) (clnt_ends clnt) rn"

section \<open>All clients\<close>

text \<open>\<open>clerks\<close> lists the registered clients in the order in which Go visits the map; it is nil after
  \<open>cleanup\<close>. \<open>heap\<close> is what the pointers point to.\<close>

record Clnts =
  clerks :: "nat list option"
  heap :: "nat \<Rightarrow> Clnt"
  next_clnt :: nat

definition makeClnts :: "Clnts" where
  "makeClnts = \<lparr>clerks = Some [], heap = (\<lambda>_. makeClntTo None), next_clnt = 0\<rparr>"

definition Clnts_makeEnd :: "string \<Rightarrow> string \<Rightarrow> ('o, 'a, 'q) cnet \<Rightarrow> (string \<times> ('o, 'a, 'q) cnet) go" where
  "Clnts_makeEnd rnd servername rn =
     go_map (\<lambda>rn1. (rnd, Enable rnd True (Connect rnd servername rn1))) (MakeEnd rnd rn)"

text \<open>Adding to a nil map panics.\<close>

definition MakeClientTo :: "string list option \<Rightarrow> Clnts \<Rightarrow> (nat \<times> Clnts) go" where
  "MakeClientTo to cs =
     (let p = next_clnt cs; cs1 = cs\<lparr>heap := (heap cs)(p := makeClntTo to), next_clnt := p + 1\<rparr> in
      case clerks cs of
        None \<Rightarrow> Inl NilDereference
      | Some ps \<Rightarrow> Inr (p, cs1\<lparr>clerks := Some (ps @ [p])\<rparr>))"

definition MakeClient :: "Clnts \<Rightarrow> (nat \<times> Clnts) go" where
  "MakeClient = MakeClientTo None"

definition Clnts_cleanup :: "Clnts \<Rightarrow> ('o, 'a, 'q) cnet \<Rightarrow> (Clnts \<times> ('o, 'a, 'q) cnet) go" where
  "Clnts_cleanup cs rn =
     go_map (\<lambda>rn'. (cs\<lparr>clerks := None\<rparr>, rn'))
       (go_fold (\<lambda>p. Clnt_remove (heap cs p)) (case clerks cs of None \<Rightarrow> [] | Some ps \<Rightarrow> ps) rn)"

definition DeleteClient :: "nat \<Rightarrow> Clnts \<Rightarrow> ('o, 'a, 'q) cnet \<Rightarrow> (Clnts \<times> ('o, 'a, 'q) cnet) go" where
  "DeleteClient p cs rn =
     (case clerks cs of
        None \<Rightarrow> Inr (cs, rn)
      | Some ps \<Rightarrow>
          (if p \<in> set ps then go_map (\<lambda>rn'. (cs\<lparr>clerks := Some (filter (\<lambda>q. q \<noteq> p) ps)\<rparr>, rn')) (Clnt_remove (heap cs p) rn)
           else Inr (cs, rn)))"

section \<open>Which servers a client reaches\<close>

text \<open>A client is sound on a network if it has one end for a server, each with a name of its own,
  known to the network and connected to the server.\<close>

definition clnt_ok :: "Clnt \<Rightarrow> ('o, 'a, 'q) cnet \<Rightarrow> bool" where
  "clnt_ok clnt rn \<longleftrightarrow> distinct (map fst (clnt_ends clnt)) \<and> distinct (map snd (clnt_ends clnt)) \<and>
     (\<forall>(s, e) \<in> set (clnt_ends clnt). e \<in> ends rn \<and> connections rn e = Some s)"

text \<open>What the client can reach: a server it has an end for if the end is enabled, another one if a
  new end would be.\<close>

definition reach :: "Clnt \<Rightarrow> ('o, 'a, 'q) cnet \<Rightarrow> string \<Rightarrow> bool" where
  "reach clnt rn server = (case map_of (clnt_ends clnt) server of Some e \<Rightarrow> enabled rn e | None \<Rightarrow> allowedL server clnt)"

lemma fold_enable_other:
  "e \<notin> snd ` set xs \<Longrightarrow> enabled (fold (\<lambda>(s, e) rn. if P s then Enable e v rn else rn) xs rn) e = enabled rn e"
  by (induction xs arbitrary: rn) (auto simp: Enable_def split: if_splits)

lemma fold_enable:
  assumes "distinct (map snd xs)" and "(s, e) \<in> set xs"
  shows "enabled (fold (\<lambda>(s, e) rn. if P s then Enable e v rn else rn) xs rn) e = (if P s then v else enabled rn e)"
  using assms
proof (induction xs arbitrary: rn)
  case (Cons x xs)
  obtain s' e' where x: "x = (s', e')" by (rule prod.exhaust)
  show ?case
  proof (cases "e' = e")
    case True
    then have "s' = s" "e \<notin> snd ` set xs" using Cons.prems x by (auto simp: image_iff)
    then show ?thesis using True x by (simp add: fold_enable_other Enable_def)
  next
    case False
    then show ?thesis using Cons x by (auto simp: Enable_def)
  qed
qed simp

lemma fold_enable_frame [simp]:
  "ends (fold (\<lambda>(s, e) rn. if P s then Enable e v rn else rn) xs rn) = ends rn"
  "connections (fold (\<lambda>(s, e) rn. if P s then Enable e v rn else rn) xs rn) = connections rn"
  "servers (fold (\<lambda>(s, e) rn. if P s then Enable e v rn else rn) xs rn) = servers rn"
  "objs (fold (\<lambda>(s, e) rn. if P s then Enable e v rn else rn) xs rn) = objs rn"
  by (induction xs arbitrary: rn) (auto simp: Enable_def split: if_splits)

lemma reach_fold:
  assumes "clnt_ok clnt rn" and "clnt_ends clnt' = clnt_ends clnt"
    and "rn' = fold (\<lambda>(s, e) rn. if P s then Enable e v rn else rn) (clnt_ends clnt) rn"
  shows "clnt_ok clnt' rn'" "reach clnt' rn' s =
    (if s \<in> fst ` set (clnt_ends clnt) then if P s then v else reach clnt rn s else allowedL s clnt')"
proof -
  show "clnt_ok clnt' rn'" using assms by (auto simp: clnt_ok_def)
  show "reach clnt' rn' s = (if s \<in> fst ` set (clnt_ends clnt) then if P s then v else reach clnt rn s else allowedL s clnt')"
  proof (cases "map_of (clnt_ends clnt) s")
    case None
    moreover from None have "s \<notin> fst ` set (clnt_ends clnt)" by (simp add: map_of_eq_None_iff)
    ultimately show ?thesis using assms(2) by (simp add: reach_def)
  next
    case (Some e)
    then have mem: "(s, e) \<in> set (clnt_ends clnt)" by (rule map_of_SomeD)
    have "enabled rn' e = (if P s then v else enabled rn e)"
      unfolding assms(3) by (rule fold_enable [OF _ mem]) (use assms(1) in \<open>simp add: clnt_ok_def\<close>)
    then show ?thesis using Some mem assms(2) by (auto simp: reach_def image_iff)
  qed
qed

text \<open>The operations, as the tester calls them.\<close>

datatype clnt_op =
    DoCall string string string
  | DoConnectAll
  | DoConnectTo "string list option"
  | DoDisconnect string
  | DoDisconnectAll

fun clnt_do :: "clnt_op \<Rightarrow> Clnt \<times> ('o, 'a, 'q) cnet \<Rightarrow> (Clnt \<times> ('o, 'a, 'q) cnet) go" where
  "clnt_do (DoCall rnd server meth) (clnt, rn) = go_map (\<lambda>(_, clnt', rn'). (clnt', rn')) (Clnt_makeEnd rnd server clnt rn)"
| "clnt_do DoConnectAll (clnt, rn) = Inr (Clnt_ConnectAll clnt rn)"
| "clnt_do (DoConnectTo to) (clnt, rn) = Inr (Clnt_ConnectTo to clnt rn)"
| "clnt_do (DoDisconnect s) (clnt, rn) = Inr (Clnt_Disconnect s clnt rn)"
| "clnt_do DoDisconnectAll (clnt, rn) = Inr (Clnt_DisconnectAll clnt rn)"

text \<open>What each operation of the code does to the servers reached. A server the client has no end for is not
  affected by \<open>Disconnect\<close>, and \<open>ConnectTo\<close> takes no server away that the client has an end for.\<close>

fun reach_after :: "clnt_op \<Rightarrow> string set \<Rightarrow> string set \<Rightarrow> string set" where
  "reach_after (DoCall _ _ _) known R = R"
| "reach_after DoConnectAll known R = UNIV"
| "reach_after (DoConnectTo None) known R = UNIV"
| "reach_after (DoConnectTo (Some to)) known R = set to \<union> (R \<inter> known)"
| "reach_after (DoDisconnect s) known R = R - ({s} \<inter> known)"
| "reach_after DoDisconnectAll known R = {}"

fun op_server :: "clnt_op \<Rightarrow> string set" where
  "op_server (DoCall _ server _) = {server}"
| "op_server _ = {}"

fun op_name :: "clnt_op \<Rightarrow> string list" where
  "op_name (DoCall rnd _ _) = [rnd]"
| "op_name _ = []"

definition known :: "Clnt \<Rightarrow> string set" where
  "known clnt = fst ` set (clnt_ends clnt)"
lemma reach_unknown: "s \<notin> known clnt \<Longrightarrow> reach clnt rn s = allowedL s clnt"
  by (simp add: reach_def known_def map_of_eq_None_iff [symmetric])

lemma makeEnd_reach:
  assumes ok: "clnt_ok clnt rn" and fresh: "rnd \<notin> ends rn"
  shows "\<exists>e clnt' rn'. Clnt_makeEnd rnd server clnt rn = Inr (e, clnt', rn') \<and> clnt_ok clnt' rn' \<and>
    map_of (clnt_ends clnt') server = Some e \<and> connections rn' e = Some server \<and> (enabled rn' e \<longleftrightarrow> reach clnt rn server) \<and>
    (\<forall>s. reach clnt' rn' s = reach clnt rn s) \<and> known clnt' = insert server (known clnt) \<and> ends rn' \<subseteq> insert rnd (ends rn) \<and>
    servers rn' = servers rn \<and> objs rn' = objs rn"
proof (cases "map_of (clnt_ends clnt) server")
  case (Some e)
  then have "(server, e) \<in> set (clnt_ends clnt)" by (rule map_of_SomeD)
  then show ?thesis using Some ok by (auto simp: Clnt_makeEnd_def clnt_ok_def reach_def known_def insert_absorb image_iff split_beta)
next
  case None
  let ?clnt = "clnt\<lparr>clnt_ends := clnt_ends clnt @ [(server, rnd)]\<rparr>"
  let ?rn = "Enable rnd (allowedL server clnt) (Connect rnd server (rn\<lparr>ends := insert rnd (ends rn), enabled := (enabled rn)(rnd := False),
      connections := (connections rn)(rnd := None)\<rparr>))"
  have new: "server \<notin> fst ` set (clnt_ends clnt)" using None by (simp add: map_of_eq_None_iff)
  have "rnd \<notin> snd ` set (clnt_ends clnt)" using ok fresh by (auto simp: clnt_ok_def)
  then have ok': "clnt_ok ?clnt ?rn" and other: "\<And>s e. map_of (clnt_ends clnt) s = Some e \<Longrightarrow> e \<noteq> rnd"
    using ok new by (auto simp: clnt_ok_def Enable_def Connect_def image_iff dest!: map_of_SomeD)
  have "Clnt_makeEnd rnd server clnt rn = Inr (rnd, ?clnt, ?rn)" using None fresh by (simp add: Clnt_makeEnd_def MakeEnd_def Let_def)
  moreover have "reach ?clnt ?rn s = reach clnt rn s" for s
    using None other [of s] by (auto simp: reach_def allowedL_def Enable_def Connect_def map_add_def split: option.splits)
  ultimately show ?thesis using ok' None by (simp add: reach_def known_def Enable_def Connect_def map_add_def)
qed

lemma clnt_do_fold:
  assumes ok: "clnt_ok clnt rn" and same: "clnt_ends clnt' = clnt_ends clnt" and none: "op_server x = {}"
    and do: "clnt_do x (clnt, rn) = Inr (clnt', fold (\<lambda>(s, e) rn. if P s then Enable e v rn else rn) (clnt_ends clnt) rn)"
    and after: "\<And>s. s \<in> reach_after x (known clnt) {s. reach clnt rn s} \<longleftrightarrow>
      (if s \<in> known clnt then if P s then v else reach clnt rn s else allowedL s clnt')"
  shows "\<exists>clnt' rn'. clnt_do x (clnt, rn) = Inr (clnt', rn') \<and> clnt_ok clnt' rn' \<and>
    {s. reach clnt' rn' s} = reach_after x (known clnt) {s. reach clnt rn s} \<and>
    known clnt' = known clnt \<union> op_server x \<and> ends rn' \<subseteq> ends rn \<union> set (op_name x) \<and> servers rn' = servers rn \<and> objs rn' = objs rn"
proof -
  note r = reach_fold [OF ok same refl, of P v]
  have "{s. reach clnt' (fold (\<lambda>(s, e) rn. if P s then Enable e v rn else rn) (clnt_ends clnt) rn) s} =
      reach_after x (known clnt) {s. reach clnt rn s}"
    using after unfolding r(2) known_def by blast
  then show ?thesis using do r(1) same none by (simp add: known_def)
qed

lemma clnt_do_reach:
  assumes ok: "clnt_ok clnt rn" and fresh: "\<And>rnd server meth. x = DoCall rnd server meth \<Longrightarrow> rnd \<notin> ends rn"
  shows "\<exists>clnt' rn'. clnt_do x (clnt, rn) = Inr (clnt', rn') \<and> clnt_ok clnt' rn' \<and>
    {s. reach clnt' rn' s} = reach_after x (known clnt) {s. reach clnt rn s} \<and>
    known clnt' = known clnt \<union> op_server x \<and> ends rn' \<subseteq> ends rn \<union> set (op_name x) \<and> servers rn' = servers rn \<and> objs rn' = objs rn"
proof (cases x)
  case (DoCall rnd server meth)
  then show ?thesis using makeEnd_reach [OF ok, of rnd server] fresh by auto
next
  case DoConnectAll
  then show ?thesis
    by (intro clnt_do_fold [OF ok, where clnt' = "clnt\<lparr>clnt_srvs := None\<rparr>" and P = "\<lambda>_. True" and v = True])
       (simp_all add: Clnt_ConnectAll_def allowedL_def)
next
  case (DoConnectTo to)
  then show ?thesis
    by (intro clnt_do_fold [OF ok, where clnt' = "clnt\<lparr>clnt_srvs := to\<rparr>" and P = "\<lambda>s. allowedL s (clnt\<lparr>clnt_srvs := to\<rparr>)" and v = True])
       (cases to; auto simp: Clnt_ConnectTo_def allowedL_def Let_def)+
next
  case (DoDisconnect s)
  then show ?thesis
    by (intro clnt_do_fold [OF ok, where clnt' = clnt and P = "\<lambda>s'. s' = s" and v = False])
       (auto simp: Clnt_Disconnect_def reach_unknown)
next
  case DoDisconnectAll
  then show ?thesis
    by (intro clnt_do_fold [OF ok, where clnt' = "clnt\<lparr>clnt_srvs := Some []\<rparr>" and P = "\<lambda>_. True" and v = False])
       (simp_all add: Clnt_DisconnectAll_def allowedL_def)
qed

text \<open>What the code does, as a function of the servers the client has called and the servers it reaches.\<close>

definition spec_do :: "clnt_op \<Rightarrow> string set \<times> string set \<Rightarrow> string set \<times> string set" where
  "spec_do x = (\<lambda>(K, R). (K \<union> op_server x, reach_after x K R))"

lemma clnt_run_refines:
  assumes "clnt_ok clnt rn" and "distinct (concat (map op_name ops))"
    and "\<And>x. x \<in> set ops \<Longrightarrow> set (op_name x) \<inter> ends rn = {}"
  shows "\<exists>clnt' rn'. go_fold clnt_do ops (clnt, rn) = Inr (clnt', rn') \<and> clnt_ok clnt' rn' \<and>
    (known clnt', {s. reach clnt' rn' s}) = fold spec_do ops (known clnt, {s. reach clnt rn s}) \<and> servers rn' = servers rn \<and> objs rn' = objs rn"
  using assms
proof (induction ops arbitrary: clnt rn)
  case (Cons x ops)
  have "x = DoCall rnd server meth \<Longrightarrow> rnd \<notin> ends rn" for rnd server meth using Cons.prems(3) [of x] by simp
  then obtain clnt1 rn1 where s1: "clnt_do x (clnt, rn) = Inr (clnt1, rn1)" "clnt_ok clnt1 rn1"
    "{s. reach clnt1 rn1 s} = reach_after x (known clnt) {s. reach clnt rn s}" "known clnt1 = known clnt \<union> op_server x"
    "ends rn1 \<subseteq> ends rn \<union> set (op_name x)" "servers rn1 = servers rn" "objs rn1 = objs rn"
    using clnt_do_reach [OF Cons.prems(1), of x] by blast
  have "set (op_name y) \<inter> set (op_name x) = {}" if "y \<in> set ops" for y using that Cons.prems(2) by auto
  then have "set (op_name y) \<inter> ends rn1 = {}" if "y \<in> set ops" for y using that Cons.prems(3) [of y] s1(5) by auto
  then obtain clnt' rn' where "go_fold clnt_do ops (clnt1, rn1) = Inr (clnt', rn')" "clnt_ok clnt' rn'"
    "(known clnt', {s. reach clnt' rn' s}) = fold spec_do ops (known clnt1, {s. reach clnt1 rn1 s})" "servers rn' = servers rn1" "objs rn' = objs rn1"
    using Cons.IH [OF s1(2)] Cons.prems(2) by auto
  moreover have "spec_do x (known clnt, {s. reach clnt rn s}) = (known clnt1, {s. reach clnt1 rn1 s})" using s1(3,4) by (simp add: spec_do_def)
  ultimately show ?case using s1 by simp
qed simp

text \<open>The specification, from the comment on \<open>srvs\<close>: without a list a client can connect to all servers, with one exactly to the servers
  in it, so with an empty one to none; \<open>Disconnect\<close> takes a server away.\<close>

fun allow_after :: "clnt_op \<Rightarrow> string set \<Rightarrow> string set" where
  "allow_after (DoCall _ _ _) A = A"
| "allow_after DoConnectAll A = UNIV"
| "allow_after (DoConnectTo None) A = UNIV"
| "allow_after (DoConnectTo (Some to)) A = set to"
| "allow_after (DoDisconnect s) A = A - {s}"
| "allow_after DoDisconnectAll A = {}"

text \<open>The operations for which the code keeps to it: a list replaces another only if it names the servers the client has called
  and may reach (after \<open>DisconnectAll\<close> there is none), and a server is disconnected after it was called.\<close>

fun orderly :: "clnt_op list \<Rightarrow> string set \<Rightarrow> string set \<Rightarrow> bool" where
  "orderly [] K A \<longleftrightarrow> True"
| "orderly (x # ops) K A \<longleftrightarrow>
     (case x of DoConnectTo (Some to) \<Rightarrow> A \<inter> K \<subseteq> set to | DoDisconnect s \<Rightarrow> s \<in> A \<longrightarrow> s \<in> K | _ \<Rightarrow> True) \<and>
     orderly ops (K \<union> op_server x) (allow_after x A)"

lemma orderly_fold: "orderly ops K A \<Longrightarrow> snd (fold spec_do ops (K, A)) = fold allow_after ops A"
proof (induction ops arbitrary: K A)
  case (Cons x ops)
  have "reach_after x K A = allow_after x A"
    using Cons.prems by (cases x) (auto split: option.splits)
  then show ?case using Cons by (simp add: spec_do_def)
qed simp

text \<open>C34: A client refines its specification. After any orderly sequence of calls, connections and disconnections, a call uses the
  client's one end to the server, connected to that server, and the end is enabled exactly if the client may
  connect to the server. Orderly: a new list of servers names those the client has called and may still reach, and a server is
  disconnected after it was called. (Outside that \<open>ConnectTo\<close> leaves too much enabled: \<open>ConnectTo_keeps_old_servers\<close>.)\<close>

theorem client_access_refines_spec:
  fixes rn :: "('o, 'a, 'q) cnet"
  assumes "distinct (concat (map op_name ops))"
    and "\<And>x. x \<in> set ops \<Longrightarrow> set (op_name x) \<inter> ends rn = {}"
    and "orderly ops {} (case to of None \<Rightarrow> UNIV | Some ns \<Rightarrow> set ns)"
  shows "\<exists>clnt rn1. go_fold clnt_do ops (makeClntTo to, rn) = Inr (clnt, rn1) \<and>
    (\<forall>rnd server meth args. rnd \<notin> ends rn1 \<longrightarrow> (\<exists>req clnt' rn2. Clnt_Call rnd server meth args clnt rn1 = Inr (req, clnt', rn2) \<and>
       (\<exists>e. req = new_request e meth args \<and> map_of (clnt_ends clnt') server = Some e \<and>
          readEndnameInfo e rn2 = (server \<in> fold allow_after ops (case to of None \<Rightarrow> UNIV | Some ns \<Rightarrow> set ns), Some server,
            servers rn server, reliable rn2, longReordering rn2))))"
proof -
  let ?A = "case to of None \<Rightarrow> UNIV | Some ns \<Rightarrow> set ns"
  obtain K R where KR: "fold spec_do ops ({}, ?A) = (K, R)" by (rule prod.exhaust)
  then have RA: "R = fold allow_after ops ?A" using orderly_fold [OF assms(3)] by simp
  have ok: "clnt_ok (makeClntTo to) rn" by (simp add: clnt_ok_def makeClntTo_def)
  have start: "known (makeClntTo to) = {}" "{s. reach (makeClntTo to) rn s} = ?A"
    by (auto simp: known_def makeClntTo_def reach_def allowedL_def split: option.splits)
  obtain clnt rn1 where run: "go_fold clnt_do ops (makeClntTo to, rn) = Inr (clnt, rn1)" "clnt_ok clnt rn1"
      "(known clnt, {s. reach clnt rn1 s}) = (K, R)" "servers rn1 = servers rn"
    using clnt_run_refines [OF ok assms(1,2)] unfolding start KR by blast
  then have R: "reach clnt rn1 s \<longleftrightarrow> s \<in> R" for s by auto
  have "\<exists>req clnt' rn2. Clnt_Call rnd server meth args clnt rn1 = Inr (req, clnt', rn2) \<and>
       (\<exists>e. req = new_request e meth args \<and> map_of (clnt_ends clnt') server = Some e \<and>
          readEndnameInfo e rn2 = (server \<in> R, Some server, servers rn server, reliable rn2, longReordering rn2))"
    if fresh: "rnd \<notin> ends rn1" for rnd server meth and args :: 'a
  proof -
    obtain e clnt' rn2 where "Clnt_makeEnd rnd server clnt rn1 = Inr (e, clnt', rn2)" "map_of (clnt_ends clnt') server = Some e"
      "connections rn2 e = Some server" "enabled rn2 e \<longleftrightarrow> server \<in> R" "servers rn2 = servers rn"
      using makeEnd_reach [OF run(2) fresh, of server] R run(4) by auto
    then show ?thesis by (simp add: Clnt_Call_def readEndnameInfo_def)
  qed
  then show ?thesis using run(1) unfolding RA by blast
qed

theorem client_access_refines_spec_witness:
  "\<exists>clnt (rn1 :: (nat, nat, nat) cnet) req clnt' rn2 e.
     go_fold clnt_do [DoCall ''e1'' ''s1'' ''m'', DoDisconnectAll, DoConnectTo (Some [''s2''])] (makeClntTo None, MakeNetwork) = Inr (clnt, rn1) \<and>
     Clnt_Call ''e2'' ''s1'' ''S.Get'' 5 clnt rn1 = Inr (req, clnt', rn2) \<and> req = new_request e ''S.Get'' 5 \<and>
     map_of (clnt_ends clnt') ''s1'' = Some e \<and> readEndnameInfo e rn2 = (False, Some ''s1'', None, reliable rn2, longReordering rn2)"
proof -
  let ?ops = "[DoCall ''e1'' ''s1'' ''m'', DoDisconnectAll, DoConnectTo (Some [''s2''])]"
  let ?rn = "MakeNetwork :: (nat, nat, nat) cnet"
  have o: "orderly ?ops {} (case None of None \<Rightarrow> UNIV | Some ns \<Rightarrow> set ns)" by simp
  have f: "fold allow_after ?ops (case None of None \<Rightarrow> UNIV | Some ns \<Rightarrow> set ns) = {''s2''}" by simp
  from client_access_refines_spec [OF _ _ o, of ?rn]
  obtain clnt rn1 where r: "go_fold clnt_do ?ops (makeClntTo None, ?rn) = Inr (clnt, rn1)" and
    c: "\<And>rnd server meth args. rnd \<notin> ends rn1 \<Longrightarrow> \<exists>req clnt' rn2. Clnt_Call rnd server meth args clnt rn1 = Inr (req, clnt', rn2) \<and>
       (\<exists>e. req = new_request e meth args \<and> map_of (clnt_ends clnt') server = Some e \<and>
          readEndnameInfo e rn2 = (server \<in> {''s2''}, Some server, servers ?rn server, reliable rn2, longReordering rn2))"
    unfolding f by (fastforce simp: MakeNetwork_def)
  have "''e2'' \<notin> ends rn1"
    using r by (auto simp: makeClntTo_def Clnt_makeEnd_def MakeEnd_def MakeNetwork_def Clnt_DisconnectAll_def Clnt_ConnectTo_def Enable_def Connect_def allowedL_def)
  from c [OF this, of "''s1''" "''S.Get''" 5] obtain req clnt' rn2 e where "Clnt_Call ''e2'' ''s1'' ''S.Get'' 5 clnt rn1 = Inr (req, clnt', rn2)"
      "req = new_request e ''S.Get'' 5" "map_of (clnt_ends clnt') ''s1'' = Some e"
      "readEndnameInfo e rn2 = (''s1'' \<in> {''s2''}, Some ''s1'', servers ?rn ''s1'', reliable rn2, longReordering rn2)"
    by (elim exE conjE)
  moreover have "servers ?rn ''s1'' = None" by (simp add: MakeNetwork_def)
  ultimately show ?thesis using r by (intro exI [of _ clnt] exI [of _ rn1] exI [of _ req] exI [of _ clnt'] exI [of _ rn2] exI [of _ e]) simp
qed

text \<open>Switching a client from one server to another: the end to the first server stays enabled.\<close>

theorem ConnectTo_keeps_old_servers:
  assumes "clnt_ok clnt rn" and "s \<in> known clnt" and "reach clnt rn s" and "Clnt_ConnectTo to clnt rn = (clnt', rn')"
  shows "reach clnt' rn' s"
  using clnt_do_reach [OF assms(1), of "DoConnectTo to"] assms(2-4) by (cases to) auto

text \<open>After \<open>cleanup\<close> no client can be made.\<close>

lemma no_client_after_cleanup: "Clnts_cleanup cs rn = Inr (cs', rn') \<Longrightarrow> MakeClientTo to cs' = Inl NilDereference"
  by (auto simp: Clnts_cleanup_def MakeClientTo_def Let_def go_map_eq_Inr)

end
