(* ===== verification/Annotations.thy ===== *)
theory Annotations
  imports Prelude
begin

text \<open>
  The annotations of a test run (\<open>tester1/annotation.go\<close>), from which a visualizer draws what the
  tester did: points, intervals, and continuous annotations that last until the next one of the same
  tag, in particular the current faults of the servers.

  The two global variables are one state, \<open>tlog\<close>; \<open>finfo\<close> is nil until \<open>AnnotateTest\<close>. The clock
  is an argument of every operation that reads it, in nanoseconds. A map that Go iterates over comes
  with the order of the iteration as an argument. The environment variables and the result of opening
  the output file are arguments of \<open>cleanup\<close>; drawing is the visualizer's.
\<close>

section \<open>State\<close>

record PAnnotation =
  aTag :: string
  aStart :: int
  aEnd :: int
  aDescription :: string
  aDetails :: string
  aBackgroundColor :: string

record Continuous =
  c_start :: int
  c_desp :: string
  c_details :: string
  c_bgcolor :: string

record Annotation =
  annotations :: "PAnnotation list"
  continuous :: "string \<rightharpoonup> Continuous"
  finalized :: bool

record CheckerBegin =
  ck_ts :: int
  ck_details :: string

record FrameworkInfo =
  nservers :: nat
  fi_connected :: "bool list"
  fi_crashed :: "bool list"
  ckbegin :: CheckerBegin

record tlog =
  an :: Annotation
  finfo :: "FrameworkInfo option"

definition COLOR_INFO :: string where "COLOR_INFO = ''#FAFAFA''"

definition COLOR_NEUTRAL :: string where "COLOR_NEUTRAL = ''#FFECB3''"

definition COLOR_SUCCESS :: string where "COLOR_SUCCESS = ''#C8E6C9''"

definition COLOR_FAILURE :: string where "COLOR_FAILURE = ''#FFCDD2''"

definition COLOR_FAULT :: string where "COLOR_FAULT = ''#B3E5FC''"

definition COLOR_USER :: string where "COLOR_USER = ''#FFF176''"

definition TAG_CHECKER :: string where "TAG_CHECKER = ''$ Checker''"

definition TAG_PARTITION :: string where "TAG_PARTITION = ''$ Failure''"

definition TAG_INFO :: string where "TAG_INFO = ''$ Test Info''"

section \<open>The list of annotations\<close>

definition mkAnnotation :: Annotation where
  "mkAnnotation = \<lparr>annotations = [], continuous = Map.empty, finalized = False\<rparr>"

definition clear :: "Annotation \<Rightarrow> Annotation" where
  "clear a = a\<lparr>annotations := [], continuous := Map.empty, finalized := False\<rparr>"

definition isFinalized :: "Annotation \<Rightarrow> bool" where
  "isFinalized a = finalized a"

text \<open>The end of a point is the zero value of the field.\<close>

definition annotatePointColor :: "int \<Rightarrow> string \<Rightarrow> string \<Rightarrow> string \<Rightarrow> string \<Rightarrow> Annotation \<Rightarrow> Annotation" where
  "annotatePointColor t tag desp details bgcolor a = a\<lparr>annotations := annotations a @
     [\<lparr>aTag = tag, aStart = t, aEnd = 0, aDescription = desp, aDetails = details, aBackgroundColor = bgcolor\<rparr>]\<rparr>"

definition annotateIntervalColor :: "int \<Rightarrow> string \<Rightarrow> int \<Rightarrow> string \<Rightarrow> string \<Rightarrow> string \<Rightarrow> Annotation \<Rightarrow> Annotation" where
  "annotateIntervalColor t tag start desp details bgcolor a = a\<lparr>annotations := annotations a @
     [\<lparr>aTag = tag, aStart = start, aEnd = t, aDescription = desp, aDetails = details, aBackgroundColor = bgcolor\<rparr>]\<rparr>"

text \<open>A continuous annotation that ends.\<close>

definition concretize :: "string \<Rightarrow> int \<Rightarrow> Continuous \<Rightarrow> PAnnotation" where
  "concretize tag t cont = \<lparr>aTag = tag, aStart = c_start cont, aEnd = t, aDescription = c_desp cont,
     aDetails = c_details cont, aBackgroundColor = c_bgcolor cont\<rparr>"

definition annotateContinuousColor :: "int \<Rightarrow> string \<Rightarrow> string \<Rightarrow> string \<Rightarrow> string \<Rightarrow> Annotation \<Rightarrow> Annotation" where
  "annotateContinuousColor t tag desp details bgcolor a =
     (case continuous a tag of
        None \<Rightarrow> a\<lparr>continuous := (continuous a)(tag \<mapsto> \<lparr>c_start = t, c_desp = desp, c_details = details, c_bgcolor = bgcolor\<rparr>)\<rparr>
      | Some cont \<Rightarrow> a\<lparr>annotations := annotations a @ [concretize tag t cont],
          continuous := (continuous a)(tag \<mapsto> \<lparr>c_start = t + 1000, c_desp = desp, c_details = details, c_bgcolor = bgcolor\<rparr>)\<rparr>)"

text \<open>Reading a missing key yields the zero value, and the code goes on with it.\<close>

definition no_continuous :: Continuous where
  "no_continuous = \<lparr>c_start = 0, c_desp = [], c_details = [], c_bgcolor = []\<rparr>"

definition annotateContinuousEnd :: "int \<Rightarrow> string \<Rightarrow> Annotation \<Rightarrow> Annotation" where
  "annotateContinuousEnd t tag a =
     (let cont = (case continuous a tag of None \<Rightarrow> no_continuous | Some c \<Rightarrow> c)
      in a\<lparr>annotations := annotations a @ [concretize tag t cont], continuous := (continuous a)(tag := None)\<rparr>)"

definition finalize :: "string list \<Rightarrow> int \<Rightarrow> Annotation \<Rightarrow> PAnnotation list \<times> Annotation" where
  "finalize order t a =
     (annotations a @ map (\<lambda>tag. concretize tag t (the (continuous a tag))) order, a\<lparr>finalized := True\<rparr>)"

text \<open>The closing annotation.\<close>

definition aend :: "int \<Rightarrow> string \<Rightarrow> PAnnotation" where
  "aend t end_text = \<lparr>aTag = TAG_INFO, aStart = t, aEnd = t + 1000, aDescription = end_text, aDetails = end_text,
     aBackgroundColor = COLOR_INFO\<rparr>"

definition FinalizeAnnotations :: "string list \<Rightarrow> int \<Rightarrow> int \<Rightarrow> string \<Rightarrow> tlog \<Rightarrow> PAnnotation list \<times> tlog" where
  "FinalizeAnnotations order t t' end_text l =
     (let (xs, a) = finalize order t (an l) in (xs @ [aend t' end_text], l\<lparr>an := a\<rparr>))"

text \<open>\<open>cleanup\<close>: the annotations drawn, if any.\<close>

definition an_cleanup ::
  "string \<Rightarrow> bool \<Rightarrow> string list \<Rightarrow> int \<Rightarrow> int \<Rightarrow> bool \<Rightarrow> string \<Rightarrow> Annotation \<Rightarrow> PAnnotation list option \<times> Annotation" where
  "an_cleanup vis_enable file_opened order t t' failed end_text a =
     (if vis_enable = ''never'' \<or> (\<not> failed \<and> vis_enable \<noteq> ''always'') \<or> isFinalized a then (None, clear a)
      else let (xs, a') = finalize order t a in
        if length xs = 0 then (None, a')
        else if \<not> file_opened then (None, a')
        else (Some (xs @ [aend t' end_text]), a'))"

section \<open>The public interface\<close>

definition on_an :: "(Annotation \<Rightarrow> Annotation) \<Rightarrow> tlog \<Rightarrow> tlog" where
  "on_an f l = l\<lparr>an := f (an l)\<rparr>"

definition AnnotatePointColor :: "int \<Rightarrow> string \<Rightarrow> string \<Rightarrow> string \<Rightarrow> string \<Rightarrow> tlog \<Rightarrow> tlog" where
  "AnnotatePointColor t tag desp details bgcolor = on_an (annotatePointColor t tag desp details bgcolor)"

definition AnnotateIntervalColor :: "int \<Rightarrow> string \<Rightarrow> int \<Rightarrow> string \<Rightarrow> string \<Rightarrow> string \<Rightarrow> tlog \<Rightarrow> tlog" where
  "AnnotateIntervalColor t tag start desp details bgcolor = on_an (annotateIntervalColor t tag start desp details bgcolor)"

definition AnnotateContinuousColor :: "int \<Rightarrow> string \<Rightarrow> string \<Rightarrow> string \<Rightarrow> string \<Rightarrow> tlog \<Rightarrow> tlog" where
  "AnnotateContinuousColor t tag desp details bgcolor = on_an (annotateContinuousColor t tag desp details bgcolor)"

definition AnnotateContinuousEnd :: "int \<Rightarrow> string \<Rightarrow> tlog \<Rightarrow> tlog" where
  "AnnotateContinuousEnd t tag = on_an (annotateContinuousEnd t tag)"

definition Annotate :: "int \<Rightarrow> string \<Rightarrow> string \<Rightarrow> string \<Rightarrow> tlog \<Rightarrow> tlog" where
  "Annotate t tag desp details = on_an (annotatePointColor t tag desp details COLOR_USER)"

definition AnnotateInterval :: "int \<Rightarrow> string \<Rightarrow> int \<Rightarrow> string \<Rightarrow> string \<Rightarrow> tlog \<Rightarrow> tlog" where
  "AnnotateInterval t tag start desp details = on_an (annotateIntervalColor t tag start desp details COLOR_USER)"

definition AnnotateContinuous :: "int \<Rightarrow> string \<Rightarrow> string \<Rightarrow> string \<Rightarrow> tlog \<Rightarrow> tlog" where
  "AnnotateContinuous t tag desp details = on_an (annotateContinuousColor t tag desp details COLOR_USER)"

definition AnnotateInfo :: "int \<Rightarrow> string \<Rightarrow> string \<Rightarrow> tlog \<Rightarrow> tlog" where
  "AnnotateInfo t desp details = AnnotatePointColor t TAG_INFO desp details COLOR_INFO"

definition AnnotateInfoInterval :: "int \<Rightarrow> int \<Rightarrow> string \<Rightarrow> string \<Rightarrow> tlog \<Rightarrow> tlog" where
  "AnnotateInfoInterval t start desp details = AnnotateIntervalColor t TAG_INFO start desp details COLOR_INFO"

definition mkFrameworkInfo :: "nat \<Rightarrow> FrameworkInfo" where
  "mkFrameworkInfo n = \<lparr>nservers = n, fi_connected = replicate n True, fi_crashed = replicate n False,
     ckbegin = \<lparr>ck_ts = 0, ck_details = []\<rparr>\<rparr>"

definition AnnotateTest :: "int \<Rightarrow> string \<Rightarrow> nat \<Rightarrow> tlog \<Rightarrow> tlog" where
  "AnnotateTest t desp n l =
     (let details = desp @ '' ('' @ Itoa (int n) @ '' servers)'';
          l1 = on_an clear (l\<lparr>finfo := Some (mkFrameworkInfo n)\<rparr>)
      in AnnotateInfo t details details l1)"

text \<open>Operations on the framework state dereference it.\<close>

definition with_finfo :: "(FrameworkInfo \<Rightarrow> tlog \<Rightarrow> tlog go) \<Rightarrow> tlog \<Rightarrow> tlog go" where
  "with_finfo f l = (case finfo l of None \<Rightarrow> Inl NilDereference | Some fi \<Rightarrow> f fi l)"

definition AnnotateCheckerBegin :: "int \<Rightarrow> string \<Rightarrow> tlog \<Rightarrow> tlog go" where
  "AnnotateCheckerBegin t details =
     with_finfo (\<lambda>fi l. Inr (l\<lparr>finfo := Some (fi\<lparr>ckbegin := \<lparr>ck_ts = t, ck_details = details\<rparr>\<rparr>)\<rparr>))"

text \<open>The reset at the end assigns to a local copy and has no effect.\<close>

definition AnnotateCheckerEnd :: "int \<Rightarrow> string \<Rightarrow> string \<Rightarrow> string \<Rightarrow> tlog \<Rightarrow> tlog go" where
  "AnnotateCheckerEnd t desp details color =
     with_finfo (\<lambda>fi l. let ck = ckbegin fi in
       if ck_ts ck = 0 then Inr (AnnotatePointColor t TAG_CHECKER desp details color l)
       else Inr (AnnotateIntervalColor t TAG_CHECKER (ck_ts ck) desp (ck_details ck @ '': '' @ details) color l))"

definition AnnotateCheckerSuccess :: "int \<Rightarrow> string \<Rightarrow> string \<Rightarrow> tlog \<Rightarrow> tlog go" where
  "AnnotateCheckerSuccess t desp details = AnnotateCheckerEnd t desp details COLOR_SUCCESS"

definition AnnotateCheckerFailure :: "int \<Rightarrow> string \<Rightarrow> string \<Rightarrow> tlog \<Rightarrow> tlog go" where
  "AnnotateCheckerFailure t desp details = AnnotateCheckerEnd t desp details COLOR_FAILURE"

definition AnnotateCheckerNeutral :: "int \<Rightarrow> string \<Rightarrow> string \<Rightarrow> tlog \<Rightarrow> tlog go" where
  "AnnotateCheckerNeutral t desp details = AnnotateCheckerEnd t desp details COLOR_NEUTRAL"

definition SetAnnotationFinalized :: "tlog \<Rightarrow> tlog" where
  "SetAnnotationFinalized = on_an (\<lambda>a. a\<lparr>finalized := True\<rparr>)"

definition GetAnnotationFinalized :: "tlog \<Rightarrow> bool" where
  "GetAnnotationFinalized l = isFinalized (an l)"

definition AnnotateCheckerFailureBeforeExit ::
  "string \<Rightarrow> bool \<Rightarrow> string list \<Rightarrow> int \<Rightarrow> int \<Rightarrow> int \<Rightarrow> string \<Rightarrow> string \<Rightarrow> tlog \<Rightarrow> (PAnnotation list option \<times> tlog) go" where
  "AnnotateCheckerFailureBeforeExit vis_enable file_opened order t0 t t' desp details l =
     go_map (\<lambda>l1. let (drawn, a) = an_cleanup vis_enable file_opened order t t' True ''test failed'' (an l1) in (drawn, l1\<lparr>an := a\<rparr>))
       (AnnotateCheckerFailure t0 desp details l)"

section \<open>Faults\<close>

text \<open>The verb \<open>%v\<close> of \<open>fmt\<close> on a slice of ints.\<close>

fun join_ints :: "int list \<Rightarrow> string" where
  "join_ints [] = []"
| "join_ints [i] = Itoa i"
| "join_ints (i # is) = Itoa i @ '' '' @ join_ints is"

definition show_ints :: "int list \<Rightarrow> string" where
  "show_ints is = ''['' @ join_ints is @ '']''"

text \<open>The loop of \<open>annotateFault\<close> over the connected flags: the connected servers, the crashed ones,
  and the text so far.\<close>

definition fault_loop :: "FrameworkInfo \<Rightarrow> (int list \<times> int list \<times> string) go" where
  "fault_loop fi =
     go_fold (\<lambda>(id, connected) (conn, crashes, text).
         go_map (\<lambda>crashed. if crashed then (conn, crashes @ [id], text)
           else if connected then (conn @ [id], crashes, text)
           else (conn, crashes, text @ ''['' @ Itoa id @ ''] ''))
           (go_index (fi_crashed fi) id))
       (zip (map int [0..<length (fi_connected fi)]) (fi_connected fi)) ([], [], ''partition = '')"

definition annotateFault :: "int \<Rightarrow> FrameworkInfo \<Rightarrow> tlog \<Rightarrow> tlog go" where
  "annotateFault t fi l =
     (if replicate (nservers fi) True = fi_connected fi \<and> replicate (nservers fi) False = fi_crashed fi
      then Inr (AnnotateContinuousEnd t TAG_PARTITION l)
      else go_map (\<lambda>(conn, crashes, b).
          let b1 = (if length conn > 0 then b @ show_ints conn else b);
              text = (if length crashes > 0 then b1 @ '' / crash = '' @ show_ints crashes else b1)
          in AnnotateContinuousColor t TAG_PARTITION text text COLOR_FAULT l)
        (fault_loop fi))"

text \<open>\<open>copy\<close> copies as many elements as both slices have.\<close>

definition go_copy :: "'a list \<Rightarrow> 'a list \<Rightarrow> 'a list" where
  "go_copy dst src = take (length dst) src @ drop (length src) dst"

definition AnnotateConnection :: "int \<Rightarrow> bool list \<Rightarrow> tlog \<Rightarrow> tlog go" where
  "AnnotateConnection t connection =
     with_finfo (\<lambda>fi l. if fi_connected fi = connection then Inr l
       else let fi' = fi\<lparr>fi_connected := go_copy (fi_connected fi) connection\<rparr> in annotateFault t fi' (l\<lparr>finfo := Some fi'\<rparr>))"

definition AnnotateTwoPartitions :: "int \<Rightarrow> int list \<Rightarrow> int list \<Rightarrow> tlog \<Rightarrow> tlog" where
  "AnnotateTwoPartitions t p1 p2 l =
     (let text = ''partition = '' @ show_ints p1 @ '' '' @ show_ints p2
      in AnnotateContinuousColor t TAG_PARTITION text text COLOR_FAULT l)"

definition AnnotateClearFailure :: "int \<Rightarrow> tlog \<Rightarrow> tlog go" where
  "AnnotateClearFailure t =
     with_finfo (\<lambda>fi l. Inr (AnnotateContinuousEnd t TAG_PARTITION
       (l\<lparr>finfo := Some (fi\<lparr>fi_crashed := replicate (length (fi_crashed fi)) False,
                           fi_connected := replicate (length (fi_connected fi)) True\<rparr>)\<rparr>)))"

text \<open>The common loop of \<open>AnnotateShutdown\<close> and \<open>AnnotateRestart\<close>: set the flags to \<open>v\<close>, and tell
  whether one changed.\<close>

definition set_crashed :: "bool \<Rightarrow> int list \<Rightarrow> bool list \<Rightarrow> (bool list \<times> bool) go" where
  "set_crashed v ids crashed =
     go_fold (\<lambda>id (cr, changed). go_bind (go_index cr id) (\<lambda>c.
         go_map (\<lambda>cr'. (cr', if c \<noteq> v then True else changed)) (go_set cr id v))) ids (crashed, False)"

definition AnnotateShutdown :: "int \<Rightarrow> int list \<Rightarrow> tlog \<Rightarrow> tlog go" where
  "AnnotateShutdown t ids =
     with_finfo (\<lambda>fi l. go_bind (set_crashed True ids (fi_crashed fi)) (\<lambda>(cr, changed).
       let fi' = fi\<lparr>fi_crashed := cr\<rparr>; l' = l\<lparr>finfo := Some fi'\<rparr> in
       if \<not> changed then Inr l' else annotateFault t fi' l'))"

definition AnnotateShutdownAll :: "int \<Rightarrow> tlog \<Rightarrow> tlog go" where
  "AnnotateShutdownAll t = with_finfo (\<lambda>fi. AnnotateShutdown t (map int [0..<nservers fi]))"

definition AnnotateRestart :: "int \<Rightarrow> int list \<Rightarrow> tlog \<Rightarrow> tlog go" where
  "AnnotateRestart t ids =
     with_finfo (\<lambda>fi l. go_bind (set_crashed False ids (fi_crashed fi)) (\<lambda>(cr, changed).
       let fi' = fi\<lparr>fi_crashed := cr\<rparr>; l' = l\<lparr>finfo := Some fi'\<rparr> in
       if \<not> changed then Inr l' else annotateFault t fi' l'))"

definition AnnotateRestartAll :: "int \<Rightarrow> tlog \<Rightarrow> tlog go" where
  "AnnotateRestartAll t = with_finfo (\<lambda>fi. AnnotateRestart t (map int [0..<nservers fi]))"

section \<open>What the fault text says\<close>

definition faulty :: "FrameworkInfo \<Rightarrow> bool" where
  "faulty fi \<longleftrightarrow> False \<in> set (fi_connected fi) \<or> True \<in> set (fi_crashed fi)"

definition live_in :: "FrameworkInfo \<Rightarrow> nat list" where
  "live_in fi = filter (\<lambda>i. fi_connected fi ! i \<and> \<not> fi_crashed fi ! i) [0..<nservers fi]"

definition live_out :: "FrameworkInfo \<Rightarrow> nat list" where
  "live_out fi = filter (\<lambda>i. \<not> fi_connected fi ! i \<and> \<not> fi_crashed fi ! i) [0..<nservers fi]"

definition down :: "FrameworkInfo \<Rightarrow> nat list" where
  "down fi = filter (\<lambda>i. fi_crashed fi ! i) [0..<nservers fi]"

text \<open>Each live disconnected server alone, the live connected servers together, then the crashed.\<close>

definition fault_text :: "FrameworkInfo \<Rightarrow> string" where
  "fault_text fi = ''partition = '' @ concat (map (\<lambda>i. ''['' @ Itoa (int i) @ ''] '') (live_out fi)) @
     (if live_in fi = [] then [] else show_ints (map int (live_in fi))) @
     (if down fi = [] then [] else '' / crash = '' @ show_ints (map int (down fi)))"

definition fi_ok :: "FrameworkInfo \<Rightarrow> bool" where
  "fi_ok fi \<longleftrightarrow> length (fi_connected fi) = nservers fi \<and> length (fi_crashed fi) = nservers fi"

lemma fault_loop_prefix:
  assumes "length (fi_crashed fi) = n" and "length cs = n" and "k \<le> n"
  shows "go_fold (\<lambda>(id, connected) (conn, crashes, text).
         go_map (\<lambda>crashed. if crashed then (conn, crashes @ [id], text)
           else if connected then (conn @ [id], crashes, text)
           else (conn, crashes, text @ ''['' @ Itoa id @ ''] ''))
           (go_index (fi_crashed fi) id)) (zip (map int [0..<k]) (take k cs)) ([], [], s) =
    Inr (map int (filter (\<lambda>i. cs ! i \<and> \<not> fi_crashed fi ! i) [0..<k]), map int (filter (\<lambda>i. fi_crashed fi ! i) [0..<k]),
      s @ concat (map (\<lambda>i. ''['' @ Itoa (int i) @ ''] '') (filter (\<lambda>i. \<not> cs ! i \<and> \<not> fi_crashed fi ! i) [0..<k])))"
  using assms(3)
proof (induction k)
  case (Suc k)
  then have k: "k < n" by simp
  have "zip (map int [0..<Suc k]) (take (Suc k) cs) = zip (map int [0..<k]) (take k cs) @ [(int k, cs ! k)]"
    using k assms(2) by (simp add: take_Suc_conv_app_nth)
  then show ?case using Suc.IH k assms by (simp add: go_fold_append)
qed simp

lemma fault_loop_eq:
  assumes "fi_ok fi"
  shows "fault_loop fi = Inr (map int (live_in fi), map int (down fi),
    ''partition = '' @ concat (map (\<lambda>i. ''['' @ Itoa (int i) @ ''] '') (live_out fi)))"
  using assms fault_loop_prefix [of fi "nservers fi" "fi_connected fi" "nservers fi" "''partition = ''"]
  by (simp add: fault_loop_def fi_ok_def live_in_def live_out_def down_def)

lemma replicate_bool_eq: "replicate (length bs) v = bs \<longleftrightarrow> (\<not> v) \<notin> set bs"
  by (induction bs) auto

lemma not_faulty_iff:
  assumes "fi_ok fi"
  shows "replicate (nservers fi) True = fi_connected fi \<and> replicate (nservers fi) False = fi_crashed fi \<longleftrightarrow> \<not> faulty fi"
  using assms replicate_bool_eq [of "fi_connected fi" True] replicate_bool_eq [of "fi_crashed fi" False]
  by (simp add: fi_ok_def faulty_def)

lemma annotateFault_eq:
  assumes "fi_ok fi"
  shows "annotateFault t fi l = Inr (if faulty fi then AnnotateContinuousColor t TAG_PARTITION (fault_text fi) (fault_text fi) COLOR_FAULT l
    else AnnotateContinuousEnd t TAG_PARTITION l)"
  unfolding annotateFault_def not_faulty_iff [OF assms]
  using fault_loop_eq [OF assms] by (simp add: fault_text_def Let_def)

section \<open>A test run\<close>

datatype an_op =
    OpPoint string string string string
  | OpInterval string int string string string
  | OpContinuous string string string string
  | OpContinuousEnd string
  | OpTest string nat
  | OpCheckerBegin string
  | OpCheckerEnd string string string
  | OpConnection "bool list"
  | OpTwoPartitions "int list" "int list"
  | OpClearFailure
  | OpShutdown "int list"
  | OpShutdownAll
  | OpRestart "int list"
  | OpRestartAll
  | OpFinalized
  | OpFinalizeAnnotations "string list" string
  | OpCleanup string bool "string list" bool string
  | OpFailureBeforeExit string bool "string list" string string

fun an_do :: "int \<Rightarrow> an_op \<Rightarrow> tlog \<Rightarrow> tlog go" where
  "an_do t (OpPoint tag desp details color) l = Inr (AnnotatePointColor t tag desp details color l)"
| "an_do t (OpInterval tag start desp details color) l = Inr (AnnotateIntervalColor t tag start desp details color l)"
| "an_do t (OpContinuous tag desp details color) l = Inr (AnnotateContinuousColor t tag desp details color l)"
| "an_do t (OpContinuousEnd tag) l = Inr (AnnotateContinuousEnd t tag l)"
| "an_do t (OpTest desp n) l = Inr (AnnotateTest t desp n l)"
| "an_do t (OpCheckerBegin details) l = AnnotateCheckerBegin t details l"
| "an_do t (OpCheckerEnd desp details color) l = AnnotateCheckerEnd t desp details color l"
| "an_do t (OpConnection cs) l = AnnotateConnection t cs l"
| "an_do t (OpTwoPartitions p1 p2) l = Inr (AnnotateTwoPartitions t p1 p2 l)"
| "an_do t OpClearFailure l = AnnotateClearFailure t l"
| "an_do t (OpShutdown ids) l = AnnotateShutdown t ids l"
| "an_do t OpShutdownAll l = AnnotateShutdownAll t l"
| "an_do t (OpRestart ids) l = AnnotateRestart t ids l"
| "an_do t OpRestartAll l = AnnotateRestartAll t l"
| "an_do t OpFinalized l = Inr (SetAnnotationFinalized l)"
| "an_do t (OpFinalizeAnnotations order e) l = Inr (snd (FinalizeAnnotations order t t e l))"
| "an_do t (OpCleanup vis opened order failed e) l = Inr (on_an (\<lambda>a. snd (an_cleanup vis opened order t t failed e a)) l)"
| "an_do t (OpFailureBeforeExit vis opened order desp details) l =
     go_map snd (AnnotateCheckerFailureBeforeExit vis opened order t t t desp details l)"

text \<open>The tag of an operation whose caller chooses one.\<close>

fun user_tag :: "an_op \<Rightarrow> string option" where
  "user_tag (OpPoint tag _ _ _) = Some tag"
| "user_tag (OpInterval tag _ _ _ _) = Some tag"
| "user_tag (OpContinuous tag _ _ _) = Some tag"
| "user_tag (OpContinuousEnd tag) = Some tag"
| "user_tag _ = None"

text \<open>\<open>AnnotateTwoPartitions\<close> puts another text in the place of the faults, and \<open>cleanup\<close> may drop the annotation; a new test and
  \<open>AnnotateClearFailure\<close> set faults and annotation anew.\<close>

fun blurs :: "an_op \<Rightarrow> bool" where
  "blurs (OpTwoPartitions _ _) = True"
| "blurs (OpCleanup _ _ _ _ _) = True"
| "blurs (OpFailureBeforeExit _ _ _ _ _) = True"
| "blurs _ = False"

fun renews :: "an_op \<Rightarrow> bool" where
  "renews (OpTest _ _) = True"
| "renews OpClearFailure = True"
| "renews _ = False"

text \<open>Runs with a clock that does not go back, in which nobody else uses the tester's fault tag. The flag tells whether two
  partitions were annotated or a test was cleaned up since the faults were last set anew.\<close>

inductive an_run :: "bool \<Rightarrow> int \<Rightarrow> tlog \<Rightarrow> bool" where
  an_init: "an_run False 0 \<lparr>an = mkAnnotation, finfo = None\<rparr>"
| an_step: "an_run blurred t l \<Longrightarrow> t \<le> t' \<Longrightarrow> user_tag x \<noteq> Some TAG_PARTITION \<Longrightarrow> an_do t' x l = Inr l' \<Longrightarrow>
    an_run (blurs x \<or> blurred \<and> \<not> renews x) t' l'"

inductive_cases an_runE: "an_run blurred t l"

text \<open>The current fault annotation.\<close>

definition shown_fault :: "tlog \<Rightarrow> string option" where
  "shown_fault l = map_option c_desp (continuous (an l) TAG_PARTITION)"

definition fault_inv :: "bool \<Rightarrow> tlog \<Rightarrow> bool" where
  "fault_inv two l \<longleftrightarrow> (case finfo l of
     None \<Rightarrow> two \<or> shown_fault l = None
   | Some fi \<Rightarrow> fi_ok fi \<and> (two \<or> shown_fault l = (if faulty fi then Some (fault_text fi) else None)))"

lemma shown_simps [simp]:
  "shown_fault (AnnotatePointColor t tag desp details c l) = shown_fault l"
  "shown_fault (AnnotateIntervalColor t tag start desp details c l) = shown_fault l"
  "shown_fault (AnnotateContinuousColor t tag desp details c l) = (if tag = TAG_PARTITION then Some desp else shown_fault l)"
  "shown_fault (AnnotateContinuousEnd t tag l) = (if tag = TAG_PARTITION then None else shown_fault l)"
  "shown_fault (l\<lparr>finfo := fo\<rparr>) = shown_fault l" "shown_fault (AnnotateTest t desp n l) = None"
  "shown_fault (SetAnnotationFinalized l) = shown_fault l"
  by (auto simp: shown_fault_def AnnotatePointColor_def AnnotateIntervalColor_def AnnotateContinuousColor_def AnnotateContinuousEnd_def
      AnnotateTest_def AnnotateInfo_def SetAnnotationFinalized_def on_an_def annotatePointColor_def annotateIntervalColor_def
      annotateContinuousColor_def annotateContinuousEnd_def clear_def Let_def split: option.splits)

lemma finfo_simps [simp]:
  "finfo (AnnotatePointColor t tag desp details c l) = finfo l"
  "finfo (AnnotateIntervalColor t tag start desp details c l) = finfo l"
  "finfo (AnnotateContinuousColor t tag desp details c l) = finfo l"
  "finfo (AnnotateContinuousEnd t tag l) = finfo l"
  "finfo (AnnotateTest t desp n l) = Some (mkFrameworkInfo n)"
  "finfo (SetAnnotationFinalized l) = finfo l"
  by (auto simp: AnnotatePointColor_def AnnotateIntervalColor_def AnnotateContinuousColor_def AnnotateContinuousEnd_def
      AnnotateTest_def AnnotateInfo_def SetAnnotationFinalized_def on_an_def Let_def)

lemma finalize_simps [simp]:
  "finfo (on_an f l) = finfo l" "finfo (snd (FinalizeAnnotations order t t' e l)) = finfo l"
  "shown_fault (snd (FinalizeAnnotations order t t' e l)) = shown_fault l"
  by (simp_all add: on_an_def FinalizeAnnotations_def finalize_def shown_fault_def)

lemma failure_exit_finfo:
  "AnnotateCheckerFailureBeforeExit vis opened order t0 t t' desp details l = Inr (drawn, l') \<Longrightarrow> finfo l' = finfo l \<and> finfo l \<noteq> None"
  by (auto simp: AnnotateCheckerFailureBeforeExit_def AnnotateCheckerFailure_def AnnotateCheckerEnd_def with_finfo_def go_map_eq_Inr Let_def
      split_beta split: option.splits if_splits)

text \<open>After a change of the flags and \<open>annotateFault\<close>, the annotation is right.\<close>

lemma annotateFault_inv:
  assumes "fi_ok fi" and "annotateFault t fi (l\<lparr>finfo := Some fi\<rparr>) = Inr l'"
  shows "fault_inv two l'"
  using assms by (auto simp: annotateFault_eq fault_inv_def)

lemma set_crashed_props:
  assumes "set_crashed v ids cr = Inr (cr', changed)"
  shows "length cr' = length cr" and "\<not> changed \<Longrightarrow> cr' = cr"
proof -
  have gen: "go_fold (\<lambda>id (cr, changed). go_bind (go_index cr id) (\<lambda>c. go_map (\<lambda>cr'. (cr', if c \<noteq> v then True else changed)) (go_set cr id v))) ids (cr0, ch0)
      = Inr (cr', changed) \<Longrightarrow> length cr' = length cr0 \<and> (ch0 \<longrightarrow> changed) \<and> (\<not> changed \<longrightarrow> cr' = cr0)" for cr0 ch0
  proof (induction ids arbitrary: cr0 ch0)
    case (Cons i ids)
    obtain c cr1 where i: "go_index cr0 i = Inr c" "go_set cr0 i v = Inr cr1" and
      rest: "go_fold (\<lambda>id (cr, changed). go_bind (go_index cr id) (\<lambda>c. go_map (\<lambda>cr'. (cr', if c \<noteq> v then True else changed)) (go_set cr id v))) ids
        (cr1, if c \<noteq> v then True else ch0) = Inr (cr', changed)"
      using Cons.prems by (auto simp: go_bind_eq_Inr go_map_eq_Inr)
    have c: "c = cr0 ! nat i" "cr1 = cr0[nat i := v]" using i by (simp_all add: go_index_def go_set_def split: if_splits)
    have len: "length cr1 = length cr0" using c(2) by simp
    have same: "cr1 = cr0" if "c = v" unfolding c(2) that [symmetric] c(1) by (rule list_update_id)
    show ?case using Cons.IH [OF rest] len same by (auto split: if_splits)
  qed auto
  show "length cr' = length cr" "\<not> changed \<Longrightarrow> cr' = cr" using gen [of cr False] assms by (auto simp: set_crashed_def)
qed

lemma crash_change_inv:
  assumes inv: "fault_inv two l" and fi: "finfo l = Some fi" and s: "set_crashed v ids (fi_crashed fi) = Inr (cr, changed)"
    and l': "(if \<not> changed then Inr (l\<lparr>finfo := Some (fi\<lparr>fi_crashed := cr\<rparr>)\<rparr>)
       else annotateFault t (fi\<lparr>fi_crashed := cr\<rparr>) (l\<lparr>finfo := Some (fi\<lparr>fi_crashed := cr\<rparr>)\<rparr>)) = Inr l'"
  shows "fault_inv two l'"
proof -
  have ok: "fi_ok (fi\<lparr>fi_crashed := cr\<rparr>)" using inv fi set_crashed_props(1) [OF s] by (simp add: fault_inv_def fi_ok_def)
  show ?thesis
  proof (cases changed)
    case True
    then show ?thesis using annotateFault_inv [OF ok] l' by simp
  next
    case False
    then have "fi\<lparr>fi_crashed := cr\<rparr> = fi" using set_crashed_props(2) [OF s] by simp
    then have "l' = l\<lparr>finfo := Some fi\<rparr>" using l' False by simp
    then show ?thesis using inv fi by (simp add: fault_inv_def)
  qed
qed

lemma an_do_inv:
  assumes inv: "fault_inv two l" and tag: "user_tag x \<noteq> Some TAG_PARTITION" and x: "an_do t x l = Inr l'"
  shows "fault_inv (blurs x \<or> two \<and> \<not> renews x) l'"
proof (cases "finfo l")
  case None
  then show ?thesis using assms
    by (cases x) (auto simp: fault_inv_def with_finfo_def AnnotateCheckerBegin_def AnnotateCheckerEnd_def AnnotateConnection_def AnnotateClearFailure_def
        AnnotateShutdown_def AnnotateShutdownAll_def AnnotateRestart_def AnnotateRestartAll_def AnnotateTwoPartitions_def
        fi_ok_def faulty_def mkFrameworkInfo_def Let_def go_map_eq_Inr dest!: failure_exit_finfo)
next
  case (Some fi)
  have ok: "fi_ok fi" using inv Some by (simp add: fault_inv_def)
  have crash: "fault_inv two l'" if "go_bind (set_crashed v ids (fi_crashed fi)) (\<lambda>(cr, changed).
       let fi' = fi\<lparr>fi_crashed := cr\<rparr>; l' = l\<lparr>finfo := Some fi'\<rparr> in if \<not> changed then Inr l' else annotateFault t fi' l') = Inr l'" for v ids
  proof -
    from that obtain cr changed where "set_crashed v ids (fi_crashed fi) = Inr (cr, changed)"
        "(if \<not> changed then Inr (l\<lparr>finfo := Some (fi\<lparr>fi_crashed := cr\<rparr>)\<rparr>)
         else annotateFault t (fi\<lparr>fi_crashed := cr\<rparr>) (l\<lparr>finfo := Some (fi\<lparr>fi_crashed := cr\<rparr>)\<rparr>)) = Inr l'"
      unfolding Let_def go_bind_eq_Inr by auto
    then show ?thesis by (rule crash_change_inv [OF inv Some])
  qed
  show ?thesis
  proof (cases x)
    case (OpConnection cs)
    have "fi_ok (fi\<lparr>fi_connected := go_copy (fi_connected fi) cs\<rparr>)" using ok by (simp add: fi_ok_def go_copy_def)
    then show ?thesis using OpConnection x Some inv annotateFault_inv [of "fi\<lparr>fi_connected := go_copy (fi_connected fi) cs\<rparr>" t l l']
      by (auto simp: AnnotateConnection_def with_finfo_def Let_def split: if_splits)
  next
    case OpClearFailure
    then show ?thesis using x Some ok
      by (auto simp: AnnotateClearFailure_def with_finfo_def fault_inv_def fi_ok_def faulty_def)
  next
    case (OpShutdown ids)
    then show ?thesis using x Some crash [of True ids] by (simp add: AnnotateShutdown_def with_finfo_def)
  next
    case OpShutdownAll
    then show ?thesis using x Some crash [of True "map int [0..<nservers fi]"] by (simp add: AnnotateShutdownAll_def AnnotateShutdown_def with_finfo_def)
  next
    case (OpRestart ids)
    then show ?thesis using x Some crash [of False ids] by (simp add: AnnotateRestart_def with_finfo_def)
  next
    case OpRestartAll
    then show ?thesis using x Some crash [of False "map int [0..<nservers fi]"] by (simp add: AnnotateRestartAll_def AnnotateRestart_def with_finfo_def)
  next
    case (OpCheckerBegin d)
    then show ?thesis using x Some inv by (auto simp: AnnotateCheckerBegin_def with_finfo_def fault_inv_def fi_ok_def faulty_def fault_text_def
        live_in_def live_out_def down_def)
  next
    case (OpTest desp n)
    then show ?thesis using x by (auto simp: fault_inv_def fi_ok_def faulty_def mkFrameworkInfo_def)
  qed (use x Some inv tag in \<open>auto simp: fault_inv_def AnnotateCheckerEnd_def AnnotateTwoPartitions_def with_finfo_def Let_def go_map_eq_Inr
      split: if_splits dest!: failure_exit_finfo\<close>)
qed

lemma an_run_fault_inv: "an_run two t l \<Longrightarrow> fault_inv two l"
proof (induction rule: an_run.induct)
  case an_init
  show ?case by (simp add: fault_inv_def shown_fault_def mkAnnotation_def)
qed (rule an_do_inv)

text \<open>C35: The fault annotation is that of the current state. From the begin of a test, or from the last \<open>AnnotateClearFailure\<close>, until
  two partitions are annotated, a failure before the exit is annotated or the test is cleaned up, and as long as no caller uses the tester's fault tag: while servers are
  disconnected or crashed the annotation names exactly them, and otherwise there is none.\<close>

theorem fault_annotation_is_current:
  assumes "an_run False t l" and "finfo l = Some fi"
  shows "shown_fault l = (if faulty fi then Some (fault_text fi) else None) \<and>
    length (fi_connected fi) = nservers fi \<and> length (fi_crashed fi) = nservers fi"
  using an_run_fault_inv [OF assms(1)] assms(2) by (auto simp: fault_inv_def fi_ok_def)

section \<open>Fault intervals\<close>

definition fault_list :: "Annotation \<Rightarrow> PAnnotation list" where
  "fault_list a = filter (\<lambda>x. aTag x = TAG_PARTITION) (annotations a)"

text \<open>An interval starts no earlier than the ones before it ended, unless it was ended without having
  begun and so starts at 0.\<close>

definition follows :: "PAnnotation \<Rightarrow> PAnnotation \<Rightarrow> bool" where
  "follows x y \<longleftrightarrow> (aStart y = 0 \<and> aDescription y = [] \<or> aEnd x \<le> aStart y)"

definition ordered :: "int \<Rightarrow> Annotation \<Rightarrow> bool" where
  "ordered t a \<longleftrightarrow> sorted_wrt follows (fault_list a) \<and> (\<forall>x \<in> set (fault_list a). aEnd x \<le> t) \<and>
     (\<forall>c. continuous a TAG_PARTITION = Some c \<longrightarrow> (\<forall>x \<in> set (fault_list a). aEnd x \<le> c_start c))"

lemma ordered_mono: "ordered t a \<Longrightarrow> t \<le> t' \<Longrightarrow> ordered t' a"
  by (fastforce simp: ordered_def)

lemma ordered_continuous: "ordered t a \<Longrightarrow> ordered t (annotateContinuousColor t tag desp details c a)"
  by (cases "continuous a tag"; cases "tag = TAG_PARTITION")
     (fastforce simp: ordered_def fault_list_def annotateContinuousColor_def concretize_def sorted_wrt_append follows_def)+

lemma ordered_end: "ordered t a \<Longrightarrow> ordered t (annotateContinuousEnd t tag a)"
  by (cases "continuous a tag"; cases "tag = TAG_PARTITION")
     (fastforce simp: ordered_def fault_list_def annotateContinuousEnd_def concretize_def no_continuous_def sorted_wrt_append follows_def)+

lemma ordered_point: "tag \<noteq> TAG_PARTITION \<Longrightarrow> ordered t (annotatePointColor t' tag desp details c a) = ordered t a"
  by (simp add: ordered_def fault_list_def annotatePointColor_def)

lemma ordered_interval: "tag \<noteq> TAG_PARTITION \<Longrightarrow> ordered t (annotateIntervalColor t' tag start desp details c a) = ordered t a"
  by (simp add: ordered_def fault_list_def annotateIntervalColor_def)

lemma ordered_clear: "ordered t (clear a)"
  by (simp add: ordered_def fault_list_def clear_def)

lemma ordered_finalized: "ordered t (a\<lparr>finalized := b\<rparr>) = ordered t a"
  by (simp add: ordered_def fault_list_def)

lemma ordered_cleanup: "ordered t a \<Longrightarrow> ordered t (snd (an_cleanup vis opened order t' t'' failed e a))"
  by (simp add: an_cleanup_def finalize_def Let_def ordered_clear ordered_finalized)

lemmas an_an = AnnotatePointColor_def AnnotateIntervalColor_def AnnotateContinuousColor_def AnnotateContinuousEnd_def on_an_def

lemma ordered_fault: "annotateFault t fi l = Inr l' \<Longrightarrow> ordered t (an l) \<Longrightarrow> ordered t (an l')"
  by (auto simp: annotateFault_def an_an ordered_end ordered_continuous go_map_eq_Inr Let_def split: if_splits)

lemma an_do_ordered:
  assumes o: "ordered t (an l)" and tag: "user_tag x \<noteq> Some TAG_PARTITION" and x: "an_do t x l = Inr l'"
  shows "ordered t (an l')"
proof -
  have crash: "go_bind (set_crashed v ids (fi_crashed fi)) (\<lambda>(cr, changed).
       let fi' = fi\<lparr>fi_crashed := cr\<rparr>; l' = l\<lparr>finfo := Some fi'\<rparr> in if \<not> changed then Inr l' else annotateFault t fi' l') = Inr l' \<Longrightarrow>
      ordered t (an l')" for v ids fi
    using o by (auto simp: go_bind_eq_Inr Let_def split: if_splits intro: ordered_fault)
  have conn: "annotateFault t fi (l\<lparr>finfo := Some fi\<rparr>) = Inr l' \<Longrightarrow> ordered t (an l')" for fi
    using o by (auto intro: ordered_fault)
  have "TAG_INFO \<noteq> TAG_PARTITION" "TAG_CHECKER \<noteq> TAG_PARTITION" by (simp_all add: TAG_INFO_def TAG_CHECKER_def TAG_PARTITION_def)
  note tags = this
  show ?thesis using o tag x
    by (cases x) (auto simp: an_an ordered_point ordered_interval ordered_continuous ordered_end ordered_clear tags with_finfo_def
        AnnotateTest_def AnnotateInfo_def AnnotateCheckerBegin_def AnnotateCheckerEnd_def AnnotateConnection_def AnnotateTwoPartitions_def
        AnnotateClearFailure_def AnnotateShutdown_def AnnotateShutdownAll_def AnnotateRestart_def AnnotateRestartAll_def SetAnnotationFinalized_def
        AnnotateCheckerFailureBeforeExit_def AnnotateCheckerFailure_def FinalizeAnnotations_def finalize_def go_map_eq_Inr
        Let_def ordered_finalized ordered_cleanup split_beta split: option.splits if_splits dest!: conn crash [unfolded Let_def])
qed

text \<open>In a run, the intervals of the fault tag follow one another: none starts before an earlier one
  has ended, but for those without a beginning.\<close>

theorem fault_intervals_in_order:
  assumes "an_run two t l"
  shows "sorted_wrt follows (fault_list (an l)) \<and> (\<forall>x \<in> set (fault_list (an l)). aEnd x \<le> t)"
proof -
  have "ordered t (an l)" using assms
  proof (induction rule: an_run.induct)
    case an_init
    show ?case by (simp add: ordered_def fault_list_def mkAnnotation_def)
  next
    case (an_step two t l t' x l')
    then show ?case using an_do_ordered [OF ordered_mono] by blast
  qed
  then show ?thesis by (simp add: ordered_def)
qed

section \<open>Annotations without a beginning, and checkers without an end\<close>

text \<open>Ending a continuous annotation that was never begun adds one from time 0 to now, without a
  description; a comment says that there is nothing to end.\<close>

theorem end_without_begin_annotates:
  assumes "continuous (an l) tag = None"
  shows "annotations (an (AnnotateContinuousEnd t tag l)) = annotations (an l) @
    [\<lparr>aTag = tag, aStart = 0, aEnd = t, aDescription = [], aDetails = [], aBackgroundColor = []\<rparr>]"
  using assms by (simp add: an_an annotateContinuousEnd_def concretize_def no_continuous_def)

text \<open>The begin of a checker stays set after its end: every later checker result is drawn as an interval
  from the first begin.\<close>

theorem checker_begin_is_not_reset:
  assumes "AnnotateCheckerBegin t0 d l = Inr l1" and "t0 \<noteq> 0"
    and "AnnotateCheckerEnd t1 desp1 details1 c1 l1 = Inr l2" and "AnnotateCheckerEnd t2 desp2 details2 c2 l2 = Inr l3"
  shows "aStart (last (annotations (an l2))) = t0 \<and> aStart (last (annotations (an l3))) = t0 \<and>
    aDetails (last (annotations (an l3))) = d @ '': '' @ details2"
  using assms by (auto simp: AnnotateCheckerBegin_def AnnotateCheckerEnd_def with_finfo_def an_an annotateIntervalColor_def Let_def
      split: option.splits)

text \<open>Finalizing keeps every annotation, closes each open one now, and marks the log.\<close>

lemma finalize_closes_all:
  assumes "distinct order" and "set order = dom (continuous a)" and "finalize order t a = (xs, a')"
  shows "finalized a'" and "take (length (annotations a)) xs = annotations a"
    and "continuous a tag = Some c \<Longrightarrow> concretize tag t c \<in> set xs"
  using assms by (force simp: finalize_def)+

section \<open>Witnesses\<close>

lemma demo_an_run:
  "\<exists>l. an_run False 9 l \<and> finfo l = Some \<lparr>nservers = 3, fi_connected = [True, False, True], fi_crashed = [False, False, True],
     ckbegin = \<lparr>ck_ts = 0, ck_details = []\<rparr>\<rparr>"
proof -
  define l1 where "l1 = AnnotateTest 2 ''t'' 3 \<lparr>an = mkAnnotation, finfo = None\<rparr>"
  have f1: "finfo l1 = Some \<lparr>nservers = 3, fi_connected = [True, True, True], fi_crashed = [False, False, False],
      ckbegin = \<lparr>ck_ts = 0, ck_details = []\<rparr>\<rparr>"
    by (simp add: l1_def mkFrameworkInfo_def numeral_3_eq_3)
  have r1: "an_run False 2 l1" using an_step [OF an_init, of 2 "OpTest ''t'' 3" l1] by (simp add: l1_def)
  obtain l2 where l2: "an_do 5 (OpConnection [True, False, True]) l1 = Inr l2" "finfo l2 = Some \<lparr>nservers = 3, fi_connected = [True, False, True],
      fi_crashed = [False, False, False], ckbegin = \<lparr>ck_ts = 0, ck_details = []\<rparr>\<rparr>"
    using f1 by (simp add: AnnotateConnection_def with_finfo_def go_copy_def annotateFault_eq fi_ok_def Let_def)
  have r2: "an_run False 5 l2" using an_step [OF r1 _ _ l2(1)] by simp
  obtain l3 where l3: "an_do 9 (OpShutdown [2]) l2 = Inr l3" "finfo l3 = Some \<lparr>nservers = 3, fi_connected = [True, False, True],
      fi_crashed = [False, False, True], ckbegin = \<lparr>ck_ts = 0, ck_details = []\<rparr>\<rparr>"
    using l2(2) by (simp add: AnnotateShutdown_def with_finfo_def set_crashed_def annotateFault_eq fi_ok_def Let_def)
  show ?thesis using an_step [OF r2 _ _ l3(1)] l3(2) by auto
qed

theorem fault_annotation_is_current_witness:
  "\<exists>l. an_run False 9 l \<and> shown_fault l = Some ''partition = [1] [0] / crash = [2]''"
proof -
  let ?fi = "\<lparr>nservers = 3, fi_connected = [True, False, True], fi_crashed = [False, False, True], ckbegin = \<lparr>ck_ts = 0, ck_details = []\<rparr>\<rparr>"
  obtain l where l: "an_run False 9 l" "finfo l = Some ?fi" using demo_an_run by blast
  have "fault_text ?fi = ''partition = [1] [0] / crash = [2]''" "faulty ?fi" by code_simp+
  then show ?thesis using fault_annotation_is_current [OF l] l(1) by auto
qed

theorem fault_intervals_in_order_witness:
  "\<exists>l. an_run False 9 l \<and> sorted_wrt follows (fault_list (an l)) \<and> (\<forall>x \<in> set (fault_list (an l)). aEnd x \<le> 9)"
  using demo_an_run fault_intervals_in_order by blast

theorem end_without_begin_annotates_witness:
  "annotations (an (AnnotateContinuousEnd 7 TAG_PARTITION \<lparr>an = mkAnnotation, finfo = None\<rparr>)) =
     [\<lparr>aTag = TAG_PARTITION, aStart = 0, aEnd = 7, aDescription = [], aDetails = [], aBackgroundColor = []\<rparr>]"
  using end_without_begin_annotates [of "\<lparr>an = mkAnnotation, finfo = None\<rparr>" TAG_PARTITION 7] by (simp add: mkAnnotation_def)

end
