(* ===== verification/TesterConfig.thy ===== *)
theory TesterConfig
  imports TesterGroup TesterClients Annotations "HOL-Library.Multiset"
begin

text \<open>
  The configuration of a test (\<open>tester1/config.go\<close>): one network shared by the groups of servers and the
  clients, set up with a running group, with the statistics of a test and its time limit. The clock,
  random strings and random numbers are arguments; what is printed is a result. Whether the test has
  failed is the test library's and is an argument.
\<close>

section \<open>State\<close>

record ('r, 's, 'o, 'a, 'q) Config =
  cfg_clnts :: Clnts
  cfg_groups :: "('o, 'a, 'q) Groups"
  cfg_world :: "('r, 's, 'o, 'a, 'q) world"
  cfg_start :: int
  cfg_t0 :: int
  rpcs0 :: int
  ops :: "32 word"

definition GRP0 :: int where "GRP0 = 0"

definition new_world :: "('r, 's, 'o, 'a, 'q) world" where
  "new_world = \<lparr>rnet = MakeNetwork, disks = (\<lambda>_. MakePersister), next_disk = 0, next_obj = 0\<rparr>"

definition on_net :: "(('o, 'a, 'q) tester_net \<Rightarrow> ('o, 'a, 'q) tester_net) \<Rightarrow> ('r, 's, 'o, 'a, 'q) Config \<Rightarrow> ('r, 's, 'o, 'a, 'q) Config" where
  "on_net f cfg = cfg\<lparr>cfg_world := (cfg_world cfg)\<lparr>rnet := f (rnet (cfg_world cfg))\<rparr>\<rparr>"

text \<open>A method of the group \<open>gid\<close>; the receiver of a group that is not there is nil.\<close>

definition on_group ::
  "int \<Rightarrow> (('r, 's, 'o, 'a, 'q) grp_state \<Rightarrow> ('r, 's, 'o, 'a, 'q) grp_state go) \<Rightarrow> ('r, 's, 'o, 'a, 'q) Config \<Rightarrow> ('r, 's, 'o, 'a, 'q) Config go" where
  "on_group gid f cfg =
     (case lookupGroup gid (cfg_groups cfg) of
        None \<Rightarrow> Inl NilDereference
      | Some sg \<Rightarrow> go_map (\<lambda>(sg', w'). cfg\<lparr>cfg_groups := (cfg_groups cfg)(gid \<mapsto> sg'), cfg_world := w'\<rparr>) (f (sg, cfg_world cfg)))"

definition MakeGroupStart ::
  "(nat \<Rightarrow> nat \<Rightarrow> string) \<Rightarrow> (nat \<Rightarrow> nat \<Rightarrow> string) \<Rightarrow> int \<Rightarrow> nat \<Rightarrow> ('o, 'a, 'q) FstartServer \<Rightarrow>
   ('r, 's, 'o, 'a, 'q) Config \<Rightarrow> ('r, 's, 'o, 'a, 'q) Config go" where
  "MakeGroupStart rnd rnd' gid nsrv start cfg =
     go_bind (MakeGroup rnd gid nsrv start (cfg_groups cfg, cfg_world cfg)) (\<lambda>(gs, w).
       on_group gid (StartServers rnd') (cfg\<lparr>cfg_groups := gs, cfg_world := w\<rparr>))"

definition MakeConfig ::
  "(nat \<Rightarrow> nat \<Rightarrow> string) \<Rightarrow> (nat \<Rightarrow> nat \<Rightarrow> string) \<Rightarrow> int \<Rightarrow> nat \<Rightarrow> bool \<Rightarrow> ('o, 'a, 'q) FstartServer \<Rightarrow> ('r, 's, 'o, 'a, 'q) Config go" where
  "MakeConfig rnd rnd' now n rel start =
     go_map (\<lambda>cfg. on_net (Reliable rel) (cfg\<lparr>cfg_clnts := makeClnts, cfg_start := now\<rparr>))
       (MakeGroupStart rnd rnd' GRP0 n start
          \<lparr>cfg_clnts = makeClnts, cfg_groups = newGroups, cfg_world = new_world, cfg_start = 0, cfg_t0 = 0, rpcs0 = 0, ops = 0\<rparr>)"

definition SetReliable :: "bool \<Rightarrow> ('r, 's, 'o, 'a, 'q) Config \<Rightarrow> ('r, 's, 'o, 'a, 'q) Config" where
  "SetReliable rel = on_net (Reliable rel)"

definition Config_IsReliable :: "('r, 's, 'o, 'a, 'q) Config \<Rightarrow> bool" where
  "Config_IsReliable cfg = IsReliable (rnet (cfg_world cfg))"

definition SetLongReordering :: "bool \<Rightarrow> ('r, 's, 'o, 'a, 'q) Config \<Rightarrow> ('r, 's, 'o, 'a, 'q) Config" where
  "SetLongReordering longrel = on_net (LongReordering longrel)"

definition SetLongDelays :: "bool \<Rightarrow> ('r, 's, 'o, 'a, 'q) Config \<Rightarrow> ('r, 's, 'o, 'a, 'q) Config" where
  "SetLongDelays longdel = on_net (LongDelays longdel)"

definition Config_Group :: "int \<Rightarrow> ('r, 's, 'o, 'a, 'q) Config \<Rightarrow> ('o, 'a, 'q) ServerGrp option" where
  "Config_Group gid cfg = lookupGroup gid (cfg_groups cfg)"

definition ExitGroup :: "('o \<Rightarrow> 'o) \<Rightarrow> int \<Rightarrow> ('r, 's, 'o, 'a, 'q) Config \<Rightarrow> ('r, 's, 'o, 'a, 'q) Config go" where
  "ExitGroup kill gid cfg =
     go_map (\<lambda>cfg'. cfg'\<lparr>cfg_groups := deleteGroup gid (cfg_groups cfg')\<rparr>) (on_group gid (Grp_Shutdown kill) cfg)"

definition RpcTotal :: "('r, 's, 'o, 'a, 'q) Config \<Rightarrow> int" where
  "RpcTotal cfg = GetTotalCount (rnet (cfg_world cfg))"

definition BytesTotal :: "('r, 's, 'o, 'a, 'q) Config \<Rightarrow> int" where
  "BytesTotal cfg = GetTotalBytes (rnet (cfg_world cfg))"

definition Begin :: "int \<Rightarrow> string \<Rightarrow> ('r, 's, 'o, 'a, 'q) Config \<Rightarrow> string \<times> ('r, 's, 'o, 'a, 'q) Config" where
  "Begin now description cfg =
     (let rel = (if \<not> IsReliable (rnet (cfg_world cfg)) then ''unreliable'' else ''reliable'') in
      (description @ '' ('' @ rel @ '' network)...'', cfg\<lparr>cfg_t0 := now, rpcs0 := RpcTotal cfg, ops := 0\<rparr>))"

definition Config_Op :: "('r, 's, 'o, 'a, 'q) Config \<Rightarrow> ('r, 's, 'o, 'a, 'q) Config" where
  "Config_Op cfg = cfg\<lparr>ops := ops cfg + 1\<rparr>"

text \<open>Times are in nanoseconds.\<close>

definition CheckTimeout :: "bool \<Rightarrow> int \<Rightarrow> ('r, 's, 'o, 'a, 'q) Config \<Rightarrow> unit go" where
  "CheckTimeout failed now cfg =
     (if \<not> failed \<and> now - cfg_start cfg > 120 * 1000000000 then Inl (Fatal ''test took longer than 120 seconds'') else Inr ())"

text \<open>\<open>End\<close>: elapsed time, peers, RPCs and operations of a test that has not failed.\<close>

definition End :: "bool \<Rightarrow> int \<Rightarrow> ('r, 's, 'o, 'a, 'q) Config \<Rightarrow> (int \<times> nat \<times> int \<times> int) option go" where
  "End failed now cfg =
     go_bind (CheckTimeout failed now cfg) (\<lambda>_.
       if failed then Inr None
       else case Config_Group GRP0 cfg of
         None \<Rightarrow> Inl NilDereference
       | Some sg \<Rightarrow> Inr (Some (now - cfg_t0 cfg, Grp_N sg, RpcTotal cfg - rpcs0 cfg, sint (ops cfg))))"

text \<open>\<open>Cleanup\<close>: clients, groups, the network, annotations.\<close>

definition Config_Cleanup ::
  "('o \<Rightarrow> 'o) \<Rightarrow> int list \<Rightarrow> (Annotation \<Rightarrow> bool \<Rightarrow> string \<Rightarrow> PAnnotation list option \<times> Annotation) \<Rightarrow> bool \<Rightarrow> int \<Rightarrow>
   ('r, 's, 'o, 'a, 'q) Config \<times> tlog \<Rightarrow> (PAnnotation list option \<times> ('r, 's, 'o, 'a, 'q) Config \<times> tlog) go" where
  "Config_Cleanup kill order clean failed now = (\<lambda>(cfg, l).
     go_bind (Clnts_cleanup (cfg_clnts cfg) (rnet (cfg_world cfg))) (\<lambda>(cs, rn).
       let w = Groups_cleanup kill order (cfg_groups cfg) ((cfg_world cfg)\<lparr>rnet := rn\<rparr>) in
       go_bind (Network_Cleanup (rnet w)) (\<lambda>rn'.
       let cfg' = cfg\<lparr>cfg_clnts := cs, cfg_world := w\<lparr>rnet := rn'\<rparr>\<rparr>;
           (drawn, a) = clean (an l) failed (if failed then ''test failed'' else ''test passed'')
       in go_map (\<lambda>_. (drawn, cfg', l\<lparr>an := a\<rparr>)) (CheckTimeout failed now cfg'))))"

text \<open>\<open>Fatalf\<close>: what is printed before the test is failed: the message, and of the innermost 50 callers
  (file and line) those in a test file.\<close>

definition strings_Contains :: "string \<Rightarrow> string \<Rightarrow> bool" where
  "strings_Contains s sub = list_ex (\<lambda>k. take (length sub) (drop k s) = sub) [0..<Suc (length s)]"

definition Config_Fatalf :: "string \<Rightarrow> (string \<times> int) list \<Rightarrow> string list go" where
  "Config_Fatalf msg callers =
     (let frames = take 50 callers in
      if length frames = 0 then Inl (Fatal ''testing: zero callers found'')
      else Inr ((''Fatal: '' @ msg) # map (\<lambda>(file, line). ''        '' @ file @ '':'' @ Itoa line)
             (filter (\<lambda>fr. strings_Contains (fst fr) ''test.go'') frames)))"

text \<open>Random strings: the URL-safe base64 text of twice as many random bytes, cut to length.\<close>

definition url_alphabet :: string where
  "url_alphabet = ''ABCDEFGHIJKLMNOPQRSTUVWXYZabcdefghijklmnopqrstuvwxyz0123456789-_''"

definition url_char :: "nat \<Rightarrow> char" where
  "url_char n = url_alphabet ! n"

fun EncodeToString :: "nat list \<Rightarrow> string" where
  "EncodeToString [] = []"
| "EncodeToString [a] = [url_char (a div 4), url_char ((a mod 4) * 16), CHR ''='', CHR ''='']"
| "EncodeToString [a, b] = [url_char (a div 4), url_char ((a mod 4) * 16 + b div 16), url_char ((b mod 16) * 4), CHR ''='']"
| "EncodeToString (a # b # c # rest) =
     [url_char (a div 4), url_char ((a mod 4) * 16 + b div 16), url_char ((b mod 16) * 4 + c div 64), url_char (c mod 64)] @ EncodeToString rest"

definition Randstring :: "int \<Rightarrow> (nat \<Rightarrow> nat list) \<Rightarrow> string go" where
  "Randstring n rnd =
     (if n < 0 then Inl SliceBounds
      else let b = rnd (nat (2 * n)); s = EncodeToString b in go_slice_to s n)"

definition makeSeed :: "(int \<Rightarrow> int) \<Rightarrow> int" where
  "makeSeed rnd = rnd (2 ^ 62)"

lemma url_char_in: "n < 64 \<Longrightarrow> url_char n \<in> set url_alphabet"
  unfolding url_char_def by (rule nth_mem) (simp add: url_alphabet_def)

lemma encode_prefix:
  assumes "list_all (\<lambda>x. x < 256) b" and "3 * k \<le> 4 * length b"
  shows "k \<le> length (EncodeToString b) \<and> set (take k (EncodeToString b)) \<subseteq> set url_alphabet"
  using assms
proof (induction b arbitrary: k rule: EncodeToString.induct)
  case (2 a)
  then have "k = 0 \<or> k = 1" by auto
  then show ?case using 2 url_char_in [of "a div 4"] by auto
next
  case (3 a b)
  then have "k = 0 \<or> k = 1 \<or> k = 2" by auto
  moreover have "url_char (a div 4) \<in> set url_alphabet" "url_char ((a mod 4) * 16 + b div 16) \<in> set url_alphabet"
    using 3 by (auto intro!: url_char_in)
  ultimately show ?case by (elim disjE) (simp_all add: numeral_2_eq_2)
next
  case (4 a b c rest)
  have lt: "a < 256" "b < 256" "c < 256" using "4.prems" by simp_all
  then have "a div 4 < 64" "b div 16 < 16" "c div 64 < 4" "a mod 4 \<le> 3" "b mod 16 \<le> 15" "c mod 64 < 64" by (simp_all add: less_mult_imp_div_less less_Suc_eq_le [symmetric])
  then have m: "url_char (a div 4) \<in> set url_alphabet" "url_char ((a mod 4) * 16 + b div 16) \<in> set url_alphabet"
    "url_char ((b mod 16) * 4 + c div 64) \<in> set url_alphabet" "url_char (c mod 64) \<in> set url_alphabet" by (auto intro: url_char_in)
  show ?case
  proof (cases "4 \<le> k")
    case True
    then obtain j where j: "k = Suc (Suc (Suc (Suc j)))" using le_Suc_ex [of 4 k] by auto
    then have "j \<le> length (EncodeToString rest) \<and> set (take j (EncodeToString rest)) \<subseteq> set url_alphabet" using "4.IH" "4.prems" by simp
    then show ?thesis using j m by simp
  next
    case False
    then have "k = 0 \<or> k = 1 \<or> k = 2 \<or> k = 3" by auto
    then show ?thesis using m by (elim disjE) (simp_all add: numeral_2_eq_2 numeral_3_eq_3)
  qed
qed simp

lemma Randstring_spec:
  assumes "0 \<le> n" and "length (rnd (nat (2 * n))) = nat (2 * n)" and "list_all (\<lambda>x. x < 256) (rnd (nat (2 * n)))"
  shows "\<exists>s. Randstring n rnd = Inr s \<and> length s = nat n \<and> set s \<subseteq> set url_alphabet"
proof -
  let ?e = "EncodeToString (rnd (nat (2 * n)))"
  have "nat n \<le> length ?e \<and> set (take (nat n) ?e) \<subseteq> set url_alphabet"
    by (rule encode_prefix [OF assms(3)]) (use assms(1,2) in simp)
  then show ?thesis using assms(1) by (auto simp: Randstring_def Let_def go_slice_to_def)
qed

text \<open>\<open>random_handles\<close>: the shuffle swaps place \<open>i\<close> with a place \<open>rnd i\<close> not after it.\<close>

definition swap :: "nat \<Rightarrow> nat \<Rightarrow> 'x list \<Rightarrow> 'x list" where
  "swap i j xs = xs[i := xs ! j, j := xs ! i]"

definition random_handles :: "(nat \<Rightarrow> nat) \<Rightarrow> 'x list \<Rightarrow> 'x list" where
  "random_handles rnd kvh = fold (\<lambda>i sa. swap i (rnd i mod (i + 1)) sa) [0..<length kvh] kvh"

section \<open>A new configuration\<close>

text \<open>C31: A configuration made with fresh end names has the group 0 running: every end of the group is
  enabled and leads to the object of the server it was made for, the network is as reliable as asked
  for, and there are no clients.\<close>

theorem config_starts_linked:
  assumes inj: "inj_on (\<lambda>(i, j). rnd i j) ({..<n} \<times> {..<n})" "inj_on (\<lambda>(i, j). rnd' i j) ({..<n} \<times> {..<n})"
    and neq: "\<And>i j i' j'. i < n \<Longrightarrow> j < n \<Longrightarrow> i' < n \<Longrightarrow> j' < n \<Longrightarrow> rnd' i j \<noteq> rnd i' j'"
  shows "\<exists>(cfg :: ('r, 's, 'o, 'a, 'q) Config) sg. MakeConfig rnd rnd' now n rel start = Inr cfg \<and> Config_Group GRP0 cfg = Some sg \<and> Grp_N sg = n \<and>
    cfg_clnts cfg = makeClnts \<and> Config_IsReliable cfg = rel \<and>
    (\<forall>i < n. running (sg, cfg_world cfg) (rnd' i) i MakePersister i i) \<and>
    (\<forall>a < n. \<forall>b < n. readEndnameInfo (rnd' a b) (rnet (cfg_world cfg)) = (True, Some (ServerName GRP0 (int b)), Some b, rel,
       longReordering (rnet (cfg_world cfg))))"
proof -
  let ?w = "new_world :: ('r, 's, 'o, 'a, 'q) world"
  have fr: "rnd i j \<notin> ends (rnet ?w) \<and> rnd' i j \<notin> ends (rnet ?w)" for i j by (simp add: new_world_def MakeNetwork_def)
  obtain sg0 :: "('o, 'a, 'q) ServerGrp" and rn where g: "makeSrvGrp rnd GRP0 n start (rnet ?w) = Inr (sg0, rn)" "startable rnd' (sg0, ?w\<lparr>rnet := rn\<rparr>)"
      "length (srvs sg0) = n" "grp_gid sg0 = GRP0" "\<forall>s \<in> set (srvs sg0). saved s = None"
    using made_group_startable [OF inj fr neq, of GRP0 start] by blast
  let ?st0 = "(sg0, ?w\<lparr>rnet := rn\<rparr>)"
  have n: "n = length (srvs (fst ?st0))" using g(3) by simp
  from started_group_is_linked [OF g(2) n]
  obtain sg w where st: "StartServers rnd' ?st0 = Inr (sg, w)" "length (srvs sg) = n" "grp_gid sg = GRP0"
      and run: "\<And>i. i < n \<Longrightarrow> running (sg, w) (rnd' i) i (old_content (srvs sg0 ! i) (?w\<lparr>rnet := rn\<rparr>)) (next_disk ?w + i) (next_obj ?w + i)"
      and info: "\<And>a b. a < n \<Longrightarrow> b < n \<Longrightarrow> readEndnameInfo (rnd' a b) (rnet w) =
        (True, Some (ServerName GRP0 (int b)), Some (next_obj ?w + b), reliable (rnet w), longReordering (rnet w))"
    using g(4) by auto
  let ?w' = "w\<lparr>rnet := Reliable rel (rnet w)\<rparr>"
  have "old_content (srvs sg0 ! i) (?w\<lparr>rnet := rn\<rparr>) = MakePersister" if "i < n" for i using g(3,5) that by (simp add: old_content_def)
  then have "running (sg, ?w') (rnd' i) i MakePersister i i" if "i < n" for i
    using running_frame [OF run [OF that], of sg ?w'] that by (simp add: Reliable_def new_world_def)
  moreover have "readEndnameInfo (rnd' a b) (rnet ?w') = (True, Some (ServerName GRP0 (int b)), Some b, rel, longReordering (rnet ?w'))"
    if "a < n" "b < n" for a b using info [OF that] by (auto simp: readEndnameInfo_def Reliable_def new_world_def)
  moreover have "\<exists>cfg. MakeConfig rnd rnd' now n rel start = Inr cfg \<and> Config_Group GRP0 cfg = Some sg \<and> cfg_world cfg = ?w' \<and> cfg_clnts cfg = makeClnts"
    using g(1) st(1) by (simp add: MakeConfig_def MakeGroupStart_def MakeGroup_def on_group_def on_net_def lookupGroup_def Config_Group_def newGroups_def)
  ultimately show ?thesis using st(2) by (auto simp: Grp_N_def Config_IsReliable_def IsReliable_def Reliable_def)
qed

theorem config_starts_linked_witness:
  "\<exists>(cfg :: (nat, nat, nat, nat, nat) Config). MakeConfig (demo_names 0) (demo_names 9) 0 3 True (\<lambda>_ _ _ _. []) = Inr cfg \<and>
     readEndnameInfo (demo_names 9 0 2) (rnet (cfg_world cfg)) = (True, Some (ServerName GRP0 2), Some 2, True, longReordering (rnet (cfg_world cfg)))"
proof -
  have "\<exists>(cfg :: (nat, nat, nat, nat, nat) Config) sg. MakeConfig (demo_names 0) (demo_names 9) 0 3 True (\<lambda>_ _ _ _. []) = Inr cfg \<and>
      Config_Group GRP0 cfg = Some sg \<and> Grp_N sg = 3 \<and> cfg_clnts cfg = makeClnts \<and> Config_IsReliable cfg = True \<and>
      (\<forall>i < 3. running (sg, cfg_world cfg) (demo_names 9 i) i MakePersister i i) \<and>
      (\<forall>a < 3. \<forall>b < 3. readEndnameInfo (demo_names 9 a b) (rnet (cfg_world cfg)) = (True, Some (ServerName GRP0 (int b)), Some b, True,
         longReordering (rnet (cfg_world cfg))))"
    by (rule config_starts_linked) (simp_all add: demo_names_inj demo_names_neq)
  then show ?thesis by fastforce
qed

section \<open>Shuffling\<close>

lemma mset_swap_places: "i < length xs \<Longrightarrow> j < length xs \<Longrightarrow> mset (swap i j xs) = mset xs"
  by (simp add: swap_def mset_swap)

text \<open>The shuffled handles are the handles in another order.\<close>

lemma random_handles_permutes: "mset (random_handles rnd kvh) = mset kvh"
proof -
  have "mset (fold (\<lambda>i sa. swap i (rnd i mod (i + 1)) sa) [0..<k] kvh) = mset kvh \<and>
      length (fold (\<lambda>i sa. swap i (rnd i mod (i + 1)) sa) [0..<k] kvh) = length kvh" if "k \<le> length kvh" for k
    using that
  proof (induction k)
    case (Suc k)
    have "rnd k mod (k + 1) < k + 1" by simp
    then have "rnd k mod (k + 1) < length kvh" using Suc.prems by linarith
    then show ?case using Suc mset_swap_places [of k "fold (\<lambda>i sa. swap i (rnd i mod (i + 1)) sa) [0..<k] kvh" "rnd k mod (k + 1)"] by (simp add: swap_def)
  qed simp
  then show ?thesis by (simp add: random_handles_def)
qed

end
