(* ===== verification/TestSetup.thy ===== *)
theory TestSetup
  imports ReplicatedSM TesterConfig
begin

text \<open>
  The set-up and end of the tests of Raft (\<open>raft1/test.go\<close>) and of the replicated state machine
  (\<open>kvraft1/rsm/test.go\<close>) over the tester's configuration: making servers, restarting one and linking the group again,
  and \<open>cleanup\<close>. A restarted server is linked to everybody and reads what its predecessor had stored; a cleanup is
  possible once, as it closes the network.
\<close>

section \<open>Tests of Raft\<close>

record rft_test =
  rft_finished :: "32 word"

definition checkFinished :: "rft_test \<Rightarrow> bool" where
  "checkFinished ts \<longleftrightarrow> rft_finished ts \<noteq> 0"

text \<open>\<open>ts.g\<close> is the group \<open>GRP0\<close>.\<close>

definition raft_restart :: "(nat \<Rightarrow> string) \<Rightarrow> int \<Rightarrow> ('r, 's, 'o, 'a, 'q) Config \<Rightarrow> ('r, 's, 'o, 'a, 'q) Config go" where
  "raft_restart rnd i cfg = go_bind (on_group GRP0 (StartServer rnd i) cfg) (on_group GRP0 ConnectAll)"

text \<open>Both tests end alike; \<open>now\<close>, \<open>now1\<close> and \<open>now2\<close> are the times at which the time limit is checked.\<close>

definition rsm_cleanup where
  "rsm_cleanup kill order clean failed now now1 now2 cfg l =
     go_bind (End failed now cfg) (\<lambda>_.
     go_bind (Config_Cleanup kill order clean failed now1 (cfg, l)) (\<lambda>(drawn, cfg', l').
     go_map (\<lambda>_. (drawn, cfg', l')) (CheckTimeout failed now2 cfg')))"

definition raft_cleanup where
  "raft_cleanup kill order clean failed now now1 now2 ts cfg l =
     (let ts1 = ts\<lparr>rft_finished := 1\<rparr> in
      go_bind (End failed now cfg) (\<lambda>_.
      go_bind (Config_Cleanup kill order clean failed now1 (cfg, l)) (\<lambda>(drawn, cfg', l').
      go_map (\<lambda>_. (ts1, drawn, cfg', l')) (CheckTimeout failed now2 cfg'))))"

section \<open>Tests of the replicated state machine\<close>

definition rsm_mksrv ::
  "int \<Rightarrow> nat \<Rightarrow> int \<Rightarrow> (rsm_req, counter_item) storage \<Rightarrow> tick \<Rightarrow> rsm_test \<Rightarrow> ((rsm_req, counter_item) Raft list \<times> rsm_test) go" where
  "rsm_mksrv maxr nends srv ps tk ts =
     (let s = makeRsmSrv nends srv ps maxr tk in
      go_bind (go_set (rsm_srvs ts) srv s) (\<lambda>ss.
        case srv_rsm s of
          None \<Rightarrow> Inl NilDereference
        | Some r \<Rightarrow> Inr ([RSM_Raft r], ts\<lparr>rsm_srvs := ss\<rparr>)))"

text \<open>\<open>MakeConfig\<close> starts the three servers in turn, each on an empty persister; \<open>mksrv\<close> fills the slice. The slots start as
  \<open>nil\<close>, here as \<open>blank\<close>, a server without a state machine.\<close>

definition blank :: rsmSrv where
  "blank = \<lparr>srv_rsm = None, counter = 0\<rparr>"

definition rsm_makeTest ::
  "(nat \<Rightarrow> nat \<Rightarrow> string) \<Rightarrow> (nat \<Rightarrow> nat \<Rightarrow> string) \<Rightarrow> int \<Rightarrow> ('o, 'a, 'q) FstartServer \<Rightarrow> (nat \<Rightarrow> tick) \<Rightarrow> int \<Rightarrow>
   (rsm_test \<times> ('r, 's, 'o, 'a, 'q) Config) go" where
  "rsm_makeTest rnd rnd' now start tk maxr =
     go_bind (go_fold (\<lambda>i ts. go_map snd (rsm_mksrv maxr NSRV (int i) MakePersister (tk i) ts)) [0..<NSRV]
                \<lparr>rsm_srvs = replicate NSRV blank, leader = 0\<rparr>) (\<lambda>ts.
     go_map (\<lambda>cfg. (ts, cfg)) (MakeConfig rnd rnd' now NSRV True start))"

section \<open>Making\<close>

text \<open>Every slot holds a server of its own number with a fresh peer.\<close>

lemma rsm_makeTest_servers:
  assumes "rsm_makeTest rnd rnd' now start tk maxr = Inr (ts, cfg)"
  shows "rsm_srvs ts = map (\<lambda>i. makeRsmSrv NSRV (int i) MakePersister maxr (tk i)) [0..<NSRV]"
  using assms by (auto simp: rsm_makeTest_def rsm_mksrv_def makeRsmSrv_def NSRV_def go_set_def go_bind_eq_Inr go_map_eq_Inr Let_def
      numeral_3_eq_3 upt_conv_Cons split: if_splits)

section \<open>Cleaning up\<close>

lemma kill_all_done [simp]: "rn_done (kill_all kill s rn) = rn_done rn"
proof -
  have "rn_done (fold (kill_service kill) refs rn) = rn_done rn" for refs
    by (induction refs arbitrary: rn) (auto simp: kill_service_def Let_def split: option.splits prod.splits)
  then show ?thesis by (simp add: kill_all_def)
qed

lemma Groups_cleanup_done [simp]: "rn_done (rnet (Groups_cleanup kill order gs w)) = rn_done (rnet w)"
proof -
  have k: "rn_done (fold (kill_all kill) ss rn) = rn_done rn" for ss rn by (induction ss arbitrary: rn) auto
  show ?thesis unfolding Groups_cleanup_def by (induction order arbitrary: w) (auto simp: Grp_cleanup_def k split: option.splits)
qed

lemma Config_Cleanup_closes:
  assumes "Config_Cleanup kill order clean failed now (cfg, l) = Inr (drawn, cfg', l')"
  shows "rn_done (rnet (cfg_world cfg')) \<and> clerks (cfg_clnts cfg') = None"
  using assms by (auto simp: Config_Cleanup_def Clnts_cleanup_def Network_Cleanup_def go_bind_eq_Inr go_map_eq_Inr Let_def
      split: if_splits prod.splits)

lemma Config_Cleanup_closed:
  assumes "rn_done (rnet (cfg_world cfg))" and "clerks (cfg_clnts cfg) = None"
  shows "Config_Cleanup kill order clean failed now (cfg, l) = Inl ClosedChannel"
  using assms by (simp add: Config_Cleanup_def Clnts_cleanup_def Network_Cleanup_def go_bind_def go_map_def)

text \<open>A test that was cleaned up is finished and took no longer than the time limit, unless it has failed; cleaning it up again
  does not succeed.\<close>

theorem cleanup_once:
  assumes "raft_cleanup kill order clean failed now now1 now2 ts cfg l = Inr (ts', drawn, cfg', l')"
  shows "checkFinished ts' \<and> (failed \<or> now - cfg_start cfg \<le> 120 * 1000000000) \<and>
    (\<exists>e. raft_cleanup kill' order' clean' failed' t t1 t2 ts' cfg' l' = Inl e)"
proof -
  have c: "Config_Cleanup kill order clean failed now1 (cfg, l) = Inr (drawn, cfg', l')" "ts' = ts\<lparr>rft_finished := 1\<rparr>"
    using assms by (auto simp: raft_cleanup_def go_bind_eq_Inr go_map_eq_Inr Let_def)
  have "failed \<or> now - cfg_start cfg \<le> 120 * 1000000000"
    using assms by (auto simp: raft_cleanup_def End_def CheckTimeout_def go_bind_eq_Inr Let_def split: if_splits)
  moreover have "\<exists>e. raft_cleanup kill' order' clean' failed' t t1 t2 ts' cfg' l' = Inl e"
    using Config_Cleanup_closed [of cfg'] Config_Cleanup_closes [OF c(1)]
    by (cases "End failed' t cfg'") (simp_all add: raft_cleanup_def go_bind_def Let_def)
  ultimately show ?thesis using c(2) by (simp add: checkFinished_def)
qed

section \<open>Restarting\<close>

text \<open>After a restart the group is linked completely, whatever was disconnected before, and the new server works on a copy of what
  the old one had stored.\<close>

lemma StartServer_wired:
  assumes w: "wired sg" and i: "i < n" and n: "n = length (srvs sg)"
    and rnd: "distinct (map rnd [0..<n])" "set (map rnd [0..<n]) \<inter> ends (rnet w) = {}"
    and known: "\<And>a b. a < n \<Longrightarrow> b < n \<Longrightarrow> a \<noteq> i \<Longrightarrow> link_name sg a b \<in> ends (rnet w)"
  shows "\<exists>sg' w'. StartServer rnd (int i) (sg, w) = Inr (sg', w') \<and> wired sg' \<and> length (srvs sg') = n \<and>
    running (sg', w') rnd i (old_content (srvs sg ! i) w) (next_disk w) (next_obj w)"
proof -
  have "length (names_of (srvs sg ! i)) = length (srvs sg)" using w i n nth_mem by (fastforce simp: wired_def Let_def)
  from StartServer_runs [OF i [unfolded n] this refl rnd [unfolded n]]
  obtain srv w' where s: "StartServer rnd (int i) (sg, w) = Inr (sg\<lparr>srvs := (srvs sg)[i := srv]\<rparr>, w')"
    and r: "running (sg\<lparr>srvs := (srvs sg)[i := srv]\<rparr>, w') rnd i (old_content (srvs sg ! i) w) (next_disk w) (next_obj w)" by blast
  let ?sg = "sg\<lparr>srvs := (srvs sg)[i := srv]\<rparr>"
  have new: "link_name ?sg i b = rnd b" if "b < n" for b using link_name_running [OF r] that n by simp
  have old: "link_name ?sg a b = link_name sg a b" if "a \<noteq> i" for a b using that by (simp add: link_name_def)
  have fresh: "rnd b \<notin> ends (rnet w)" if "b < n" for b using rnd(2) that by (auto simp: disjoint_iff)
  have inj: "rnd b = rnd d \<longleftrightarrow> b = d" if "b < n" "d < n" for b d using rnd(1) that by (auto simp: distinct_map inj_on_def)
  have "a = c \<and> b = d" if "a < n" "b < n" "c < n" "d < n" "link_name ?sg a b = link_name ?sg c d" for a b c d
    using that link_name_inject [OF w, of a b c d] n new old fresh inj known by (metis (no_types, lifting))
  moreover have "endNames s \<noteq> None \<and> length (names_of s) = n" if "s \<in> set (srvs ?sg)" for s
  proof -
    have "endNames srv \<noteq> None \<and> length (names_of srv) = n" using r i n by (simp add: running_def Let_def names_of_def)
    then show ?thesis using that w n set_update_subset_insert [of "srvs sg" i srv] by (auto simp: wired_def Let_def)
  qed
  ultimately have "wired ?sg" using w n by (auto simp: wired_def Let_def)
  then show ?thesis using s r n by auto
qed

theorem restart_links_again:
  assumes g: "Config_Group GRP0 cfg = Some sg" and w: "wired sg" and i: "i < n" and n: "n = length (srvs sg)"
    and rnd: "distinct (map rnd [0..<n])" "set (map rnd [0..<n]) \<inter> ends (rnet (cfg_world cfg)) = {}"
    and known: "\<And>a b. a < n \<Longrightarrow> b < n \<Longrightarrow> a \<noteq> i \<Longrightarrow> link_name sg a b \<in> ends (rnet (cfg_world cfg))"
  shows "\<exists>cfg' sg'. raft_restart rnd (int i) cfg = Inr cfg' \<and> Config_Group GRP0 cfg' = Some sg' \<and>
    (\<forall>a < n. \<forall>b < n. linked (sg', cfg_world cfg') a b) \<and>
    running (sg', cfg_world cfg') rnd i (old_content (srvs sg ! i) (cfg_world cfg)) (next_disk (cfg_world cfg)) (next_obj (cfg_world cfg))"
proof -
  let ?w = "cfg_world cfg"
  obtain sg1 w1 where s: "StartServer rnd (int i) (sg, ?w) = Inr (sg1, w1)" "wired sg1" "length (srvs sg1) = n"
    and r: "running (sg1, w1) rnd i (old_content (srvs sg ! i) ?w) (next_disk ?w) (next_obj ?w)"
    using StartServer_wired [OF w i n rnd known] by blast
  obtain sg2 w2 where c: "ConnectAll (sg1, w1) = Inr (sg2, w2)" "same_wires (sg1, w1) (sg2, w2)" "\<forall>a < n. \<forall>b < n. linked (sg2, w2) a b"
    using ConnectAll_links [of "(sg1, w1)" n] s by fastforce
  have "running (sg2, w2) rnd i (old_content (srvs sg ! i) ?w) (next_disk ?w) (next_obj ?w)"
    by (rule running_frame [OF r]) (use c(2) in \<open>auto simp: same_wires_def\<close>)
  then show ?thesis using g s(1) c(1,3)
    by (simp add: raft_restart_def on_group_def Config_Group_def lookupGroup_def go_map_def go_bind_def)
qed

end
