(* ===== verification/KVClerk.thy ===== *)
theory KVClerk
  imports KVServer
begin

text \<open>
  The client side of the key/value service (\<open>kvsrv1/client.go\<close>): the retry loops of
  \<open>Clerk.Get\<close> and \<open>Clerk.Put\<close> over a network that loses requests and replies. A schedule
  gives, per attempt, what the other clients do at the server before the attempt and what the
  network does to it; a loop that uses its schedule up has not returned yet.

  The locale \<open>versioned_register\<close> is the contract a client has with one key of the server:
  a conditional write that hits exactly when the version matches. Both the clerk and the lock
  (theory \<open>LockService\<close>) are proved from it.
\<close>

section \<open>The register interface\<close>

locale versioned_register =
  fixes reg_value :: "'s \<Rightarrow> string"
    and reg_version :: "'s \<Rightarrow> Tversion"
    and cas :: "'s \<Rightarrow> Tversion \<Rightarrow> string \<Rightarrow> 's"
  assumes cas_hit: "reg_version s = v \<Longrightarrow>
      reg_version (cas s v x) = v + 1 \<and> reg_value (cas s v x) = x"
    and cas_miss: "reg_version s \<noteq> v \<Longrightarrow>
      reg_version (cas s v x) = reg_version s \<and> reg_value (cas s v x) = reg_value s"
begin

lemma cas_version: "reg_version (cas s v x) = reg_version s + (if reg_version s = v then 1 else 0)"
  using cas_hit [of s v x] cas_miss [of s v x] by auto

lemma cas_value: "reg_value (cas s v x) = (if reg_version s = v then x else reg_value s)"
  using cas_hit [of s v x] cas_miss [of s v x] by auto

text \<open>A write conditional on a version the register has left, by fewer than 2 to the 64 writes,
  misses: the counter has not come round.\<close>

lemma stale_miss:
  assumes "reg_version s = v + 1 + of_nat j" and "Suc j < 2 ^ 64"
  shows "reg_version (cas s v x) = reg_version s \<and> reg_value (cas s v x) = reg_value s"
proof (rule cas_miss)
  have "of_nat (Suc j) \<noteq> (0 :: 64 word)"
    using assms(2) by (simp add: of_nat_inverse word_of_nat_eq_0_iff nat_dvd_not_less del: of_nat_Suc)
  then show "reg_version s \<noteq> v" using assms(1) by (simp add: add.assoc)
qed

end

definition put_key :: "string \<Rightarrow> KVServer \<Rightarrow> Tversion \<Rightarrow> string \<Rightarrow> KVServer" where
  "put_key k kv v x = fst (KVServer_Put kv \<lparr>PutKey = k, PutValue = x, PutVersion = v\<rparr>)"

interpretation kvreg: versioned_register
    "\<lambda>kv. StValue (kv_abs kv k)" "\<lambda>kv. StVersion (kv_abs kv k)" "put_key k" for k
proof unfold_locales
  fix kv v x
  let ?args = "\<lparr>PutKey = k, PutValue = x, PutVersion = v\<rparr>"
  have abs: "kv_abs (put_key k kv v x) k =
      (if StVersion (kv_abs kv k) = v then \<lparr>StValue = x, StVersion = v + 1\<rparr> else kv_abs kv k)"
    using kv_abs_put_same [of kv ?args] by (cases "KVServer_Put kv ?args") (simp add: put_key_def)
  show "StVersion (kv_abs kv k) = v \<Longrightarrow> StVersion (kv_abs (put_key k kv v x) k) = v + 1 \<and>
      StValue (kv_abs (put_key k kv v x) k) = x"
    by (simp add: abs)
  show "StVersion (kv_abs kv k) \<noteq> v \<Longrightarrow>
      StVersion (kv_abs (put_key k kv v x) k) = StVersion (kv_abs kv k) \<and>
      StValue (kv_abs (put_key k kv v x) k) = StValue (kv_abs kv k)"
    by (simp add: abs)
qed

section \<open>The retry loops\<close>

datatype rpc_outcome =
    ReqLost      \<comment> \<open>the server never saw the request; \<open>Call\<close> returns false\<close>
  | RepLost      \<comment> \<open>the server executed it, the reply was lost; \<open>Call\<close> returns false\<close>
  | Delivered    \<comment> \<open>\<open>Call\<close> returns true with the reply\<close>

type_synonym schedule = "(kv_req list \<times> rpc_outcome) list"

fun Clerk_Get :: "KVServer \<Rightarrow> string \<Rightarrow> schedule \<Rightarrow> GetReply option \<times> KVServer" where
  "Clerk_Get kv key [] = (None, kv)"
| "Clerk_Get kv key ((env, out) # sch) =
     (let kv1 = snd (serve kv env) in
      if out = Delivered then (Some (KVServer_Get kv1 key), kv1)
      else Clerk_Get kv1 key sch)"

text \<open>The \<open>switch\<close> on the reply of a put that got through.\<close>

definition Clerk_Put_reply :: "bool \<Rightarrow> Err \<Rightarrow> Err" where
  "Clerk_Put_reply firstAttempt e =
     (if e = OK then OK
      else if e = ErrVersion then (if firstAttempt then ErrVersion else ErrMaybe)
      else e)"

text \<open>The loop of \<open>Put\<close>. The third result counts how often the server applied the put.\<close>

fun Clerk_Put_loop :: "bool \<Rightarrow> KVServer \<Rightarrow> PutArgs \<Rightarrow> schedule \<Rightarrow> Err option \<times> KVServer \<times> nat" where
  "Clerk_Put_loop firstAttempt kv args [] = (None, kv, 0)"
| "Clerk_Put_loop firstAttempt kv args ((env, out) # sch) =
     (let kv1 = snd (serve kv env); (kv2, e) = KVServer_Put kv1 args;
          applied = (if e = OK then 1 else 0) in
      case out of
        ReqLost \<Rightarrow> Clerk_Put_loop False kv1 args sch
      | RepLost \<Rightarrow> (let (r, kv', n) = Clerk_Put_loop False kv2 args sch in (r, kv', n + applied))
      | Delivered \<Rightarrow> (Some (Clerk_Put_reply firstAttempt e), kv2, applied))"

definition Clerk_Put :: "KVServer \<Rightarrow> PutArgs \<Rightarrow> schedule \<Rightarrow> Err option \<times> KVServer \<times> nat" where
  "Clerk_Put kv args sch = Clerk_Put_loop True kv args sch"

definition env_size :: "schedule \<Rightarrow> nat" where
  "env_size sch = sum_list (map (\<lambda>(env, _). length env) sch)"

section \<open>How far a version can move\<close>

lemma KVServer_Put_fst:
  "fst (KVServer_Put kv args) = put_key (PutKey args) kv (PutVersion args) (PutValue args)"
  by (cases args) (simp add: put_key_def)

lemma put_advance:
  "\<exists>j \<le> 1. StVersion (kv_abs (fst (KVServer_Put kv args)) k) = StVersion (kv_abs kv k) + of_nat j"
proof (cases "k = PutKey args")
  case True
  then show ?thesis using kvreg.cas_version [of k kv "PutVersion args" "PutValue args"]
    by (auto simp: KVServer_Put_fst intro: exI [of _ 1] exI [of _ 0] split: if_splits)
next
  case False
  then show ?thesis by (auto simp: kv_abs_put_other intro: exI [of _ 0])
qed

lemma serve_Cons:
  "snd (serve kv (r # rs)) =
     snd (serve (case r of ReqGet k \<Rightarrow> kv | ReqPut args \<Rightarrow> fst (KVServer_Put kv args)) rs)"
  by (cases r) (simp_all add: Let_def case_prod_beta)

lemma serve_advance:
  "\<exists>j \<le> length rs. StVersion (kv_abs (snd (serve kv rs)) k) = StVersion (kv_abs kv k) + of_nat j"
proof (induction rs arbitrary: kv)
  case Nil
  then show ?case by simp
next
  case (Cons r rs)
  let ?kv1 = "case r of ReqGet k \<Rightarrow> kv | ReqPut args \<Rightarrow> fst (KVServer_Put kv args)"
  have "\<exists>i \<le> 1. StVersion (kv_abs ?kv1 k) = StVersion (kv_abs kv k) + of_nat i"
    by (cases r) (use put_advance in \<open>auto intro: exI [of _ 0]\<close>)
  then obtain i where i: "i \<le> 1" "StVersion (kv_abs ?kv1 k) = StVersion (kv_abs kv k) + of_nat i"
    by blast
  obtain j where j: "j \<le> length rs"
      "StVersion (kv_abs (snd (serve ?kv1 rs)) k) = StVersion (kv_abs ?kv1 k) + of_nat j"
    using Cons.IH by blast
  have "i + j \<le> length (r # rs)" using i(1) j(1) by simp
  moreover have "StVersion (kv_abs (snd (serve kv (r # rs))) k) =
      StVersion (kv_abs kv k) + of_nat (i + j)"
    using i(2) j(2) by (simp add: serve_Cons add.assoc del: serve.simps)
  ultimately show ?case by blast
qed

lemma put_keeps_key: "versions kv k \<noteq> None \<Longrightarrow> versions (fst (KVServer_Put kv args)) k \<noteq> None"
  by (auto simp: KVServer_Put_def split: option.splits)

lemma serve_keeps_key: "versions kv k \<noteq> None \<Longrightarrow> versions (snd (serve kv rs)) k \<noteq> None"
proof (induction rs arbitrary: kv)
  case Nil
  then show ?case by simp
next
  case (Cons r rs)
  then have "versions (case r of ReqGet k \<Rightarrow> kv | ReqPut args \<Rightarrow> fst (KVServer_Put kv args)) k \<noteq> None"
    by (cases r) (use put_keeps_key in auto)
  then show ?case unfolding serve_Cons by (rule Cons.IH)
qed

section \<open>A put that has been applied is not applied again\<close>

lemma stale_put:
  assumes "StVersion (kv_abs kv (PutKey args)) = PutVersion args + 1 + of_nat j" and "Suc j < 2 ^ 64"
    and "versions kv (PutKey args) \<noteq> None"
  shows "KVServer_Put kv args = (kv, ErrVersion)"
proof -
  have "of_nat (Suc j) \<noteq> (0 :: 64 word)"
    using assms(2) by (simp add: word_of_nat_eq_0_iff nat_dvd_not_less del: of_nat_Suc)
  then have ne: "StVersion (kv_abs kv (PutKey args)) \<noteq> PutVersion args"
    using assms(1) by (simp add: add.assoc)
  then show ?thesis using assms(3) by (auto simp: KVServer_Put_def kv_abs_def)
qed

lemma loop_after_applied:
  assumes "StVersion (kv_abs kv (PutKey args)) = PutVersion args + 1 + of_nat j"
    and "Suc (j + env_size sch) < 2 ^ 64" and "versions kv (PutKey args) \<noteq> None"
  shows "snd (snd (Clerk_Put_loop False kv args sch)) = 0 \<and>
         fst (Clerk_Put_loop False kv args sch) \<in> {None, Some ErrMaybe}"
  using assms
proof (induction sch arbitrary: kv j)
  case Nil
  then show ?case by simp
next
  case (Cons a sch)
  obtain env out where a: "a = (env, out)" by (cases a)
  define kv1 where "kv1 = snd (serve kv env)"
  obtain i where i: "i \<le> length env"
      "StVersion (kv_abs kv1 (PutKey args)) = StVersion (kv_abs kv (PutKey args)) + of_nat i"
    using serve_advance [where rs = env and kv = kv and k = "PutKey args"] by (auto simp: kv1_def)
  have ver: "StVersion (kv_abs kv1 (PutKey args)) = PutVersion args + 1 + of_nat (j + i)"
    using i(2) Cons.prems(1) by (simp add: add.assoc)
  have size: "Suc ((j + i) + env_size sch) < 2 ^ 64"
    using Cons.prems(2) i(1) by (simp add: env_size_def a)
  have key: "versions kv1 (PutKey args) \<noteq> None"
    using serve_keeps_key [OF Cons.prems(3)] by (simp add: kv1_def)
  have put: "KVServer_Put kv1 args = (kv1, ErrVersion)"
    using stale_put [OF ver _ key] size by simp
  have IH: "snd (snd (Clerk_Put_loop False kv1 args sch)) = 0 \<and>
      fst (Clerk_Put_loop False kv1 args sch) \<in> {None, Some ErrMaybe}"
    by (rule Cons.IH [OF ver size key])
  show ?case using IH put
    by (cases out) (auto simp: a Let_def Clerk_Put_reply_def simp flip: kv1_def split: prod.splits)
qed

text \<open>A put that hits leaves the key present with the version moved on.\<close>

lemma put_hit:
  assumes "KVServer_Put kv args = (kv', OK)"
  shows "StVersion (kv_abs kv' (PutKey args)) = PutVersion args + 1 \<and> versions kv' (PutKey args) \<noteq> None"
  using assms by (auto simp: KVServer_Put_def kv_abs_def split: option.splits if_splits)

lemma put_not_hit: "KVServer_Put kv args = (kv', e) \<Longrightarrow> e \<noteq> OK \<Longrightarrow> kv' = kv"
  by (auto simp: KVServer_Put_def split: option.splits if_splits)

lemma put_err_cases: "snd (KVServer_Put kv args) \<in> {OK, ErrVersion, ErrNoKey}"
  by (simp add: put_err)

section \<open>What a returned error says\<close>

text \<open>The relation between what \<open>Put\<close> returns and how often the server applied it.\<close>

definition put_verdict :: "bool \<Rightarrow> Err option \<Rightarrow> nat \<Rightarrow> bool" where
  "put_verdict firstAttempt r n \<longleftrightarrow>
     (case r of
        None \<Rightarrow> n \<le> 1
      | Some e \<Rightarrow>
          (e = OK \<longrightarrow> n = 1) \<and> (e = ErrVersion \<longrightarrow> n = 0 \<and> firstAttempt) \<and> (e = ErrNoKey \<longrightarrow> n = 0) \<and>
          (e = ErrMaybe \<longrightarrow> n \<le> 1) \<and>
          e \<in> {OK, ErrVersion, ErrNoKey, ErrMaybe})"

lemma loop_verdict:
  assumes "Suc (env_size sch) < 2 ^ 64"
  shows "put_verdict firstAttempt (fst (Clerk_Put_loop firstAttempt kv args sch))
           (snd (snd (Clerk_Put_loop firstAttempt kv args sch)))"
  using assms
proof (induction sch arbitrary: kv firstAttempt)
  case Nil
  then show ?case by (simp add: put_verdict_def)
next
  case (Cons a sch)
  obtain env out where a: "a = (env, out)" by (cases a)
  define kv1 where "kv1 = snd (serve kv env)"
  obtain kv2 e where put: "KVServer_Put kv1 args = (kv2, e)" by (cases "KVServer_Put kv1 args")
  have size: "Suc (env_size sch) < 2 ^ 64" using Cons.prems by (simp add: env_size_def a)
  have IH: "put_verdict f (fst (Clerk_Put_loop f kv' args sch)) (snd (snd (Clerk_Put_loop f kv' args sch)))"
    for kv' f by (rule Cons.IH [OF size])
  have mono: "put_verdict False r n \<Longrightarrow> put_verdict firstAttempt r n" for r n
    by (auto simp: put_verdict_def split: option.splits)
  show ?case
  proof (cases out)
    case ReqLost
    then show ?thesis using mono [OF IH [of False kv1]] put by (simp add: a Let_def flip: kv1_def)
  next
    case Delivered
    have "e \<in> {OK, ErrVersion, ErrNoKey}" using put_err_cases [of kv1 args] put by simp
    then show ?thesis using Delivered put
      by (auto simp: a Let_def put_verdict_def Clerk_Put_reply_def simp flip: kv1_def)
  next
    case RepLost
    show ?thesis
    proof (cases "e = OK")
      case True
      with put put_hit have "StVersion (kv_abs kv2 (PutKey args)) = PutVersion args + 1 + of_nat 0"
        and "versions kv2 (PutKey args) \<noteq> None" by auto
      from loop_after_applied [OF this(1) _ this(2), of sch] size
      show ?thesis using RepLost put True
        by (auto simp: a Let_def put_verdict_def simp flip: kv1_def split: prod.splits)
    next
      case False
      then show ?thesis using mono [OF IH [of False kv2]] RepLost put
        by (auto simp: a Let_def simp flip: kv1_def split: prod.splits)
    qed
  qed
qed

section \<open>Properties\<close>

text \<open>C20: \<open>Clerk.Put\<close> over a network that loses requests and replies, with any activity of other
  clients between its attempts (fewer than 2 to the 64 minus 1 requests, so that no version comes
  round): the server applies the put at most once; \<open>OK\<close> is returned only when it was applied
  exactly once, \<open>ErrVersion\<close> and \<open>ErrNoKey\<close> only when it was not applied; \<open>ErrMaybe\<close> is the
  only answer that leaves it open.\<close>

theorem clerk_put_at_most_once:
  assumes "Suc (env_size sch) < 2 ^ 64" and "Clerk_Put kv args sch = (r, kv', n)"
  shows "n \<le> 1 \<and> (r = Some OK \<longrightarrow> n = 1) \<and> (r = Some ErrVersion \<or> r = Some ErrNoKey \<longrightarrow> n = 0) \<and>
         (r = None \<or> r \<in> {Some OK, Some ErrVersion, Some ErrNoKey, Some ErrMaybe})"
  using loop_verdict [OF assms(1), of True kv args] assms(2)
  by (auto simp: Clerk_Put_def put_verdict_def split: option.splits)

definition demo_put :: PutArgs where
  "demo_put = \<lparr>PutKey = ''a'', PutValue = ''x'', PutVersion = 0\<rparr>"

theorem clerk_put_at_most_once_witness:
  "fst (Clerk_Put MakeKVServer demo_put [([], RepLost), ([ReqGet ''a''], Delivered)]) = Some ErrMaybe \<and>
   snd (snd (Clerk_Put MakeKVServer demo_put [([], RepLost), ([ReqGet ''a''], Delivered)])) \<le> 1"
proof -
  let ?sch = "[([], RepLost), ([ReqGet ''a''], Delivered)]"
  have e: "fst (Clerk_Put MakeKVServer demo_put ?sch) = Some ErrMaybe"
    by (simp add: Clerk_Put_def demo_put_def MakeKVServer_def KVServer_Put_def Clerk_Put_reply_def)
  have "Suc (env_size ?sch) < 2 ^ 64" by (simp add: env_size_def)
  from clerk_put_at_most_once [OF this, of MakeKVServer demo_put] e show ?thesis
    by (cases "Clerk_Put MakeKVServer demo_put ?sch") auto
qed

text \<open>The retry loops return as soon as the network lets one attempt through, however many
  attempts are lost before it, and \<open>Get\<close> then returns the server's answer of that moment.\<close>

theorem clerk_returns_when_delivered:
  assumes "\<forall>a \<in> set sch. snd a \<noteq> Delivered"
  shows "fst (Clerk_Put kv args (sch @ [(env, Delivered)])) \<noteq> None \<and>
         (\<exists>kv1. Clerk_Get kv key (sch @ [(env, Delivered)]) = (Some (KVServer_Get kv1 key), kv1))"
proof
  have "fst (Clerk_Put_loop f kv args (sch @ [(env, Delivered)])) \<noteq> None" for f
    using assms
  proof (induction sch arbitrary: kv f)
    case Nil
    then show ?case by (simp add: Let_def split: prod.splits)
  next
    case (Cons a sch)
    then have IH: "fst (Clerk_Put_loop f' kv' args (sch @ [(env, Delivered)])) \<noteq> None" for f' kv'
      by simp
    obtain env' out where "a = (env', out)" by (cases a)
    with Cons.prems IH show ?case
      by (cases out) (auto simp: Let_def split: prod.splits, metis fst_conv)
  qed
  then show "fst (Clerk_Put kv args (sch @ [(env, Delivered)])) \<noteq> None" by (simp add: Clerk_Put_def)
  show "\<exists>kv1. Clerk_Get kv key (sch @ [(env, Delivered)]) = (Some (KVServer_Get kv1 key), kv1)"
    using assms by (induction sch arbitrary: kv) (auto simp: Let_def)
qed

theorem clerk_returns_when_delivered_witness:
  "fst (Clerk_Put MakeKVServer demo_put ([([], ReqLost), ([], RepLost)] @ [([], Delivered)])) \<noteq> None \<and>
   (\<exists>kv1. Clerk_Get MakeKVServer ''a'' ([([], ReqLost), ([], RepLost)] @ [([], Delivered)]) =
      (Some (KVServer_Get kv1 ''a''), kv1))"
  by (rule clerk_returns_when_delivered) simp

end
