(* ===== verification/LockService.thy ===== *)
theory LockService
  imports KVClerk
begin

text \<open>
  The lock built on the key/value clerk (\<open>kvsrv1/lock/lock.go\<close>). Any number of clients run
  \<open>MakeLock\<close>, \<open>Acquire\<close> and \<open>Release\<close> against one server; every RPC attempt of their clerks is
  a step of its own, so requests and replies are lost and clients interleave at any point. A
  client's program counter says which clerk call it is in.
\<close>

section \<open>Clients\<close>

record Lock =
  lockKey :: string
  clientID :: string
  lockVersion :: Tversion

datatype lock_pc =
    InitPut bool              \<comment> \<open>in \<open>MakeLock\<close>'s \<open>Put(l, "", 0)\<close>; first attempt?\<close>
  | Idle
  | AcqGet                    \<comment> \<open>in \<open>Acquire\<close>'s \<open>Get\<close>\<close>
  | AcqPut Tversion bool      \<comment> \<open>in \<open>Acquire\<close>'s \<open>Put(key, clientID, version)\<close>\<close>
  | Held                      \<comment> \<open>\<open>Acquire\<close> has returned\<close>
  | RelPut bool               \<comment> \<open>in \<open>Release\<close>'s \<open>Put(key, "", version)\<close>\<close>

definition MakeLock :: "string \<Rightarrow> string \<Rightarrow> Lock \<times> lock_pc" where
  "MakeLock l cid = (\<lparr>lockKey = l, clientID = cid, lockVersion = 0\<rparr>, InitPut True)"

text \<open>The \<open>switch\<close> of \<open>Acquire\<close> after \<open>Get\<close>: an absent key is claimed at version 0, a free lock at
  the version read; a lock this client already holds is adopted; anything else is retried.\<close>

definition Acquire_got :: "Lock \<Rightarrow> GetReply \<Rightarrow> Lock \<times> lock_pc" where
  "Acquire_got lk r =
     (if ReplyErr r = ErrNoKey then (lk, AcqPut 0 True)
      else if ReplyErr r = OK then
        (if ReplyValue r = [] then (lk, AcqPut (ReplyVersion r) True)
         else if ReplyValue r = clientID lk then (lk\<lparr>lockVersion := ReplyVersion r\<rparr>, Held)
         else (lk, AcqGet))
      else (lk, AcqGet))"

definition Acquire_put :: "Lock \<Rightarrow> Tversion \<Rightarrow> Err \<Rightarrow> Lock \<times> lock_pc" where
  "Acquire_put lk v e = (if e = OK then (lk\<lparr>lockVersion := v + 1\<rparr>, Held) else (lk, AcqGet))"

text \<open>\<open>Release\<close> ignores the answer of its \<open>Put\<close>.\<close>

definition Release_put :: "Lock \<Rightarrow> Err \<Rightarrow> Lock \<times> lock_pc" where
  "Release_put lk e = (lk, Idle)"

text \<open>The put a client is in, if any, and what it does with a returned error.\<close>

fun current_put :: "Lock \<Rightarrow> lock_pc \<Rightarrow> (PutArgs \<times> bool) option" where
  "current_put lk (InitPut f) = Some (\<lparr>PutKey = lockKey lk, PutValue = [], PutVersion = 0\<rparr>, f)"
| "current_put lk (AcqPut v f) =
     Some (\<lparr>PutKey = lockKey lk, PutValue = clientID lk, PutVersion = v\<rparr>, f)"
| "current_put lk (RelPut f) =
     Some (\<lparr>PutKey = lockKey lk, PutValue = [], PutVersion = lockVersion lk\<rparr>, f)"
| "current_put lk _ = None"

fun retry_put :: "lock_pc \<Rightarrow> lock_pc" where
  "retry_put (InitPut f) = InitPut False"
| "retry_put (AcqPut v f) = AcqPut v False"
| "retry_put (RelPut f) = RelPut False"
| "retry_put p = p"

fun put_returned :: "Lock \<Rightarrow> lock_pc \<Rightarrow> Err \<Rightarrow> Lock \<times> lock_pc" where
  "put_returned lk (InitPut f) e = (lk, Idle)"
| "put_returned lk (AcqPut v f) e = Acquire_put lk v e"
| "put_returned lk (RelPut f) e = Release_put lk e"
| "put_returned lk p e = (lk, p)"

section \<open>The system\<close>

record lock_sys =
  srv :: KVServer
  lks :: "nat \<Rightarrow> Lock"
  pcs :: "nat \<Rightarrow> lock_pc"

definition lock_init :: "string \<Rightarrow> (nat \<Rightarrow> string) \<Rightarrow> lock_sys" where
  "lock_init l ids =
     \<lparr>srv = MakeKVServer, lks = (\<lambda>i. fst (MakeLock l (ids i))), pcs = (\<lambda>i. snd (MakeLock l (ids i)))\<rparr>"

definition set_client :: "lock_sys \<Rightarrow> nat \<Rightarrow> Lock \<times> lock_pc \<Rightarrow> lock_sys" where
  "set_client s i c = s\<lparr>lks := (lks s)(i := fst c), pcs := (pcs s)(i := snd c)\<rparr>"

inductive lock_step :: "lock_sys \<Rightarrow> lock_sys \<Rightarrow> bool" where
  acquire: "pcs s i = Idle \<Longrightarrow> lock_step s (set_client s i (lks s i, AcqGet))"
| release: "pcs s i = Held \<Longrightarrow> lock_step s (set_client s i (lks s i, RelPut True))"
| get_delivered: "pcs s i = AcqGet \<Longrightarrow>
    lock_step s (set_client s i (Acquire_got (lks s i) (KVServer_Get (srv s) (lockKey (lks s i)))))"
| put_req_lost: "current_put (lks s i) (pcs s i) = Some (args, f) \<Longrightarrow>
    lock_step s (set_client s i (lks s i, retry_put (pcs s i)))"
| put_rep_lost: "current_put (lks s i) (pcs s i) = Some (args, f) \<Longrightarrow>
    lock_step s ((set_client s i (lks s i, retry_put (pcs s i)))
      \<lparr>srv := fst (KVServer_Put (srv s) args)\<rparr>)"
| put_delivered: "current_put (lks s i) (pcs s i) = Some (args, f) \<Longrightarrow>
    KVServer_Put (srv s) args = (kv', e) \<Longrightarrow>
    lock_step s ((set_client s i (put_returned (lks s i) (pcs s i) (Clerk_Put_reply f e)))\<lparr>srv := kv'\<rparr>)"

text \<open>The states after \<open>n\<close> steps: the number of steps bounds how far a version can have moved.\<close>

inductive lock_run :: "string \<Rightarrow> (nat \<Rightarrow> string) \<Rightarrow> nat \<Rightarrow> lock_sys \<Rightarrow> bool" for l ids where
  run_init: "lock_run l ids 0 (lock_init l ids)"
| run_step: "lock_run l ids n s \<Longrightarrow> lock_step s t \<Longrightarrow> lock_run l ids (Suc n) t"

section \<open>The invariant\<close>

abbreviation lock_val :: "string \<Rightarrow> lock_sys \<Rightarrow> string" where
  "lock_val l s \<equiv> StValue (kv_abs (srv s) l)"

abbreviation lock_ver :: "string \<Rightarrow> lock_sys \<Rightarrow> Tversion" where
  "lock_ver l s \<equiv> StVersion (kv_abs (srv s) l)"

text \<open>What is known of one client against the register's value and version: versions it
  remembers are not ahead of the register; a version it read a free lock at still means a
  free lock; a version it acquired at still means its own identifier; and a holder's
  identifier is in the register.\<close>

definition client_inv :: "string \<Rightarrow> Tversion \<Rightarrow> Lock \<Rightarrow> lock_pc \<Rightarrow> bool" where
  "client_inv val ver lk p \<longleftrightarrow>
     lockVersion lk \<le> ver \<and> (ver = lockVersion lk \<longrightarrow> val \<in> {[], clientID lk}) \<and>
     (\<forall>v f. p = AcqPut v f \<longrightarrow> v \<le> ver \<and> (ver = v \<longrightarrow> val = [])) \<and>
     (p = Held \<longrightarrow> val = clientID lk \<and> ver = lockVersion lk)"

definition lock_inv :: "string \<Rightarrow> (nat \<Rightarrow> string) \<Rightarrow> nat \<Rightarrow> lock_sys \<Rightarrow> bool" where
  "lock_inv l ids n s \<longleftrightarrow>
     kv_inv (srv s) \<and> unat (lock_ver l s) \<le> n \<and> (lock_ver l s = 0 \<longrightarrow> lock_val l s = []) \<and>
     (\<forall>i. lockKey (lks s i) = l \<and> clientID (lks s i) = ids i \<and>
          client_inv (lock_val l s) (lock_ver l s) (lks s i) (pcs s i))"

lemma lock_inv_init: "lock_inv l ids 0 (lock_init l ids)"
  by (simp add: lock_inv_def lock_init_def MakeLock_def client_inv_def KvModel_Init_def)

section \<open>Preservation\<close>

text \<open>A client that leaves its put or its critical section keeps only the remembered version.\<close>

lemma client_inv_weaken:
  "client_inv val ver lk p \<Longrightarrow> (\<And>v f. q \<noteq> AcqPut v f) \<Longrightarrow> q \<noteq> Held \<Longrightarrow> client_inv val ver lk q"
  by (auto simp: client_inv_def)

lemma client_inv_retry: "client_inv val ver lk p \<Longrightarrow> client_inv val ver lk (retry_put p)"
  by (cases p) (auto simp: client_inv_def)

lemma word_le_add1: "(v :: 64 word) \<le> w \<Longrightarrow> w + 1 \<noteq> 0 \<Longrightarrow> v < w + 1"
  using unatSuc [of w] by (simp add: word_less_nat_alt word_le_nat_alt add.commute)

text \<open>When the register moves on, whoever is not in its critical section keeps its invariant:
  every version it remembers is now stale.\<close>

lemma client_inv_moved:
  assumes "client_inv val ver lk p" and "p \<noteq> Held" and "ver + 1 \<noteq> 0"
  shows "client_inv x (ver + 1) lk p"
proof -
  have stale: "v \<le> ver \<Longrightarrow> v \<le> ver + 1 \<and> ver + 1 \<noteq> v" for v
    using word_le_add1 [of v ver] assms(3) by auto
  show ?thesis using assms(1,2) stale by (auto simp: client_inv_def)
qed

lemma lock_inv_client:
  assumes "lock_inv l ids n s" and "lockKey lk' = l" and "clientID lk' = ids i"
    and "client_inv (lock_val l s) (lock_ver l s) lk' p'"
  shows "lock_inv l ids (Suc n) (set_client s i (lk', p'))"
  using assms by (auto simp: lock_inv_def set_client_def)

lemma lock_invD:
  assumes "lock_inv l ids n s"
  shows "lockKey (lks s i) = l" "clientID (lks s i) = ids i"
    "client_inv (lock_val l s) (lock_ver l s) (lks s i) (pcs s i)"
  using assms by (auto simp: lock_inv_def)

lemma lock_inv_pc:
  assumes inv: "lock_inv l ids n s" and "client_inv (lock_val l s) (lock_ver l s) (lks s i) p'"
  shows "lock_inv l ids (Suc n) (set_client s i (lks s i, p'))"
  using lock_inv_client [OF inv] lock_invD [OF inv] assms(2) by simp

lemma client_inv_put_legit:
  assumes "client_inv val ver lk p" and "current_put lk p = Some (args, f)"
    and "PutVersion args = ver" and "ver = 0 \<longrightarrow> val = []"
  shows "val \<in> {[], clientID lk}"
  using assms by (cases p) (auto simp: client_inv_def)

lemma put_fields:
  "current_put lk p = Some (args, f) \<Longrightarrow> PutKey args = lockKey lk \<and> p \<noteq> Held"
  by (cases p) auto

text \<open>A put that hits, seen by everybody: the version moves on, and nobody else was inside.\<close>

lemma lock_inv_hit:
  assumes inv: "lock_inv l ids n s" and n: "Suc n < 2 ^ 64"
    and ids: "inj ids" "\<And>i. ids i \<noteq> []"
    and put: "current_put (lks s i) (pcs s i) = Some (args, f)"
    and hit: "PutVersion args = lock_ver l s"
    and kv: "fst (KVServer_Put (srv s) args) = kv'"
    and c: "lockKey lk' = l" "clientID lk' = ids i"
      "client_inv (PutValue args) (lock_ver l s + 1) lk' p'"
  shows "lock_inv l ids (Suc n) ((set_client s i (lk', p'))\<lparr>srv := kv'\<rparr>)"
proof -
  have key: "PutKey args = l" using put_fields [OF put] inv by (simp add: lock_inv_def)
  have ver: "StVersion (kv_abs kv' l) = lock_ver l s + 1"
    and val: "StValue (kv_abs kv' l) = PutValue args"
    using kvreg.cas_hit [where k = l and s = "srv s" and v = "PutVersion args" and x = "PutValue args"]
      hit kv key
      KVServer_Put_fst [of "srv s" args] by auto
  have un: "unat (lock_ver l s) \<le> n" using inv by (simp add: lock_inv_def)
  have nz: "lock_ver l s + 1 \<noteq> 0" and un1: "unat (lock_ver l s + 1) \<le> Suc n"
    using un n by (auto simp: unat_word_ariths unat_eq_0 [symmetric] mod_if)
  have legit: "lock_val l s \<in> {[], ids i}"
    using client_inv_put_legit [of "lock_val l s" "lock_ver l s" "lks s i" "pcs s i" args f] put hit inv
    by (auto simp: lock_inv_def)
  have others: "client_inv (PutValue args) (lock_ver l s + 1) (lks s j) (pcs s j)" if "j \<noteq> i" for j
  proof (rule client_inv_moved [OF _ _ nz])
    show "client_inv (lock_val l s) (lock_ver l s) (lks s j) (pcs s j)"
      using inv by (simp add: lock_inv_def)
    show "pcs s j \<noteq> Held"
    proof
      assume "pcs s j = Held"
      then have "lock_val l s = ids j" using lock_invD [OF inv, of j] by (simp add: client_inv_def)
      with legit ids(2) [of j] have "ids i = ids j" by auto
      with ids(1) that show False by (auto dest: injD)
    qed
  qed
  have kvi: "kv_inv kv'" using inv kv_inv_put [of "srv s" args] kv by (simp add: lock_inv_def)
  show ?thesis using inv others c ver val nz un1 kvi
    by (auto simp: lock_inv_def set_client_def)
qed

lemma lock_inv_miss:
  assumes "lock_inv l ids n s" and "current_put (lks s i) (pcs s i) = Some (args, f)"
    and "PutVersion args \<noteq> lock_ver l s"
  shows "fst (KVServer_Put (srv s) args) = srv s \<and> snd (KVServer_Put (srv s) args) \<noteq> OK"
proof -
  have key: "PutKey args = l" using put_fields [OF assms(2)] assms(1) by (simp add: lock_inv_def)
  have e: "snd (KVServer_Put (srv s) args) \<noteq> OK" using assms(3) key by (simp add: put_err)
  then show ?thesis using put_not_hit [of "srv s" args] by (cases "KVServer_Put (srv s) args") auto
qed

lemma acquire_got_inv:
  assumes "kv_inv kv" and "client_inv (StValue (kv_abs kv l)) (StVersion (kv_abs kv l)) lk p"
    and "Acquire_got lk (KVServer_Get kv l) = (lk', p')"
  shows "client_inv (StValue (kv_abs kv l)) (StVersion (kv_abs kv l)) lk' p'"
proof -
  have v: "ReplyVersion (KVServer_Get kv l) = StVersion (kv_abs kv l)"
    "ReplyValue (KVServer_Get kv l) = StValue (kv_abs kv l)"
    using get_version [OF assms(1)] get_value [OF assms(1)] by auto
  have absent: "ReplyErr (KVServer_Get kv l) = ErrNoKey \<Longrightarrow> StValue (kv_abs kv l) = []"
    by (simp add: get_err kv_abs_def split: if_splits)
  show ?thesis using assms(2,3) v absent
    by (auto simp: Acquire_got_def client_inv_def split: if_splits)
qed

lemma put_returned_fields:
  "put_returned lk p e = (lk', p') \<Longrightarrow> lockKey lk' = lockKey lk \<and> clientID lk' = clientID lk"
  by (cases p) (auto simp: Acquire_put_def Release_put_def split: if_splits)

lemma Acquire_got_fields:
  "Acquire_got lk r = (lk', p') \<Longrightarrow> lockKey lk' = lockKey lk \<and> clientID lk' = clientID lk"
  by (auto simp: Acquire_got_def split: if_splits)

lemma put_returned_hit:
  assumes "current_put lk p = Some (args, f)" and "client_inv val ver lk p" and "PutVersion args = ver"
    and "ver + 1 \<noteq> 0" and "put_returned lk p OK = (lk', p')"
  shows "client_inv (PutValue args) (ver + 1) lk' p'"
proof (cases p)
  case (AcqPut v g)
  then show ?thesis using assms by (auto simp: Acquire_put_def client_inv_def)
next
  case (InitPut g)
  then show ?thesis using assms client_inv_moved [OF client_inv_weaken [OF assms(2), of Idle]] by auto
next
  case (RelPut g)
  then show ?thesis using assms client_inv_moved [OF client_inv_weaken [OF assms(2), of Idle]]
    by (auto simp: Release_put_def)
qed (use assms in auto)

lemma put_returned_miss:
  assumes "current_put lk p = Some (args, f)" and "client_inv val ver lk p" and "e \<noteq> OK"
    and "put_returned lk p e = (lk', p')"
  shows "lk' = lk \<and> client_inv val ver lk' p'"
  using assms by (cases p) (auto simp: Acquire_put_def Release_put_def intro: client_inv_weaken)

lemma lock_step_inv:
  assumes "lock_step s t" and inv: "lock_inv l ids n s" and n: "Suc n < 2 ^ 64"
    and ids: "inj ids" "\<And>i. ids i \<noteq> []"
  shows "lock_inv l ids (Suc n) t"
  using assms(1)
proof cases
  case (acquire i)
  then show ?thesis using lock_inv_pc [OF inv client_inv_weaken [OF lock_invD(3) [OF inv]]] by simp
next
  case (release i)
  then show ?thesis using lock_inv_pc [OF inv client_inv_weaken [OF lock_invD(3) [OF inv]]] by simp
next
  case (get_delivered i)
  obtain lk' p' where got: "Acquire_got (lks s i) (KVServer_Get (srv s) l) = (lk', p')" by fastforce
  have "client_inv (lock_val l s) (lock_ver l s) lk' p'"
    using acquire_got_inv [OF _ lock_invD(3) [OF inv] got] inv by (simp add: lock_inv_def)
  then have "lock_inv l ids (Suc n) (set_client s i (lk', p'))"
    using lock_inv_client [OF inv] Acquire_got_fields [OF got] inv by (simp add: lock_inv_def)
  then show ?thesis using get_delivered inv got by (simp add: lock_inv_def)
next
  case (put_req_lost i args f)
  then show ?thesis using lock_inv_pc [OF inv client_inv_retry [OF lock_invD(3) [OF inv]]] by simp
next
  case (put_rep_lost i args f)
  have ci: "lockKey (lks s i) = l" "clientID (lks s i) = ids i"
    "client_inv (lock_val l s) (lock_ver l s) (lks s i) (retry_put (pcs s i))"
    using inv by (auto simp: lock_inv_def intro: client_inv_retry)
  show ?thesis
  proof (cases "PutVersion args = lock_ver l s")
    case True
    have nz: "lock_ver l s + 1 \<noteq> 0"
      using inv n by (auto simp: lock_inv_def unat_word_ariths unat_eq_0 [symmetric] mod_if)
    have "retry_put (pcs s i) \<noteq> Held" using put_rep_lost(2) by (cases "pcs s i") auto
    then have "client_inv (PutValue args) (lock_ver l s + 1) (lks s i) (retry_put (pcs s i))"
      using client_inv_moved [OF ci(3) _ nz] by simp
    then show ?thesis
      using lock_inv_hit [OF inv n ids put_rep_lost(2) True refl ci(1,2)] put_rep_lost(1) by simp
  next
    case False
    have "t = set_client s i (lks s i, retry_put (pcs s i))"
      using put_rep_lost(1) lock_inv_miss [OF inv put_rep_lost(2) False] by (simp add: set_client_def)
    then show ?thesis using lock_inv_client [OF inv ci] by simp
  qed
next
  case (put_delivered i args f kv' e)
  obtain lk' p' where ret: "put_returned (lks s i) (pcs s i) (Clerk_Put_reply f e) = (lk', p')"
    by fastforce
  have ci: "client_inv (lock_val l s) (lock_ver l s) (lks s i) (pcs s i)"
    using inv by (simp add: lock_inv_def)
  have flds: "lockKey lk' = l" "clientID lk' = ids i"
    using put_returned_fields [OF ret] inv by (auto simp: lock_inv_def)
  show ?thesis
  proof (cases "PutVersion args = lock_ver l s")
    case True
    have nz: "lock_ver l s + 1 \<noteq> 0"
      using inv n by (auto simp: lock_inv_def unat_word_ariths unat_eq_0 [symmetric] mod_if)
    have key: "PutKey args = l" using put_fields [OF put_delivered(2)] inv by (simp add: lock_inv_def)
    have "e = OK" using put_err [of "srv s" args] put_delivered(3) True key by simp
    then have "client_inv (PutValue args) (lock_ver l s + 1) lk' p'"
      using put_returned_hit [OF put_delivered(2) ci True nz] ret by (simp add: Clerk_Put_reply_def)
    then show ?thesis
      using lock_inv_hit [OF inv n ids put_delivered(2) True _ flds] put_delivered(1,3) ret by simp
  next
    case False
    have kv: "kv' = srv s" and e: "e \<noteq> OK"
      using lock_inv_miss [OF inv put_delivered(2) False] put_delivered(3) by auto
    have "Clerk_Put_reply f e \<noteq> OK" using e by (simp add: Clerk_Put_reply_def)
    from put_returned_miss [OF put_delivered(2) ci this ret]
    have "client_inv (lock_val l s) (lock_ver l s) lk' p'" by blast
    moreover have "t = set_client s i (lk', p')"
      using put_delivered(1) ret kv by (simp add: set_client_def)
    ultimately show ?thesis using lock_inv_client [OF inv flds] by simp
  qed
qed

lemma lock_run_inv:
  assumes "lock_run l ids n s" and "n < 2 ^ 64" and "inj ids" and "\<And>i. ids i \<noteq> []"
  shows "lock_inv l ids n s"
  using assms(1,2)
proof (induction rule: lock_run.induct)
  case run_init
  show ?case by (rule lock_inv_init)
next
  case (run_step n s t)
  then show ?case using lock_step_inv [OF run_step.hyps(2) _ _ assms(3,4)] by simp
qed

text \<open>The exact steps of the first acquisition by client 0, for the witnesses.\<close>

definition demo_ids :: "nat \<Rightarrow> string" where
  "demo_ids i = replicate (Suc i) CHR ''a''"

lemma demo_ids_ok: "inj demo_ids" "demo_ids i \<noteq> []"
  by (auto simp: demo_ids_def inj_def dest: arg_cong [of _ _ length])

definition demo_held :: lock_sys where
  "demo_held =
     (let s1 = (set_client (lock_init ''l'' demo_ids) 0
                 (\<lparr>lockKey = ''l'', clientID = demo_ids 0, lockVersion = 0\<rparr>, Idle))
                 \<lparr>srv := put_key ''l'' MakeKVServer 0 []\<rparr>
      in (set_client s1 0 (\<lparr>lockKey = ''l'', clientID = demo_ids 0, lockVersion = 2\<rparr>, Held))
           \<lparr>srv := put_key ''l'' (put_key ''l'' MakeKVServer 0 []) 1 (demo_ids 0)\<rparr>)"

lemma demo_held_run: "lock_run ''l'' demo_ids 4 demo_held"
proof -
  let ?lk = "\<lparr>lockKey = ''l'', clientID = demo_ids 0, lockVersion = 0\<rparr>"
  let ?s0 = "lock_init ''l'' demo_ids"
  let ?kv1 = "put_key ''l'' MakeKVServer 0 []"
  let ?s1 = "(set_client ?s0 0 (?lk, Idle))\<lparr>srv := ?kv1\<rparr>"
  let ?s2 = "set_client ?s1 0 (?lk, AcqGet)"
  let ?s3 = "set_client ?s2 0 (?lk, AcqPut 1 True)"
  note ev = lock_init_def MakeLock_def set_client_def put_key_def KVServer_Put_def MakeKVServer_def
    KVServer_Get_def Acquire_got_def Acquire_put_def Clerk_Put_reply_def demo_ids_def
  have "lock_step ?s0 ?s1"
    using lock_step.put_delivered [of ?s0 0 "\<lparr>PutKey = ''l'', PutValue = [], PutVersion = 0\<rparr>" True ?kv1 OK]
    by (simp add: ev)
  moreover have "lock_step ?s1 ?s2"
    using lock_step.acquire [of ?s1 0] by (simp add: ev)
  moreover have "lock_step ?s2 ?s3"
    using lock_step.get_delivered [of ?s2 0] by (simp add: ev)
  moreover have "lock_step ?s3 demo_held"
    using lock_step.put_delivered [of ?s3 0
        "\<lparr>PutKey = ''l'', PutValue = demo_ids 0, PutVersion = 1\<rparr>" True
        "put_key ''l'' ?kv1 1 (demo_ids 0)" OK]
    by (simp add: ev demo_held_def)
  ultimately have "lock_run ''l'' demo_ids (Suc (Suc (Suc (Suc 0)))) demo_held"
    by (meson lock_run.intros)
  then show ?thesis by (simp add: numeral_eq_Suc)
qed

section \<open>Properties\<close>

text \<open>C7: Mutual exclusion. Whatever the network loses and however the clients interleave, for
  fewer than 2 to the 64 steps two clients whose identifiers are distinct and not empty never
  hold the lock at the same time.\<close>

theorem lock_mutual_exclusion:
  assumes "lock_run l ids n s" and "n < 2 ^ 64" and "inj ids" and "\<And>i. ids i \<noteq> []"
    and "pcs s i = Held" and "pcs s j = Held"
  shows "i = j"
proof -
  have inv: "lock_inv l ids n s" using assms(1-4) by (rule lock_run_inv)
  then have "lock_val l s = ids i" "lock_val l s = ids j"
    using lock_invD [OF inv, of i] lock_invD [OF inv, of j] assms(5,6) by (auto simp: client_inv_def)
  then have "ids i = ids j" by simp
  with assms(3) show ?thesis by (rule injD)
qed

theorem lock_mutual_exclusion_witness:
  "pcs demo_held 0 = Held \<and> pcs demo_held 1 \<noteq> Held"
proof -
  have held: "pcs demo_held 0 = Held" by (simp add: demo_held_def set_client_def Let_def)
  then show ?thesis
    using lock_mutual_exclusion [OF demo_held_run _ demo_ids_ok(1) demo_ids_ok(2) held, of 1] by auto
qed

text \<open>A holder can release: while a client holds the lock the server stores its identifier
  at the version the client remembers, so the put of its first \<open>Release\<close> attempt succeeds and
  frees the lock.\<close>

theorem lock_holder_can_release:
  assumes "lock_run l ids n s" and "n < 2 ^ 64" and "inj ids" and "\<And>i. ids i \<noteq> []"
    and "pcs s i = Held" and "current_put (lks s i) (RelPut True) = Some (args, f)"
  shows "snd (KVServer_Put (srv s) args) = OK \<and>
         data (fst (KVServer_Put (srv s) args)) l = Some []"
proof -
  have inv: "lock_inv l ids n s" using assms(1-4) by (rule lock_run_inv)
  have ver: "lock_ver l s = lockVersion (lks s i)" and key: "lockKey (lks s i) = l"
    using lock_invD [OF inv, of i] assms(5) by (auto simp: client_inv_def)
  have args: "args = \<lparr>PutKey = l, PutValue = [], PutVersion = lockVersion (lks s i)\<rparr>"
    using assms(6) key by auto
  have ok: "snd (KVServer_Put (srv s) args) = OK" using ver by (simp add: args put_err)
  moreover have "data (fst (KVServer_Put (srv s) args)) l = Some []"
    using ok by (auto simp: args KVServer_Put_def split: option.splits if_splits)
  ultimately show ?thesis ..
qed

theorem lock_holder_can_release_witness:
  "let args = \<lparr>PutKey = ''l'', PutValue = [], PutVersion = 2\<rparr> in
   snd (KVServer_Put (srv demo_held) args) = OK \<and>
   data (fst (KVServer_Put (srv demo_held) args)) ''l'' = Some []"
proof -
  let ?args = "\<lparr>PutKey = ''l'', PutValue = [], PutVersion = 2\<rparr>"
  have held: "pcs demo_held 0 = Held" and put: "current_put (lks demo_held 0) (RelPut True) = Some (?args, True)"
    by (simp_all add: demo_held_def set_client_def Let_def)
  show ?thesis
    using lock_holder_can_release [OF demo_held_run _ demo_ids_ok(1) demo_ids_ok(2) held put] by simp
qed

end
