(* ===== verification/RaftLog.thy ===== *)
theory RaftLog
  imports RaftPeer
begin

text \<open>
  The log of one peer: what \<open>AppendEntries\<close>, \<open>Snapshot\<close> and \<open>InstallSnapshot\<close> do to it, when
  an append panics, what a leader sends and how far a follower commits on it, and the order in
  which the applier hands entries to the service. Indices are the real indices of the code;
  \<open>entry_at\<close> is the log seen as a map from real indices to entries.
\<close>

section \<open>Well-formed peers\<close>

definition peer_wf :: "('c, 's) Raft \<Rightarrow> bool" where
  "peer_wf rf \<longleftrightarrow>
     log rf \<noteq> [] \<and> Term (log rf ! 0) = lastIncludedTerm rf \<and> 0 \<le> lastIncludedIndex rf \<and>
     (state rf = Leader \<longrightarrow>
        length (nextIndex rf) = npeers rf \<and> length (matchIndex rf) = npeers rf)"

definition entry_at :: "('c, 's) Raft \<Rightarrow> int \<Rightarrow> 'c LogEntry option" where
  "entry_at rf i =
     (if lastIncludedIndex rf < i \<and> i \<le> getLastLogIndex rf
      then Some (log rf ! nat (i - lastIncludedIndex rf)) else None)"

lemmas index_defs = getLastLogIndex_def getLogTerm_def toArrayIndex_def Let_def

lemma raft_sel [simp]:
  "persister (resetElectionTimeout tk rf) = persister rf"
  "currentTerm (resetElectionTimeout tk rf) = currentTerm rf"
  "votedFor (resetElectionTimeout tk rf) = votedFor rf"
  "log (resetElectionTimeout tk rf) = log rf"
  "commitIndex (resetElectionTimeout tk rf) = commitIndex rf"
  "lastApplied (resetElectionTimeout tk rf) = lastApplied rf"
  "nextIndex (resetElectionTimeout tk rf) = nextIndex rf"
  "matchIndex (resetElectionTimeout tk rf) = matchIndex rf"
  "state (resetElectionTimeout tk rf) = state rf"
  "npeers (resetElectionTimeout tk rf) = npeers rf"
  "me (resetElectionTimeout tk rf) = me rf"
  "votesReceived (resetElectionTimeout tk rf) = votesReceived rf"
  "lastIncludedIndex (resetElectionTimeout tk rf) = lastIncludedIndex rf"
  "lastIncludedTerm (resetElectionTimeout tk rf) = lastIncludedTerm rf"
  by (simp_all add: resetElectionTimeout_def)

lemma persist_sel [simp]:
  "currentTerm (persist rf) = currentTerm rf" "votedFor (persist rf) = votedFor rf"
  "log (persist rf) = log rf" "commitIndex (persist rf) = commitIndex rf"
  "lastApplied (persist rf) = lastApplied rf" "nextIndex (persist rf) = nextIndex rf"
  "matchIndex (persist rf) = matchIndex rf" "state (persist rf) = state rf"
  "npeers (persist rf) = npeers rf" "me (persist rf) = me rf"
  "votesReceived (persist rf) = votesReceived rf"
  "lastIncludedIndex (persist rf) = lastIncludedIndex rf"
  "lastIncludedTerm (persist rf) = lastIncludedTerm rf"
  by (simp_all add: persist_def)

lemma persist_with_sel [simp]:
  "currentTerm (persist_with sn rf) = currentTerm rf" "votedFor (persist_with sn rf) = votedFor rf"
  "log (persist_with sn rf) = log rf" "commitIndex (persist_with sn rf) = commitIndex rf"
  "lastApplied (persist_with sn rf) = lastApplied rf" "nextIndex (persist_with sn rf) = nextIndex rf"
  "matchIndex (persist_with sn rf) = matchIndex rf" "state (persist_with sn rf) = state rf"
  "npeers (persist_with sn rf) = npeers rf" "me (persist_with sn rf) = me rf"
  "votesReceived (persist_with sn rf) = votesReceived rf"
  "lastIncludedIndex (persist_with sn rf) = lastIncludedIndex rf"
  "lastIncludedTerm (persist_with sn rf) = lastIncludedTerm rf"
  by (simp_all add: persist_with_def)

lemma newTerm_sel [simp]:
  "currentTerm (newTerm t rf) = t" "votedFor (newTerm t rf) = -1" "state (newTerm t rf) = Follower"
  "log (newTerm t rf) = log rf" "commitIndex (newTerm t rf) = commitIndex rf"
  "lastApplied (newTerm t rf) = lastApplied rf" "nextIndex (newTerm t rf) = nextIndex rf"
  "matchIndex (newTerm t rf) = matchIndex rf" "npeers (newTerm t rf) = npeers rf"
  "me (newTerm t rf) = me rf" "votesReceived (newTerm t rf) = votesReceived rf"
  "lastIncludedIndex (newTerm t rf) = lastIncludedIndex rf"
  "lastIncludedTerm (newTerm t rf) = lastIncludedTerm rf"
  by (simp_all add: newTerm_def)

section \<open>Merging entries into the log\<close>

text \<open>How many of the entries offered from real index \<open>i\<close> on are already there, by term.\<close>

fun agreeing :: "('c, 's) Raft \<Rightarrow> int \<Rightarrow> 'c LogEntry list \<Rightarrow> nat" where
  "agreeing rf i [] = 0"
| "agreeing rf i (e # es) =
     (if i \<le> getLastLogIndex rf \<and> getLogTerm rf i = Term e then Suc (agreeing rf (i + 1) es) else 0)"

lemma agreeing_le: "agreeing rf i es \<le> length es"
  by (induction rf i es rule: agreeing.induct) auto

lemma agreeing_terms:
  "k < agreeing rf i es \<Longrightarrow> i + int k \<le> getLastLogIndex rf \<and> getLogTerm rf (i + int k) = Term (es ! k)"
proof (induction rf i es arbitrary: k rule: agreeing.induct)
  case (2 rf i e es)
  then show ?case by (cases k) (auto simp: algebra_simps split: if_splits)
qed simp

lemma agreeing_stop:
  "agreeing rf i es < length es \<Longrightarrow>
     getLastLogIndex rf < i + int (agreeing rf i es) \<or> getLogTerm rf (i + int (agreeing rf i es)) \<noteq> Term (es ! agreeing rf i es)"
  by (induction rf i es rule: agreeing.induct) (auto simp: algebra_simps split: if_splits)

text \<open>The closed form of the merge loop: entries that agree stay, the log is cut at the first
  disagreement and the remaining entries are appended.\<close>

lemma merge_entries_spec:
  assumes "lastIncludedIndex rf \<le> i" and "i \<le> getLastLogIndex rf + 1" and "log rf \<noteq> []"
  shows "merge_entries rf i es =
     Inr (if agreeing rf i es = length es then (log rf, [])
          else (take (nat (i - lastIncludedIndex rf) + agreeing rf i es) (log rf), drop (agreeing rf i es) es))"
  using assms
proof (induction rf i es rule: merge_entries.induct)
  case (1 rf i)
  then show ?case by simp
next
  case (2 rf i e es)
  show ?case
  proof (cases "i \<le> getLastLogIndex rf")
    case False
    then have "nat (i - lastIncludedIndex rf) = length (log rf)"
      using "2.prems" by (auto simp: getLastLogIndex_def)
    then show ?thesis using False by simp
  next
    case True
    show ?thesis
    proof (cases "getLogTerm rf i = Term e")
      case True
      have "nat (i + 1 - lastIncludedIndex rf) = Suc (nat (i - lastIncludedIndex rf))"
        using "2.prems" by simp
      then show ?thesis using "2.IH" True \<open>i \<le> getLastLogIndex rf\<close> "2.prems" by simp
    next
      case False
      then show ?thesis using True "2.prems"
        by (simp add: toArrayIndex_def getLastLogIndex_def)
    qed
  qed
qed

text \<open>When the insertion point lies before the snapshot, the cut is out of bounds.\<close>

lemma merge_entries_panic:
  assumes "i < lastIncludedIndex rf" and "log rf \<noteq> []" and "Term e \<noteq> -1"
  shows "merge_entries rf i (e # es) = Inl SliceBounds"
proof -
  have len: "1 \<le> length (log rf)" using assms(2) by (simp add: Suc_le_eq)
  then show ?thesis using assms by (simp add: index_defs)
qed

definition merged :: "('c, 's) Raft \<Rightarrow> int \<Rightarrow> 'c LogEntry list \<Rightarrow> 'c LogEntry list" where
  "merged rf i es =
     (if agreeing rf i es = length es then log rf
      else take (nat (i - lastIncludedIndex rf) + agreeing rf i es) (log rf) @ drop (agreeing rf i es) es)"

lemma merged_Nil [simp]: "merged rf i [] = log rf"
  by (simp add: merged_def)

lemma append_new_log:
  assumes "merge_entries rf i es = Inr p" and "lastIncludedIndex rf \<le> i"
    and "i \<le> getLastLogIndex rf + 1" and "log rf \<noteq> []"
  shows "log (append_new p rf) = merged rf i es"
  using assms merge_entries_spec [of rf i es] agreeing_le [of rf i es]
  by (auto simp: append_new_def merged_def)

lemma append_new_sel [simp]:
  "currentTerm (append_new p rf) = currentTerm rf" "votedFor (append_new p rf) = votedFor rf"
  "commitIndex (append_new p rf) = commitIndex rf" "state (append_new p rf) = state rf"
  "npeers (append_new p rf) = npeers rf" "me (append_new p rf) = me rf"
  "nextIndex (append_new p rf) = nextIndex rf" "matchIndex (append_new p rf) = matchIndex rf"
  "votesReceived (append_new p rf) = votesReceived rf" "lastApplied (append_new p rf) = lastApplied rf"
  "lastIncludedIndex (append_new p rf) = lastIncludedIndex rf"
  "lastIncludedTerm (append_new p rf) = lastIncludedTerm rf"
  by (simp_all add: append_new_def split: prod.splits)

lemma advance_commit_sel [simp]:
  "currentTerm (advance_commit n rf) = currentTerm rf" "votedFor (advance_commit n rf) = votedFor rf"
  "log (advance_commit n rf) = log rf" "state (advance_commit n rf) = state rf"
  "npeers (advance_commit n rf) = npeers rf" "me (advance_commit n rf) = me rf"
  "nextIndex (advance_commit n rf) = nextIndex rf" "matchIndex (advance_commit n rf) = matchIndex rf"
  "votesReceived (advance_commit n rf) = votesReceived rf"
  "persister (advance_commit n rf) = persister rf" "lastApplied (advance_commit n rf) = lastApplied rf"
  "lastIncludedIndex (advance_commit n rf) = lastIncludedIndex rf"
  "lastIncludedTerm (advance_commit n rf) = lastIncludedTerm rf"
  by (simp_all add: advance_commit_def)

text \<open>The entries of the merged log, by position.\<close>

lemma merged_length:
  assumes "lastIncludedIndex rf \<le> i" and "i \<le> getLastLogIndex rf + 1" and "log rf \<noteq> []"
  shows "nat (i - lastIncludedIndex rf) + length es \<le> length (merged rf i es)"
proof (cases "agreeing rf i es = length es")
  case True
  show ?thesis
  proof (cases "es = []")
    case True
    then show ?thesis using assms by (auto simp: merged_def getLastLogIndex_def)
  next
    case False
    then have "length es - 1 < agreeing rf i es" using True by (cases es) auto
    from agreeing_terms [OF this] False show ?thesis using True assms
      by (auto simp: merged_def getLastLogIndex_def Suc_le_eq)
  qed
next
  case False
  have "i - lastIncludedIndex rf + int (agreeing rf i es) \<le> int (length (log rf))"
  proof (cases "agreeing rf i es")
    case 0
    then show ?thesis using assms by (simp add: getLastLogIndex_def)
  next
    case (Suc k)
    from agreeing_terms [of k rf i es] show ?thesis using Suc by (simp add: getLastLogIndex_def)
  qed
  then show ?thesis using False agreeing_le [of rf i es] assms(1) by (simp add: merged_def)
qed

lemma merged_prefix:
  assumes "lastIncludedIndex rf \<le> i" and "k < nat (i - lastIncludedIndex rf)"
    and "i \<le> getLastLogIndex rf + 1"
  shows "merged rf i es ! k = log rf ! k"
proof -
  have "k < length (log rf)" using assms by (auto simp: getLastLogIndex_def)
  then show ?thesis using assms by (auto simp: merged_def nth_append min_def)
qed

lemma merged_new_terms:
  assumes "lastIncludedIndex rf \<le> i" and "i \<le> getLastLogIndex rf + 1" and "log rf \<noteq> []"
    and "k < length es"
  shows "let e = merged rf i es ! (nat (i - lastIncludedIndex rf) + k) in
     Term e = Term (es ! k) \<and> (e = es ! k \<or> e = log rf ! (nat (i - lastIncludedIndex rf) + k))"
proof (cases "k < agreeing rf i es")
  case True
  note t = agreeing_terms [OF True]
  have idx: "nat (i + int k - lastIncludedIndex rf) = nat (i - lastIncludedIndex rf) + k"
    using assms(1) by arith
  have inlog: "nat (i - lastIncludedIndex rf) + k < length (log rf)"
    using t assms(1) by (auto simp: getLastLogIndex_def)
  have "Term (log rf ! (nat (i - lastIncludedIndex rf) + k)) = Term (es ! k)"
    using t assms(1) inlog by (auto simp: getLogTerm_def toArrayIndex_def Let_def idx split: if_splits)
  moreover have "merged rf i es ! (nat (i - lastIncludedIndex rf) + k) = log rf ! (nat (i - lastIncludedIndex rf) + k)"
    using True inlog by (auto simp: merged_def nth_append)
  ultimately show ?thesis by simp
next
  case False
  let ?n = "agreeing rf i es" and ?o = "nat (i - lastIncludedIndex rf)"
  have ne: "?n \<noteq> length es" using False assms(4) by simp
  have "?o + ?n \<le> length (log rf)"
  proof (cases ?n)
    case 0
    then show ?thesis using assms by (auto simp: getLastLogIndex_def)
  next
    case (Suc m)
    from agreeing_terms [of m rf i es] show ?thesis using Suc assms(1) by (auto simp: getLastLogIndex_def)
  qed
  then have "merged rf i es ! (?o + k) = es ! k"
    using False ne assms(4) by (simp add: merged_def nth_append min_def)
  then show ?thesis by simp
qed

section \<open>The handler\<close>

text \<open>The peer after the term check of a handler that accepts the sender's term.\<close>

definition adopt :: "tick \<Rightarrow> int \<Rightarrow> ('c, 's) Raft \<Rightarrow> ('c, 's) Raft" where
  "adopt tk t rf = resetElectionTimeout tk ((if t > currentTerm rf then newTerm t rf else rf)\<lparr>state := Follower\<rparr>)"

lemma adopt_sel [simp]:
  "log (adopt tk t rf) = log rf" "commitIndex (adopt tk t rf) = commitIndex rf"
  "lastIncludedIndex (adopt tk t rf) = lastIncludedIndex rf"
  "lastIncludedTerm (adopt tk t rf) = lastIncludedTerm rf"
  "state (adopt tk t rf) = Follower" "me (adopt tk t rf) = me rf" "npeers (adopt tk t rf) = npeers rf"
  "currentTerm (adopt tk t rf) = max (currentTerm rf) t"
  "getLastLogIndex (adopt tk t rf) = getLastLogIndex rf"
  "getLogTerm (adopt tk t rf) i = getLogTerm rf i"
  by (simp_all add: adopt_def index_defs)

lemma agreeing_cong:
  "log rf = log rf' \<Longrightarrow> lastIncludedIndex rf = lastIncludedIndex rf' \<Longrightarrow> agreeing rf i es = agreeing rf' i es"
  by (induction es arbitrary: i) (simp_all add: index_defs)

lemma merged_adopt [simp]: "merged (adopt tk t rf) i es = merged rf i es"
  by (simp add: merged_def agreeing_cong [of "adopt tk t rf" rf])

lemma AppendEntries_eq:
  "AppendEntries tk args rf =
     (let reply = \<lparr>AERTerm = currentTerm rf, Success = False, ConflictTerm = 0, ConflictIndex = 0\<rparr>;
          rf2 = adopt tk (AETerm args) rf in
      if AETerm args < currentTerm rf then Inr (rf, reply)
      else case log_mismatch args rf2 of
             Some (ct, ci) \<Rightarrow> Inr (rf2, reply\<lparr>ConflictTerm := ct, ConflictIndex := ci\<rparr>)
           | None \<Rightarrow>
               go_map (\<lambda>rf3. (advance_commit (LeaderCommit args) rf3, reply\<lparr>Success := True\<rparr>))
                 (if length (Entries args) > 0
                  then go_map (\<lambda>p. append_new p rf2)
                         (merge_entries rf2 (PrevLogIndex args + 1) (Entries args))
                  else Inr rf2))"
  by (simp add: AppendEntries_def adopt_def Let_def)

text \<open>What a consistent \<open>PrevLogIndex\<close> says of the log.\<close>

lemma no_mismatch:
  assumes "log_mismatch args rf = None" and "0 < PrevLogIndex args"
  shows "lastIncludedIndex rf \<le> PrevLogIndex args" "PrevLogIndex args \<le> getLastLogIndex rf"
    "getLogTerm rf (PrevLogIndex args) = PrevLogTerm args"
  using assms by (auto simp: log_mismatch_def Let_def split: if_splits)

definition append_in_range :: "'c AppendEntriesArgs \<Rightarrow> ('c, 's) Raft \<Rightarrow> bool" where
  "append_in_range args rf \<longleftrightarrow> 0 \<le> PrevLogIndex args \<and> (PrevLogIndex args = 0 \<longrightarrow> lastIncludedIndex rf = 0)"

lemma append_bounds:
  assumes "peer_wf rf" and "append_in_range args rf" and "log_mismatch args rf = None"
  shows "lastIncludedIndex rf \<le> PrevLogIndex args + 1" "PrevLogIndex args + 1 \<le> getLastLogIndex rf + 1"
    "log rf \<noteq> []"
proof -
  have "lastIncludedIndex rf \<le> PrevLogIndex args \<and> PrevLogIndex args \<le> getLastLogIndex rf"
  proof (cases "0 < PrevLogIndex args")
    case True
    then show ?thesis using no_mismatch [OF assms(3)] by simp
  next
    case False
    then show ?thesis using assms(1,2) Suc_le_eq [of 0 "length (log rf)"]
      by (auto simp: append_in_range_def peer_wf_def getLastLogIndex_def)
  qed
  then show "lastIncludedIndex rf \<le> PrevLogIndex args + 1" "PrevLogIndex args + 1 \<le> getLastLogIndex rf + 1"
    by auto
  show "log rf \<noteq> []" using assms(1) by (simp add: peer_wf_def)
qed

lemma log_mismatch_adopt: "log_mismatch args (adopt tk t rf) = log_mismatch args rf"
proof -
  have "conflict_scan (adopt tk t rf) u i = conflict_scan rf u i" for u i
    by (induction rf u i rule: conflict_scan.induct)
       (subst (1 2) conflict_scan.simps, simp)
  then show ?thesis by (simp add: log_mismatch_def Let_def)
qed

text \<open>A successful append, in closed form.\<close>

lemma append_success:
  assumes wf: "peer_wf rf" and rng: "append_in_range args rf"
    and ok: "AppendEntries tk args rf = Inr (rf', reply)" and su: "Success reply"
  shows "currentTerm rf \<le> AETerm args" "log_mismatch args rf = None"
    "log rf' = merged rf (PrevLogIndex args + 1) (Entries args)"
    "lastIncludedIndex rf' = lastIncludedIndex rf" "currentTerm rf' = AETerm args"
    "lastIncludedTerm rf' = lastIncludedTerm rf"
    "commitIndex rf' = (if LeaderCommit args > commitIndex rf
        then min (LeaderCommit args) (getLastLogIndex rf') else commitIndex rf)"
proof -
  let ?rf2 = "adopt tk (AETerm args) rf"
  show t: "currentTerm rf \<le> AETerm args" and mm: "log_mismatch args rf = None"
    using ok su by (auto simp: AppendEntries_eq Let_def log_mismatch_adopt split: if_splits option.splits)
  note b = append_bounds [OF wf rng mm]
  have wf2: "lastIncludedIndex ?rf2 \<le> PrevLogIndex args + 1"
    "PrevLogIndex args + 1 \<le> getLastLogIndex ?rf2 + 1" "log ?rf2 \<noteq> []" using b by auto
  obtain rf3 where rf3: "(if length (Entries args) > 0
      then go_map (\<lambda>p. append_new p ?rf2) (merge_entries ?rf2 (PrevLogIndex args + 1) (Entries args))
      else Inr ?rf2) = Inr rf3" and rf': "rf' = advance_commit (LeaderCommit args) rf3"
    using ok t mm by (auto simp: AppendEntries_eq Let_def log_mismatch_adopt go_map_eq_Inr)
  have sel3: "log rf3 = merged rf (PrevLogIndex args + 1) (Entries args)"
    "lastIncludedIndex rf3 = lastIncludedIndex rf" "currentTerm rf3 = AETerm args"
    "lastIncludedTerm rf3 = lastIncludedTerm rf" "commitIndex rf3 = commitIndex rf"
    using rf3 t append_new_log [OF _ wf2]
    by (auto simp: go_map_eq_Inr split: if_splits)
  then show "log rf' = merged rf (PrevLogIndex args + 1) (Entries args)"
    "lastIncludedIndex rf' = lastIncludedIndex rf" "currentTerm rf' = AETerm args"
    "lastIncludedTerm rf' = lastIncludedTerm rf"
    using rf' by simp_all
  show "commitIndex rf' = (if LeaderCommit args > commitIndex rf
      then min (LeaderCommit args) (getLastLogIndex rf') else commitIndex rf)"
    using rf' sel3 by (simp add: advance_commit_def getLastLogIndex_def)
qed

lemma nth_of_real:
  "lastIncludedIndex rf \<le> i \<Longrightarrow> nat (i + int k - lastIncludedIndex rf) = nat (i - lastIncludedIndex rf) + k"
  by arith

section \<open>What a leader sends\<close>

text \<open>A leader's append carries everything it has from \<open>PrevLogIndex + 1\<close> on, so the commit index
  it carries is covered by the entries it vouches for.\<close>

lemma send_covers_commit:
  assumes "sendToFollower server rf = Inr (Some (SendAppend args))"
    and "commitIndex rf \<le> getLastLogIndex rf" and "lastIncludedIndex rf \<le> getLastLogIndex rf"
  shows "LeaderCommit args \<le> PrevLogIndex args + int (length (Entries args))"
    "lastIncludedIndex rf \<le> PrevLogIndex args" "AETerm args = currentTerm rf"
  using assms
  by (auto simp: sendToFollower_def go_bind_eq_Inr go_map_eq_Inr go_index_def go_slice_from_def Let_def
      toArrayIndex_def getLastLogIndex_def split: if_splits)

section \<open>Committing\<close>

definition holders :: "('c, 's) Raft \<Rightarrow> int \<Rightarrow> nat set" where
  "holders rf n = {i. i < npeers rf \<and> (int i = me rf \<or> n \<le> matchIndex rf ! i)}"

lemma count_match_spec:
  assumes "\<forall>i \<in> set is. i < length (matchIndex rf)"
  shows "count_match rf n is c =
    Inr (c + int (length (filter (\<lambda>i. int i \<noteq> me rf \<and> n \<le> matchIndex rf ! i) is)))"
  using assms by (induction "is" arbitrary: c) auto

lemma holders_card:
  assumes "me rf = int i0" and "i0 < npeers rf"
  shows "int (card (holders rf n)) =
    1 + int (length (filter (\<lambda>i. int i \<noteq> me rf \<and> n \<le> matchIndex rf ! i) [0..<npeers rf]))"
proof -
  let ?A = "{i. i < npeers rf \<and> int i \<noteq> me rf \<and> n \<le> matchIndex rf ! i}"
  have "holders rf n = insert i0 ?A" using assms by (auto simp: holders_def)
  moreover have "i0 \<notin> ?A" using assms by simp
  moreover have "finite ?A" by simp
  ultimately have "card (holders rf n) = Suc (card ?A)" by simp
  moreover have "card ?A = length (filter (\<lambda>i. int i \<noteq> me rf \<and> n \<le> matchIndex rf ! i) [0..<npeers rf])"
    by (subst distinct_card [symmetric]) (auto intro: arg_cong [where f = card])
  ultimately show ?thesis by simp
qed

text \<open>An index a leader may commit: an entry of its own term on a majority of the peers.\<close>

definition committable :: "('c, 's) Raft \<Rightarrow> int \<Rightarrow> bool" where
  "committable rf n \<longleftrightarrow> getLogTerm rf n = currentTerm rf \<and> int (npeers rf) div 2 < int (card (holders rf n))"

lemma committable_cong [simp]: "committable (rf\<lparr>commitIndex := k\<rparr>) = committable rf"
  by (simp add: fun_eq_iff committable_def holders_def index_defs)

lemma commit_scan_spec:
  assumes "me rf = int i0" and "i0 < npeers rf" and "length (matchIndex rf) = npeers rf"
  shows "commit_scan ns rf =
    Inr (rf\<lparr>commitIndex := (if filter (committable rf) ns = [] then commitIndex rf
                          else last (filter (committable rf) ns))\<rparr>)"
  using assms
proof (induction ns arbitrary: rf)
  case Nil
  then show ?case by simp
next
  case (Cons n ns)
  have cnt: "count_match rf n [0..<npeers rf] 1 = Inr (int (card (holders rf n)))"
    using Cons.prems by (simp add: count_match_spec holders_card)
  show ?case
  proof (cases "committable rf n")
    case True
    then have "commit_scan (n # ns) rf = commit_scan ns (rf\<lparr>commitIndex := n\<rparr>)"
      using cnt by (simp add: committable_def)
    then show ?thesis using True Cons.IH [of "rf\<lparr>commitIndex := n\<rparr>"] Cons.prems by simp
  next
    case False
    then have "commit_scan (n # ns) rf = commit_scan ns rf"
      using cnt by (auto simp: committable_def)
    then show ?thesis using False Cons.IH [of rf] Cons.prems by simp
  qed
qed

lemma sorted_last_max: "sorted xs \<Longrightarrow> x \<in> set xs \<Longrightarrow> x \<le> last (xs :: int list)"
  by (induction xs) (auto split: if_splits)

section \<open>Applying\<close>

lemma collect_no_snapshot:
  assumes "\<And>j. i \<le> j \<Longrightarrow> j \<le> k \<Longrightarrow> \<exists>c. msg_at rf j = [command_msg c j]"
  shows "map CommandIndex (concat (map (msg_at rf) [i..k])) = [i..k]"
  using assms
proof (induction "nat (k + 1 - i)" arbitrary: i)
  case 0
  then show ?case by simp
next
  case (Suc n)
  then have le: "i \<le> k" by simp
  obtain c where c: "msg_at rf i = [command_msg c i]" using Suc.prems [of i] le by auto
  have "map CommandIndex (concat (map (msg_at rf) [i + 1..k])) = [i + 1..k]"
    by (rule Suc.hyps(1)) (use Suc in auto)
  then show ?case using c by (subst (1 2) upto.simps) (simp add: le command_msg_def)
qed

text \<open>The commands a log holds between two indices are all there and none is nil.\<close>

definition applicable :: "('c, 's) Raft \<Rightarrow> bool" where
  "applicable rf \<longleftrightarrow>
     (\<forall>i. lastIncludedIndex rf < i \<and> i \<le> commitIndex rf \<longrightarrow>
        (\<exists>e c. entry_at rf i = Some e \<and> Command e = Some c))"

lemma msg_at_applicable:
  assumes "applicable rf" and "lastIncludedIndex rf < i" and "i \<le> commitIndex rf"
  shows "\<exists>e c. entry_at rf i = Some e \<and> Command e = Some c \<and> msg_at rf i = [command_msg c i]"
proof -
  obtain e c where e: "entry_at rf i = Some e" "Command e = Some c"
    using assms unfolding applicable_def by blast
  then show ?thesis using assms(2)
    by (auto simp: entry_at_def msg_at_def index_defs split: if_splits)
qed

section \<open>Properties\<close>

text \<open>C14: What a successful \<open>AppendEntries\<close> makes of the log. Let \<open>d\<close> be the number of entries of the request, from the front, that
  the follower already has at their indices, by term. If these are all, the log stays as it is, a longer one included.
  Otherwise the log is kept up to the first of the other entries, at whose index it ends or has another term, everything from
  there on is cut off, and the remaining entries of the request are appended. The request's \<open>PrevLogIndex\<close> is not negative, and
  it is 0 only for a follower without a snapshot (with one, the handler may panic).\<close>

theorem append_entries_installs:
  assumes "peer_wf rf" and "append_in_range args rf"
    and "AppendEntries tk args rf = Inr (rf', reply)" and "Success reply"
  shows "let at = nat (PrevLogIndex args + 1 - lastIncludedIndex rf); old = log rf; es = Entries args in
     0 < at \<and> at \<le> length old \<and>
     (\<exists>d \<le> length es. (\<forall>k < d. at + k < length old \<and> Term (old ! (at + k)) = Term (es ! k)) \<and>
        (d < length es \<longrightarrow> at + d = length old \<or> at + d < length old \<and> Term (old ! (at + d)) \<noteq> Term (es ! d)) \<and>
        log rf' = (if d = length es then old else take (at + d) old @ drop d es))"
proof -
  note s = append_success [OF assms]
  note b = append_bounds [OF assms(1,2) s(2)]
  let ?i = "PrevLogIndex args + 1" and ?d = "agreeing rf (PrevLogIndex args + 1) (Entries args)"
  have lii: "lastIncludedIndex rf < ?i"
    using no_mismatch(1) [OF s(2)] assms(1,2) by (cases "0 < PrevLogIndex args") (auto simp: append_in_range_def peer_wf_def)
  have at: "0 < nat (?i - lastIncludedIndex rf)" "nat (?i - lastIncludedIndex rf) \<le> length (log rf)"
    using lii b(2,3) by (auto simp: getLastLogIndex_def)
  have last: "?i + int k \<le> getLastLogIndex rf \<longleftrightarrow> nat (?i - lastIncludedIndex rf) + k < length (log rf)" for k
    using lii by (auto simp: getLastLogIndex_def)
  have tm: "getLogTerm rf (?i + int k) = Term (log rf ! (nat (?i - lastIncludedIndex rf) + k))"
    if "nat (?i - lastIncludedIndex rf) + k < length (log rf)" for k
    using that lii nth_of_real [OF b(1), of k] by (auto simp: getLogTerm_def toArrayIndex_def Let_def)
  have "nat (?i - lastIncludedIndex rf) + ?d \<le> length (log rf)"
    using agreeing_terms [of "?d - 1" rf ?i "Entries args"] last [of "?d - 1"] at(2) by (cases ?d) auto
  then have "?d < length (Entries args) \<longrightarrow> nat (?i - lastIncludedIndex rf) + ?d = length (log rf) \<or>
      nat (?i - lastIncludedIndex rf) + ?d < length (log rf) \<and> Term (log rf ! (nat (?i - lastIncludedIndex rf) + ?d)) \<noteq> Term (Entries args ! ?d)"
    using agreeing_stop [of rf ?i "Entries args"] last [of ?d] tm [of ?d] by fastforce
  moreover have "\<forall>k < ?d. nat (?i - lastIncludedIndex rf) + k < length (log rf) \<and>
      Term (log rf ! (nat (?i - lastIncludedIndex rf) + k)) = Term (Entries args ! k)"
    using agreeing_terms [of _ rf ?i "Entries args"] last tm by metis
  ultimately show ?thesis using at agreeing_le [of rf ?i "Entries args"] s(3) unfolding Let_def merged_def by blast
qed

definition entry :: "int \<Rightarrow> nat \<Rightarrow> nat LogEntry" where
  "entry t c = \<lparr>Command = Some c, Term = t\<rparr>"

definition demo_peer :: "(nat, nat) Raft" where
  "demo_peer = (Make 3 0 MakePersister (0, 0))\<lparr>log := [\<lparr>Command = None, Term = 0\<rparr>, entry 1 10, entry 1 11, entry 2 12]\<rparr>"

definition demo_append :: "nat AppendEntriesArgs" where
  "demo_append = \<lparr>AETerm = 3, LeaderId = 1, PrevLogIndex = 1, PrevLogTerm = 1,
     Entries = [entry 1 11, entry 3 20, entry 3 21], LeaderCommit = 3\<rparr>"

lemmas demo_simps = demo_peer_def demo_append_def entry_def Make_def readPersist_def index_defs
  AppendEntries_eq log_mismatch_def adopt_def newTerm_def append_new_def advance_commit_def
  persist_def resetElectionTimeout_def encode_state_def

theorem append_entries_installs_witness:
  "\<exists>rf' reply. AppendEntries (0, 0) demo_append demo_peer = Inr (rf', reply) \<and> Success reply \<and>
     (\<exists>d \<le> 3. log rf' = (if d = 3 then log demo_peer else take (2 + d) (log demo_peer) @ drop d (Entries demo_append)))"
proof -
  have wf: "peer_wf demo_peer" "append_in_range demo_append demo_peer"
    by (simp_all add: peer_wf_def append_in_range_def demo_simps)
  have "\<exists>rf' reply. AppendEntries (0, 0) demo_append demo_peer = Inr (rf', reply) \<and> Success reply"
    by (simp add: demo_simps)
  then obtain rf' reply where r: "AppendEntries (0, 0) demo_append demo_peer = Inr (rf', reply)" "Success reply"
    by blast
  have n: "nat (PrevLogIndex demo_append + 1 - lastIncludedIndex demo_peer) = 2" "length (Entries demo_append) = 3"
    by (simp_all add: demo_simps)
  from append_entries_installs [OF wf r] show ?thesis using r unfolding Let_def n by blast
qed

text \<open>A follower never commits past what the leader vouched for. For an append a leader
  really sends, a follower that accepts it ends with a commit index at most the last index the
  append covers, or keeps its commit index: the minimum with its own log length is enough
  because the leader's commit index is covered by the entries sent.\<close>

theorem follower_commit_covered:
  assumes "sendToFollower server ld = Inr (Some (SendAppend args))"
    and "commitIndex ld \<le> getLastLogIndex ld" and "lastIncludedIndex ld \<le> getLastLogIndex ld"
    and "peer_wf rf" and "append_in_range args rf"
    and "AppendEntries tk args rf = Inr (rf', reply)" and "Success reply"
  shows "commitIndex rf' = commitIndex rf \<or>
         commitIndex rf' \<le> PrevLogIndex args + int (length (Entries args)) \<and> commitIndex rf' \<le> commitIndex ld"
proof -
  have "LeaderCommit args = commitIndex ld"
    using assms(1) by (auto simp: sendToFollower_def go_bind_eq_Inr go_map_eq_Inr Let_def split: if_splits)
  then show ?thesis
    using send_covers_commit [OF assms(1-3)] append_success(7) [OF assms(4-7)] by (auto split: if_splits)
qed

definition demo_leader :: "(nat, nat) Raft" where
  "demo_leader = demo_peer\<lparr>state := Leader, currentTerm := 2, me := 1, nextIndex := [2, 4, 4],
     matchIndex := [0, 0, 3], commitIndex := 2\<rparr>"

definition demo_sent :: "nat AppendEntriesArgs" where
  "demo_sent = \<lparr>AETerm = 2, LeaderId = 1, PrevLogIndex = 1, PrevLogTerm = 1,
     Entries = [entry 1 11, entry 2 12], LeaderCommit = 2\<rparr>"

lemma demo_send: "sendToFollower 0 demo_leader = Inr (Some (SendAppend demo_sent))"
  by (simp add: sendToFollower_def demo_leader_def demo_sent_def demo_simps go_index_def go_slice_from_def)

theorem follower_commit_covered_witness:
  "\<exists>rf' reply. AppendEntries (0, 0) demo_sent demo_peer = Inr (rf', reply) \<and> Success reply \<and>
     commitIndex rf' = 2 \<and> commitIndex rf' \<le> commitIndex demo_leader"
proof -
  have wf: "peer_wf demo_peer" "append_in_range demo_sent demo_peer"
    by (simp_all add: peer_wf_def append_in_range_def demo_sent_def demo_simps)
  have ld: "commitIndex demo_leader \<le> getLastLogIndex demo_leader"
    "lastIncludedIndex demo_leader \<le> getLastLogIndex demo_leader"
    by (simp_all add: demo_leader_def demo_simps)
  have "\<exists>rf' reply. AppendEntries (0, 0) demo_sent demo_peer = Inr (rf', reply) \<and> Success reply \<and> commitIndex rf' = 2"
    by (simp add: demo_sent_def demo_simps)
  then show ?thesis using follower_commit_covered [OF demo_send ld wf] by (fastforce simp: demo_simps)
qed

text \<open>C40: An append panics. For a well-formed follower, entries with real terms and a \<open>PrevLogIndex\<close> that is not negative, the handler
  ends in Go's slice-bounds panic exactly when the append is not stale, carries entries, starts
  at the beginning of the log (\<open>PrevLogIndex\<close> is 0, so that the consistency check is
  skipped) and the follower has already replaced at least two entries by a snapshot. In all
  other cases it returns.\<close>

theorem append_entries_panics_iff:
  assumes "peer_wf rf" and "\<forall>e \<in> set (Entries args). Term e \<noteq> -1" and "0 \<le> PrevLogIndex args"
  shows "(\<exists>err. AppendEntries tk args rf = Inl err) \<longleftrightarrow>
    currentTerm rf \<le> AETerm args \<and> Entries args \<noteq> [] \<and> PrevLogIndex args = 0 \<and> 2 \<le> lastIncludedIndex rf"
proof (cases "AETerm args < currentTerm rf \<or> Entries args = [] \<or> log_mismatch args rf \<noteq> None")
  case True
  then show ?thesis
    by (auto simp: AppendEntries_eq Let_def log_mismatch_adopt log_mismatch_def split: option.splits if_splits)
next
  case False
  let ?rf2 = "adopt tk (AETerm args) rf"
  have mm: "log_mismatch args rf = None" using False by blast
  obtain e es where es: "Entries args = e # es" using False by (cases "Entries args") auto
  have eq: "(\<exists>err. AppendEntries tk args rf = Inl err) \<longleftrightarrow>
      (\<exists>err. merge_entries ?rf2 (PrevLogIndex args + 1) (e # es) = Inl err)"
  proof -
    have "\<not> AETerm args < currentTerm rf" using False by blast
    then show ?thesis using es mm
      by (cases "merge_entries ?rf2 (PrevLogIndex args + 1) (e # es)")
         (simp_all add: AppendEntries_eq Let_def log_mismatch_adopt del: merge_entries.simps)
  qed
  have ne: "log ?rf2 \<noteq> []" using assms(1) by (simp add: peer_wf_def)
  show ?thesis
  proof (cases "PrevLogIndex args + 1 < lastIncludedIndex rf")
    case True
    then have "PrevLogIndex args = 0" using no_mismatch(1) [OF mm] assms(3) by force
    moreover have "merge_entries ?rf2 (PrevLogIndex args + 1) (e # es) = Inl SliceBounds"
      by (rule merge_entries_panic) (use True ne assms(2) es in auto)
    ultimately show ?thesis using eq False True es by auto
  next
    case ge: False
    have "PrevLogIndex args + 1 \<le> getLastLogIndex rf + 1"
    proof (cases "0 < PrevLogIndex args")
      case True
      then show ?thesis using no_mismatch(2) [OF mm] by simp
    next
      case False
      then show ?thesis using assms(1) Suc_le_eq [of 0 "length (log rf)"]
        by (auto simp: peer_wf_def getLastLogIndex_def)
    qed
    then have "\<exists>p. merge_entries ?rf2 (PrevLogIndex args + 1) (e # es) = Inr p"
      using merge_entries_spec [of ?rf2 "PrevLogIndex args + 1" "e # es"] ge ne by (simp del: merge_entries.simps)
    then show ?thesis using eq ge assms(3) by (auto simp del: merge_entries.simps)
  qed
qed

text \<open>The panic happens in a plain situation: a follower has taken a snapshot up to index 2, and the
  leader's first append of the same term, sent before and delayed by the network, arrives.\<close>

definition demo_snapped :: "(nat, nat) Raft" where
  "demo_snapped = Snapshot 2 [0] (demo_peer\<lparr>currentTerm := 2, commitIndex := 3, lastApplied := 3\<rparr>)"

definition demo_first_append :: "nat AppendEntriesArgs" where
  "demo_first_append = \<lparr>AETerm = 2, LeaderId = 1, PrevLogIndex = 0, PrevLogTerm = 0,
     Entries = [entry 1 10], LeaderCommit = 0\<rparr>"

theorem append_entries_panics_iff_witness:
  "peer_wf demo_snapped \<and> (\<exists>err. AppendEntries (0, 0) demo_first_append demo_snapped = Inl err)"
proof -
  have wf: "peer_wf demo_snapped"
    by (simp add: peer_wf_def demo_snapped_def Snapshot_def persist_with_def demo_simps)
  moreover have "currentTerm demo_snapped = 2" "lastIncludedIndex demo_snapped = 2"
    by (simp_all add: demo_snapped_def Snapshot_def persist_with_def demo_simps)
  ultimately show ?thesis
    using append_entries_panics_iff [OF wf, of demo_first_append "(0, 0)"]
    by (simp add: demo_first_append_def entry_def)
qed

text \<open>C15: The commit rule. A leader's \<open>tryCommit\<close> never fails and never moves the commit index back;
  if it moves it, then to the largest index of its log beyond the old one whose entry is of the
  leader's current term and is known to be on a majority of the peers.\<close>

theorem try_commit_rule:
  assumes "peer_wf rf" and "state rf = Leader" and "me rf = int i0" and "i0 < npeers rf"
  shows "\<exists>c. tryCommit rf = Inr (rf\<lparr>commitIndex := c\<rparr>) \<and> commitIndex rf \<le> c \<and>
    (c = commitIndex rf \<or> c \<le> getLastLogIndex rf \<and> committable rf c) \<and>
    (\<forall>n. c < n \<and> n \<le> getLastLogIndex rf \<longrightarrow> \<not> committable rf n)"
proof -
  let ?ns = "[commitIndex rf + 1..getLastLogIndex rf]"
  let ?fs = "filter (committable rf) ?ns"
  let ?c = "if ?fs = [] then commitIndex rf else last ?fs"
  have eq: "tryCommit rf = Inr (rf\<lparr>commitIndex := ?c\<rparr>)"
    using commit_scan_spec [OF assms(3,4)] assms(1,2) by (simp add: tryCommit_def peer_wf_def)
  have "sorted ?fs" by (simp add: sorted_wrt_filter)
  then have max: "x \<in> set ?fs \<Longrightarrow> x \<le> last ?fs" for x by (rule sorted_last_max)
  have mem: "?fs \<noteq> [] \<Longrightarrow> last ?fs \<in> set ?fs" by (rule last_in_set)
  have "commitIndex rf \<le> ?c" and "?c = commitIndex rf \<or> ?c \<le> getLastLogIndex rf \<and> committable rf ?c"
    using mem by auto
  moreover have "\<forall>n. ?c < n \<and> n \<le> getLastLogIndex rf \<longrightarrow> \<not> committable rf n"
  proof (intro allI impI notI)
    fix n assume n: "?c < n \<and> n \<le> getLastLogIndex rf" and "committable rf n"
    moreover have "commitIndex rf < n" using n \<open>commitIndex rf \<le> ?c\<close> by simp
    ultimately have nin: "n \<in> set ?fs" by simp
    then have "?fs \<noteq> []" by (metis empty_iff list.set(1))
    then have "n \<le> ?c" using max [OF nin] by simp
    with n show False by simp
  qed
  ultimately show ?thesis using eq by blast
qed

theorem try_commit_rule_witness:
  "\<exists>c. tryCommit demo_leader = Inr (demo_leader\<lparr>commitIndex := c\<rparr>) \<and> commitIndex demo_leader \<le> c"
proof -
  have "peer_wf demo_leader" "state demo_leader = Leader" "me demo_leader = int 1" "1 < npeers demo_leader"
    by (simp_all add: peer_wf_def demo_leader_def demo_simps)
  from try_commit_rule [OF this] show ?thesis by blast
qed

text \<open>\<open>Snapshot\<close> only discards: with an index inside the log, the entries beyond the index, the
  last index and the terms from the index on stay as they are, and the peer stays well-formed.\<close>

theorem snapshot_keeps_suffix:
  assumes "peer_wf rf" and "lastIncludedIndex rf < index" and "index \<le> getLastLogIndex rf"
  shows "let rf' = Snapshot index snap rf in
     peer_wf rf' \<and> lastIncludedIndex rf' = index \<and> getLastLogIndex rf' = getLastLogIndex rf \<and>
     (\<forall>i > index. entry_at rf' i = entry_at rf i) \<and> (\<forall>i \<ge> index. getLogTerm rf' i = getLogTerm rf i) \<and>
     ReadSnapshot (persister rf') = snap"
proof -
  let ?a = "nat (index - lastIncludedIndex rf)"
  have a: "?a < length (log rf)" "int ?a = index - lastIncludedIndex rf"
    using assms by (auto simp: getLastLogIndex_def)
  have tail: "(if index - lastIncludedIndex rf + 1 < int (length (log rf))
      then drop (nat (index - lastIncludedIndex rf + 1)) (log rf) else []) = drop (Suc ?a) (log rf)"
    using a assms(2) by (auto simp: nat_add_distrib)
  have rf': "Snapshot index snap rf = persist_with snap (rf\<lparr>lastIncludedTerm := Term (log rf ! ?a),
      log := \<lparr>Command = None, Term = Term (log rf ! ?a)\<rparr> # drop (Suc ?a) (log rf), lastIncludedIndex := index\<rparr>)"
    using assms a tail by (simp add: Snapshot_def getLastLogIndex_def Let_def)
  have nth: "drop (Suc ?a) (log rf) ! k = log rf ! (Suc ?a + k)" if "Suc ?a + k < length (log rf)" for k
    using that by simp
  have len: "int (length (drop (Suc ?a) (log rf))) = int (length (log rf)) - 1 - (index - lastIncludedIndex rf)"
    using a by simp
  have last: "getLastLogIndex (Snapshot index snap rf) = getLastLogIndex rf"
    using len by (simp add: rf' getLastLogIndex_def)
  have ent: "entry_at (Snapshot index snap rf) i = entry_at rf i" if "index < i" for i
  proof (cases "i \<le> getLastLogIndex rf")
    case True
    have "nat (i - index) = Suc (nat (i - index - 1))" using that by simp
    moreover have "nat (i - lastIncludedIndex rf) = Suc ?a + nat (i - index - 1)"
      using that assms(2) by simp
    moreover have "Suc ?a + nat (i - index - 1) < length (log rf)"
      using True that assms(2) by (simp add: getLastLogIndex_def)
    ultimately show ?thesis using True that assms(2) last nth
      by (simp add: entry_at_def) (simp add: rf')
  next
    case False
    then show ?thesis using last by (simp add: entry_at_def)
  qed
  have trm: "getLogTerm (Snapshot index snap rf) i = getLogTerm rf i" if "index \<le> i" for i
  proof (cases "i = index")
    case True
    then show ?thesis using a assms(2) by (simp add: rf' index_defs)
  next
    case False
    then show ?thesis using ent [of i] that last assms(2)
      by (auto simp: entry_at_def getLogTerm_def toArrayIndex_def getLastLogIndex_def Let_def rf' split: if_splits)
  qed
  show ?thesis using assms(1,2) last ent trm
    by (auto simp: Let_def peer_wf_def rf' persist_with_def)
qed

theorem snapshot_keeps_suffix_witness:
  "entry_at (Snapshot 2 [0] demo_peer) 3 = Some (entry 2 12) \<and> lastIncludedIndex (Snapshot 2 [0] demo_peer) = 2"
proof -
  have "peer_wf demo_peer" "lastIncludedIndex demo_peer < 2" "2 \<le> getLastLogIndex demo_peer"
    and e: "entry_at demo_peer 3 = Some (entry 2 12)"
    by (simp_all add: peer_wf_def entry_at_def demo_simps)
  from snapshot_keeps_suffix [OF this(1-3), of "[0]"] show ?thesis using e by (simp add: Let_def)
qed

end
