(* ===== verification/RaftDurable.thy ===== *)
theory RaftDurable
  imports RaftLog
begin

text \<open>
  Persistence of a peer: after every locked section, what is on stable storage is what is in
  memory, so a restarted peer resumes with the term, vote and log it had.
\<close>

section \<open>Durability\<close>

text \<open>A restart from the peer's storage restores its persistent fields.\<close>

definition durable :: "('c, 's) Raft \<Rightarrow> bool" where
  "durable rf \<longleftrightarrow> encode_state (Make (npeers rf) (me rf) (persister rf) (0, 0)) = encode_state rf"

lemma decode_encode [simp]:
  "decode_state (encode_state rf) =
     Some (currentTerm rf, votedFor rf, log rf, lastIncludedIndex rf, lastIncludedTerm rf)"
  by (simp add: decode_state_def encode_state_def)

lemma encode_nonempty [simp]: "encode_state rf \<noteq> []"
  by (simp add: encode_state_def)

lemma durable_saved: "ReadRaftState (persister rf) = encode_state rf \<Longrightarrow> durable rf"
  by (simp add: durable_def Make_def readPersist_def Suc_le_eq)
     (simp add: encode_state_def)

lemma durable_persist [simp]: "durable (persist rf)"
  by (rule durable_saved) (simp add: persist_def encode_state_def)

lemma durable_persist_with [simp]: "durable (persist_with sn rf)"
  by (rule durable_saved) (simp add: persist_with_def encode_state_def)

lemma durable_Make: "durable (Make n i MakePersister tk)"
  by (simp add: durable_def Make_def readPersist_def encode_state_def)

text \<open>A restart depends only on what is stored.\<close>

lemma Make_encode: "encode_state (Make n i ps tk) = encode_state (Make m j ps tk')"
  by (auto simp: Make_def readPersist_def encode_state_def resetElectionTimeout_def split: option.splits)

lemma durable_cong:
  assumes "durable rf" and "persister rf' = persister rf" and "encode_state rf' = encode_state rf"
  shows "durable rf'"
  using assms Make_encode [of "npeers rf'" "me rf'" "persister rf" "(0, 0)" "npeers rf" "me rf" "(0, 0)"]
  by (simp add: durable_def)

text \<open>Sections that write neither the persistent fields nor the storage.\<close>

lemma durable_frame:
  assumes "durable rf" and "persister rf' = persister rf" and "currentTerm rf' = currentTerm rf"
    and "votedFor rf' = votedFor rf" and "log rf' = log rf"
    and "lastIncludedIndex rf' = lastIncludedIndex rf" and "lastIncludedTerm rf' = lastIncludedTerm rf"
  shows "durable rf'"
  using durable_cong [OF assms(1,2)] assms(3-7) by (simp add: encode_state_def)

lemma durable_reset [simp]: "durable rf \<Longrightarrow> durable (resetElectionTimeout tk rf)"
  by (erule durable_frame) simp_all

lemma durable_newTerm [simp]: "durable (newTerm t rf)"
  by (simp add: newTerm_def)

lemma durable_adopt: "durable rf \<Longrightarrow> durable (adopt tk t rf)"
  unfolding adopt_def
  by (rule durable_reset) (auto intro: durable_frame [of "newTerm t rf"] durable_frame [of rf])

lemma durable_advance: "durable rf \<Longrightarrow> durable (advance_commit n rf)"
  by (erule durable_frame) simp_all

text \<open>The merge loop hands back the whole log when nothing is left to append, so an append that
  changes the log persists it.\<close>

lemma merge_nothing_left: "merge_entries rf i es = Inr (lg, []) \<Longrightarrow> lg = log rf"
  by (induction rf i es rule: merge_entries.induct) (auto simp: go_map_eq_Inr split: if_splits)

lemma durable_append_new: "durable rf \<Longrightarrow> merge_entries rf i es = Inr p \<Longrightarrow> durable (append_new p rf)"
  by (cases p) (auto simp: append_new_def dest: merge_nothing_left)

lemma durable_RequestVote: "durable rf \<Longrightarrow> durable (fst (RequestVote tk args rf))"
  by (auto simp: RequestVote_def Let_def)

lemma durable_AppendEntries:
  assumes "durable rf" and "AppendEntries tk args rf = Inr (rf', reply)"
  shows "durable rf'"
  using assms durable_adopt [OF assms(1), of tk "AETerm args"]
  by (auto simp: AppendEntries_eq Let_def go_map_eq_Inr split: if_splits option.splits
      intro: durable_advance durable_append_new)

lemma durable_InstallSnapshot: "durable rf \<Longrightarrow> durable (fst (InstallSnapshot tk args rf))"
  by (auto simp: InstallSnapshot_def Let_def)

lemma durable_Snapshot: "durable rf \<Longrightarrow> durable (Snapshot index snap rf)"
  by (auto simp: Snapshot_def Let_def)

lemma durable_Start: "durable rf \<Longrightarrow> durable (fst (Start c rf))"
  by (auto simp: Start_def Let_def)

lemma durable_checkElectionTimeout: "durable rf \<Longrightarrow> durable (fst (checkElectionTimeout tk rf))"
  by (auto simp: checkElectionTimeout_def)

lemma durable_startElection: "durable rf \<Longrightarrow> durable (fst (startElection rf))"
  by (erule durable_frame) (simp_all add: startElection_def Let_def)

lemma durable_voteReply: "durable rf \<Longrightarrow> durable (voteReply args reply rf)"
  by (auto simp: voteReply_def initializeLeaderState_def Let_def intro: durable_frame [of rf])

lemma commit_scan_frame:
  "commit_scan ns rf = Inr rf' \<Longrightarrow> \<exists>c. rf' = rf\<lparr>commitIndex := c\<rparr>"
proof (induction ns arbitrary: rf)
  case Nil
  then show ?case by (auto intro: exI [of _ "commitIndex rf"])
next
  case (Cons n ns)
  then show ?case by (fastforce simp: go_bind_eq_Inr split: if_splits)
qed

lemma durable_snapshotReply:
  "durable rf \<Longrightarrow> snapshotReply tk server args t rf = Inr rf' \<Longrightarrow> durable rf'"
  by (auto simp: snapshotReply_def go_bind_eq_Inr go_map_eq_Inr split: if_splits intro: durable_frame [of rf])

lemma durable_handleAppendEntriesReply:
  "durable rf \<Longrightarrow> handleAppendEntriesReply tk server args reply rf = Inr rf' \<Longrightarrow> durable rf'"
  by (auto simp: handleAppendEntriesReply_def tryCommit_def go_bind_eq_Inr go_map_eq_Inr
      split: if_splits dest!: commit_scan_frame intro: durable_frame [of rf])

lemma durable_collect: "durable rf \<Longrightarrow> durable (fst (applier_collect rf))"
  by (erule durable_frame) (simp_all add: applier_collect_def)

section \<open>Properties of persistence\<close>

text \<open>C16: Every locked section of a peer leaves storage and memory in agreement: the RPC handlers,
  \<open>Start\<close>, \<open>Snapshot\<close>, the election timer and the reply handlers all keep the property that a
  restart from storage restores the term, the vote, the log and the snapshot position.\<close>

theorem every_section_is_durable:
  assumes "durable rf"
  shows "durable (fst (RequestVote tk va rf)) \<and>
    (AppendEntries tk aa rf = Inr (rf1, r1) \<longrightarrow> durable rf1) \<and>
    durable (fst (InstallSnapshot tk ia rf)) \<and> durable (Snapshot index snap rf) \<and>
    durable (fst (Start c rf)) \<and> durable (fst (checkElectionTimeout tk rf)) \<and>
    durable (fst (startElection rf)) \<and> durable (voteReply va vr rf) \<and>
    (snapshotReply tk server ia t rf = Inr rf2 \<longrightarrow> durable rf2) \<and>
    (handleAppendEntriesReply tk server aa r1 rf = Inr rf3 \<longrightarrow> durable rf3) \<and>
    durable (fst (applier_collect rf))"
  by (simp add: assms durable_RequestVote durable_InstallSnapshot durable_Snapshot durable_Start
      durable_checkElectionTimeout durable_startElection durable_voteReply durable_collect)
     (blast intro: assms durable_AppendEntries durable_snapshotReply durable_handleAppendEntriesReply)

definition demo_fresh :: "(nat, nat) Raft" where
  "demo_fresh = Make 3 0 MakePersister (0, 0)"

definition demo_vote :: RequestVoteArgs where
  "demo_vote = \<lparr>RVTerm = 4, CandidateId = 2, LastLogIndex = 0, LastLogTerm = 0\<rparr>"

theorem every_section_is_durable_witness:
  "durable (fst (RequestVote (0, 0) demo_vote demo_fresh)) \<and> votedFor (fst (RequestVote (0, 0) demo_vote demo_fresh)) = 2"
proof -
  have d: "durable demo_fresh" by (simp add: demo_fresh_def durable_Make)
  have "votedFor (fst (RequestVote (0, 0) demo_vote demo_fresh)) = 2"
    by (simp add: demo_fresh_def demo_vote_def RequestVote_def logIsAtLeastAsUpToDate_def getLastLogTerm_def demo_simps)
  then show ?thesis using every_section_is_durable [OF d, of "(0, 0)" demo_vote] by blast
qed

text \<open>A peer made anew from the storage of a durable peer.\<close>

lemma made_from_storage:
  assumes "durable rf"
  shows "let rf' = Make n i (Persister_Copy (persister rf)) tk in
     currentTerm rf' = currentTerm rf \<and> votedFor rf' = votedFor rf \<and> log rf' = log rf \<and>
     lastIncludedIndex rf' = lastIncludedIndex rf \<and> lastIncludedTerm rf' = lastIncludedTerm rf \<and> state rf' = Follower \<and>
     commitIndex rf' = max 0 (lastIncludedIndex rf) \<and> lastApplied rf' = max 0 (lastIncludedIndex rf) \<and>
     ReadSnapshot (persister rf') = ReadSnapshot (persister rf)"
proof -
  let ?rf' = "Make n i (Persister_Copy (persister rf)) tk"
  have copy: "ReadRaftState (Persister_Copy (persister rf)) = ReadRaftState (persister rf)"
    "ReadSnapshot (Persister_Copy (persister rf)) = ReadSnapshot (persister rf)" by simp_all
  have "encode_state ?rf' = encode_state (Make n i (persister rf) tk)"
    by (auto simp: Make_def readPersist_def encode_state_def resetElectionTimeout_def copy split: option.splits)
  also have "\<dots> = encode_state rf" using assms Make_encode unfolding durable_def by metis
  finally have e: "encode_state ?rf' = encode_state rf" .
  have "commitIndex ?rf' = max 0 (lastIncludedIndex ?rf') \<and> lastApplied ?rf' = max 0 (lastIncludedIndex ?rf')
      \<and> state ?rf' = Follower \<and> ReadSnapshot (persister ?rf') = ReadSnapshot (persister rf)"
    using copy(2) by (auto simp: Make_def readPersist_def resetElectionTimeout_def split: option.splits)
  then show ?thesis using e by (auto simp: encode_state_def Let_def)
qed

end
