(* ===== verification/RaftApply.thy ===== *)
theory RaftApply
  imports RaftDurable
begin

text \<open>
  Installing a leader's snapshot, backing up after a refused append, and handing committed
  entries to the service (\<open>InstallSnapshot\<close>, the conflict search of \<open>AppendEntries\<close> and
  \<open>handleAppendEntriesReply\<close>, and \<open>applier\<close> of \<open>raft1/raft.go\<close>).
\<close>

section \<open>Installing a snapshot\<close>

lemma install_eq:
  assumes "currentTerm rf \<le> ISTerm args" and "lastIncludedIndex rf < ISLastIncludedIndex args"
  shows "\<exists>rf2. fst (InstallSnapshot tk args rf) = persist_with (ISData args) rf2 \<and>
    log rf2 = snapshot_log args rf \<and> lastIncludedIndex rf2 = ISLastIncludedIndex args \<and>
    lastIncludedTerm rf2 = ISLastIncludedTerm args \<and>
    commitIndex rf2 = max (commitIndex rf) (ISLastIncludedIndex args) \<and>
    lastApplied rf2 = lastApplied rf \<and> nextIndex rf2 = nextIndex rf \<and> matchIndex rf2 = matchIndex rf \<and>
    npeers rf2 = npeers rf \<and> me rf2 = me rf \<and> currentTerm rf2 = ISTerm args \<and>
    state rf2 = (if currentTerm rf < ISTerm args then Follower else state rf)"
  using assms
  by (auto simp: InstallSnapshot_def snapshot_log_def index_defs max_def)

lemma snapshot_log_eq:
  assumes "lastIncludedIndex rf < ISLastIncludedIndex args" and "log rf \<noteq> []"
  shows "snapshot_log args rf = \<lparr>Command = None, Term = ISLastIncludedTerm args\<rparr> #
    drop (nat (ISLastIncludedIndex args + 1 - lastIncludedIndex rf)) (log rf)"
  using assms by (auto simp: snapshot_log_def index_defs)

lemma install_entries:
  assumes wf: "log rf \<noteq> []" and t: "currentTerm rf \<le> ISTerm args"
    and new: "lastIncludedIndex rf < ISLastIncludedIndex args" and i: "ISLastIncludedIndex args < i"
  shows "entry_at (fst (InstallSnapshot tk args rf)) i = entry_at rf i"
proof -
  let ?d = "nat (ISLastIncludedIndex args + 1 - lastIncludedIndex rf)"
  obtain rf2 where rf2: "fst (InstallSnapshot tk args rf) = persist_with (ISData args) rf2"
    "log rf2 = snapshot_log args rf" "lastIncludedIndex rf2 = ISLastIncludedIndex args"
    using install_eq [OF t new] by blast
  have log': "log (fst (InstallSnapshot tk args rf)) =
      \<lparr>Command = None, Term = ISLastIncludedTerm args\<rparr> # drop ?d (log rf)"
    and lii': "lastIncludedIndex (fst (InstallSnapshot tk args rf)) = ISLastIncludedIndex args"
    using rf2 snapshot_log_eq [OF new wf] by simp_all
  show ?thesis
  proof (cases "i \<le> getLastLogIndex rf")
    case True
    then have len: "?d + nat (i - ISLastIncludedIndex args - 1) < length (log rf)"
      using i new by (auto simp: getLastLogIndex_def)
    have "nat (i - ISLastIncludedIndex args) = Suc (nat (i - ISLastIncludedIndex args - 1))"
      and "nat (i - lastIncludedIndex rf) = ?d + nat (i - ISLastIncludedIndex args - 1)"
      using i new by simp_all
    moreover have "i \<le> getLastLogIndex (fst (InstallSnapshot tk args rf))"
      using len i new by (auto simp: getLastLogIndex_def log' lii')
    ultimately show ?thesis using True i new len by (simp add: entry_at_def log' lii')
  next
    case False
    then have "\<not> i \<le> getLastLogIndex (fst (InstallSnapshot tk args rf))"
      using i new by (auto simp: getLastLogIndex_def log' lii')
    then show ?thesis using False by (simp add: entry_at_def)
  qed
qed

section \<open>The conflict search\<close>

lemma conflict_scan_spec:
  assumes "lastIncludedIndex rf \<le> i"
  shows "lastIncludedIndex rf \<le> conflict_scan rf t i \<and> conflict_scan rf t i \<le> i \<and>
    (\<forall>j. conflict_scan rf t i \<le> j \<and> j < i \<longrightarrow> getLogTerm rf j = t) \<and>
    (conflict_scan rf t i = lastIncludedIndex rf \<or> getLogTerm rf (conflict_scan rf t i - 1) \<noteq> t)"
  using assms
proof (induction rf t i rule: conflict_scan.induct)
  case (1 rf t i)
  show ?case
  proof (cases "i > lastIncludedIndex rf \<and> getLogTerm rf (i - 1) = t")
    case True
    then have IH: "lastIncludedIndex rf \<le> conflict_scan rf t (i - 1) \<and> conflict_scan rf t (i - 1) \<le> i - 1 \<and>
      (\<forall>j. conflict_scan rf t (i - 1) \<le> j \<and> j < i - 1 \<longrightarrow> getLogTerm rf j = t) \<and>
      (conflict_scan rf t (i - 1) = lastIncludedIndex rf \<or> getLogTerm rf (conflict_scan rf t (i - 1) - 1) \<noteq> t)"
      using "1.IH" by simp
    have "conflict_scan rf t i = conflict_scan rf t (i - 1)" using True by (simp add: conflict_scan.simps [of rf t i])
    moreover have "getLogTerm rf j = t" if "conflict_scan rf t (i - 1) \<le> j" "j < i" for j
      using IH True that by (cases "j = i - 1") auto
    ultimately show ?thesis using IH by auto
  next
    case False
    then show ?thesis using "1.prems" by (auto simp: conflict_scan.simps [of rf t i])
  qed
qed

lemma last_index_of_term_spec:
  assumes "last_index_of_term lg t n = i" and "0 \<le> i"
  shows "1 \<le> i \<and> i \<le> int n \<and> Term (lg ! nat i) = t \<and> (\<forall>j. i < int j \<and> j \<le> n \<longrightarrow> Term (lg ! j) \<noteq> t)"
  using assms
proof (induction lg t n rule: last_index_of_term.induct)
  case (1 lg t)
  then show ?case by simp
next
  case (2 lg t n)
  show ?case
  proof (cases "Term (lg ! Suc n) = t")
    case True
    then show ?thesis using "2.prems" by (auto simp: nat_add_distrib)
  next
    case False
    then have "1 \<le> i \<and> i \<le> int n \<and> Term (lg ! nat i) = t \<and> (\<forall>j. i < int j \<and> j \<le> n \<longrightarrow> Term (lg ! j) \<noteq> t)"
      using 2 by simp
    then show ?thesis using False by (auto simp: le_Suc_eq)
  qed
qed

lemma concat_singletons: "(\<And>x. x \<in> set xs \<Longrightarrow> f x = [g x]) \<Longrightarrow> concat (map f xs) = map g xs"
  by (induction xs) auto

lemma applier_round_eq:
  assumes "applicable rf" and "lastApplied rf < commitIndex rf" and "lastIncludedIndex rf \<le> commitIndex rf"
  shows "applier_round rf =
    (rf\<lparr>lastApplied := commitIndex rf\<rparr>,
     (if lastApplied rf < lastIncludedIndex rf then [snapshot_msg rf] else []) @
     map (\<lambda>i. command_msg (the (Command (the (entry_at rf i)))) i)
       [max (lastApplied rf) (lastIncludedIndex rf) + 1..commitIndex rf])"
proof -
  have one: "msg_at rf i = [command_msg (the (Command (the (entry_at rf i)))) i]"
    if "lastIncludedIndex rf < i" "i \<le> commitIndex rf" for i
    using msg_at_applicable [OF assms(1) that] by auto
  have msgs: "concat (map (msg_at rf) [j + 1..commitIndex rf]) =
      map (\<lambda>i. command_msg (the (Command (the (entry_at rf i)))) i) [j + 1..commitIndex rf]"
    if "lastIncludedIndex rf \<le> j" for j
  proof -
    have "msg_at rf i = [command_msg (the (Command (the (entry_at rf i)))) i]"
      if "i \<in> set [j + 1..commitIndex rf]" for i using one [of i] that \<open>lastIncludedIndex rf \<le> j\<close> by auto
    then show ?thesis by (rule concat_singletons)
  qed
  have inv: "msg_at (rf\<lparr>lastApplied := k\<rparr>) = msg_at rf" for k
    by (simp add: fun_eq_iff msg_at_def toArrayIndex_def Let_def)
  show ?thesis
  proof (cases "lastApplied rf < lastIncludedIndex rf")
    case True
    then show ?thesis using assms(2) msgs [of "lastIncludedIndex rf"]
      by (simp add: applier_round_def applier_snapshot_def applier_collect_def inv max_def)
  next
    case False
    then show ?thesis using assms(2) msgs [of "lastApplied rf"]
      by (simp add: applier_round_def applier_snapshot_def applier_collect_def max_def)
  qed
qed

section \<open>Properties\<close>

text \<open>An accepted snapshot takes effect as a whole: the peer's snapshot position, commit index
  and stored snapshot move to the leader's, the peer stays well-formed, and every entry of its
  own beyond the snapshot stays, whatever the terms are.\<close>

theorem install_snapshot_effect:
  assumes "peer_wf rf" and "currentTerm rf \<le> ISTerm args"
    and "lastIncludedIndex rf < ISLastIncludedIndex args"
  shows "let rf' = fst (InstallSnapshot tk args rf) in
     peer_wf rf' \<and> lastIncludedIndex rf' = ISLastIncludedIndex args \<and>
     commitIndex rf' = max (commitIndex rf) (ISLastIncludedIndex args) \<and>
     ReadSnapshot (persister rf') = ISData args \<and> lastApplied rf' = lastApplied rf \<and>
     (\<forall>i > ISLastIncludedIndex args. entry_at rf' i = entry_at rf i)"
proof -
  obtain rf2 where rf2: "fst (InstallSnapshot tk args rf) = persist_with (ISData args) rf2"
    "log rf2 = snapshot_log args rf" "lastIncludedIndex rf2 = ISLastIncludedIndex args"
    "lastIncludedTerm rf2 = ISLastIncludedTerm args"
    "commitIndex rf2 = max (commitIndex rf) (ISLastIncludedIndex args)" "lastApplied rf2 = lastApplied rf"
    "nextIndex rf2 = nextIndex rf" "matchIndex rf2 = matchIndex rf" "npeers rf2 = npeers rf"
    "state rf2 = (if currentTerm rf < ISTerm args then Follower else state rf)"
    using install_eq [OF assms(2,3)] by blast
  have ne: "log rf \<noteq> []" using assms(1) by (simp add: peer_wf_def)
  have "peer_wf (persist_with (ISData args) rf2)"
    using assms(1,3) rf2 snapshot_log_eq [OF assms(3) ne] by (auto simp: peer_wf_def)
  moreover have "ReadSnapshot (persister (persist_with (ISData args) rf2)) = ISData args"
    by (simp add: persist_with_def)
  moreover have "\<forall>i > ISLastIncludedIndex args. entry_at (persist_with (ISData args) rf2) i = entry_at rf i"
    using install_entries [OF ne assms(2,3), of _ tk] unfolding rf2(1) by blast
  ultimately show ?thesis using rf2(3,5,6) unfolding rf2(1) Let_def by simp
qed

definition demo_install :: "nat InstallSnapshotArgs" where
  "demo_install = \<lparr>ISTerm = 5, ISLeaderId = 2, ISLastIncludedIndex = 2, ISLastIncludedTerm = 4, ISData = [7]\<rparr>"

lemma demo_peer_wf: "peer_wf demo_peer"
  by (simp add: peer_wf_def demo_simps)

theorem install_snapshot_effect_witness:
  "let rf' = fst (InstallSnapshot (0, 0) demo_install demo_peer) in
   lastIncludedIndex rf' = 2 \<and> commitIndex rf' = 2 \<and> ReadSnapshot (persister rf') = [7]"
proof -
  have t: "currentTerm demo_peer \<le> ISTerm demo_install"
    "lastIncludedIndex demo_peer < ISLastIncludedIndex demo_install" "commitIndex demo_peer = 0"
    by (simp_all add: demo_install_def demo_simps)
  from install_snapshot_effect [OF demo_peer_wf t(1,2), of "(0, 0)"] t(3) show ?thesis
    by (simp add: Let_def demo_install_def)
qed

text \<open>\<open>InstallSnapshot\<close> keeps a suffix that belongs to another history. A follower whose entry at
  the snapshot's last index has another term than the snapshot says keeps its entries behind
  that index nevertheless, so its log now continues the leader's snapshot with entries of an
  older term that the leader never had there.\<close>

theorem install_snapshot_keeps_conflicting_suffix:
  "let rf' = fst (InstallSnapshot (0, 0) demo_install demo_peer) in
   getLogTerm demo_peer (ISLastIncludedIndex demo_install) \<noteq> ISLastIncludedTerm demo_install \<and>
   getLogTerm rf' 2 = 4 \<and> entry_at rf' 3 = Some (entry 2 12)"
proof -
  have t: "currentTerm demo_peer \<le> ISTerm demo_install" "lastIncludedIndex demo_peer < ISLastIncludedIndex demo_install"
    and e: "entry_at demo_peer 3 = Some (entry 2 12)"
    and g: "getLogTerm demo_peer (ISLastIncludedIndex demo_install) \<noteq> ISLastIncludedTerm demo_install"
    by (simp_all add: demo_install_def entry_at_def demo_simps)
  have ne: "log demo_peer \<noteq> []" by (simp add: demo_simps)
  have "entry_at (fst (InstallSnapshot (0, 0) demo_install demo_peer)) 3 = Some (entry 2 12)"
    using install_entries [OF ne t, of 3] e by (simp add: demo_install_def)
  moreover have "getLogTerm (fst (InstallSnapshot (0, 0) demo_install demo_peer)) 2 = 4"
    by (simp add: InstallSnapshot_def snapshot_log_def persist_with_def demo_install_def demo_simps)
  ultimately show ?thesis using g by (simp add: Let_def)
qed

text \<open>A refused append reports where the conflicting term begins: when the entry at
  \<open>PrevLogIndex\<close> has another term, the reply names that term and the first index of its run in
  the follower's log, not before the snapshot.\<close>

theorem refusal_names_conflict:
  assumes "log_mismatch args rf = Some (ct, ci)" and "PrevLogIndex args \<le> getLastLogIndex rf"
    and "lastIncludedIndex rf \<le> PrevLogIndex args"
  shows "ct = getLogTerm rf (PrevLogIndex args) \<and> ct \<noteq> PrevLogTerm args \<and>
    lastIncludedIndex rf \<le> ci \<and> ci \<le> PrevLogIndex args \<and>
    (\<forall>j. ci \<le> j \<and> j \<le> PrevLogIndex args \<longrightarrow> getLogTerm rf j = ct) \<and>
    (ci = lastIncludedIndex rf \<or> getLogTerm rf (ci - 1) \<noteq> ct)"
proof -
  have ct: "ct = getLogTerm rf (PrevLogIndex args)" "ct \<noteq> PrevLogTerm args"
    "ci = conflict_scan rf ct (PrevLogIndex args)"
    using assms by (auto simp: log_mismatch_def Let_def split: if_splits)
  have "getLogTerm rf j = ct" if "ci \<le> j" "j \<le> PrevLogIndex args" for j
    using conflict_scan_spec [OF assms(3), of ct] ct(1) that unfolding ct(3) [symmetric]
    by (cases "j = PrevLogIndex args") auto
  then show ?thesis using conflict_scan_spec [OF assms(3), of ct] ct(1,2) unfolding ct(3) [symmetric] by blast
qed

theorem refusal_names_conflict_witness:
  "let args = demo_append\<lparr>PrevLogIndex := 2, PrevLogTerm := 9\<rparr> in
   \<exists>ct ci. log_mismatch args demo_peer = Some (ct, ci) \<and> ct = 1 \<and> ci \<le> 2"
proof -
  let ?args = "demo_append\<lparr>PrevLogIndex := 2, PrevLogTerm := 9\<rparr>"
  have "\<exists>ct ci. log_mismatch ?args demo_peer = Some (ct, ci)" by (simp add: demo_simps)
  then obtain ct ci where m: "log_mismatch ?args demo_peer = Some (ct, ci)" by blast
  from refusal_names_conflict [OF m] have "ct = 1 \<and> ci \<le> 2" by (simp add: demo_simps)
  with m show ?thesis by (simp add: Let_def)
qed

text \<open>The leader's back-up after a conflict mixes two index spaces. When it finds the follower's
  conflicting term in its own log, it sets the follower's next index to the array position of
  the last entry of that term plus one, which is that entry's real index plus one less the
  snapshot position; with a snapshot this is too low by the snapshot position.\<close>

theorem conflict_backoff_offset:
  assumes "ConflictTerm reply \<noteq> -1"
    and "last_index_of_term (log rf) (ConflictTerm reply) (length (log rf) - 1) = i" and "0 \<le> i"
  shows "next_after_conflict reply rf = i + 1 \<and>
    getLogTerm rf (i + lastIncludedIndex rf) = ConflictTerm reply \<and>
    (\<forall>j. i + lastIncludedIndex rf < j \<and> j \<le> getLastLogIndex rf \<longrightarrow> getLogTerm rf j \<noteq> ConflictTerm reply)"
proof -
  note sp = last_index_of_term_spec [OF assms(2,3)]
  have bound: "i < int (length (log rf))" using sp by auto
  have "getLogTerm rf j \<noteq> ConflictTerm reply" if j: "i + lastIncludedIndex rf < j" "j \<le> getLastLogIndex rf" for j
  proof -
    let ?k = "nat (j - lastIncludedIndex rf)"
    have k: "i < int ?k" "?k \<le> length (log rf) - 1" "0 \<le> j - lastIncludedIndex rf"
      using j sp by (auto simp: getLastLogIndex_def)
    then have "?k < length (log rf)" using bound sp by (cases "log rf") auto
    then show ?thesis using sp k by (auto simp: getLogTerm_def toArrayIndex_def Let_def)
  qed
  then show ?thesis using assms sp bound
    by (auto simp: next_after_conflict_def Let_def getLogTerm_def toArrayIndex_def)
qed

definition demo_conflict :: AppendEntriesReply where
  "demo_conflict = \<lparr>AERTerm = 2, Success = False, ConflictTerm = 2, ConflictIndex = 3\<rparr>"

theorem conflict_backoff_offset_witness:
  "next_after_conflict demo_conflict demo_snapped = 2 \<and> getLogTerm demo_snapped 3 = 2 \<and>
   lastIncludedIndex demo_snapped = 2"
proof -
  have i: "last_index_of_term (log demo_snapped) (ConflictTerm demo_conflict) (length (log demo_snapped) - 1) = 1"
    and l: "lastIncludedIndex demo_snapped = 2"
    by (simp_all add: demo_snapped_def demo_conflict_def Snapshot_def persist_with_def demo_simps)
  have "ConflictTerm demo_conflict \<noteq> -1" by (simp add: demo_conflict_def)
  from conflict_backoff_offset [OF this i] l show ?thesis by (simp add: demo_conflict_def)
qed

text \<open>C18: The applier delivers in order and without gaps. A round that is not interrupted hands the
  service the snapshot first if it has not seen it, then every committed command behind it,
  in index order, each once and each the command of the log entry at its index; afterwards
  everything committed counts as applied.\<close>

theorem applier_round_in_order:
  assumes "applicable rf" and "lastApplied rf < commitIndex rf" and "lastIncludedIndex rf \<le> commitIndex rf"
  shows "applier_round rf =
    (rf\<lparr>lastApplied := commitIndex rf\<rparr>,
     (if lastApplied rf < lastIncludedIndex rf then [snapshot_msg rf] else []) @
     map (\<lambda>i. command_msg (the (Command (the (entry_at rf i)))) i)
       [max (lastApplied rf) (lastIncludedIndex rf) + 1..commitIndex rf])"
  using assms by (rule applier_round_eq)

definition demo_committed :: "(nat, nat) Raft" where
  "demo_committed = demo_peer\<lparr>commitIndex := 2, lastApplied := 0\<rparr>"

theorem applier_round_in_order_witness:
  "snd (applier_round demo_committed) = [command_msg 10 1, command_msg 11 2]"
proof -
  have nat2: "x = 1 \<or> x = 2" if "0 < x" "x \<le> (2::int)" for x using that by auto
  have a: "applicable demo_committed"
    unfolding applicable_def by (auto simp: demo_committed_def entry_at_def demo_simps dest!: nat2)
  have b: "lastApplied demo_committed < commitIndex demo_committed"
    "lastIncludedIndex demo_committed \<le> commitIndex demo_committed"
    by (simp_all add: demo_committed_def demo_simps)
  show ?thesis unfolding applier_round_in_order [OF a b]
    by (simp add: demo_committed_def entry_at_def demo_simps upto.simps)
qed

text \<open>The applier can lose a snapshot. It releases the lock to send one snapshot; if the handler
  installs a newer snapshot before it takes the lock again, the section that follows skips all
  entries the newer snapshot covers and marks them applied, and that snapshot is never sent:
  the service gets nothing for these indices.\<close>

theorem applier_loses_snapshot:
  assumes "applier_snapshot rf = Some (rf1, m)" and "log rf \<noteq> []"
    and "currentTerm rf \<le> ISTerm args" and "commitIndex rf \<le> ISLastIncludedIndex args"
  shows "let rf2 = fst (InstallSnapshot tk args rf1); (rf3, ms) = applier_collect rf2 in
     SnapshotIndex m < ISLastIncludedIndex args \<longrightarrow>
     ms = [] \<and> lastApplied rf3 = ISLastIncludedIndex args \<and> applier_snapshot rf3 = None"
proof -
  have rf1: "rf1 = rf\<lparr>lastApplied := lastIncludedIndex rf\<rparr>" "m = snapshot_msg rf"
    using assms(1) by (auto simp: applier_snapshot_def split: if_splits)
  show ?thesis
  proof (cases "SnapshotIndex m < ISLastIncludedIndex args")
    case True
    then have lt: "lastIncludedIndex rf1 < ISLastIncludedIndex args" "currentTerm rf1 \<le> ISTerm args"
      using rf1 assms(3) by (auto simp: snapshot_msg_def)
    obtain rf2 where rf2: "fst (InstallSnapshot tk args rf1) = persist_with (ISData args) rf2"
      "lastIncludedIndex rf2 = ISLastIncludedIndex args" "lastApplied rf2 = lastApplied rf1"
      "commitIndex rf2 = max (commitIndex rf1) (ISLastIncludedIndex args)"
      using install_eq [OF lt(2,1)] by blast
    have c: "commitIndex rf2 = ISLastIncludedIndex args" using rf2(4) rf1 assms(4) by simp
    have "concat (map (msg_at (persist_with (ISData args) rf2)) [lastApplied rf2 + 1..commitIndex rf2]) = []"
      using rf2(2) c by (simp add: msg_at_def)
    then show ?thesis using rf2 c by (simp add: applier_collect_def applier_snapshot_def Let_def)
  qed (simp add: Let_def case_prod_beta)
qed

definition demo_behind :: "(nat, nat) Raft" where
  "demo_behind = demo_snapped\<lparr>lastApplied := 0, commitIndex := 2\<rparr>"

theorem applier_loses_snapshot_witness:
  "let rf1 = demo_behind\<lparr>lastApplied := 2\<rparr>;
       rf2 = fst (InstallSnapshot (0, 0) (demo_install\<lparr>ISLastIncludedIndex := 9\<rparr>) rf1);
       (rf3, ms) = applier_collect rf2 in
   applier_snapshot demo_behind = Some (rf1, snapshot_msg demo_behind) \<and>
   ms = [] \<and> lastApplied rf3 = 9 \<and> applier_snapshot rf3 = None"
proof -
  let ?rf1 = "demo_behind\<lparr>lastApplied := 2\<rparr>" and ?args = "demo_install\<lparr>ISLastIncludedIndex := 9\<rparr>"
  have s: "applier_snapshot demo_behind = Some (?rf1, snapshot_msg demo_behind)"
    and l: "log demo_behind \<noteq> []" and t: "currentTerm demo_behind \<le> ISTerm ?args"
    and c: "commitIndex demo_behind \<le> ISLastIncludedIndex ?args"
    and i: "SnapshotIndex (snapshot_msg demo_behind) < ISLastIncludedIndex ?args"
    by (simp_all add: demo_behind_def demo_install_def demo_snapped_def Snapshot_def persist_with_def
        applier_snapshot_def snapshot_msg_def demo_simps)
  from applier_loses_snapshot [OF s l t c, of "(0, 0)"] i s show ?thesis
    by (simp add: Let_def case_prod_beta)
qed

end
