(* ===== verification/RaftCluster.thy ===== *)
theory RaftCluster
  imports RaftApply
begin

text \<open>
  A cluster of Raft peers over an unreliable network: the locked sections of \<open>RaftPeer\<close> run one
  at a time, in any order, on the peers of one cluster, and their requests and replies travel
  as packets. A packet may be delivered late or lost, and is delivered at most once, as
  \<open>labrpc\<close> does it; a reply reaches the very goroutine that sent the request, so it carries the
  instance of the caller, and a restart of the caller makes a new instance. A crash loses all of
  a peer but what its persister holds.

  A section that panics takes the whole process down; it has no successor state.
\<close>

section \<open>State\<close>

datatype ('c, 's) payload =
    VoteCall RequestVoteArgs
  | VoteReturn RequestVoteArgs RequestVoteReply
  | AppendCall "'c AppendEntriesArgs"
  | AppendReturn "'c AppendEntriesArgs" AppendEntriesReply
  | SnapCall "'s InstallSnapshotArgs"
  | SnapReturn "'s InstallSnapshotArgs" int

record ('c, 's) packet =
  caller :: nat
  caller_inst :: nat
  callee :: nat
  payload :: "('c, 's) payload"

record ('c, 's) cluster =
  peer :: "nat \<Rightarrow> ('c, 's) Raft"
  inst :: "nat \<Rightarrow> nat"          \<comment> \<open>how often the peer was restarted\<close>
  pending :: "nat \<Rightarrow> nat"       \<comment> \<open>goroutines \<open>startElection\<close> that have not got the lock yet\<close>
  net :: "('c, 's) packet list"

definition cluster_init :: "nat \<Rightarrow> (nat \<Rightarrow> tick) \<Rightarrow> ('c, 's) cluster" where
  "cluster_init n tk =
     \<lparr>peer = (\<lambda>i. Make n (int i) MakePersister (tk i)), inst = (\<lambda>_. 0), pending = (\<lambda>_. 0), net = []\<rparr>"

section \<open>Events\<close>

datatype ('c, 's) event =
    Timeout nat tick                    \<comment> \<open>the ticker calls \<open>checkElectionTimeout\<close>\<close>
  | RunElection nat                     \<comment> \<open>a \<open>startElection\<close> goroutine gets the lock\<close>
  | SendTo nat nat                      \<comment> \<open>a \<open>sendToFollower\<close> goroutine\<close>
  | Deliver nat tick                    \<comment> \<open>the packet at this position arrives\<close>
  | Lose nat
  | ClientStart nat "'c option"
  | ServiceSnapshot nat int "'s list"
  | ApplySnapshot nat
  | ApplyCollect nat
  | Restart nat tick

definition put_peer :: "nat \<Rightarrow> ('c, 's) Raft \<Rightarrow> ('c, 's) cluster \<Rightarrow> ('c, 's) cluster" where
  "put_peer i rf s = s\<lparr>peer := (peer s)(i := rf)\<rparr>"

definition transmit :: "('c, 's) packet list \<Rightarrow> ('c, 's) cluster \<Rightarrow> ('c, 's) cluster" where
  "transmit ps s = s\<lparr>net := net s @ ps\<rparr>"

definition take_out :: "nat \<Rightarrow> ('c, 's) cluster \<Rightarrow> ('c, 's) cluster" where
  "take_out k s = s\<lparr>net := take k (net s) @ drop (Suc k) (net s)\<rparr>"

text \<open>A goroutine waiting for a reply belongs to one instance of its peer.\<close>

definition to_caller ::
  "('c, 's) packet \<Rightarrow> (('c, 's) Raft \<Rightarrow> ('c, 's) Raft go) \<Rightarrow> ('c, 's) cluster \<Rightarrow> ('c, 's) cluster option" where
  "to_caller p f s =
     (if caller_inst p = inst s (caller p) then
        (case f (peer s (caller p)) of Inl _ \<Rightarrow> None | Inr rf \<Rightarrow> Some (put_peer (caller p) rf s))
      else Some s)"

definition arrive :: "tick \<Rightarrow> ('c, 's) packet \<Rightarrow> ('c, 's) cluster \<Rightarrow> ('c, 's) cluster option" where
  "arrive tk p s =
     (case payload p of
        VoteCall args \<Rightarrow>
          (let (rf, reply) = RequestVote tk args (peer s (callee p)) in
           Some (transmit [p\<lparr>payload := VoteReturn args reply\<rparr>] (put_peer (callee p) rf s)))
      | AppendCall args \<Rightarrow>
          (case AppendEntries tk args (peer s (callee p)) of
             Inl _ \<Rightarrow> None
           | Inr (rf, reply) \<Rightarrow>
               Some (transmit [p\<lparr>payload := AppendReturn args reply\<rparr>] (put_peer (callee p) rf s)))
      | SnapCall args \<Rightarrow>
          (let (rf, reply) = InstallSnapshot tk args (peer s (callee p)) in
           Some (transmit [p\<lparr>payload := SnapReturn args reply\<rparr>] (put_peer (callee p) rf s)))
      | VoteReturn args reply \<Rightarrow> to_caller p (\<lambda>rf. Inr (voteReply args reply rf)) s
      | AppendReturn args reply \<Rightarrow> to_caller p (handleAppendEntriesReply tk (callee p) args reply) s
      | SnapReturn args reply \<Rightarrow> to_caller p (snapshotReply tk (callee p) args reply) s)"

definition call_of :: "('c, 's) follower_rpc \<Rightarrow> ('c, 's) payload" where
  "call_of r = (case r of SendAppend a \<Rightarrow> AppendCall a | SendSnapshot a \<Rightarrow> SnapCall a)"

definition request :: "('c, 's) cluster \<Rightarrow> nat \<Rightarrow> ('c, 's) payload \<Rightarrow> nat \<Rightarrow> ('c, 's) packet" where
  "request s i pl j = \<lparr>caller = i, caller_inst = inst s i, callee = j, payload = pl\<rparr>"

definition subject :: "('c, 's) event \<Rightarrow> nat option" where
  "subject e = (case e of Timeout i _ \<Rightarrow> Some i | RunElection i \<Rightarrow> Some i | SendTo i _ \<Rightarrow> Some i
     | ClientStart i _ \<Rightarrow> Some i | ServiceSnapshot i _ _ \<Rightarrow> Some i | ApplySnapshot i \<Rightarrow> Some i
     | ApplyCollect i \<Rightarrow> Some i | Restart i _ \<Rightarrow> Some i | _ \<Rightarrow> None)"

text \<open>\<open>None\<close>: the event cannot happen in this state.\<close>

definition happen :: "nat \<Rightarrow> ('c, 's) event \<Rightarrow> ('c, 's) cluster \<Rightarrow> ('c, 's) cluster option" where
  "happen n e s =
     (if (case subject e of Some i \<Rightarrow> \<not> i < n | None \<Rightarrow> False) then None
      else case e of
        Timeout i tk \<Rightarrow>
          (let (rf, started) = checkElectionTimeout tk (peer s i) in
           Some ((put_peer i rf s)\<lparr>pending := (pending s)(i := pending s i + (if started then 1 else 0))\<rparr>))
      | RunElection i \<Rightarrow>
          (if pending s i = 0 then None
           else let (rf, args) = startElection (peer s i) in
             Some (transmit (map (request s i (VoteCall args)) (other_peers rf))
                    ((put_peer i rf s)\<lparr>pending := (pending s)(i := pending s i - 1)\<rparr>)))
      | SendTo i j \<Rightarrow>
          (if j < n \<and> j \<noteq> i then
             (case sendToFollower j (peer s i) of
                Inl _ \<Rightarrow> None
              | Inr None \<Rightarrow> Some s
              | Inr (Some r) \<Rightarrow> Some (transmit [request s i (call_of r) j] s))
           else None)
      | Deliver k tk \<Rightarrow> (if k < length (net s) then arrive tk (net s ! k) (take_out k s) else None)
      | Lose k \<Rightarrow> (if k < length (net s) then Some (take_out k s) else None)
      | ClientStart i c \<Rightarrow> Some (put_peer i (fst (Start c (peer s i))) s)
      | ServiceSnapshot i index snap \<Rightarrow> Some (put_peer i (Snapshot index snap (peer s i)) s)
      | ApplySnapshot i \<Rightarrow>
          (case applier_snapshot (peer s i) of None \<Rightarrow> None | Some (rf, _) \<Rightarrow> Some (put_peer i rf s))
      | ApplyCollect i \<Rightarrow> Some (put_peer i (fst (applier_collect (peer s i))) s)
      | Restart i tk \<Rightarrow>
          Some ((put_peer i (Make n (int i) (Persister_Copy (persister (peer s i))) tk) s)
                \<lparr>inst := (inst s)(i := inst s i + 1), pending := (pending s)(i := 0)\<rparr>))"

fun run_events :: "nat \<Rightarrow> ('c, 's) event list \<Rightarrow> ('c, 's) cluster \<Rightarrow> ('c, 's) cluster option" where
  "run_events n [] s = Some s"
| "run_events n (e # es) s = Option.bind (happen n e s) (run_events n es)"

section \<open>Runs\<close>

inductive reachable :: "nat \<Rightarrow> ('c, 's) cluster \<Rightarrow> bool" for n where
  start: "reachable n (cluster_init n tk)"
| step: "reachable n s \<Longrightarrow> happen n e s = Some s' \<Longrightarrow> reachable n s'"

text \<open>A prompt event is one that does not time a peer out while an earlier \<open>startElection\<close> of the
  same peer still waits for the lock.\<close>

fun prompt :: "('c, 's) event \<Rightarrow> ('c, 's) cluster \<Rightarrow> bool" where
  "prompt (Timeout i tk) s \<longleftrightarrow> pending s i = 0"
| "prompt _ s \<longleftrightarrow> True"

inductive prompt_reachable :: "nat \<Rightarrow> ('c, 's) cluster \<Rightarrow> bool" for n where
  prompt_start: "prompt_reachable n (cluster_init n tk)"
| prompt_step: "prompt_reachable n s \<Longrightarrow> prompt e s \<Longrightarrow> happen n e s = Some s' \<Longrightarrow> prompt_reachable n s'"

lemma prompt_reachable_reachable: "prompt_reachable n s \<Longrightarrow> reachable n s"
  by (induction rule: prompt_reachable.induct) (auto intro: reachable.intros)

fun prompt_events :: "nat \<Rightarrow> ('c, 's) event list \<Rightarrow> ('c, 's) cluster \<Rightarrow> bool" where
  "prompt_events n [] s \<longleftrightarrow> True"
| "prompt_events n (e # es) s \<longleftrightarrow> prompt e s \<and>
     (case happen n e s of None \<Rightarrow> True | Some s' \<Rightarrow> prompt_events n es s')"

lemma run_reachable:
  "reachable n s \<Longrightarrow> run_events n es s = Some s' \<Longrightarrow> reachable n s'"
  by (induction es arbitrary: s) (auto simp: bind_eq_Some_conv intro: reachable.step)

lemma run_prompt_reachable:
  "prompt_reachable n s \<Longrightarrow> prompt_events n es s \<Longrightarrow> run_events n es s = Some s' \<Longrightarrow> prompt_reachable n s'"
proof (induction es arbitrary: s)
  case (Cons e es)
  then obtain s1 where s1: "happen n e s = Some s1" "run_events n es s1 = Some s'"
    by (auto simp: bind_eq_Some_conv)
  with Cons.prems have "prompt_reachable n s1" by (auto intro: prompt_reachable.prompt_step)
  with Cons s1 show ?case by simp
qed simp

section \<open>What a section does to the peer's election state\<close>

text \<open>All sections but the three that vote and count votes either leave term, vote, role and
  vote count alone, or make the peer a follower, in the same term with the same vote or in a
  later one without a vote.\<close>

definition settles :: "('c, 's) Raft \<Rightarrow> ('c, 's) Raft \<Rightarrow> bool" where
  "settles rf rf' \<longleftrightarrow> me rf' = me rf \<and> npeers rf' = npeers rf \<and>
     (currentTerm rf' = currentTerm rf \<and> votedFor rf' = votedFor rf \<and>
        (state rf' = Follower \<or> state rf' = state rf \<and> votesReceived rf' = votesReceived rf) \<or>
      currentTerm rf < currentTerm rf' \<and> votedFor rf' = -1 \<and> state rf' = Follower)"

lemma settles_refl [simp]: "settles rf rf"
  by (simp add: settles_def)

lemma settles_frame:
  "me rf' = me rf \<Longrightarrow> npeers rf' = npeers rf \<Longrightarrow> currentTerm rf' = currentTerm rf \<Longrightarrow>
   votedFor rf' = votedFor rf \<Longrightarrow> state rf' = state rf \<or> state rf' = Follower \<Longrightarrow>
   votesReceived rf' = votesReceived rf \<Longrightarrow> settles rf rf'"
  by (auto simp: settles_def)

lemma settles_after:
  "settles rf rf1 \<Longrightarrow> me rf' = me rf1 \<Longrightarrow> npeers rf' = npeers rf1 \<Longrightarrow> currentTerm rf' = currentTerm rf1 \<Longrightarrow>
   votedFor rf' = votedFor rf1 \<Longrightarrow> state rf' = state rf1 \<or> state rf' = Follower \<Longrightarrow>
   votesReceived rf' = votesReceived rf1 \<Longrightarrow> settles rf rf'"
  by (auto simp: settles_def)

lemma settles_newTerm: "currentTerm rf < t \<Longrightarrow> settles rf (newTerm t rf)"
  by (simp add: settles_def)

lemma settles_adopt: "settles rf (adopt tk t rf)"
  by (auto simp: adopt_def settles_def)

lemma settles_AppendEntries: "AppendEntries tk args rf = Inr (rf', reply) \<Longrightarrow> settles rf rf'"
proof (cases "AETerm args < currentTerm rf")
  case False
  moreover assume "AppendEntries tk args rf = Inr (rf', reply)"
  ultimately show ?thesis
    by (intro settles_after [OF settles_adopt, of _ tk "AETerm args"])
       (auto simp: AppendEntries_eq Let_def go_map_eq_Inr append_new_def split: if_splits option.splits)
qed (simp add: AppendEntries_eq Let_def)

lemma settles_InstallSnapshot: "settles rf (fst (InstallSnapshot tk args rf))"
  by (auto simp: InstallSnapshot_def Let_def settles_def persist_with_def)

lemma settles_Start: "settles rf (fst (Start c rf))"
  by (rule settles_frame) (simp_all add: Start_def Let_def)

lemma settles_Snapshot: "settles rf (Snapshot index snap rf)"
  by (rule settles_frame) (simp_all add: Snapshot_def Let_def)

lemma settles_snapshotReply: "snapshotReply tk server args t rf = Inr rf' \<Longrightarrow> settles rf rf'"
  by (auto simp: snapshotReply_def settles_def go_bind_eq_Inr go_map_eq_Inr split: if_splits)

lemma settles_handleAppendEntriesReply:
  "handleAppendEntriesReply tk server args reply rf = Inr rf' \<Longrightarrow> settles rf rf'"
  by (auto simp: handleAppendEntriesReply_def tryCommit_def settles_def go_bind_eq_Inr go_map_eq_Inr
      split: if_splits dest!: commit_scan_frame)

lemma settles_applier:
  "settles rf (fst (applier_collect rf))" "applier_snapshot rf = Some (rf', m) \<Longrightarrow> settles rf rf'"
  by (auto simp: applier_collect_def applier_snapshot_def settles_def split: if_splits)

lemma durable_applier_snapshot: "durable rf \<Longrightarrow> applier_snapshot rf = Some (rf', m) \<Longrightarrow> durable rf'"
  by (auto simp: applier_snapshot_def split: if_splits intro: durable_frame [of rf])

lemma restart_fields:
  assumes "durable rf"
  shows "settles rf ((Make (npeers rf) (me rf) (Persister_Copy (persister rf)) tk)) \<and>
    durable (Make (npeers rf) (me rf) (Persister_Copy (persister rf)) tk)"
proof -
  let ?rf' = "Make (npeers rf) (me rf) (Persister_Copy (persister rf)) tk"
  have stored: "ReadRaftState (Persister_Copy (persister rf)) = ReadRaftState (persister rf)" by simp
  have e: "encode_state ?rf' = encode_state rf"
    using assms unfolding durable_def
    by (auto simp: Make_def readPersist_def encode_state_def resetElectionTimeout_def stored split: option.splits)
  have "me ?rf' = me rf" "npeers ?rf' = npeers rf" "state ?rf' = Follower"
    "persister ?rf' = Persister_Copy (persister rf)"
    by (auto simp: Make_def readPersist_def resetElectionTimeout_def split: option.splits)
  then show ?thesis using e Make_encode [of "npeers rf" "me rf" "Persister_Copy (persister rf)" "(0, 0)" "npeers rf" "me rf" tk]
    by (auto simp: settles_def durable_def encode_state_def)
qed

end
