(* ===== verification/RaftElection.thy ===== *)
theory RaftElection
  imports RaftCluster
begin

text \<open>
  Elections in a cluster. The ghost state of the invariant is the history of votes, \<open>V v t\<close> the
  candidate that peer \<open>v\<close> voted for in term \<open>t\<close>, and of counting, \<open>K c t\<close> the peers whose vote
  candidate \<open>c\<close> has counted in term \<open>t\<close>. A vote travels as a request or as a granting reply, and
  for each candidate, voter and term there is at most one of these or a counted vote.
\<close>

section \<open>Ballots in the network\<close>

definition vote_term :: "('c, 's) packet \<Rightarrow> int option" where
  "vote_term p = (case payload p of
       VoteCall a \<Rightarrow> Some (RVTerm a)
     | VoteReturn a r \<Rightarrow> (if VoteGranted r then Some (RVTerm a) else None)
     | _ \<Rightarrow> None)"

definition ballots :: "nat \<Rightarrow> nat \<Rightarrow> int \<Rightarrow> ('c, 's) packet list \<Rightarrow> nat" where
  "ballots c v t ps = length (filter (\<lambda>p. caller p = c \<and> callee p = v \<and> vote_term p = Some t) ps)"

lemma ballots_append [simp]: "ballots c v t (ps @ qs) = ballots c v t ps + ballots c v t qs"
  by (simp add: ballots_def)

lemma ballots_one: "ballots c v t [p] = (if caller p = c \<and> callee p = v \<and> vote_term p = Some t then 1 else 0)"
  by (simp add: ballots_def)

lemma ballots_nil [simp]: "ballots c v t [] = 0"
  by (simp add: ballots_def)

lemma ballots_take_out:
  assumes "k < length ps"
  shows "ballots c v t ps = ballots c v t (take k ps @ drop (Suc k) ps) + ballots c v t [ps ! k]"
proof -
  have "ballots c v t ps = ballots c v t (take k ps @ [ps ! k] @ drop (Suc k) ps)"
    using id_take_nth_drop [OF assms] by simp
  then show ?thesis by (simp only: ballots_append add_ac)
qed

lemma ballots_requests:
  assumes "distinct vs"
  shows "ballots c v t (map (request s i (VoteCall a)) vs) = (if i = c \<and> v \<in> set vs \<and> RVTerm a = t then 1 else 0)"
  using assms by (induction vs) (auto simp: ballots_def request_def vote_term_def)

section \<open>The invariant\<close>

type_synonym ballot_history = "nat \<Rightarrow> int \<Rightarrow> int option"
type_synonym tally = "nat \<Rightarrow> int \<Rightarrow> nat set"

definition peer_ok :: "nat \<Rightarrow> nat \<Rightarrow> ('c, 's) Raft \<Rightarrow> bool" where
  "peer_ok n i rf \<longleftrightarrow> me rf = int i \<and> npeers rf = n \<and> durable rf"

text \<open>A peer's vote of its current term is its \<open>votedFor\<close>, and it has none in later terms; a
  candidate or leader has voted for itself.\<close>

definition voter_ok :: "ballot_history \<Rightarrow> nat \<Rightarrow> ('c, 's) Raft \<Rightarrow> bool" where
  "voter_ok V i rf \<longleftrightarrow>
     V i (currentTerm rf) = (if votedFor rf = -1 then None else Some (votedFor rf)) \<and>
     (\<forall>t > currentTerm rf. V i t = None) \<and> (state rf \<noteq> Follower \<longrightarrow> votedFor rf = int i)"

definition packet_ok :: "nat \<Rightarrow> ballot_history \<Rightarrow> ('c, 's) packet \<Rightarrow> bool" where
  "packet_ok n V p \<longleftrightarrow> caller p < n \<and> callee p < n \<and> caller p \<noteq> callee p \<and>
     (case payload p of
        VoteCall a \<Rightarrow> CandidateId a = int (caller p)
      | VoteReturn a r \<Rightarrow> VoteGranted r \<longrightarrow> V (callee p) (RVTerm a) = Some (int (caller p))
      | _ \<Rightarrow> True)"

definition tally_ok :: "tally \<Rightarrow> nat \<Rightarrow> nat \<Rightarrow> int \<Rightarrow> ('c, 's) packet list \<Rightarrow> bool" where
  "tally_ok K c pend T ps \<longleftrightarrow> pend \<le> 1 \<and>
     (\<forall>v t. ballots c v t ps + (if v \<in> K c t then 1 else 0) \<le> (if T < t \<or> t = T \<and> 0 < pend then 0 else 1))"

definition voters :: "nat \<Rightarrow> ballot_history \<Rightarrow> nat \<Rightarrow> int \<Rightarrow> nat set" where
  "voters n V c t = {v. v < n \<and> V v t = Some (int c)}"

definition candidate_ok :: "nat \<Rightarrow> ballot_history \<Rightarrow> tally \<Rightarrow> nat \<Rightarrow> nat \<Rightarrow> ('c, 's) Raft \<Rightarrow> bool" where
  "candidate_ok n V K c pend rf \<longleftrightarrow>
     (\<forall>t. K c t \<subseteq> voters n V c t - {c}) \<and>
     (state rf = Candidate \<and> pend = 0 \<longrightarrow> votesReceived rf \<le> 1 + int (card (K c (currentTerm rf)))) \<and>
     (state rf = Leader \<longrightarrow> majority {..<n} (voters n V c (currentTerm rf)))"

definition election_inv :: "nat \<Rightarrow> ballot_history \<Rightarrow> tally \<Rightarrow> ('c, 's) cluster \<Rightarrow> bool" where
  "election_inv n V K s \<longleftrightarrow>
     (\<forall>i < n. peer_ok n i (peer s i) \<and> voter_ok V i (peer s i) \<and>
        candidate_ok n V K i (pending s i) (peer s i) \<and>
        tally_ok K i (pending s i) (currentTerm (peer s i)) (net s)) \<and>
     (\<forall>p \<in> set (net s). packet_ok n V p)"

definition extends :: "ballot_history \<Rightarrow> ballot_history \<Rightarrow> bool" where
  "extends V V' \<longleftrightarrow> (\<forall>v t x. V v t = Some x \<longrightarrow> V' v t = Some x)"

lemma extends_refl [simp]: "extends V V"
  by (simp add: extends_def)

lemma extends_cast: "V i t = None \<or> V i t = Some x \<Longrightarrow> extends V (V(i := (V i)(t \<mapsto> x)))"
  by (auto simp: extends_def)

text \<open>The votes an event adds are of the current terms of their voters.\<close>

definition casts :: "ballot_history \<Rightarrow> ballot_history \<Rightarrow> ('c, 's) cluster \<Rightarrow> bool" where
  "casts V V' s' \<longleftrightarrow> (\<forall>v t. V' v t = V v t \<or> V v t = None \<and> t = currentTerm (peer s' v))"

lemma casts_refl [simp]: "casts V V s"
  by (simp add: casts_def)

lemma casts_extends: "casts V V' s \<Longrightarrow> extends V V'"
  unfolding casts_def extends_def by (metis option.distinct(1))

lemma voters_mono: "extends V V' \<Longrightarrow> voters n V c t \<subseteq> voters n V' c t"
  by (auto simp: extends_def voters_def)

lemma majority_mono: "majority U Q \<Longrightarrow> Q \<subseteq> R \<Longrightarrow> R \<subseteq> U \<Longrightarrow> majority U R"
  by (meson majority_def card_mono finite_subset less_le_trans)

lemma packet_ok_mono: "extends V V' \<Longrightarrow> packet_ok n V p \<Longrightarrow> packet_ok n V' p"
  by (auto simp: extends_def packet_ok_def split: payload.splits)

lemma candidate_ok_mono:
  assumes "extends V V'" and "candidate_ok n V K c pend rf"
  shows "candidate_ok n V' K c pend rf"
proof -
  have m: "voters n V c t \<subseteq> voters n V' c t" for t by (rule voters_mono [OF assms(1)])
  have "voters n V' c t \<subseteq> {..<n}" for t by (auto simp: voters_def)
  then show ?thesis using assms(2) m unfolding candidate_ok_def by (blast intro: majority_mono)
qed

lemma tally_bound:
  "tally_ok K c pend T ps \<Longrightarrow>
   ballots c v t ps + (if v \<in> K c t then 1 else 0) \<le> (if T < t \<or> t = T \<and> 0 < pend then 0 else 1)"
  by (simp add: tally_ok_def)

lemma tally_mono:
  assumes "tally_ok K c pend T ps" and "\<And>v t. ballots c v t ps' \<le> ballots c v t ps"
    and "T < T' \<or> T = T' \<and> pend' \<le> pend" and "pend' \<le> 1"
  shows "tally_ok K c pend' T' ps'"
  unfolding tally_ok_def
proof (intro conjI allI)
  fix v t
  have "ballots c v t ps' + (if v \<in> K c t then 1 else 0) \<le> (if T < t \<or> t = T \<and> 0 < pend then 0 else 1)"
    using assms(1,2) [unfolded tally_ok_def] by (meson add_le_mono1 le_trans)
  also have "\<dots> \<le> (if T' < t \<or> t = T' \<and> 0 < pend' then 0 else 1)" using assms(3) by auto
  finally show "ballots c v t ps' + (if v \<in> K c t then 1 else 0) \<le> (if T' < t \<or> t = T' \<and> 0 < pend' then 0 else 1)" .
qed (rule assms)

section \<open>One section\<close>

text \<open>A section of peer \<open>i\<close>, and the packets it takes and sends, keeps the invariant if it does so
  for \<open>i\<close> itself and sends no ballots on behalf of others.\<close>

lemma inv_change:
  assumes inv: "election_inv n V K s" and ext: "extends V V'"
    and V: "\<And>j. j \<noteq> i \<Longrightarrow> V' j = V j" and K: "\<And>c. c \<noteq> i \<Longrightarrow> K' c = K c"
    and peer: "peer s' = (peer s)(i := rf')" and pend: "\<And>j. j \<noteq> i \<Longrightarrow> pending s' j = pending s j"
    and bal: "\<And>c v t. c \<noteq> i \<Longrightarrow> ballots c v t (net s') \<le> ballots c v t (net s)"
    and pk: "\<And>p. p \<in> set (net s') \<Longrightarrow> packet_ok n V' p"
    and own: "i < n \<Longrightarrow> peer_ok n i rf' \<and> voter_ok V' i rf' \<and> candidate_ok n V' K' i (pending s' i) rf' \<and>
      tally_ok K' i (pending s' i) (currentTerm rf') (net s')"
  shows "election_inv n V' K' s'"
proof -
  have "peer_ok n j (peer s' j) \<and> voter_ok V' j (peer s' j) \<and> candidate_ok n V' K' j (pending s' j) (peer s' j) \<and>
      tally_ok K' j (pending s' j) (currentTerm (peer s' j)) (net s')" if j: "j < n" for j
  proof (cases "j = i")
    case True
    then show ?thesis using own j peer by simp
  next
    case False
    have old: "peer_ok n j (peer s j)" "voter_ok V j (peer s j)" "candidate_ok n V K j (pending s j) (peer s j)"
      "tally_ok K j (pending s j) (currentTerm (peer s j)) (net s)"
      using inv j by (auto simp: election_inv_def)
    have "candidate_ok n V' K' j (pending s j) (peer s j)"
      using candidate_ok_mono [OF ext old(3)] K [OF False] by (simp add: candidate_ok_def)
    moreover have "tally_ok K j (pending s j) (currentTerm (peer s j)) (net s')"
      by (rule tally_mono [OF old(4) bal]) (use False old(4) in \<open>auto simp: tally_ok_def\<close>)
    ultimately show ?thesis using False old V [OF False] K [OF False] pend [OF False] peer
      by (simp add: voter_ok_def tally_ok_def)
  qed
  then show ?thesis using pk unfolding election_inv_def by blast
qed

lemma inv_own:
  assumes "election_inv n V K s" and "i < n"
  shows "peer_ok n i (peer s i)" "voter_ok V i (peer s i)" "candidate_ok n V K i (pending s i) (peer s i)"
    "tally_ok K i (pending s i) (currentTerm (peer s i)) (net s)" "pending s i \<le> 1"
  using assms by (auto simp: election_inv_def tally_ok_def)

lemma voter_ok_settles: "voter_ok V i rf \<Longrightarrow> settles rf rf' \<Longrightarrow> voter_ok V i rf'"
  by (auto simp: voter_ok_def settles_def)

lemma candidate_ok_settles:
  "candidate_ok n V K i pend rf \<Longrightarrow> settles rf rf' \<Longrightarrow> pend' = pend \<or> state rf' = Follower \<Longrightarrow>
   candidate_ok n V K i pend' rf'"
  by (auto simp: candidate_ok_def settles_def)

text \<open>A section that neither votes nor counts.\<close>

lemma inv_settles:
  assumes inv: "election_inv n V K s" and i: "i < n" and st: "settles (peer s i) rf'" and d: "durable rf'"
    and bal: "\<And>c v t. ballots c v t (net s') \<le> ballots c v t (net s)"
    and pk: "\<And>p. p \<in> set (net s') \<Longrightarrow> packet_ok n V p"
    and peer: "peer s' = (peer s)(i := rf')"
    and pend: "pending s' = pending s \<or> state rf' = Follower \<and> pending s' = (pending s)(i := 0)"
  shows "election_inv n V K s'"
proof (rule inv_change [OF inv extends_refl _ _ peer _ bal pk])
  note own = inv_own [OF inv i]
  have T: "currentTerm (peer s i) \<le> currentTerm rf'" using st by (auto simp: settles_def)
  have "tally_ok K i (pending s' i) (currentTerm rf') (net s')"
    by (rule tally_mono [OF own(4)]) (use bal T own(5) pend in auto)
  moreover have "candidate_ok n V K i (pending s' i) rf'"
    by (rule candidate_ok_settles [OF own(3) st]) (use pend in auto)
  moreover have "peer_ok n i rf'" using own(1) st d by (auto simp: peer_ok_def settles_def)
  ultimately show "peer_ok n i rf' \<and> voter_ok V i rf' \<and> candidate_ok n V K i (pending s' i) rf' \<and>
      tally_ok K i (pending s' i) (currentTerm rf') (net s')"
    using voter_ok_settles [OF own(2) st] by blast
qed (use pend in auto)

text \<open>The election timer: a new term, in which the peer votes for itself.\<close>

lemma inv_timeout:
  assumes inv: "election_inv n V K s" and i: "i < n" and idle: "pending s i = 0"
    and rf': "currentTerm rf' = currentTerm (peer s i) + 1" "votedFor rf' = int i" "state rf' = Candidate"
      "me rf' = me (peer s i)" "npeers rf' = npeers (peer s i)" "durable rf'"
    and peer: "peer s' = (peer s)(i := rf')" and net: "net s' = net s"
    and pend: "pending s' = (pending s)(i := 1)"
  shows "election_inv n (V(i := (V i)(currentTerm rf' \<mapsto> int i))) K s'"
    (is "election_inv n ?V K s'")
proof -
  note own = inv_own [OF inv i]
  have none: "V i (currentTerm rf') = None" using own(2) rf'(1) by (simp add: voter_ok_def)
  then have ext: "extends V ?V" by (simp add: extends_cast)
  have tally: "tally_ok K i 1 (currentTerm rf') (net s)"
    by (rule tally_mono [OF own(4)]) (use rf'(1) in auto)
  show ?thesis
  proof (rule inv_change [OF inv ext _ _ peer])
    show "p \<in> set (net s') \<Longrightarrow> packet_ok n ?V p" for p
      using packet_ok_mono [OF ext] inv net by (auto simp: election_inv_def)
    have "candidate_ok n ?V K i 1 rf'" using candidate_ok_mono [OF ext own(3)] rf'(3) by (simp add: candidate_ok_def)
    moreover have "voter_ok ?V i rf'" using own(2) rf'(1-3) by (simp add: voter_ok_def)
    ultimately show "peer_ok n i rf' \<and> voter_ok ?V i rf' \<and> candidate_ok n ?V K i (pending s' i) rf' \<and>
        tally_ok K i (pending s' i) (currentTerm rf') (net s')"
      using tally own(1) rf'(4-6) net pend by (simp add: peer_ok_def)
  qed (use net pend in auto)
qed

text \<open>The start of an election: one request to every other peer, the first ones of this term.\<close>

lemma inv_run_election:
  assumes inv: "election_inv n V K s" and i: "i < n" and waits: "0 < pending s i"
    and e: "startElection (peer s i) = (rf', args)" and peer: "peer s' = (peer s)(i := rf')"
    and net: "net s' = net s @ map (request s i (VoteCall args)) (other_peers rf')"
    and pend: "pending s' = (pending s)(i := pending s i - 1)"
  shows "election_inv n V K s'"
proof -
  note own = inv_own [OF inv i]
  have fields: "currentTerm rf' = currentTerm (peer s i)" "votedFor rf' = votedFor (peer s i)"
    "state rf' = state (peer s i)" "me rf' = int i" "npeers rf' = n" "votesReceived rf' = 1"
    "RVTerm args = currentTerm (peer s i)" "CandidateId args = int i"
    using e own(1) by (auto simp: startElection_def peer_ok_def Let_def)
  have dist: "distinct (other_peers rf')" and others: "set (other_peers rf') = {..<n} - {i}"
    using fields by (auto simp: other_peers_def)
  have bal: "ballots c v t (net s') = ballots c v t (net s) +
      (if i = c \<and> v \<in> {..<n} - {i} \<and> currentTerm (peer s i) = t then 1 else 0)" for c v t
    using ballots_requests [OF dist, of c v t s i args] fields others net by auto
  have tally: "tally_ok K i 0 (currentTerm rf') (net s')"
    using own(4) waits fields unfolding tally_ok_def bal by (fastforce split: if_splits)
  show ?thesis
  proof (rule inv_change [OF inv extends_refl _ _ peer])
    show "p \<in> set (net s') \<Longrightarrow> packet_ok n V p" for p
      using inv net others fields i by (auto simp: election_inv_def request_def packet_ok_def)
    have "peer_ok n i rf'" using durable_startElection [of "peer s i"] e own(1) fields by (simp add: peer_ok_def)
    moreover have "candidate_ok n V K i 0 rf'" using own(3) fields by (simp add: candidate_ok_def)
    moreover have "voter_ok V i rf'" using own(2) fields by (simp add: voter_ok_def)
    ultimately show "peer_ok n i rf' \<and> voter_ok V i rf' \<and> candidate_ok n V K i (pending s' i) rf' \<and>
        tally_ok K i (pending s' i) (currentTerm rf') (net s')"
      using tally own(5) waits pend by simp
  qed (use bal pend in auto)
qed

text \<open>A vote request arrives. A grant is recorded as the voter's one vote of that term.\<close>

lemma RequestVote_cases:
  assumes "RequestVote tk args rf = (rf', reply)"
  obtains (refused) "\<not> VoteGranted reply" "settles rf rf'"
  | (granted) "VoteGranted reply" "currentTerm rf' = RVTerm args" "currentTerm rf \<le> RVTerm args"
    "votedFor rf' = CandidateId args" "me rf' = me rf" "npeers rf' = npeers rf"
    "state rf' = Follower \<or> state rf' = state rf"
    "currentTerm rf < RVTerm args \<longrightarrow> state rf' = Follower"
    "currentTerm rf = RVTerm args \<longrightarrow> votedFor rf = -1 \<or> votedFor rf = CandidateId args"
  using assms by (auto simp: RequestVote_def Let_def settles_def split: if_splits)

lemma inv_vote_request:
  assumes inv: "election_inv n V K s" and k: "k < length (net s)" and p: "p = net s ! k"
    and pl: "payload p = VoteCall args" and v: "v = callee p"
    and e: "RequestVote tk args (peer s v) = (rf', reply)" and peer: "peer s' = (peer s)(v := rf')"
    and net: "net s' = (take k (net s) @ drop (Suc k) (net s)) @ [p\<lparr>payload := VoteReturn args reply\<rparr>]"
    and pend: "pending s' = pending s"
  shows "\<exists>V'. casts V V' s' \<and> election_inv n V' K s'"
proof -
  let ?q = "p\<lparr>payload := VoteReturn args reply\<rparr>"
  have pok: "packet_ok n V p" and all: "\<And>p. p \<in> set (net s) \<Longrightarrow> packet_ok n V p"
    using inv k p by (auto simp: election_inv_def)
  then have c: "caller p < n" "v < n" "caller p \<noteq> v" "CandidateId args = int (caller p)"
    using v pl by (auto simp: packet_ok_def)
  note own = inv_own [OF inv c(2)]
  have bal: "ballots c v t (net s') \<le> ballots c v t (net s)" for c v t
    unfolding net using ballots_take_out [OF k, of c v t] p pl by (simp add: ballots_one vote_term_def)
  have d: "durable rf'" using durable_RequestVote [of "peer s v" tk args] own(1) e by (simp add: peer_ok_def)
  have sub: "set (net s') \<subseteq> insert ?q (set (net s))" unfolding net by (auto dest: in_set_takeD in_set_dropD)
  from e show ?thesis
  proof (cases rule: RequestVote_cases)
    case refused
    have "packet_ok n V x" if "x \<in> set (net s')" for x
      using that sub all refused(1) c v by (auto simp: packet_ok_def)
    then have "election_inv n V K s'" using inv_settles [OF inv c(2) refused(2) d bal _ peer] pend by blast
    then show ?thesis using casts_refl by blast
  next
    case granted
    let ?V = "V(v := (V v)(RVTerm args \<mapsto> int (caller p)))"
    have ext: "extends V ?V"
      by (rule extends_cast) (use own(2) granted c(4) in \<open>auto simp: voter_ok_def le_less split: if_splits\<close>)
    have fol: "state rf' = Follower"
      using granted(3,7-9) own(2) c(3,4) by (auto simp: voter_ok_def le_less)
    have "election_inv n ?V K s'"
    proof (rule inv_change [OF inv ext _ _ peer _ bal])
      show "packet_ok n ?V x" if "x \<in> set (net s')" for x
        using that sub packet_ok_mono [OF ext all] c v by (auto simp: packet_ok_def)
      have "voter_ok ?V v rf'" using own(2) granted c(4) fol by (auto simp: voter_ok_def)
      moreover have "candidate_ok n ?V K v (pending s' v) rf'"
        using candidate_ok_mono [OF ext own(3)] fol by (simp add: candidate_ok_def)
      moreover have "tally_ok K v (pending s' v) (currentTerm rf') (net s')"
        by (rule tally_mono [OF own(4) bal]) (use granted(2,3) pend own(5) in auto)
      ultimately show "peer_ok n v rf' \<and> voter_ok ?V v rf' \<and> candidate_ok n ?V K v (pending s' v) rf' \<and>
          tally_ok K v (pending s' v) (currentTerm rf') (net s')"
        using own(1) granted(5,6) d by (simp add: peer_ok_def)
    qed (use pend in auto)
    moreover have "casts V ?V s'"
      using own(2) granted c(4) peer by (auto simp: casts_def voter_ok_def le_less split: if_splits)
    ultimately show ?thesis by blast
  qed
qed

text \<open>A reply to a vote request arrives. Only a granting reply of the current term is counted.\<close>

lemma voteReply_cases:
  obtains (ignored) "settles rf (voteReply args reply rf)"
  | (counted) "state rf = Candidate" "currentTerm rf = RVTerm args" "VoteGranted reply"
    "currentTerm (voteReply args reply rf) = currentTerm rf" "votedFor (voteReply args reply rf) = votedFor rf"
    "me (voteReply args reply rf) = me rf" "npeers (voteReply args reply rf) = npeers rf"
    "votesReceived (voteReply args reply rf) = votesReceived rf + 1"
    "state (voteReply args reply rf) =
       (if votesReceived rf + 1 > int (npeers rf) div 2 then Leader else Candidate)"
  by (cases "state rf \<noteq> Candidate \<or> currentTerm rf \<noteq> RVTerm args \<or> RVRTerm reply > currentTerm rf \<or> \<not> VoteGranted reply")
     (auto simp: voteReply_def initializeLeaderState_def Let_def settles_newTerm)

lemma elected_majority:
  assumes "K \<subseteq> voters n V c t - {c}" and "c \<in> voters n V c t" and "int n div 2 < 1 + int (card K)"
  shows "majority {..<n} (voters n V c t)"
proof -
  have fin: "finite (voters n V c t)" "voters n V c t \<subseteq> {..<n}" by (auto simp: voters_def)
  have "finite K" by (rule finite_subset [OF _ fin(1)]) (use assms(1) in blast)
  then have "card K + 1 = card (insert c K)" using assms(1) by (subst card_insert_disjoint) auto
  also have "\<dots> \<le> card (voters n V c t)" using assms(1,2) fin by (intro card_mono) auto
  finally show ?thesis using assms(3) fin by (simp add: majority_def)
qed

lemma inv_vote_reply:
  assumes inv: "election_inv n V K s" and k: "k < length (net s)" and p: "p = net s ! k"
    and pl: "payload p = VoteReturn args reply" and c: "c = caller p"
    and peer: "peer s' = (peer s)(c := voteReply args reply (peer s c))"
    and net: "net s' = take k (net s) @ drop (Suc k) (net s)" and pend: "pending s' = pending s"
  shows "\<exists>K'. election_inv n V K' s'"
proof -
  let ?rf' = "voteReply args reply (peer s c)" and ?v = "callee p" and ?t = "RVTerm args"
  have all: "packet_ok n V x" if "x \<in> set (net s')" for x
    using that inv unfolding net election_inv_def by (auto dest: in_set_takeD in_set_dropD)
  have "packet_ok n V p" using inv k p by (auto simp: election_inv_def)
  then have pok: "c < n" "?v < n" "?v \<noteq> c" "VoteGranted reply \<Longrightarrow> V ?v ?t = Some (int c)"
    using c pl by (auto simp: packet_ok_def)
  note own = inv_own [OF inv pok(1)]
  have bal: "ballots x v t (net s) = ballots x v t (net s') + ballots x v t [p]" for x v t
    unfolding net using ballots_take_out [OF k] p by simp
  then have le: "ballots x v t (net s') \<le> ballots x v t (net s)" for x v t by simp
  have d: "durable ?rf'" using own(1) by (simp add: peer_ok_def durable_voteReply)
  show ?thesis
  proof (cases rule: voteReply_cases [of "peer s c" args reply])
    case ignored
    have "election_inv n V K s'" using inv_settles [OF inv pok(1) ignored d le all peer] pend by simp
    then show ?thesis by blast
  next
    case counted
    let ?K = "K(c := (K c)(?t := insert ?v (K c ?t)))"
    have one: "ballots c v t [p] = (if v = ?v \<and> t = ?t then 1 else 0)" for v t
      using pl counted(3) c by (auto simp: ballots_one vote_term_def)
    have idle: "pending s c = 0" and new: "?v \<notin> K c ?t"
      using tally_bound [OF own(4), of ?v ?t] bal [of c ?v ?t] one [of ?v ?t] counted(2)
      by (simp_all split: if_splits)
    have "ballots c v t (net s') + (if v \<in> ?K c t then 1 else 0) = ballots c v t (net s) + (if v \<in> K c t then 1 else 0)" for v t
      using bal [of c v t] one [of v t] new by auto
    then have tally: "tally_ok ?K c 0 (currentTerm ?rf') (net s')"
      using own(4) idle counted(4) unfolding tally_ok_def by simp
    have Ksub: "?K c t \<subseteq> voters n V c t - {c}" for t
      using own(3) pok counted(3) by (auto simp: candidate_ok_def voters_def)
    have "finite (K c ?t)"
      by (rule finite_subset [of _ "{..<n}"]) (use own(3) in \<open>auto simp: candidate_ok_def voters_def\<close>)
    then have card: "votesReceived ?rf' \<le> 1 + int (card (?K c ?t))"
      using own(3) counted(1,2,8) idle new by (simp add: candidate_ok_def)
    have self: "c \<in> voters n V c ?t" using own(2) counted(1,2) pok(1) by (auto simp: voter_ok_def voters_def)
    have cand: "candidate_ok n V ?K c 0 ?rf'"
      using Ksub card counted(2,4,8,9) elected_majority [OF Ksub self] own(1)
      by (auto simp: candidate_ok_def peer_ok_def split: if_splits)
    have "election_inv n V ?K s'"
    proof (rule inv_change [OF inv extends_refl _ _ peer _ le all])
      show "peer_ok n c ?rf' \<and> voter_ok V c ?rf' \<and> candidate_ok n V ?K c (pending s' c) ?rf' \<and>
          tally_ok ?K c (pending s' c) (currentTerm ?rf') (net s')"
        using tally cand idle pend own(1,2) counted d by (simp add: peer_ok_def voter_ok_def)
    qed (use pend in auto)
    then show ?thesis by blast
  qed
qed

section \<open>Every event\<close>

lemma cluster_upd_sel [simp]:
  "peer (put_peer i rf s) = (peer s)(i := rf)" "inst (put_peer i rf s) = inst s"
  "pending (put_peer i rf s) = pending s" "net (put_peer i rf s) = net s"
  "peer (transmit ps s) = peer s" "pending (transmit ps s) = pending s" "net (transmit ps s) = net s @ ps"
  "peer (take_out k s) = peer s" "inst (take_out k s) = inst s" "pending (take_out k s) = pending s"
  "net (take_out k s) = take k (net s) @ drop (Suc k) (net s)"
  by (simp_all add: put_peer_def transmit_def take_out_def)

text \<open>Taking a packet out, and replacing it by one that is no ballot.\<close>

lemma inv_packets:
  assumes "election_inv n V K s" and "k < length (net s)" and "p = net s ! k"
    and "vote_term (p\<lparr>payload := q\<rparr>) = None" and "\<And>a r. q = VoteReturn a r \<Longrightarrow> \<not> VoteGranted r"
  shows "ballots c v t ((take k (net s) @ drop (Suc k) (net s)) @ [p\<lparr>payload := q\<rparr>]) \<le> ballots c v t (net s)"
    and "x \<in> set ((take k (net s) @ drop (Suc k) (net s)) @ [p\<lparr>payload := q\<rparr>]) \<Longrightarrow> packet_ok n V x"
    and "ballots c v t (take k (net s) @ drop (Suc k) (net s)) \<le> ballots c v t (net s)"
    and "x \<in> set (take k (net s) @ drop (Suc k) (net s)) \<Longrightarrow> packet_ok n V x"
proof -
  have all: "packet_ok n V x" if "x \<in> set (net s)" for x using assms(1) that by (simp add: election_inv_def)
  then have "packet_ok n V p" using assms(2,3) by simp
  then have new: "packet_ok n V (p\<lparr>payload := q\<rparr>)"
    using assms(4,5) by (auto simp: packet_ok_def vote_term_def split: payload.splits)
  show le: "ballots c v t (take k (net s) @ drop (Suc k) (net s)) \<le> ballots c v t (net s)"
    using ballots_take_out [OF assms(2), of c v t] by simp
  show "ballots c v t ((take k (net s) @ drop (Suc k) (net s)) @ [p\<lparr>payload := q\<rparr>]) \<le> ballots c v t (net s)"
    using le assms(4) by (simp add: ballots_one)
  show rest: "packet_ok n V x" if "x \<in> set (take k (net s) @ drop (Suc k) (net s))"
    using that all by (auto dest: in_set_takeD in_set_dropD)
  show "packet_ok n V x" if "x \<in> set ((take k (net s) @ drop (Suc k) (net s)) @ [p\<lparr>payload := q\<rparr>])"
    using that rest new by auto
qed

lemma inv_durable: "election_inv n V K s \<Longrightarrow> i < n \<Longrightarrow> durable (peer s i)"
  by (simp add: election_inv_def peer_ok_def)

text \<open>A request handler that answers with no ballot, and a reply handler that counts none.\<close>

lemma inv_handled:
  assumes inv: "election_inv n V K s" and k: "k < length (net s)"
    and st: "settles (peer s (callee (net s ! k))) rf'" and d: "durable rf'"
    and q: "\<And>a. q \<noteq> VoteCall a" "\<And>a r. q \<noteq> VoteReturn a r"
  shows "election_inv n V K (transmit [(net s ! k)\<lparr>payload := q\<rparr>] (put_peer (callee (net s ! k)) rf' (take_out k s)))"
proof -
  have "packet_ok n V (net s ! k)" using inv k by (simp add: election_inv_def)
  then have lt: "callee (net s ! k) < n" by (simp add: packet_ok_def)
  have nb: "vote_term ((net s ! k)\<lparr>payload := q\<rparr>) = None"
    using q by (auto simp: vote_term_def split: payload.split)
  show ?thesis
    by (rule inv_settles [OF inv lt st d]) (use inv_packets(1,2) [OF inv k refl nb] q in simp_all)
qed

lemma put_peer_id: "put_peer i (peer s i) (take_out k s) = take_out k s"
  by (simp add: put_peer_def take_out_def)

lemma inv_to_caller:
  assumes inv: "election_inv n V K s" and k: "k < length (net s)"
    and e: "to_caller (net s ! k) f (take_out k s) = Some s'"
    and f: "\<And>rf'. f (peer s (caller (net s ! k))) = Inr rf' \<Longrightarrow> durable (peer s (caller (net s ! k))) \<Longrightarrow>
      settles (peer s (caller (net s ! k))) rf' \<and> durable rf'"
  shows "election_inv n V K s'"
proof -
  let ?c = "caller (net s ! k)"
  have "packet_ok n V (net s ! k)" using inv k by (simp add: election_inv_def)
  then have lt: "?c < n" by (simp add: packet_ok_def)
  have "vote_term ((net s ! k)\<lparr>payload := SnapReturn a t\<rparr>) = None" for a t by (simp add: vote_term_def)
  note gone = inv_packets(3,4) [OF inv k refl this]
  have quiet: "election_inv n V K s'" if "settles (peer s ?c) rf'" "durable rf'"
    "s' = put_peer ?c rf' (take_out k s)" for rf'
    using inv_settles [OF inv lt that(1,2), of s'] gone that(3) by simp
  show ?thesis
  proof (cases "caller_inst (net s ! k) = inst s ?c")
    case True
    then obtain rf' where "f (peer s ?c) = Inr rf'" "s' = put_peer ?c rf' (take_out k s)"
      using e by (auto simp: to_caller_def split: sum.splits)
    then show ?thesis using quiet f inv_durable [OF inv lt] by blast
  next
    case False
    then have "s' = put_peer ?c (peer s ?c) (take_out k s)" using e put_peer_id [of ?c s k] by (simp add: to_caller_def)
    then show ?thesis using quiet [of "peer s ?c"] inv_durable [OF inv lt] by simp
  qed
qed

lemma inv_arrive:
  assumes inv: "election_inv n V K s" and k: "k < length (net s)"
    and e: "arrive tk (net s ! k) (take_out k s) = Some s'"
  shows "\<exists>V' K'. casts V V' s' \<and> election_inv n V' K' s'"
proof -
  let ?p = "net s ! k"
  have "packet_ok n V ?p" using inv k by (simp add: election_inv_def)
  then have dur: "durable (peer s (callee ?p))" using inv_durable [OF inv] by (simp add: packet_ok_def)
  show ?thesis
  proof (cases "payload ?p")
    case (VoteCall args)
    obtain rf' reply where r: "RequestVote tk args (peer s (callee ?p)) = (rf', reply)" by (rule prod.exhaust)
    then have s': "s' = transmit [?p\<lparr>payload := VoteReturn args reply\<rparr>] (put_peer (callee ?p) rf' (take_out k s))"
      using e VoteCall by (simp add: arrive_def)
    have "\<exists>V'. casts V V' s' \<and> election_inv n V' K s'"
      by (rule inv_vote_request [OF inv k refl VoteCall refl r]) (simp_all add: s')
    then show ?thesis by blast
  next
    case (VoteReturn args reply)
    show ?thesis
    proof (cases "caller_inst ?p = inst s (caller ?p)")
      case True
      then have s': "s' = put_peer (caller ?p) (voteReply args reply (peer s (caller ?p))) (take_out k s)"
        using e VoteReturn by (simp add: arrive_def to_caller_def)
      have "\<exists>K'. election_inv n V K' s'"
        by (rule inv_vote_reply [OF inv k refl VoteReturn refl]) (simp_all add: s')
      then show ?thesis using casts_refl by blast
    next
      case False
      then have "to_caller ?p Inr (take_out k s) = Some s'" using e VoteReturn by (simp add: arrive_def to_caller_def)
      then have "election_inv n V K s'" by (rule inv_to_caller [OF inv k]) auto
      then show ?thesis using casts_refl by blast
    qed
  next
    case (AppendCall args)
    then obtain rf' reply where r: "AppendEntries tk args (peer s (callee ?p)) = Inr (rf', reply)"
      and s': "s' = transmit [?p\<lparr>payload := AppendReturn args reply\<rparr>] (put_peer (callee ?p) rf' (take_out k s))"
      using e by (auto simp: arrive_def split: sum.splits)
    have "election_inv n V K s'" unfolding s'
      by (rule inv_handled [OF inv k settles_AppendEntries [OF r] durable_AppendEntries [OF dur r]]) simp_all
    then show ?thesis using casts_refl by blast
  next
    case (SnapCall args)
    then obtain reply where s': "s' = transmit [?p\<lparr>payload := SnapReturn args reply\<rparr>]
        (put_peer (callee ?p) (fst (InstallSnapshot tk args (peer s (callee ?p)))) (take_out k s))"
      using e by (auto simp: arrive_def split: prod.splits)
    have "election_inv n V K s'" unfolding s'
      by (rule inv_handled [OF inv k settles_InstallSnapshot durable_InstallSnapshot [OF dur]]) simp_all
    then show ?thesis using casts_refl by blast
  next
    case (AppendReturn args reply)
    then have "to_caller ?p (handleAppendEntriesReply tk (callee ?p) args reply) (take_out k s) = Some s'"
      using e by (simp add: arrive_def)
    then have "election_inv n V K s'"
      by (rule inv_to_caller [OF inv k]) (blast intro: settles_handleAppendEntriesReply durable_handleAppendEntriesReply)
    then show ?thesis using casts_refl by blast
  next
    case (SnapReturn args reply)
    then have "to_caller ?p (snapshotReply tk (callee ?p) args reply) (take_out k s) = Some s'"
      using e by (simp add: arrive_def)
    then have "election_inv n V K s'"
      by (rule inv_to_caller [OF inv k]) (blast intro: settles_snapshotReply durable_snapshotReply)
    then show ?thesis using casts_refl by blast
  qed
qed

text \<open>A section of one peer that sends no ballots.\<close>

lemma inv_local:
  assumes "election_inv n V K s" and "i < n" and "settles (peer s i) rf'" and "durable rf'"
  shows "election_inv n V K (put_peer i rf' s)"
  by (rule inv_settles [OF assms]) (use assms(1) in \<open>auto simp: election_inv_def\<close>)

lemma inv_restart:
  assumes inv: "election_inv n V K s" and i: "i < n"
  shows "election_inv n V K ((put_peer i (Make n (int i) (Persister_Copy (persister (peer s i))) tk) s)
    \<lparr>inst := f, pending := (pending s)(i := 0)\<rparr>)"
proof -
  let ?rf' = "Make n (int i) (Persister_Copy (persister (peer s i))) tk"
  have "npeers (peer s i) = n" "me (peer s i) = int i" using inv_own(1) [OF inv i] by (simp_all add: peer_ok_def)
  then have r: "settles (peer s i) ?rf'" "durable ?rf'"
    using restart_fields [OF inv_durable [OF inv i], of tk] by simp_all
  have "state ?rf' = Follower"
    by (auto simp: Make_def readPersist_def resetElectionTimeout_def split: option.splits)
  then show ?thesis
    by (intro inv_settles [OF inv i r]) (use inv in \<open>auto simp: election_inv_def\<close>)
qed

lemma inv_check_timeout:
  assumes inv: "election_inv n V K s" and i: "i < n" and idle: "pending s i = 0"
    and e: "checkElectionTimeout tk (peer s i) = (rf', started)"
  and s': "s' = (put_peer i rf' s)\<lparr>pending := (pending s)(i := pending s i + (if started then 1 else 0))\<rparr>"
  shows "\<exists>V'. casts V V' s' \<and> election_inv n V' K s'"
proof (cases started)
  case True
  have d: "durable rf'" using durable_checkElectionTimeout [OF inv_durable [OF inv i], of tk] e by simp
  have me: "me (peer s i) = int i" using inv_own(1) [OF inv i] by (simp add: peer_ok_def)
  have new: "currentTerm rf' = currentTerm (peer s i) + 1" "votedFor rf' = int i" "state rf' = Candidate"
    "me rf' = me (peer s i)" "npeers rf' = npeers (peer s i)"
    using e True me by (auto simp: checkElectionTimeout_def split: if_splits)
  from inv_timeout [OF inv i idle new d, of "(put_peer i rf' s)\<lparr>pending := (pending s)(i := 1)\<rparr>"]
  have "election_inv n (V(i := (V i)(currentTerm rf' \<mapsto> int i))) K
      ((put_peer i rf' s)\<lparr>pending := (pending s)(i := 1)\<rparr>)" by simp
  moreover have "casts V (V(i := (V i)(currentTerm rf' \<mapsto> int i))) s'"
    using inv_own(2) [OF inv i] new s' by (simp add: casts_def voter_ok_def)
  ultimately show ?thesis using True idle s' by auto
next
  case False
  then have "rf' = peer s i" using e by (auto simp: checkElectionTimeout_def split: if_splits)
  then have "s' = s" using False s' by (simp add: put_peer_def)
  then show ?thesis using inv casts_refl by metis
qed

lemma inv_send:
  assumes "election_inv n V K s" and "i < n" and "j < n" and "j \<noteq> i"
  shows "election_inv n V K (transmit [request s i (call_of r) j] s)"
proof -
  have nb: "vote_term (request s i (call_of r) j) = None" and
    ok: "packet_ok n V (request s i (call_of r) j)"
    using assms(2-4) by (auto simp: vote_term_def packet_ok_def request_def call_of_def split: follower_rpc.splits)
  show ?thesis
    by (rule inv_settles [OF assms(1,2), of "peer s i"])
       (use nb ok assms inv_durable [OF assms(1,2)] in \<open>auto simp: ballots_one election_inv_def\<close>)
qed

lemma inv_lose:
  assumes "election_inv n V K s" and "k < length (net s)"
  shows "election_inv n V K (take_out k s)"
proof (rule inv_to_caller [OF assms])
  show "to_caller (net s ! k) Inr (take_out k s) = Some (take_out k s)"
    using put_peer_id [of _ s] by (simp add: to_caller_def)
qed auto

text \<open>Events that cast no vote and count none leave the ghost state alone.\<close>

lemma inv_quiet:
  assumes inv: "election_inv n V K s" and e: "happen n e s = Some s'"
    and quiet: "\<And>i tk. e \<noteq> Timeout i tk" "\<And>k tk. e \<noteq> Deliver k tk"
  shows "election_inv n V K s'"
proof (cases e)
  case (RunElection i)
  obtain rf' args where r: "startElection (peer s i) = (rf', args)" by (rule prod.exhaust)
  have i: "i < n" "0 < pending s i" using e RunElection by (auto simp: happen_def subject_def split: if_splits)
  show ?thesis
    by (rule inv_run_election [OF inv i r])
       (use e RunElection i r in \<open>auto simp: happen_def subject_def split: if_splits\<close>)
next
  case (SendTo i j)
  then show ?thesis using e inv inv_send [OF inv]
    by (auto simp: happen_def subject_def split: if_splits sum.splits option.splits)
next
  case (Lose k)
  then show ?thesis using e inv_lose [OF inv] by (auto simp: happen_def subject_def split: if_splits)
next
  case (Restart i tk)
  then have "i < n" and s': "s' = (put_peer i (Make n (int i) (Persister_Copy (persister (peer s i))) tk) s)
      \<lparr>inst := (inst s)(i := inst s i + 1), pending := (pending s)(i := 0)\<rparr>"
    using e by (auto simp: happen_def subject_def split: if_splits)
  then show ?thesis unfolding s' by (intro inv_restart [OF inv])
next
  case (ClientStart i c)
  then show ?thesis using e inv_local [OF inv _ settles_Start durable_Start] inv_durable [OF inv]
    by (auto simp: happen_def subject_def split: if_splits)
next
  case (ServiceSnapshot i index snap)
  then have i: "i < n" and s': "s' = put_peer i (Snapshot index snap (peer s i)) s"
    using e by (auto simp: happen_def subject_def split: if_splits)
  show ?thesis unfolding s'
    using inv_local [OF inv i settles_Snapshot durable_Snapshot [OF inv_durable [OF inv i]]] .
next
  case (ApplySnapshot i)
  then show ?thesis using e inv_local [OF inv _ settles_applier(2) durable_applier_snapshot] inv_durable [OF inv]
    by (fastforce simp: happen_def subject_def split: if_splits option.splits)
next
  case (ApplyCollect i)
  then show ?thesis using e inv_local [OF inv _ settles_applier(1) durable_collect] inv_durable [OF inv]
    by (auto simp: happen_def subject_def split: if_splits)
qed (use quiet in auto)

lemma inv_happen:
  assumes inv: "election_inv n V K s" and pr: "prompt e s" and e: "happen n e s = Some s'"
  shows "\<exists>V' K'. casts V V' s' \<and> election_inv n V' K' s'"
proof (cases "(\<exists>i tk. e = Timeout i tk) \<or> (\<exists>k tk. e = Deliver k tk)")
  case True
  then consider (t) i tk where "e = Timeout i tk" | (d) k tk where "e = Deliver k tk" by blast
  then show ?thesis
  proof cases
    case t
    obtain rf' started where "checkElectionTimeout tk (peer s i) = (rf', started)" by (rule prod.exhaust)
    moreover have "i < n" "pending s i = 0" using pr e t by (auto simp: happen_def subject_def split: if_splits)
    ultimately show ?thesis using inv_check_timeout [OF inv, of i tk rf' started s'] e t
      by (auto simp: happen_def subject_def split: if_splits)
  next
    case d
    then show ?thesis using e inv_arrive [OF inv] by (auto simp: happen_def subject_def split: if_splits)
  qed
next
  case False
  then have "election_inv n V K s'" using inv_quiet [OF inv e] by blast
  then show ?thesis using casts_refl by blast
qed

lemma inv_run:
  assumes "election_inv n V K s" and "prompt_events n es s" and "run_events n es s = Some s'"
  shows "\<exists>V' K'. extends V V' \<and> election_inv n V' K' s'"
  using assms
proof (induction es arbitrary: V K s)
  case Nil
  then have "extends V V \<and> election_inv n V K s'" by simp
  then show ?case by blast
next
  case (Cons e es)
  then obtain s1 where s1: "happen n e s = Some s1" "run_events n es s1 = Some s'" "prompt_events n es s1"
    by (auto simp: bind_eq_Some_conv)
  obtain V1 K1 where "casts V V1 s1" and i1: "election_inv n V1 K1 s1" using inv_happen Cons.prems s1(1) by fastforce
  then have "extends V V1" by (blast intro: casts_extends)
  moreover from Cons.IH [OF i1 s1(3,2)] obtain V2 K2 where "extends V1 V2" "election_inv n V2 K2 s'" by blast
  ultimately show ?case unfolding extends_def by blast
qed

lemma inv_init: "election_inv n (\<lambda>_ _. None) (\<lambda>_ _. {}) (cluster_init n tk)"
proof -
  have "durable (Make n (int i) MakePersister (tk i))" for i by (rule durable_Make)
  then show ?thesis
    by (auto simp: election_inv_def cluster_init_def peer_ok_def voter_ok_def candidate_ok_def tally_ok_def
        Make_def readPersist_def)
qed

lemma prompt_reachable_inv: "prompt_reachable n s \<Longrightarrow> \<exists>V K. election_inv n V K s"
  by (induction rule: prompt_reachable.induct) (blast intro: inv_init, metis inv_happen)

lemma one_leader_per_term:
  assumes "prompt_reachable n s" and "prompt_events n es s" and "run_events n es s = Some s'"
    and "i < n" and "j < n" and "state (peer s i) = Leader" and "state (peer s' j) = Leader"
    and "currentTerm (peer s i) = currentTerm (peer s' j)"
  shows "i = j"
proof -
  obtain V K where inv: "election_inv n V K s" using prompt_reachable_inv [OF assms(1)] by blast
  obtain V' K' where ext: "extends V V'" and inv': "election_inv n V' K' s'" using inv_run [OF inv assms(2,3)] by blast
  let ?t = "currentTerm (peer s i)"
  have "majority {..<n} (voters n V i ?t)" "majority {..<n} (voters n V' j ?t)"
    using inv_own(3) [OF inv assms(4)] inv_own(3) [OF inv' assms(5)] assms(6-8)
    by (simp_all add: candidate_ok_def)
  then have "int i = int j"
    by (rule maj.quorum_choice_unique [where ballot = "\<lambda>v. V' v ?t"])
       (use voters_mono [OF ext, of n i ?t] in \<open>auto simp: voters_def\<close>)
  then show ?thesis by simp
qed

section \<open>Properties of elections\<close>

text \<open>C1: Election safety. In every run of a cluster of any size, with messages delayed, reordered and
  lost and peers crashing and restarting from their storage at any moment, there is at most one
  leader of a term: a peer that is leader at some time and a peer that is leader of the same term
  then or at any later time are the same peer; provided no peer times out again before the
  \<open>startElection\<close> goroutine of its previous timeout has got the lock.\<close>

theorem election_safety:
  assumes "prompt_reachable n s" and "prompt_events n es s" and "run_events n es s = Some s'"
    and "i < n" and "j < n" and "state (peer s i) = Leader" and "state (peer s' j) = Leader"
    and "currentTerm (peer s i) = currentTerm (peer s' j)"
  shows "i = j"
  using assms by (rule one_leader_per_term)

definition demo_election :: "(nat, nat) event list" where
  "demo_election = [Timeout 0 (1000, 0), RunElection 0, Deliver 0 (1000, 0), Deliver 1 (1000, 0)]"

definition demo_start :: "nat \<Rightarrow> (nat, nat) cluster" where
  "demo_start n = cluster_init n (\<lambda>_. (0, 0))"

lemmas cluster_eval = cluster_init_def happen_def subject_def arrive_def to_caller_def transmit_def
  take_out_def put_peer_def request_def Make_def readPersist_def resetElectionTimeout_def
  checkElectionTimeout_def startElection_def other_peers_def RequestVote_def newTerm_def persist_def
  voteReply_def initializeLeaderState_def logIsAtLeastAsUpToDate_def getLastLogIndex_def
  getLastLogTerm_def

lemma demo_election_runs:
  "\<exists>s. run_events 3 demo_election (demo_start 3) = Some s \<and> prompt_events 3 demo_election (demo_start 3) \<and>
     state (peer s 0) = Leader \<and> currentTerm (peer s 0) = 1 \<and>
     state (peer s 1) = Follower \<and> state (peer s 2) = Follower"
  by (simp add: demo_election_def demo_start_def cluster_eval Let_def upt_conv_Cons)

theorem election_safety_witness:
  "\<exists>s s'. prompt_reachable 3 s \<and> run_events 3 demo_election (demo_start 3) = Some s \<and>
     state (peer s 0) = Leader \<and> currentTerm (peer s 0) = 1 \<and> happen 3 (Restart 0 (2000, 0)) s = Some s' \<and>
     \<not> (state (peer s' 1) = Leader \<and> currentTerm (peer s' 1) = 1)"
proof -
  obtain s where s: "run_events 3 demo_election (demo_start 3) = Some s" "prompt_events 3 demo_election (demo_start 3)"
    "state (peer s 0) = Leader" "currentTerm (peer s 0) = 1" using demo_election_runs by blast
  obtain s' where s': "happen 3 (Restart 0 (2000, 0)) s = Some s'" by (simp add: happen_def subject_def)
  have "prompt_reachable 3 (demo_start 3)" unfolding demo_start_def by (rule prompt_reachable.prompt_start)
  then have r: "prompt_reachable 3 s" using s(2,1) by (rule run_prompt_reachable)
  have "prompt_events 3 [Restart 0 (2000, 0)] s" "run_events 3 [Restart 0 (2000, 0)] s = Some s'"
    using s' by simp_all
  from election_safety [OF r this, of 0 1] s(3,4)
  have "\<not> (state (peer s' 1) = Leader \<and> currentTerm (peer s' 1) = 1)" by auto
  then show ?thesis using r s s' by blast
qed

definition demo_split :: "(nat, nat) event list" where
  "demo_split =
     [Timeout 0 (1000, 0), Timeout 0 (2000, 0), RunElection 0, RunElection 0,
      Deliver 0 (2000, 0), Deliver 3 (2000, 0), Deliver 6 (2000, 0), Deliver 6 (2000, 0),
      Timeout 2 (1000, 0), Timeout 2 (2000, 0), RunElection 2,
      Deliver 8 (2000, 0), Deliver 8 (2000, 0), Deliver 8 (2000, 0), Deliver 8 (2000, 0)]"

text \<open>C37: Without that proviso two peers can lead the same term. Peer 0 of five times out twice before its
  first \<open>startElection\<close> runs; both goroutines then ask for votes of the second term, and since
  granted replies are only counted, peer 1's two replies make a majority of three with peer 0's
  own vote. Peer 2 is elected in the same term by peers 3 and 4.\<close>

theorem double_counted_votes_elect_two:
  "\<exists>s. reachable 5 s \<and> run_events 5 demo_split (demo_start 5) = Some s \<and>
     state (peer s 0) = Leader \<and> state (peer s 2) = Leader \<and>
     currentTerm (peer s 0) = 2 \<and> currentTerm (peer s 2) = 2"
proof -
  have "\<exists>s. run_events 5 demo_split (demo_start 5) = Some s \<and>
     state (peer s 0) = Leader \<and> state (peer s 2) = Leader \<and>
     currentTerm (peer s 0) = 2 \<and> currentTerm (peer s 2) = 2"
    by (simp add: demo_split_def demo_start_def cluster_eval Let_def upt_conv_Cons)
  moreover have "reachable 5 (demo_start 5)" unfolding demo_start_def by (rule reachable.start)
  ultimately show ?thesis using run_reachable by blast
qed

section \<open>Terms and votes in every run\<close>

definition keeps_vote :: "('c, 's) Raft \<Rightarrow> ('c, 's) Raft \<Rightarrow> bool" where
  "keeps_vote rf rf' \<longleftrightarrow> me rf' = me rf \<and> npeers rf' = npeers rf \<and>
     (currentTerm rf < currentTerm rf' \<or>
      currentTerm rf' = currentTerm rf \<and> (votedFor rf = -1 \<or> votedFor rf' = votedFor rf))"

lemma keeps_vote_refl [simp]: "keeps_vote rf rf"
  by (simp add: keeps_vote_def)

lemma keeps_vote_settles: "settles rf rf' \<Longrightarrow> keeps_vote rf rf'"
  by (auto simp: settles_def keeps_vote_def)

lemma keeps_vote_sections:
  "keeps_vote rf (fst (RequestVote tk va rf))" "keeps_vote rf (voteReply va vr rf)"
  "keeps_vote rf (fst (checkElectionTimeout tk rf))" "keeps_vote rf (fst (startElection rf))"
  by (auto simp: keeps_vote_def RequestVote_def voteReply_def initializeLeaderState_def Let_def
      checkElectionTimeout_def startElection_def)

lemma peer_ok_keeps: "peer_ok n i rf \<Longrightarrow> keeps_vote rf rf' \<Longrightarrow> durable rf' \<Longrightarrow> peer_ok n i rf'"
  by (simp add: peer_ok_def keeps_vote_def)

text \<open>What an event does to a peer is one of its sections.\<close>

definition safe_section :: "('c, 's) Raft \<Rightarrow> ('c, 's) Raft \<Rightarrow> bool" where
  "safe_section rf rf' \<longleftrightarrow> (durable rf \<longrightarrow> keeps_vote rf rf' \<and> durable rf')"

lemma safe_refl [simp]: "safe_section rf rf"
  by (simp add: safe_section_def)

lemma safe_settles: "settles rf rf' \<Longrightarrow> (durable rf \<Longrightarrow> durable rf') \<Longrightarrow> safe_section rf rf'"
  by (simp add: safe_section_def keeps_vote_settles)

lemma safe_total_sections [simp]:
  "safe_section rf (fst (RequestVote tk va rf))" "safe_section rf (voteReply va vr rf)"
  "safe_section rf (fst (checkElectionTimeout tk rf))" "safe_section rf (fst (startElection rf))"
  "safe_section rf (fst (InstallSnapshot tk ia rf))" "safe_section rf (fst (Start c rf))"
  "safe_section rf (Snapshot index snap rf)" "safe_section rf (fst (applier_collect rf))"
  by (simp_all add: safe_section_def keeps_vote_sections durable_RequestVote durable_voteReply
      durable_checkElectionTimeout durable_startElection safe_settles keeps_vote_settles
      settles_InstallSnapshot durable_InstallSnapshot settles_Start durable_Start settles_Snapshot
      durable_Snapshot settles_applier(1) durable_collect)

lemma safe_partial_sections:
  "AppendEntries tk aa rf = Inr (rf', ar) \<Longrightarrow> safe_section rf rf'"
  "handleAppendEntriesReply tk server aa ar rf = Inr rf' \<Longrightarrow> safe_section rf rf'"
  "snapshotReply tk server ia t rf = Inr rf' \<Longrightarrow> safe_section rf rf'"
  "applier_snapshot rf = Some (rf', m) \<Longrightarrow> safe_section rf rf'"
  by (blast intro: safe_settles settles_AppendEntries durable_AppendEntries settles_handleAppendEntriesReply
      durable_handleAppendEntriesReply settles_snapshotReply durable_snapshotReply settles_applier(2)
      durable_applier_snapshot)+

lemma arrive_sections:
  assumes "arrive tk p s = Some s'"
  shows "safe_section (peer s i) (peer s' i)"
proof (cases "payload p")
  case (VoteCall args)
  obtain rf' reply where "RequestVote tk args (peer s (callee p)) = (rf', reply)" by (rule prod.exhaust)
  then show ?thesis using assms VoteCall safe_total_sections(1) [of "peer s (callee p)" tk args]
    by (auto simp: arrive_def)
next
  case (SnapCall args)
  obtain rf' reply where "InstallSnapshot tk args (peer s (callee p)) = (rf', reply)" by (rule prod.exhaust)
  then show ?thesis using assms SnapCall safe_total_sections(5) [of "peer s (callee p)" tk args]
    by (auto simp: arrive_def)
qed (use assms in \<open>auto simp: arrive_def to_caller_def split: if_splits sum.splits dest: safe_partial_sections\<close>)

lemma happen_sections:
  assumes "happen n e s = Some s'" and "\<And>i tk. e \<noteq> Restart i tk"
  shows "safe_section (peer s i) (peer s' i)"
proof (cases e)
  case (Timeout j tk)
  obtain rf' b where "checkElectionTimeout tk (peer s j) = (rf', b)" by (rule prod.exhaust)
  then show ?thesis using assms Timeout safe_total_sections(3) [of "peer s j" tk]
    by (auto simp: happen_def subject_def split: if_splits)
next
  case (RunElection j)
  obtain rf' b where "startElection (peer s j) = (rf', b)" by (rule prod.exhaust)
  then show ?thesis using assms RunElection safe_total_sections(4) [of "peer s j"]
    by (auto simp: happen_def subject_def split: if_splits)
next
  case (Deliver k tk)
  then have "arrive tk (net s ! k) (take_out k s) = Some s'"
    using assms by (auto simp: happen_def subject_def split: if_splits)
  from arrive_sections [OF this] show ?thesis by simp
qed (use assms in \<open>auto simp: happen_def subject_def split: if_splits sum.splits option.splits
       dest: safe_partial_sections\<close>)

lemma happen_keeps:
  assumes "\<And>j. j < n \<Longrightarrow> peer_ok n j (peer s j)" and "happen n e s = Some s'" and "i < n"
  shows "keeps_vote (peer s i) (peer s' i) \<and> peer_ok n i (peer s' i)"
proof (cases "\<exists>j tk. e = Restart j tk")
  case True
  then obtain j tk where e: "e = Restart j tk" by blast
  have "settles (peer s j) (Make n (int j) (Persister_Copy (persister (peer s j))) tk) \<and>
      durable (Make n (int j) (Persister_Copy (persister (peer s j))) tk)" if "j < n"
    using restart_fields [of "peer s j" tk] assms(1) [OF that] by (simp add: peer_ok_def)
  then have "keeps_vote (peer s j) (Make n (int j) (Persister_Copy (persister (peer s j))) tk) \<and>
      peer_ok n j (Make n (int j) (Persister_Copy (persister (peer s j))) tk)" if "j < n"
    using that assms(1) [OF that] peer_ok_keeps keeps_vote_settles by blast
  then show ?thesis using assms e by (auto simp: happen_def subject_def split: if_splits)
next
  case False
  then have "safe_section (peer s i) (peer s' i)" using happen_sections [OF assms(2)] by blast
  then show ?thesis using assms(1) [OF assms(3)] peer_ok_keeps by (auto simp: safe_section_def peer_ok_def keeps_vote_def)
qed

lemma reachable_peer_ok: "reachable n s \<Longrightarrow> i < n \<Longrightarrow> peer_ok n i (peer s i)"
proof (induction arbitrary: i rule: reachable.induct)
  case (start tk)
  then show ?case using durable_Make [of n "int i" "tk i"] inv_init [of n tk] inv_own(1) by blast
next
  case (step s e s')
  then show ?case using happen_keeps by blast
qed

text \<open>C12: No peer ever goes back on its term or its vote: in every run, crashes and restarts included,
  an event leaves a peer's term or raises it, and a peer that has voted in its term keeps that
  vote for as long as it stays in the term.\<close>

theorem term_and_vote_are_kept:
  assumes "reachable n s" and "happen n e s = Some s'" and "i < n"
  shows "currentTerm (peer s i) \<le> currentTerm (peer s' i) \<and>
    (currentTerm (peer s' i) = currentTerm (peer s i) \<and> votedFor (peer s i) \<noteq> -1 \<longrightarrow>
       votedFor (peer s' i) = votedFor (peer s i))"
  using happen_keeps [OF reachable_peer_ok [OF assms(1)] assms(2,3)] by (auto simp: keeps_vote_def)

theorem term_and_vote_are_kept_witness:
  "\<exists>(s :: (nat, nat) cluster) s'. reachable 3 s \<and> votedFor (peer s 0) = 0 \<and> happen 3 (Restart 0 (5, 5)) s = Some s' \<and>
     currentTerm (peer s' 0) = 1 \<and> votedFor (peer s' 0) = 0"
proof -
  have "\<exists>s s'. run_events 3 [Timeout 0 (1000, 0)] (demo_start 3) = Some s \<and> currentTerm (peer s 0) = 1 \<and>
      votedFor (peer s 0) = 0 \<and> happen 3 (Restart 0 (5, 5)) s = Some s' \<and> currentTerm (peer s' 0) = 1"
    by (simp add: demo_start_def cluster_eval Suc_le_eq)
  then obtain s s' where s: "run_events 3 [Timeout 0 (1000, 0)] (demo_start 3) = Some s" "currentTerm (peer s 0) = 1"
    "votedFor (peer s 0) = 0" "happen 3 (Restart 0 (5, 5)) s = Some s'" "currentTerm (peer s' 0) = 1" by blast
  have "reachable 3 (demo_start 3)" unfolding demo_start_def by (rule reachable.start)
  then have r: "reachable 3 s" using s(1) by (rule run_reachable)
  from term_and_vote_are_kept [OF r s(4), of 0] s(2,3,5) have "votedFor (peer s' 0) = 0" by simp
  with r s(3-5) show ?thesis by blast
qed

text \<open>C17: Whenever a peer crashes, it comes back with what it must not forget. At any moment of any run, elections,
  replication, snapshots and earlier crashes included, a peer that is made anew from a copy of its storage has the
  term, the vote, the log, the snapshot and the snapshot's index and term it had in memory when it crashed. It is a
  follower, has committed and applied what the snapshot covers, and the other peers are as before.\<close>

theorem restart_recovers:
  assumes "reachable n s" and "happen n (Restart i tk) s = Some s'"
  shows "let rf = peer s i; rf' = peer s' i in
     currentTerm rf' = currentTerm rf \<and> votedFor rf' = votedFor rf \<and> log rf' = log rf \<and>
     lastIncludedIndex rf' = lastIncludedIndex rf \<and> lastIncludedTerm rf' = lastIncludedTerm rf \<and> state rf' = Follower \<and>
     commitIndex rf' = max 0 (lastIncludedIndex rf) \<and> lastApplied rf' = max 0 (lastIncludedIndex rf) \<and>
     ReadSnapshot (persister rf') = ReadSnapshot (persister rf) \<and> (\<forall>j. j \<noteq> i \<longrightarrow> peer s' j = peer s j)"
proof -
  have i: "i < n" and p: "peer s' = (peer s)(i := Make n (int i) (Persister_Copy (persister (peer s i))) tk)"
    using assms(2) by (auto simp: happen_def subject_def split: if_splits)
  have "durable (peer s i)" using reachable_peer_ok [OF assms(1) i] by (simp add: peer_ok_def)
  from made_from_storage [OF this, of n "int i" tk] show ?thesis unfolding Let_def p by simp
qed

theorem restart_recovers_witness:
  "\<exists>(s :: (nat, nat) cluster) s'. reachable 3 s \<and> happen 3 (Restart 0 (2000, 0)) s = Some s' \<and> state (peer s 0) = Leader \<and>
     state (peer s' 0) = Follower \<and> currentTerm (peer s' 0) = 1 \<and> votedFor (peer s' 0) = votedFor (peer s 0)"
proof -
  obtain s where s: "run_events 3 demo_election (demo_start 3) = Some s" "state (peer s 0) = Leader" "currentTerm (peer s 0) = 1"
    using demo_election_runs by blast
  obtain s' where s': "happen 3 (Restart 0 (2000, 0)) s = Some s'" by (simp add: happen_def subject_def)
  have "reachable 3 (demo_start 3)" unfolding demo_start_def by (rule reachable.start)
  then have r: "reachable 3 s" using s(1) by (rule run_reachable)
  from restart_recovers [OF r s'] show ?thesis using r s s' unfolding Let_def by (intro exI [of _ s] exI [of _ s']) simp
qed

text \<open>A cluster of one peer never has a leader: votes are only compared with the majority when a
  reply arrives, and there is nobody to reply.\<close>

theorem single_peer_never_leads:
  assumes "reachable 1 s"
  shows "state (peer s 0) \<noteq> Leader"
proof -
  have "state (peer s 0) \<noteq> Leader \<and> net s = []" using assms
  proof (induction rule: reachable.induct)
    case (start tk)
    show ?case by (simp add: cluster_init_def Make_def readPersist_def)
  next
    case (step s e s')
    have ok: "peer_ok 1 0 (peer s 0)" using reachable_peer_ok [OF step(1)] by simp
    have no: "other_peers (fst (startElection (peer s 0))) = []"
      using ok by (simp add: other_peers_def startElection_def Let_def peer_ok_def)
    show ?case
    proof (cases e)
      case (RunElection i)
      then show ?thesis using step no
        by (auto simp: happen_def subject_def startElection_def Let_def split: if_splits)
    next
      case (Timeout i tk)
      then show ?thesis using step
        by (auto simp: happen_def subject_def checkElectionTimeout_def split: if_splits)
    next
      case (Restart i tk)
      then show ?thesis using step
        by (auto simp: happen_def subject_def Make_def readPersist_def resetElectionTimeout_def
            split: if_splits option.splits)
    qed (use step in \<open>auto simp: happen_def subject_def Start_def Snapshot_def persist_with_def Let_def
         applier_snapshot_def applier_collect_def split: if_splits option.splits sum.splits\<close>)
  qed
  then show ?thesis by simp
qed

theorem single_peer_never_leads_witness:
  "\<exists>s :: (nat, nat) cluster. reachable 1 s \<and> state (peer s 0) = Candidate \<and> votesReceived (peer s 0) = 1 \<and> state (peer s 0) \<noteq> Leader"
proof -
  have "\<exists>s. run_events 1 [Timeout 0 (1000, 0), RunElection 0] (demo_start 1) = Some s \<and>
      state (peer s 0) = Candidate \<and> votesReceived (peer s 0) = 1"
    by (simp add: demo_start_def cluster_eval Let_def)
  then obtain s where s: "run_events 1 [Timeout 0 (1000, 0), RunElection 0] (demo_start 1) = Some s"
    "state (peer s 0) = Candidate" "votesReceived (peer s 0) = 1" by blast
  have "reachable 1 (demo_start 1)" unfolding demo_start_def by (rule reachable.start)
  then have r: "reachable 1 s" using s(1) by (rule run_reachable)
  from single_peer_never_leads [OF r] r s show ?thesis by blast
qed

end
