(* ===== verification/RaftMatching.thy ===== *)
theory RaftMatching
  imports RaftElection
begin

text \<open>
  Log matching in a cluster that takes no snapshots. The ghost state is, for each term, the log of
  its leader as far as it has grown, \<open>L t\<close>, and who that leader is, \<open>Lead t\<close>. Every log of the
  cluster is, up to each of its entries, a prefix of the leader's log of that entry's term; so two
  logs with an entry of the same term at the same index agree up to it.
\<close>

section \<open>Logs that match\<close>

type_synonym 'c leader_logs = "int \<Rightarrow> 'c LogEntry list"

definition matching :: "'c leader_logs \<Rightarrow> 'c LogEntry list \<Rightarrow> bool" where
  "matching L lg \<longleftrightarrow> (\<forall>i < length lg. i < length (L (Term (lg ! i))) \<and>
     take (Suc i) lg = take (Suc i) (L (Term (lg ! i))))"

lemma matching_take: "matching L lg \<Longrightarrow> matching L (take m lg)"
  by (auto simp: matching_def min_def)

lemma matching_agree:
  assumes "matching L a" and "matching L b" and "i < length a" and "i < length b" and "Term (a ! i) = Term (b ! i)"
  shows "take (Suc i) a = take (Suc i) b"
  using assms unfolding matching_def by metis

text \<open>A leader's log grows at its end; a new leader's log is the first of its term.\<close>

definition grows :: "'c leader_logs \<Rightarrow> 'c leader_logs \<Rightarrow> bool" where
  "grows L L' \<longleftrightarrow> (\<forall>t. \<exists>e. L' t = L t @ e)"

lemma matching_grow:
  assumes "matching L lg" and "grows L L'"
  shows "matching L' lg"
  unfolding matching_def
proof (intro allI impI)
  fix i assume i: "i < length lg"
  let ?t = "Term (lg ! i)"
  have old: "i < length (L ?t)" "take (Suc i) lg = take (Suc i) (L ?t)" using assms(1) i by (auto simp: matching_def)
  moreover obtain e where "L' ?t = L ?t @ e" using assms(2) by (auto simp: grows_def)
  ultimately show "i < length (L' ?t) \<and> take (Suc i) lg = take (Suc i) (L' ?t)" by simp
qed

lemma matching_snoc:
  assumes m: "matching L lg" and t: "L (Term e) = lg @ [e]"
  shows "matching L (lg @ [e])"
  unfolding matching_def
proof (intro allI impI)
  fix i assume i: "i < length (lg @ [e])"
  show "i < length (L (Term ((lg @ [e]) ! i))) \<and> take (Suc i) (lg @ [e]) = take (Suc i) (L (Term ((lg @ [e]) ! i)))"
  proof (cases "i < length lg")
    case True
    then have "i < length (L (Term (lg ! i))) \<and> take (Suc i) lg = take (Suc i) (L (Term (lg ! i)))"
      using m by (simp add: matching_def)
    then show ?thesis using True by (simp add: nth_append)
  next
    case False
    then have "i = length lg" using i by simp
    then show ?thesis using t by simp
  qed
qed

lemma take_merge:
  assumes "k \<le> n"
  shows "take (p + k) M @ drop k (take n (drop p M)) = take (p + n) M"
proof -
  have "take (p + n) M = take ((p + k) + (n - k)) M" using assms by simp
  also have "\<dots> = take (p + k) M @ take (n - k) (drop (p + k) M)" by (rule take_add)
  finally show ?thesis by (simp add: drop_take add.commute)
qed

text \<open>Merging a segment of the leader's log into a log that agrees with it before the segment.\<close>

lemma merge_matching:
  assumes m: "matching L (log rf)" "matching L M" and lii: "lastIncludedIndex rf = 0"
    and p: "p \<le> length (log rf)" "take p (log rf) = take p M"
    and es: "es = take (length es) (drop p M)" "p + length es \<le> length M"
  shows "(merged rf (int p) es = log rf \<or> merged rf (int p) es = take (p + length es) M) \<and>
    p + length es \<le> length (merged rf (int p) es) \<and>
    take (p + length es) (merged rf (int p) es) = take (p + length es) M"
proof -
  let ?k = "agreeing rf (int p) es"
  have prefix: "take (p + ?k) (log rf) = take (p + ?k) M \<and> p + ?k \<le> length (log rf)"
  proof (cases ?k)
    case 0
    then show ?thesis using p by simp
  next
    case (Suc k)
    then have t: "int p + int k \<le> getLastLogIndex rf" "getLogTerm rf (int p + int k) = Term (es ! k)"
      using agreeing_terms [of k rf "int p" es] by auto
    have kes: "k < length es" using Suc agreeing_le [of rf "int p" es] by simp
    have len: "p + k < length (log rf)" using t(1) lii by (simp add: getLastLogIndex_def)
    have "es ! k = M ! (p + k)" using es kes by (metis nth_drop nth_take add_leD1)
    then have "Term (log rf ! (p + k)) = Term (M ! (p + k))"
      using t(2) lii len by (simp add: getLogTerm_def toArrayIndex_def Let_def nat_add_distrib)
    then have "take (Suc (p + k)) (log rf) = take (Suc (p + k)) M"
      using matching_agree [OF m] len kes es(2) by simp
    then show ?thesis using Suc len by simp
  qed
  show ?thesis
  proof (cases "?k = length es")
    case True
    then show ?thesis using prefix by (simp add: merged_def)
  next
    case False
    have "merged rf (int p) es = take (p + ?k) M @ drop ?k (take (length es) (drop p M))"
      using False prefix lii es(1) by (simp add: merged_def)
    then show ?thesis using take_merge [OF agreeing_le [of rf "int p" es], of p M] es(2) by simp
  qed
qed

text \<open>Where the log already agrees with the leader's beyond the segment, nothing is cut.\<close>

lemma agreeing_all:
  assumes "\<And>k. k < length es \<Longrightarrow> i + int k \<le> getLastLogIndex rf \<and> getLogTerm rf (i + int k) = Term (es ! k)"
  shows "agreeing rf i es = length es"
  using assms
proof (induction rf i es rule: agreeing.induct)
  case (2 rf i e es)
  have "agreeing rf (i + 1) es = length es" if "i \<le> getLastLogIndex rf \<and> getLogTerm rf i = Term e"
    using "2.IH" that "2.prems" [of "Suc k" for k] by (simp add: algebra_simps)
  then show ?case using "2.prems" [of 0] by simp
qed simp

lemma merge_keeps:
  assumes m: "matching L (log rf)" "matching L M" and lii: "lastIncludedIndex rf = 0"
    and p: "p \<le> length (log rf)" "take p (log rf) = take p M"
    and es: "es = take (length es) (drop p M)" "p + length es \<le> length M"
    and k: "k \<le> length (log rf)" "k \<le> length M" "take k (log rf) = take k M"
  shows "k \<le> length (merged rf (int p) es) \<and> take k (merged rf (int p) es) = take k M"
proof (cases "k \<le> p + length es")
  case True
  note mm = merge_matching [OF m lii p es]
  have "take k (take (p + length es) (merged rf (int p) es)) = take k (take (p + length es) M)" using mm by presburger
  then have "take k (merged rf (int p) es) = take k M" using True by (simp only: take_take min_def if_True)
  then show ?thesis using True mm by simp
next
  case False
  have "agreeing rf (int p) es = length es"
  proof (rule agreeing_all)
    fix j assume j: "j < length es"
    have "log rf ! (p + j) = M ! (p + j)" using k j False by (metis nth_take less_trans nat_add_left_cancel_less not_le)
    moreover have "es ! j = M ! (p + j)" using es j by (metis nth_drop nth_take add_leD1)
    ultimately show "int p + int j \<le> getLastLogIndex rf \<and> getLogTerm rf (int p + int j) = Term (es ! j)"
      using lii j k False by (simp add: getLogTerm_def toArrayIndex_def getLastLogIndex_def Let_def nat_add_distrib)
  qed
  then show ?thesis using k by (simp add: merged_def)
qed

section \<open>Logs, requests and leaders\<close>

definition dummy_entry :: "'c LogEntry" where
  "dummy_entry = \<lparr>Command = None, Term = 0\<rparr>"

definition log_ok :: "'c leader_logs \<Rightarrow> 'c LogEntry list \<Rightarrow> bool" where
  "log_ok L lg \<longleftrightarrow> matching L lg \<and> lg \<noteq> [] \<and> hd lg = dummy_entry"

text \<open>An append in flight carries a segment of the log of its term's leader and the term of the entry
  before the segment; or it starts beyond that log and carries nothing.\<close>

definition segment_ok :: "'c LogEntry list \<Rightarrow> 'c AppendEntriesArgs \<Rightarrow> bool" where
  "segment_ok M a \<longleftrightarrow>
     (let p = nat (PrevLogIndex a) + 1; es = Entries a in
      p + length es \<le> length M \<and> es = take (length es) (drop p M) \<and>
      (0 < PrevLogIndex a \<longrightarrow> PrevLogTerm a = Term (M ! nat (PrevLogIndex a))))"

definition append_ok :: "'c leader_logs \<Rightarrow> 'c AppendEntriesArgs \<Rightarrow> bool" where
  "append_ok L a \<longleftrightarrow> 0 \<le> PrevLogIndex a \<and>
     (segment_ok (L (AETerm a)) a \<or> 0 < PrevLogIndex a \<and> PrevLogTerm a = -1 \<and> Entries a = [])"

definition logs_ok :: "'c leader_logs \<Rightarrow> (int \<Rightarrow> nat option) \<Rightarrow> bool" where
  "logs_ok L Lead \<longleftrightarrow> L 0 = [dummy_entry] \<and> (\<forall>t. L t = [] \<or> log_ok L (L t)) \<and>
     (\<forall>t. t \<noteq> 0 \<and> Lead t = None \<longrightarrow> L t = []) \<and> (\<forall>t < 0. L t = []) \<and>
     (\<forall>t. \<forall>e \<in> set (L t). Term e \<le> t)"

lemma segment_grow: "segment_ok M a \<Longrightarrow> segment_ok (M @ e) a"
  by (auto simp: segment_ok_def Let_def nth_append)

lemma append_ok_grow:
  assumes "append_ok L a" and "grows L L'"
  shows "append_ok L' a"
proof -
  obtain e where "L' (AETerm a) = L (AETerm a) @ e" using assms(2) unfolding grows_def by blast
  then show ?thesis using assms(1) segment_grow by (auto simp: append_ok_def)
qed

lemma log_ok_grow: "log_ok L lg \<Longrightarrow> grows L L' \<Longrightarrow> log_ok L' lg"
  by (auto simp: log_ok_def intro: matching_grow)

lemma log_ok_take: "log_ok L lg \<Longrightarrow> 0 < m \<Longrightarrow> log_ok L (take m lg)"
  by (simp add: log_ok_def matching_take hd_take)

lemma leader_log_ok: "logs_ok L Lead \<Longrightarrow> m \<le> length (L t) \<Longrightarrow> 0 < m \<Longrightarrow> log_ok L (L t)"
  unfolding logs_ok_def by (metis le_zero_eq list.size(3) neq0_conv)

lemma log_ok_terms:
  assumes "logs_ok L Lead" and "log_ok L lg" and "i < length lg"
  shows "0 \<le> Term (lg ! i)"
proof -
  have "L (Term (lg ! i)) \<noteq> []" using assms(2,3) by (auto simp: log_ok_def matching_def)
  then show ?thesis using assms(1) unfolding logs_ok_def by (metis not_le)
qed

text \<open>What accepting an append does to the log of a follower, and what success means.\<close>

lemma accepted_prefix:
  assumes logs: "logs_ok L Lead" and lg: "log_ok L (log rf)" and lii: "lastIncludedIndex rf = 0"
    and a: "append_ok L a" and mm: "log_mismatch a rf = None" and p: "p = nat (PrevLogIndex a) + 1"
  shows "segment_ok (L (AETerm a)) a" "p \<le> length (log rf)" "take p (log rf) = take p (L (AETerm a))"
proof -
  let ?M = "L (AETerm a)"
  have pos: "0 \<le> PrevLogIndex a" using a by (simp add: append_ok_def)
  have inlog: "nat (PrevLogIndex a) < length (log rf)"
    and trm: "0 < PrevLogIndex a \<Longrightarrow> Term (log rf ! nat (PrevLogIndex a)) = PrevLogTerm a"
  proof -
    show inlog: "nat (PrevLogIndex a) < length (log rf)"
    proof (cases "0 < PrevLogIndex a")
      case True
      then show ?thesis using no_mismatch [OF mm] lii by (simp add: getLastLogIndex_def)
    next
      case False
      then show ?thesis using lg by (auto simp: log_ok_def)
    qed
    show "Term (log rf ! nat (PrevLogIndex a)) = PrevLogTerm a" if "0 < PrevLogIndex a"
      using no_mismatch(3) [OF mm that] lii inlog that by (auto simp: getLogTerm_def toArrayIndex_def Let_def split: if_splits)
  qed
  show seg: "segment_ok ?M a"
    using a trm log_ok_terms [OF logs lg inlog] by (auto simp: append_ok_def)
  then have len: "p + length (Entries a) \<le> length ?M" using p by (simp add: segment_ok_def Let_def)
  then have M: "log_ok L ?M" using leader_log_ok [OF logs] p by simp
  show "p \<le> length (log rf)" using inlog p by simp
  have "Term (log rf ! nat (PrevLogIndex a)) = Term (?M ! nat (PrevLogIndex a))"
  proof (cases "0 < PrevLogIndex a")
    case True
    then show ?thesis using seg trm by (simp add: segment_ok_def Let_def)
  next
    case False
    then show ?thesis using lg M by (auto simp: log_ok_def hd_conv_nth [symmetric])
  qed
  then show "take p (log rf) = take p ?M"
    using matching_agree [of L "log rf" ?M "nat (PrevLogIndex a)"] lg M inlog len p by (simp add: log_ok_def)
qed

lemma append_accepted:
  assumes logs: "logs_ok L Lead" and lg: "log_ok L (log rf)" and lii: "lastIncludedIndex rf = 0"
    and a: "append_ok L a" and e: "AppendEntries tk a rf = Inr (rf', reply)"
  obtains (refused) "\<not> Success reply" "log rf' = log rf" "lastIncludedIndex rf' = 0" "rf' = rf \<or> state rf' = Follower"
      "commitIndex rf' = commitIndex rf"
  | (accepted) p where "Success reply" "log rf' = merged rf (int p) (Entries a)" "p = nat (PrevLogIndex a) + 1"
      "lastIncludedIndex rf' = 0" "state rf' = Follower" "currentTerm rf' = AETerm a"
      "commitIndex rf' = commitIndex rf \<or> commitIndex rf' \<le> LeaderCommit a"
      "p \<le> length (log rf)" "take p (log rf) = take p (L (AETerm a))"
      "Entries a = take (length (Entries a)) (drop p (L (AETerm a)))"
      "p + length (Entries a) \<le> length (L (AETerm a))" "log_ok L (L (AETerm a))"
proof (cases "AETerm a < currentTerm rf \<or> log_mismatch a rf \<noteq> None")
  case True
  then show ?thesis using e lii refused
    by (auto simp: AppendEntries_eq Let_def log_mismatch_adopt split: if_splits)
next
  case False
  let ?M = "L (AETerm a)" and ?q = "nat (PrevLogIndex a) + 1" and ?rf2 = "adopt tk (AETerm a) rf"
  have mm: "log_mismatch a rf = None" and new: "\<not> AETerm a < currentTerm rf" using False by blast+
  note acc = accepted_prefix [OF logs lg lii a mm refl]
  have es: "Entries a = take (length (Entries a)) (drop ?q ?M)" "?q + length (Entries a) \<le> length ?M"
    using acc(1) by (auto simp: segment_ok_def Let_def)
  have M: "log_ok L ?M" using leader_log_ok [OF logs es(2)] by simp
  have idx: "PrevLogIndex a + 1 = int ?q" using a by (simp add: append_ok_def)
  have lt: "PrevLogIndex a + 1 \<le> getLastLogIndex rf + 1" using acc(2) lii idx by (simp add: getLastLogIndex_def)
  have adv: "commitIndex (advance_commit c r) = commitIndex r \<or> commitIndex (advance_commit c r) \<le> c"
    for c and r :: "('a, 'b) Raft" by (simp add: advance_commit_def)
  have "log rf' = merged rf (int ?q) (Entries a) \<and> lastIncludedIndex rf' = 0 \<and> state rf' = Follower \<and> Success reply \<and>
      currentTerm rf' = AETerm a \<and> (commitIndex rf' = commitIndex rf \<or> commitIndex rf' \<le> LeaderCommit a)"
  proof (cases "Entries a = []")
    case True
    then show ?thesis using e mm new lii adv [of "LeaderCommit a" ?rf2]
      by (auto simp: AppendEntries_eq Let_def log_mismatch_adopt)
  next
    case ne: False
    then obtain q where q: "merge_entries ?rf2 (PrevLogIndex a + 1) (Entries a) = Inr q"
      "rf' = advance_commit (LeaderCommit a) (append_new q ?rf2)" "Success reply"
      using e mm new by (auto simp: AppendEntries_eq Let_def log_mismatch_adopt go_map_eq_Inr)
    have "log (append_new q ?rf2) = merged ?rf2 (PrevLogIndex a + 1) (Entries a)"
      by (rule append_new_log [OF q(1)]) (use lii lt lg a in \<open>auto simp: log_ok_def append_ok_def\<close>)
    then show ?thesis using q lii idx new adv [of "LeaderCommit a" "append_new q ?rf2"] by simp
  qed
  then show ?thesis using accepted acc(2,3) es M by blast
qed

lemma append_effect:
  assumes logs: "logs_ok L Lead" and lg: "log_ok L (log rf)" and lii: "lastIncludedIndex rf = 0"
    and a: "append_ok L a" and e: "AppendEntries tk a rf = Inr (rf', reply)"
    and p: "p = nat (PrevLogIndex a) + 1 + length (Entries a)"
  shows "lastIncludedIndex rf' = 0" "log_ok L (log rf')" "rf' = rf \<or> state rf' = Follower"
    "log rf' = log rf \<or> (\<exists>m. log rf' = take m (L (AETerm a))) \<and> currentTerm rf' = AETerm a"
    "Success reply \<Longrightarrow> p \<le> length (log rf') \<and> take p (log rf') = take p (L (AETerm a)) \<and> p \<le> length (L (AETerm a))"
    "k \<le> length (log rf) \<Longrightarrow> k \<le> length (L (AETerm a)) \<Longrightarrow> take k (log rf) = take k (L (AETerm a)) \<Longrightarrow>
       k \<le> length (log rf') \<and> take k (log rf') = take k (L (AETerm a))"
proof -
  let ?M = "L (AETerm a)"
  have "lastIncludedIndex rf' = 0 \<and> log_ok L (log rf') \<and> (rf' = rf \<or> state rf' = Follower) \<and>
    (log rf' = log rf \<or> (\<exists>m. log rf' = take m ?M) \<and> currentTerm rf' = AETerm a) \<and>
    (Success reply \<longrightarrow> p \<le> length (log rf') \<and> take p (log rf') = take p ?M \<and> p \<le> length ?M) \<and>
    (k \<le> length (log rf) \<and> k \<le> length ?M \<and> take k (log rf) = take k ?M \<longrightarrow>
       k \<le> length (log rf') \<and> take k (log rf') = take k ?M)"
    using logs lg lii a e
  proof (cases rule: append_accepted)
    case refused
    then show ?thesis using lg by simp
  next
    case (accepted q)
    have m: "matching L (log rf)" "matching L ?M" using lg accepted(12) by (simp_all add: log_ok_def)
    have "(log rf' = log rf \<or> log rf' = take p ?M) \<and> p \<le> length (log rf') \<and> take p (log rf') = take p ?M"
      using merge_matching [OF m lii accepted(8-11)] accepted(2,3) p by simp
    then show ?thesis
      using accepted lg log_ok_take [OF accepted(12), of p] p merge_keeps [OF m lii accepted(8-11), of k] by auto
  qed
  then show "lastIncludedIndex rf' = 0" "log_ok L (log rf')" "rf' = rf \<or> state rf' = Follower"
    "log rf' = log rf \<or> (\<exists>m. log rf' = take m ?M) \<and> currentTerm rf' = AETerm a"
    "Success reply \<Longrightarrow> p \<le> length (log rf') \<and> take p (log rf') = take p ?M \<and> p \<le> length ?M"
    "k \<le> length (log rf) \<Longrightarrow> k \<le> length ?M \<Longrightarrow> take k (log rf) = take k ?M \<Longrightarrow>
       k \<le> length (log rf') \<and> take k (log rf') = take k ?M" by blast+
qed

text \<open>What a leader sends.\<close>

lemma send_effect:
  assumes "sendToFollower j rf = Inr (Some r)" and "lastIncludedIndex rf = 0" and "log rf \<noteq> []" and "M = log rf"
  shows "case r of
      SendAppend a \<Rightarrow> AETerm a = currentTerm rf \<and> 0 \<le> PrevLogIndex a \<and>
        (segment_ok M a \<or> 0 < PrevLogIndex a \<and> PrevLogTerm a = -1 \<and> Entries a = [])
    | SendSnapshot a \<Rightarrow> ISLastIncludedIndex a = 0"
proof -
  obtain ni where ni: "go_index (nextIndex rf) (int j) = Inr ni"
    using assms(1) by (auto simp: sendToFollower_def go_bind_eq_Inr split: if_splits)
  show ?thesis
  proof (cases "ni \<le> 0")
    case True
    then show ?thesis using assms ni by (auto simp: sendToFollower_def split: if_splits)
  next
    case False
    then obtain p where p: "ni = 1 + int p" by (metis int_one_le_iff_zero_less not_le zle_iff_zadd)
    have "r = SendAppend \<lparr>AETerm = currentTerm rf, LeaderId = me rf, PrevLogIndex = int p,
        PrevLogTerm = (if 0 < p then getLogTerm rf (int p) else 0), Entries = drop (Suc p) (log rf),
        LeaderCommit = commitIndex rf\<rparr>"
      using assms(1,2) ni p unfolding sendToFollower_def
      by (auto simp: Let_def toArrayIndex_def nat_add_distrib go_slice_from_def split: if_splits)
    moreover have "getLogTerm rf (int p) = (if p < length (log rf) then Term (log rf ! p) else -1)"
      using assms(2) by (simp add: getLogTerm_def toArrayIndex_def Let_def)
    ultimately show ?thesis using assms(3,4) by (auto simp: segment_ok_def Let_def Suc_le_eq)
  qed
qed

section \<open>The invariant\<close>

definition peer_match :: "'c leader_logs \<Rightarrow> (int \<Rightarrow> nat option) \<Rightarrow> nat \<Rightarrow> ('c, 's) Raft \<Rightarrow> bool" where
  "peer_match L Lead i rf \<longleftrightarrow> lastIncludedIndex rf = 0 \<and> log_ok L (log rf) \<and>
     (\<forall>e \<in> set (log rf). Term e \<le> currentTerm rf) \<and>
     0 \<le> currentTerm rf \<and> (state rf \<noteq> Follower \<longrightarrow> 0 < currentTerm rf) \<and>
     (state rf = Leader \<longrightarrow> Lead (currentTerm rf) = Some i \<and> L (currentTerm rf) = log rf)"

definition packet_match :: "'c leader_logs \<Rightarrow> ('c, 's) packet \<Rightarrow> bool" where
  "packet_match L p \<longleftrightarrow> (case payload p of AppendCall a \<Rightarrow> append_ok L a
     | SnapCall a \<Rightarrow> ISLastIncludedIndex a = 0 | SnapReturn a t \<Rightarrow> ISLastIncludedIndex a = 0 | _ \<Rightarrow> True)"

lemma packet_match_grow: "packet_match L p \<Longrightarrow> grows L L' \<Longrightarrow> packet_match L' p"
  by (auto simp: packet_match_def append_ok_grow split: payload.splits)

text \<open>A leader of a term was elected by a majority, and is not a candidate of that term again.\<close>

definition lead_ok :: "nat \<Rightarrow> ballot_history \<Rightarrow> (int \<Rightarrow> nat option) \<Rightarrow> ('c, 's) cluster \<Rightarrow> bool" where
  "lead_ok n V Lead s \<longleftrightarrow> (\<forall>t c. Lead t = Some c \<longrightarrow>
     c < n \<and> 0 < t \<and> majority {..<n} (voters n V c t) \<and>
     (t < currentTerm (peer s c) \<or> t = currentTerm (peer s c) \<and> state (peer s c) \<noteq> Candidate))"

definition match_inv ::
  "nat \<Rightarrow> ballot_history \<Rightarrow> 'c leader_logs \<Rightarrow> (int \<Rightarrow> nat option) \<Rightarrow> ('c, 's) cluster \<Rightarrow> bool" where
  "match_inv n V L Lead s \<longleftrightarrow> logs_ok L Lead \<and> lead_ok n V Lead s \<and>
     (\<forall>i < n. peer_match L Lead i (peer s i)) \<and> (\<forall>p \<in> set (net s). packet_match L p)"

lemma match_own:
  assumes "match_inv n V L Lead s"
  shows "logs_ok L Lead" "lead_ok n V Lead s" "i < n \<Longrightarrow> peer_match L Lead i (peer s i)"
    "p \<in> set (net s) \<Longrightarrow> packet_match L p"
  using assms by (simp_all add: match_inv_def)

text \<open>A section that does not make a leader and does not grow a leader's log.\<close>

definition follows :: "('c, 's) Raft \<Rightarrow> ('c, 's) Raft \<Rightarrow> bool" where
  "follows rf rf' \<longleftrightarrow> lastIncludedIndex rf' = lastIncludedIndex rf \<and>
     (state rf' = Leader \<longrightarrow> log rf' = log rf) \<and>
     (currentTerm rf' = currentTerm rf \<and> (state rf' = Follower \<or> state rf' = state rf) \<or>
      currentTerm rf < currentTerm rf' \<and> state rf' \<noteq> Leader)"

lemma follows_settles:
  "settles rf rf' \<Longrightarrow> lastIncludedIndex rf' = lastIncludedIndex rf \<Longrightarrow>
   log rf' = log rf \<or> state rf' = Follower \<Longrightarrow> follows rf rf'"
  by (auto simp: settles_def follows_def)

lemma lead_ok_follows:
  assumes "lead_ok n V Lead s" and "extends V V'" and "peer s' = (peer s)(i := rf')" and "follows (peer s i) rf'"
  shows "lead_ok n V' Lead s'"
  unfolding lead_ok_def
proof (intro allI impI)
  fix t c assume "Lead t = Some c"
  then have old: "c < n" "0 < t" "majority {..<n} (voters n V c t)"
    "t < currentTerm (peer s c) \<or> t = currentTerm (peer s c) \<and> state (peer s c) \<noteq> Candidate"
    using assms(1) unfolding lead_ok_def by blast+
  have "majority {..<n} (voters n V' c t)"
    by (rule majority_mono [OF old(3) voters_mono [OF assms(2)]]) (auto simp: voters_def)
  moreover have "t < currentTerm (peer s' c) \<or> t = currentTerm (peer s' c) \<and> state (peer s' c) \<noteq> Candidate"
    using old(4) assms(3,4) by (cases "c = i") (auto simp: follows_def)
  ultimately show "c < n \<and> 0 < t \<and> majority {..<n} (voters n V' c t) \<and>
      (t < currentTerm (peer s' c) \<or> t = currentTerm (peer s' c) \<and> state (peer s' c) \<noteq> Candidate)"
    using old by blast
qed

lemma peer_match_follows:
  assumes "peer_match L Lead i rf" and "follows rf rf'" and "log_ok L (log rf')"
    and "\<forall>e \<in> set (log rf'). Term e \<le> currentTerm rf'"
  shows "peer_match L Lead i rf'"
  using assms by (auto simp: peer_match_def follows_def)

lemma match_keep:
  assumes inv: "match_inv n V L Lead s" and "extends V V'" and peer: "peer s' = (peer s)(i := rf')"
    and "follows (peer s i) rf'" and "i < n \<Longrightarrow> log_ok L (log rf') \<and> (\<forall>e \<in> set (log rf'). Term e \<le> currentTerm rf')"
    and "\<And>p. p \<in> set (net s') \<Longrightarrow> packet_match L p"
  shows "match_inv n V' L Lead s'"
proof -
  have "peer_match L Lead j (peer s' j)" if "j < n" for j
    using match_own(3) [OF inv that] peer_match_follows [of L Lead i "peer s i" rf'] assms(4,5) that peer by auto
  then show ?thesis using assms match_own(1,2) [OF inv] lead_ok_follows unfolding match_inv_def by blast
qed

text \<open>A section that leaves the log alone.\<close>

lemma follows_terms:
  "follows rf rf' \<Longrightarrow> log rf' = log rf \<Longrightarrow> peer_match L Lead i rf \<Longrightarrow>
   log_ok L (log rf') \<and> (\<forall>e \<in> set (log rf'). Term e \<le> currentTerm rf')"
  by (force simp: follows_def peer_match_def)

lemma match_calm:
  assumes "match_inv n V L Lead s" and "extends V V'" and "peer s' = (peer s)(i := rf')"
    and "follows (peer s i) rf'" and "log rf' = log (peer s i)" and "\<And>p. p \<in> set (net s') \<Longrightarrow> packet_match L p"
  shows "match_inv n V' L Lead s'"
  using assms match_own(3) [OF assms(1)] by (intro match_keep [OF assms(1-4) _ assms(6)] follows_terms) auto

text \<open>A section after which peer \<open>i\<close> leads its term with the log \<open>M\<close>: it has just been elected, or
  has appended to its log.\<close>

lemma match_lead:
  assumes inv: "match_inv n V L Lead s" and ext: "extends V V'" and i: "i < n"
    and peer: "peer s' = (peer s)(i := rf')" and net: "set (net s') \<subseteq> set (net s)"
    and rf': "state rf' = Leader" "lastIncludedIndex rf' = 0" "currentTerm rf' = t" "0 < t"
      "log rf' = L t @ e" "hd (log rf') = dummy_entry" "log rf' \<noteq> []" "\<forall>x \<in> set (log rf'). Term x \<le> t"
    and t: "currentTerm (peer s i) = t" "Lead t = None \<or> Lead t = Some i"
    and maj: "majority {..<n} (voters n V' i t)"
    and m: "matching (L(t := log rf')) (log rf')"
  shows "match_inv n V' (L(t := log rf')) (Lead(t \<mapsto> i)) s' \<and> grows L (L(t := log rf'))"
proof -
  let ?L = "L(t := log rf')" and ?Lead = "Lead(t \<mapsto> i)"
  have g: "grows L ?L" using rf'(5) by (simp add: grows_def)
  have ok: "log_ok ?L (log rf')" using m rf' by (simp add: log_ok_def)
  note logs = match_own(1) [OF inv]
  have logs': "logs_ok ?L ?Lead"
    using logs ok rf'(4,8) log_ok_grow [OF _ g] unfolding logs_ok_def by auto
  have peers: "peer_match ?L ?Lead j (peer s' j)" if j: "j < n" for j
  proof (cases "j = i")
    case True
    then show ?thesis using ok rf' peer by (simp add: peer_match_def)
  next
    case False
    then have "state (peer s j) = Leader \<Longrightarrow> currentTerm (peer s j) \<noteq> t"
      using match_own(3) [OF inv j] t(2) by (auto simp: peer_match_def)
    then show ?thesis using False match_own(3) [OF inv j] peer log_ok_grow [OF _ g] by (auto simp: peer_match_def)
  qed
  have lead: "lead_ok n V' ?Lead s'" unfolding lead_ok_def
  proof (intro allI impI)
    fix u c assume uc: "?Lead u = Some c"
    show "c < n \<and> 0 < u \<and> majority {..<n} (voters n V' c u) \<and>
      (u < currentTerm (peer s' c) \<or> u = currentTerm (peer s' c) \<and> state (peer s' c) \<noteq> Candidate)"
    proof (cases "u = t")
      case True
      then show ?thesis using uc i rf' maj peer by simp
    next
      case False
      then have "Lead u = Some c" using uc by simp
      then have old: "c < n" "0 < u" "majority {..<n} (voters n V c u)"
        "u < currentTerm (peer s c) \<or> u = currentTerm (peer s c) \<and> state (peer s c) \<noteq> Candidate"
        using match_own(2) [OF inv] unfolding lead_ok_def by blast+
      have "majority {..<n} (voters n V' c u)"
        by (rule majority_mono [OF old(3) voters_mono [OF ext]]) (auto simp: voters_def)
      then show ?thesis using old t(1) rf' peer by (cases "c = i") auto
    qed
  qed
  have "packet_match ?L p" if "p \<in> set (net s')" for p
    using match_own(4) [OF inv] net that packet_match_grow [OF _ g] by blast
  then show ?thesis using logs' lead peers g by (auto simp: match_inv_def)
qed

lemma leader_unique:
  assumes "lead_ok n V Lead s" and "extends V V'" and "majority {..<n} (voters n V' i t)" and "Lead t = Some c"
  shows "c = i"
proof -
  have "majority {..<n} (voters n V c t)" using assms(1,4) by (auto simp: lead_ok_def)
  then have "voters n V c t \<inter> voters n V' i t \<noteq> {}"
    using voters_mono [OF assms(2), of n c t] majority_meet [OF _ assms(3)] by blast
  then show ?thesis using voters_mono [OF assms(2), of n c t] by (auto simp: voters_def)
qed

lemma match_elected:
  assumes inv: "match_inv n V L Lead s" and ext: "extends V V'" and inv': "election_inv n V' K' s'" and i: "i < n"
    and peer: "peer s' = (peer s)(i := rf')" and net: "set (net s') \<subseteq> set (net s)"
    and rf': "state (peer s i) = Candidate" "state rf' = Leader" "log rf' = log (peer s i)"
      "lastIncludedIndex rf' = lastIncludedIndex (peer s i)" "currentTerm rf' = currentTerm (peer s i)"
  shows "Lead (currentTerm rf') = None \<and> L (currentTerm rf') = [] \<and>
    match_inv n V' (L(currentTerm rf' := log rf')) (Lead(currentTerm rf' \<mapsto> i)) s' \<and>
    grows L (L(currentTerm rf' := log rf'))"
proof -
  let ?t = "currentTerm rf'"
  have maj: "majority {..<n} (voters n V' i ?t)"
    using inv_own(3) [OF inv' i] peer rf'(2) by (simp add: candidate_ok_def)
  have none: "Lead ?t = None"
  proof (rule ccontr)
    assume "Lead ?t \<noteq> None"
    then obtain c where c: "Lead ?t = Some c" by blast
    then have "c = i" by (rule leader_unique [OF match_own(2) [OF inv] ext maj])
    then show False using match_own(2) [OF inv] c rf' unfolding lead_ok_def by auto
  qed
  have pm: "peer_match L Lead i (peer s i)" by (rule match_own(3) [OF inv i])
  then have t: "0 < ?t" using rf' by (simp add: peer_match_def)
  then have empty: "L ?t = []" using match_own(1) [OF inv] none by (simp add: logs_ok_def)
  have "matching (L(?t := log rf')) (log rf')"
    by (rule matching_grow [of L]) (use pm rf' empty in \<open>auto simp: peer_match_def log_ok_def grows_def\<close>)
  then have "match_inv n V' (L(?t := log rf')) (Lead(?t \<mapsto> i)) s' \<and> grows L (L(?t := log rf'))"
    by (intro match_lead [OF inv ext i peer net rf'(2) _ refl t, of "log rf'"])
       (use pm empty none maj rf' in \<open>simp_all add: peer_match_def log_ok_def\<close>)
  then show ?thesis using none empty by blast
qed

lemma match_started:
  assumes inv: "match_inv n V L Lead s" and i: "i < n" and ld: "state (peer s i) = Leader"
    and t: "t = currentTerm (peer s i)" and rf': "rf' = fst (Start c (peer s i))"
  shows "L t = log (peer s i) \<and> log rf' = L t @ [\<lparr>Command = c, Term = t\<rparr>] \<and> Lead t = Some i \<and>
    match_inv n V (L(t := log rf')) (Lead(t \<mapsto> i)) (put_peer i rf' s) \<and> grows L (L(t := log rf'))"
proof -
  have pm: "peer_match L Lead i (peer s i)" by (rule match_own(3) [OF inv i])
  then have L: "L t = log (peer s i)" and lead: "Lead t = Some i" and pos: "0 < t"
    using ld t by (auto simp: peer_match_def)
  have f: "state rf' = Leader" "lastIncludedIndex rf' = lastIncludedIndex (peer s i)" "currentTerm rf' = t"
    "log rf' = log (peer s i) @ [\<lparr>Command = c, Term = t\<rparr>]"
    using ld rf' t by (simp_all add: Start_def Let_def)
  have "matching (L(t := log rf')) (log (peer s i))"
    by (rule matching_grow [of L]) (use pm f(4) L in \<open>auto simp: peer_match_def log_ok_def grows_def\<close>)
  then have "matching (L(t := log rf')) (log rf')" using matching_snoc f(4) by (metis LogEntry.select_convs(2) fun_upd_same)
  moreover have "majority {..<n} (voters n V i t)" using match_own(2) [OF inv] lead by (auto simp: lead_ok_def)
  ultimately have "match_inv n V (L(t := log rf')) (Lead(t \<mapsto> i)) (put_peer i rf' s) \<and> grows L (L(t := log rf'))"
    by (intro match_lead [OF inv extends_refl i _ _ f(1) _ f(3) pos, of _ "[\<lparr>Command = c, Term = t\<rparr>]"])
       (use f pm L lead t in \<open>auto simp: peer_match_def log_ok_def\<close>)
  then show ?thesis using f(4) L lead by simp
qed

lemma restart_log:
  assumes "durable rf" and rf': "rf' = Make (npeers rf) (me rf) (Persister_Copy (persister rf)) tk"
  shows "log rf' = log rf \<and> lastIncludedIndex rf' = lastIncludedIndex rf \<and> state rf' = Follower \<and>
    commitIndex rf' = max 0 (lastIncludedIndex rf)"
proof -
  have "encode_state rf' = encode_state (Make (npeers rf) (me rf) (persister rf) (0, 0))" unfolding rf'
    by (auto simp: Make_def readPersist_def encode_state_def resetElectionTimeout_def split: option.splits)
  moreover have "state rf' = Follower \<and> commitIndex rf' = max 0 (lastIncludedIndex rf')" unfolding rf'
    by (auto simp: Make_def readPersist_def resetElectionTimeout_def split: option.splits)
  ultimately show ?thesis using assms(1) unfolding durable_def by (simp add: encode_state_def)
qed

end
