(* ===== verification/RaftChosen.thy ===== *)
theory RaftChosen
  imports RaftMatching
begin

text \<open>
  Leader completeness and state-machine safety in a cluster that takes no snapshots. To the leaders'
  logs \<open>L\<close> the ghost state adds \<open>A v t\<close>, the length of the prefix of \<open>L t\<close> that peer \<open>v\<close> has
  acknowledged in term \<open>t\<close> (a leader acknowledges its own log), and \<open>W v t\<close>, the log of \<open>v\<close> when it
  voted in term \<open>t\<close>. A prefix of \<open>L t\<close> that ends with an entry of term \<open>t\<close> is chosen once a
  majority has acknowledged it, and choosable as long as a majority has acknowledged it or can
  still do so. Every leader of a later term starts from a log with all choosable prefixes.
\<close>

section \<open>Chosen prefixes\<close>

type_synonym acks = "nat \<Rightarrow> int \<Rightarrow> nat"
type_synonym 'c vote_logs = "nat \<Rightarrow> int \<Rightarrow> 'c LogEntry list"

definition own_term :: "'c leader_logs \<Rightarrow> int \<Rightarrow> nat \<Rightarrow> bool" where
  "own_term L t m \<longleftrightarrow> 0 < m \<and> m \<le> length (L t) \<and> Term (L t ! (m - 1)) = t"

definition chosen :: "nat \<Rightarrow> 'c leader_logs \<Rightarrow> acks \<Rightarrow> int \<Rightarrow> nat \<Rightarrow> bool" where
  "chosen n L A t m \<longleftrightarrow> own_term L t m \<and> (\<exists>Q. majority {..<n} Q \<and> (\<forall>v \<in> Q. m \<le> A v t))"

definition choosable :: "nat \<Rightarrow> 'c leader_logs \<Rightarrow> acks \<Rightarrow> ('c, 's) cluster \<Rightarrow> int \<Rightarrow> nat \<Rightarrow> bool" where
  "choosable n L A s t m \<longleftrightarrow> own_term L t m \<and>
     (\<exists>Q. majority {..<n} Q \<and> (\<forall>v \<in> Q. m \<le> A v t \<or> currentTerm (peer s v) \<le> t))"

definition has_prefix :: "'c LogEntry list \<Rightarrow> 'c LogEntry list \<Rightarrow> nat \<Rightarrow> bool" where
  "has_prefix lg M m \<longleftrightarrow> m \<le> length lg \<and> m \<le> length M \<and> take m lg = take m M"

lemma chosen_choosable: "chosen n L A t m \<Longrightarrow> choosable n L A s t m"
  by (auto simp: chosen_def choosable_def)

lemma has_prefix_grow: "has_prefix lg M m \<Longrightarrow> has_prefix (lg @ a) (M @ b) m"
  by (simp add: has_prefix_def)

lemma has_prefix_trans: "has_prefix a b m \<Longrightarrow> has_prefix b c m \<Longrightarrow> has_prefix a c m"
  by (simp add: has_prefix_def)

lemma has_prefix_sym: "has_prefix a b m \<Longrightarrow> has_prefix b a m"
  by (simp add: has_prefix_def)

lemma has_prefix_le:
  assumes "has_prefix a b m" and "k \<le> m"
  shows "has_prefix a b k"
proof -
  have "take k (take m a) = take k (take m b)" using assms(1) unfolding has_prefix_def by presburger
  then have "take k a = take k b" using assms(2) by (simp only: take_take min.absorb1)
  then show ?thesis using assms by (simp add: has_prefix_def)
qed

lemma has_prefix_refl [simp]: "has_prefix a a m \<longleftrightarrow> m \<le> length a"
  by (simp add: has_prefix_def)

lemma has_prefix_nth: "has_prefix a b m \<Longrightarrow> i < m \<Longrightarrow> a ! i = b ! i"
  unfolding has_prefix_def by (metis nth_take)

section \<open>How the ghost state moves\<close>

definition acks_move :: "'c leader_logs \<Rightarrow> acks \<Rightarrow> ('c, 's) cluster \<Rightarrow>
    'c leader_logs \<Rightarrow> acks \<Rightarrow> ('c, 's) cluster \<Rightarrow> bool" where
  "acks_move L A s L' A' s' \<longleftrightarrow> grows L L' \<and> (\<forall>v t. A v t \<le> A' v t) \<and>
     (\<forall>v t. A' v t \<noteq> A v t \<longrightarrow> t = currentTerm (peer s' v)) \<and>
     (\<forall>v. currentTerm (peer s v) \<le> currentTerm (peer s' v))"

lemma own_term_grow: "own_term L t m \<Longrightarrow> grows L L' \<Longrightarrow> own_term L' t m"
proof -
  assume a: "own_term L t m" and "grows L L'"
  then obtain e where e: "L' t = L t @ e" by (auto simp: grows_def)
  moreover have "m - 1 < length (L t)" using a by (auto simp: own_term_def)
  ultimately show ?thesis using a by (auto simp: own_term_def nth_append)
qed

lemma own_term_back: "own_term L' t m \<Longrightarrow> grows L L' \<Longrightarrow> m \<le> length (L t) \<Longrightarrow> own_term L t m"
proof -
  assume a: "own_term L' t m" "m \<le> length (L t)" and "grows L L'"
  then obtain e where e: "L' t = L t @ e" by (auto simp: grows_def)
  moreover have "m - 1 < length (L t)" using a by (auto simp: own_term_def)
  ultimately show ?thesis using a by (auto simp: own_term_def nth_append)
qed

lemma chosen_mono: "chosen n L A t m \<Longrightarrow> acks_move L A s L' A' s' \<Longrightarrow> chosen n L' A' t m"
  unfolding chosen_def acks_move_def using own_term_grow le_trans by blast

lemma choosable_back:
  assumes mv: "acks_move L A s L' A' s'" and ch: "choosable n L' A' s' t m" and m: "m \<le> length (L t)"
  shows "choosable n L A s t m"
proof -
  obtain Q where Q: "majority {..<n} Q" "\<forall>v \<in> Q. m \<le> A' v t \<or> currentTerm (peer s' v) \<le> t"
    using ch by (auto simp: choosable_def)
  have "m \<le> A v t \<or> currentTerm (peer s v) \<le> t" if "v \<in> Q" for v
  proof (cases "A' v t = A v t")
    case True
    then show ?thesis using Q(2) that mv unfolding acks_move_def by (metis order_trans)
  next
    case False
    then show ?thesis using mv unfolding acks_move_def by blast
  qed
  moreover have "own_term L t m" using ch mv m own_term_back by (auto simp: choosable_def acks_move_def)
  ultimately show ?thesis using Q(1) unfolding choosable_def by blast
qed

lemma has_prefix_logs:
  assumes "has_prefix lg (L t) m" and "grows L L'"
  shows "has_prefix lg (L' t) m"
proof -
  obtain e where "L' t = L t @ e" using assms(2) unfolding grows_def by blast
  then show ?thesis using assms(1) has_prefix_grow [of lg "L t" m "[]" e] by simp
qed

section \<open>The invariant\<close>

text \<open>Leader completeness: later leaders' logs have every choosable prefix.\<close>

definition complete_ok ::
  "nat \<Rightarrow> 'c leader_logs \<Rightarrow> (int \<Rightarrow> nat option) \<Rightarrow> acks \<Rightarrow> ('c, 's) cluster \<Rightarrow> bool" where
  "complete_ok n L Lead A s \<longleftrightarrow> (\<forall>t t' m. t < t' \<and> Lead t' \<noteq> None \<and> choosable n L A s t m \<longrightarrow>
     has_prefix (L t') (L t) m)"

text \<open>A peer holds what it has acknowledged, while that is choosable.\<close>

definition acked_ok :: "nat \<Rightarrow> 'c leader_logs \<Rightarrow> acks \<Rightarrow> ('c, 's) cluster \<Rightarrow> nat \<Rightarrow> bool" where
  "acked_ok n L A s v \<longleftrightarrow>
     (\<forall>t. A v t \<le> length (L t) \<and> (0 < A v t \<longrightarrow> t \<le> currentTerm (peer s v))) \<and>
     (state (peer s v) = Leader \<longrightarrow> A v (currentTerm (peer s v)) = length (log (peer s v))) \<and>
     (\<forall>t m. m \<le> A v t \<and> choosable n L A s t m \<longrightarrow> has_prefix (log (peer s v)) (L t) m)"

text \<open>So did its log when it voted, for what it had acknowledged in earlier terms.\<close>

definition up_to_date :: "'c LogEntry list \<Rightarrow> 'c LogEntry list \<Rightarrow> bool" where
  "up_to_date lc lv \<longleftrightarrow> Term (last lv) < Term (last lc) \<or>
     Term (last lv) = Term (last lc) \<and> length lv \<le> length lc"

definition vote_ok :: "nat \<Rightarrow> ballot_history \<Rightarrow> 'c leader_logs \<Rightarrow> acks \<Rightarrow> 'c vote_logs \<Rightarrow> ('c, 's) cluster \<Rightarrow> nat \<Rightarrow> bool" where
  "vote_ok n V L A W s v \<longleftrightarrow> (\<forall>t' c. V v t' = Some (int c) \<and> c < n \<longrightarrow>
     log_ok L (W v t') \<and> t' \<le> currentTerm (peer s c) \<and>
     (\<forall>t m. t < t' \<and> m \<le> A v t \<and> choosable n L A s t m \<longrightarrow> has_prefix (W v t') (L t) m) \<and>
     (v \<noteq> c \<and> state (peer s c) = Candidate \<and> currentTerm (peer s c) = t' \<longrightarrow>
        up_to_date (log (peer s c)) (W v t')))"

text \<open>A commit index covers a prefix of a chosen one.\<close>

definition committed ::
  "nat \<Rightarrow> 'c leader_logs \<Rightarrow> acks \<Rightarrow> int \<Rightarrow> 'c LogEntry list \<Rightarrow> int \<Rightarrow> bool" where
  "committed n L A T lg k \<longleftrightarrow> k \<le> 0 \<or>
     (\<exists>t m. t \<le> T \<and> chosen n L A t m \<and> k < int m \<and> has_prefix lg (L t) (nat k + 1))"

definition leader_ok :: "nat \<Rightarrow> acks \<Rightarrow> nat \<Rightarrow> ('c, 's) Raft \<Rightarrow> bool" where
  "leader_ok n A i rf \<longleftrightarrow> state rf = Leader \<longrightarrow> length (matchIndex rf) = n \<and>
     (\<forall>j < n. j \<noteq> i \<longrightarrow> matchIndex rf ! j \<le> 0 \<or> matchIndex rf ! j < int (A j (currentTerm rf)))"

definition packet_safe :: "nat \<Rightarrow> 'c leader_logs \<Rightarrow> acks \<Rightarrow> ('c, 's) cluster \<Rightarrow> ('c, 's) packet \<Rightarrow> bool" where
  "packet_safe n L A s p \<longleftrightarrow>
     (case payload p of
        VoteCall a \<Rightarrow> RVTerm a \<le> currentTerm (peer s (caller p)) \<and>
          (state (peer s (caller p)) = Candidate \<and> currentTerm (peer s (caller p)) = RVTerm a \<longrightarrow>
           LastLogTerm a = Term (last (log (peer s (caller p)))) \<and>
           LastLogIndex a = int (length (log (peer s (caller p)))) - 1)
      | AppendCall a \<Rightarrow> committed n L A (AETerm a) (L (AETerm a)) (LeaderCommit a) \<and>
          LeaderCommit a \<le> PrevLogIndex a + int (length (Entries a))
      | AppendReturn a r \<Rightarrow> Success r \<longrightarrow>
          0 \<le> PrevLogIndex a \<and> PrevLogIndex a + int (length (Entries a)) < int (A (callee p) (AETerm a))
      | _ \<Rightarrow> True)"

definition safe_inv :: "nat \<Rightarrow> ballot_history \<Rightarrow> 'c leader_logs \<Rightarrow> (int \<Rightarrow> nat option) \<Rightarrow> acks \<Rightarrow>
    'c vote_logs \<Rightarrow> ('c, 's) cluster \<Rightarrow> bool" where
  "safe_inv n V L Lead A W s \<longleftrightarrow> complete_ok n L Lead A s \<and>
     (\<forall>i < n. acked_ok n L A s i \<and> vote_ok n V L A W s i \<and> leader_ok n A i (peer s i) \<and>
        committed n L A (currentTerm (peer s i)) (log (peer s i)) (commitIndex (peer s i))) \<and>
     (\<forall>p \<in> set (net s). packet_safe n L A s p)"

section \<open>Preservation, part by part\<close>

lemma committed_mono:
  assumes "committed n L A T lg k" and mv: "acks_move L A s L' A' s'" and "T \<le> T'"
    and "\<And>t m. chosen n L A t m \<Longrightarrow> t \<le> T \<Longrightarrow> has_prefix lg (L t) (nat k + 1) \<Longrightarrow> k < int m \<Longrightarrow> has_prefix lg' lg (nat k + 1)"
  shows "committed n L' A' T' lg' k"
proof (cases "k \<le> 0")
  case False
  then obtain t m where tm: "t \<le> T" "chosen n L A t m" "k < int m" "has_prefix lg (L t) (nat k + 1)"
    using assms(1) by (auto simp: committed_def)
  then have "has_prefix lg' (L t) (nat k + 1)" using assms(4) has_prefix_trans by blast
  then have "has_prefix lg' (L' t) (nat k + 1)" using mv by (auto simp: acks_move_def intro: has_prefix_logs)
  moreover have "chosen n L' A' t m" by (rule chosen_mono [OF tm(2) mv])
  ultimately show ?thesis using tm assms(3) unfolding committed_def by (meson order_trans)
qed (simp add: committed_def)

lemma leader_voted:
  assumes "match_inv n V L Lead s" and "election_inv n V K s" and "Lead t' \<noteq> None" and "majority {..<n} Q"
  obtains v where "v \<in> Q" "v < n" "t' \<le> currentTerm (peer s v)"
proof -
  obtain c where "Lead t' = Some c" using assms(3) by blast
  then have "majority {..<n} (voters n V c t')" using match_own(2) [OF assms(1)] by (auto simp: lead_ok_def)
  then obtain v where v: "v \<in> Q" "v \<in> voters n V c t'" using majority_meet [OF assms(4)] by blast
  then have "v < n" "V v t' \<noteq> None" by (auto simp: voters_def)
  then have "t' \<le> currentTerm (peer s v)"
    using inv_own(2) [OF assms(2), of v] unfolding voter_ok_def by (meson not_le)
  then show thesis using that v(1) \<open>v < n\<close> by blast
qed

text \<open>A prefix that is choosable although a later term has a leader was acknowledged already.\<close>

lemma choosable_later:
  assumes "match_inv n V' L' Lead' s'" and "election_inv n V' K' s'" and "Lead' t' \<noteq> None" and "t < t'"
    and mv: "acks_move L A s L' A' s'" and ch: "choosable n L' A' s' t m" and ack: "\<And>v. v < n \<Longrightarrow> acked_ok n L A s v"
  shows "m \<le> length (L t)" and "choosable n L A s t m"
proof -
  obtain Q where Q: "majority {..<n} Q" "\<forall>v \<in> Q. m \<le> A' v t \<or> currentTerm (peer s' v) \<le> t"
    using ch by (auto simp: choosable_def)
  obtain v where v: "v \<in> Q" "v < n" "t' \<le> currentTerm (peer s' v)" by (rule leader_voted [OF assms(1-3) Q(1)])
  then have "m \<le> A' v t" using Q(2) assms(4) by force
  moreover have "A' v t = A v t" using mv v(3) assms(4) unfolding acks_move_def by (metis not_le)
  moreover have "A v t \<le> length (L t)" using ack [OF v(2)] by (simp add: acked_ok_def)
  ultimately show m: "m \<le> length (L t)" by simp
  show "choosable n L A s t m" by (rule choosable_back [OF mv ch m])
qed

lemma complete_step:
  assumes old: "complete_ok n L Lead A s" and inv': "match_inv n V' L' Lead' s'" "election_inv n V' K' s'"
    and mv: "acks_move L A s L' A' s'" and ack: "\<And>v. v < n \<Longrightarrow> acked_ok n L A s v"
    and new: "\<And>t t' m. Lead' t' \<noteq> None \<Longrightarrow> Lead t' = None \<Longrightarrow> t < t' \<Longrightarrow> choosable n L A s t m \<Longrightarrow> has_prefix (L' t') (L t) m"
  shows "complete_ok n L' Lead' A' s'"
  unfolding complete_ok_def
proof (intro allI impI)
  fix t t' m assume a: "t < t' \<and> Lead' t' \<noteq> None \<and> choosable n L' A' s' t m"
  then have ch: "choosable n L A s t m" using choosable_later(2) [OF inv' _ _ mv _ ack] by blast
  have g: "grows L L'" using mv by (simp add: acks_move_def)
  show "has_prefix (L' t') (L' t) m"
  proof (cases "Lead t' = None")
    case True
    then show ?thesis using new a ch has_prefix_logs [OF _ g] by blast
  next
    case False
    then have "has_prefix (L t') (L t) m" using old a ch unfolding complete_ok_def by blast
    moreover obtain e f where "L' t' = L t' @ e" "L' t = L t @ f" using g unfolding grows_def by blast
    ultimately show ?thesis using has_prefix_grow by simp
  qed
qed

lemma acked_len: "acked_ok n L A s v \<Longrightarrow> m \<le> A v t \<Longrightarrow> m \<le> length (L t)"
  unfolding acked_ok_def using order_trans by blast

lemma grows_at: "grows L L' \<Longrightarrow> \<exists>e. L' t = L t @ e"
  by (simp add: grows_def)

text \<open>A peer may acknowledge more of its current term's log, and change its own log, if what it has
  acknowledged before stays.\<close>

lemma acked_grow:
  assumes ok: "acked_ok n L A s v" and mv: "acks_move L A s L' A' s'" and T: "T = currentTerm (peer s' v)"
    and keep: "\<And>t m. m \<le> A v t \<Longrightarrow> choosable n L A s t m \<Longrightarrow> has_prefix (log (peer s' v)) (L t) m"
    and new: "A' v T = A v T \<or> has_prefix (log (peer s' v)) (L' T) (A' v T)"
    and ld: "state (peer s' v) = Leader \<longrightarrow> A' v T = length (log (peer s' v))"
  shows "acked_ok n L' A' s' v"
proof -
  have g: "grows L L'" and le: "currentTerm (peer s v) \<le> T" using mv T by (auto simp: acks_move_def)
  have same: "A' v t = A v t" if "t \<noteq> T" for t using mv T that unfolding acks_move_def by blast
  have old: "A v t \<le> length (L' t) \<and> (0 < A v t \<longrightarrow> t \<le> T)" for t
  proof -
    obtain e where "L' t = L t @ e" using grows_at [OF g] by blast
    then have "length (L t) \<le> length (L' t)" by simp
    then show ?thesis using ok le unfolding acked_ok_def by (meson order_trans)
  qed
  have "has_prefix (log (peer s' v)) (L' t) m" if m: "m \<le> A' v t" "choosable n L' A' s' t m" for t m
  proof (cases "A' v t = A v t")
    case True
    then have mA: "m \<le> A v t" using m(1) by simp
    then have "choosable n L A s t m" using choosable_back [OF mv m(2)] acked_len [OF ok] by blast
    then show ?thesis using keep [OF mA] has_prefix_logs [OF _ g] by blast
  next
    case False
    then show ?thesis using same new has_prefix_le [OF _ m(1)] by (cases "t = T") auto
  qed
  moreover have "A' v t \<le> length (L' t) \<and> (0 < A' v t \<longrightarrow> t \<le> T)" for t
    using old [of t] same [of t] new by (cases "t = T") (auto simp: has_prefix_def)
  ultimately show ?thesis using ld T unfolding acked_ok_def by auto
qed

lemma acked_move:
  assumes ok: "acked_ok n L A s v" and mv: "acks_move L A s L' A' s'" and "A' v = A v"
    and lg: "log (peer s' v) = log (peer s v)"
    and ld: "state (peer s' v) = Leader \<longrightarrow> state (peer s v) = Leader \<and> currentTerm (peer s' v) = currentTerm (peer s v)"
  shows "acked_ok n L' A' s' v"
  by (rule acked_grow [OF ok mv refl]) (use ok assms(3) lg ld in \<open>auto simp: acked_ok_def\<close>)

definition next_votes :: "ballot_history \<Rightarrow> ballot_history \<Rightarrow> ('c, 's) cluster \<Rightarrow> 'c vote_logs \<Rightarrow> 'c vote_logs" where
  "next_votes V V' s' W = (\<lambda>v t. if V v t = None \<and> V' v t \<noteq> None then log (peer s' v) else W v t)"

text \<open>Candidates are new in a new term, or keep their log.\<close>

definition candidates_stay :: "('c, 's) cluster \<Rightarrow> ('c, 's) cluster \<Rightarrow> bool" where
  "candidates_stay s s' \<longleftrightarrow> (\<forall>c. state (peer s' c) = Candidate \<longrightarrow>
     state (peer s c) = Candidate \<and> currentTerm (peer s' c) = currentTerm (peer s c) \<and> log (peer s' c) = log (peer s c) \<or>
     currentTerm (peer s c) < currentTerm (peer s' c))"

lemma vote_step:
  assumes ok: "vote_ok n V L A W s v" and vt: "voter_ok V v (peer s v)" and mv: "acks_move L A s L' A' s'"
    and cs: "casts V V' s'" and cd: "candidates_stay s s'"
    and ack: "acked_ok n L A s v" and ack': "acked_ok n L' A' s' v"
    and lg: "log_ok L' (log (peer s' v))"
    and new: "\<And>t c. V v t = None \<Longrightarrow> V' v t = Some (int c) \<Longrightarrow> c < n \<Longrightarrow> t \<le> currentTerm (peer s' c) \<and>
      (v \<noteq> c \<and> state (peer s' c) = Candidate \<and> currentTerm (peer s' c) = t \<longrightarrow> up_to_date (log (peer s' c)) (log (peer s' v)))"
  shows "vote_ok n V' L' A' (next_votes V V' s' W) s' v"
  unfolding vote_ok_def
proof (intro allI impI, goal_cases)
  case (1 t' c)
  let ?W = "next_votes V V' s' W v t'"
  have g: "grows L L'" and T: "currentTerm (peer s c) \<le> currentTerm (peer s' c)" using mv by (auto simp: acks_move_def)
  show ?case
  proof (cases "V v t'")
    case None
    then have W: "?W = log (peer s' v)" using 1 by (simp add: next_votes_def)
    show ?thesis using new [OF None] 1 ack' lg unfolding W acked_ok_def by blast
  next
    case (Some x)
    then have x: "V v t' = Some (int c)" and W: "?W = W v t'" using casts_extends [OF cs] 1 by (auto simp: extends_def next_votes_def)
    then have old: "log_ok L (W v t')" "t' \<le> currentTerm (peer s c)"
      "\<And>t m. t < t' \<and> m \<le> A v t \<and> choosable n L A s t m \<Longrightarrow> has_prefix (W v t') (L t) m"
      "v \<noteq> c \<and> state (peer s c) = Candidate \<and> currentTerm (peer s c) = t' \<longrightarrow> up_to_date (log (peer s c)) (W v t')"
      using ok 1 unfolding vote_ok_def by blast+
    have voted: "t' \<le> currentTerm (peer s v)" using vt x unfolding voter_ok_def by (metis not_le option.distinct(1))
    have "has_prefix (W v t') (L' t) m" if a: "t < t' \<and> m \<le> A' v t \<and> choosable n L' A' s' t m" for t m
    proof -
      have "t \<noteq> currentTerm (peer s' v)" using mv a voted unfolding acks_move_def by (metis less_le_trans not_less)
      then have "A' v t = A v t" using mv unfolding acks_move_def by blast
      then have m: "m \<le> A v t" using a by simp
      then have "m \<le> length (L t)" by (rule acked_len [OF ack])
      then have "choosable n L A s t m" using choosable_back [OF mv] a by blast
      then show ?thesis using old(3) a m has_prefix_logs [OF _ g] by blast
    qed
    moreover have "up_to_date (log (peer s' c)) (W v t')"
      if "v \<noteq> c \<and> state (peer s' c) = Candidate \<and> currentTerm (peer s' c) = t'"
      using that cd old(2,4) unfolding candidates_stay_def by (metis not_less)
    ultimately show ?thesis using old(1,2) T log_ok_grow [OF _ g] unfolding W by auto
  qed
qed

lemma packet_safe_move:
  assumes "packet_safe n L A s p" and mv: "acks_move L A s L' A' s'" and cd: "candidates_stay s s'"
  shows "packet_safe n L' A' s' p"
proof (cases "payload p")
  case (VoteCall a)
  have "currentTerm (peer s (caller p)) \<le> currentTerm (peer s' (caller p))" using mv by (simp add: acks_move_def)
  then show ?thesis using assms(1) VoteCall cd unfolding candidates_stay_def packet_safe_def by (force simp del: not_less)
next
  case (AppendCall a)
  obtain e where "L' (AETerm a) = L (AETerm a) @ e" using mv grows_at unfolding acks_move_def by blast
  then have "committed n L' A' (AETerm a) (L' (AETerm a)) (LeaderCommit a)"
    if "committed n L A (AETerm a) (L (AETerm a)) (LeaderCommit a)"
    using that by (rule_tac committed_mono [OF that mv]) (auto simp: has_prefix_def)
  then show ?thesis using assms(1) AppendCall by (simp add: packet_safe_def)
next
  case (AppendReturn a r)
  have "A (callee p) (AETerm a) \<le> A' (callee p) (AETerm a)" using mv by (simp add: acks_move_def)
  then show ?thesis using assms(1) AppendReturn by (auto simp: packet_safe_def)
qed (use assms in \<open>auto simp: packet_safe_def\<close>)

section \<open>One section\<close>

definition raft_inv :: "nat \<Rightarrow> ballot_history \<Rightarrow> tally \<Rightarrow> 'c leader_logs \<Rightarrow> (int \<Rightarrow> nat option) \<Rightarrow> acks \<Rightarrow>
    'c vote_logs \<Rightarrow> ('c, 's) cluster \<Rightarrow> bool" where
  "raft_inv n V K L Lead A W s \<longleftrightarrow>
     election_inv n V K s \<and> match_inv n V L Lead s \<and> safe_inv n V L Lead A W s"

lemma raft_own:
  assumes "raft_inv n V K L Lead A W s"
  shows "election_inv n V K s" "match_inv n V L Lead s" "complete_ok n L Lead A s"
    "i < n \<Longrightarrow> acked_ok n L A s i" "i < n \<Longrightarrow> vote_ok n V L A W s i" "i < n \<Longrightarrow> leader_ok n A i (peer s i)"
    "i < n \<Longrightarrow> committed n L A (currentTerm (peer s i)) (log (peer s i)) (commitIndex (peer s i))"
    "p \<in> set (net s) \<Longrightarrow> packet_safe n L A s p" "i < n \<Longrightarrow> peer_match L Lead i (peer s i)"
    "p \<in> set (net s) \<Longrightarrow> packet_match L p" "i < n \<Longrightarrow> peer_ok n i (peer s i)"
    "i < n \<Longrightarrow> voter_ok V i (peer s i)" "logs_ok L Lead"
  using assms inv_own match_own by (auto simp: raft_inv_def safe_inv_def)

lemma raft_step:
  assumes inv: "raft_inv n V K L Lead A W s"
    and inv': "election_inv n V' K' s'" "match_inv n V' L' Lead' s'"
    and mv: "acks_move L A s L' A' s'" and cs: "casts V V' s'" and cd: "candidates_stay s s'"
    and oth: "\<And>j. j \<noteq> i \<Longrightarrow> peer s' j = peer s j \<and> A' j = A j"
    and new: "\<And>t t' m. Lead' t' \<noteq> None \<Longrightarrow> Lead t' = None \<Longrightarrow> t < t' \<Longrightarrow> choosable n L A s t m \<Longrightarrow> has_prefix (L' t') (L t) m"
    and own: "i < n \<Longrightarrow> acked_ok n L' A' s' i \<and> leader_ok n A' i (peer s' i) \<and>
      committed n L' A' (currentTerm (peer s' i)) (log (peer s' i)) (commitIndex (peer s' i))"
    and vote: "\<And>v t c. v < n \<Longrightarrow> V v t = None \<Longrightarrow> V' v t = Some (int c) \<Longrightarrow> c < n \<Longrightarrow> t \<le> currentTerm (peer s' c) \<and>
      (v \<noteq> c \<and> state (peer s' c) = Candidate \<and> currentTerm (peer s' c) = t \<longrightarrow> up_to_date (log (peer s' c)) (log (peer s' v)))"
    and pk: "\<And>p. p \<in> set (net s') \<Longrightarrow> p \<in> set (net s) \<or> packet_safe n L' A' s' p"
  shows "raft_inv n V' K' L' Lead' A' (next_votes V V' s' W) s'"
proof -
  note old = raft_own [OF inv]
  have ack: "acked_ok n L' A' s' j" if j: "j < n" for j
  proof (cases "j = i")
    case False
    then show ?thesis using oth acked_move [OF old(4) [OF j] mv] by simp
  qed (use own j in simp)
  have led: "leader_ok n A' j (peer s' j)" if j: "j < n" for j
  proof (cases "j = i")
    case False
    have "A v t \<le> A' v t" for v t using mv by (simp add: acks_move_def)
    then show ?thesis using False oth old(6) [OF j] unfolding leader_ok_def
      by (metis (no_types, lifting) less_le_trans of_nat_le_iff)
  qed (use own j in simp)
  have com: "committed n L' A' (currentTerm (peer s' j)) (log (peer s' j)) (commitIndex (peer s' j))" if j: "j < n" for j
  proof (cases "j = i")
    case False
    then show ?thesis using oth committed_mono [OF old(7) [OF j] mv] by (auto simp: has_prefix_def)
  qed (use own j in simp)
  have "vote_ok n V' L' A' (next_votes V V' s' W) s' j" if j: "j < n" for j
    by (rule vote_step [OF old(5) [OF j] old(12) [OF j] mv cs cd old(4) [OF j] ack [OF j]])
       (use match_own(3) [OF inv'(2) j] vote [OF j] in \<open>auto simp: peer_match_def\<close>)
  moreover have "complete_ok n L' Lead' A' s'" by (rule complete_step [OF old(3) inv'(2,1) mv old(4) new])
  moreover have "packet_safe n L' A' s' p" if "p \<in> set (net s')" for p
    using pk [OF that] packet_safe_move [OF old(8) mv cd] by blast
  ultimately show ?thesis using ack led com inv' by (simp add: raft_inv_def safe_inv_def)
qed

lemma grows_refl [simp]: "grows L L"
  by (simp add: grows_def)

lemma match_votes: "match_inv n V L Lead s \<Longrightarrow> extends V V' \<Longrightarrow> match_inv n V' L Lead s"
  by (rule match_calm [of n V L Lead s V' s 0 "peer s 0"]) (auto simp: follows_def intro: match_own(4))

text \<open>A section that leaves the log alone and makes no leader.\<close>

lemma raft_quiet:
  assumes inv: "raft_inv n V K L Lead A W s" and inv': "election_inv n V' K' s'" and cs: "casts V V' s'"
    and peer: "peer s' = (peer s)(i := rf')" and fol: "follows (peer s i) rf'" and lg: "log rf' = log (peer s i)"
    and own: "i < n \<Longrightarrow> leader_ok n A i rf' \<and>
      (commitIndex rf' = commitIndex (peer s i) \<or> committed n L A (currentTerm rf') (log rf') (commitIndex rf'))"
    and vote: "\<And>v t c. v < n \<Longrightarrow> V v t = None \<Longrightarrow> V' v t = Some (int c) \<Longrightarrow> c < n \<Longrightarrow> t \<le> currentTerm (peer s' c) \<and>
      (v \<noteq> c \<and> state (peer s' c) = Candidate \<and> currentTerm (peer s' c) = t \<longrightarrow> up_to_date (log (peer s' c)) (log (peer s' v)))"
    and pk: "\<And>p. p \<in> set (net s') \<Longrightarrow> p \<in> set (net s) \<or> packet_match L p \<and> packet_safe n L A s' p"
  shows "raft_inv n V' K' L Lead A (next_votes V V' s' W) s' \<and> acks_move L A s L A s'"
proof -
  note old = raft_own [OF inv]
  have T: "currentTerm (peer s i) \<le> currentTerm rf'" using fol by (auto simp: follows_def)
  then have mv: "acks_move L A s L A s'" using peer by (simp add: acks_move_def)
  have cd: "candidates_stay s s'" using peer fol lg by (auto simp: candidates_stay_def follows_def)
  have "match_inv n V' L Lead s'"
    using match_calm [OF old(2) casts_extends [OF cs] peer fol lg] pk old(10) by blast
  moreover have "acked_ok n L A s' i" if "i < n"
    by (rule acked_move [OF old(4) [OF that] mv]) (use peer lg fol in \<open>auto simp: follows_def\<close>)
  moreover have "committed n L A (currentTerm rf') (log rf') (commitIndex rf')" if "i < n"
    using own [OF that] committed_mono [OF old(7) [OF that] mv T, of "log rf'"] lg by (auto simp: has_prefix_def)
  ultimately have "raft_inv n V' K' L Lead A (next_votes V V' s' W) s'"
    using pk own peer by (intro raft_step [OF inv inv' _ mv cs cd _ _ _ vote, where i = i]) auto
  then show ?thesis using mv by blast
qed

lemma leader_ok_same:
  "leader_ok n A i rf \<Longrightarrow> follows rf rf' \<Longrightarrow> matchIndex rf' = matchIndex rf \<Longrightarrow> leader_ok n A i rf'"
  by (auto simp: leader_ok_def follows_def)

text \<open>A vote that is new is the voter's vote of its current term, and was not there before.\<close>

lemma new_vote:
  assumes "casts V V' s'" and "voter_ok V v (peer s v)" and "voter_ok V' v (peer s' v)"
    and "V v t = None" and "V' v t = Some x"
  shows "t = currentTerm (peer s' v)" "x = votedFor (peer s' v)" "votedFor (peer s' v) \<noteq> -1"
    "\<not> (currentTerm (peer s' v) = currentTerm (peer s v) \<and> votedFor (peer s' v) = votedFor (peer s v))"
proof -
  show t: "t = currentTerm (peer s' v)" using assms(1,4,5) unfolding casts_def by (metis option.distinct(1))
  then show x: "x = votedFor (peer s' v)" "votedFor (peer s' v) \<noteq> -1"
    using assms(3,5) by (auto simp: voter_ok_def split: if_splits)
  show "\<not> (currentTerm (peer s' v) = currentTerm (peer s v) \<and> votedFor (peer s' v) = votedFor (peer s v))"
    using assms(2,4) t x by (auto simp: voter_ok_def split: if_splits)
qed

text \<open>A section that neither votes nor makes a leader.\<close>

definition abstains :: "('c, 's) Raft \<Rightarrow> ('c, 's) Raft \<Rightarrow> bool" where
  "abstains rf rf' \<longleftrightarrow> follows rf rf' \<and>
     (votedFor rf' = -1 \<or> currentTerm rf' = currentTerm rf \<and> votedFor rf' = votedFor rf)"

lemma abstains_settles:
  "settles rf rf' \<Longrightarrow> lastIncludedIndex rf' = lastIncludedIndex rf \<Longrightarrow>
   log rf' = log rf \<or> state rf' = Follower \<Longrightarrow> abstains rf rf'"
  using follows_settles unfolding abstains_def settles_def by blast

lemma abstains_votes:
  assumes "raft_inv n V K L Lead A W s" and "election_inv n V' K' s'" and "casts V V' s'"
    and "peer s' = (peer s)(i := rf')" and "abstains (peer s i) rf'" and "v < n" and "V v t = None"
  shows "V' v t \<noteq> Some x"
proof
  assume "V' v t = Some x"
  note nv = new_vote [OF assms(3) raft_own(12) [OF assms(1,6)] inv_own(2) [OF assms(2,6)] assms(7) this]
  show False using nv(3,4) assms(4,5) by (cases "v = i") (auto simp: abstains_def)
qed

lemma raft_calm:
  assumes inv: "raft_inv n V K L Lead A W s" and inv': "election_inv n V' K' s'" and cs: "casts V V' s'"
    and peer: "peer s' = (peer s)(i := rf')" and ab: "abstains (peer s i) rf'" and lg: "log rf' = log (peer s i)"
    and mi: "i < n \<Longrightarrow> matchIndex rf' = matchIndex (peer s i) \<or> leader_ok n A i rf'"
    and ci: "i < n \<Longrightarrow> commitIndex rf' = commitIndex (peer s i) \<or> committed n L A (currentTerm rf') (log rf') (commitIndex rf')"
    and pk: "\<And>p. p \<in> set (net s') \<Longrightarrow> p \<in> set (net s) \<or> packet_match L p \<and> packet_safe n L A s' p"
  shows "\<exists>W'. raft_inv n V' K' L Lead A W' s' \<and> acks_move L A s L A s'"
proof -
  have fol: "follows (peer s i) rf'" using ab by (simp add: abstains_def)
  have own: "leader_ok n A i rf'" if "i < n"
    using mi [OF that] leader_ok_same [OF raft_own(6) [OF inv that] fol] by blast
  have "raft_inv n V' K' L Lead A (next_votes V V' s' W) s' \<and> acks_move L A s L A s'"
    using own ci abstains_votes [OF inv inv' cs peer ab] pk
    by (intro raft_quiet [OF inv inv' cs peer fol lg]) blast+
  then show ?thesis by blast
qed

text \<open>The peers do nothing; packets come and go.\<close>

lemma raft_network:
  assumes "raft_inv n V K L Lead A W s" and "election_inv n V' K' s'" and "casts V V' s'" and "peer s' = peer s"
    and "\<And>p. p \<in> set (net s') \<Longrightarrow> p \<in> set (net s) \<or> packet_match L p \<and> packet_safe n L A s p"
  shows "\<exists>W'. raft_inv n V' K' L Lead A W' s' \<and> acks_move L A s L A s'"
proof -
  have "packet_safe n L A s' p" if "packet_safe n L A s p" for p
    using that assms(4) by (auto simp: packet_safe_def split: payload.splits)
  then show ?thesis
    using assms(4,5) by (intro raft_calm [OF assms(1-3), of 0 "peer s 0"]) (auto simp: abstains_def follows_def)
qed

end
