(* ===== verification/RaftReplication.thy ===== *)
theory RaftReplication
  imports RaftChosen
begin

text \<open>
  Every event of a cluster keeps the invariant of \<open>RaftChosen\<close>: one lemma per kind of section, each
  about one peer and the packets it takes and sends, and their composition \<open>raft_happen\<close>. The step
  that matters is the election: the winner's log has every choosable prefix.
\<close>

section \<open>Elections\<close>

lemma raft_timeout:
  assumes inv: "raft_inv n V K L Lead A W s" and inv': "election_inv n V' K' s'" and cs: "casts V V' s'" and i: "i < n"
    and e: "checkElectionTimeout tk (peer s i) = (rf', started)"
    and peer: "peer s' = (peer s)(i := rf')" and net: "net s' = net s"
  shows "\<exists>W'. raft_inv n V' K' L Lead A W' s' \<and> acks_move L A s L A s'"
proof (cases started)
  case True
  have f: "currentTerm rf' = currentTerm (peer s i) + 1" "votedFor rf' = int i" "state rf' = Candidate"
    "log rf' = log (peer s i)" "lastIncludedIndex rf' = lastIncludedIndex (peer s i)"
    "commitIndex rf' = commitIndex (peer s i)"
    using e True raft_own(11) [OF inv i] by (auto simp: checkElectionTimeout_def peer_ok_def split: if_splits)
  have vote: "t \<le> currentTerm (peer s' c) \<and>
      (v \<noteq> c \<and> state (peer s' c) = Candidate \<and> currentTerm (peer s' c) = t \<longrightarrow> up_to_date (log (peer s' c)) (log (peer s' v)))"
    if v: "v < n" "V v t = None" "V' v t = Some (int c)" "c < n" for v t c
  proof -
    note nv = new_vote [OF cs raft_own(12) [OF inv v(1)] inv_own(2) [OF inv' v(1)] v(2,3)]
    have "v = i" using nv(4) peer by (cases "v = i") auto
    then show ?thesis using nv(1,2) f(2) peer by auto
  qed
  have "raft_inv n V' K' L Lead A (next_votes V V' s' W) s' \<and> acks_move L A s L A s'"
    by (rule raft_quiet [OF inv inv' cs peer _ f(4) _ vote]) (use f net in \<open>auto simp: follows_def leader_ok_def\<close>)
  then show ?thesis by blast
next
  case False
  then have "rf' = peer s i" using e by (auto simp: checkElectionTimeout_def split: if_splits)
  then show ?thesis using raft_network [OF inv inv' cs] peer net by simp
qed

lemma last_term: "log rf \<noteq> [] \<Longrightarrow> getLastLogTerm rf = Term (last (log rf))"
  by (simp add: getLastLogTerm_def)

lemma raft_run_election:
  assumes inv: "raft_inv n V K L Lead A W s" and inv': "election_inv n V' K' s'" and cs: "casts V V' s'" and i: "i < n"
    and e: "startElection (peer s i) = (rf', args)" and peer: "peer s' = (peer s)(i := rf')"
    and net: "net s' = net s @ map (request s i (VoteCall args)) vs"
  shows "\<exists>W'. raft_inv n V' K' L Lead A W' s' \<and> acks_move L A s L A s'"
proof -
  have pm: "log (peer s i) \<noteq> []" "lastIncludedIndex (peer s i) = 0"
    using raft_own(9) [OF inv i] by (auto simp: peer_match_def log_ok_def)
  have f: "rf' = (peer s i)\<lparr>votesReceived := 1\<rparr>" "RVTerm args = currentTerm (peer s i)"
    "LastLogTerm args = Term (last (log (peer s i)))" "LastLogIndex args = int (length (log (peer s i))) - 1"
    using e pm by (auto simp: startElection_def Let_def getLastLogTerm_def getLastLogIndex_def)
  show ?thesis
    by (rule raft_calm [OF inv inv' cs peer])
       (use f net peer in \<open>auto simp: abstains_def follows_def request_def packet_match_def packet_safe_def\<close>)
qed

lemma uptodate_cong:
  "log rf' = log rf \<Longrightarrow> lastIncludedIndex rf' = lastIncludedIndex rf \<Longrightarrow> lastIncludedTerm rf' = lastIncludedTerm rf \<Longrightarrow>
   logIsAtLeastAsUpToDate args rf' = logIsAtLeastAsUpToDate args rf"
  by (simp add: logIsAtLeastAsUpToDate_def getLastLogTerm_def getLastLogIndex_def)

lemma RequestVote_new_vote:
  assumes "RequestVote tk args rf = (rf', reply)" and "votedFor rf' \<noteq> -1"
    and "\<not> (currentTerm rf' = currentTerm rf \<and> votedFor rf' = votedFor rf)"
  shows "currentTerm rf' = RVTerm args" "votedFor rf' = CandidateId args" "logIsAtLeastAsUpToDate args rf'"
proof -
  define rf1 where "rf1 = (if RVTerm args > currentTerm rf then newTerm (RVTerm args) rf else rf)"
  define ok where "ok \<longleftrightarrow> (votedFor rf1 = -1 \<or> votedFor rf1 = CandidateId args) \<and> logIsAtLeastAsUpToDate args rf1"
  have fresh: "\<not> RVTerm args < currentTerm rf" using assms(1,3) by (auto simp: RequestVote_def)
  have rf': "rf' = (if ok then resetElectionTimeout tk (persist (rf1\<lparr>votedFor := CandidateId args\<rparr>)) else rf1)"
    using assms(1) fresh unfolding RequestVote_def Let_def rf1_def [symmetric] ok_def [symmetric] by (auto split: if_splits)
  have ok using assms(2,3) rf' by (auto simp: rf1_def split: if_splits)
  moreover have "currentTerm rf1 = RVTerm args" using fresh by (auto simp: rf1_def)
  moreover have "logIsAtLeastAsUpToDate args (resetElectionTimeout tk (persist (rf1\<lparr>votedFor := CandidateId args\<rparr>))) =
      logIsAtLeastAsUpToDate args rf1" by (rule uptodate_cong) simp_all
  ultimately show "currentTerm rf' = RVTerm args" "votedFor rf' = CandidateId args" "logIsAtLeastAsUpToDate args rf'"
    using rf' by (auto simp: ok_def)
qed

lemma raft_vote_request:
  assumes inv: "raft_inv n V K L Lead A W s" and inv': "election_inv n V' K' s'" and cs: "casts V V' s'"
    and p: "p \<in> set (net s)" "payload p = VoteCall args" and v: "v = callee p"
    and e: "RequestVote tk args (peer s v) = (rf', reply)" and peer: "peer s' = (peer s)(v := rf')"
    and net: "\<And>q. q \<in> set (net s') \<Longrightarrow> q \<in> set (net s) \<or> q = p\<lparr>payload := VoteReturn args reply\<rparr>"
  shows "\<exists>W'. raft_inv n V' K' L Lead A W' s' \<and> acks_move L A s L A s'"
proof -
  have pok: "packet_ok n V p" using raft_own(1) [OF inv] p(1) by (simp add: election_inv_def)
  then have c: "caller p < n" "v < n" "caller p \<noteq> v" "CandidateId args = int (caller p)"
    using v p by (auto simp: packet_ok_def)
  have f: "log rf' = log (peer s v)" "lastIncludedIndex rf' = lastIncludedIndex (peer s v)"
    "matchIndex rf' = matchIndex (peer s v)" "commitIndex rf' = commitIndex (peer s v)"
    "follows (peer s v) rf'"
    using e by (auto simp: RequestVote_def Let_def follows_def split: if_splits)
  have ret: "packet_match L (p\<lparr>payload := VoteReturn args reply\<rparr>) \<and> packet_safe n L A s' (p\<lparr>payload := VoteReturn args reply\<rparr>)"
    by (simp add: packet_match_def packet_safe_def)
  have pm: "log (peer s v) \<noteq> []" "lastIncludedIndex (peer s v) = 0"
    using raft_own(9) [OF inv c(2)] by (auto simp: peer_match_def log_ok_def)
  have vote: "t \<le> currentTerm (peer s' x) \<and>
      (w \<noteq> x \<and> state (peer s' x) = Candidate \<and> currentTerm (peer s' x) = t \<longrightarrow> up_to_date (log (peer s' x)) (log (peer s' w)))"
    if w: "w < n" "V w t = None" "V' w t = Some (int x)" "x < n" for w t x
  proof -
    note nv = new_vote [OF cs raft_own(12) [OF inv w(1)] inv_own(2) [OF inv' w(1)] w(2,3)]
    have wv: "w = v" using nv(4) peer by (cases "w = v") auto
    have g: "currentTerm rf' = RVTerm args \<and> votedFor rf' = CandidateId args \<and> logIsAtLeastAsUpToDate args rf'"
      using RequestVote_new_vote [OF e] nv(3,4) wv peer by simp
    then have x: "x = caller p" "t = RVTerm args" using nv(1,2) wv peer c(4) by auto
    have "packet_safe n L A s p" by (rule raft_own(8) [OF inv p(1)])
    then have "RVTerm args \<le> currentTerm (peer s x)"
      "state (peer s x) = Candidate \<and> currentTerm (peer s x) = RVTerm args \<longrightarrow>
        LastLogTerm args = Term (last (log (peer s x))) \<and> LastLogIndex args = int (length (log (peer s x))) - 1"
      using p(2) x(1) by (auto simp: packet_safe_def)
    moreover have "x \<noteq> v" "peer s' x = peer s x" using c(3) x(1) peer by auto
    ultimately show ?thesis using g x(2) wv peer f pm
      by (auto simp: logIsAtLeastAsUpToDate_def last_term getLastLogIndex_def up_to_date_def split: if_splits)
  qed
  have "raft_inv n V' K' L Lead A (next_votes V V' s' W) s' \<and> acks_move L A s L A s'"
    by (rule raft_quiet [OF inv inv' cs peer f(5,1) _ vote])
       (use net ret leader_ok_same [OF raft_own(6) [OF inv c(2)] f(5,3)] f(4) in auto)
  then show ?thesis by blast
qed

text \<open>A log is a prefix of the leader's log of its last entry's term.\<close>

lemma log_last:
  assumes "log_ok L lg"
  shows "has_prefix lg (L (Term (last lg))) (length lg)" "last lg = L (Term (last lg)) ! (length lg - 1)"
proof -
  have ne: "lg \<noteq> []" and m: "matching L lg" using assms by (auto simp: log_ok_def)
  then have i: "length lg - 1 < length lg" "Suc (length lg - 1) = length lg" "lg ! (length lg - 1) = last lg"
    by (auto simp: last_conv_nth)
  then show p: "has_prefix lg (L (Term (last lg))) (length lg)"
    using m unfolding matching_def has_prefix_def by (metis Suc_leI le_refl)
  show "last lg = L (Term (last lg)) ! (length lg - 1)" using has_prefix_nth [OF p i(1)] i(3) by simp
qed

lemma leader_log_terms: "logs_ok L Lead \<Longrightarrow> i < length (L t) \<Longrightarrow> Term (L t ! i) \<le> t"
  by (simp add: logs_ok_def)

lemma leader_of_log: "logs_ok L Lead \<Longrightarrow> L t \<noteq> [] \<Longrightarrow> t \<noteq> 0 \<Longrightarrow> Lead t \<noteq> None"
  unfolding logs_ok_def by metis

text \<open>The step of leader completeness: a candidate with a majority has every choosable prefix.\<close>

lemma up_to_date_prefix:
  assumes logs: "logs_ok L Lead" and lc: "log_ok L lc" and lw: "log_ok L lw" and utd: "up_to_date lc lw"
    and p: "has_prefix lw (L t) m" and m: "own_term L t m"
    and later: "\<And>u. t < u \<Longrightarrow> u = Term (last lc) \<Longrightarrow> has_prefix (L u) (L t) m"
  shows "has_prefix lc (L t) m"
proof -
  define u w where "u = Term (last lc)" and "w = Term (last lw)"
  note cl = log_last [OF lc, folded u_def] and wl = log_last [OF lw, folded w_def]
  have m0: "0 < m" "Term (L t ! (m - 1)) = t" "m \<le> length lw" "m - 1 < m" using m p by (auto simp: own_term_def has_prefix_def)
  have "L w ! (m - 1) = lw ! (m - 1)" "lw ! (m - 1) = L t ! (m - 1)"
    using has_prefix_nth [OF wl(1), of "m - 1"] has_prefix_nth [OF p m0(4)] m0 by auto
  moreover have "m - 1 < length (L w)" using wl(1) m0 by (simp add: has_prefix_def)
  ultimately have tw: "t \<le> w" using leader_log_terms [OF logs, of "m - 1" w] m0(2) by simp
  show ?thesis
  proof (cases "w = u")
    case True
    then have len: "length lw \<le> length lc" using utd by (simp add: up_to_date_def u_def w_def)
    have "has_prefix lc (L u) m" using has_prefix_le [OF cl(1)] len m0(3) by simp
    moreover have "has_prefix lw (L u) m" using has_prefix_le [OF wl(1) m0(3)] True by simp
    ultimately show ?thesis using has_prefix_trans has_prefix_sym p by blast
  next
    case False
    then have "t < u" using utd tw by (auto simp: up_to_date_def u_def w_def)
    then have lu: "has_prefix (L u) (L t) m" using later by (simp add: u_def)
    have "m \<le> length lc"
    proof (rule ccontr)
      assume "\<not> m \<le> length lc"
      then have i: "length lc - 1 < m" by simp
      have "last lc = L t ! (length lc - 1)" using cl(2) has_prefix_nth [OF lu i] by simp
      moreover have "length lc - 1 < length (L t)" using i lu by (simp add: has_prefix_def)
      ultimately have "u \<le> t" using leader_log_terms [OF logs] by (simp add: u_def)
      then show False using \<open>t < u\<close> by simp
    qed
    then show ?thesis using has_prefix_trans [OF has_prefix_le [OF cl(1)] lu] by blast
  qed
qed

lemma own_term_nonneg: "logs_ok L Lead \<Longrightarrow> own_term L t m \<Longrightarrow> 0 \<le> t"
  unfolding logs_ok_def own_term_def by (metis list.size(3) not_le)

lemma elected_prefix:
  assumes inv: "raft_inv n V K L Lead A W s" and c: "c < n" and cand: "state (peer s c) = Candidate"
    and t': "t' = currentTerm (peer s c)" and maj: "majority {..<n} (voters n V c t')" and empty: "L t' = []"
    and t: "t < t'" and ch: "choosable n L A s t m"
  shows "has_prefix (log (peer s c)) (L t) m"
proof -
  note own = raft_own [OF inv]
  obtain Q where Q: "majority {..<n} Q" "\<forall>v \<in> Q. m \<le> A v t \<or> currentTerm (peer s v) \<le> t" and ot: "own_term L t m"
    using ch by (auto simp: choosable_def)
  obtain v where vQ: "v \<in> Q" and vv: "v \<in> voters n V c t'" using majority_meet [OF Q(1) maj] by blast
  then have v: "v < n" "V v t' = Some (int c)" by (auto simp: voters_def)
  have "t' \<le> currentTerm (peer s v)" using own(12) [OF v(1)] v(2) unfolding voter_ok_def by (metis not_le option.distinct(1))
  then have mA: "m \<le> A v t" using Q(2) vQ t by force
  show ?thesis
  proof (cases "v = c")
    case True
    then show ?thesis using own(4) [OF v(1)] mA ch unfolding acked_ok_def by blast
  next
    case False
    have w: "log_ok L (W v t')" "has_prefix (W v t') (L t) m" "up_to_date (log (peer s c)) (W v t')"
      using own(5) [OF v(1)] v(2) c t mA ch False cand t' unfolding vote_ok_def by blast+
    have pm: "log_ok L (log (peer s c))" "\<forall>e \<in> set (log (peer s c)). Term e \<le> t'"
      using own(9) [OF c] t' by (auto simp: peer_match_def)
    show ?thesis
    proof (rule up_to_date_prefix [OF own(13) pm(1) w(1,3,2) ot])
      fix u assume u: "t < u" "u = Term (last (log (peer s c)))"
      have "log (peer s c) \<noteq> []" using pm(1) by (simp add: log_ok_def)
      then have ne: "L u \<noteq> []" "u \<le> t'" using log_last(1) [OF pm(1)] pm(2) u(2) by (auto simp: has_prefix_def)
      moreover have "u \<noteq> 0" using own_term_nonneg [OF own(13) ot] u(1) by simp
      ultimately show "has_prefix (L u) (L t) m"
        using own(3) ch u(1) leader_of_log [OF own(13)] empty unfolding complete_ok_def by blast
    qed
  qed
qed

lemma raft_elected:
  assumes inv: "raft_inv n V K L Lead A W s" and inv': "election_inv n V' K' s'" and cs: "casts V V' s'" and c: "c < n"
    and peer: "peer s' = (peer s)(c := rf')" and net: "set (net s') \<subseteq> set (net s)"
    and rf': "state (peer s c) = Candidate" "state rf' = Leader" "log rf' = log (peer s c)"
      "lastIncludedIndex rf' = lastIncludedIndex (peer s c)" "currentTerm rf' = currentTerm (peer s c)"
      "votedFor rf' = votedFor (peer s c)" "commitIndex rf' = commitIndex (peer s c)" "matchIndex rf' = replicate n 0"
  shows "\<exists>L' Lead' A' W'. raft_inv n V' K' L' Lead' A' W' s' \<and> acks_move L A s L' A' s'"
proof -
  note own = raft_own [OF inv]
  define t' where "t' = currentTerm rf'"
  note el = match_elected [OF own(2) casts_extends [OF cs] inv' c peer net rf'(1-5), folded t'_def]
  let ?L = "L(t' := log rf')" and ?Lead = "Lead(t' \<mapsto> c)" and ?A = "A(c := (A c)(t' := length (log rf')))"
  have zero: "A c t' = 0" using own(4) [OF c] el unfolding acked_ok_def by (metis le_zero_eq list.size(3))
  have mv: "acks_move L A s ?L ?A s'" using el zero peer rf'(5) by (auto simp: acks_move_def t'_def)
  have novote: "V' v t \<noteq> Some x" if "v < n" "V v t = None" for v t x
  proof
    assume "V' v t = Some x"
    from new_vote(4) [OF cs own(12) [OF that(1)] inv_own(2) [OF inv' that(1)] that(2) this] peer rf'(5,6)
    show False by (cases "v = c") auto
  qed
  have "voters n V' c t' \<subseteq> voters n V c t'"
  proof
    fix v assume "v \<in> voters n V' c t'"
    then have v: "v < n" "V' v t' = Some (int c)" by (auto simp: voters_def)
    then have "V v t' \<noteq> None" using novote by blast
    moreover have "V' v t' = V v t' \<or> V v t' = None" using cs [unfolded casts_def, rule_format, of v t'] by argo
    ultimately show "v \<in> voters n V c t'" using v by (auto simp: voters_def)
  qed
  moreover have "majority {..<n} (voters n V' c t')"
    using inv_own(3) [OF inv' c] peer rf'(2) by (simp add: candidate_ok_def t'_def)
  ultimately have maj: "majority {..<n} (voters n V c t')"
    using voters_mono [OF casts_extends [OF cs], of n c t'] by (simp add: subset_antisym)
  have prefix: "has_prefix (log rf') (L t) m" if "t < t'" "choosable n L A s t m" for t m
    using elected_prefix [OF inv c rf'(1) _ maj _ that] el rf'(3,5) by (simp add: t'_def)
  have "acked_ok n ?L ?A s' c"
  proof (rule acked_grow [OF own(4) [OF c] mv refl])
    show "has_prefix (log (peer s' c)) (L t) m" if "m \<le> A c t" "choosable n L A s t m" for t m
      using own(4) [OF c] that peer rf'(3) unfolding acked_ok_def by auto
  qed (use peer t'_def in auto)
  moreover have "committed n ?L ?A t' (log rf') (commitIndex rf')"
    by (rule committed_mono [OF _ mv, of n "currentTerm rf'" "log rf'"])
       (use own(7) [OF c] rf' in \<open>auto simp: t'_def has_prefix_def\<close>)
  moreover have "candidates_stay s s'" using peer rf'(2) by (auto simp: candidates_stay_def)
  ultimately have "raft_inv n V' K' ?L ?Lead ?A (next_votes V V' s' W) s'"
    using el net prefix novote peer rf'(8)
    by (intro raft_step [OF inv inv' _ mv cs, where i = c])
       (auto simp: leader_ok_def t'_def split: if_splits)
  then show ?thesis using mv by blast
qed

lemma raft_vote_reply:
  assumes inv: "raft_inv n V K L Lead A W s" and inv': "election_inv n V' K' s'" and cs: "casts V V' s'" and c: "c < n"
    and peer: "peer s' = (peer s)(c := voteReply args reply (peer s c))" and net: "set (net s') \<subseteq> set (net s)"
  shows "\<exists>L' Lead' A' W'. raft_inv n V' K' L' Lead' A' W' s' \<and> acks_move L A s L' A' s'"
proof -
  let ?rf = "peer s c" and ?rf' = "voteReply args reply (peer s c)"
  have f: "log ?rf' = log ?rf" "lastIncludedIndex ?rf' = lastIncludedIndex ?rf" "commitIndex ?rf' = commitIndex ?rf"
    by (auto simp: voteReply_def initializeLeaderState_def Let_def)
  show ?thesis
  proof (cases "state ?rf' = Leader \<and> state ?rf = Candidate")
    case True
    then have "currentTerm ?rf' = currentTerm ?rf" "votedFor ?rf' = votedFor ?rf" "matchIndex ?rf' = replicate n 0"
      using raft_own(11) [OF inv c]
      by (auto simp: voteReply_def initializeLeaderState_def Let_def peer_ok_def map_replicate_const split: if_splits)
    then show ?thesis using raft_elected [OF inv inv' cs c peer net] True f by blast
  next
    case False
    then have "abstains ?rf ?rf'" "matchIndex ?rf' = matchIndex ?rf"
      by (auto simp: voteReply_def initializeLeaderState_def Let_def abstains_def follows_def split: if_splits)
    then show ?thesis using raft_calm [OF inv inv' cs peer] net f by blast
  qed
qed

section \<open>Replication\<close>

text \<open>A leader's log has every prefix chosen in its term or before.\<close>

lemma leader_has:
  assumes inv: "raft_inv n V K L Lead A W s" and ch: "choosable n L A s t m" and "t \<le> u" and "L u \<noteq> []"
  shows "has_prefix (L u) (L t) m"
proof (cases "t = u")
  case True
  then show ?thesis using ch by (simp add: choosable_def own_term_def)
next
  case False
  have "u \<noteq> 0" using own_term_nonneg [OF raft_own(13) [OF inv]] ch assms(3) False by (force simp: choosable_def)
  then show ?thesis
    using raft_own(3) [OF inv] ch False assms(3,4) leader_of_log [OF raft_own(13) [OF inv]] unfolding complete_ok_def
    by (metis le_less)
qed

text \<open>An append keeps every choosable prefix that the follower has.\<close>

lemma append_keeps:
  assumes inv: "raft_inv n V K L Lead A W s" and v: "v < n" and a: "append_ok L a"
    and e: "AppendEntries tk a (peer s v) = Inr (rf', reply)"
    and ch: "choosable n L A s t m" and t: "t \<le> currentTerm (peer s v)" and k: "k \<le> m" "has_prefix (log (peer s v)) (L t) k"
  shows "has_prefix (log rf') (L t) k"
proof -
  have pm: "log_ok L (log (peer s v))" "lastIncludedIndex (peer s v) = 0"
    using raft_own(9) [OF inv v] by (auto simp: peer_match_def)
  note eff = append_effect [OF raft_own(13) [OF inv] pm a e refl]
  show ?thesis
  proof (cases "log rf' = log (peer s v)")
    case False
    let ?u = "AETerm a"
    have "currentTerm rf' = ?u" and "log rf' = take q (L ?u) \<Longrightarrow> L ?u \<noteq> []" for q
      using eff(2,4) False by (auto simp: log_ok_def)
    moreover have "currentTerm (peer s v) \<le> currentTerm rf'" using settles_AppendEntries [OF e] by (auto simp: settles_def)
    ultimately have "has_prefix (L ?u) (L t) m" using leader_has [OF inv ch] t eff(4) False by force
    then have u: "has_prefix (L ?u) (L t) k" by (rule has_prefix_le [OF _ k(1)])
    then have "has_prefix (log (peer s v)) (L ?u) k" using k(2) has_prefix_trans has_prefix_sym by blast
    then have "has_prefix (log rf') (L ?u) k" using eff(6) [of k] by (simp add: has_prefix_def)
    then show ?thesis using u has_prefix_trans by blast
  qed (use k in simp)
qed

lemma committed_le:
  assumes "committed n L A T lg k" and "j \<le> k"
  shows "committed n L A T lg j"
proof (cases "j \<le> 0")
  case False
  then obtain t m where tm: "t \<le> T" "chosen n L A t m" "k < int m" "has_prefix lg (L t) (nat k + 1)"
    using assms by (auto simp: committed_def)
  have "has_prefix lg (L t) (nat j + 1)" by (rule has_prefix_le [OF tm(4)]) (use assms(2) in simp)
  then show ?thesis using tm assms(2) unfolding committed_def by (meson le_less_trans)
qed (simp add: committed_def)

lemma committed_log:
  "committed n L A T lg k \<Longrightarrow> has_prefix lg' lg (nat k + 1) \<Longrightarrow> committed n L A T lg' k"
  unfolding committed_def using has_prefix_trans by blast

lemma committed_move:
  "committed n L A T lg k \<Longrightarrow> acks_move L A s L' A' s' \<Longrightarrow> T \<le> T' \<Longrightarrow> committed n L' A' T' lg k"
  by (erule (2) committed_mono) (simp add: has_prefix_def)

lemma leader_ok_mono: "leader_ok n A i rf \<Longrightarrow> (\<And>v t. A v t \<le> A' v t) \<Longrightarrow> leader_ok n A' i rf"
  unfolding leader_ok_def by (metis (no_types, lifting) less_le_trans of_nat_le_iff)

definition acknowledge :: "nat \<Rightarrow> int \<Rightarrow> nat \<Rightarrow> acks \<Rightarrow> acks" where
  "acknowledge v t q A = A(v := (A v)(t := max (A v t) q))"

text \<open>What a follower has acknowledged and what it takes for committed, after an append.\<close>

lemma append_acked:
  assumes inv: "raft_inv n V K L Lead A W s" and v: "v < n" and a: "append_ok L a"
    and e: "AppendEntries tk a (peer s v) = Inr (rf', reply)" and peer: "peer s' = (peer s)(v := rf')"
    and mv: "acks_move L A s L A' s'" and q: "q = nat (PrevLogIndex a) + 1 + length (Entries a)"
    and A': "A' = (if Success reply then acknowledge v (AETerm a) q A else A)"
    and acc: "Success reply \<longrightarrow> state rf' = Follower \<and> currentTerm rf' = AETerm a"
  shows "acked_ok n L A' s' v"
proof (rule acked_grow [OF _ mv refl])
  show ok: "acked_ok n L A s v" by (rule raft_own(4) [OF inv v])
  have pm: "log_ok L (log (peer s v))" "lastIncludedIndex (peer s v) = 0"
    using raft_own(9) [OF inv v] by (auto simp: peer_match_def)
  note eff = append_effect [OF raft_own(13) [OF inv] pm a e q]
  show "A' v (currentTerm (peer s' v)) = A v (currentTerm (peer s' v)) \<or>
      has_prefix (log (peer s' v)) (L (currentTerm (peer s' v))) (A' v (currentTerm (peer s' v)))"
    using eff(5) acc peer by (auto simp: A' acknowledge_def has_prefix_def max_def)
  show "state (peer s' v) = Leader \<longrightarrow> A' v (currentTerm (peer s' v)) = length (log (peer s' v))"
    using ok eff(3) acc peer by (auto simp: A' acked_ok_def)
  fix t m assume m: "m \<le> A v t" "choosable n L A s t m"
  then have "has_prefix (log (peer s v)) (L t) m" "0 < m" using ok by (auto simp: acked_ok_def choosable_def own_term_def)
  moreover from this have "t \<le> currentTerm (peer s v)" using ok m(1) by (force simp: acked_ok_def)
  ultimately show "has_prefix (log (peer s' v)) (L t) m" using append_keeps [OF inv v a e m(2)] peer by simp
qed

lemma append_committed:
  assumes inv: "raft_inv n V K L Lead A W s" and v: "v < n" and a: "append_ok L a"
    and e: "AppendEntries tk a (peer s v) = Inr (rf', reply)" and mv: "acks_move L A s L A' s'"
    and ps: "committed n L A (AETerm a) (L (AETerm a)) (LeaderCommit a)"
      "LeaderCommit a \<le> PrevLogIndex a + int (length (Entries a))"
    and acc: "commitIndex rf' = commitIndex (peer s v) \<or>
      Success reply \<and> commitIndex rf' \<le> LeaderCommit a \<and> currentTerm rf' = AETerm a"
  shows "committed n L A' (currentTerm rf') (log rf') (commitIndex rf')"
proof (cases "commitIndex rf' = commitIndex (peer s v)")
  case True
  have T: "currentTerm (peer s v) \<le> currentTerm rf'" using settles_AppendEntries [OF e] by (auto simp: settles_def)
  have "has_prefix (log rf') (log (peer s v)) (nat (commitIndex (peer s v)) + 1)"
    if c: "chosen n L A t m" "t \<le> currentTerm (peer s v)" "has_prefix (log (peer s v)) (L t) (nat (commitIndex (peer s v)) + 1)"
      "commitIndex (peer s v) < int m" "\<not> commitIndex (peer s v) \<le> 0" for t m
  proof -
    have "nat (commitIndex (peer s v)) + 1 \<le> m" using c(4,5) by linarith
    from append_keeps [OF inv v a e chosen_choosable [OF c(1)] c(2) this c(3)]
    show ?thesis using has_prefix_trans [OF _ has_prefix_sym [OF c(3)]] by blast
  qed
  then show ?thesis using committed_mono [OF raft_own(7) [OF inv v] mv T] True
    by (cases "commitIndex (peer s v) \<le> 0") (auto simp: committed_def)
next
  case False
  then have s: "Success reply" "commitIndex rf' \<le> LeaderCommit a" "currentTerm rf' = AETerm a" using acc by auto
  have pm: "log_ok L (log (peer s v))" "lastIncludedIndex (peer s v) = 0"
    using raft_own(9) [OF inv v] by (auto simp: peer_match_def)
  define q where "q = nat (PrevLogIndex a) + 1 + length (Entries a)"
  have "has_prefix (log rf') (L (AETerm a)) q"
    using append_effect(5) [OF raft_own(13) [OF inv] pm a e q_def s(1)] by (simp add: has_prefix_def)
  moreover have "nat (commitIndex rf') + 1 \<le> q" using s(2) ps(2) a by (auto simp: q_def append_ok_def)
  ultimately have "has_prefix (log rf') (L (AETerm a)) (nat (commitIndex rf') + 1)" by (rule has_prefix_le)
  then have "committed n L A (AETerm a) (log rf') (commitIndex rf')" by (rule committed_log [OF committed_le [OF ps(1) s(2)]])
  then show ?thesis using committed_move [OF _ mv] s(3) by simp
qed

lemma raft_append:
  assumes inv: "raft_inv n V K L Lead A W s" and inv': "election_inv n V' K' s'" and cs: "casts V V' s'"
    and p: "p \<in> set (net s)" "payload p = AppendCall a" and v: "v = callee p"
    and e: "AppendEntries tk a (peer s v) = Inr (rf', reply)" and peer: "peer s' = (peer s)(v := rf')"
    and net: "\<And>q. q \<in> set (net s') \<Longrightarrow> q \<in> set (net s) \<or> q = p\<lparr>payload := AppendReturn a reply\<rparr>"
  shows "\<exists>A' W'. raft_inv n V' K' L Lead A' W' s' \<and> acks_move L A s L A' s'"
proof -
  note own = raft_own [OF inv]
  have vn: "v < n" using own(1) p v by (auto simp: election_inv_def packet_ok_def)
  have a: "append_ok L a" using own(10) [OF p(1)] p(2) by (simp add: packet_match_def)
  have pm: "log_ok L (log (peer s v))" "lastIncludedIndex (peer s v) = 0" using own(9) [OF vn] by (auto simp: peer_match_def)
  define q where "q = nat (PrevLogIndex a) + 1 + length (Entries a)"
  define A' where "A' = (if Success reply then acknowledge v (AETerm a) q A else A)"
  note eff = append_effect [OF own(13) pm a e q_def]
  have acc: "Success reply \<longrightarrow> state rf' = Follower \<and> currentTerm rf' = AETerm a" "commitIndex rf' = commitIndex (peer s v) \<or>
      Success reply \<and> commitIndex rf' \<le> LeaderCommit a \<and> currentTerm rf' = AETerm a"
    by (cases rule: append_accepted [OF own(13) pm a e], auto)+
  note st = settles_AppendEntries [OF e]
  have T: "currentTerm (peer s v) \<le> currentTerm rf'" using st by (auto simp: settles_def)
  have ab: "abstains (peer s v) rf'" using st eff(1,3) pm(2) by (intro abstains_settles) auto
  then have fol: "follows (peer s v) rf'" by (simp add: abstains_def)
  have le: "A w t \<le> A' w t" and other: "w \<noteq> v \<Longrightarrow> A' w = A w" for w t by (simp_all add: A'_def acknowledge_def)
  have mv: "acks_move L A s L A' s'"
    using le T peer acc by (auto simp: acks_move_def A'_def acknowledge_def split: if_splits)
  have terms: "\<forall>x \<in> set (log rf'). Term x \<le> currentTerm rf'"
  proof
    fix x assume x: "x \<in> set (log rf')"
    have old: "y \<in> set (log (peer s v)) \<Longrightarrow> Term y \<le> currentTerm (peer s v)" for y using own(9) [OF vn] by (simp add: peer_match_def)
    have led: "y \<in> set (take m (L (AETerm a))) \<Longrightarrow> Term y \<le> AETerm a" for y m
      using own(13) by (auto simp: logs_ok_def dest: in_set_takeD)
    from eff(4) show "Term x \<le> currentTerm rf'"
    proof
      assume "log rf' = log (peer s v)"
      then show ?thesis using old [of x] x T by simp
    qed (use x led in auto)
  qed
  have ret: "packet_safe n L A' s' (p\<lparr>payload := AppendReturn a reply\<rparr>)"
    using a v by (auto simp: packet_safe_def A'_def acknowledge_def q_def append_ok_def)
  have M: "match_inv n V' L Lead s'"
  proof (rule match_keep [OF own(2) casts_extends [OF cs] peer fol])
    have "packet_match L (p\<lparr>payload := AppendReturn a reply\<rparr>)" by (simp add: packet_match_def)
    then show "packet_match L q" if "q \<in> set (net s')" for q using net [OF that] own(10) by blast
  qed (use eff(2) terms in blast)
  have cd: "candidates_stay s s'" using eff(3) peer by (auto simp: candidates_stay_def)
  have "leader_ok n A' v rf'"
    by (rule leader_ok_mono [OF _ le]) (use own(6) [OF vn] eff(3) in \<open>auto simp: leader_ok_def\<close>)
  moreover have "committed n L A' (currentTerm rf') (log rf') (commitIndex rf')"
    by (rule append_committed [OF inv vn a e mv _ _ acc(2)]) (use own(8) [OF p(1)] p(2) in \<open>auto simp: packet_safe_def\<close>)
  ultimately have mine: "acked_ok n L A' s' v \<and> leader_ok n A' v (peer s' v) \<and>
      committed n L A' (currentTerm (peer s' v)) (log (peer s' v)) (commitIndex (peer s' v))"
    using append_acked [OF inv vn a e peer mv q_def A'_def acc(1)] peer by simp
  have "raft_inv n V' K' L Lead A' (next_votes V V' s' W) s'"
  proof (rule raft_step [OF inv inv' M mv cs cd, where i = v])
    show "peer s' j = peer s j \<and> A' j = A j" if "j \<noteq> v" for j using that peer other by simp
    show "p \<in> set (net s) \<or> packet_safe n L A' s' p" if "p \<in> set (net s')" for p using net [OF that] ret by blast
  qed (use mine abstains_votes [OF inv inv' cs peer ab] in blast)+
  then show ?thesis using mv by blast
qed

text \<open>What a leader's commit rule accepts is chosen.\<close>

lemma committable_chosen:
  assumes ld: "leader_ok n A i rf" "state rf = Leader" and me: "me rf = int i" "npeers rf = n" "lastIncludedIndex rf = 0"
    and L: "L (currentTerm rf) = log rf" "A i (currentTerm rf) = length (log rf)"
    and c: "committable rf c" "0 < c" "c \<le> getLastLogIndex rf"
  shows "chosen n L A (currentTerm rf) (nat c + 1)"
proof -
  have len: "nat c < length (log rf)" using c(2,3) me(3) by (simp add: getLastLogIndex_def)
  have "getLogTerm rf c = currentTerm rf" "n div 2 < card (holders rf c)" using c(1) me(2) by (auto simp: committable_def)
  then have "own_term L (currentTerm rf) (nat c + 1)"
    using len me(3) c(2) L(1) by (auto simp: own_term_def getLogTerm_def toArrayIndex_def Let_def split: if_splits)
  moreover have "majority {..<n} (holders rf c)"
    using \<open>n div 2 < card (holders rf c)\<close> me(2) by (auto simp: majority_def holders_def)
  moreover have "nat c + 1 \<le> A v (currentTerm rf)" if v: "v \<in> holders rf c" for v
  proof (cases "v = i")
    case True
    then show ?thesis using L(2) len by simp
  next
    case False
    then have "c \<le> matchIndex rf ! v" "v < n" using v me by (auto simp: holders_def)
    then show ?thesis using ld False c(2) unfolding leader_ok_def by force
  qed
  ultimately show ?thesis unfolding chosen_def by blast
qed

lemma try_commit_committed:
  assumes ld: "leader_ok n A i rf" "state rf = Leader" and me: "me rf = int i" "npeers rf = n" "lastIncludedIndex rf = 0" "i < n"
    and L: "L (currentTerm rf) = log rf" "A i (currentTerm rf) = length (log rf)"
    and e: "tryCommit rf = Inr rf'"
  shows "\<exists>c. rf' = rf\<lparr>commitIndex := c\<rparr> \<and> (c = commitIndex rf \<or> committed n L A (currentTerm rf) (log rf) c)"
proof -
  let ?fs = "filter (committable rf) [commitIndex rf + 1..getLastLogIndex rf]"
  define c where "c = (if ?fs = [] then commitIndex rf else last ?fs)"
  have rf': "rf' = rf\<lparr>commitIndex := c\<rparr>"
    using commit_scan_spec [of rf i "[commitIndex rf + 1..getLastLogIndex rf]"] e ld me
    by (simp add: tryCommit_def leader_ok_def c_def)
  have "committed n L A (currentTerm rf) (log rf) c" if "c \<noteq> commitIndex rf" "0 < c"
  proof -
    have "c \<in> set ?fs" using that(1) last_in_set [of ?fs] by (auto simp: c_def split: if_splits)
    then have c: "committable rf c" "c \<le> getLastLogIndex rf" by auto
    then have "nat c + 1 \<le> length (log rf)" using me(3) that(2) by (simp add: getLastLogIndex_def)
    then have "has_prefix (log rf) (L (currentTerm rf)) (nat c + 1)" using L(1) by (simp add: has_prefix_def)
    moreover have "c < int (nat c + 1)" using that(2) by simp
    moreover have "chosen n L A (currentTerm rf) (nat c + 1)"
      by (rule committable_chosen [OF ld me(1-3)]) (use L c that(2) in auto)
    ultimately show ?thesis unfolding committed_def by blast
  qed
  then show ?thesis using rf' by (cases "0 < c") (auto simp: committed_def)
qed

lemma leader_ok_set:
  assumes "leader_ok n A i rf" and "x \<le> 0 \<or> x < int (A j (currentTerm rf))"
  shows "leader_ok n A i (rf\<lparr>nextIndex := ni, matchIndex := (matchIndex rf)[j := x]\<rparr>)"
  unfolding leader_ok_def
proof (intro impI conjI allI)
  assume "state (rf\<lparr>nextIndex := ni, matchIndex := (matchIndex rf)[j := x]\<rparr>) = Leader"
  then have old: "length (matchIndex rf) = n" "k < n \<Longrightarrow> k \<noteq> i \<Longrightarrow>
      matchIndex rf ! k \<le> 0 \<or> matchIndex rf ! k < int (A k (currentTerm rf))" for k
    using assms(1) by (simp_all add: leader_ok_def)
  then show "length (matchIndex (rf\<lparr>nextIndex := ni, matchIndex := (matchIndex rf)[j := x]\<rparr>)) = n" by simp
  fix k assume "k < n" "k \<noteq> i"
  then show "matchIndex (rf\<lparr>nextIndex := ni, matchIndex := (matchIndex rf)[j := x]\<rparr>) ! k \<le> 0 \<or>
      matchIndex (rf\<lparr>nextIndex := ni, matchIndex := (matchIndex rf)[j := x]\<rparr>) ! k
        < int (A k (currentTerm (rf\<lparr>nextIndex := ni, matchIndex := (matchIndex rf)[j := x]\<rparr>)))"
    using old assms(2) by (cases "k = j") simp_all
qed

lemma raft_append_reply:
  assumes inv: "raft_inv n V K L Lead A W s" and inv': "election_inv n V' K' s'" and cs: "casts V V' s'"
    and p: "p \<in> set (net s)" "payload p = AppendReturn a reply" and i: "i < n" and j: "j = callee p"
    and e: "handleAppendEntriesReply tk j a reply (peer s i) = Inr rf'" and peer: "peer s' = (peer s)(i := rf')"
    and net: "set (net s') \<subseteq> set (net s)"
  shows "\<exists>W'. raft_inv n V' K' L Lead A W' s' \<and> acks_move L A s L A s'"
proof -
  note own = raft_own [OF inv]
  let ?rf = "peer s i"
  have pm: "lastIncludedIndex ?rf = 0" "state ?rf = Leader \<Longrightarrow> L (currentTerm ?rf) = log ?rf"
    using own(9) [OF i] by (auto simp: peer_match_def)
  have me: "me ?rf = int i" "npeers ?rf = n" using own(11) [OF i] by (auto simp: peer_ok_def)
  have "abstains ?rf rf' \<and> log rf' = log ?rf \<and> (matchIndex rf' = matchIndex ?rf \<or> leader_ok n A i rf') \<and>
      (commitIndex rf' = commitIndex ?rf \<or> committed n L A (currentTerm rf') (log rf') (commitIndex rf'))"
  proof (cases "state ?rf = Leader \<and> currentTerm ?rf = AETerm a \<and> \<not> AERTerm reply > currentTerm ?rf \<and> Success reply")
    case False
    then show ?thesis using e settles_handleAppendEntriesReply [OF e]
      by (auto simp: handleAppendEntriesReply_def go_map_eq_Inr intro!: abstains_settles split: if_splits)
  next
    case True
    define x where "x = PrevLogIndex a + int (length (Entries a))"
    obtain ni mi where mi: "go_set (matchIndex ?rf) (int j) x = Inr mi"
      and c: "tryCommit (?rf\<lparr>nextIndex := ni, matchIndex := mi\<rparr>) = Inr rf'"
      using e True by (auto simp: handleAppendEntriesReply_def go_bind_eq_Inr x_def)
    let ?rf1 = "?rf\<lparr>nextIndex := ni, matchIndex := mi\<rparr>"
    have ack: "x < int (A j (currentTerm ?rf))" using own(8) [OF p(1)] p(2) True j by (simp add: packet_safe_def x_def)
    have mi': "mi = (matchIndex ?rf)[j := x]" using mi by (auto simp: go_set_def split: if_splits)
    have ld: "leader_ok n A i ?rf1" unfolding mi' by (rule leader_ok_set [OF own(6) [OF i]]) (use ack in simp)
    have "A i (currentTerm ?rf) = length (log ?rf)" using own(4) [OF i] True by (simp add: acked_ok_def)
    then obtain k where k: "rf' = ?rf1\<lparr>commitIndex := k\<rparr>" "k = commitIndex ?rf \<or> committed n L A (currentTerm ?rf) (log ?rf) k"
      using try_commit_committed [OF ld _ _ _ _ i _ _ c, of L] True me pm by auto
    then show ?thesis using ld by (auto simp: abstains_def follows_def leader_ok_def)
  qed
  then show ?thesis using raft_calm [OF inv inv' cs peer] net by blast
qed

lemma raft_snapshot_reply:
  assumes inv: "raft_inv n V K L Lead A W s" and inv': "election_inv n V' K' s'" and cs: "casts V V' s'"
    and p: "p \<in> set (net s)" "payload p = SnapReturn a t" and i: "i < n"
    and e: "snapshotReply tk j a t (peer s i) = Inr rf'" and peer: "peer s' = (peer s)(i := rf')"
    and net: "set (net s') \<subseteq> set (net s)"
  shows "\<exists>W'. raft_inv n V' K' L Lead A W' s' \<and> acks_move L A s L A s'"
proof -
  let ?rf = "peer s i"
  have zero: "ISLastIncludedIndex a = 0" using raft_own(10) [OF inv p(1)] p(2) by (simp add: packet_match_def)
  have "abstains ?rf rf'" using e settles_snapshotReply [OF e]
    by (intro abstains_settles) (auto simp: snapshotReply_def go_bind_eq_Inr go_map_eq_Inr split: if_splits)
  moreover have "log rf' = log ?rf" "commitIndex rf' = commitIndex ?rf"
    using e by (auto simp: snapshotReply_def go_bind_eq_Inr go_map_eq_Inr split: if_splits)
  moreover have "leader_ok n A i rf'"
    using e leader_ok_set [OF raft_own(6) [OF inv i], of 0] zero raft_own(6) [OF inv i]
    by (auto simp: snapshotReply_def go_bind_eq_Inr go_map_eq_Inr go_set_def split: if_splits) (simp add: leader_ok_def)
  ultimately show ?thesis using raft_calm [OF inv inv' cs peer] net by blast
qed

section \<open>Clients, snapshots and restarts\<close>

lemma raft_start:
  assumes inv: "raft_inv n V K L Lead A W s" and inv': "election_inv n V' K' s'" and cs: "casts V V' s'" and i: "i < n"
    and s': "s' = put_peer i (fst (Start c (peer s i))) s"
  shows "\<exists>L' Lead' A' W'. raft_inv n V' K' L' Lead' A' W' s' \<and> acks_move L A s L' A' s'"
proof (cases "state (peer s i) = Leader")
  case False
  then have "s' = s" using s' by (simp add: Start_def put_peer_def)
  then show ?thesis using raft_network [OF inv inv' cs] by auto
next
  case True
  note own = raft_own [OF inv]
  define rf' t where "rf' = fst (Start c (peer s i))" and "t = currentTerm (peer s i)"
  define L' A' where "L' = L(t := log rf')" and "A' = A(i := (A i)(t := length (log rf')))"
  note st = match_started [OF own(2) i True t_def rf'_def, folded L'_def]
  have peer: "peer s' = (peer s)(i := rf')" and net: "net s' = net s" by (simp_all add: s' rf'_def)
  have f: "state rf' = Leader" "currentTerm rf' = t" "votedFor rf' = votedFor (peer s i)"
    "commitIndex rf' = commitIndex (peer s i)" "matchIndex rf' = matchIndex (peer s i)"
    using True by (simp_all add: rf'_def t_def Start_def Let_def)
  obtain x where x: "log rf' = log (peer s i) @ [x]" using st by metis
  have pre: "has_prefix (log (peer s i)) M m \<Longrightarrow> has_prefix (log rf') M m" for M m
    using has_prefix_grow [of "log (peer s i)" M m "[x]" "[]"] x by simp
  have "A i t = length (log (peer s i))" using own(4) [OF i] True by (simp add: acked_ok_def t_def)
  then have le: "A v u \<le> A' v u" for v u by (simp add: A'_def x)
  have "A' v u \<noteq> A v u \<Longrightarrow> u = currentTerm (peer s' v)" for v u using peer f(2) by (auto simp: A'_def split: if_splits)
  then have mv: "acks_move L A s L' A' s'" using le st peer f(2) unfolding acks_move_def by (auto simp: t_def)
  have M: "match_inv n V' L' (Lead(t \<mapsto> i)) s'"
    by (rule match_votes [OF _ casts_extends [OF cs], of n L']) (use st in \<open>simp add: s' rf'_def\<close>)
  have novote: "V' v u \<noteq> Some y" if "v < n" "V v u = None" for v u y
  proof
    assume "V' v u = Some y"
    from new_vote(4) [OF cs own(12) [OF that(1)] inv_own(2) [OF inv' that(1)] that(2) this] peer f(2,3)
    show False by (cases "v = i") (auto simp: t_def)
  qed
  have "acked_ok n L' A' s' i"
  proof (rule acked_grow [OF own(4) [OF i] mv refl])
    show "has_prefix (log (peer s' i)) (L u) m" if "m \<le> A i u" "choosable n L A s u m" for u m
      using own(4) [OF i] that peer pre unfolding acked_ok_def by auto
  qed (use peer f in \<open>auto simp: A'_def L'_def\<close>)
  moreover have "committed n L' A' t (log rf') (commitIndex rf')"
    using committed_move [OF own(7) [OF i] mv] f(4) pre by (metis committed_def t_def order_refl)
  moreover have "leader_ok n A' i rf'"
    by (rule leader_ok_mono [OF _ le]) (use own(6) [OF i] f True in \<open>auto simp: leader_ok_def t_def\<close>)
  ultimately have mine: "acked_ok n L' A' s' i \<and> leader_ok n A' i (peer s' i) \<and>
      committed n L' A' (currentTerm (peer s' i)) (log (peer s' i)) (commitIndex (peer s' i))" using peer f(2) by simp
  have "raft_inv n V' K' L' (Lead(t \<mapsto> i)) A' (next_votes V V' s' W) s'"
  proof (rule raft_step [OF inv inv' M mv cs, where i = i])
    show "candidates_stay s s'" using peer f(1) by (auto simp: candidates_stay_def)
    show "peer s' j = peer s j \<and> A' j = A j" if "j \<noteq> i" for j using that peer by (simp add: A'_def)
    show "has_prefix (L' t') (L u) m" if "(Lead(t \<mapsto> i)) t' \<noteq> None" "Lead t' = None" for u t' m
      using that st by (auto split: if_splits)
  qed (use mine novote net in auto)
  then show ?thesis using mv by blast
qed

lemma raft_send:
  assumes inv: "raft_inv n V K L Lead A W s" and inv': "election_inv n V' K' s'" and cs: "casts V V' s'" and i: "i < n"
    and e: "sendToFollower j (peer s i) = Inr (Some r)" and s': "s' = transmit [request s i (call_of r) j] s"
  shows "\<exists>W'. raft_inv n V' K' L Lead A W' s' \<and> acks_move L A s L A s'"
proof -
  note own = raft_own [OF inv]
  have ld: "state (peer s i) = Leader" using e by (auto simp: sendToFollower_def split: if_splits)
  have pm: "lastIncludedIndex (peer s i) = 0" "log (peer s i) \<noteq> []" "L (currentTerm (peer s i)) = log (peer s i)"
    using own(9) [OF i] ld by (auto simp: peer_match_def log_ok_def)
  have com: "committed n L A (currentTerm (peer s i)) (log (peer s i)) (commitIndex (peer s i))" by (rule own(7) [OF i])
  have ci: "commitIndex (peer s i) \<le> getLastLogIndex (peer s i)"
  proof (cases "commitIndex (peer s i) \<le> 0")
    case True
    moreover have "1 \<le> int (length (log (peer s i)))" using pm(2) Suc_le_eq [of 0 "length (log (peer s i))"] by auto
    ultimately show ?thesis using pm(1) by (simp add: getLastLogIndex_def)
  next
    case False
    then obtain t where "has_prefix (log (peer s i)) (L t) (nat (commitIndex (peer s i)) + 1)"
      using com by (auto simp: committed_def)
    then have "nat (commitIndex (peer s i)) + 1 \<le> length (log (peer s i))" by (simp add: has_prefix_def)
    then show ?thesis using pm(1) by (simp add: getLastLogIndex_def)
  qed
  note eff = send_effect [OF e pm(1,2) refl]
  have "packet_match L (request s i (call_of r) j) \<and> packet_safe n L A s (request s i (call_of r) j)"
  proof (cases r)
    case (SendAppend a)
    have "LeaderCommit a = commitIndex (peer s i)"
      using e SendAppend by (auto simp: sendToFollower_def go_bind_eq_Inr go_map_eq_Inr Let_def split: if_splits)
    moreover have "LeaderCommit a \<le> PrevLogIndex a + int (length (Entries a))"
      using send_covers_commit(1) [of j "peer s i" a] e SendAppend ci pm by (auto simp: getLastLogIndex_def Suc_le_eq)
    ultimately show ?thesis using eff SendAppend com pm(3)
      by (simp add: packet_match_def packet_safe_def request_def call_of_def append_ok_def)
  next
    case (SendSnapshot a)
    then show ?thesis using eff by (simp add: packet_match_def packet_safe_def request_def call_of_def)
  qed
  then show ?thesis by (intro raft_network [OF inv inv' cs]) (auto simp: s')
qed

lemma raft_install:
  assumes inv: "raft_inv n V K L Lead A W s" and inv': "election_inv n V' K' s'" and cs: "casts V V' s'"
    and p: "p \<in> set (net s)" "payload p = SnapCall a"
    and peer: "peer s' = (peer s)(callee p := fst (InstallSnapshot tk a (peer s (callee p))))"
    and net: "\<And>q. q \<in> set (net s') \<Longrightarrow> q \<in> set (net s) \<or> q = p\<lparr>payload := SnapReturn a t\<rparr>"
  shows "\<exists>W'. raft_inv n V' K' L Lead A W' s' \<and> acks_move L A s L A s'"
proof -
  let ?v = "callee p" let ?rf' = "fst (InstallSnapshot tk a (peer s ?v))"
  have v: "?v < n" using raft_own(1) [OF inv] p by (auto simp: election_inv_def packet_ok_def)
  have z: "ISLastIncludedIndex a = 0" using raft_own(10) [OF inv p(1)] p(2) by (simp add: packet_match_def)
  have lii: "lastIncludedIndex (peer s ?v) = 0" using raft_own(9) [OF inv v] by (simp add: peer_match_def)
  have f: "log ?rf' = log (peer s ?v)" "lastIncludedIndex ?rf' = lastIncludedIndex (peer s ?v)"
    "commitIndex ?rf' = commitIndex (peer s ?v)" "matchIndex ?rf' = matchIndex (peer s ?v)"
    using z lii by (auto simp: InstallSnapshot_def Let_def)
  have "abstains (peer s ?v) ?rf'" by (rule abstains_settles [OF settles_InstallSnapshot]) (use f in auto)
  moreover have "packet_match L (p\<lparr>payload := SnapReturn a t\<rparr>) \<and> packet_safe n L A s' (p\<lparr>payload := SnapReturn a t\<rparr>)"
    using z by (simp add: packet_match_def packet_safe_def)
  ultimately show ?thesis using raft_calm [OF inv inv' cs peer] f net by blast
qed

lemma raft_restart:
  assumes inv: "raft_inv n V K L Lead A W s" and inv': "election_inv n V' K' s'" and cs: "casts V V' s'" and i: "i < n"
    and peer: "peer s' = (peer s)(i := Make n (int i) (Persister_Copy (persister (peer s i))) tk)" and net: "net s' = net s"
  shows "\<exists>W'. raft_inv n V' K' L Lead A W' s' \<and> acks_move L A s L A s'"
proof -
  define rf' where "rf' = Make (npeers (peer s i)) (me (peer s i)) (Persister_Copy (persister (peer s i))) tk"
  have ok: "me (peer s i) = int i" "npeers (peer s i) = n" "durable (peer s i)" using raft_own(11) [OF inv i] by (auto simp: peer_ok_def)
  have r: "log rf' = log (peer s i)" "lastIncludedIndex rf' = lastIncludedIndex (peer s i)" "state rf' = Follower"
    "commitIndex rf' = max 0 (lastIncludedIndex (peer s i))" "settles (peer s i) rf'"
    using restart_log [OF ok(3) rf'_def] restart_fields [OF ok(3), of tk] by (auto simp: rf'_def)
  have "commitIndex rf' = 0" using r(4) raft_own(9) [OF inv i] by (simp add: peer_match_def)
  then show ?thesis
    by (intro raft_calm [OF inv inv' cs, of i rf'] abstains_settles [OF r(5)])
       (use r peer net ok in \<open>auto simp: rf'_def committed_def leader_ok_def\<close>)
qed

section \<open>Every event\<close>

definition plain :: "('c, 's) event \<Rightarrow> bool" where
  "plain e \<longleftrightarrow> (case e of ServiceSnapshot _ _ _ \<Rightarrow> False | _ \<Rightarrow> True)"

lemma raft_arrive:
  assumes inv: "raft_inv n V K L Lead A W s" and inv': "election_inv n V' K' s'" and cs: "casts V V' s'"
    and k: "k < length (net s)" and e: "arrive tk (net s ! k) (take_out k s) = Some s'"
  shows "\<exists>L' Lead' A' W'. raft_inv n V' K' L' Lead' A' W' s' \<and> acks_move L A s L' A' s'"
proof -
  define p where "p = net s ! k"
  have p: "p \<in> set (net s)" using k by (simp add: p_def)
  have c: "caller p < n" using raft_own(1) [OF inv] p by (auto simp: election_inv_def packet_ok_def)
  note e = e [folded p_def]
  have tc: "(\<exists>rf'. f (peer s (caller p)) = Inr rf' \<and> peer s' = (peer s)(caller p := rf') \<or> peer s' = peer s) \<and>
      set (net s') \<subseteq> set (net s)"
    if "to_caller p f (take_out k s) = Some s'" for f
    using that by (auto simp: to_caller_def split: if_splits sum.splits dest: in_set_takeD in_set_dropD)
  show ?thesis
  proof (cases "payload p")
    case (VoteCall args)
    obtain rf' reply where r: "RequestVote tk args (peer s (callee p)) = (rf', reply)" by (rule prod.exhaust)
    have "\<exists>W'. raft_inv n V' K' L Lead A W' s' \<and> acks_move L A s L A s'"
      by (rule raft_vote_request [OF inv inv' cs p VoteCall refl r]) (use e VoteCall r in \<open>auto simp: arrive_def dest: in_set_takeD in_set_dropD\<close>)
    then show ?thesis by blast
  next
    case (VoteReturn args reply)
    from tc [of "\<lambda>rf. Inr (voteReply args reply rf)"] e VoteReturn
    have "peer s' = (peer s)(caller p := voteReply args reply (peer s (caller p))) \<or> peer s' = peer s"
      and "set (net s') \<subseteq> set (net s)" by (auto simp: arrive_def)
    then show ?thesis using raft_vote_reply [OF inv inv' cs c] raft_network [OF inv inv' cs] by blast
  next
    case (AppendCall a)
    then obtain rf' reply where r: "AppendEntries tk a (peer s (callee p)) = Inr (rf', reply)"
      and s': "s' = transmit [p\<lparr>payload := AppendReturn a reply\<rparr>] (put_peer (callee p) rf' (take_out k s))"
      using e by (auto simp: arrive_def split: sum.splits)
    have "\<exists>A' W'. raft_inv n V' K' L Lead A' W' s' \<and> acks_move L A s L A' s'"
      by (rule raft_append [OF inv inv' cs p AppendCall refl r]) (auto simp: s' dest: in_set_takeD in_set_dropD)
    then show ?thesis by blast
  next
    case (AppendReturn a reply)
    from tc [of "handleAppendEntriesReply tk (callee p) a reply"] e AppendReturn
    show ?thesis using raft_append_reply [OF inv inv' cs p AppendReturn c refl] raft_network [OF inv inv' cs]
      by (simp add: arrive_def) blast
  next
    case (SnapCall a)
    obtain rf' t where r: "InstallSnapshot tk a (peer s (callee p)) = (rf', t)" by (rule prod.exhaust)
    have "\<exists>W'. raft_inv n V' K' L Lead A W' s' \<and> acks_move L A s L A s'"
      by (rule raft_install [OF inv inv' cs p SnapCall, of tk t]) (use e SnapCall r in \<open>auto simp: arrive_def dest: in_set_takeD in_set_dropD\<close>)
    then show ?thesis by blast
  next
    case (SnapReturn a t)
    from tc [of "snapshotReply tk (callee p) a t"] e SnapReturn
    show ?thesis using raft_snapshot_reply [OF inv inv' cs p SnapReturn c] raft_network [OF inv inv' cs]
      by (simp add: arrive_def) blast
  qed
qed

lemma raft_happen:
  assumes inv: "raft_inv n V K L Lead A W s" and pr: "prompt e s" and pl: "plain e" and e: "happen n e s = Some s'"
  shows "\<exists>V' K' L' Lead' A' W'. raft_inv n V' K' L' Lead' A' W' s' \<and> acks_move L A s L' A' s'"
proof -
  obtain V' K' where cs: "casts V V' s'" and inv': "election_inv n V' K' s'" using inv_happen [OF raft_own(1) [OF inv] pr e] by blast
  note quiet = raft_network [OF inv inv' cs]
  have "\<exists>L' Lead' A' W'. raft_inv n V' K' L' Lead' A' W' s' \<and> acks_move L A s L' A' s'"
  proof (cases e)
    case (Timeout i tk)
    obtain rf' b where r: "checkElectionTimeout tk (peer s i) = (rf', b)" by (rule prod.exhaust)
    have "i < n" "peer s' = (peer s)(i := rf')" "net s' = net s"
      using e Timeout r by (auto simp: happen_def subject_def split: if_splits)
    then show ?thesis using raft_timeout [OF inv inv' cs _ r] by blast
  next
    case (RunElection i)
    obtain rf' args where r: "startElection (peer s i) = (rf', args)" by (rule prod.exhaust)
    have "i < n" "peer s' = (peer s)(i := rf')" "net s' = net s @ map (request s i (VoteCall args)) (other_peers rf')"
      using e RunElection r by (auto simp: happen_def subject_def split: if_splits)
    then show ?thesis using raft_run_election [OF inv inv' cs _ r] by blast
  next
    case (SendTo i j)
    then consider (none) "s' = s" | (sent) r where "i < n" "sendToFollower j (peer s i) = Inr (Some r)"
        "s' = transmit [request s i (call_of r) j] s"
      using e by (auto simp: happen_def subject_def split: if_splits sum.splits option.splits)
    then show ?thesis
    proof cases
      case none
      then show ?thesis using quiet by blast
    next
      case sent
      then show ?thesis using raft_send [OF inv inv' cs] by blast
    qed
  next
    case (Deliver k tk)
    then show ?thesis using e raft_arrive [OF inv inv' cs] by (auto simp: happen_def subject_def split: if_splits)
  next
    case (Lose k)
    then have "s' = take_out k s" using e by (auto simp: happen_def subject_def split: if_splits)
    then have "peer s' = peer s" "set (net s') \<subseteq> set (net s)" by (auto dest: in_set_takeD in_set_dropD)
    then show ?thesis using quiet by blast
  next
    case (ClientStart i c)
    then have "i < n" "s' = put_peer i (fst (Start c (peer s i))) s" using e by (auto simp: happen_def subject_def split: if_splits)
    then show ?thesis by (rule raft_start [OF inv inv' cs])
  next
    case (ServiceSnapshot i index snap)
    then show ?thesis using pl by (simp add: plain_def)
  next
    case (ApplySnapshot i)
    then obtain k where "peer s' = (peer s)(i := (peer s i)\<lparr>lastApplied := k\<rparr>)" "net s' = net s"
      using e by (auto simp: happen_def subject_def applier_snapshot_def split: if_splits)
    then show ?thesis using raft_calm [OF inv inv' cs, of i "(peer s i)\<lparr>lastApplied := k\<rparr>"]
      by (auto simp: abstains_def follows_def)
  next
    case (ApplyCollect i)
    then have "peer s' = (peer s)(i := (peer s i)\<lparr>lastApplied := commitIndex (peer s i)\<rparr>)" "net s' = net s"
      using e by (auto simp: happen_def subject_def applier_collect_def split: if_splits)
    then show ?thesis using raft_calm [OF inv inv' cs, of i "(peer s i)\<lparr>lastApplied := commitIndex (peer s i)\<rparr>"]
      by (auto simp: abstains_def follows_def)
  next
    case (Restart i tk)
    then have "i < n" "peer s' = (peer s)(i := Make n (int i) (Persister_Copy (persister (peer s i))) tk)" "net s' = net s"
      using e by (auto simp: happen_def subject_def split: if_splits)
    then show ?thesis using raft_restart [OF inv inv' cs] by blast
  qed
  then show ?thesis by blast
qed

definition init_logs :: "'c leader_logs" where
  "init_logs = (\<lambda>t. if t = 0 then [dummy_entry] else [])"

lemma raft_init:
  "raft_inv n (\<lambda>_ _. None) (\<lambda>_ _. {}) init_logs (\<lambda>_. None) (\<lambda>_ _. 0) (\<lambda>_ _. []) (cluster_init n tk)"
proof -
  have m: "log_ok init_logs [dummy_entry]" by (auto simp: log_ok_def matching_def init_logs_def dummy_entry_def)
  then have "match_inv n (\<lambda>_ _. None) init_logs (\<lambda>_. None) (cluster_init n tk)"
    by (auto simp: match_inv_def logs_ok_def lead_ok_def peer_match_def init_logs_def cluster_init_def
        Make_def readPersist_def dummy_entry_def)
  moreover have "safe_inv n (\<lambda>_ _. None) init_logs (\<lambda>_. None) (\<lambda>_ _. 0) (\<lambda>_ _. []) (cluster_init n tk)"
    by (auto simp: safe_inv_def complete_ok_def acked_ok_def vote_ok_def leader_ok_def committed_def cluster_init_def
        Make_def readPersist_def choosable_def own_term_def)
  ultimately show ?thesis using inv_init by (auto simp: raft_inv_def)
qed

end
