(* ===== verification/RaftProgress.thy ===== *)
theory RaftProgress
  imports RaftReplication
begin

text \<open>
  Progress and preservation for the cluster: as long as no service takes a snapshot, every peer
  stays well-formed and no section of any peer panics, so that every event whose guard holds has a
  successor state. This needs neither prompt elections nor agreement of the logs. (With snapshots,
  \<open>append_entries_panics_iff\<close> of theory \<open>RaftLog\<close> says when \<open>AppendEntries\<close> panics.)
\<close>

section \<open>Typed states\<close>

definition peer_typed :: "nat \<Rightarrow> nat \<Rightarrow> ('c, 's) Raft \<Rightarrow> bool" where
  "peer_typed n i rf \<longleftrightarrow> peer_ok n i rf \<and> peer_wf rf \<and> lastIncludedIndex rf = 0"

definition packet_typed :: "nat \<Rightarrow> ('c, 's) packet \<Rightarrow> bool" where
  "packet_typed n p \<longleftrightarrow> caller p < n \<and> callee p < n \<and>
     (case payload p of AppendCall a \<Rightarrow> 0 \<le> PrevLogIndex a | SnapCall a \<Rightarrow> ISLastIncludedIndex a = 0 | _ \<Rightarrow> True)"

definition cluster_typed :: "nat \<Rightarrow> ('c, 's) cluster \<Rightarrow> bool" where
  "cluster_typed n s \<longleftrightarrow> (\<forall>i < n. peer_typed n i (peer s i)) \<and> (\<forall>p \<in> set (net s). packet_typed n p)"

text \<open>The guards of the events: what the code waits for before the section runs.\<close>

definition ready :: "nat \<Rightarrow> ('c, 's) event \<Rightarrow> ('c, 's) cluster \<Rightarrow> bool" where
  "ready n e s \<longleftrightarrow> (case subject e of Some i \<Rightarrow> i < n | None \<Rightarrow> True) \<and>
     (case e of RunElection i \<Rightarrow> 0 < pending s i | SendTo i j \<Rightarrow> j < n \<and> j \<noteq> i
      | Deliver k tk \<Rightarrow> k < length (net s) | Lose k \<Rightarrow> k < length (net s)
      | ApplySnapshot i \<Rightarrow> applier_snapshot (peer s i) \<noteq> None | _ \<Rightarrow> True)"

inductive unsnapped :: "nat \<Rightarrow> ('c, 's) cluster \<Rightarrow> bool" for n where
  unsnapped_start: "unsnapped n (cluster_init n tk)"
| unsnapped_step: "unsnapped n s \<Longrightarrow> plain e \<Longrightarrow> happen n e s = Some s' \<Longrightarrow> unsnapped n s'"

lemma unsnapped_reachable: "unsnapped n s \<Longrightarrow> reachable n s"
  by (induction rule: unsnapped.induct) (auto intro: reachable.intros)

section \<open>What the sections keep\<close>

text \<open>A section keeps the form of a peer if it keeps the log's first entry and, in a leader, the
  lengths of the index arrays.\<close>

definition keeps_form :: "('c, 's) Raft \<Rightarrow> ('c, 's) Raft \<Rightarrow> bool" where
  "keeps_form rf rf' \<longleftrightarrow> lastIncludedIndex rf' = lastIncludedIndex rf \<and> lastIncludedTerm rf' = lastIncludedTerm rf \<and>
     npeers rf' = npeers rf \<and> (log rf \<noteq> [] \<longrightarrow> log rf' \<noteq> [] \<and> log rf' ! 0 = log rf ! 0) \<and>
     (state rf' = Leader \<longrightarrow> length (nextIndex rf') = npeers rf \<and> length (matchIndex rf') = npeers rf \<or>
        state rf = Leader \<and> length (nextIndex rf') = length (nextIndex rf) \<and> length (matchIndex rf') = length (matchIndex rf))"

lemma keeps_form_wf: "peer_wf rf \<Longrightarrow> keeps_form rf rf' \<Longrightarrow> peer_wf rf'"
  by (auto simp: peer_wf_def keeps_form_def)

lemma keeps_form_refl [simp]: "keeps_form rf rf"
  by (simp add: keeps_form_def)

lemma keeps_form_same:
  assumes "log rf' = log rf" and "lastIncludedIndex rf' = lastIncludedIndex rf" and "lastIncludedTerm rf' = lastIncludedTerm rf"
    and "npeers rf' = npeers rf" and "state rf' = Leader \<Longrightarrow> state rf = Leader"
    and "length (nextIndex rf') = length (nextIndex rf)" and "length (matchIndex rf') = length (matchIndex rf)"
  shows "keeps_form rf rf'"
  using assms by (auto simp: keeps_form_def)

lemma form_sel [simp]:
  "lastIncludedTerm (resetElectionTimeout tk rf) = lastIncludedTerm rf" "lastIncludedTerm (newTerm t rf) = lastIncludedTerm rf"
  "lastIncludedTerm (persist rf) = lastIncludedTerm rf"
  "nextIndex (resetElectionTimeout tk rf) = nextIndex rf" "nextIndex (newTerm t rf) = nextIndex rf" "nextIndex (persist rf) = nextIndex rf"
  "matchIndex (resetElectionTimeout tk rf) = matchIndex rf" "matchIndex (newTerm t rf) = matchIndex rf" "matchIndex (persist rf) = matchIndex rf"
  "npeers (resetElectionTimeout tk rf) = npeers rf" "npeers (newTerm t rf) = npeers rf" "npeers (persist rf) = npeers rf"
  by (simp_all add: resetElectionTimeout_def newTerm_def persist_def)

lemma form_checkElectionTimeout: "keeps_form rf (fst (checkElectionTimeout tk rf))"
  by (rule keeps_form_same) (auto simp: checkElectionTimeout_def split: if_splits)

lemma form_startElection: "keeps_form rf (fst (startElection rf))"
  by (rule keeps_form_same) (simp_all add: startElection_def Let_def)

lemma form_RequestVote: "keeps_form rf (fst (RequestVote tk args rf))"
  by (rule keeps_form_same) (auto simp: RequestVote_def Let_def newTerm_def persist_def resetElectionTimeout_def split: if_splits)

lemma form_voteReply: "keeps_form rf (voteReply args reply rf)"
  by (auto simp: keeps_form_def voteReply_def Let_def initializeLeaderState_def newTerm_def persist_def)

lemma form_Start: "keeps_form rf (fst (Start c rf))"
  by (auto simp: keeps_form_def Start_def Let_def nth_append)

lemma form_InstallSnapshot: "ISLastIncludedIndex args \<le> lastIncludedIndex rf \<Longrightarrow> keeps_form rf (fst (InstallSnapshot tk args rf))"
  by (rule keeps_form_same) (auto simp: InstallSnapshot_def Let_def newTerm_def persist_def resetElectionTimeout_def split: if_splits)

lemma form_appliers:
  "applier_snapshot rf = Some (rf', m) \<Longrightarrow> keeps_form rf rf'" "keeps_form rf (fst (applier_collect rf))"
  by (rule keeps_form_same; auto simp: applier_snapshot_def applier_collect_def Let_def split: if_splits)+

text \<open>\<open>AppendEntries\<close> on a log that starts at index 0 cuts it at a positive position, if at all.\<close>

lemma AppendEntries_progress:
  assumes ne: "log rf \<noteq> []" and lii: "lastIncludedIndex rf = 0" and pos: "0 \<le> PrevLogIndex a"
  shows "\<exists>rf' reply. AppendEntries tk a rf = Inr (rf', reply) \<and> keeps_form rf rf'"
proof (cases "AETerm a < currentTerm rf \<or> log_mismatch a rf \<noteq> None \<or> Entries a = []")
  case True
  have "keeps_form rf (adopt tk (AETerm a) rf)" "keeps_form rf (advance_commit c (adopt tk (AETerm a) rf))" for c
    by (rule keeps_form_same; auto simp: adopt_def advance_commit_def newTerm_def persist_def resetElectionTimeout_def split: if_splits)+
  then show ?thesis using True by (cases "log_mismatch a rf") (auto simp: AppendEntries_eq Let_def log_mismatch_adopt)
next
  case False
  let ?rf2 = "adopt tk (AETerm a) rf" and ?q = "PrevLogIndex a + 1"
  have mm: "log_mismatch a rf = None" using False by blast
  have "?q \<le> getLastLogIndex rf + 1"
  proof (cases "0 < PrevLogIndex a")
    case True
    then show ?thesis using no_mismatch(2) [OF mm] by simp
  next
    case False
    then show ?thesis using ne lii pos Suc_le_eq [of 0 "length (log rf)"] by (simp add: getLastLogIndex_def)
  qed
  then have q: "lastIncludedIndex ?rf2 \<le> ?q" "?q \<le> getLastLogIndex ?rf2 + 1" "log ?rf2 \<noteq> []" using lii pos ne by simp_all
  obtain p where p: "merge_entries ?rf2 ?q (Entries a) = Inr p" using merge_entries_spec [OF q] by blast
  let ?rf' = "advance_commit (LeaderCommit a) (append_new p ?rf2)"
  have lg: "log ?rf' = merged ?rf2 ?q (Entries a)" using append_new_log [OF p q] by (simp add: advance_commit_def)
  have "0 < nat ?q" using pos by simp
  then have "merged ?rf2 ?q (Entries a) \<noteq> [] \<and> merged ?rf2 ?q (Entries a) ! 0 = log rf ! 0"
    using ne lii by (auto simp: merged_def nth_append)
  moreover have "lastIncludedIndex ?rf' = lastIncludedIndex rf \<and> lastIncludedTerm ?rf' = lastIncludedTerm rf \<and>
      npeers ?rf' = npeers rf \<and> state ?rf' = Follower"
    by (auto simp: advance_commit_def append_new_def adopt_def persist_def newTerm_def resetElectionTimeout_def split: prod.splits)
  ultimately have "keeps_form rf ?rf'" using lg by (simp add: keeps_form_def)
  moreover have "\<exists>reply. AppendEntries tk a rf = Inr (?rf', reply)"
    using False mm p by (auto simp: AppendEntries_eq Let_def log_mismatch_adopt)
  ultimately show ?thesis by blast
qed

lemma go_set_range: "k < length xs \<Longrightarrow> go_set xs (int k) v = Inr (xs[k := v])"
  by (simp add: go_set_def)

text \<open>A leader's reply handlers stay within the index arrays.\<close>

lemma handleAppendEntriesReply_progress:
  assumes ok: "peer_typed n i rf" and i: "i < n" and j: "j < n"
  shows "\<exists>rf'. handleAppendEntriesReply tk j a reply rf = Inr rf' \<and> keeps_form rf rf'"
proof (cases "state rf = Leader \<and> currentTerm rf = AETerm a \<and> \<not> AERTerm reply > currentTerm rf")
  case False
  have "keeps_form rf (resetElectionTimeout tk (newTerm (AERTerm reply) rf))"
    by (rule keeps_form_same) (simp_all add: newTerm_def persist_def resetElectionTimeout_def)
  then show ?thesis using False by (auto simp: handleAppendEntriesReply_def)
next
  case True
  have len: "length (nextIndex rf) = n" "length (matchIndex rf) = n" "npeers rf = n" "me rf = int i"
    using ok True by (auto simp: peer_typed_def peer_wf_def peer_ok_def)
  show ?thesis
  proof (cases "Success reply")
    case False
    then show ?thesis using True len j
      by (auto simp: handleAppendEntriesReply_def go_set_range intro: keeps_form_same)
  next
    case suc: True
    define x where "x = PrevLogIndex a + int (length (Entries a))"
    let ?rf1 = "rf\<lparr>nextIndex := (nextIndex rf)[j := x + 1], matchIndex := (matchIndex rf)[j := x]\<rparr>"
    obtain rf' where rf': "tryCommit ?rf1 = Inr rf'"
      using commit_scan_spec [of ?rf1 i] len i by (simp add: tryCommit_def)
    obtain c where "rf' = ?rf1\<lparr>commitIndex := c\<rparr> \<or> rf' = ?rf1"
      using rf' commit_scan_frame by (fastforce simp: tryCommit_def split: if_splits)
    then have "keeps_form rf rf'" by (auto intro: keeps_form_same)
    moreover have "handleAppendEntriesReply tk j a reply rf = Inr rf'"
      using True suc len j rf' by (simp add: handleAppendEntriesReply_def go_set_range x_def)
    ultimately show ?thesis by blast
  qed
qed

lemma snapshotReply_progress:
  assumes "peer_typed n i rf" and "j < n"
  shows "\<exists>rf'. snapshotReply tk j a t rf = Inr rf' \<and> keeps_form rf rf'"
proof -
  have "keeps_form rf (resetElectionTimeout tk (newTerm t rf))"
    by (rule keeps_form_same) (simp_all add: newTerm_def persist_def resetElectionTimeout_def)
  then show ?thesis using assms
    by (auto simp: snapshotReply_def peer_typed_def peer_wf_def peer_ok_def go_set_range intro: keeps_form_same)
qed

lemma sendToFollower_progress:
  assumes ok: "peer_typed n i rf" and j: "j < n"
  shows "\<exists>r. sendToFollower j rf = Inr r \<and> (\<forall>x. r = Some x \<longrightarrow>
    (case x of SendAppend a \<Rightarrow> 0 \<le> PrevLogIndex a | SendSnapshot a \<Rightarrow> ISLastIncludedIndex a = 0))"
proof (cases "state rf = Leader")
  case True
  then have len: "length (nextIndex rf) = n" "lastIncludedIndex rf = 0"
    using ok by (auto simp: peer_typed_def peer_wf_def peer_ok_def)
  have idx: "go_index (nextIndex rf) (int j) = Inr (nextIndex rf ! j)" using len j by (simp add: go_index_def)
  have sl: "0 \<le> k \<Longrightarrow> k < int (length xs) \<Longrightarrow> go_slice_from xs k = Inr (drop (nat k) xs)" for k and xs :: "'c LogEntry list"
    by (simp add: go_slice_from_def)
  show ?thesis
  proof (cases "nextIndex rf ! j \<le> 0")
    case True
    then show ?thesis using \<open>state rf = Leader\<close> idx len by (simp add: sendToFollower_def)
  next
    case False
    then show ?thesis using \<open>state rf = Leader\<close> idx len sl [of "nextIndex rf ! j" "log rf"]
      by (auto simp: sendToFollower_def Let_def toArrayIndex_def)
  qed
qed (simp add: sendToFollower_def)

lemma form_restart:
  assumes "durable rf"
  shows "keeps_form rf (Make (npeers rf) (me rf) (Persister_Copy (persister rf)) tk)"
proof -
  let ?rf' = "Make (npeers rf) (me rf) (Persister_Copy (persister rf)) tk"
  have "durable ?rf' \<and> npeers ?rf' = npeers rf" using restart_fields [OF assms, of tk]
    by (simp add: Make_def readPersist_def resetElectionTimeout_def split: option.splits)
  moreover have "encode_state ?rf' = encode_state (Make (npeers rf) (me rf) (persister rf) (0, 0))"
    by (auto simp: Make_def readPersist_def encode_state_def resetElectionTimeout_def split: option.splits)
  ultimately show ?thesis using assms restart_log [OF assms refl, of tk]
    by (simp add: durable_def encode_state_def keeps_form_def)
qed

section \<open>Progress and preservation\<close>

definition moves_one :: "nat \<Rightarrow> ('c, 's) cluster \<Rightarrow> ('c, 's) cluster \<Rightarrow> bool" where
  "moves_one n s s' \<longleftrightarrow> (\<exists>i rf'. peer s' = (peer s)(i := rf') \<and> keeps_form (peer s i) rf') \<and>
     (\<forall>p \<in> set (net s'). p \<in> set (net s) \<or> packet_typed n p)"

lemma moves_oneI:
  "peer s' = (peer s)(i := rf') \<Longrightarrow> keeps_form (peer s i) rf' \<Longrightarrow> (\<And>p. p \<in> set (net s') \<Longrightarrow> p \<in> set (net s) \<or> packet_typed n p) \<Longrightarrow>
     moves_one n s s'"
  by (auto simp: moves_one_def)

lemma moves_none: "peer s' = peer s \<Longrightarrow> (\<And>p. p \<in> set (net s') \<Longrightarrow> p \<in> set (net s) \<or> packet_typed n p) \<Longrightarrow> moves_one n s s'"
  by (rule moves_oneI [of _ _ 0 "peer s 0"]) simp_all

lemma typed_step:
  assumes ty: "cluster_typed n s" and e: "happen n e s = Some s'" and mv: "moves_one n s s'"
  shows "cluster_typed n s'"
proof -
  obtain i rf' where peer: "peer s' = (peer s)(i := rf')" and form: "keeps_form (peer s i) rf'"
    using mv by (auto simp: moves_one_def)
  have ok: "peer_ok n j (peer s' j)" if "j < n" for j
    using happen_keeps [OF _ e that] ty by (simp add: cluster_typed_def peer_typed_def)
  have "peer_wf (peer s' j) \<and> lastIncludedIndex (peer s' j) = 0" if "j < n" for j
  proof -
    have old: "peer_wf (peer s j)" "lastIncludedIndex (peer s j) = 0" using ty that by (simp_all add: cluster_typed_def peer_typed_def)
    show ?thesis
    proof (cases "j = i")
      case True
      then show ?thesis using keeps_form_wf [OF _ form] old peer form by (simp add: keeps_form_def)
    qed (use old peer in simp)
  qed
  then show ?thesis using ok mv ty by (auto simp: cluster_typed_def peer_typed_def moves_one_def)
qed

lemma arrive_progress:
  assumes ty: "cluster_typed n s" and k: "k < length (net s)"
  shows "\<exists>s'. arrive tk (net s ! k) (take_out k s) = Some s' \<and> moves_one n s s'"
proof -
  define p where "p = net s ! k"
  have p: "packet_typed n p" using ty k by (simp add: cluster_typed_def p_def)
  then have cc: "caller p < n" "callee p < n" by (simp_all add: packet_typed_def)
  have ok: "peer_typed n j (peer s j)" if "j < n" for j using ty that by (simp add: cluster_typed_def)
  have to: "\<exists>s'. to_caller p f (take_out k s) = Some s' \<and> moves_one n s s'"
    if f: "f (peer s (caller p)) = Inr r" "keeps_form (peer s (caller p)) r" for f r
  proof -
    have "moves_one n s (take_out k s)" by (rule moves_none) (auto dest: in_set_takeD in_set_dropD)
    moreover have "moves_one n s (put_peer (caller p) r (take_out k s))"
      by (rule moves_oneI [OF _ f(2)]) (auto dest: in_set_takeD in_set_dropD)
    ultimately show ?thesis using f by (simp add: to_caller_def)
  qed
  have reply: "moves_one n s (transmit [q] (put_peer (callee p) r (take_out k s)))"
    if "keeps_form (peer s (callee p)) r" "packet_typed n q" for q r
    by (rule moves_oneI [OF _ that(1)]) (use that(2) in \<open>auto dest: in_set_takeD in_set_dropD\<close>)
  have "\<exists>s'. arrive tk p (take_out k s) = Some s' \<and> moves_one n s s'"
  proof (cases "payload p")
    case (VoteCall args)
    then show ?thesis using reply [OF form_RequestVote] cc by (simp add: arrive_def packet_typed_def case_prod_beta)
  next
    case (VoteReturn args r)
    then show ?thesis using to [of "\<lambda>rf. Inr (voteReply args r rf)", OF refl form_voteReply]
      by (simp add: arrive_def)
  next
    case (AppendCall a)
    obtain rf' r where r: "AppendEntries tk a (peer s (callee p)) = Inr (rf', r)" "keeps_form (peer s (callee p)) rf'"
      using AppendEntries_progress [of "peer s (callee p)" a tk] ok [OF cc(2)] p AppendCall
      by (auto simp: peer_typed_def peer_wf_def packet_typed_def)
    then show ?thesis using reply [OF r(2)] cc AppendCall by (simp add: arrive_def packet_typed_def)
  next
    case (AppendReturn a r)
    then show ?thesis using to handleAppendEntriesReply_progress [OF ok [OF cc(1)] cc] by (simp add: arrive_def) metis
  next
    case (SnapCall a)
    have "ISLastIncludedIndex a \<le> lastIncludedIndex (peer s (callee p))"
      using p SnapCall ok [OF cc(2)] by (simp add: packet_typed_def peer_typed_def)
    then show ?thesis using reply [OF form_InstallSnapshot] cc SnapCall
      by (simp add: arrive_def packet_typed_def case_prod_beta)
  next
    case (SnapReturn a t)
    then show ?thesis using to snapshotReply_progress [OF ok [OF cc(1)] cc(2)] by (simp add: arrive_def) metis
  qed
  then show ?thesis by (simp add: p_def)
qed

lemma happen_progress:
  assumes ty: "cluster_typed n s" and r: "ready n e s" and pl: "plain e"
  shows "\<exists>s'. happen n e s = Some s' \<and> moves_one n s s'"
proof (cases e)
  case (Timeout i tk)
  have "moves_one n s ((put_peer i (fst (checkElectionTimeout tk (peer s i))) s)\<lparr>pending := f\<rparr>)" for f
    by (rule moves_oneI [OF _ form_checkElectionTimeout]) auto
  then show ?thesis using r Timeout by (simp add: happen_def ready_def subject_def case_prod_beta)
next
  case (RunElection i)
  then have i: "i < n" "0 < pending s i" using r by (simp_all add: ready_def subject_def)
  let ?rf = "fst (startElection (peer s i))"
  have "set (other_peers ?rf) \<subseteq> {..<n}"
    using ty i by (auto simp: other_peers_def startElection_def Let_def cluster_typed_def peer_typed_def peer_ok_def)
  then have "moves_one n s (transmit (map (request s i (VoteCall a)) (other_peers ?rf)) ((put_peer i ?rf s)\<lparr>pending := f\<rparr>))" for a f
    by (intro moves_oneI [OF _ form_startElection]) (use i in \<open>auto simp: packet_typed_def request_def\<close>)
  then show ?thesis using i RunElection by (simp add: happen_def subject_def case_prod_beta)
next
  case (SendTo i j)
  then have ij: "i < n" "j < n" "j \<noteq> i" using r by (simp_all add: ready_def subject_def)
  have "peer_typed n i (peer s i)" using ty ij by (simp add: cluster_typed_def)
  then obtain x where x: "sendToFollower j (peer s i) = Inr x" "\<And>y. x = Some y \<Longrightarrow>
      (case y of SendAppend a \<Rightarrow> 0 \<le> PrevLogIndex a | SendSnapshot a \<Rightarrow> ISLastIncludedIndex a = 0)"
    using sendToFollower_progress [OF _ ij(2)] by blast
  show ?thesis
  proof (cases x)
    case None
    then show ?thesis using SendTo ij x(1) moves_none [of s s n] by (simp add: happen_def subject_def)
  next
    case (Some y)
    have "packet_typed n (request s i (call_of y) j)"
      using x(2) [OF Some] ij by (cases y) (simp_all add: packet_typed_def request_def call_of_def)
    then have "moves_one n s (transmit [request s i (call_of y) j] s)" by (intro moves_none) auto
    then show ?thesis using SendTo ij x(1) Some by (simp add: happen_def subject_def)
  qed
next
  case (Deliver k tk)
  then show ?thesis using arrive_progress [OF ty] r by (simp add: happen_def ready_def subject_def)
next
  case (Lose k)
  have "moves_one n s (take_out k s)" by (rule moves_none) (auto dest: in_set_takeD in_set_dropD)
  then show ?thesis using r Lose by (simp add: happen_def ready_def subject_def)
next
  case (ClientStart i c)
  have "moves_one n s (put_peer i (fst (Start c (peer s i))) s)" by (rule moves_oneI [OF _ form_Start]) auto
  then show ?thesis using r ClientStart by (simp add: happen_def ready_def subject_def)
next
  case (ServiceSnapshot i index snap)
  then show ?thesis using pl by (simp add: plain_def)
next
  case (ApplySnapshot i)
  then obtain rf' m where a: "applier_snapshot (peer s i) = Some (rf', m)" "i < n" using r by (auto simp: ready_def subject_def)
  have "moves_one n s (put_peer i rf' s)" by (rule moves_oneI [OF _ form_appliers(1) [OF a(1)]]) auto
  then show ?thesis using a ApplySnapshot by (simp add: happen_def subject_def)
next
  case (ApplyCollect i)
  have "moves_one n s (put_peer i (fst (applier_collect (peer s i))) s)" by (rule moves_oneI [OF _ form_appliers(2)]) auto
  then show ?thesis using r ApplyCollect by (simp add: happen_def ready_def subject_def)
next
  case (Restart i tk)
  then have i: "i < n" using r by (simp add: ready_def subject_def)
  then have ok: "me (peer s i) = int i" "npeers (peer s i) = n" "durable (peer s i)"
    using ty by (auto simp: cluster_typed_def peer_typed_def peer_ok_def)
  have "moves_one n s ((put_peer i (Make n (int i) (Persister_Copy (persister (peer s i))) tk) s)\<lparr>inst := f, pending := g\<rparr>)" for f g
    by (rule moves_oneI [OF _ form_restart [OF ok(3), of tk]]) (use ok in auto)
  then show ?thesis using i Restart by (simp add: happen_def subject_def)
qed

lemma typed_init: "cluster_typed n (cluster_init n tk)"
  using reachable_peer_ok [OF reachable.start [of n tk]]
  by (auto simp: cluster_typed_def peer_typed_def cluster_init_def peer_wf_def Make_def readPersist_def resetElectionTimeout_def)

lemma happen_ready: "happen n e s = Some s' \<Longrightarrow> ready n e s"
  by (auto simp: happen_def ready_def subject_def split: event.splits if_splits option.splits)

lemma unsnapped_typed: "unsnapped n s \<Longrightarrow> cluster_typed n s"
proof (induction rule: unsnapped.induct)
  case (unsnapped_step s e s')
  obtain s'' where "happen n e s = Some s''" "moves_one n s s''"
    using happen_progress [OF unsnapped_step.IH happen_ready] unsnapped_step by blast
  then show ?case using typed_step [OF unsnapped_step.IH] unsnapped_step.hyps by simp
qed (rule typed_init)

text \<open>C11: A cluster whose services take no snapshots never goes wrong. In every run, whatever is
  lost, delayed or restarted, all peers are well-formed (the log has its first entry, a leader has an
  index for every peer), and no section panics: every event whose guard holds happens, be it the
  delivery of any packet in flight or a send to any follower.\<close>

theorem no_section_panics:
  assumes "unsnapped n s"
  shows "(\<forall>i < n. peer_wf (peer s i) \<and> me (peer s i) = int i \<and> npeers (peer s i) = n) \<and>
    (\<forall>e. ready n e s \<and> plain e \<longrightarrow> happen n e s \<noteq> None)"
proof -
  note ty = unsnapped_typed [OF assms]
  have "happen n e s \<noteq> None" if "ready n e s" "plain e" for e using happen_progress [OF ty that] by auto
  then show ?thesis using ty by (simp add: cluster_typed_def peer_typed_def peer_ok_def)
qed

lemma run_unsnapped: "unsnapped n s \<Longrightarrow> list_all plain es \<Longrightarrow> run_events n es s = Some s' \<Longrightarrow> unsnapped n s'"
  by (induction es arbitrary: s) (auto simp: bind_eq_Some_conv intro: unsnapped_step)

text \<open>After an election of three peers, the leader's heartbeat to peer 1 goes out.\<close>

theorem no_section_panics_witness:
  "\<exists>s. run_events 3 demo_election (demo_start 3) = Some s \<and> peer_wf (peer s 1) \<and> happen 3 (SendTo 0 1) s \<noteq> None"
proof -
  obtain s where s: "run_events 3 demo_election (demo_start 3) = Some s" using demo_election_runs by blast
  have "unsnapped 3 s"
    by (rule run_unsnapped [OF _ _ s]) (simp_all add: demo_start_def unsnapped_start demo_election_def plain_def)
  from no_section_panics [OF this] show ?thesis using s by (auto simp: ready_def subject_def plain_def)
qed

end
