(* ===== verification/RaftAgreement.thy ===== *)
theory RaftAgreement
  imports RaftReplication
begin

text \<open>
  What a commit index stands for in a cluster that satisfies the invariant of \<open>RaftChosen\<close>: a prefix of
  a chosen log, now and later; and any two chosen prefixes agree.
\<close>

section \<open>Chosen prefixes and commit indices\<close>

text \<open>What a commit index stands for, at its time and later.\<close>

lemma committed_later:
  assumes inv: "raft_inv n V K L Lead A W s" and i: "i < n" and k: "0 < k" "k \<le> commitIndex (peer s i)"
    and g: "grows L L'" and ch: "\<And>t m. chosen n L A t m \<Longrightarrow> chosen n L' A' t m"
  obtains t m where "t \<le> currentTerm (peer s i)" "chosen n L' A' t m" "nat k < m"
    "has_prefix (log (peer s i)) (L' t) (nat k + 1)"
proof -
  have "committed n L A (currentTerm (peer s i)) (log (peer s i)) k" by (rule committed_le [OF raft_own(7) [OF inv i] k(2)])
  then obtain t m where tm: "t \<le> currentTerm (peer s i)" "chosen n L A t m" "k < int m"
    "has_prefix (log (peer s i)) (L t) (nat k + 1)" using k(1) by (auto simp: committed_def)
  moreover have "nat k < m" using tm(3) k(1) by simp
  ultimately show thesis using that ch has_prefix_logs [OF _ g] by blast
qed

lemma chosen_agree:
  assumes inv: "raft_inv n V K L Lead A W s" and a: "chosen n L A t m" "k \<le> m" "has_prefix x (L t) k"
    and b: "chosen n L A u j" "k \<le> j" "has_prefix y (L u) k"
  shows "has_prefix x y k"
proof -
  have le: "has_prefix x y k" if "t \<le> u" "chosen n L A t m" "k \<le> m" "has_prefix x (L t) k" "has_prefix y (L u) k" "chosen n L A u j"
    for t u m j x y
  proof -
    have "L u \<noteq> []" using that(6) by (auto simp: chosen_def own_term_def)
    then have "has_prefix (L u) (L t) k"
      using has_prefix_le [OF leader_has [OF inv chosen_choosable [OF that(2)] that(1)] that(3)] by blast
    then show ?thesis using that(4,5) has_prefix_trans has_prefix_sym by blast
  qed
  show ?thesis
  proof (cases "t \<le> u")
    case True
    then show ?thesis by (rule le [OF _ a b(3,1)])
  next
    case False
    then have "u \<le> t" by simp
    then show ?thesis by (rule has_prefix_sym [OF le [OF _ b a(3,1)]])
  qed
qed

lemma entry_at_log:
  assumes "lastIncludedIndex rf = 0" and "0 < k" and "nat k < length (log rf)"
  shows "entry_at rf k = Some (log rf ! nat k)"
    "msg_at rf k = (case Command (log rf ! nat k) of None \<Rightarrow> [] | Some c \<Rightarrow> [command_msg c k])"
  using assms by (auto simp: entry_at_def msg_at_def toArrayIndex_def getLastLogIndex_def Let_def)

section \<open>A run that commits\<close>

definition demo_replicate :: "(nat, nat) event list" where
  "demo_replicate = [ClientStart 0 (Some 7), SendTo 0 1, Deliver 1 (1001, 0), Deliver 1 (1002, 0),
     SendTo 0 1, Deliver 1 (1003, 0)]"

lemmas replicate_eval = cluster_eval Start_def sendToFollower_def call_of_def AppendEntries_def log_mismatch_def
  append_new_def advance_commit_def handleAppendEntriesReply_def tryCommit_def getLogTerm_def toArrayIndex_def
  go_index_def go_set_def go_slice_from_def

lemma demo_replicate_runs:
  "\<exists>s. run_events 3 (demo_election @ demo_replicate) (demo_start 3) = Some s \<and>
     prompt_events 3 (demo_election @ demo_replicate) (demo_start 3) \<and>
     commitIndex (peer s 0) = 1 \<and> commitIndex (peer s 1) = 1 \<and> state (peer s 0) = Leader \<and>
     currentTerm (peer s 0) = 1 \<and> currentTerm (peer s 1) = 1 \<and>
     log (peer s 0) = [\<lparr>Command = None, Term = 0\<rparr>, \<lparr>Command = Some 7, Term = 1\<rparr>] \<and>
     length (log (peer s 1)) = 2 \<and> Term (log (peer s 1) ! 1) = 1 \<and> lastIncludedIndex (peer s 0) = 0"
  by (simp add: demo_election_def demo_replicate_def demo_start_def replicate_eval Let_def upt_conv_Cons upto.simps)

end
