(* ===== verification/RaftCompaction.thy ===== *)
theory RaftCompaction
  imports RaftAgreement
begin

text \<open>
  Peers that compact their logs. A peer whose log starts with a snapshot is compared with the same
  peer that has kept its whole log: \<open>expands rf g\<close>. Every section that does not fail does the same to
  both, as long as it looks at indices the compacted log still covers.
\<close>

section \<open>A compacted log\<close>

definition compacted :: "int \<Rightarrow> 'c LogEntry list \<Rightarrow> 'c LogEntry list \<Rightarrow> bool" where
  "compacted k lg full \<longleftrightarrow> 0 \<le> k \<and> k < int (length full) \<and> lg \<noteq> [] \<and> tl lg = drop (nat k + 1) full \<and>
     Term (hd lg) = Term (full ! nat k)"

lemma compacted_length: "compacted k lg full \<Longrightarrow> int (length lg) + k = int (length full)"
proof -
  assume a: "compacted k lg full"
  then have "length (tl lg) = length full - (nat k + 1)" by (simp add: compacted_def)
  moreover have "0 < length lg" "0 \<le> k" "nat k < length full" using a by (auto simp: compacted_def nat_less_iff)
  ultimately show ?thesis by (simp only: length_tl)
qed

lemma compacted_nth:
  assumes "compacted k lg full" and "i < length lg" and "0 < i"
  shows "lg ! i = full ! (nat k + i)"
proof -
  obtain j where j: "i = Suc j" using assms(3) by (cases i) auto
  have "lg ! i = tl lg ! j" using assms(1) j by (cases lg) (auto simp: compacted_def)
  moreover have "tl lg = drop (nat k + 1) full" "nat k + 1 \<le> length full" using assms(1) by (auto simp: compacted_def)
  ultimately show ?thesis using j by simp
qed

lemma compacted_term:
  assumes "compacted k lg full" and "i < length lg"
  shows "Term (lg ! i) = Term (full ! (nat k + i))"
proof (cases i)
  case 0
  then show ?thesis using assms by (cases lg) (auto simp: compacted_def)
qed (use compacted_nth [OF assms] in simp)

lemma compacted_append: "compacted k lg full \<Longrightarrow> compacted k (lg @ es) (full @ es)"
  by (auto simp: compacted_def nth_append nat_less_iff)

lemma compacted_take:
  assumes "compacted k lg full" and "0 < m"
  shows "compacted k (take m lg) (take (nat k + m) full)"
proof -
  obtain x xs where lg: "lg = x # xs" using assms(1) by (cases lg) (auto simp: compacted_def)
  obtain j where j: "m = Suc j" using assms(2) by (cases m) auto
  show ?thesis using assms(1) unfolding compacted_def lg j by (auto simp: drop_take nat_less_iff)
qed

lemma compacted_last:
  assumes "compacted k lg full"
  shows "Term (last lg) = Term (last full)"
proof -
  have l: "int (length lg) + k = int (length full)" "lg \<noteq> []" "0 \<le> k" using compacted_length [OF assms] assms by (auto simp: compacted_def)
  have "full \<noteq> []" using assms by (auto simp: compacted_def)
  moreover have "nat k + (length lg - 1) = length full - 1" using l by (cases lg) auto
  ultimately show ?thesis using compacted_term [OF assms, of "length lg - 1"] l(2) by (simp add: last_conv_nth)
qed

text \<open>Compacting further.\<close>

lemma compacted_more:
  assumes c: "compacted k lg full" and m: "k < m" "m < int (length full)"
  shows "compacted m (\<lparr>Command = None, Term = Term (full ! nat m)\<rparr> # drop (nat (m - k) + 1) lg) full"
proof -
  obtain x xs where lg: "lg = x # xs" using c by (cases lg) (auto simp: compacted_def)
  have "drop (nat (m - k) + 1) lg = drop (nat (m - k)) (drop (nat k + 1) full)" using c lg by (simp add: compacted_def)
  also have "\<dots> = drop (nat m + 1) full" using c m by (auto simp: compacted_def nat_diff_distrib)
  finally show ?thesis using c m by (simp add: compacted_def)
qed

section \<open>A peer and its expansion\<close>

definition expands :: "('c, 's) Raft \<Rightarrow> ('c, 's) Raft \<Rightarrow> bool" where
  "expands rf g \<longleftrightarrow> me g = me rf \<and> npeers g = npeers rf \<and> currentTerm g = currentTerm rf \<and> votedFor g = votedFor rf \<and>
     commitIndex g = commitIndex rf \<and> matchIndex g = matchIndex rf \<and> nextIndex g = nextIndex rf \<and>
     votesReceived g = votesReceived rf \<and>
     lastIncludedIndex g = 0 \<and> durable g \<and> compacted (lastIncludedIndex rf) (log rf) (log g) \<and>
     lastIncludedTerm rf = Term (log g ! nat (lastIncludedIndex rf)) \<and> lastIncludedIndex rf \<le> commitIndex rf"

lemma expands_last:
  assumes "expands rf g"
  shows "getLastLogIndex g = getLastLogIndex rf" "getLastLogTerm g = getLastLogTerm rf"
proof -
  have c: "compacted (lastIncludedIndex rf) (log rf) (log g)" "lastIncludedIndex g = 0" using assms by (auto simp: expands_def)
  then show "getLastLogIndex g = getLastLogIndex rf" using compacted_length [OF c(1)] by (simp add: getLastLogIndex_def)
  have "log rf \<noteq> []" "log g \<noteq> []" using c(1) by (auto simp: compacted_def)
  then show "getLastLogTerm g = getLastLogTerm rf" using compacted_last [OF c(1)] by (simp add: getLastLogTerm_def)
qed

lemma expands_term:
  assumes "expands rf g" and "lastIncludedIndex rf \<le> i"
  shows "getLogTerm g i = getLogTerm rf i"
proof -
  have c: "compacted (lastIncludedIndex rf) (log rf) (log g)" "lastIncludedIndex g = 0" using assms(1) by (auto simp: expands_def)
  have len: "int (length (log rf)) + lastIncludedIndex rf = int (length (log g))" "0 \<le> lastIncludedIndex rf"
    using compacted_length [OF c(1)] c(1) by (auto simp: compacted_def)
  show ?thesis
  proof (cases "i < int (length (log g))")
    case True
    then have "nat (i - lastIncludedIndex rf) < length (log rf)" using len assms(2) by simp
    from compacted_term [OF c(1) this] True len assms(2) c(2) show ?thesis
      by (simp add: getLogTerm_def toArrayIndex_def Let_def flip: nat_add_distrib)
  qed (use len c(2) assms(2) in \<open>simp add: getLogTerm_def toArrayIndex_def Let_def\<close>)
qed

lemma expands_uptodate: "expands rf g \<Longrightarrow> logIsAtLeastAsUpToDate args g = logIsAtLeastAsUpToDate args rf"
  by (simp add: logIsAtLeastAsUpToDate_def expands_last)

text \<open>Changes of both that leave their logs alone.\<close>

lemma expands_frame:
  assumes "expands rf g" and "log rf' = log rf" "lastIncludedIndex rf' = lastIncludedIndex rf" "lastIncludedTerm rf' = lastIncludedTerm rf"
    and "commitIndex rf' = commitIndex rf" and "log g' = log g" "lastIncludedIndex g' = lastIncludedIndex g" "durable g'"
    and "me g' = me rf'" "npeers g' = npeers rf'" "currentTerm g' = currentTerm rf'" "votedFor g' = votedFor rf'"
    "commitIndex g' = commitIndex rf'" "matchIndex g' = matchIndex rf'" "nextIndex g' = nextIndex rf'"
    "votesReceived g' = votesReceived rf'"
  shows "expands rf' g'"
  using assms by (auto simp: expands_def)

lemma expands_sel:
  "expands rf g \<Longrightarrow> me g = me rf \<and> npeers g = npeers rf \<and> currentTerm g = currentTerm rf \<and> votedFor g = votedFor rf \<and>
     commitIndex g = commitIndex rf \<and> matchIndex g = matchIndex rf \<and> nextIndex g = nextIndex rf \<and>
     votesReceived g = votesReceived rf \<and> lastIncludedIndex g = 0 \<and> durable g"
  by (simp add: expands_def)

section \<open>The sections of both\<close>

lemma expands_newTerm: "expands rf g \<Longrightarrow> expands (newTerm t rf) (newTerm t g)"
  by (simp add: expands_def)

lemma expands_step_down: "expands rf g \<Longrightarrow> expands (resetElectionTimeout tk (newTerm t rf)) (resetElectionTimeout tk (newTerm t g))"
  by (simp add: expands_def)

lemma expands_adopt: "expands rf g \<Longrightarrow> expands (adopt tk t rf) (adopt tk t g)"
  by (simp add: expands_def durable_adopt) (auto simp: adopt_def)

lemma expands_checkElectionTimeout:
  assumes "expands rf g" and "checkElectionTimeout tk rf = (rf', True)"
  shows "\<exists>tk' g'. checkElectionTimeout tk' g = (g', True) \<and> expands rf' g' \<and> state g' = state rf'"
proof -
  let ?tk = "(lastHeartbeat g + electionTimeout g + 1, 0) :: tick"
  obtain g' where g': "checkElectionTimeout ?tk g = (g', True)" by (simp add: checkElectionTimeout_def)
  moreover from g' have "g' = resetElectionTimeout ?tk (persist (g\<lparr>state := Candidate, currentTerm := currentTerm g + 1, votedFor := me g\<rparr>))"
    by (simp add: checkElectionTimeout_def)
  moreover have "rf' = resetElectionTimeout tk (persist (rf\<lparr>state := Candidate, currentTerm := currentTerm rf + 1, votedFor := me rf\<rparr>))"
    using assms(2) by (auto simp: checkElectionTimeout_def split: if_splits)
  ultimately have "expands rf' g' \<and> state g' = state rf'" using assms(1) by (simp add: expands_def)
  with g' show ?thesis by blast
qed

lemma expands_startElection:
  assumes "expands rf g" and "startElection rf = (rf', args)"
  shows "startElection g = (g\<lparr>votesReceived := 1\<rparr>, args)" "expands rf' (g\<lparr>votesReceived := 1\<rparr>)" "state rf' = state rf"
  using assms expands_last [OF assms(1)]
  by (auto simp: startElection_def Let_def expands_def getLastLogIndex_def getLastLogTerm_def intro: durable_frame)

lemma expands_RequestVote:
  assumes x: "expands rf g" and e: "RequestVote tk args rf = (rf', reply)"
  shows "\<exists>g'. RequestVote tk args g = (g', reply) \<and> expands rf' g' \<and>
    (state rf' = state rf \<and> state g' = state g \<and> currentTerm rf' = currentTerm rf \<or> state rf' = Follower \<and> state g' = Follower)"
proof -
  let ?rf1 = "if RVTerm args > currentTerm rf then newTerm (RVTerm args) rf else rf"
  let ?g1 = "if RVTerm args > currentTerm g then newTerm (RVTerm args) g else g"
  have x1: "expands ?rf1 ?g1" using x expands_newTerm [OF x] expands_sel [OF x] by simp
  have "expands (resetElectionTimeout tk (persist (?rf1\<lparr>votedFor := c\<rparr>))) (resetElectionTimeout tk (persist (?g1\<lparr>votedFor := c\<rparr>)))" for c
    using x1 unfolding expands_def by (simp only: raft_sel persist_sel durable_reset durable_persist) simp
  then show ?thesis using e x x1 expands_sel [OF x] expands_sel [OF x1] expands_uptodate [OF x1, of args]
    unfolding RequestVote_def Let_def by (auto split: if_splits)
qed

lemma expands_voteReply:
  assumes "expands rf g" and "state g = state rf"
  shows "expands (voteReply args reply rf) (voteReply args reply g)" "state (voteReply args reply g) = state (voteReply args reply rf)"
proof -
  have f: "getLastLogIndex (g\<lparr>votesReceived := x, state := Leader\<rparr>) = getLastLogIndex (rf\<lparr>votesReceived := x, state := Leader\<rparr>)" for x
    using expands_last(1) [OF assms(1)] by (simp add: getLastLogIndex_def)
  note sel = expands_sel [OF assms(1)]
  have up: "expands (rf\<lparr>votesReceived := x\<rparr>) (g\<lparr>votesReceived := x\<rparr>)" for x
    using assms(1) by (auto simp: expands_def intro: durable_frame)
  have led: "expands (initializeLeaderState (rf\<lparr>votesReceived := x, state := Leader\<rparr>)) (initializeLeaderState (g\<lparr>votesReceived := x, state := Leader\<rparr>))" for x
    using assms(1) f by (auto simp: expands_def initializeLeaderState_def intro: durable_frame)
  show "expands (voteReply args reply rf) (voteReply args reply g)"
    using assms sel up led expands_newTerm [OF assms(1)] by (simp add: voteReply_def Let_def)
  show "state (voteReply args reply g) = state (voteReply args reply rf)"
    using assms sel by (simp add: voteReply_def Let_def initializeLeaderState_def)
qed

lemma expands_Start:
  assumes "expands rf g" and "state g = state rf"
  shows "expands (fst (Start c rf)) (fst (Start c g))" "state (fst (Start c g)) = state (fst (Start c rf))"
proof -
  note sel = expands_sel [OF assms(1)]
  have c: "compacted (lastIncludedIndex rf) (log rf) (log g)" "lastIncludedTerm rf = Term (log g ! nat (lastIncludedIndex rf))"
    using assms(1) by (auto simp: expands_def)
  have "(log g @ [e]) ! nat (lastIncludedIndex rf) = log g ! nat (lastIncludedIndex rf)" for e
    using c(1) by (simp add: compacted_def nth_append nat_less_iff)
  then show "expands (fst (Start c rf)) (fst (Start c g))"
    using assms sel compacted_append [OF c(1)] by (auto simp: Start_def Let_def expands_def)
  show "state (fst (Start c g)) = state (fst (Start c rf))" using assms by (simp add: Start_def Let_def)
qed

text \<open>What a leader sends, unless it is a snapshot.\<close>

lemma expands_send:
  assumes x: "expands rf g" "state g = state rf" and e: "sendToFollower j rf = Inr (Some (SendAppend a))"
  shows "sendToFollower j g = Inr (Some (SendAppend a))"
proof -
  let ?k = "lastIncludedIndex rf"
  note sel = expands_sel [OF x(1)]
  have c: "compacted ?k (log rf) (log g)" "lastIncludedTerm rf = Term (log g ! nat ?k)" using x(1) by (auto simp: expands_def)
  have len: "int (length (log rf)) + ?k = int (length (log g))" "0 \<le> ?k" "log rf \<noteq> []" using compacted_length [OF c(1)] c(1) by (auto simp: compacted_def)
  obtain nx where n: "go_index (nextIndex rf) (int j) = Inr nx" "state rf = Leader" "\<not> nx \<le> ?k"
    using e by (auto simp: sendToFollower_def go_bind_eq_Inr split: if_splits)
  have t: "getLogTerm g (nx - 1) = (if nx - 1 = ?k then lastIncludedTerm rf else getLogTerm rf (nx - 1))"
    using expands_term [OF x(1), of "nx - 1"] n(3) c len compacted_term [OF c(1), of 0] by (auto simp: getLogTerm_def toArrayIndex_def Let_def)
  have d: "(if nx - ?k < int (length (log rf)) then go_slice_from (log rf) (nx - ?k) else Inr []) =
      (if nx < int (length (log g)) then go_slice_from (log g) nx else Inr [])"
  proof (cases "nx < int (length (log g))")
    case True
    obtain y ys where lg: "log rf = y # ys" using len(3) by (cases "log rf") auto
    have "drop (nat (nx - ?k)) (log rf) = drop (nat (nx - ?k) - 1) (drop (nat ?k + 1) (log g))"
      using c(1) n(3) lg by (cases "nat (nx - ?k)") (auto simp: compacted_def)
    also have "\<dots> = drop (nat nx) (log g)"
    proof -
      have "nat (nx - ?k) - 1 + (nat ?k + 1) = nat nx" using n(3) len(2) by linarith
      then show ?thesis by (metis drop_drop)
    qed
    finally show ?thesis using True n(3) len by (auto simp: go_slice_from_def)
  qed (use len in simp)
  show ?thesis using e n sel x(2) t d len unfolding sendToFollower_def by (auto simp: Let_def toArrayIndex_def)
qed

section \<open>Committing\<close>

lemma count_match_cong:
  "matchIndex g = matchIndex rf \<Longrightarrow> me g = me rf \<Longrightarrow> count_match g k is c = count_match rf k is c"
  by (induction "is" arbitrary: c) (simp_all add: go_bind_def split: sum.splits)

lemma expands_commit:
  assumes "expands rf g" and "lastIncludedIndex rf \<le> c"
  shows "expands (rf\<lparr>commitIndex := c\<rparr>) (g\<lparr>commitIndex := c\<rparr>)"
  using assms by (auto simp: expands_def intro: durable_frame)

lemma expands_commit_scan:
  assumes "expands rf g" and "\<forall>k \<in> set ns. lastIncludedIndex rf < k" and "commit_scan ns rf = Inr rf'"
  shows "\<exists>g'. commit_scan ns g = Inr g' \<and> expands rf' g'"
  using assms
proof (induction ns arbitrary: rf g)
  case (Cons k ns)
  have t: "getLogTerm g k = getLogTerm rf k" using expands_term [OF Cons.prems(1)] Cons.prems(2) by simp
  note sel = expands_sel [OF Cons.prems(1)]
  show ?case
  proof (cases "getLogTerm rf k = currentTerm rf")
    case False
    then show ?thesis using Cons t sel by simp
  next
    case True
    then obtain cnt where cnt: "count_match rf k [0..<npeers rf] 1 = Inr cnt"
      "commit_scan ns (if cnt > int (npeers rf) div 2 then rf\<lparr>commitIndex := k\<rparr> else rf) = Inr rf'"
      using Cons.prems(3) by (auto simp: go_bind_eq_Inr)
    have "count_match g k [0..<npeers g] 1 = Inr cnt" using cnt(1) sel count_match_cong [of g rf] by simp
    moreover have "\<exists>g'. commit_scan ns (if cnt > int (npeers g) div 2 then g\<lparr>commitIndex := k\<rparr> else g) = Inr g' \<and> expands rf' g'"
    proof (rule Cons.IH [OF _ _ cnt(2)])
      show "expands (if cnt > int (npeers rf) div 2 then rf\<lparr>commitIndex := k\<rparr> else rf)
          (if cnt > int (npeers g) div 2 then g\<lparr>commitIndex := k\<rparr> else g)"
        using Cons.prems(1,2) expands_commit [OF Cons.prems(1), of k] sel by simp
    qed (use Cons.prems(2) in auto)
    ultimately show ?thesis using True t sel by simp
  qed
qed simp

lemma expands_tryCommit:
  assumes "expands rf g" and "tryCommit rf = Inr rf'"
  shows "\<exists>g'. tryCommit g = Inr g' \<and> expands rf' g'"
proof -
  have "\<forall>k \<in> set [commitIndex rf + 1..getLastLogIndex rf]. lastIncludedIndex rf < k" using assms(1) by (auto simp: expands_def)
  from expands_commit_scan [OF assms(1) this] assms(2) show ?thesis
    using expands_last(1) [OF assms(1)] expands_sel [OF assms(1)] by (simp add: tryCommit_def)
qed

lemma tryCommit_state: "tryCommit rf = Inr rf' \<Longrightarrow> state rf' = state rf"
  unfolding tryCommit_def by (drule commit_scan_frame) auto

lemma expands_append_reply:
  assumes x: "expands rf g" "state g = state rf" and e: "handleAppendEntriesReply tk j a reply rf = Inr rf'"
    and ok: "state rf = Leader" "currentTerm rf = AETerm a" "\<not> AERTerm reply > currentTerm rf" "Success reply"
  shows "\<exists>g'. handleAppendEntriesReply tk j a reply g = Inr g' \<and> expands rf' g' \<and> state g' = state rf'"
proof -
  note sel = expands_sel [OF x(1)]
  obtain ni mi where m: "go_set (nextIndex rf) (int j) (PrevLogIndex a + int (length (Entries a)) + 1) = Inr ni"
    "go_set (matchIndex rf) (int j) (PrevLogIndex a + int (length (Entries a))) = Inr mi"
    "tryCommit (rf\<lparr>nextIndex := ni, matchIndex := mi\<rparr>) = Inr rf'" using e ok by (auto simp: handleAppendEntriesReply_def go_bind_eq_Inr)
  have "expands (rf\<lparr>nextIndex := ni, matchIndex := mi\<rparr>) (g\<lparr>nextIndex := ni, matchIndex := mi\<rparr>)"
    using x(1) by (auto simp: expands_def intro: durable_frame)
  from expands_tryCommit [OF this m(3)] obtain g' where g': "tryCommit (g\<lparr>nextIndex := ni, matchIndex := mi\<rparr>) = Inr g'" "expands rf' g'" by blast
  then have "handleAppendEntriesReply tk j a reply g = Inr g'" using m(1,2) ok sel x(2) by (simp add: handleAppendEntriesReply_def)
  moreover have "state g' = state rf'" using tryCommit_state [OF g'(1)] tryCommit_state [OF m(3)] x(2) by simp
  ultimately show ?thesis using g'(2) by blast
qed

section \<open>Appending\<close>

lemma expands_merge:
  assumes "expands rf g" and "lastIncludedIndex rf < i" and "merge_entries rf i es = Inr (lg, rest)"
  shows "\<exists>full. merge_entries g i es = Inr (full, rest) \<and> compacted (lastIncludedIndex rf) lg full \<and>
    full ! nat (lastIncludedIndex rf) = log g ! nat (lastIncludedIndex rf)"
  using assms(2,3)
proof (induction es arbitrary: i)
  case Nil
  then show ?case using assms(1) by (auto simp: expands_def)
next
  case (Cons e es)
  let ?k = "lastIncludedIndex rf"
  note last = expands_last(1) [OF assms(1)] and tm = expands_term [OF assms(1), of i]
  have c: "compacted ?k (log rf) (log g)" "lastIncludedIndex g = 0" using assms(1) by (auto simp: expands_def)
  show ?case
  proof (cases "i \<le> getLastLogIndex rf \<and> getLogTerm rf i \<noteq> Term e")
    case True
    then have lg: "lg = take (nat (i - ?k)) (log rf)" "rest = e # es" "i - ?k \<le> int (length (log rf))"
      using Cons.prems by (auto simp: go_map_eq_Inr go_slice_to_def toArrayIndex_def split: if_splits)
    have i: "nat ?k + nat (i - ?k) = nat i" "0 \<le> i" "i \<le> int (length (log g))"
      using c(1) Cons.prems(1) lg(3) compacted_length [OF c(1)] by (auto simp: compacted_def)
    have "merge_entries g i (e # es) = Inr (take (nat i) (log g), e # es)"
      using True last tm Cons.prems(1) i c(2) by (simp add: go_slice_to_def toArrayIndex_def)
    moreover have "compacted ?k lg (take (nat i) (log g))" using compacted_take [OF c(1), of "nat (i - ?k)"] Cons.prems(1) i lg(1) by simp
    moreover have "nat ?k < nat i" using Cons.prems(1) c(1) by (simp add: compacted_def)
    ultimately show ?thesis using lg(2) by simp
  next
    case False
    then show ?thesis
    proof (cases "i \<le> getLastLogIndex rf")
      case True
      then show ?thesis using False Cons.prems Cons.IH [of "i + 1"] last tm by simp
    next
      case beyond: False
      then have "lg = log rf" "rest = e # es" using Cons.prems by auto
      then show ?thesis using beyond last c(1) by simp
    qed
  qed
qed

lemma expands_append_new:
  assumes x: "expands rf g" and m: "merge_entries rf i es = Inr (lg, rest)" "merge_entries g i es = Inr (full, rest)"
    and c: "compacted (lastIncludedIndex rf) lg full" "full ! nat (lastIncludedIndex rf) = log g ! nat (lastIncludedIndex rf)"
  shows "expands (append_new (lg, rest) rf) (append_new (full, rest) g)"
proof -
  let ?k = "lastIncludedIndex rf"
  have log: "log (append_new (lg, rest) rf) = lg @ rest" "log (append_new (full, rest) g) = full @ rest" by (simp_all add: append_new_def)
  have "(full @ rest) ! nat ?k = log g ! nat ?k" using c by (simp add: compacted_def nth_append nat_less_iff)
  then show ?thesis using x compacted_append [OF c(1), of rest] log durable_append_new [OF _ m(2)] by (simp add: expands_def)
qed

lemma expands_advance:
  assumes "expands rf g"
  shows "expands (advance_commit c rf) (advance_commit c g)"
proof -
  have "lastIncludedIndex rf \<le> getLastLogIndex rf" using assms by (auto simp: expands_def compacted_def getLastLogIndex_def Suc_le_eq)
  then show ?thesis
    using expands_commit [OF assms] assms expands_last(1) [OF assms] expands_sel [OF assms] by (auto simp: advance_commit_def expands_def)
qed

text \<open>An append from the start of the log reaches a compacted peer only where it agrees with its snapshot; otherwise it panics.\<close>

lemma expands_merge_start:
  assumes x: "expands rf g" and k: "0 < lastIncludedIndex rf" and m: "merge_entries rf 1 es = Inr (lg, rest)" and es: "es \<noteq> []"
    and terms: "\<forall>e \<in> set es. 0 \<le> Term e" and agree: "lastIncludedIndex rf = 1 \<Longrightarrow> Term (hd es) = lastIncludedTerm rf"
  shows "\<exists>full. merge_entries g 1 es = Inr (full, rest) \<and> compacted (lastIncludedIndex rf) lg full \<and>
    full ! nat (lastIncludedIndex rf) = log g ! nat (lastIncludedIndex rf)"
proof -
  obtain e es' where e: "es = e # es'" using es by (cases es) auto
  have c: "compacted (lastIncludedIndex rf) (log rf) (log g)" "lastIncludedTerm rf = Term (log g ! nat (lastIncludedIndex rf))"
    using x by (auto simp: expands_def)
  have in_log: "1 \<le> getLastLogIndex rf" using c(1) k compacted_length [OF c(1)] by (auto simp: compacted_def getLastLogIndex_def)
  have "lastIncludedIndex rf = 1"
  proof (rule ccontr)
    assume "lastIncludedIndex rf \<noteq> 1"
    then have "getLogTerm rf 1 = -1" "toArrayIndex rf 1 < 0" using k by (simp_all add: getLogTerm_def toArrayIndex_def)
    then show False using m e in_log terms by (auto simp: go_map_eq_Inr go_slice_to_def)
  qed
  moreover from this have t: "getLogTerm rf 1 = Term e"
    using agree e c compacted_term [OF c(1), of 0] by (auto simp: getLogTerm_def toArrayIndex_def compacted_def)
  ultimately have "merge_entries rf 2 es' = Inr (lg, rest)" "merge_entries g 1 es = merge_entries g 2 es'"
    using m e in_log expands_last(1) [OF x] expands_term [OF x, of 1] by auto
  then show ?thesis using expands_merge [OF x] \<open>lastIncludedIndex rf = 1\<close> by simp
qed

lemma expands_append:
  assumes x: "expands rf g" and e: "AppendEntries tk a rf = Inr (rf', reply)" and su: "Success reply" and pos: "0 \<le> PrevLogIndex a"
    and terms: "\<forall>e \<in> set (Entries a). 0 \<le> Term e"
    and agree: "PrevLogIndex a = 0 \<Longrightarrow> lastIncludedIndex rf = 1 \<Longrightarrow> Entries a \<noteq> [] \<Longrightarrow> Term (hd (Entries a)) = lastIncludedTerm rf"
  shows "\<exists>g'. AppendEntries tk a g = Inr (g', reply) \<and> expands rf' g' \<and> state g' = Follower \<and> state rf' = Follower"
proof -
  let ?rf = "adopt tk (AETerm a) rf" and ?g = "adopt tk (AETerm a) g" and ?r = "\<lparr>AERTerm = currentTerm rf, Success = True, ConflictTerm = 0, ConflictIndex = 0\<rparr>"
  note sel = expands_sel [OF x] and x2 = expands_adopt [OF x, of tk "AETerm a"]
  have t: "\<not> AETerm a < currentTerm rf" and mm: "log_mismatch a rf = None" and r: "reply = ?r"
    using e su by (auto simp: AppendEntries_eq Let_def log_mismatch_adopt go_map_eq_Inr split: if_splits option.splits)
  have mg: "log_mismatch a g = None"
  proof (cases "0 < PrevLogIndex a")
    case True
    show ?thesis using no_mismatch [OF mm True] sel expands_last(1) [OF x] expands_term [OF x, of "PrevLogIndex a"] True by (simp add: log_mismatch_def)
  qed (simp add: log_mismatch_def)
  show ?thesis
  proof (cases "Entries a = []")
    case True
    have "rf' = advance_commit (LeaderCommit a) ?rf" using e t mm True by (auto simp: AppendEntries_eq Let_def log_mismatch_adopt)
    moreover have "AppendEntries tk a g = Inr (advance_commit (LeaderCommit a) ?g, reply)"
      using t mg True sel r by (simp add: AppendEntries_eq Let_def log_mismatch_adopt)
    ultimately show ?thesis using expands_advance [OF x2] by simp
  next
    case False
    then obtain lg rest where m: "merge_entries ?rf (PrevLogIndex a + 1) (Entries a) = Inr (lg, rest)"
      "rf' = advance_commit (LeaderCommit a) (append_new (lg, rest) ?rf)"
      using e t mm by (auto simp: AppendEntries_eq Let_def log_mismatch_adopt go_map_eq_Inr)
    have "\<exists>full. merge_entries ?g (PrevLogIndex a + 1) (Entries a) = Inr (full, rest) \<and> compacted (lastIncludedIndex ?rf) lg full \<and>
        full ! nat (lastIncludedIndex ?rf) = log ?g ! nat (lastIncludedIndex ?rf)"
    proof (cases "lastIncludedIndex rf \<le> PrevLogIndex a")
      case True
      then show ?thesis using expands_merge [OF x2 _ m(1)] by simp
    next
      case low: False
      then have "PrevLogIndex a = 0" using no_mismatch(1) [OF mm] pos by linarith
      then show ?thesis using expands_merge_start [OF x2, of "Entries a" lg rest] m(1) low False terms agree by simp
    qed
    then obtain full where f: "merge_entries ?g (PrevLogIndex a + 1) (Entries a) = Inr (full, rest)"
      "expands (append_new (lg, rest) ?rf) (append_new (full, rest) ?g)" using expands_append_new [OF x2 m(1)] by blast
    have "AppendEntries tk a g = Inr (advance_commit (LeaderCommit a) (append_new (full, rest) ?g), reply)"
      using t mg False sel r f(1) by (simp add: AppendEntries_eq Let_def log_mismatch_adopt)
    then show ?thesis using expands_advance [OF f(2)] m(2) by simp
  qed
qed

section \<open>Snapshots and restarts\<close>

lemma expands_Snapshot:
  assumes x: "expands rf g" and k: "index \<le> commitIndex rf"
  shows "expands (Snapshot index snap rf) g"
proof (cases "index \<le> lastIncludedIndex rf \<or> index - lastIncludedIndex rf \<ge> int (length (log rf))")
  case True
  then have "Snapshot index snap rf = rf" by (auto simp: Snapshot_def)
  then show ?thesis using x by simp
next
  case False
  let ?k = "lastIncludedIndex rf"
  have c: "compacted ?k (log rf) (log g)" using x by (simp add: expands_def)
  have i: "?k < index" "index < int (length (log g))" "0 \<le> ?k" using False compacted_length [OF c] c by (auto simp: compacted_def)
  have lit: "Term (log rf ! nat (index - ?k)) = Term (log g ! nat index)"
    using compacted_term [OF c, of "nat (index - ?k)"] False i by (simp flip: nat_add_distrib)
  define lg where "lg = \<lparr>Command = None, Term = Term (log g ! nat index)\<rparr> # drop (nat (index - ?k) + 1) (log rf)"
  have "Snapshot index snap rf =
      persist_with snap (rf\<lparr>lastIncludedTerm := Term (log g ! nat index), log := lg, lastIncludedIndex := index\<rparr>)"
    using False lit i by (auto simp: Snapshot_def Let_def lg_def nat_add_distrib)
  moreover have "compacted index lg (log g)" using compacted_more [OF c i(1,2)] by (simp add: lg_def)
  ultimately show ?thesis using x k by (simp add: expands_def)
qed

lemma Snapshot_state [simp]: "state (Snapshot index snap rf) = state rf" "currentTerm (Snapshot index snap rf) = currentTerm rf"
  by (simp_all add: Snapshot_def Let_def)

lemma Make_fields:
  assumes "durable rf" and "rf' = Make (npeers rf) (me rf) (Persister_Copy (persister rf)) tk"
  shows "log rf' = log rf" "lastIncludedIndex rf' = lastIncludedIndex rf" "lastIncludedTerm rf' = lastIncludedTerm rf"
    "currentTerm rf' = currentTerm rf" "votedFor rf' = votedFor rf" "state rf' = Follower" "commitIndex rf' = max 0 (lastIncludedIndex rf)"
    "me rf' = me rf" "npeers rf' = npeers rf" "matchIndex rf' = []" "nextIndex rf' = []" "votesReceived rf' = 0" "durable rf'"
proof -
  have "encode_state rf' = encode_state (Make (npeers rf) (me rf) (persister rf) (0, 0))" unfolding assms(2)
    by (auto simp: Make_def readPersist_def encode_state_def resetElectionTimeout_def split: option.splits)
  then have "encode_state rf' = encode_state rf" using assms(1) by (simp add: durable_def)
  then show "log rf' = log rf" "lastIncludedIndex rf' = lastIncludedIndex rf" "lastIncludedTerm rf' = lastIncludedTerm rf"
    "currentTerm rf' = currentTerm rf" "votedFor rf' = votedFor rf" by (simp_all add: encode_state_def)
  show "state rf' = Follower" "commitIndex rf' = max 0 (lastIncludedIndex rf)" using restart_log [OF assms] by auto
  show "me rf' = me rf" "npeers rf' = npeers rf" "matchIndex rf' = []" "nextIndex rf' = []" "votesReceived rf' = 0"
    by (auto simp: assms(2) Make_def readPersist_def resetElectionTimeout_def split: option.splits)
  show "durable rf'" using restart_fields [OF assms(1), of tk] assms(2) by simp
qed

lemma expands_restart:
  assumes x: "expands rf g" and d: "durable rf"
  shows "expands (Make (npeers rf) (me rf) (Persister_Copy (persister rf)) tk)
    ((Make (npeers g) (me g) (Persister_Copy (persister g)) tk)\<lparr>commitIndex := lastIncludedIndex rf\<rparr>)"
proof -
  have "durable g" using expands_sel [OF x] by simp
  note r = Make_fields [OF d refl, of tk] and q = Make_fields [OF this refl, of tk]
  show ?thesis
    using x r q by (auto simp: expands_def compacted_def intro: durable_frame)
qed

text \<open>An installed snapshot does to the expansion what an append of everything it covers would do. The
  snapshot must not land on a suffix of the log that does not belong behind it.\<close>

definition as_append :: "'c leader_logs \<Rightarrow> 's InstallSnapshotArgs \<Rightarrow> 'c AppendEntriesArgs" where
  "as_append L a = \<lparr>AETerm = ISTerm a, LeaderId = ISLeaderId a, PrevLogIndex = 0, PrevLogTerm = 0,
     Entries = take (nat (ISLastIncludedIndex a)) (drop 1 (L (ISTerm a))), LeaderCommit = ISLastIncludedIndex a\<rparr>"

definition snap_ok :: "'c leader_logs \<Rightarrow> 's InstallSnapshotArgs \<Rightarrow> bool" where
  "snap_ok L a \<longleftrightarrow> 0 \<le> ISLastIncludedIndex a \<and> nat (ISLastIncludedIndex a) + 1 \<le> length (L (ISTerm a)) \<and>
     ISLastIncludedTerm a = Term (L (ISTerm a) ! nat (ISLastIncludedIndex a))"

definition belongs :: "'s InstallSnapshotArgs \<Rightarrow> ('c, 's) Raft \<Rightarrow> bool" where
  "belongs a rf \<longleftrightarrow> (currentTerm rf \<le> ISTerm a \<and> lastIncludedIndex rf < ISLastIncludedIndex a \<and> ISLastIncludedIndex a < getLastLogIndex rf \<longrightarrow>
     getLogTerm rf (ISLastIncludedIndex a) = ISLastIncludedTerm a)"

lemma as_append_ok:
  assumes "snap_ok L a"
  shows "append_ok L (as_append L a)" "length (Entries (as_append L a)) = nat (ISLastIncludedIndex a)"
proof -
  show l: "length (Entries (as_append L a)) = nat (ISLastIncludedIndex a)" using assms by (auto simp: as_append_def snap_ok_def min_def)
  show "append_ok L (as_append L a)" using assms l by (auto simp: append_ok_def segment_ok_def as_append_def snap_ok_def Let_def min_def)
qed

lemma as_append_grow:
  assumes "snap_ok L a" and "grows L L'"
  shows "as_append L' a = as_append L a" "snap_ok L' a"
proof -
  obtain e where e: "L' (ISTerm a) = L (ISTerm a) @ e" using assms(2) by (auto simp: grows_def)
  then show "as_append L' a = as_append L a" "snap_ok L' a" using assms(1) by (auto simp: as_append_def snap_ok_def nth_append)
qed

text \<open>The append on the expansion: it succeeds, and leaves the log alone where it already agrees.\<close>

lemma adopt_sel_more [simp]:
  "matchIndex (adopt tk t rf) = matchIndex rf" "nextIndex (adopt tk t rf) = nextIndex rf" "votesReceived (adopt tk t rf) = votesReceived rf"
  by (simp_all add: adopt_def)

lemma merged_same:
  assumes es: "es = take (length es) (drop p M)" "p + length es \<le> length M" and lii: "lastIncludedIndex rf = 0"
    and k: "p + length es \<le> length (log rf)" "take (p + length es) (log rf) = take (p + length es) M"
  shows "merged rf (int p) es = log rf"
proof -
  have "agreeing rf (int p) es = length es"
  proof (rule agreeing_all)
    fix j assume j: "j < length es"
    have "log rf ! (p + j) = M ! (p + j)" using k(2) j by (metis nth_take nat_add_left_cancel_less)
    moreover have "es ! j = M ! (p + j)" using es j by (metis nth_drop nth_take add_leD1)
    ultimately show "int p + int j \<le> getLastLogIndex rf \<and> getLogTerm rf (int p + int j) = Term (es ! j)"
      using lii j k by (simp add: getLogTerm_def toArrayIndex_def getLastLogIndex_def Let_def nat_add_distrib)
  qed
  then show ?thesis by (simp add: merged_def)
qed

lemma append_from_start_log:
  assumes lg: "logs_ok L Lead" "log_ok L (log g)" "lastIncludedIndex g = 0" and a: "snap_ok L a"
    and e: "AppendEntries tk (as_append L a) g = Inr (g', r)" "Success r"
    and k: "k = nat (ISLastIncludedIndex a) + 1" and M: "M = L (ISTerm a)"
  shows "log g' = (if k \<le> length (log g) \<and> take k (log g) = take k M then log g else take k M)" "k \<le> length (log g')"
proof -
  let ?a = "as_append L a"
  have f: "AETerm ?a = ISTerm a" "PrevLogIndex ?a = 0" by (simp_all add: as_append_def)
  have both: "log g' = (if k \<le> length (log g) \<and> take k (log g) = take k M then log g else take k M) \<and> k \<le> length (log g')"
    using lg as_append_ok(1) [OF a] e(1)
  proof (cases rule: append_accepted)
    case (accepted p)
    have p: "p = 1" "p + length (Entries ?a) = k" using accepted(3) f as_append_ok(2) [OF a] k by auto
    have es: "Entries ?a = take (length (Entries ?a)) (drop p M)" "p + length (Entries ?a) \<le> length M" using accepted(10,11) f M by simp_all
    have m: "matching L (log g)" "matching L M" using lg accepted(12) M f by (simp_all add: log_ok_def)
    have mm: "(log g' = log g \<or> log g' = take k M) \<and> k \<le> length (log g') \<and> take k (log g') = take k M"
      using merge_matching [OF m lg(3) accepted(8) _ es] accepted(2,9) M f p by simp
    show ?thesis
    proof (cases "k \<le> length (log g) \<and> take k (log g) = take k M")
      case True
      then show ?thesis using merged_same [OF es lg(3)] accepted(2) p by simp
    qed (use mm in auto)
  qed (use e(2) in simp)
  show "log g' = (if k \<le> length (log g) \<and> take k (log g) = take k M then log g else take k M)" using both by (rule conjunct1)
  show "k \<le> length (log g')" using both by (rule conjunct2)
qed

lemma append_from_start:
  assumes lg: "logs_ok L Lead" "log_ok L (log g)" "lastIncludedIndex g = 0" and a: "snap_ok L a" and t: "currentTerm g \<le> ISTerm a"
    and k: "k = nat (ISLastIncludedIndex a) + 1" and M: "M = L (ISTerm a)"
  obtains g' where "AppendEntries tk (as_append L a) g = Inr (g', \<lparr>AERTerm = currentTerm g, Success = True, ConflictTerm = 0, ConflictIndex = 0\<rparr>)"
    "log g' = (if k \<le> length (log g) \<and> take k (log g) = take k M then log g else take k M)"
    "commitIndex g' = (if commitIndex g < ISLastIncludedIndex a then ISLastIncludedIndex a else commitIndex g)"
    "currentTerm g' = ISTerm a" "state g' = Follower" "votedFor g' = votedFor (adopt tk (ISTerm a) g)" "matchIndex g' = matchIndex g"
    "nextIndex g' = nextIndex g" "votesReceived g' = votesReceived g" "me g' = me g" "npeers g' = npeers g" "lastIncludedIndex g' = 0"
proof -
  let ?a = "as_append L a" and ?g = "adopt tk (ISTerm a) g"
  let ?r = "\<lparr>AERTerm = currentTerm g, Success = True, ConflictTerm = 0, ConflictIndex = 0\<rparr>"
  have f: "AETerm ?a = ISTerm a" "PrevLogIndex ?a = 0" "LeaderCommit ?a = ISLastIncludedIndex a" by (simp_all add: as_append_def)
  have len: "log g \<noteq> []" using lg(2) by (simp add: log_ok_def)
  then have l1: "1 \<le> getLastLogIndex ?g + 1" using lg(3) by (cases "log g") (auto simp: getLastLogIndex_def)
  have "\<exists>p. merge_entries ?g 1 (Entries ?a) = Inr p" using merge_entries_spec [of ?g 1 "Entries ?a"] l1 len lg(3) by simp
  then obtain p where p: "merge_entries ?g 1 (Entries ?a) = Inr p" ..
  define g3 where "g3 = (if length (Entries ?a) > 0 then append_new p ?g else ?g)"
  have s3: "currentTerm g3 = ISTerm a" "state g3 = Follower" "votedFor g3 = votedFor ?g" "matchIndex g3 = matchIndex g" "nextIndex g3 = nextIndex g"
    "votesReceived g3 = votesReceived g" "me g3 = me g" "npeers g3 = npeers g" "lastIncludedIndex g3 = 0" "commitIndex g3 = commitIndex g"
    using t lg(3) by (simp_all add: g3_def)
  define g' where "g' = advance_commit (ISLastIncludedIndex a) g3"
  have e: "AppendEntries tk ?a g = Inr (g', ?r)"
    using p t f by (simp add: AppendEntries_eq Let_def log_mismatch_adopt log_mismatch_def g'_def g3_def)
  note lg' = append_from_start_log [OF lg a e _ k M]
  have "commitIndex g' = (if commitIndex g < ISLastIncludedIndex a then ISLastIncludedIndex a else commitIndex g)"
    using lg'(2) s3(9,10) k a by (auto simp: g'_def advance_commit_def getLastLogIndex_def snap_ok_def)
  then show thesis using that [OF e] lg'(1) s3 by (simp add: g'_def)
qed

text \<open>Installing a snapshot is that append: the entries covered come from the leader's log, and a log that already holds the last one
  of them keeps what follows.\<close>

lemma install_log:
  assumes ex: "expands rf g" and lg: "logs_ok L Lead" "log_ok L (log g)" and a: "snap_ok L a" and b: "belongs a rf" "currentTerm rf \<le> ISTerm a"
    and new: "lastIncludedIndex rf < ISLastIncludedIndex a" and k: "k = nat (ISLastIncludedIndex a) + 1" and M: "M = L (ISTerm a)"
    and h: "h = (if k \<le> length (log g) \<and> take k (log g) = take k M then log g else take k M)"
    and rf2: "log rf2 = log rf" "lastIncludedIndex rf2 = lastIncludedIndex rf"
  shows "compacted (ISLastIncludedIndex a) (snapshot_log a rf2) h" "ISLastIncludedTerm a = Term (h ! nat (ISLastIncludedIndex a))"
proof -
  let ?n = "ISLastIncludedIndex a" and ?l = "lastIncludedIndex rf"
  have c: "compacted ?l (log rf) (log g)" and lii: "lastIncludedIndex g = 0" using ex by (auto simp: expands_def)
  have len: "int (length (log rf)) + ?l = int (length (log g))" "0 \<le> ?l" using compacted_length [OF c] c by (auto simp: compacted_def)
  have s: "0 \<le> ?n" "k \<le> length M" "ISLastIncludedTerm a = Term (M ! nat ?n)" using a k M by (auto simp: snap_ok_def)
  have m: "matching L (log g)" "matching L M" using lg leader_log_ok [OF lg(1), of k "ISTerm a"] s(2) k M by (auto simp: log_ok_def)
  have nth: "h ! nat ?n = M ! nat ?n" "k \<le> length h"
  proof -
    have "take k h = take k M" using h by simp
    then show "h ! nat ?n = M ! nat ?n" using k by (metis nth_take less_add_one)
  qed (use h s(2) in auto)
  show it: "ISLastIncludedTerm a = Term (h ! nat ?n)" using s(3) nth(1) by simp
  show "compacted ?n (snapshot_log a rf2) h"
  proof (cases "?n < getLastLogIndex rf")
    case True
    then have "getLogTerm g ?n = ISLastIncludedTerm a" using b new expands_term [OF ex, of ?n] by (simp add: belongs_def)
    then have "Term (log g ! nat ?n) = Term (M ! nat ?n)" "nat ?n < length (log g)"
      using True len s lii by (auto simp: getLogTerm_def toArrayIndex_def getLastLogIndex_def Let_def)
    then have "take k (log g) = take k M" "k \<le> length (log g)" using matching_agree [OF m, of "nat ?n"] s(2) k by auto
    then have hg: "h = log g" using h by simp
    have "snapshot_log a rf2 = \<lparr>Command = None, Term = Term (h ! nat ?n)\<rparr> # drop (nat (?n - ?l) + 1) (log rf)"
      using True new len it rf2 by (auto simp: snapshot_log_def getLastLogIndex_def toArrayIndex_def Let_def nat_add_distrib nat_diff_distrib Suc_diff_le)
    then show ?thesis using compacted_more [OF c new] hg True len by (simp add: getLastLogIndex_def)
  next
    case False
    then have "length h = k" using h s k len by (auto simp: getLastLogIndex_def)
    moreover have "snapshot_log a rf2 = [\<lparr>Command = None, Term = Term (h ! nat ?n)\<rparr>]"
      using False it rf2 by (simp add: snapshot_log_def getLastLogIndex_def)
    ultimately show ?thesis using s(1) k by (simp add: compacted_def)
  qed
qed

lemma expands_install:
  assumes ex: "expands rf g" and lg: "logs_ok L Lead" "log_ok L (log g)" and a: "snap_ok L a" and b: "belongs a rf" "currentTerm rf \<le> ISTerm a"
    and old: "ISLastIncludedIndex a \<le> lastIncludedIndex rf \<Longrightarrow>
      take (nat (ISLastIncludedIndex a) + 1) (log g) = take (nat (ISLastIncludedIndex a) + 1) (L (ISTerm a))"
    and e: "InstallSnapshot tk a rf = (rf', r)"
  obtains g' where "AppendEntries tk (as_append L a) g = Inr (g', \<lparr>AERTerm = r, Success = True, ConflictTerm = 0, ConflictIndex = 0\<rparr>)"
    "expands rf' g'" "state g' = Follower" "currentTerm rf' = ISTerm a" "state rf' = state rf \<or> state rf' = Follower"
    "currentTerm rf < ISTerm a \<Longrightarrow> state rf' = Follower" "r = currentTerm rf"
proof -
  let ?k = "nat (ISLastIncludedIndex a) + 1"
  have t: "currentTerm g \<le> ISTerm a" "lastIncludedIndex g = 0" "durable g" using b(2) ex by (auto simp: expands_def)
  obtain g' where g': "AppendEntries tk (as_append L a) g = Inr (g', \<lparr>AERTerm = currentTerm g, Success = True, ConflictTerm = 0, ConflictIndex = 0\<rparr>)"
    "log g' = (if ?k \<le> length (log g) \<and> take ?k (log g) = take ?k (L (ISTerm a)) then log g else take ?k (L (ISTerm a)))"
    "commitIndex g' = (if commitIndex g < ISLastIncludedIndex a then ISLastIncludedIndex a else commitIndex g)"
    "currentTerm g' = ISTerm a" "state g' = Follower" "votedFor g' = votedFor (adopt tk (ISTerm a) g)" "matchIndex g' = matchIndex g"
    "nextIndex g' = nextIndex g" "votesReceived g' = votesReceived g" "me g' = me g" "npeers g' = npeers g" "lastIncludedIndex g' = 0"
    by (rule append_from_start [OF lg t(2) a t(1) refl refl])
  have d: "durable g'" by (rule durable_AppendEntries [OF t(3) g'(1)])
  define rf2 where "rf2 = resetElectionTimeout tk (if ISTerm a > currentTerm rf then newTerm (ISTerm a) rf else rf)"
  have s2: "log rf2 = log rf" "lastIncludedIndex rf2 = lastIncludedIndex rf" "lastIncludedTerm rf2 = lastIncludedTerm rf" "me rf2 = me g"
    "npeers rf2 = npeers g" "currentTerm rf2 = ISTerm a" "votedFor rf2 = votedFor (adopt tk (ISTerm a) g)" "commitIndex rf2 = commitIndex g"
    "matchIndex rf2 = matchIndex g" "nextIndex rf2 = nextIndex g" "votesReceived rf2 = votesReceived g"
    using b(2) ex by (auto simp: rf2_def adopt_def expands_def)
  have r: "r = currentTerm rf" and rf': "rf' = (if ISLastIncludedIndex a \<le> lastIncludedIndex rf2 then rf2 else persist_with (ISData a)
     (rf2\<lparr>log := snapshot_log a rf2, lastIncludedIndex := ISLastIncludedIndex a, lastIncludedTerm := ISLastIncludedTerm a,
        commitIndex := (if ISLastIncludedIndex a > commitIndex rf2 then ISLastIncludedIndex a else commitIndex rf2)\<rparr>))"
    using e b(2) by (auto simp: InstallSnapshot_def Let_def rf2_def split: if_splits)
  have "expands rf' g'"
  proof (cases "ISLastIncludedIndex a \<le> lastIncludedIndex rf")
    case True
    have "?k \<le> length (log g)" using True ex a by (auto simp: expands_def compacted_def snap_ok_def)
    then have "log g' = log g" using g'(2) old [OF True] by simp
    moreover have "commitIndex g' = commitIndex rf" using g'(3) True ex by (auto simp: expands_def)
    ultimately show ?thesis using expands_frame [OF ex, of rf2 g'] rf' True s2 g' t d ex by (simp add: expands_def)
  next
    case False
    then have new: "lastIncludedIndex rf < ISLastIncludedIndex a" by simp
    note il = install_log [OF ex lg a b new refl refl g'(2) s2(1,2)]
    then show ?thesis using rf' False s2 g' d by (simp add: expands_def)
  qed
  moreover have "currentTerm rf' = ISTerm a" using rf' s2(6) by simp
  moreover have "state rf' = state rf \<or> state rf' = Follower" "currentTerm rf < ISTerm a \<Longrightarrow> state rf' = Follower"
    using rf' by (auto simp: rf2_def)
  ultimately show thesis using that g' r ex by (simp add: expands_def)
qed

end
