(* ===== verification/RaftSnapshots.thy ===== *)
theory RaftSnapshots
  imports RaftCompaction
begin

text \<open>
  Safety of a cluster that takes snapshots. A cluster whose peers compact their logs is simulated by
  one whose peers keep them whole: each peer is compared with its expansion (\<open>RaftCompaction\<close>), and a
  snapshot in flight with an append of all the entries it covers. The invariant of \<open>RaftChosen\<close> holds
  of the expanded cluster, and with it what a commit index stands for.

  Two conditions on a run make it tidy: the service takes snapshots of indices that are committed (as
  every service of the repository does: it has applied them), and an installed snapshot does not land
  on a log whose entry at its last index has another term (the handler keeps the entries behind that
  index without looking).
\<close>

section \<open>The expanded cluster\<close>

definition abs_payload :: "'c leader_logs \<Rightarrow> ('c, 's) payload \<Rightarrow> ('c, 's) payload" where
  "abs_payload L q = (case q of
       SnapCall a \<Rightarrow> AppendCall (as_append L a)
     | SnapReturn a r \<Rightarrow> AppendReturn (as_append L a)
         \<lparr>AERTerm = r, Success = (r \<le> ISTerm a), ConflictTerm = 0, ConflictIndex = 0\<rparr>
     | _ \<Rightarrow> q)"

definition abs_packet :: "'c leader_logs \<Rightarrow> ('c, 's) packet \<Rightarrow> ('c, 's) packet" where
  "abs_packet L p = p\<lparr>payload := abs_payload L (payload p)\<rparr>"

definition abs_cluster :: "'c leader_logs \<Rightarrow> (nat \<Rightarrow> ('c, 's) Raft) \<Rightarrow> ('c, 's) cluster \<Rightarrow> ('c, 's) cluster" where
  "abs_cluster L G s = \<lparr>peer = G, inst = inst s, pending = pending s, net = map (abs_packet L) (net s)\<rparr>"

lemma abs_cluster_sel [simp]:
  "peer (abs_cluster L G s) = G" "inst (abs_cluster L G s) = inst s" "pending (abs_cluster L G s) = pending s"
  "net (abs_cluster L G s) = map (abs_packet L) (net s)"
  by (simp_all add: abs_cluster_def)

lemma abs_packet_sel [simp]:
  "caller (abs_packet L p) = caller p" "caller_inst (abs_packet L p) = caller_inst p" "callee (abs_packet L p) = callee p"
  "payload (abs_packet L p) = abs_payload L (payload p)" "abs_packet L (p\<lparr>payload := q\<rparr>) = p\<lparr>payload := abs_payload L q\<rparr>"
  by (simp_all add: abs_packet_def)

lemma abs_payload_simps [simp]:
  "abs_payload L (VoteCall v) = VoteCall v" "abs_payload L (VoteReturn v w) = VoteReturn v w"
  "abs_payload L (AppendCall c) = AppendCall c" "abs_payload L (AppendReturn c d) = AppendReturn c d"
  "abs_payload L (SnapCall a) = AppendCall (as_append L a)"
  "abs_payload L (SnapReturn a r) = AppendReturn (as_append L a)
     \<lparr>AERTerm = r, Success = (r \<le> ISTerm a), ConflictTerm = 0, ConflictIndex = 0\<rparr>"
  by (simp_all add: abs_payload_def)

text \<open>A peer and its expansion have the same role, except that a candidate that installs a snapshot of the
  winner of its term stays a candidate, which it can no longer win.\<close>

definition same_role :: "nat \<Rightarrow> ballot_history \<Rightarrow> nat \<Rightarrow> ('c, 's) Raft \<Rightarrow> ('c, 's) Raft \<Rightarrow> bool" where
  "same_role n V i rf g \<longleftrightarrow> state g = state rf \<or>
     state rf = Candidate \<and> state g = Follower \<and> (\<exists>l. l \<noteq> i \<and> majority {..<n} (voters n V l (currentTerm rf)))"

definition snap_packet :: "nat \<Rightarrow> ballot_history \<Rightarrow> 'c leader_logs \<Rightarrow> ('c, 's) packet \<Rightarrow> bool" where
  "snap_packet n V L p \<longleftrightarrow> (case payload p of
       SnapCall a \<Rightarrow> snap_ok L a \<and> majority {..<n} (voters n V (caller p) (ISTerm a))
     | SnapReturn a r \<Rightarrow> snap_ok L a
     | _ \<Rightarrow> True)"

definition sim :: "nat \<Rightarrow> ballot_history \<Rightarrow> 'c leader_logs \<Rightarrow> (nat \<Rightarrow> ('c, 's) Raft) \<Rightarrow> ('c, 's) cluster \<Rightarrow> bool" where
  "sim n V L G s \<longleftrightarrow> (\<forall>i. expands (peer s i) (G i) \<and> same_role n V i (peer s i) (G i)) \<and>
     (\<forall>p \<in> set (net s). snap_packet n V L p)"

definition snap_inv :: "nat \<Rightarrow> ballot_history \<Rightarrow> tally \<Rightarrow> 'c leader_logs \<Rightarrow> (int \<Rightarrow> nat option) \<Rightarrow> acks \<Rightarrow>
    'c vote_logs \<Rightarrow> (nat \<Rightarrow> ('c, 's) Raft) \<Rightarrow> ('c, 's) cluster \<Rightarrow> bool" where
  "snap_inv n V K L Lead A W G s \<longleftrightarrow>
     election_inv n V K s \<and> sim n V L G s \<and> raft_inv n V K L Lead A W (abs_cluster L G s)"

lemma voters_majority: "extends V V' \<Longrightarrow> majority {..<n} (voters n V c t) \<Longrightarrow> majority {..<n} (voters n V' c t)"
  by (erule majority_mono [OF _ voters_mono]) (auto simp: voters_def)

lemma one_majority: "majority {..<n} (voters n V c t) \<Longrightarrow> majority {..<n} (voters n V d t) \<Longrightarrow> c = d"
  using majority_meet [of "{..<n}" "voters n V c t" "voters n V d t"] by (auto simp: voters_def)

lemma same_role_mono: "same_role n V i rf g \<Longrightarrow> extends V V' \<Longrightarrow> same_role n V' i rf g"
  unfolding same_role_def using voters_majority by blast

lemma same_role_state: "same_role n V i rf g \<Longrightarrow> state rf \<noteq> Candidate \<Longrightarrow> state g = state rf"
  by (auto simp: same_role_def)

lemma snap_packet_mono: "snap_packet n V L p \<Longrightarrow> extends V V' \<Longrightarrow> snap_packet n V' L p"
  by (auto simp: snap_packet_def voters_majority split: payload.splits)

lemma sim_own: "sim n V L G s \<Longrightarrow> expands (peer s i) (G i)" "sim n V L G s \<Longrightarrow> same_role n V i (peer s i) (G i)"
  "sim n V L G s \<Longrightarrow> p \<in> set (net s) \<Longrightarrow> snap_packet n V L p"
  by (auto simp: sim_def)

text \<open>What elections rely on is the same in both clusters.\<close>

lemma ballots_abs [simp]: "ballots c v t (map (abs_packet L) ps) = ballots c v t ps"
proof -
  have "vote_term (abs_packet L p) = vote_term p" for p :: "('a, 'b) packet"
    by (auto simp: vote_term_def abs_payload_def split: payload.splits)
  then show ?thesis by (simp add: ballots_def filter_map o_def)
qed

lemma sim_election:
  assumes el: "election_inv n V K s" and sm: "sim n V L G s"
  shows "election_inv n V K (abs_cluster L G s)"
proof -
  have "peer_ok n i (G i) \<and> voter_ok V i (G i) \<and> candidate_ok n V K i (pending s i) (G i) \<and>
      tally_ok K i (pending s i) (currentTerm (G i)) (map (abs_packet L) (net s))" if i: "i < n" for i
  proof -
    note own = inv_own [OF el i] and x = expands_sel [OF sim_own(1) [OF sm, of i]]
    have st: "state (G i) = state (peer s i) \<or> state (G i) = Follower" using sim_own(2) [OF sm, of i] by (auto simp: same_role_def)
    have "tally_ok K i (pending s i) (currentTerm (G i)) (map (abs_packet L) (net s))" using own(4) x by (simp add: tally_ok_def)
    then show ?thesis using own x st by (auto simp: peer_ok_def voter_ok_def candidate_ok_def)
  qed
  moreover have "packet_ok n V (abs_packet L p)" if "p \<in> set (net s)" for p
    using el that by (auto simp: election_inv_def packet_ok_def abs_payload_def split: payload.splits)
  ultimately show ?thesis by (auto simp: election_inv_def)
qed

lemma sim_casts: "casts V V' s' \<Longrightarrow> sim n V' L G' s' \<Longrightarrow> casts V V' (abs_cluster L G' s')"
  using expands_sel [OF sim_own(1)] unfolding casts_def by fastforce

lemma sim_put:
  assumes sm: "sim n V L G s" and ext: "extends V V'" and peer: "peer s' = (peer s)(i := rf')"
    and x: "expands rf' g'" and ro: "same_role n V' i rf' g'"
    and net: "\<And>q. q \<in> set (net s') \<Longrightarrow> q \<in> set (net s) \<or> snap_packet n V' L q"
  shows "sim n V' L (G(i := g')) s'"
proof -
  have "expands (peer s' j) ((G(i := g')) j) \<and> same_role n V' j (peer s' j) ((G(i := g')) j)" for j
    using sim_own(1,2) [OF sm, of j] same_role_mono [OF _ ext] peer x ro by auto
  moreover have "snap_packet n V' L q" if "q \<in> set (net s')" for q
    using net [OF that] snap_packet_mono [OF sim_own(3) [OF sm] ext] by blast
  ultimately show ?thesis by (simp add: sim_def)
qed

text \<open>When the leaders' logs grow, the expanded cluster stays the same.\<close>

lemma sim_grow:
  assumes sm: "sim n V L G s" and g: "grows L L'"
  shows "sim n V L' G s" "abs_cluster L' G s = abs_cluster L G s"
proof -
  have p: "snap_packet n V L' p \<and> abs_packet L' p = abs_packet L p" if "p \<in> set (net s)" for p
    using sim_own(3) [OF sm that] as_append_grow [OF _ g]
    by (auto simp: snap_packet_def abs_packet_def abs_payload_def split: payload.splits)
  then show "sim n V L' G s" "abs_cluster L' G s = abs_cluster L G s" using sm by (auto simp: sim_def abs_cluster_def)
qed

definition snap_step :: "nat \<Rightarrow> ballot_history \<Rightarrow> tally \<Rightarrow> 'c leader_logs \<Rightarrow> acks \<Rightarrow> ('c, 's) cluster \<Rightarrow> bool" where
  "snap_step n V' K' L A s' \<longleftrightarrow> (\<exists>L' Lead' A' W' G'. snap_inv n V' K' L' Lead' A' W' G' s' \<and> grows L L' \<and>
     (\<forall>t m. chosen n L A t m \<longrightarrow> chosen n L' A' t m))"

lemma snap_move:
  assumes el: "election_inv n V' K' s'" and sm: "sim n V' L G' s'"
    and r: "\<exists>L' Lead' A' W'. raft_inv n V' K' L' Lead' A' W' (abs_cluster L G' s') \<and> acks_move L A a L' A' (abs_cluster L G' s')"
  shows "snap_step n V' K' L A s'"
proof -
  obtain L' Lead' A' W' where i: "raft_inv n V' K' L' Lead' A' W' (abs_cluster L G' s')"
    and mv: "acks_move L A a L' A' (abs_cluster L G' s')" using r by blast
  have g: "grows L L'" using mv by (simp add: acks_move_def)
  then have "snap_inv n V' K' L' Lead' A' W' G' s'" using el i sim_grow [OF sm g] by (simp add: snap_inv_def)
  then show ?thesis using g chosen_mono [OF _ mv] unfolding snap_step_def by blast
qed

text \<open>A section that neither votes nor makes a leader nor appends.\<close>

lemma snap_calm:
  assumes inv: "snap_inv n V K L Lead A W G s" and el: "election_inv n V' K' s'" and cs: "casts V V' s'"
    and peer: "peer s' = (peer s)(i := rf')" and x: "expands rf' g'" and ro: "same_role n V' i rf' g'"
    and ab: "abstains (G i) g'" and lg: "log g' = log (G i)"
    and mi: "i < n \<Longrightarrow> matchIndex g' = matchIndex (G i) \<or> leader_ok n A i g'"
    and ci: "i < n \<Longrightarrow> commitIndex g' = commitIndex (G i) \<or> committed n L A (currentTerm g') (log g') (commitIndex g')"
    and net: "\<And>q. q \<in> set (net s') \<Longrightarrow> q \<in> set (net s) \<or> snap_packet n V' L q \<and> packet_match L (abs_packet L q) \<and>
      packet_safe n L A (abs_cluster L (G(i := g')) s') (abs_packet L q)"
  shows "snap_step n V' K' L A s'"
proof -
  have sm: "sim n V L G s" and r: "raft_inv n V K L Lead A W (abs_cluster L G s)" using inv by (auto simp: snap_inv_def)
  have sm': "sim n V' L (G(i := g')) s'" by (rule sim_put [OF sm casts_extends [OF cs] peer x ro]) (use net in blast)
  have "\<exists>W'. raft_inv n V' K' L Lead A W' (abs_cluster L (G(i := g')) s') \<and> acks_move L A (abs_cluster L G s) L A (abs_cluster L (G(i := g')) s')"
    by (rule raft_calm [OF r sim_election [OF el sm'] sim_casts [OF cs sm'], of i g']) (use ab lg mi ci net in auto)
  then show ?thesis using snap_move [OF el sm'] by blast
qed

section \<open>Elections\<close>

lemma snap_own:
  assumes "snap_inv n V K L Lead A W G s"
  shows "election_inv n V K s" "sim n V L G s" "raft_inv n V K L Lead A W (abs_cluster L G s)" "expands (peer s i) (G i)"
    "same_role n V i (peer s i) (G i)" "p \<in> set (net s) \<Longrightarrow> snap_packet n V L p"
    "p \<in> set (net s) \<Longrightarrow> packet_safe n L A (abs_cluster L G s) (abs_packet L p)"
    "p \<in> set (net s) \<Longrightarrow> packet_match L (abs_packet L p)" "p \<in> set (net s) \<Longrightarrow> packet_ok n V p"
    "i < n \<Longrightarrow> peer_match L Lead i (G i)"
    "i < n \<Longrightarrow> committed n L A (currentTerm (G i)) (log (G i)) (commitIndex (G i))"
  using assms raft_own(8,10) [of n V K L Lead A W "abs_cluster L G s" "abs_packet L p"] raft_own(7,9) [of n V K L Lead A W "abs_cluster L G s" i]
  by (auto simp: snap_inv_def sim_def election_inv_def)

lemma abstains_refl [simp]: "abstains rf rf"
  by (simp add: abstains_def follows_def)

text \<open>Nothing changes but what the expansion does not see.\<close>

lemma snap_same:
  assumes inv: "snap_inv n V K L Lead A W G s" and el: "election_inv n V' K' s'" and cs: "casts V V' s'"
    and peer: "peer s' = (peer s)(i := rf')" and x: "expands rf' (G i)" and st: "state rf' = state (peer s i)" "currentTerm rf' = currentTerm (peer s i)"
    and net: "set (net s') \<subseteq> set (net s)"
  shows "snap_step n V' K' L A s'"
proof (rule snap_calm [OF inv el cs peer x])
  show "same_role n V' i rf' (G i)" using same_role_mono [OF snap_own(5) [OF inv, of i] casts_extends [OF cs]] st by (simp add: same_role_def)
qed (use net in auto)

lemma snap_network:
  assumes inv: "snap_inv n V K L Lead A W G s" and el: "election_inv n V' K' s'" and cs: "casts V V' s'"
    and peer: "peer s' = peer s" and net: "set (net s') \<subseteq> set (net s)"
  shows "snap_step n V' K' L A s'"
  by (rule snap_same [OF inv el cs, of 0 "peer s 0"]) (use peer net snap_own(4) [OF inv] in auto)

lemma snap_timeout:
  assumes inv: "snap_inv n V K L Lead A W G s" and el: "election_inv n V' K' s'" and cs: "casts V V' s'" and i: "i < n"
    and e: "checkElectionTimeout tk (peer s i) = (rf', started)" and peer: "peer s' = (peer s)(i := rf')" and net: "net s' = net s"
  shows "snap_step n V' K' L A s'"
proof (cases started)
  case True
  note x = snap_own(4) [OF inv, of i]
  obtain tk' g' where g: "checkElectionTimeout tk' (G i) = (g', True)" "expands rf' g'" "state g' = state rf'"
    using expands_checkElectionTimeout [OF x, of tk rf'] e True by auto
  have sm: "sim n V' L (G(i := g')) s'"
    by (rule sim_put [OF snap_own(2) [OF inv] casts_extends [OF cs] peer g(2)]) (use g(3) net in \<open>auto simp: same_role_def\<close>)
  show ?thesis
    using raft_timeout [OF snap_own(3) [OF inv] sim_election [OF el sm] sim_casts [OF cs sm] i, of tk' g' True] g(1) net
    by (intro snap_move [OF el sm]) (auto simp: fun_upd_def)
next
  case False
  then have "rf' = peer s i" using e by (auto simp: checkElectionTimeout_def split: if_splits)
  then show ?thesis using snap_network [OF inv el cs] peer net by simp
qed

lemma snap_run_election:
  assumes inv: "snap_inv n V K L Lead A W G s" and el: "election_inv n V' K' s'" and cs: "casts V V' s'" and i: "i < n"
    and e: "startElection (peer s i) = (rf', args)" and peer: "peer s' = (peer s)(i := rf')"
    and net: "net s' = net s @ map (request s i (VoteCall args)) vs"
  shows "snap_step n V' K' L A s'"
proof -
  define g' where "g' = (G i)\<lparr>votesReceived := 1\<rparr>"
  note x = expands_startElection [OF snap_own(4) [OF inv, of i] e, folded g'_def]
  have ro: "same_role n V' i rf' g'"
    using same_role_mono [OF snap_own(5) [OF inv, of i] casts_extends [OF cs]] e by (auto simp: same_role_def g'_def startElection_def Let_def)
  have sm: "sim n V' L (G(i := g')) s'"
    by (rule sim_put [OF snap_own(2) [OF inv] casts_extends [OF cs] peer x(2) ro]) (use net in \<open>auto simp: snap_packet_def request_def\<close>)
  have n': "net (abs_cluster L (G(i := g')) s') = net (abs_cluster L G s) @ map (request (abs_cluster L G s) i (VoteCall args)) vs"
    using net by (auto simp: request_def abs_packet_def)
  show ?thesis
    using raft_run_election [OF snap_own(3) [OF inv] sim_election [OF el sm] sim_casts [OF cs sm] i _ _ n'] x(1)
    by (intro snap_move [OF el sm]) auto
qed

lemma snap_vote_request:
  assumes inv: "snap_inv n V K L Lead A W G s" and el: "election_inv n V' K' s'" and cs: "casts V V' s'"
    and p: "p \<in> set (net s)" "payload p = VoteCall args"
    and e: "RequestVote tk args (peer s (callee p)) = (rf', reply)" and peer: "peer s' = (peer s)(callee p := rf')"
    and net: "\<And>q. q \<in> set (net s') \<Longrightarrow> q \<in> set (net s) \<or> q = p\<lparr>payload := VoteReturn args reply\<rparr>"
  shows "snap_step n V' K' L A s'"
proof -
  let ?v = "callee p"
  obtain g' where g: "RequestVote tk args (G ?v) = (g', reply)" "expands rf' g'"
    "state rf' = state (peer s ?v) \<and> state g' = state (G ?v) \<and> currentTerm rf' = currentTerm (peer s ?v) \<or> state rf' = Follower \<and> state g' = Follower"
    using expands_RequestVote [OF snap_own(4) [OF inv] e] by blast
  have ro: "same_role n V' ?v rf' g'"
    using same_role_mono [OF snap_own(5) [OF inv, of ?v] casts_extends [OF cs]] g(3) by (auto simp: same_role_def)
  have sm: "sim n V' L (G(?v := g')) s'"
    by (rule sim_put [OF snap_own(2) [OF inv] casts_extends [OF cs] peer g(2) ro]) (auto simp: snap_packet_def dest!: net)
  have pa: "abs_packet L p = p" using p(2) by (simp add: abs_packet_def)
  show ?thesis
    using raft_vote_request [OF snap_own(3) [OF inv] sim_election [OF el sm] sim_casts [OF cs sm], of p args ?v tk g' reply] g(1) p net pa
    by (intro snap_move [OF el sm]) force
qed

text \<open>A candidate whose expansion has stepped down cannot win: another peer has a majority of its term.\<close>

lemma voteReply_demoted:
  assumes x: "expands rf g" and st: "state rf = Candidate" "state g = Follower" and no: "state (voteReply args reply rf) \<noteq> Leader"
  obtains g' where "expands (voteReply args reply rf) g'" "abstains g g'" "log g' = log g" "matchIndex g' = matchIndex g" "commitIndex g' = commitIndex g"
    "state g' = Follower" "state (voteReply args reply rf) = Follower \<or>
      state (voteReply args reply rf) = Candidate \<and> currentTerm (voteReply args reply rf) = currentTerm rf"
proof -
  note sel = expands_sel [OF x]
  consider (old) "currentTerm rf \<noteq> RVTerm args \<or> \<not> VoteGranted reply \<and> RVRTerm reply \<le> currentTerm rf"
    | (new) "currentTerm rf = RVTerm args" "RVRTerm reply > currentTerm rf"
    | (vote) "currentTerm rf = RVTerm args" "RVRTerm reply \<le> currentTerm rf" "VoteGranted reply" by linarith
  then show thesis
  proof cases
    case old
    then have "voteReply args reply rf = rf" by (auto simp: voteReply_def)
    then show ?thesis using that [of g] x st by simp
  next
    case new
    then have "voteReply args reply rf = newTerm (RVRTerm reply) rf" using st by (simp add: voteReply_def)
    then show ?thesis using that [of "newTerm (RVRTerm reply) g"] expands_newTerm [OF x] new sel
      by (auto simp: abstains_def follows_def)
  next
    case vote
    then have "voteReply args reply rf = rf\<lparr>votesReceived := votesReceived rf + 1\<rparr>"
      using st no by (auto simp: voteReply_def Let_def initializeLeaderState_def split: if_splits)
    moreover have "expands (rf\<lparr>votesReceived := votesReceived rf + 1\<rparr>) (g\<lparr>votesReceived := votesReceived rf + 1\<rparr>)"
      using x by (auto simp: expands_def intro: durable_frame)
    ultimately show ?thesis using that [of "g\<lparr>votesReceived := votesReceived rf + 1\<rparr>"] st by (auto simp: abstains_def follows_def)
  qed
qed

lemma snap_vote_reply:
  assumes inv: "snap_inv n V K L Lead A W G s" and el: "election_inv n V' K' s'" and cs: "casts V V' s'" and c: "c < n"
    and peer: "peer s' = (peer s)(c := voteReply args reply (peer s c))" and net: "set (net s') \<subseteq> set (net s)"
  shows "snap_step n V' K' L A s'"
proof (cases "state (G c) = state (peer s c)")
  case True
  note x = expands_voteReply [OF snap_own(4) [OF inv] True]
  have sm: "sim n V' L (G(c := voteReply args reply (G c))) s'"
    by (rule sim_put [OF snap_own(2) [OF inv] casts_extends [OF cs] peer x(1)]) (use x(2) net in \<open>auto simp: same_role_def\<close>)
  show ?thesis
    by (rule snap_move [OF el sm raft_vote_reply [OF snap_own(3) [OF inv] sim_election [OF el sm] sim_casts [OF cs sm] c, of args reply]])
       (use net in auto)
next
  case False
  let ?rf' = "voteReply args reply (peer s c)"
  obtain l where l: "state (peer s c) = Candidate" "state (G c) = Follower" "l \<noteq> c" "majority {..<n} (voters n V l (currentTerm (peer s c)))"
    using snap_own(5) [OF inv, of c] False by (auto simp: same_role_def)
  have m: "majority {..<n} (voters n V' l (currentTerm (peer s c)))" by (rule voters_majority [OF casts_extends [OF cs] l(4)])
  have no: "state ?rf' \<noteq> Leader"
  proof
    assume "state ?rf' = Leader"
    moreover from this have "currentTerm ?rf' = currentTerm (peer s c)"
      using l(1) by (auto simp: voteReply_def Let_def initializeLeaderState_def split: if_splits)
    ultimately have "majority {..<n} (voters n V' c (currentTerm (peer s c)))"
      using inv_own(3) [OF el c] peer by (simp add: candidate_ok_def)
    then show False using one_majority [OF m] l(3) by blast
  qed
  obtain g' where g: "expands ?rf' g'" "abstains (G c) g'" "log g' = log (G c)" "matchIndex g' = matchIndex (G c)" "commitIndex g' = commitIndex (G c)"
    "state g' = Follower" "state ?rf' = Follower \<or> state ?rf' = Candidate \<and> currentTerm ?rf' = currentTerm (peer s c)"
    by (rule voteReply_demoted [OF snap_own(4) [OF inv] l(1,2) no])
  then have "same_role n V' c ?rf' g'" using m l(3) by (auto simp: same_role_def)
  then show ?thesis using snap_calm [OF inv el cs peer g(1) _ g(2,3)] g(4,5) net by blast
qed

section \<open>Replication\<close>

text \<open>What a peer has committed is in the log of every leader of its term or a later one.\<close>

lemma commit_in_leader:
  assumes inv: "snap_inv n V K L Lead A W G s" and i: "i < n" and k: "0 \<le> k" "k \<le> commitIndex (peer s i)"
    and u: "currentTerm (peer s i) \<le> u" "L u \<noteq> []"
  shows "has_prefix (log (G i)) (L u) (nat k + 1)"
proof (cases "k = 0")
  case True
  have "log_ok L (log (G i))" using snap_own(10) [OF inv i] by (simp add: peer_match_def)
  moreover have "log_ok L (L u)" using raft_own(13) [OF snap_own(3) [OF inv]] u(2) by (auto simp: logs_ok_def)
  ultimately show ?thesis using True by (auto simp: has_prefix_def log_ok_def take_Suc Suc_le_eq)
next
  case False
  note r = snap_own(3) [OF inv] and x = expands_sel [OF snap_own(4) [OF inv, of i]]
  have "committed n L A (currentTerm (G i)) (log (G i)) k" by (rule committed_le [OF snap_own(11) [OF inv i]]) (use k x in simp)
  then obtain t m where tm: "t \<le> currentTerm (G i)" "chosen n L A t m" "k < int m" "has_prefix (log (G i)) (L t) (nat k + 1)"
    using False k(1) by (auto simp: committed_def)
  have "has_prefix (L u) (L t) m" using leader_has [OF r chosen_choosable [OF tm(2)] _ u(2)] tm(1) u(1) x by simp
  then have "has_prefix (L u) (L t) (nat k + 1)" by (rule has_prefix_le) (use tm(3) k in simp)
  then show ?thesis using has_prefix_trans [OF tm(4) has_prefix_sym] by blast
qed

lemma entries_terms:
  assumes logs: "logs_ok L Lead" and a: "append_ok L a"
  shows "\<forall>e \<in> set (Entries a). 0 \<le> Term e"
proof
  fix e assume e: "e \<in> set (Entries a)"
  then have "segment_ok (L (AETerm a)) a" using a by (auto simp: append_ok_def)
  then have "e \<in> set (L (AETerm a))" using e unfolding segment_ok_def Let_def by (metis in_set_takeD in_set_dropD)
  then obtain j where "j < length (L (AETerm a))" "e = L (AETerm a) ! j" by (auto simp: in_set_conv_nth)
  moreover from this have "log_ok L (L (AETerm a))" using leader_log_ok [OF logs, of "Suc j"] by simp
  ultimately show "0 \<le> Term e" using log_ok_terms [OF logs] by blast
qed

lemma snap_append_ok:
  assumes inv: "snap_inv n V K L Lead A W G s" and el: "election_inv n V' K' s'" and cs: "casts V V' s'"
    and p: "p \<in> set (net s)" "payload p = AppendCall a"
    and e: "AppendEntries tk a (peer s (callee p)) = Inr (rf', reply)" "Success reply" and peer: "peer s' = (peer s)(callee p := rf')"
    and net: "\<And>q. q \<in> set (net s') \<Longrightarrow> q \<in> set (net s) \<or> q = p\<lparr>payload := AppendReturn a reply\<rparr>"
  shows "snap_step n V' K' L A s'"
proof -
  let ?v = "callee p" and ?u = "AETerm a"
  note x = snap_own(4) [OF inv, of "callee p"]
  have v: "?v < n" using snap_own(9) [OF inv p(1)] by (simp add: packet_ok_def)
  have a: "append_ok L a" using snap_own(8) [OF inv p(1)] p(2) by (simp add: packet_match_def)
  have pos: "0 \<le> PrevLogIndex a" using a by (simp add: append_ok_def)
  have agree: "Term (hd (Entries a)) = lastIncludedTerm (peer s ?v)"
    if z: "PrevLogIndex a = 0" "lastIncludedIndex (peer s ?v) = 1" "Entries a \<noteq> []"
  proof -
    have seg: "1 + length (Entries a) \<le> length (L ?u)" "Entries a = take (length (Entries a)) (drop 1 (L ?u))"
      using a z by (auto simp: append_ok_def segment_ok_def Let_def)
    have "currentTerm (peer s ?v) \<le> ?u" using e by (auto simp: AppendEntries_eq Let_def split: if_splits)
    moreover have "L ?u \<noteq> []" using seg(1) by auto
    ultimately have "has_prefix (log (G ?v)) (L ?u) (nat 1 + 1)" using commit_in_leader [OF inv v, of 1 ?u] x z(2) by (simp add: expands_def)
    then have "log (G ?v) ! 1 = L ?u ! 1" using has_prefix_nth [of _ _ _ 1] by fastforce
    moreover have "hd (Entries a) = L ?u ! 1"
      using seg z(3) by (metis hd_take hd_drop_conv_nth length_greater_0_conv less_le_trans less_add_same_cancel1 list.size(3))
    ultimately show ?thesis using x z(2) by (simp add: expands_def)
  qed
  obtain g' where g: "AppendEntries tk a (G ?v) = Inr (g', reply)" "expands rf' g'" "state g' = Follower" "state rf' = Follower"
    using expands_append [OF x e pos entries_terms [OF raft_own(13) [OF snap_own(3) [OF inv]] a] agree] by blast
  have sm: "sim n V' L (G(?v := g')) s'"
    by (rule sim_put [OF snap_own(2) [OF inv] casts_extends [OF cs] peer g(2)]) (auto simp: snap_packet_def same_role_def g(3,4) dest!: net)
  have pa: "abs_packet L p = p" using p(2) by (simp add: abs_packet_def)
  have "\<exists>A' W'. raft_inv n V' K' L Lead A' W' (abs_cluster L (G(?v := g')) s') \<and>
      acks_move L A (abs_cluster L G s) L A' (abs_cluster L (G(?v := g')) s')"
    by (rule raft_append [OF snap_own(3) [OF inv] sim_election [OF el sm] sim_casts [OF cs sm], of p a ?v tk g' reply])
       (use g(1) p net pa in force)+
  then show ?thesis using snap_move [OF el sm] by blast
qed

lemma snap_append_failed:
  assumes inv: "snap_inv n V K L Lead A W G s" and el: "election_inv n V' K' s'" and cs: "casts V V' s'"
    and e: "AppendEntries tk a (peer s (callee p)) = Inr (rf', reply)" "\<not> Success reply" and peer: "peer s' = (peer s)(callee p := rf')"
    and net: "\<And>q. q \<in> set (net s') \<Longrightarrow> q \<in> set (net s) \<or> q = p\<lparr>payload := AppendReturn a reply\<rparr>"
  shows "snap_step n V' K' L A s'"
proof -
  let ?v = "callee p"
  note x = snap_own(4) [OF inv, of "callee p"]
  have new: "q \<in> set (net s) \<or> snap_packet n V' L q \<and> packet_match L (abs_packet L q) \<and> packet_safe n L A b (abs_packet L q)"
    if "q \<in> set (net s')" for q b
    using net [OF that] e(2) by (auto simp: snap_packet_def packet_match_def packet_safe_def)
  have "rf' = peer s ?v \<or> rf' = adopt tk (AETerm a) (peer s ?v)"
    using e by (auto simp: AppendEntries_eq Let_def go_map_eq_Inr split: if_splits option.splits)
  then consider (stale) "rf' = peer s ?v" | (adopt) "rf' = adopt tk (AETerm a) (peer s ?v)" by blast
  then show ?thesis
  proof cases
    case stale
    then show ?thesis using x same_role_mono [OF snap_own(5) [OF inv, of ?v] casts_extends [OF cs]]
      by (intro snap_calm [OF inv el cs peer _ _ _ _ _ _ new, of "G ?v"]) auto
  next
    case adopt
    show ?thesis
    proof (rule snap_calm [OF inv el cs peer _ _ _ _ _ _ new, of "adopt tk (AETerm a) (G ?v)"])
      show "expands rf' (RaftLog.adopt tk (AETerm a) (G ?v))" using expands_adopt [OF x] adopt by simp
      show "abstains (G ?v) (RaftLog.adopt tk (AETerm a) (G ?v))" by (rule abstains_settles [OF settles_adopt]) simp_all
    qed (use adopt in \<open>auto simp: same_role_def\<close>)
  qed
qed

lemma abstains_step_down: "currentTerm g < t \<Longrightarrow> abstains g (resetElectionTimeout tk (newTerm t g))"
  by (simp add: abstains_def follows_def)

lemma snap_step_down:
  assumes inv: "snap_inv n V K L Lead A W G s" and el: "election_inv n V' K' s'" and cs: "casts V V' s'"
    and t: "currentTerm (peer s i) < t" and peer: "peer s' = (peer s)(i := resetElectionTimeout tk (newTerm t (peer s i)))"
    and net: "set (net s') \<subseteq> set (net s)"
  shows "snap_step n V' K' L A s'"
proof (rule snap_calm [OF inv el cs peer, of "resetElectionTimeout tk (newTerm t (G i))"])
  note x = snap_own(4) [OF inv, of i]
  show "expands (resetElectionTimeout tk (newTerm t (peer s i))) (resetElectionTimeout tk (newTerm t (G i)))" by (rule expands_step_down [OF x])
  show "abstains (G i) (resetElectionTimeout tk (newTerm t (G i)))" using t expands_sel [OF x] by (simp add: abstains_step_down)
qed (use net in \<open>auto simp: same_role_def\<close>)

text \<open>A leader changes what it knows of a follower.\<close>

lemma snap_follower_known:
  assumes inv: "snap_inv n V K L Lead A W G s" and el: "election_inv n V' K' s'" and cs: "casts V V' s'"
    and ld: "state (peer s i) = Leader" and peer: "peer s' = (peer s)(i := (peer s i)\<lparr>nextIndex := ni, matchIndex := mi\<rparr>)"
    and mi: "i < n \<Longrightarrow> mi = matchIndex (G i) \<or> leader_ok n A i ((G i)\<lparr>nextIndex := ni, matchIndex := mi\<rparr>)"
    and net: "set (net s') \<subseteq> set (net s)"
  shows "snap_step n V' K' L A s'"
proof (rule snap_calm [OF inv el cs peer, of "(G i)\<lparr>nextIndex := ni, matchIndex := mi\<rparr>"])
  show "expands ((peer s i)\<lparr>nextIndex := ni, matchIndex := mi\<rparr>) ((G i)\<lparr>nextIndex := ni, matchIndex := mi\<rparr>)"
    using snap_own(4) [OF inv, of i] by (auto simp: expands_def intro: durable_frame)
  show "same_role n V' i ((peer s i)\<lparr>nextIndex := ni, matchIndex := mi\<rparr>) ((G i)\<lparr>nextIndex := ni, matchIndex := mi\<rparr>)"
    using same_role_state [OF snap_own(5) [OF inv, of i]] ld by (simp add: same_role_def)
qed (use net mi in \<open>auto simp: abstains_def follows_def\<close>)

lemma append_reply_cases:
  assumes "handleAppendEntriesReply tk j a reply rf = Inr rf'"
  obtains (ignored) "rf' = rf"
  | (newer) "currentTerm rf < AERTerm reply" "rf' = resetElectionTimeout tk (newTerm (AERTerm reply) rf)"
  | (refused) ni where "state rf = Leader" "rf' = rf\<lparr>nextIndex := ni\<rparr>"
  | (accepted) "state rf = Leader" "currentTerm rf = AETerm a" "\<not> AERTerm reply > currentTerm rf" "Success reply"
proof (cases "state rf = Leader \<and> currentTerm rf = AETerm a")
  case False
  then have "rf' = rf" using assms by (auto simp: handleAppendEntriesReply_def)
  then show thesis by (rule ignored)
next
  case True
  note def = assms [unfolded handleAppendEntriesReply_def]
  consider (a) "currentTerm rf < AERTerm reply" | (b) "\<not> AERTerm reply > currentTerm rf" "Success reply"
    | (c) "\<not> AERTerm reply > currentTerm rf" "\<not> Success reply" by blast
  then show thesis
  proof cases
    case a
    then show ?thesis using newer def True by simp
  next
    case b
    then show ?thesis using accepted True by blast
  next
    case c
    then obtain ni where "rf' = rf\<lparr>nextIndex := ni\<rparr>" using def True by (auto simp: go_map_eq_Inr)
    then show ?thesis using refused True by blast
  qed
qed

lemma snapshot_reply_cases:
  assumes "snapshotReply tk j a r rf = Inr rf'"
  obtains (ignored) "rf' = rf"
  | (newer) "currentTerm rf < r" "rf' = resetElectionTimeout tk (newTerm r rf)"
  | (known) ni where "state rf = Leader" "ISTerm a = currentTerm rf" "r \<le> ISTerm a"
      "rf' = rf\<lparr>nextIndex := ni, matchIndex := (matchIndex rf)[j := ISLastIncludedIndex a]\<rparr>"
proof (cases "r > currentTerm rf \<or> \<not> (state rf = Leader \<and> ISTerm a = currentTerm rf)")
  case True
  then show thesis using assms ignored newer by (auto simp: snapshotReply_def split: if_splits)
next
  case False
  then obtain ni mi where m: "go_set (matchIndex rf) (int j) (ISLastIncludedIndex a) = Inr mi" "rf' = rf\<lparr>nextIndex := ni, matchIndex := mi\<rparr>"
    using assms by (auto simp: snapshotReply_def go_bind_eq_Inr go_map_eq_Inr)
  from m(1) have "mi = (matchIndex rf)[j := ISLastIncludedIndex a]" by (auto simp: go_set_def split: if_splits)
  then show thesis using known [of ni] False m(2) by simp
qed

lemma snap_append_reply:
  assumes inv: "snap_inv n V K L Lead A W G s" and el: "election_inv n V' K' s'" and cs: "casts V V' s'"
    and p: "p \<in> set (net s)" "payload p = AppendReturn a reply" and i: "i < n"
    and e: "handleAppendEntriesReply tk (callee p) a reply (peer s i) = Inr rf'" and peer: "peer s' = (peer s)(i := rf')"
    and net: "set (net s') \<subseteq> set (net s)"
  shows "snap_step n V' K' L A s'"
proof -
  let ?rf = "peer s i"
  note x = snap_own(4) [OF inv, of i]
  from e show ?thesis
  proof (cases rule: append_reply_cases)
    case ignored
    then show ?thesis using snap_network [OF inv el cs] peer net by simp
  next
    case newer
    then show ?thesis using snap_step_down [OF inv el cs] peer net by blast
  next
    case (refused ni)
    have "?rf\<lparr>nextIndex := ni, matchIndex := matchIndex ?rf\<rparr> = ?rf\<lparr>nextIndex := ni\<rparr>" by simp
    then have "peer s' = (peer s)(i := ?rf\<lparr>nextIndex := ni, matchIndex := matchIndex ?rf\<rparr>)" using refused(2) peer by simp
    then show ?thesis by (rule snap_follower_known [OF inv el cs refused(1)]) (use net expands_sel [OF x] in auto)
  next
    case accepted
    have st: "state (G i) = state ?rf" using same_role_state [OF snap_own(5) [OF inv, of i]] accepted(1) by simp
    obtain g' where g: "handleAppendEntriesReply tk (callee p) a reply (G i) = Inr g'" "expands rf' g'" "state g' = state rf'"
      using expands_append_reply [OF x st e accepted] by blast
    have sm: "sim n V' L (G(i := g')) s'"
      by (rule sim_put [OF snap_own(2) [OF inv] casts_extends [OF cs] peer g(2)]) (use g(3) net in \<open>auto simp: same_role_def\<close>)
    have pa: "abs_packet L p = p" using p(2) by (simp add: abs_packet_def)
    have "\<exists>W'. raft_inv n V' K' L Lead A W' (abs_cluster L (G(i := g')) s') \<and> acks_move L A (abs_cluster L G s) L A (abs_cluster L (G(i := g')) s')"
      by (rule raft_append_reply [OF snap_own(3) [OF inv] sim_election [OF el sm] sim_casts [OF cs sm], of p a reply i _ tk g'])
         (use g(1) p pa i net in force)+
    then show ?thesis using snap_move [OF el sm] by blast
  qed
qed

section \<open>Snapshots in flight\<close>

lemma snap_send:
  assumes inv: "snap_inv n V K L Lead A W G s" and el: "election_inv n V' K' s'" and cs: "casts V V' s'" and i: "i < n"
    and e: "sendToFollower j (peer s i) = Inr (Some r)" and s': "s' = transmit [request s i (call_of r) j] s"
  shows "snap_step n V' K' L A s'"
proof -
  note x = snap_own(4) [OF inv, of i] and own = raft_own [OF snap_own(3) [OF inv]]
  have ld: "state (peer s i) = Leader" using e by (auto simp: sendToFollower_def split: if_splits)
  have st: "state (G i) = state (peer s i)" using same_role_state [OF snap_own(5) [OF inv, of i]] ld by simp
  have Lt: "L (currentTerm (peer s i)) = log (G i)" using snap_own(10) [OF inv i] st ld expands_sel [OF x] by (auto simp: peer_match_def)
  show ?thesis
  proof (cases r)
    case (SendAppend a)
    have "sim n V' L (G(i := G i)) s'"
      by (rule sim_put [OF snap_own(2) [OF inv] casts_extends [OF cs] _ x same_role_mono [OF snap_own(5) [OF inv] casts_extends [OF cs]]])
         (use s' SendAppend in \<open>auto simp: snap_packet_def request_def call_of_def\<close>)
    then have sm: "sim n V' L G s'" by simp
    have "abs_cluster L G s' = transmit [request (abs_cluster L G s) i (call_of r) j] (abs_cluster L G s)"
      using s' SendAppend by (simp add: abs_cluster_def transmit_def request_def call_of_def abs_packet_def)
    moreover have "sendToFollower j (G i) = Inr (Some r)" using expands_send [OF x st] e SendAppend by simp
    ultimately have "\<exists>W'. raft_inv n V' K' L Lead A W' (abs_cluster L G s') \<and> acks_move L A (abs_cluster L G s) L A (abs_cluster L G s')"
      using raft_send [OF snap_own(3) [OF inv] sim_election [OF el sm] sim_casts [OF cs sm] i] by simp
    then show ?thesis using snap_move [OF el sm] by blast
  next
    case (SendSnapshot a)
    have a: "ISTerm a = currentTerm (peer s i)" "ISLastIncludedIndex a = lastIncludedIndex (peer s i)" "ISLastIncludedTerm a = lastIncludedTerm (peer s i)"
      using e SendSnapshot by (auto simp: sendToFollower_def go_bind_eq_Inr go_map_eq_Inr Let_def split: if_splits)
    have ok: "snap_ok L a" using a Lt x by (auto simp: snap_ok_def expands_def compacted_def)
    have "majority {..<n} (voters n V' i (ISTerm a))" using voters_majority [OF casts_extends [OF cs]] inv_own(3) [OF snap_own(1) [OF inv] i] ld a
      by (simp add: candidate_ok_def)
    then have sp: "snap_packet n V' L (request s i (call_of r) j)" using ok SendSnapshot by (simp add: snap_packet_def request_def call_of_def)
    have com: "committed n L A (ISTerm a) (L (ISTerm a)) (ISLastIncludedIndex a)"
      using committed_le [OF snap_own(11) [OF inv i], of "lastIncludedIndex (peer s i)"] x a Lt by (simp add: expands_def)
    have "packet_match L (abs_packet L (request s i (call_of r) j)) \<and> packet_safe n L A b (abs_packet L (request s i (call_of r) j))" for b
      using SendSnapshot ok com as_append_ok [OF ok] by (simp add: packet_match_def packet_safe_def request_def call_of_def) (simp add: as_append_def)
    then show ?thesis using sp s' x same_role_mono [OF snap_own(5) [OF inv, of i] casts_extends [OF cs]]
      by (intro snap_calm [OF inv el cs, of i "peer s i" "G i"]) auto
  qed
qed

lemma snap_install:
  assumes inv: "snap_inv n V K L Lead A W G s" and el: "election_inv n V' K' s'" and cs: "casts V V' s'"
    and p: "p \<in> set (net s)" "payload p = SnapCall a" and b: "belongs a (peer s (callee p))"
    and e: "InstallSnapshot tk a (peer s (callee p)) = (rf', r)" and peer: "peer s' = (peer s)(callee p := rf')"
    and net: "\<And>q. q \<in> set (net s') \<Longrightarrow> q \<in> set (net s) \<or> q = p\<lparr>payload := SnapReturn a r\<rparr>"
  shows "snap_step n V' K' L A s'"
proof -
  let ?v = "callee p" let ?rf = "peer s ?v"
  note x = snap_own(4) [OF inv, of "callee p"]
  have v: "?v < n" "caller p \<noteq> ?v" using snap_own(9) [OF inv p(1)] by (simp_all add: packet_ok_def)
  have a: "snap_ok L a" and maj: "majority {..<n} (voters n V (caller p) (ISTerm a))"
    using snap_own(6) [OF inv p(1)] p(2) by (simp_all add: snap_packet_def)
  show ?thesis
  proof (cases "ISTerm a < currentTerm ?rf")
    case True
    then have "rf' = ?rf" "r = currentTerm ?rf" using e by (auto simp: InstallSnapshot_def)
    then have new: "q \<in> set (net s) \<or> snap_packet n V' L q \<and> packet_match L (abs_packet L q) \<and> packet_safe n L A c (abs_packet L q)"
      if "q \<in> set (net s')" for q c
      using net [OF that] True a by (auto simp: snap_packet_def packet_match_def packet_safe_def)
    then show ?thesis using x same_role_mono [OF snap_own(5) [OF inv, of ?v] casts_extends [OF cs]] \<open>rf' = ?rf\<close>
      by (intro snap_calm [OF inv el cs peer _ _ _ _ _ _ new, of "G ?v"]) auto
  next
    case False
    then have t: "currentTerm ?rf \<le> ISTerm a" by simp
    have ne: "L (ISTerm a) \<noteq> []" using a by (auto simp: snap_ok_def)
    have lg: "log_ok L (log (G ?v))" using snap_own(10) [OF inv v(1)] by (simp add: peer_match_def)
    have old: "take (nat (ISLastIncludedIndex a) + 1) (log (G ?v)) = take (nat (ISLastIncludedIndex a) + 1) (L (ISTerm a))"
      if "ISLastIncludedIndex a \<le> lastIncludedIndex ?rf"
      using commit_in_leader [OF inv v(1) _ _ t ne, of "ISLastIncludedIndex a"] that a x by (simp add: has_prefix_def snap_ok_def expands_def)
    obtain g' where g: "AppendEntries tk (as_append L a) (G ?v) = Inr (g', \<lparr>AERTerm = r, Success = True, ConflictTerm = 0, ConflictIndex = 0\<rparr>)"
      "expands rf' g'" "state g' = Follower" "currentTerm rf' = ISTerm a" "state rf' = state ?rf \<or> state rf' = Follower"
      "currentTerm ?rf < ISTerm a \<Longrightarrow> state rf' = Follower" "r = currentTerm ?rf"
      using expands_install [OF x raft_own(13) [OF snap_own(3) [OF inv]] lg a b t old e] by blast
    have "state rf' \<noteq> Leader"
    proof
      assume l: "state rf' = Leader"
      then have "\<not> currentTerm ?rf < ISTerm a" "state ?rf = Leader" using g(5,6) by auto
      moreover from this have "currentTerm ?rf = ISTerm a" using t by simp
      ultimately have "majority {..<n} (voters n V ?v (ISTerm a))" using inv_own(3) [OF snap_own(1) [OF inv] v(1)] by (simp add: candidate_ok_def)
      then show False using one_majority [OF maj] v(2) by blast
    qed
    then have "state rf' = Follower \<or> state rf' = Candidate" using State.exhaust by blast
    then have ro: "same_role n V' ?v rf' g'"
      using voters_majority [OF casts_extends [OF cs] maj] v(2) g(3,4) by (auto simp: same_role_def)
    have sm: "sim n V' L (G(?v := g')) s'"
      by (rule sim_put [OF snap_own(2) [OF inv] casts_extends [OF cs] peer g(2) ro]) (auto simp: snap_packet_def a dest!: net)
    have "\<exists>A' W'. raft_inv n V' K' L Lead A' W' (abs_cluster L (G(?v := g')) s') \<and>
        acks_move L A (abs_cluster L G s) L A' (abs_cluster L (G(?v := g')) s')"
    proof (rule raft_append [OF snap_own(3) [OF inv] sim_election [OF el sm] sim_casts [OF cs sm], of "abs_packet L p" "as_append L a" ?v tk g'])
      show "q \<in> set (net (abs_cluster L G s)) \<or> q = (abs_packet L p)\<lparr>payload := AppendReturn (as_append L a)
          \<lparr>AERTerm = r, Success = True, ConflictTerm = 0, ConflictIndex = 0\<rparr>\<rparr>"
        if q: "q \<in> set (net (abs_cluster L (G(?v := g')) s'))" for q
      proof -
        obtain y where y: "y \<in> set (net s')" "q = abs_packet L y" using q by auto
        from net [OF y(1)] show ?thesis using y(2) g(7) t by (auto simp: abs_packet_def)
      qed
    qed (use p g(1) in auto)
    then show ?thesis using snap_move [OF el sm] by blast
  qed
qed

lemma snap_snapshot_reply:
  assumes inv: "snap_inv n V K L Lead A W G s" and el: "election_inv n V' K' s'" and cs: "casts V V' s'"
    and p: "p \<in> set (net s)" "payload p = SnapReturn a r" and i: "i < n"
    and e: "snapshotReply tk (callee p) a r (peer s i) = Inr rf'" and peer: "peer s' = (peer s)(i := rf')"
    and net: "set (net s') \<subseteq> set (net s)"
  shows "snap_step n V' K' L A s'"
proof -
  let ?rf = "peer s i" and ?j = "callee p"
  note x = expands_sel [OF snap_own(4) [OF inv, of i]]
  from e show ?thesis
  proof (cases rule: snapshot_reply_cases)
    case ignored
    then show ?thesis using snap_network [OF inv el cs] peer net by simp
  next
    case newer
    then show ?thesis using snap_step_down [OF inv el cs] peer net by blast
  next
    case (known ni)
    have a: "snap_ok L a" using snap_own(6) [OF inv p(1)] p(2) by (simp add: snap_packet_def)
    have "int (length (Entries (as_append L a))) < int (A ?j (ISTerm a))"
      using snap_own(7) [OF inv p(1)] p(2) known(3) by (simp add: packet_safe_def) (simp add: as_append_def)
    then have ack: "ISLastIncludedIndex a < int (A ?j (currentTerm (G i)))" using as_append_ok(2) [OF a] a known(2) x by (simp add: snap_ok_def)
    then have "leader_ok n A i ((G i)\<lparr>nextIndex := ni, matchIndex := (matchIndex (G i))[?j := ISLastIncludedIndex a]\<rparr>)" if "i < n"
      using leader_ok_set [OF raft_own(6) [OF snap_own(3) [OF inv] that]] by simp
    then show ?thesis using x by (intro snap_follower_known [OF inv el cs known(1) peer [unfolded known(4)] _ net]) simp
  qed
qed

section \<open>Clients, services and restarts\<close>

lemma snap_start:
  assumes inv: "snap_inv n V K L Lead A W G s" and el: "election_inv n V' K' s'" and cs: "casts V V' s'" and i: "i < n"
    and s': "s' = put_peer i (fst (Start c (peer s i))) s"
  shows "snap_step n V' K' L A s'"
proof (cases "state (peer s i) = Leader")
  case False
  then have "s' = s" using s' by (simp add: Start_def put_peer_def)
  then show ?thesis using snap_network [OF inv el cs] by simp
next
  case True
  have st: "state (G i) = state (peer s i)" using same_role_state [OF snap_own(5) [OF inv, of i]] True by simp
  note x = expands_Start [OF snap_own(4) [OF inv, of i] st, of c]
  let ?G = "G(i := fst (Start c (G i)))"
  have sm: "sim n V' L ?G s'"
    by (rule sim_put [OF snap_own(2) [OF inv] casts_extends [OF cs] _ x(1)]) (use x(2) s' in \<open>auto simp: same_role_def\<close>)
  have "abs_cluster L ?G s' = put_peer i (fst (Start c (G i))) (abs_cluster L G s)" using s' by (simp add: abs_cluster_def put_peer_def)
  then have "\<exists>L' Lead' A' W'. raft_inv n V' K' L' Lead' A' W' (abs_cluster L ?G s') \<and> acks_move L A (abs_cluster L G s) L' A' (abs_cluster L ?G s')"
    using raft_start [OF snap_own(3) [OF inv] sim_election [OF el sm] sim_casts [OF cs sm] i, of c] by simp
  then show ?thesis by (rule snap_move [OF el sm])
qed

lemma snap_restart:
  assumes inv: "snap_inv n V K L Lead A W G s" and el: "election_inv n V' K' s'" and cs: "casts V V' s'" and i: "i < n"
    and peer: "peer s' = (peer s)(i := Make n (int i) (Persister_Copy (persister (peer s i))) tk)" and net: "net s' = net s"
  shows "snap_step n V' K' L A s'"
proof -
  note x = snap_own(4) [OF inv, of i]
  have ok: "me (peer s i) = int i" "npeers (peer s i) = n" "durable (peer s i)" using inv_own(1) [OF snap_own(1) [OF inv] i] by (auto simp: peer_ok_def)
  define g' where "g' = (Make (npeers (G i)) (me (G i)) (Persister_Copy (persister (G i))) tk)\<lparr>commitIndex := lastIncludedIndex (peer s i)\<rparr>"
  have d: "durable (G i)" using expands_sel [OF x] by simp
  note f = Make_fields [OF d refl, of tk]
  have "expands (Make n (int i) (Persister_Copy (persister (peer s i))) tk) g'" using expands_restart [OF x ok(3), of tk] ok by (simp add: g'_def)
  moreover have "same_role n V' i (Make n (int i) (Persister_Copy (persister (peer s i))) tk) g'"
    using f(6) Make_fields(6) [OF ok(3) refl, of tk] ok by (simp add: same_role_def g'_def)
  moreover have "abstains (G i) g'"
    by (rule abstains_settles [OF settles_after [OF conjunct1 [OF restart_fields [OF d, of tk]]]]) (use f in \<open>simp_all add: g'_def\<close>)
  moreover have "committed n L A (currentTerm g') (log g') (commitIndex g')"
    using committed_le [OF snap_own(11) [OF inv i], of "lastIncludedIndex (peer s i)"] x f by (simp add: g'_def expands_def)
  moreover have "log g' = log (G i)" "leader_ok n A i g'" using f by (simp_all add: g'_def leader_ok_def)
  ultimately show ?thesis using net by (intro snap_calm [OF inv el cs peer, of g']) auto
qed

lemma snap_service_snapshot:
  assumes inv: "snap_inv n V K L Lead A W G s" and el: "election_inv n V' K' s'" and cs: "casts V V' s'"
    and k: "index \<le> commitIndex (peer s i)" and s': "s' = put_peer i (Snapshot index snap (peer s i)) s"
  shows "snap_step n V' K' L A s'"
  by (rule snap_same [OF inv el cs _ expands_Snapshot [OF snap_own(4) [OF inv] k]]) (simp_all add: s')

lemma snap_apply:
  assumes inv: "snap_inv n V K L Lead A W G s" and el: "election_inv n V' K' s'" and cs: "casts V V' s'"
    and peer: "peer s' = (peer s)(i := (peer s i)\<lparr>lastApplied := k\<rparr>)" and net: "net s' = net s"
  shows "snap_step n V' K' L A s'"
  by (rule snap_same [OF inv el cs peer]) (use snap_own(4) [OF inv, of i] net in \<open>auto simp: expands_def\<close>)

section \<open>Every event\<close>

fun tidy :: "('c, 's) event \<Rightarrow> ('c, 's) cluster \<Rightarrow> bool" where
  "tidy (ServiceSnapshot i index snap) s \<longleftrightarrow> index \<le> commitIndex (peer s i)"
| "tidy (Deliver k tk) s \<longleftrightarrow> (k < length (net s) \<longrightarrow>
     (case payload (net s ! k) of SnapCall a \<Rightarrow> belongs a (peer s (callee (net s ! k))) | _ \<Rightarrow> True))"
| "tidy _ s \<longleftrightarrow> True"

lemma to_caller_cases:
  assumes "to_caller p f (take_out k s) = Some s'"
  obtains rf' where "f (peer s (caller p)) = Inr rf'" "peer s' = (peer s)(caller p := rf')" "set (net s') \<subseteq> set (net s)"
  | "peer s' = peer s" "set (net s') \<subseteq> set (net s)"
  using assms by (auto simp: to_caller_def set_take_subset set_drop_subset split: if_splits sum.splits)

lemma snap_arrive:
  assumes inv: "snap_inv n V K L Lead A W G s" and el: "election_inv n V' K' s'" and cs: "casts V V' s'"
    and k: "k < length (net s)" and td: "tidy (Deliver k tk) s" and e: "arrive tk (net s ! k) (take_out k s) = Some s'"
  shows "snap_step n V' K' L A s'"
proof -
  define p where "p = net s ! k"
  have p: "p \<in> set (net s)" using k by (simp add: p_def)
  have c: "caller p < n" using snap_own(9) [OF inv p] by (simp add: packet_ok_def)
  note e = e [folded p_def] and quiet = snap_network [OF inv el cs]
  show ?thesis
  proof (cases "payload p")
    case (VoteCall args)
    obtain rf' reply where r: "RequestVote tk args (peer s (callee p)) = (rf', reply)" by (rule prod.exhaust)
    show ?thesis
      by (rule snap_vote_request [OF inv el cs p VoteCall r]) (use e VoteCall r in \<open>auto simp: arrive_def dest: in_set_takeD in_set_dropD\<close>)
  next
    case (VoteReturn args reply)
    with e have "to_caller p (\<lambda>rf. Inr (voteReply args reply rf)) (take_out k s) = Some s'" by (simp add: arrive_def)
    then show ?thesis by (cases rule: to_caller_cases) (use snap_vote_reply [OF inv el cs c] quiet in auto)
  next
    case (AppendCall a)
    then obtain rf' reply where r: "AppendEntries tk a (peer s (callee p)) = Inr (rf', reply)"
      and s': "s' = transmit [p\<lparr>payload := AppendReturn a reply\<rparr>] (put_peer (callee p) rf' (take_out k s))"
      using e by (auto simp: arrive_def split: sum.splits)
    have "peer s' = (peer s)(callee p := rf')" and net: "\<And>q. q \<in> set (net s') \<Longrightarrow> q \<in> set (net s) \<or> q = p\<lparr>payload := AppendReturn a reply\<rparr>"
      by (auto simp: s' dest: in_set_takeD in_set_dropD)
    then show ?thesis using snap_append_ok [OF inv el cs p AppendCall r] snap_append_failed [OF inv el cs r] by blast
  next
    case (AppendReturn a reply)
    with e have "to_caller p (handleAppendEntriesReply tk (callee p) a reply) (take_out k s) = Some s'" by (simp add: arrive_def)
    then show ?thesis by (cases rule: to_caller_cases) (use snap_append_reply [OF inv el cs p AppendReturn c] quiet in blast)+
  next
    case (SnapCall a)
    obtain rf' t where r: "InstallSnapshot tk a (peer s (callee p)) = (rf', t)" by (rule prod.exhaust)
    have "belongs a (peer s (callee p))" using td k SnapCall by (simp add: p_def)
    then show ?thesis
      by (rule snap_install [OF inv el cs p SnapCall _ r]) (use e SnapCall r in \<open>auto simp: arrive_def dest: in_set_takeD in_set_dropD\<close>)
  next
    case (SnapReturn a t)
    with e have "to_caller p (snapshotReply tk (callee p) a t) (take_out k s) = Some s'" by (simp add: arrive_def)
    then show ?thesis by (cases rule: to_caller_cases) (use snap_snapshot_reply [OF inv el cs p SnapReturn c] quiet in blast)+
  qed
qed

lemma snap_happen:
  assumes inv: "snap_inv n V K L Lead A W G s" and pr: "prompt e s" and td: "tidy e s" and e: "happen n e s = Some s'"
  shows "\<exists>V' K'. snap_step n V' K' L A s'"
proof -
  obtain V' K' where cs: "casts V V' s'" and el: "election_inv n V' K' s'" using inv_happen [OF snap_own(1) [OF inv] pr e] by blast
  have "snap_step n V' K' L A s'"
  proof (cases e)
    case (Timeout i tk)
    obtain rf' b where r: "checkElectionTimeout tk (peer s i) = (rf', b)" by (rule prod.exhaust)
    have "i < n" "peer s' = (peer s)(i := rf')" "net s' = net s" using e Timeout r by (auto simp: happen_def subject_def split: if_splits)
    then show ?thesis using snap_timeout [OF inv el cs _ r] by blast
  next
    case (RunElection i)
    obtain rf' args where r: "startElection (peer s i) = (rf', args)" by (rule prod.exhaust)
    have "i < n" "peer s' = (peer s)(i := rf')" "net s' = net s @ map (request s i (VoteCall args)) (other_peers rf')"
      using e RunElection r by (auto simp: happen_def subject_def split: if_splits)
    then show ?thesis using snap_run_election [OF inv el cs _ r] by blast
  next
    case (SendTo i j)
    then consider (none) "s' = s" | (sent) r where "i < n" "sendToFollower j (peer s i) = Inr (Some r)"
        "s' = transmit [request s i (call_of r) j] s"
      using e by (auto simp: happen_def subject_def split: if_splits sum.splits option.splits)
    then show ?thesis
    proof cases
      case none
      then show ?thesis using snap_network [OF inv el cs] by simp
    next
      case sent
      then show ?thesis using snap_send [OF inv el cs] by blast
    qed
  next
    case (Deliver k tk)
    then show ?thesis using e td snap_arrive [OF inv el cs] by (auto simp: happen_def subject_def split: if_splits)
  next
    case (Lose k)
    then have "s' = take_out k s" using e by (auto simp: happen_def subject_def split: if_splits)
    then show ?thesis by (intro snap_network [OF inv el cs]) (auto dest: in_set_takeD in_set_dropD)
  next
    case (ClientStart i c)
    then have "i < n" "s' = put_peer i (fst (Start c (peer s i))) s" using e by (auto simp: happen_def subject_def split: if_splits)
    then show ?thesis by (rule snap_start [OF inv el cs])
  next
    case (ServiceSnapshot i index snap)
    then have "index \<le> commitIndex (peer s i)" "s' = put_peer i (Snapshot index snap (peer s i)) s"
      using e td by (auto simp: happen_def subject_def split: if_splits)
    then show ?thesis by (rule snap_service_snapshot [OF inv el cs])
  next
    case (ApplySnapshot i)
    then obtain k where "peer s' = (peer s)(i := (peer s i)\<lparr>lastApplied := k\<rparr>)" "net s' = net s"
      using e by (auto simp: happen_def subject_def applier_snapshot_def split: if_splits)
    then show ?thesis by (rule snap_apply [OF inv el cs])
  next
    case (ApplyCollect i)
    then have "peer s' = (peer s)(i := (peer s i)\<lparr>lastApplied := commitIndex (peer s i)\<rparr>)" "net s' = net s"
      using e by (auto simp: happen_def subject_def applier_collect_def split: if_splits)
    then show ?thesis by (rule snap_apply [OF inv el cs])
  next
    case (Restart i tk)
    then have "i < n" "peer s' = (peer s)(i := Make n (int i) (Persister_Copy (persister (peer s i))) tk)" "net s' = net s"
      using e by (auto simp: happen_def subject_def split: if_splits)
    then show ?thesis by (rule snap_restart [OF inv el cs])
  qed
  then show ?thesis by blast
qed

lemma snap_init:
  "snap_inv n (\<lambda>_ _. None) (\<lambda>_ _. {}) init_logs (\<lambda>_. None) (\<lambda>_ _. 0) (\<lambda>_ _. []) (peer (cluster_init n tk))
     (cluster_init n tk :: ('c, 's) cluster)"
proof -
  let ?s = "cluster_init n tk :: ('c, 's) cluster"
  have "abs_cluster init_logs (peer ?s) ?s = ?s" by (simp add: abs_cluster_def cluster_init_def)
  moreover have "expands rf rf" if "rf = Make n (int i) MakePersister (tk i)" for i and rf :: "('c, 's) Raft"
    using durable_Make [of n "int i" "tk i"] that by (auto simp: expands_def compacted_def Make_def readPersist_def)
  then have "sim n V init_logs (peer ?s) ?s" for V by (auto simp: sim_def same_role_def cluster_init_def)
  moreover have "election_inv n (\<lambda>_ _. None) (\<lambda>_ _. {}) ?s" by (rule inv_init)
  moreover have "raft_inv n (\<lambda>_ _. None) (\<lambda>_ _. {}) init_logs (\<lambda>_. None) (\<lambda>_ _. 0) (\<lambda>_ _. []) ?s" by (rule raft_init)
  ultimately show ?thesis by (simp add: snap_inv_def)
qed

section \<open>Tidy runs\<close>

fun tidy_events :: "nat \<Rightarrow> ('c, 's) event list \<Rightarrow> ('c, 's) cluster \<Rightarrow> bool" where
  "tidy_events n [] s \<longleftrightarrow> True"
| "tidy_events n (e # es) s \<longleftrightarrow> prompt e s \<and> tidy e s \<and>
     (case happen n e s of None \<Rightarrow> True | Some s' \<Rightarrow> tidy_events n es s')"

inductive tidy_reachable :: "nat \<Rightarrow> ('c, 's) cluster \<Rightarrow> bool" for n where
  tidy_start: "tidy_reachable n (cluster_init n tk)"
| tidy_step: "tidy_reachable n s \<Longrightarrow> prompt e s \<Longrightarrow> tidy e s \<Longrightarrow> happen n e s = Some s' \<Longrightarrow> tidy_reachable n s'"

lemma tidy_run_reachable:
  "tidy_reachable n s \<Longrightarrow> tidy_events n es s \<Longrightarrow> run_events n es s = Some s' \<Longrightarrow> tidy_reachable n s'"
proof (induction es arbitrary: s)
  case (Cons e es)
  then obtain s1 where s1: "happen n e s = Some s1" "run_events n es s1 = Some s'" by (auto simp: bind_eq_Some_conv)
  with Cons.prems have "tidy_reachable n s1" by (auto intro: tidy_reachable.tidy_step)
  with Cons s1 show ?case by simp
qed simp

lemma tidy_reachable_inv: "tidy_reachable n s \<Longrightarrow> \<exists>V K L Lead A W G. snap_inv n V K L Lead A W G s"
proof (induction rule: tidy_reachable.induct)
  case (tidy_start tk)
  then show ?case using snap_init by blast
next
  case (tidy_step s e s')
  then show ?case using snap_happen unfolding snap_step_def by metis
qed

lemma snap_run:
  assumes "snap_inv n V K L Lead A W G s" and "tidy_events n es s" and "run_events n es s = Some s'"
  shows "\<exists>V' K'. snap_step n V' K' L A s'"
  using assms
proof (induction es arbitrary: V K L Lead A W G s)
  case Nil
  then have "snap_inv n V K L Lead A W G s' \<and> grows L L" by simp
  then show ?case unfolding snap_step_def by blast
next
  case (Cons e es)
  then obtain s1 where s1: "happen n e s = Some s1" "run_events n es s1 = Some s'" "tidy_events n es s1" "prompt e s" "tidy e s"
    by (auto simp: bind_eq_Some_conv)
  from snap_happen [OF Cons.prems(1) s1(4,5,1)] obtain V1 K1 L1 Lead1 A1 W1 G1 where i1: "snap_inv n V1 K1 L1 Lead1 A1 W1 G1 s1"
    and g1: "grows L L1" and c1: "\<forall>t m. chosen n L A t m \<longrightarrow> chosen n L1 A1 t m" unfolding snap_step_def by blast
  from Cons.IH [OF i1 s1(3,2)] obtain V' K' L' Lead' A' W' G' where r: "snap_inv n V' K' L' Lead' A' W' G' s'"
    "grows L1 L'" "\<forall>t m. chosen n L1 A1 t m \<longrightarrow> chosen n L' A' t m" unfolding snap_step_def by blast
  have "grows L L'" unfolding grows_def
  proof
    fix t
    obtain a b where "L1 t = L t @ a" "L' t = L1 t @ b" using grows_at g1 r(2) by metis
    then show "\<exists>e. L' t = L t @ e" by simp
  qed
  then show ?case using r c1 unfolding snap_step_def by blast
qed

text \<open>Expanded logs agree on what both peers have committed.\<close>

lemma expanded_commits:
  assumes r: "tidy_reachable n s" and run: "tidy_events n es s" "run_events n es s = Some s'" and ij: "i < n" "j < n"
  obtains g h where "expands (peer s i) g" "expands (peer s' j) h" "state (peer s' j) = Leader \<Longrightarrow> state h = Leader"
    "\<And>k. 0 < k \<Longrightarrow> k \<le> commitIndex (peer s i) \<Longrightarrow> k \<le> commitIndex (peer s' j) \<or>
        state (peer s' j) = Leader \<and> currentTerm (peer s i) \<le> currentTerm (peer s' j) \<Longrightarrow> has_prefix (log g) (log h) (nat k + 1)"
proof -
  obtain V K L Lead A W G where inv: "snap_inv n V K L Lead A W G s" using tidy_reachable_inv [OF r] by blast
  obtain V' K' L' Lead' A' W' G' where inv': "snap_inv n V' K' L' Lead' A' W' G' s'" and g: "grows L L'"
    and ch: "\<And>t m. chosen n L A t m \<Longrightarrow> chosen n L' A' t m" using snap_run [OF inv run] unfolding snap_step_def by blast
  note x = snap_own(4) [OF inv, of i] and y = snap_own(4) [OF inv', of j] and a = snap_own(3) [OF inv] and a' = snap_own(3) [OF inv']
  have st: "state (G' j) = Leader" if "state (peer s' j) = Leader"
    using same_role_state [OF snap_own(5) [OF inv', of j]] that by simp
  have pre: "has_prefix (log (G i)) (log (G' j)) (nat k + 1)"
    if k: "0 < k" "k \<le> commitIndex (peer s i)" "k \<le> commitIndex (peer s' j) \<or>
        state (peer s' j) = Leader \<and> currentTerm (peer s i) \<le> currentTerm (peer s' j)" for k
  proof -
    obtain t m where tm: "t \<le> currentTerm (G i)" "chosen n L' A' t m" "nat k < m" "has_prefix (log (G i)) (L' t) (nat k + 1)"
      by (rule committed_later [OF a, of i k L' A']) (use ij k g ch expands_sel [OF x] in auto)
    show ?thesis
    proof (cases "k \<le> commitIndex (peer s' j)")
      case True
      obtain u q where uq: "chosen n L' A' u q" "nat k < q" "has_prefix (log (G' j)) (L' u) (nat k + 1)"
        by (rule committed_later [OF a', of j k L' A']) (use ij k True expands_sel [OF y] in auto)
      show ?thesis by (rule chosen_agree [OF a' tm(2) _ tm(4) uq(1) _ uq(3)]) (use tm(3) uq(2) in auto)
    next
      case False
      then have ld: "state (peer s' j) = Leader" "currentTerm (peer s i) \<le> currentTerm (peer s' j)" using k by auto
      have pm: "L' (currentTerm (G' j)) = log (G' j)" "log (G' j) \<noteq> []"
        using snap_own(10) [OF inv' ij(2)] st [OF ld(1)] by (auto simp: peer_match_def log_ok_def)
      have "has_prefix (log (G' j)) (L' t) m"
        using leader_has [OF a' chosen_choosable [OF tm(2)], of "currentTerm (G' j)"] pm tm(1) ld(2) expands_sel [OF x] expands_sel [OF y] by simp
      then have "has_prefix (log (G' j)) (L' t) (nat k + 1)" by (rule has_prefix_le) (use tm(3) in simp)
      then show ?thesis using has_prefix_trans [OF tm(4) has_prefix_sym] by blast
    qed
  qed
  show thesis by (rule that [OF x y st pre])
qed

lemma expands_entry:
  assumes x: "expands rf g" and k: "lastIncludedIndex rf < k" "nat k < length (log g)"
  shows "entry_at rf k = Some (log g ! nat k)"
    "msg_at rf k = (case Command (log g ! nat k) of None \<Rightarrow> [] | Some c \<Rightarrow> [command_msg c k])"
proof -
  have c: "compacted (lastIncludedIndex rf) (log rf) (log g)" using x by (simp add: expands_def)
  have len: "int (length (log rf)) + lastIncludedIndex rf = int (length (log g))" "0 \<le> lastIncludedIndex rf"
    using compacted_length [OF c] c by (auto simp: compacted_def)
  have i: "nat (k - lastIncludedIndex rf) < length (log rf)" "0 < nat (k - lastIncludedIndex rf)" using k len by auto
  have "log rf ! nat (k - lastIncludedIndex rf) = log g ! nat k" using compacted_nth [OF c i] k(1) len(2) by (simp flip: nat_add_distrib)
  then show "entry_at rf k = Some (log g ! nat k)" "msg_at rf k = (case Command (log g ! nat k) of None \<Rightarrow> [] | Some c \<Rightarrow> [command_msg c k])"
    using k i len by (auto simp: entry_at_def msg_at_def toArrayIndex_def getLastLogIndex_def Let_def)
qed


definition demo_compact :: "(nat, nat) event list" where
  "demo_compact = [ServiceSnapshot 0 1 [9], ClientStart 0 (Some 8), SendTo 0 2, Deliver 2 (1004, 0), Deliver 2 (1005, 0),
     SendTo 0 2, Deliver 2 (1006, 0), Deliver 2 (1007, 0), SendTo 0 2, Deliver 2 (1008, 0)]"

lemmas snapshot_eval = replicate_eval Snapshot_def persist_with_def InstallSnapshot_def snapshot_log_def snapshotReply_def belongs_def
  getLastLogIndex_def entry_at_def msg_at_def

lemma demo_compact_runs:
  "\<exists>s. run_events 3 (demo_election @ demo_replicate @ demo_compact) (demo_start 3) = Some s \<and>
     tidy_events 3 (demo_election @ demo_replicate @ demo_compact) (demo_start 3) \<and>
     commitIndex (peer s 0) = 2 \<and> commitIndex (peer s 2) = 2 \<and> state (peer s 0) = Leader \<and>
     lastIncludedIndex (peer s 0) = 1 \<and> lastIncludedIndex (peer s 2) = 1 \<and>
     currentTerm (peer s 0) = 1 \<and> currentTerm (peer s 2) = 1 \<and>
     msg_at (peer s 0) 2 = [command_msg 8 2] \<and> getLastLogIndex (peer s 0) = 2 \<and> getLastLogIndex (peer s 2) = 2 \<and>
     getLogTerm (peer s 0) 2 = 1 \<and> getLogTerm (peer s 2) 2 = 1"
  by (simp add: demo_election_def demo_replicate_def demo_compact_def demo_start_def snapshot_eval Let_def upt_conv_Cons upto.simps)

lemma demo_tidy_start: "tidy_reachable 3 (demo_start 3)"
  by (simp add: demo_start_def tidy_reachable.tidy_start)

lemma demo_compact_reachable:
  obtains s where "tidy_reachable 3 s" "run_events 3 (demo_election @ demo_replicate @ demo_compact) (demo_start 3) = Some s"
    "commitIndex (peer s 0) = 2" "commitIndex (peer s 2) = 2" "state (peer s 0) = Leader"
    "lastIncludedIndex (peer s 0) = 1" "lastIncludedIndex (peer s 2) = 1" "currentTerm (peer s 0) = 1" "currentTerm (peer s 2) = 1"
    "msg_at (peer s 0) 2 = [command_msg 8 2]" "getLastLogIndex (peer s 0) = 2" "getLastLogIndex (peer s 2) = 2"
    "getLogTerm (peer s 0) 2 = 1" "getLogTerm (peer s 2) 2 = 1" "tidy_events 3 [] s" "run_events 3 [] s = Some s"
  using demo_compact_runs tidy_run_reachable [OF demo_tidy_start] by auto

section \<open>Properties of replicated logs\<close>

text \<open>C2: State-machine safety. In a tidy run, an index that one peer has committed at some time and another (or
  the same) peer has committed then or at any later time holds the same entry in both logs, and their services are
  handed the same message for it, wherever the two logs have not been compacted beyond it.\<close>

theorem state_machine_safety:
  assumes "tidy_reachable n s" and "tidy_events n es s" and "run_events n es s = Some s'" and "i < n" and "j < n"
    and "lastIncludedIndex (peer s i) < k" and "lastIncludedIndex (peer s' j) < k"
    and "k \<le> commitIndex (peer s i)" and "k \<le> commitIndex (peer s' j)"
  shows "(\<exists>e. entry_at (peer s i) k = Some e \<and> entry_at (peer s' j) k = Some e) \<and> msg_at (peer s i) k = msg_at (peer s' j) k"
proof -
  obtain g h where x: "expands (peer s i) g" and y: "expands (peer s' j) h"
    and pre: "\<And>k. 0 < k \<Longrightarrow> k \<le> commitIndex (peer s i) \<Longrightarrow> k \<le> commitIndex (peer s' j) \<or>
      state (peer s' j) = Leader \<and> currentTerm (peer s i) \<le> currentTerm (peer s' j) \<Longrightarrow> has_prefix (log g) (log h) (nat k + 1)"
    using expanded_commits [OF assms(1-5)] by metis
  have "0 < k" using x assms(6) by (auto simp: expands_def compacted_def)
  then have p: "has_prefix (log g) (log h) (nat k + 1)" using pre assms(8,9) by blast
  then have "nat k < length (log g)" "nat k < length (log h)" by (auto simp: has_prefix_def)
  then show ?thesis using expands_entry [OF x assms(6)] expands_entry [OF y assms(7)] has_prefix_nth [OF p, of "nat k"] by simp
qed

theorem state_machine_safety_witness:
  "\<exists>s. run_events 3 (demo_election @ demo_replicate @ demo_compact) (demo_start 3) = Some s \<and>
     commitIndex (peer s 0) = 2 \<and> commitIndex (peer s 2) = 2 \<and> lastIncludedIndex (peer s 2) = 1 \<and>
     msg_at (peer s 2) 2 = [command_msg 8 2]"
proof -
  obtain s where r: "tidy_reachable 3 s" and run: "tidy_events 3 [] s" "run_events 3 [] s = Some s"
    and s: "run_events 3 (demo_election @ demo_replicate @ demo_compact) (demo_start 3) = Some s"
    "commitIndex (peer s 0) = 2" "commitIndex (peer s 2) = 2" "lastIncludedIndex (peer s 0) = 1" "lastIncludedIndex (peer s 2) = 1"
    "msg_at (peer s 0) 2 = [command_msg 8 2]" by (rule demo_compact_reachable)
  from state_machine_safety [OF r run, of 0 2 2] s(2-5) have "msg_at (peer s 0) 2 = msg_at (peer s 2) 2" by simp
  with s show ?thesis by metis
qed

text \<open>C3: Leader completeness. In a tidy run, an entry that a peer has committed is in the log of every leader, then
  or later, of the same or a later term, or is covered by that leader's snapshot.\<close>

theorem leader_completeness:
  assumes "tidy_reachable n s" and "tidy_events n es s" and "run_events n es s = Some s'" and "i < n" and "j < n"
    and "lastIncludedIndex (peer s i) < k" and "k \<le> commitIndex (peer s i)"
    and "state (peer s' j) = Leader" and "currentTerm (peer s i) \<le> currentTerm (peer s' j)"
  shows "k \<le> lastIncludedIndex (peer s' j) \<or> (\<exists>e. entry_at (peer s i) k = Some e \<and> entry_at (peer s' j) k = Some e)"
proof (cases "k \<le> lastIncludedIndex (peer s' j)")
  case False
  obtain g h where x: "expands (peer s i) g" and y: "expands (peer s' j) h"
    and pre: "\<And>k. 0 < k \<Longrightarrow> k \<le> commitIndex (peer s i) \<Longrightarrow> k \<le> commitIndex (peer s' j) \<or>
      state (peer s' j) = Leader \<and> currentTerm (peer s i) \<le> currentTerm (peer s' j) \<Longrightarrow> has_prefix (log g) (log h) (nat k + 1)"
    using expanded_commits [OF assms(1-5)] by metis
  have "0 < k" using x assms(6) by (auto simp: expands_def compacted_def)
  then have p: "has_prefix (log g) (log h) (nat k + 1)" using pre assms(7-9) by blast
  then have "nat k < length (log g)" "nat k < length (log h)" by (auto simp: has_prefix_def)
  then show ?thesis using expands_entry [OF x assms(6)] expands_entry [OF y, of k] False has_prefix_nth [OF p, of "nat k"] by simp
qed simp

theorem leader_completeness_witness:
  "\<exists>s. run_events 3 (demo_election @ demo_replicate @ demo_compact) (demo_start 3) = Some s \<and>
     commitIndex (peer s 2) = 2 \<and> state (peer s 0) = Leader \<and> entry_at (peer s 2) 2 = entry_at (peer s 0) 2"
proof -
  obtain s where r: "tidy_reachable 3 s" and run: "tidy_events 3 [] s" "run_events 3 [] s = Some s"
    and s: "run_events 3 (demo_election @ demo_replicate @ demo_compact) (demo_start 3) = Some s"
    "commitIndex (peer s 2) = 2" "state (peer s 0) = Leader" "lastIncludedIndex (peer s 0) = 1" "lastIncludedIndex (peer s 2) = 1"
    "currentTerm (peer s 0) = 1" "currentTerm (peer s 2) = 1" by (rule demo_compact_reachable)
  from leader_completeness [OF r run, of 2 0 2] s(2-7) have "entry_at (peer s 2) 2 = entry_at (peer s 0) 2" by auto
  with s show ?thesis by blast
qed

text \<open>C4: Log matching. In a tidy run, whenever two peers' logs have the same term at the same index, the entries up to
  that index that neither peer has compacted away are the same.\<close>

theorem log_matching:
  assumes "tidy_reachable n s" and "i < n" and "j < n"
    and "k \<le> getLastLogIndex (peer s i)" and "k \<le> getLastLogIndex (peer s j)" and "getLogTerm (peer s i) k = getLogTerm (peer s j) k"
    and "lastIncludedIndex (peer s i) < m" and "lastIncludedIndex (peer s j) < m" and "m \<le> k"
  shows "\<exists>e. entry_at (peer s i) m = Some e \<and> entry_at (peer s j) m = Some e"
proof -
  obtain V K L Lead A W G where inv: "snap_inv n V K L Lead A W G s" using tidy_reachable_inv [OF assms(1)] by blast
  note x = snap_own(4) [OF inv, of i] and y = snap_own(4) [OF inv, of j]
  have m: "matching L (log (G i))" "matching L (log (G j))"
    using snap_own(10) [OF inv assms(2)] snap_own(10) [OF inv assms(3)] by (auto simp: peer_match_def log_ok_def)
  have "0 < m" using x assms(7) by (auto simp: expands_def compacted_def)
  then have k: "nat k < length (log (G i))" "nat k < length (log (G j))" "0 \<le> k"
    using assms(4,5,9) expands_last(1) [OF x] expands_last(1) [OF y] expands_sel [OF x] expands_sel [OF y] by (auto simp: getLastLogIndex_def)
  have "getLogTerm (G i) k = getLogTerm (G j) k" using assms(6-9) expands_term [OF x, of k] expands_term [OF y, of k] by simp
  then have "Term (log (G i) ! nat k) = Term (log (G j) ! nat k)"
    using k expands_sel [OF x] expands_sel [OF y] by (auto simp: getLogTerm_def toArrayIndex_def Let_def nat_less_iff split: if_splits)
  then have "has_prefix (log (G i)) (log (G j)) (nat k + 1)" using matching_agree [OF m k(1,2)] k by (simp add: has_prefix_def)
  then have "log (G i) ! nat m = log (G j) ! nat m" by (rule has_prefix_nth) (use assms(9) in simp)
  moreover have "nat m < length (log (G i))" "nat m < length (log (G j))" using k assms(9) by auto
  ultimately show ?thesis using expands_entry(1) [OF x assms(7)] expands_entry(1) [OF y assms(8)] by simp
qed

theorem log_matching_witness:
  "\<exists>s. run_events 3 (demo_election @ demo_replicate @ demo_compact) (demo_start 3) = Some s \<and>
     lastIncludedIndex (peer s 2) = 1 \<and> getLastLogIndex (peer s 2) = 2 \<and> entry_at (peer s 0) 2 = entry_at (peer s 2) 2"
proof -
  obtain s where r: "tidy_reachable 3 s" and s: "run_events 3 (demo_election @ demo_replicate @ demo_compact) (demo_start 3) = Some s"
    "lastIncludedIndex (peer s 0) = 1" "lastIncludedIndex (peer s 2) = 1" "getLastLogIndex (peer s 0) = 2" "getLastLogIndex (peer s 2) = 2"
    "getLogTerm (peer s 0) 2 = 1" "getLogTerm (peer s 2) 2 = 1" by (rule demo_compact_reachable)
  from log_matching [OF r, of 0 2 2 2] s(2-7) have "entry_at (peer s 0) 2 = entry_at (peer s 2) 2" by auto
  with s show ?thesis by blast
qed

text \<open>C5: The snapshots of a tidy run agree with the logs: what a peer remembers as the term of the last entry its
  snapshot covers is the term every other peer has at that index once it has committed it, then or later, in its log or
  in a snapshot that ends there.\<close>

theorem snapshot_terms_agree:
  assumes "tidy_reachable n s" and "tidy_events n es s" and "run_events n es s = Some s'" and "i < n" and "j < n"
    and "0 < lastIncludedIndex (peer s i)" and "lastIncludedIndex (peer s' j) \<le> lastIncludedIndex (peer s i)"
    and "lastIncludedIndex (peer s i) \<le> commitIndex (peer s' j)"
  shows "getLogTerm (peer s' j) (lastIncludedIndex (peer s i)) = lastIncludedTerm (peer s i)"
proof -
  let ?k = "lastIncludedIndex (peer s i)"
  obtain g h where x: "expands (peer s i) g" and y: "expands (peer s' j) h"
    and pre: "\<And>k. 0 < k \<Longrightarrow> k \<le> commitIndex (peer s i) \<Longrightarrow> k \<le> commitIndex (peer s' j) \<or>
      state (peer s' j) = Leader \<and> currentTerm (peer s i) \<le> currentTerm (peer s' j) \<Longrightarrow> has_prefix (log g) (log h) (nat k + 1)"
    using expanded_commits [OF assms(1-5)] by metis
  have c: "?k \<le> commitIndex (peer s i)" "lastIncludedTerm (peer s i) = Term (log g ! nat ?k)" using x by (auto simp: expands_def)
  then have p: "has_prefix (log g) (log h) (nat ?k + 1)" using pre assms(6,8) by blast
  then have "nat ?k < length (log h)" by (auto simp: has_prefix_def)
  then have "getLogTerm h ?k = Term (log g ! nat ?k)"
    using has_prefix_nth [OF p, of "nat ?k"] expands_sel [OF y] assms(6) by (simp add: getLogTerm_def toArrayIndex_def Let_def nat_less_iff)
  then show ?thesis using expands_term [OF y assms(7)] c(2) by simp
qed

theorem snapshot_terms_agree_witness:
  "\<exists>s. run_events 3 (demo_election @ demo_replicate @ demo_compact) (demo_start 3) = Some s \<and>
     lastIncludedIndex (peer s 2) = 1 \<and> getLogTerm (peer s 2) 1 = lastIncludedTerm (peer s 0)"
proof -
  obtain s where r: "tidy_reachable 3 s" and run: "tidy_events 3 [] s" "run_events 3 [] s = Some s"
    and s: "run_events 3 (demo_election @ demo_replicate @ demo_compact) (demo_start 3) = Some s"
    "commitIndex (peer s 2) = 2" "lastIncludedIndex (peer s 0) = 1" "lastIncludedIndex (peer s 2) = 1" by (rule demo_compact_reachable)
  from snapshot_terms_agree [OF r run, of 0 2] s(2-4) have "getLogTerm (peer s 2) 1 = lastIncludedTerm (peer s 0)" by simp
  with s show ?thesis by blast
qed

section \<open>A request that comes late\<close>

definition demo_late :: "(nat, nat) event list" where
  "demo_late = [ClientStart 0 (Some 7), ClientStart 0 (Some 8), SendTo 0 1, SendTo 0 1, Deliver 1 (1001, 0), Deliver 2 (1002, 0),
     SendTo 0 1, Deliver 2 (1003, 0), ServiceSnapshot 1 2 [9]]"

text \<open>A late request takes a follower down. In a tidy run of three peers the leader sends two entries to a follower twice
  (a heartbeat repeats what is not acknowledged yet); the follower takes them from the first request, learns that they
  are committed, applies them and takes a snapshot. When the second request arrives, the handler cuts its log at a negative
  position and panics.\<close>

theorem late_append_panics:
  "\<exists>s a. run_events 3 (demo_election @ demo_late) (demo_start 3) = Some s \<and> tidy_events 3 (demo_election @ demo_late) (demo_start 3) \<and>
     lastIncludedIndex (peer s 1) = 2 \<and> commitIndex (peer s 1) = 2 \<and> 1 < length (net s) \<and> callee (net s ! 1) = 1 \<and>
     payload (net s ! 1) = AppendCall a \<and> AETerm a = currentTerm (peer s 1) \<and>
     AppendEntries (1004, 0) a (peer s 1) = Inl SliceBounds \<and> happen 3 (Deliver 1 (1004, 0)) s = None"
  by (simp add: demo_election_def demo_late_def demo_start_def snapshot_eval Let_def upt_conv_Cons upto.simps go_slice_to_def)

end
