(* ===== verification/RaftService.thy ===== *)
theory RaftService
  imports RaftApply
begin

text \<open>
  The service above a Raft peer (\<open>raft1/server.go\<close>) and the bookkeeping it shares with the other
  servers of a cluster (\<open>checkLogs\<close> of \<open>raft1/test.go\<close>): it reads the apply channel, checks that
  commands come in index order and agree with what every other server applied, takes a snapshot
  of its log at every tenth index, and restores itself from snapshots.

  A snapshot is the stream of the values the service encodes. An error of the service ends the
  process (\<open>log.Fatalf\<close>).
\<close>

section \<open>State\<close>

datatype 'c snap_item = SInt int | SLog "'c option list"

type_synonym 'c snapshot = "'c snap_item list"

record 'c rfsrv =
  srvApplied :: int
  logs :: "int \<Rightarrow> 'c option option"

record 'c Test =
  srvs :: "'c rfsrv list"
  maxIndex :: int

definition SnapShotInterval :: int where "SnapShotInterval = 10"

section \<open>Operations\<close>

definition Logs :: "int \<Rightarrow> 'c rfsrv \<Rightarrow> 'c option option" where
  "Logs i rs = logs rs i"

definition checkLogs ::
  "nat \<Rightarrow> ('c, 'c snap_item) ApplyMsg \<Rightarrow> 'c Test \<Rightarrow> 'c Test \<times> string \<times> bool" where
  "checkLogs i m ts =
     (let v = MsgCommand m;
          differs = (\<lambda>rs. case Logs (CommandIndex m) rs of None \<Rightarrow> False | Some old \<Rightarrow> old \<noteq> v);
          err_msg = (if \<exists>rs \<in> set (srvs ts). differs rs then ''commit index values differ'' else '''');
          me = srvs ts ! i;
          prevok = (logs me (CommandIndex m - 1) \<noteq> None);
          me1 = me\<lparr>logs := (logs me)(CommandIndex m \<mapsto> v)\<rparr>
      in (ts\<lparr>srvs := (srvs ts)[i := me1],
             maxIndex := (if CommandIndex m > maxIndex ts then CommandIndex m else maxIndex ts)\<rparr>, err_msg, prevok))"

fun decode_snapshot :: "'c snapshot \<Rightarrow> (int \<times> 'c option list) option" where
  "decode_snapshot (SInt i # SLog xlog # _) = Some (i, xlog)"
| "decode_snapshot _ = None"

definition ingestSnap :: "'c snapshot \<Rightarrow> int \<Rightarrow> 'c rfsrv \<Rightarrow> ('c rfsrv \<times> string) go" where
  "ingestSnap snap index rs =
     (case decode_snapshot snap of
        None \<Rightarrow> Inl (Fatal ''snapshot decode error'')
      | Some (lii, xlog) \<Rightarrow>
          if index \<noteq> -1 \<and> index \<noteq> lii then Inr (rs, ''snapshot does not match m.SnapshotIndex'')
          else Inr (rs\<lparr>logs := (\<lambda>j. if 0 \<le> j \<and> j < int (length xlog) then Some (xlog ! nat j) else None),
                       srvApplied := lii\<rparr>, ''''))"

text \<open>What the service encodes at an index: the index and everything applied up to it; a missing
  entry of the map reads as nil.\<close>

definition make_snapshot :: "int \<Rightarrow> 'c rfsrv \<Rightarrow> 'c snapshot" where
  "make_snapshot index rs =
     [SInt index, SLog (map (\<lambda>j. case logs rs j of None \<Rightarrow> None | Some v \<Rightarrow> v) [0..index])]"

text \<open>One round of \<open>applier\<close>, without snapshots.\<close>

definition applier_msg :: "nat \<Rightarrow> ('c, 'c snap_item) ApplyMsg \<Rightarrow> 'c Test \<Rightarrow> 'c Test go" where
  "applier_msg i m ts =
     (if \<not> CommandValid m then Inr ts
      else
        let (ts1, err_msg, prevok) = checkLogs i m ts;
            err = (if CommandIndex m > 1 \<and> \<not> prevok then ''apply out of order'' else err_msg)
        in if err \<noteq> '''' then Inl (Fatal err) else Inr ts1)"

text \<open>One round of \<open>applierSnap\<close>: the new state and the \<open>Snapshot\<close> call on the peer, if any.\<close>

definition applierSnap_msg ::
  "nat \<Rightarrow> ('c, 'c snap_item) ApplyMsg \<Rightarrow> 'c Test \<Rightarrow> ('c Test \<times> (int \<times> 'c snapshot) option) go" where
  "applierSnap_msg i m ts =
     (if SnapshotValid m then
        go_bind (ingestSnap (MsgSnapshot m) (SnapshotIndex m) (srvs ts ! i)) (\<lambda>(rs, err).
          if err \<noteq> '''' then Inl (Fatal err) else Inr (ts\<lparr>srvs := (srvs ts)[i := rs]\<rparr>, None))
      else if CommandValid m then
        (if CommandIndex m \<noteq> srvApplied (srvs ts ! i) + 1 then Inl (Fatal ''apply out of order'')
         else
           let (ts1, err_msg, prevok) = checkLogs i m ts;
               err = (if CommandIndex m > 1 \<and> \<not> prevok then ''apply out of order'' else err_msg);
               rs = (srvs ts1 ! i)\<lparr>srvApplied := CommandIndex m\<rparr>
           in if err \<noteq> '''' then Inl (Fatal err)
              else Inr (ts1\<lparr>srvs := (srvs ts1)[i := rs]\<rparr>,
                        if (CommandIndex m + 1) mod SnapShotInterval = 0
                        then Some (CommandIndex m, make_snapshot (CommandIndex m) rs) else None))
      else Inr (ts, None))"

text \<open>The service starts from the snapshot its persister holds, if there is one.\<close>

definition newRfsrv :: "bool \<Rightarrow> ('r, 'c snap_item) Persister \<Rightarrow> 'c rfsrv go" where
  "newRfsrv snapshots ps =
     (let s = \<lparr>srvApplied = 0, logs = (\<lambda>_. None)\<rparr> in
      if snapshots \<and> length (ReadSnapshot ps) > 0
      then go_bind (ingestSnap (ReadSnapshot ps) (-1) s) (\<lambda>(s1, err).
             if err \<noteq> '''' then Inl (Fatal err) else Inr s1)
      else Inr s)"

definition rfsrv_Kill :: "('r, 's) Persister \<Rightarrow> ('r, 's) Persister" where
  "rfsrv_Kill ps = Save (ReadRaftState ps) (ReadSnapshot ps) ps"

fun feed :: "nat \<Rightarrow> ('c, 'c snap_item) ApplyMsg list \<Rightarrow> 'c Test \<Rightarrow> ('c Test \<times> (int \<times> 'c snapshot) list) go" where
  "feed i [] ts = Inr (ts, [])"
| "feed i (m # ms) ts =
     go_bind (applierSnap_msg i m ts) (\<lambda>(ts1, call).
     go_map (\<lambda>(ts2, calls). (ts2, (case call of None \<Rightarrow> calls | Some c \<Rightarrow> c # calls))) (feed i ms ts1))"

section \<open>Checks of the cluster\<close>

text \<open>\<open>nCommitted\<close>: how many servers applied something at an index, and what.\<close>

fun nCommitted_scan :: "int \<Rightarrow> 'c rfsrv list \<Rightarrow> int \<Rightarrow> 'c option \<Rightarrow> (int \<times> 'c option) go" where
  "nCommitted_scan index [] cnt cmd = Inr (cnt, cmd)"
| "nCommitted_scan index (rs # rest) cnt cmd =
     (case Logs index rs of
        None \<Rightarrow> nCommitted_scan index rest cnt cmd
      | Some cmd1 \<Rightarrow>
          if cnt > 0 \<and> cmd \<noteq> cmd1 then Inl (Fatal ''committed values do not match'')
          else nCommitted_scan index rest (cnt + 1) cmd1)"

definition nCommitted :: "int \<Rightarrow> 'c Test \<Rightarrow> (int \<times> 'c option) go" where
  "nCommitted index ts = nCommitted_scan index (srvs ts) 0 None"

definition checkNoAgreement :: "int \<Rightarrow> 'c Test \<Rightarrow> unit go" where
  "checkNoAgreement index ts =
     go_bind (nCommitted index ts) (\<lambda>(n, _). if n > 0 then Inl (Fatal ''committed but no majority'') else Inr ())"

text \<open>One iteration of \<open>checkOneLeader\<close> on what the connected servers answered to \<open>GetState\<close>: the
  leaders by term, a failure if a term has several, and otherwise the leader of the latest term
  that has one.\<close>

type_synonym answers = "(nat \<times> int \<times> bool) list"

definition leaders_of :: "answers \<Rightarrow> int \<Rightarrow> nat list" where
  "leaders_of rs term = map fst (filter (\<lambda>(i, t, leader). leader \<and> t = term) rs)"

definition leader_terms :: "answers \<Rightarrow> int list" where
  "leader_terms rs = map (\<lambda>(i, t, leader). t) (filter (\<lambda>(i, t, leader). leader) rs)"

definition checkOneLeader_round :: "answers \<Rightarrow> nat option go" where
  "checkOneLeader_round rs =
     (if \<exists>t \<in> set (leader_terms rs). length (leaders_of rs t) > 1 then Inl (Fatal ''term has several leaders'')
      else if leader_terms rs = [] then Inr None
      else
        let lastTermWithLeader = fold max (leader_terms rs) (-1) in
        go_map Some (go_index (leaders_of rs lastTermWithLeader) 0))"

fun checkOneLeader :: "answers list \<Rightarrow> nat go" where
  "checkOneLeader [] = Inl (Fatal ''expected one leader, got none'')"
| "checkOneLeader (rs # rounds) =
     go_bind (checkOneLeader_round rs) (\<lambda>l. case l of Some i \<Rightarrow> Inr i | None \<Rightarrow> checkOneLeader rounds)"

lemma fold_max_spec:
  "fold max xs a \<in> insert a (set xs) \<and> a \<le> fold max xs a \<and> (\<forall>x \<in> set xs. x \<le> fold max xs (a :: int))"
proof (induction xs arbitrary: a)
  case (Cons x xs)
  from Cons [of "max x a"] show ?case by (auto simp: max_def split: if_splits)
qed simp

lemma fold_max_mem:
  assumes "xs \<noteq> []" and "\<forall>x \<in> set xs. 0 \<le> x"
  shows "fold max xs (-1) \<in> set (xs :: int list)"
proof -
  from fold_max_spec [of xs "-1"] have "fold max xs (-1) \<in> insert (-1) (set xs)" "\<forall>x \<in> set xs. x \<le> fold max xs (-1)" by blast+
  then show ?thesis using assms by (cases xs) auto
qed

lemma leaders_of_mem: "i \<in> set (leaders_of rs t) \<longleftrightarrow> (i, t, True) \<in> set rs"
  by (force simp: leaders_of_def)

text \<open>Answers with distinct servers and at most one leader in a term pass the check.\<close>

lemma checkOneLeader_round_ok:
  assumes "distinct (map fst rs)" and "\<And>i j t. (i, t, True) \<in> set rs \<Longrightarrow> (j, t, True) \<in> set rs \<Longrightarrow> i = j"
    and "\<And>i t. (i, t, True) \<in> set rs \<Longrightarrow> 0 \<le> t"
  shows "\<exists>l. checkOneLeader_round rs = Inr l \<and>
    (case l of None \<Rightarrow> \<forall>i t. (i, t, True) \<notin> set rs
     | Some i \<Rightarrow> \<exists>t. (i, t, True) \<in> set rs \<and> (\<forall>j u. (j, u, True) \<in> set rs \<longrightarrow> u \<le> t))"
proof -
  have d: "distinct (leaders_of rs t)" for t
    using assms(1) unfolding leaders_of_def by (rule distinct_map_filter)
  have one: "length (leaders_of rs t) \<le> 1" for t
  proof (rule ccontr)
    assume "\<not> length (leaders_of rs t) \<le> 1"
    then obtain a b r where "leaders_of rs t = a # b # r" by (metis One_nat_def Suc_le_eq length_0_conv length_Suc_conv less_one list.exhaust not_le)
    then show False using d [of t] assms(2) leaders_of_mem [of a rs t] leaders_of_mem [of b rs t] by auto
  qed
  have terms: "t \<in> set (leader_terms rs) \<longleftrightarrow> (\<exists>i. (i, t, True) \<in> set rs)" for t by (force simp: leader_terms_def)
  show ?thesis
  proof (cases "leader_terms rs = []")
    case True
    then have "\<forall>i t. (i, t, True) \<notin> set rs" using terms by (metis empty_iff list.set(1))
    then show ?thesis using True by (simp add: checkOneLeader_round_def)
  next
    case False
    let ?t = "fold max (leader_terms rs) (-1)"
    have "?t \<in> set (leader_terms rs)" using False terms assms(3) by (intro fold_max_mem) auto
    then obtain i where i: "(i, ?t, True) \<in> set rs" using terms by blast
    then have "leaders_of rs ?t = [i]"
      using one [of ?t] leaders_of_mem [of i rs ?t] by (cases "leaders_of rs ?t") (auto simp: le_Suc_eq)
    moreover have "u \<le> ?t" if "(j, u, True) \<in> set rs" for j u
      using that terms fold_max_spec [of "leader_terms rs" "-1"] by blast
    ultimately show ?thesis using one False i by (auto simp: checkOneLeader_round_def not_less Let_def)
  qed
qed

section \<open>Applying commands\<close>

text \<open>No server has applied another command at this index.\<close>

definition no_conflict :: "int \<Rightarrow> 'c \<Rightarrow> 'c Test \<Rightarrow> bool" where
  "no_conflict index c ts \<longleftrightarrow> (\<forall>rs \<in> set (srvs ts). \<forall>v. logs rs index = Some v \<longrightarrow> v = Some c)"

definition ready_at :: "nat \<Rightarrow> int \<Rightarrow> 'c Test \<Rightarrow> bool" where
  "ready_at i a ts \<longleftrightarrow> i < length (srvs ts) \<and> srvApplied (srvs ts ! i) = a \<and> 0 \<le> a \<and>
     (0 < a \<longrightarrow> logs (srvs ts ! i) a \<noteq> None)"

lemma no_conflict_upd:
  "no_conflict j d ts \<Longrightarrow> (\<And>v. logs rs j = Some v \<Longrightarrow> v = Some d) \<Longrightarrow>
   no_conflict j d (ts\<lparr>srvs := (srvs ts)[i := rs]\<rparr>)"
  using set_update_subset_insert [of "srvs ts" i rs] unfolding no_conflict_def by fastforce

lemma feed_command:
  assumes "ready_at i a ts" and "no_conflict (a + 1) c ts"
  shows "\<exists>ts' call. applierSnap_msg i (command_msg c (a + 1)) ts = Inr (ts', call) \<and> ready_at i (a + 1) ts' \<and>
    logs (srvs ts' ! i) = (logs (srvs ts ! i))(a + 1 \<mapsto> Some c) \<and>
    (\<forall>j d. j \<noteq> a + 1 \<longrightarrow> no_conflict j d ts \<longrightarrow> no_conflict j d ts')"
proof -
  let ?rs = "srvs ts ! i"
  let ?rs' = "?rs\<lparr>logs := (logs ?rs)(a + 1 \<mapsto> Some c), srvApplied := a + 1\<rparr>"
  let ?ts' = "ts\<lparr>srvs := (srvs ts)[i := ?rs'], maxIndex := (if a + 1 > maxIndex ts then a + 1 else maxIndex ts)\<rparr>"
  have i: "i < length (srvs ts)" and a: "srvApplied ?rs = a" "0 \<le> a" "0 < a \<Longrightarrow> logs ?rs a \<noteq> None"
    using assms(1) by (auto simp: ready_at_def)
  have agree: "\<not> (\<exists>rs \<in> set (srvs ts). case logs rs (a + 1) of None \<Rightarrow> False | Some old \<Rightarrow> old \<noteq> Some c)"
    using assms(2) by (auto simp: no_conflict_def split: option.splits)
  have "\<exists>call. applierSnap_msg i (command_msg c (a + 1)) ts = Inr (?ts', call)"
    using i a agree
    by (cases "a = 0") (auto simp: applierSnap_msg_def command_msg_def checkLogs_def Let_def Logs_def)
  moreover have "ready_at i (a + 1) ?ts'" using i a(2) by (simp add: ready_at_def)
  moreover have "no_conflict j d ?ts'" if "j \<noteq> a + 1" "no_conflict j d ts" for j d
  proof -
    have "v = Some d" if "logs ?rs j = Some v" for v
      using that \<open>no_conflict j d ts\<close> nth_mem [OF i] unfolding no_conflict_def by blast
    then have "no_conflict j d (ts\<lparr>srvs := (srvs ts)[i := ?rs']\<rparr>)"
      using \<open>j \<noteq> a + 1\<close> by (intro no_conflict_upd [OF that(2)]) simp
    then show ?thesis by (simp add: no_conflict_def)
  qed
  moreover have "logs (srvs ?ts' ! i) = (logs ?rs)(a + 1 \<mapsto> Some c)" using i by simp
  ultimately show ?thesis by blast
qed

lemma feed_commands:
  assumes "ready_at i a ts" and "\<And>k. a < k \<Longrightarrow> k \<le> b \<Longrightarrow> no_conflict k (cmd k) ts" and "a \<le> b"
  shows "\<exists>ts' calls. feed i (map (\<lambda>k. command_msg (cmd k) k) [a + 1..b]) ts = Inr (ts', calls) \<and> ready_at i b ts' \<and>
    (\<forall>k. logs (srvs ts' ! i) k = (if a < k \<and> k \<le> b then Some (Some (cmd k)) else logs (srvs ts ! i) k))"
  using assms
proof (induction "nat (b - a)" arbitrary: a ts)
  case 0
  then have "b = a" by simp
  then show ?case using 0 by auto
next
  case (Suc d)
  then have ab: "a + 1 \<le> b" by simp
  obtain ts1 call where one: "applierSnap_msg i (command_msg (cmd (a + 1)) (a + 1)) ts = Inr (ts1, call)"
    "ready_at i (a + 1) ts1" "logs (srvs ts1 ! i) = (logs (srvs ts ! i))(a + 1 \<mapsto> Some (cmd (a + 1)))"
    "\<And>j d. j \<noteq> a + 1 \<Longrightarrow> no_conflict j d ts \<Longrightarrow> no_conflict j d ts1"
    using feed_command [OF Suc.prems(1) Suc.prems(2) [of "a + 1"]] ab by auto
  obtain ts' calls where rest: "feed i (map (\<lambda>k. command_msg (cmd k) k) [a + 1 + 1..b]) ts1 = Inr (ts', calls)"
    "ready_at i b ts'"
    "\<And>k. logs (srvs ts' ! i) k = (if a + 1 < k \<and> k \<le> b then Some (Some (cmd k)) else logs (srvs ts1 ! i) k)"
    using Suc.hyps(1) [of "a + 1" ts1] Suc.hyps(2) Suc.prems(2) one(2,4) ab by fastforce
  have "[a + 1..b] = (a + 1) # [a + 1 + 1..b]" using ab by (rule upto_rec1)
  then have "\<exists>calls. feed i (map (\<lambda>k. command_msg (cmd k) k) [a + 1..b]) ts = Inr (ts', calls)"
    using one(1) rest(1) by auto
  moreover have "logs (srvs ts' ! i) k = (if a < k \<and> k \<le> b then Some (Some (cmd k)) else logs (srvs ts ! i) k)" for k
    using rest(3) one(3) ab by auto
  ultimately show ?case using rest(2) by blast
qed

lemma feed_append:
  "feed i (ms @ ns) ts = go_bind (feed i ms ts) (\<lambda>(ts1, calls).
     go_map (\<lambda>(ts2, calls2). (ts2, calls @ calls2)) (feed i ns ts1))"
proof (induction ms arbitrary: ts)
  case Nil
  then show ?case by (simp add: go_map_def split: sum.split)
next
  case (Cons m ms)
  then show ?case by (auto simp: go_bind_def go_map_def split: sum.split option.split)
qed

lemma feed_snapshot:
  assumes "i < length (srvs ts)" and "decode_snapshot (ReadSnapshot (persister rf)) = Some (lastIncludedIndex rf, xlog)"
    and "0 \<le> lastIncludedIndex rf" and "lastIncludedIndex rf < int (length xlog)"
  shows "\<exists>ts'. applierSnap_msg i (snapshot_msg rf) ts = Inr (ts', None) \<and> ready_at i (lastIncludedIndex rf) ts' \<and>
    logs (srvs ts' ! i) = (\<lambda>j. if 0 \<le> j \<and> j < int (length xlog) then Some (xlog ! nat j) else None) \<and>
    (\<forall>j d. int (length xlog) \<le> j \<longrightarrow> no_conflict j d ts \<longrightarrow> no_conflict j d ts')"
proof -
  let ?rs = "(srvs ts ! i)\<lparr>logs := (\<lambda>j. if 0 \<le> j \<and> j < int (length xlog) then Some (xlog ! nat j) else None),
    srvApplied := lastIncludedIndex rf\<rparr>"
  have "applierSnap_msg i (snapshot_msg rf) ts = Inr (ts\<lparr>srvs := (srvs ts)[i := ?rs]\<rparr>, None)"
    using assms(2) by (simp add: applierSnap_msg_def snapshot_msg_def ingestSnap_def)
  moreover have "no_conflict j d (ts\<lparr>srvs := (srvs ts)[i := ?rs]\<rparr>)" if "int (length xlog) \<le> j" "no_conflict j d ts" for j d
    using no_conflict_upd [OF that(2), of ?rs i] that(1) by simp
  ultimately show ?thesis using assms by (intro exI conjI) (auto simp: ready_at_def)
qed

section \<open>Properties of the service\<close>

text \<open>C19: The service accepts what its peer delivers. A service that has applied exactly what its peer counts as applied takes
  a whole round of the applier without an error, provided that no server has applied a different command at the indices
  the round delivers as commands, and that a snapshot the round delivers decodes to the position the peer has for it.
  Afterwards the service has applied everything up to the peer's commit index: at the indices beyond the old
  position and the snapshot the commands of the peer's log, below them the content of the snapshot if one was delivered,
  and what it had before otherwise.\<close>

theorem service_accepts_round:
  assumes "applicable rf" and "lastApplied rf < commitIndex rf" and "lastIncludedIndex rf \<le> commitIndex rf"
    and i: "ready_at i (lastApplied rf) ts"
    and ok: "\<forall>k. max (lastApplied rf) (lastIncludedIndex rf) < k \<and> k \<le> commitIndex rf \<longrightarrow>
      no_conflict k (the (Command (the (entry_at rf k)))) ts"
    and snap: "lastApplied rf < lastIncludedIndex rf \<longrightarrow> int (length xlog) = lastIncludedIndex rf + 1 \<and>
      decode_snapshot (ReadSnapshot (persister rf)) = Some (lastIncludedIndex rf, xlog)"
  shows "\<exists>ts' calls. feed i (snd (applier_round rf)) ts = Inr (ts', calls) \<and>
    srvApplied (srvs ts' ! i) = commitIndex rf \<and>
    (\<forall>k. logs (srvs ts' ! i) k =
       (if max (lastApplied rf) (lastIncludedIndex rf) < k \<and> k \<le> commitIndex rf then Some (Command (the (entry_at rf k)))
        else if lastApplied rf < lastIncludedIndex rf then (if 0 \<le> k \<and> k \<le> lastIncludedIndex rf then Some (xlog ! nat k) else None)
        else logs (srvs ts ! i) k))"
proof -
  let ?cmd = "\<lambda>k. the (Command (the (entry_at rf k)))" and ?a = "max (lastApplied rf) (lastIncludedIndex rf)"
  let ?before = "\<lambda>k. if lastApplied rf < lastIncludedIndex rf then (if 0 \<le> k \<and> k \<le> lastIncludedIndex rf then Some (xlog ! nat k) else None)
      else logs (srvs ts ! i) k"
  note round = applier_round_eq [OF assms(1-3)]
  have nonil: "Command (the (entry_at rf k)) = Some (?cmd k)" if "lastIncludedIndex rf < k" "k \<le> commitIndex rf" for k
    using msg_at_applicable [OF assms(1) that] by auto
  have i0: "i < length (srvs ts)" "0 \<le> lastApplied rf" using i by (auto simp: ready_at_def)
  have "\<exists>ts1. feed i (if lastApplied rf < lastIncludedIndex rf then [snapshot_msg rf] else []) ts = Inr (ts1, []) \<and>
      ready_at i ?a ts1 \<and> (\<forall>k. logs (srvs ts1 ! i) k = ?before k) \<and> (\<forall>k. ?a < k \<and> k \<le> commitIndex rf \<longrightarrow> no_conflict k (?cmd k) ts1)"
  proof (cases "lastApplied rf < lastIncludedIndex rf")
    case True
    then have x: "decode_snapshot (ReadSnapshot (persister rf)) = Some (lastIncludedIndex rf, xlog)"
      "int (length xlog) = lastIncludedIndex rf + 1" using snap by auto
    from feed_snapshot [OF i0(1) x(1)] x(2) True i0(2) obtain ts' where
      "applierSnap_msg i (snapshot_msg rf) ts = Inr (ts', None)" "ready_at i (lastIncludedIndex rf) ts'"
      "logs (srvs ts' ! i) = (\<lambda>j. if 0 \<le> j \<and> j < lastIncludedIndex rf + 1 then Some (xlog ! nat j) else None)"
      "\<And>j d. lastIncludedIndex rf + 1 \<le> j \<Longrightarrow> no_conflict j d ts \<Longrightarrow> no_conflict j d ts'" by auto
    then show ?thesis using True ok by (intro exI [of _ ts']) (auto simp: max_def)
  next
    case False
    then show ?thesis using i ok by (intro exI [of _ ts]) (auto simp: max_def)
  qed
  then obtain ts1 where ts1: "feed i (if lastApplied rf < lastIncludedIndex rf then [snapshot_msg rf] else []) ts = Inr (ts1, [])"
    "ready_at i ?a ts1" "\<And>k. logs (srvs ts1 ! i) k = ?before k"
    "\<And>k. ?a < k \<Longrightarrow> k \<le> commitIndex rf \<Longrightarrow> no_conflict k (?cmd k) ts1" by blast
  from feed_commands [OF ts1(2,4)] assms(2,3) obtain ts' calls where
    f: "feed i (map (\<lambda>k. command_msg (?cmd k) k) [?a + 1..commitIndex rf]) ts1 = Inr (ts', calls)" "ready_at i (commitIndex rf) ts'"
    "\<And>k. logs (srvs ts' ! i) k = (if ?a < k \<and> k \<le> commitIndex rf then Some (Some (?cmd k)) else logs (srvs ts1 ! i) k)"
    by fastforce
  have "logs (srvs ts' ! i) k = (if ?a < k \<and> k \<le> commitIndex rf then Some (Command (the (entry_at rf k))) else ?before k)" for k
    unfolding f(3) ts1(3) using nonil [of k] by simp
  then show ?thesis unfolding round using ts1(1) f(1,2) by (auto simp: feed_append ready_at_def)
qed

definition demo_service :: "nat Test" where
  "demo_service = \<lparr>srvs = [\<lparr>srvApplied = 0, logs = (\<lambda>_. None)\<rparr>], maxIndex = 0\<rparr>"

definition demo_ready :: "(nat, nat snap_item) Raft" where
  "demo_ready = (Make 3 0 MakePersister (0, 0))\<lparr>log := [\<lparr>Command = None, Term = 0\<rparr>, entry 1 10, entry 1 11], commitIndex := 2\<rparr>"

lemma demo_ready_applicable: "applicable demo_ready"
proof -
  have "k = 1 \<or> k = 2" if "0 < k" "k \<le> (2::int)" for k using that by auto
  then show ?thesis unfolding applicable_def
    by (fastforce simp: demo_ready_def entry_at_def demo_simps)
qed

theorem service_accepts_round_witness:
  "\<exists>ts calls. feed 0 (snd (applier_round demo_ready)) demo_service = Inr (ts, calls) \<and> srvApplied (srvs ts ! 0) = 2"
proof -
  have f: "lastApplied demo_ready = 0" "commitIndex demo_ready = 2" "lastIncludedIndex demo_ready = 0"
    by (simp_all add: demo_ready_def Make_def readPersist_def)
  have r: "ready_at 0 (lastApplied demo_ready) demo_service" using f by (simp add: ready_at_def demo_service_def)
  have "\<forall>k c. no_conflict k c demo_service" by (simp add: no_conflict_def demo_service_def)
  then show ?thesis using service_accepts_round [OF demo_ready_applicable _ _ r, of "[]"] f by auto
qed

text \<open>Snapshots of the service round-trip. The snapshot a service takes at an index decodes to that
  index and a log that reaches exactly to it, and a service that ingests it has applied the index
  and holds the same command at every index the first one had applied.\<close>

theorem snapshot_round_trip:
  assumes "0 \<le> index" and "\<forall>j. 1 \<le> j \<and> j \<le> index \<longrightarrow> logs rs j \<noteq> None"
  shows "\<exists>xlog rs'. decode_snapshot (make_snapshot index rs) = Some (index, xlog) \<and> int (length xlog) = index + 1 \<and>
    ingestSnap (make_snapshot index rs) index rs0 = Inr (rs', '''') \<and> srvApplied rs' = index \<and>
    (\<forall>j. 1 \<le> j \<and> j \<le> index \<longrightarrow> logs rs' j = logs rs j)"
proof -
  let ?v = "\<lambda>j. case logs rs j of None \<Rightarrow> None | Some v \<Rightarrow> v"
  let ?rs' = "rs0\<lparr>logs := (\<lambda>j. if 0 \<le> j \<and> j < int (length (map ?v [0..index])) then Some (map ?v [0..index] ! nat j) else None),
    srvApplied := index\<rparr>"
  have "ingestSnap (make_snapshot index rs) index rs0 = Inr (?rs', '''')"
    by (simp add: ingestSnap_def make_snapshot_def)
  moreover have "logs ?rs' j = logs rs j" if "1 \<le> j" "j \<le> index" for j
    using assms that by auto
  ultimately show ?thesis using assms(1) by (intro exI [of _ "map ?v [0..index]"] exI [of _ ?rs']) (auto simp: make_snapshot_def)
qed

theorem snapshot_round_trip_witness:
  "\<exists>rs'. ingestSnap (make_snapshot 2 \<lparr>srvApplied = 2, logs = [1 \<mapsto> Some (10::nat), 2 \<mapsto> Some 11]\<rparr>) 2
      \<lparr>srvApplied = 0, logs = (\<lambda>_. None)\<rparr> = Inr (rs', '''') \<and> logs rs' 2 = Some (Some 11)"
proof -
  let ?rs = "\<lparr>srvApplied = 2, logs = [1 \<mapsto> Some (10::nat), 2 \<mapsto> Some 11]\<rparr>"
  have "\<forall>j. 1 \<le> j \<and> j \<le> 2 \<longrightarrow> logs ?rs j \<noteq> None" by auto
  from snapshot_round_trip [OF _ this, of "\<lparr>srvApplied = 0, logs = (\<lambda>_. None)\<rparr>"] show ?thesis by fastforce
qed

end
