(* ===== verification/RaftTester.thy ===== *)
theory RaftTester
  imports RaftAgreement RaftService
begin

text \<open>
  A Raft cluster with its services and the tester above it (\<open>raft1/test.go\<close>, \<open>raft1/server.go\<close>): peers
  exchange packets, an applier hands committed commands to its service over a channel, the services
  record them and compare them with each other, and the tester starts commands and waits until
  enough servers have applied them.

  Services take no snapshots here. The messages an applier still holds when its server is killed and restarted go
  on to its old service, and that service checks them against the one that has taken its place.
\<close>

section \<open>The system\<close>

record 'c tsys =
  cl :: "('c, 'c snap_item) cluster"
  tst :: "'c Test"
  chan :: "nat \<Rightarrow> ('c, 'c snap_item) ApplyMsg list"   \<comment> \<open>collected by the applier and not received yet\<close>
  late :: "nat \<Rightarrow> ('c, 'c snap_item) ApplyMsg list list"   \<comment> \<open>the same of the former instances of a server\<close>

datatype 'c sys_event =
    Net "('c, 'c snap_item) event"    \<comment> \<open>a section of a peer, or the network\<close>
  | Collect nat                       \<comment> \<open>the applier's section\<close>
  | Receive nat                       \<comment> \<open>the service takes a message from the channel\<close>
  | RestartServer nat tick
  | LateReceive nat nat               \<comment> \<open>a former service takes a message from its killed peer\<close>

definition fresh_srv :: "'c rfsrv" where
  "fresh_srv = \<lparr>srvApplied = 0, logs = (\<lambda>_. None)\<rparr>"

definition makeTest :: "nat \<Rightarrow> 'c Test" where
  "makeTest n = \<lparr>srvs = replicate n fresh_srv, maxIndex = 0\<rparr>"

definition sys_init :: "nat \<Rightarrow> (nat \<Rightarrow> tick) \<Rightarrow> 'c tsys" where
  "sys_init n tk = \<lparr>cl = cluster_init n tk, tst = makeTest n, chan = (\<lambda>_. []), late = (\<lambda>_. [])\<rparr>"

text \<open>\<open>mksrv\<close>: a new service takes the place of the old one.\<close>

definition mksrv :: "nat \<Rightarrow> ('r, 'c snap_item) Persister \<Rightarrow> 'c Test \<Rightarrow> 'c Test go" where
  "mksrv i ps ts = go_map (\<lambda>rs. ts\<lparr>srvs := (srvs ts)[i := rs]\<rparr>) (newRfsrv False ps)"

text \<open>Sections other than the applier's and restarts; commands are not nil.\<close>

definition mild :: "('c, 's) event \<Rightarrow> bool" where
  "mild e \<longleftrightarrow> (case e of ServiceSnapshot _ _ _ \<Rightarrow> False | ApplySnapshot _ \<Rightarrow> False | ApplyCollect _ \<Rightarrow> False
     | Restart _ _ \<Rightarrow> False | ClientStart _ c \<Rightarrow> c \<noteq> None | _ \<Rightarrow> True)"

text \<open>An error is the tester's; \<open>None\<close> an event that cannot happen now. The applier collects when it has sent
  everything it collected before. An applier whose peer is killed ends after the messages it has collected; \<open>checkLogs\<close>
  finds the service by number, so those of a former instance count for the present one.\<close>

definition sys_do :: "nat \<Rightarrow> 'c sys_event \<Rightarrow> 'c tsys \<Rightarrow> 'c tsys option go" where
  "sys_do n e s =
     (case e of
        Net e1 \<Rightarrow> Inr (if mild e1 then map_option (\<lambda>c. s\<lparr>cl := c\<rparr>) (happen n e1 (cl s)) else None)
      | Collect i \<Rightarrow>
          Inr (if chan s i = [] \<and> commitIndex (peer (cl s) i) > lastApplied (peer (cl s) i)
               then map_option (\<lambda>c. s\<lparr>cl := c, chan := (chan s)(i := snd (applier_collect (peer (cl s) i)))\<rparr>)
                      (happen n (ApplyCollect i) (cl s))
               else None)
      | Receive i \<Rightarrow>
          (case chan s i of
             [] \<Rightarrow> Inr None
           | m # ms \<Rightarrow> go_map (\<lambda>ts. Some (s\<lparr>tst := ts, chan := (chan s)(i := ms)\<rparr>)) (applier_msg i m (tst s)))
      | RestartServer i tk \<Rightarrow>
          (case happen n (Restart i tk) (cl s) of
             None \<Rightarrow> Inr None
           | Some c \<Rightarrow> go_map (\<lambda>ts. Some (s\<lparr>cl := c, tst := ts, chan := (chan s)(i := []), late := (late s)(i := late s i @ [chan s i])\<rparr>))
                         (mksrv i (persister (peer (cl s) i)) (tst s)))
      | LateReceive i k \<Rightarrow>
          (if k < length (late s i) then
             (case late s i ! k of
                [] \<Rightarrow> Inr None
              | m # ms \<Rightarrow> go_map (\<lambda>ts. Some (s\<lparr>tst := ts, late := (late s)(i := (late s i)[k := ms])\<rparr>)) (applier_msg i m (tst s)))
           else Inr None))"

definition is_late :: "'c sys_event \<Rightarrow> bool" where
  "is_late e \<longleftrightarrow> (case e of LateReceive _ _ \<Rightarrow> True | _ \<Rightarrow> False)"

definition sys_prompt :: "'c sys_event \<Rightarrow> 'c tsys \<Rightarrow> bool" where
  "sys_prompt e s = (case e of Net e1 \<Rightarrow> prompt e1 (cl s) | _ \<Rightarrow> True)"

inductive sys_reachable :: "nat \<Rightarrow> 'c tsys \<Rightarrow> bool" for n where
  sys_start: "sys_reachable n (sys_init n tk)"
| sys_step: "sys_reachable n s \<Longrightarrow> sys_prompt e s \<Longrightarrow> sys_do n e s = Inr (Some s') \<Longrightarrow> sys_reachable n s'"

section \<open>Commands in the logs\<close>

text \<open>Every entry but the first carries a command.\<close>

definition has_commands :: "'c LogEntry list \<Rightarrow> bool" where
  "has_commands lg \<longleftrightarrow> (\<forall>e \<in> set (drop 1 lg). Command e \<noteq> None)"

definition packet_commands :: "('c, 's) packet \<Rightarrow> bool" where
  "packet_commands p \<longleftrightarrow> (case payload p of AppendCall a \<Rightarrow> 0 \<le> PrevLogIndex a \<and> (\<forall>e \<in> set (Entries a). Command e \<noteq> None) | _ \<Rightarrow> True)"

definition cluster_commands :: "nat \<Rightarrow> ('c, 's) cluster \<Rightarrow> bool" where
  "cluster_commands n s \<longleftrightarrow> (\<forall>i < n. has_commands (log (peer s i))) \<and> (\<forall>p \<in> set (net s). packet_commands p)"

definition cmd_section :: "('c, 's) Raft \<Rightarrow> ('c, 's) Raft \<Rightarrow> bool" where
  "cmd_section rf rf' \<longleftrightarrow> lastApplied rf' = lastApplied rf \<and> (has_commands (log rf) \<longrightarrow> has_commands (log rf'))"

lemma cmd_same: "log rf' = log rf \<Longrightarrow> lastApplied rf' = lastApplied rf \<Longrightarrow> cmd_section rf rf'"
  by (simp add: cmd_section_def)

lemma cmd_refl [simp]: "cmd_section rf rf"
  by (simp add: cmd_section_def)

lemma cmd_sections [simp]:
  "cmd_section rf (fst (RequestVote tk va rf))" "cmd_section rf (voteReply va vr rf)"
  "cmd_section rf (fst (checkElectionTimeout tk rf))" "cmd_section rf (fst (startElection rf))"
  by (rule cmd_same; auto simp: RequestVote_def voteReply_def checkElectionTimeout_def startElection_def initializeLeaderState_def Let_def
      newTerm_def persist_def resetElectionTimeout_def split: if_splits)+

lemma cmd_Start: "log rf \<noteq> [] \<Longrightarrow> c \<noteq> None \<Longrightarrow> cmd_section rf (fst (Start c rf))"
  by (cases "log rf") (auto simp: cmd_section_def Start_def Let_def has_commands_def persist_def)

lemma cmd_InstallSnapshot: "ISLastIncludedIndex a \<le> lastIncludedIndex rf \<Longrightarrow> cmd_section rf (fst (InstallSnapshot tk a rf))"
  by (rule cmd_same) (auto simp: InstallSnapshot_def Let_def newTerm_def persist_def resetElectionTimeout_def split: if_splits)

lemma tryCommit_frame: "tryCommit rf = Inr rf' \<Longrightarrow> log rf' = log rf \<and> lastApplied rf' = lastApplied rf"
  using commit_scan_frame by (fastforce simp: tryCommit_def split: if_splits)

lemma cmd_replies:
  "handleAppendEntriesReply tk server a ar rf = Inr rf' \<Longrightarrow> cmd_section rf rf'"
  "snapshotReply tk server sa t rf = Inr rf' \<Longrightarrow> cmd_section rf rf'"
proof -
  show "cmd_section rf rf'" if "handleAppendEntriesReply tk server a ar rf = Inr rf'"
    using that by (intro cmd_same) (auto simp: handleAppendEntriesReply_def newTerm_def persist_def resetElectionTimeout_def
        go_bind_eq_Inr go_map_eq_Inr dest!: tryCommit_frame split: if_splits)
  show "cmd_section rf rf'" if "snapshotReply tk server sa t rf = Inr rf'"
    using that by (intro cmd_same) (auto simp: snapshotReply_def newTerm_def persist_def resetElectionTimeout_def
        go_bind_eq_Inr go_map_eq_Inr split: if_splits)
qed

lemma has_commands_take: "has_commands lg \<Longrightarrow> has_commands (take k lg)"
  by (auto simp: has_commands_def drop_take dest: in_set_takeD)

lemma has_commands_append: "has_commands lg \<Longrightarrow> (\<And>e. e \<in> set es \<Longrightarrow> Command e \<noteq> None) \<Longrightarrow> lg \<noteq> [] \<Longrightarrow> has_commands (lg @ es)"
  by (cases lg) (auto simp: has_commands_def)

lemma adopt_applied: "lastApplied (adopt tk t rf) = lastApplied rf"
  by (simp add: adopt_def newTerm_def persist_def resetElectionTimeout_def)

lemma cmd_AppendEntries:
  assumes e: "AppendEntries tk a rf = Inr (rf', r)" and lii: "lastIncludedIndex rf = 0" and ne: "log rf \<noteq> []"
    and es: "\<And>x. x \<in> set (Entries a) \<Longrightarrow> Command x \<noteq> None" and pos: "0 \<le> PrevLogIndex a"
  shows "cmd_section rf rf'"
proof (cases "AETerm a < currentTerm rf \<or> log_mismatch a rf \<noteq> None \<or> Entries a = []")
  case True
  have "log rf' = log rf \<and> lastApplied rf' = lastApplied rf"
    using True e by (cases "log_mismatch a rf")
      (auto simp: AppendEntries_eq Let_def log_mismatch_adopt adopt_applied advance_commit_def split: if_splits)
  then show ?thesis by (simp add: cmd_same)
next
  case False
  let ?rf2 = "adopt tk (AETerm a) rf" and ?q = "PrevLogIndex a + 1"
  have mm: "log_mismatch a rf = None" using False by blast
  obtain p where p: "merge_entries ?rf2 ?q (Entries a) = Inr p" "rf' = advance_commit (LeaderCommit a) (append_new p ?rf2)"
    using e False mm by (auto simp: AppendEntries_eq Let_def log_mismatch_adopt go_map_eq_Inr)
  have "?q \<le> getLastLogIndex rf + 1"
  proof (cases "0 < PrevLogIndex a")
    case True
    then show ?thesis using no_mismatch(2) [OF mm] by simp
  next
    case False
    then show ?thesis using ne lii pos Suc_le_eq [of 0 "length (log rf)"] by (simp add: getLastLogIndex_def)
  qed
  then have lg: "log rf' = merged ?rf2 ?q (Entries a)"
    using append_new_log [OF p(1)] p(2) lii pos ne by (simp add: advance_commit_def)
  have "has_commands (take k (log rf) @ drop j (Entries a))" if "has_commands (log rf)" "0 < k" for k j
    using that ne es by (intro has_commands_append has_commands_take) (auto dest: in_set_dropD)
  then have "has_commands (log rf')" if "has_commands (log rf)" using that lg lii pos by (auto simp: merged_def)
  moreover have "lastApplied rf' = lastApplied rf" using p(2)
    by (simp add: advance_commit_def adopt_applied)
  ultimately show ?thesis by (simp add: cmd_section_def)
qed

text \<open>What a leader sends.\<close>

lemma send_commands:
  assumes "sendToFollower j rf = Inr (Some (SendAppend a))" and "lastIncludedIndex rf = 0" and "has_commands (log rf)"
  shows "0 \<le> PrevLogIndex a \<and> (\<forall>e \<in> set (Entries a). Command e \<noteq> None)"
proof -
  obtain nx where nx: "0 < nx" "PrevLogIndex a = nx - 1" "Entries a = [] \<or> Entries a = drop (nat nx) (log rf)"
    using assms(1,2) by (auto simp: sendToFollower_def go_bind_eq_Inr go_map_eq_Inr Let_def toArrayIndex_def go_slice_from_def split: if_splits)
  have "set (drop (nat nx) (log rf)) \<subseteq> set (drop 1 (log rf))" by (rule set_drop_subset_set_drop) (use nx(1) in simp)
  then show ?thesis using nx assms(3) by (auto simp: has_commands_def)
qed

lemma packet_commands_simps [simp]:
  "packet_commands (p\<lparr>payload := VoteReturn va vr\<rparr>)" "packet_commands (p\<lparr>payload := AppendReturn a r\<rparr>)"
  "packet_commands (p\<lparr>payload := SnapReturn sa t\<rparr>)" "packet_commands (request s i (VoteCall va) j)"
  by (simp_all add: packet_commands_def request_def)

lemma arrive_commands:
  assumes inv: "raft_inv n V K L Lead A W s" and cm: "cluster_commands n s" and k: "k < length (net s)"
    and e: "arrive tk (net s ! k) (take_out k s) = Some s'"
  shows "cmd_section (peer s i) (peer s' i)" and "p \<in> set (net s') \<Longrightarrow> packet_commands p"
proof -
  define p0 where "p0 = net s ! k"
  have p0: "p0 \<in> set (net s)" using k by (simp add: p0_def)
  have cc: "callee p0 < n" "caller p0 < n" using raft_own(1) [OF inv] p0 by (auto simp: election_inv_def packet_ok_def)
  have pm: "lastIncludedIndex (peer s (callee p0)) = 0" "log (peer s (callee p0)) \<noteq> []"
    using raft_own(9) [OF inv cc(1)] by (auto simp: peer_match_def log_ok_def)
  have old: "\<And>p. p \<in> set (net s) \<Longrightarrow> packet_commands p" using cm by (simp add: cluster_commands_def)
  have kept: "x \<in> set (take m (net s)) \<Longrightarrow> packet_commands x" "x \<in> set (drop m (net s)) \<Longrightarrow> packet_commands x" for x m
    using old in_set_takeD in_set_dropD by metis+
  note e = e [folded p0_def]
  have "cmd_section (peer s i) (peer s' i) \<and> (\<forall>p \<in> set (net s'). packet_commands p)"
  proof (cases "payload p0")
    case (VoteCall args)
    then show ?thesis using e old cmd_sections(1) [of "peer s (callee p0)" tk args]
      by (auto simp: arrive_def case_prod_beta intro: kept)
  next
    case (AppendCall a)
    obtain rf' r where r: "AppendEntries tk a (peer s (callee p0)) = Inr (rf', r)"
      "s' = transmit [p0\<lparr>payload := AppendReturn a r\<rparr>] (put_peer (callee p0) rf' (take_out k s))"
      using e AppendCall by (auto simp: arrive_def split: sum.splits)
    have "cmd_section (peer s (callee p0)) rf'"
      by (rule cmd_AppendEntries [OF r(1) pm]) (use old [OF p0] AppendCall in \<open>auto simp: packet_commands_def\<close>)
    then show ?thesis using r(2) old by (auto intro: kept)
  next
    case (SnapCall a)
    have "ISLastIncludedIndex a \<le> lastIncludedIndex (peer s (callee p0))"
      using raft_own(10) [OF inv p0] SnapCall pm by (simp add: packet_match_def)
    then show ?thesis using e SnapCall old cmd_InstallSnapshot [of a "peer s (callee p0)" tk]
      by (auto simp: arrive_def case_prod_beta intro: kept)
  next
    case (VoteReturn args r)
    then show ?thesis using e old
      by (auto simp: arrive_def to_caller_def split: if_splits intro: kept)
  next
    case (AppendReturn a r)
    then show ?thesis using e old
      by (auto simp: arrive_def to_caller_def split: if_splits sum.splits intro: kept cmd_replies)
  next
    case (SnapReturn a t)
    then show ?thesis using e old
      by (auto simp: arrive_def to_caller_def split: if_splits sum.splits intro: kept cmd_replies)
  qed
  then show "cmd_section (peer s i) (peer s' i)" "p \<in> set (net s') \<Longrightarrow> packet_commands p" by auto
qed

lemma happen_commands:
  assumes inv: "raft_inv n V K L Lead A W s" and cm: "cluster_commands n s" and md: "mild e" and e: "happen n e s = Some s'"
  shows "cluster_commands n s' \<and> (\<forall>i. lastApplied (peer s' i) = lastApplied (peer s i))"
proof -
  have old: "\<And>p. p \<in> set (net s) \<Longrightarrow> packet_commands p" using cm by (simp add: cluster_commands_def)
  have kept: "x \<in> set (take m (net s)) \<Longrightarrow> packet_commands x" "x \<in> set (drop m (net s)) \<Longrightarrow> packet_commands x" for x m
    using old in_set_takeD in_set_dropD by metis+
  have "(\<forall>i. cmd_section (peer s i) (peer s' i)) \<and> (\<forall>p \<in> set (net s'). packet_commands p)"
  proof (cases e)
    case (Timeout i tk)
    then show ?thesis using e old by (auto simp: happen_def subject_def case_prod_beta split: if_splits)
  next
    case (RunElection i)
    then show ?thesis using e old by (auto simp: happen_def subject_def case_prod_beta split: if_splits)
  next
    case (SendTo i j)
    then consider "s' = s" | r where "i < n" "sendToFollower j (peer s i) = Inr (Some r)" "s' = transmit [request s i (call_of r) j] s"
      using e by (auto simp: happen_def subject_def split: if_splits sum.splits option.splits)
    then show ?thesis
    proof cases
      case 2
      have "lastIncludedIndex (peer s i) = 0" "has_commands (log (peer s i))"
        using raft_own(9) [OF inv 2(1)] cm 2(1) by (auto simp: peer_match_def cluster_commands_def)
      then have "packet_commands (request s i (call_of r) j)"
        using send_commands [of j "peer s i"] 2(2) by (cases r) (auto simp: packet_commands_def request_def call_of_def)
      then show ?thesis using 2(3) old by auto
    qed (use old in auto)
  next
    case (Deliver k tk)
    then have "k < length (net s)" "arrive tk (net s ! k) (take_out k s) = Some s'"
      using e by (auto simp: happen_def subject_def split: if_splits)
    then show ?thesis using arrive_commands [OF inv cm] by blast
  next
    case (Lose k)
    then show ?thesis using e old by (auto simp: happen_def subject_def split: if_splits intro: kept)
  next
    case (ClientStart i c)
    then have i: "i < n" "s' = put_peer i (fst (Start c (peer s i))) s" "c \<noteq> None"
      using e md by (auto simp: happen_def subject_def mild_def split: if_splits)
    then have "log (peer s i) \<noteq> []" using raft_own(9) [OF inv i(1)] by (auto simp: peer_match_def log_ok_def)
    then show ?thesis using i cmd_Start old by auto
  qed (use md in \<open>auto simp: mild_def\<close>)
  then show ?thesis using cm by (auto simp: cluster_commands_def cmd_section_def)
qed

section \<open>Agreement of the services\<close>

text \<open>A command chosen for an index.\<close>

definition agreed :: "nat \<Rightarrow> 'c leader_logs \<Rightarrow> acks \<Rightarrow> int \<Rightarrow> 'c option \<Rightarrow> bool" where
  "agreed n L A k v \<longleftrightarrow> 0 < k \<and> (\<exists>t m. chosen n L A t m \<and> nat k < m \<and> m \<le> length (L t) \<and> Command (L t ! nat k) = v)"

lemma agreed_unique:
  assumes inv: "raft_inv n V K L Lead A W s" and "agreed n L A k v" and "agreed n L A k w"
  shows "v = w"
proof -
  obtain t m u j where a: "chosen n L A t m" "nat k < m" "m \<le> length (L t)" "Command (L t ! nat k) = v"
    and b: "chosen n L A u j" "nat k < j" "j \<le> length (L u)" "Command (L u ! nat k) = w"
    using assms(2,3) by (auto simp: agreed_def)
  have "has_prefix (L t) (L u) (nat k + 1)"
    by (rule chosen_agree [OF inv a(1) _ _ b(1)]) (use a b in auto)
  then show ?thesis using has_prefix_nth [of "L t" "L u" "nat k + 1" "nat k"] a(4) b(4) by simp
qed

lemma agreed_mono:
  assumes mv: "acks_move L A s L' A' s'" and "agreed n L A k v"
  shows "agreed n L' A' k v"
proof -
  obtain t m where a: "0 < k" "chosen n L A t m" "nat k < m" "m \<le> length (L t)" "Command (L t ! nat k) = v"
    using assms(2) by (auto simp: agreed_def)
  obtain e where e: "L' t = L t @ e" using mv grows_at unfolding acks_move_def by blast
  then have "m \<le> length (L' t)" "Command (L' t ! nat k) = v" using a by (simp_all add: nth_append)
  then show ?thesis using chosen_mono [OF a(2) mv] a(1,3) unfolding agreed_def by blast
qed

lemma commit_agreed:
  assumes inv: "raft_inv n V K L Lead A W s" and i: "i < n" and k: "0 < k" "k \<le> commitIndex (peer s i)"
  shows "nat k < length (log (peer s i))" "agreed n L A k (Command (log (peer s i) ! nat k))"
proof -
  obtain t m where tm: "chosen n L A t m" "nat k < m" "has_prefix (log (peer s i)) (L t) (nat k + 1)"
    by (rule committed_later [OF inv i k grows_refl])
  have "nat k < length (L t)" "log (peer s i) ! nat k = L t ! nat k" using tm(3) has_prefix_nth [OF tm(3)] by (auto simp: has_prefix_def)
  moreover have "m \<le> length (L t)" using tm(1) by (simp add: chosen_def own_term_def)
  ultimately show "agreed n L A k (Command (log (peer s i) ! nat k))" using tm(1,2) k(1) unfolding agreed_def by metis
  show "nat k < length (log (peer s i))" using tm(3) by (simp add: has_prefix_def)
qed

text \<open>What a service has recorded and what is on its way to it: everything up to an index, and the
  rest up to the last index its peer handed out.\<close>

definition srv_ok :: "(int \<Rightarrow> 'c option \<Rightarrow> bool) \<Rightarrow> int \<Rightarrow> 'c rfsrv \<Rightarrow> ('c, 'c snap_item) ApplyMsg list \<Rightarrow> bool" where
  "srv_ok ag la rs ms \<longleftrightarrow> (\<forall>k v. logs rs k = Some v \<longrightarrow> ag k v) \<and>
     (\<exists>r f. 0 \<le> r \<and> r \<le> la \<and> (\<forall>k. 1 \<le> k \<and> k \<le> r \<longrightarrow> logs rs k \<noteq> None) \<and>
        ms = map (\<lambda>k. command_msg (f k) k) [r + 1..la] \<and> (\<forall>k. r < k \<and> k \<le> la \<longrightarrow> ag k (Some (f k))))"

definition late_ok :: "(int \<Rightarrow> 'c option \<Rightarrow> bool) \<Rightarrow> ('c, 'c snap_item) ApplyMsg list list \<Rightarrow> bool" where
  "late_ok ag qs \<longleftrightarrow> (\<forall>q \<in> set qs. \<forall>m \<in> set q. \<exists>k v. m = command_msg v k \<and> ag k (Some v))"

definition sys_ok :: "nat \<Rightarrow> 'c leader_logs \<Rightarrow> acks \<Rightarrow> 'c tsys \<Rightarrow> bool" where
  "sys_ok n L A s \<longleftrightarrow> cluster_commands n (cl s) \<and> length (srvs (tst s)) = n \<and> (\<forall>i \<ge> n. chan s i = []) \<and>
     (\<forall>i < n. srv_ok (agreed n L A) (lastApplied (peer (cl s) i)) (srvs (tst s) ! i) (chan s i)) \<and>
     (\<forall>i \<ge> n. late s i = []) \<and> (\<forall>i. late_ok (agreed n L A) (late s i))"

lemma srv_ok_mono: "srv_ok ag l rs ms \<Longrightarrow> (\<And>k v. ag k v \<Longrightarrow> ag' k v) \<Longrightarrow> srv_ok ag' l rs ms"
  unfolding srv_ok_def by blast

lemma late_ok_mono: "late_ok ag qs \<Longrightarrow> (\<And>k v. ag k v \<Longrightarrow> ag' k v) \<Longrightarrow> late_ok ag' qs"
  unfolding late_ok_def by blast

lemma late_ok_append: "late_ok ag (qs @ qs') \<longleftrightarrow> late_ok ag qs \<and> late_ok ag qs'"
  by (auto simp: late_ok_def)

text \<open>What a service has not received yet when it is replaced.\<close>

lemma srv_ok_late: "srv_ok ag la rs ms \<Longrightarrow> late_ok ag [ms]"
proof -
  assume "srv_ok ag la rs ms"
  then obtain r f where r: "ms = map (\<lambda>k. command_msg (f k) k) [r + 1..la]" "\<forall>k. r < k \<and> k \<le> la \<longrightarrow> ag k (Some (f k))"
    unfolding srv_ok_def by blast
  have "\<exists>k v. m = command_msg v k \<and> ag k (Some v)" if m: "m \<in> set ms" for m
  proof -
    obtain k where "m = command_msg (f k) k" "k \<in> set [r + 1..la]" using m r(1) by auto
    then show ?thesis using r(2) by (intro exI [of _ k] exI [of _ "f k"]) simp
  qed
  then show ?thesis by (simp add: late_ok_def)
qed

lemma late_ok_upd: "late_ok ag qs \<Longrightarrow> k < length qs \<Longrightarrow> qs ! k = m # ms \<Longrightarrow> late_ok ag (qs[k := ms])"
  unfolding late_ok_def using nth_mem [of k qs] by (auto dest!: subsetD [OF set_update_subset_insert])

lemma srv_fresh: "srv_ok ag 0 fresh_srv []"
  by (auto simp: srv_ok_def fresh_srv_def intro!: exI [of _ 0])

lemma recv_ok:
  assumes ok: "\<And>rs. rs \<in> set (srvs ts) \<Longrightarrow> \<forall>k v. logs rs k = Some v \<longrightarrow> ag k v" and uniq: "\<And>k v w. ag k v \<Longrightarrow> ag k w \<Longrightarrow> v = w"
    and i: "i < length (srvs ts)" and srv: "srv_ok ag l (srvs ts ! i) (m # ms)"
  shows "\<exists>ts'. applier_msg i m ts = Inr ts' \<and> length (srvs ts') = length (srvs ts) \<and> srv_ok ag l (srvs ts' ! i) ms \<and>
    (\<forall>j. j \<noteq> i \<longrightarrow> srvs ts' ! j = srvs ts ! j)"
proof -
  obtain r f where rr: "0 \<le> r" "r \<le> l" "\<forall>k. 1 \<le> k \<and> k \<le> r \<longrightarrow> logs (srvs ts ! i) k \<noteq> None"
      "m # ms = map (\<lambda>k. command_msg (f k) k) [r + 1..l]" "\<forall>k. r < k \<and> k \<le> l \<longrightarrow> ag k (Some (f k))"
    and lgs: "\<forall>k v. logs (srvs ts ! i) k = Some v \<longrightarrow> ag k v" using srv unfolding srv_ok_def by (elim conjE exE)
  note r = rr(1,2) rr(3) [rule_format, OF conjI] rr(4) rr(5) [rule_format, OF conjI] and lg = lgs [rule_format]
  have rl: "r + 1 \<le> l" using r(4) by (cases "r + 1 \<le> l") auto
  then have "[r + 1..l] = (r + 1) # [r + 1 + 1..l]" by (rule upto_rec1)
  then have m: "m = command_msg (f (r + 1)) (r + 1)" and ms: "ms = map (\<lambda>k. command_msg (f k) k) [r + 1 + 1..l]" using r(4) by auto
  have ag1: "ag (r + 1) (Some (f (r + 1)))" using r(5) rl by simp
  let ?me = "(srvs ts ! i)\<lparr>logs := (logs (srvs ts ! i))(r + 1 \<mapsto> Some (f (r + 1)))\<rparr>"
  let ?ts' = "ts\<lparr>srvs := (srvs ts)[i := ?me], maxIndex := (if r + 1 > maxIndex ts then r + 1 else maxIndex ts)\<rparr>"
  have "\<not> (\<exists>rs \<in> set (srvs ts). case logs rs (r + 1) of None \<Rightarrow> False | Some old \<Rightarrow> old \<noteq> Some (f (r + 1)))"
    using ok uniq [OF _ ag1] by (auto split: option.splits)
  moreover have "r + 1 > 1 \<Longrightarrow> logs (srvs ts ! i) r \<noteq> None" using r(3) by simp
  ultimately have "applier_msg i m ts = Inr ?ts'"
    by (auto simp: applier_msg_def m command_msg_def checkLogs_def Logs_def Let_def)
  moreover have "srv_ok ag l ?me ms"
    unfolding srv_ok_def
  proof (intro conjI exI [of _ "r + 1"] exI [of _ f])
    show "\<forall>k v. logs ?me k = Some v \<longrightarrow> ag k v" using lg ag1 by auto
    show "\<forall>k. 1 \<le> k \<and> k \<le> r + 1 \<longrightarrow> logs ?me k \<noteq> None" using r(3) by (auto simp: le_less)
  qed (use r rl ms in auto)
  ultimately show ?thesis using i by (intro exI [of _ ?ts']) simp
qed

text \<open>A message from a former instance is out of order or an agreed command at an index whose predecessor is there.\<close>

lemma late_recv_ok:
  assumes ok: "\<And>rs. rs \<in> set (srvs ts) \<Longrightarrow> \<forall>k v. logs rs k = Some v \<longrightarrow> ag k v" and uniq: "\<And>k v w. ag k v \<Longrightarrow> ag k w \<Longrightarrow> v = w"
    and i: "i < length (srvs ts)" and m: "m = command_msg v k" "ag k (Some v)"
  shows "applier_msg i m ts = Inl (Fatal ''apply out of order'') \<or>
    (\<exists>ts'. applier_msg i m ts = Inr ts' \<and> length (srvs ts') = length (srvs ts) \<and>
       (\<forall>la ms. srv_ok ag la (srvs ts ! i) ms \<longrightarrow> srv_ok ag la (srvs ts' ! i) ms) \<and> (\<forall>j. j \<noteq> i \<longrightarrow> srvs ts' ! j = srvs ts ! j))"
proof -
  let ?me = "(srvs ts ! i)\<lparr>logs := (logs (srvs ts ! i))(k \<mapsto> Some v)\<rparr>"
  let ?ts' = "ts\<lparr>srvs := (srvs ts)[i := ?me], maxIndex := (if k > maxIndex ts then k else maxIndex ts)\<rparr>"
  have "\<not> (\<exists>rs \<in> set (srvs ts). case logs rs k of None \<Rightarrow> False | Some old \<Rightarrow> old \<noteq> Some v)"
    using ok uniq [OF _ m(2)] by (auto split: option.splits)
  then have "applier_msg i m ts = (if k > 1 \<and> logs (srvs ts ! i) (k - 1) = None then Inl (Fatal ''apply out of order'') else Inr ?ts')"
    by (auto simp: applier_msg_def m(1) command_msg_def checkLogs_def Logs_def Let_def)
  moreover have "srv_ok ag la ?me ms" if "srv_ok ag la (srvs ts ! i) ms" for la ms
    using that m(2) unfolding srv_ok_def by (elim conjE exE, intro conjI exI) auto
  ultimately show ?thesis using i by auto
qed

text \<open>The applier's section hands out what was committed since.\<close>

lemma collect_ok:
  assumes inv: "raft_inv n V K L Lead A W s" and i: "i < n" and cm: "has_commands (log (peer s i))"
    and la: "lastApplied (peer s i) < commitIndex (peer s i)" and ok: "srv_ok (agreed n L A) (lastApplied (peer s i)) rs []"
  shows "srv_ok (agreed n L A) (commitIndex (peer s i)) rs (snd (applier_collect (peer s i)))"
proof -
  let ?rf = "peer s i"
  define f where "f k = the (Command (log ?rf ! nat k))" for k
  obtain r where r: "0 \<le> r" "r \<le> lastApplied ?rf" "\<forall>k. 1 \<le> k \<and> k \<le> r \<longrightarrow> logs rs k \<noteq> None" "[r + 1..lastApplied ?rf] = []"
    and lg: "\<forall>k v. logs rs k = Some v \<longrightarrow> agreed n L A k v" using ok unfolding srv_ok_def by auto
  then have r': "r = lastApplied ?rf" by simp
  have lii: "lastIncludedIndex ?rf = 0" using raft_own(9) [OF inv i] by (simp add: peer_match_def)
  have one: "Command (log ?rf ! nat k) = Some (f k) \<and> msg_at ?rf k = [command_msg (f k) k] \<and> agreed n L A k (Some (f k))"
    if "lastApplied ?rf < k" "k \<le> commitIndex ?rf" for k
  proof -
    have k: "0 < k" using that r(1) r' by simp
    note ca = commit_agreed [OF inv i k that(2)]
    have "log ?rf ! nat k = drop 1 (log ?rf) ! (nat k - 1)" using k ca(1) by simp
    then have "log ?rf ! nat k \<in> set (drop 1 (log ?rf))" using k ca(1) by (metis nth_mem length_drop diff_less_mono One_nat_def Suc_leI zero_less_nat_eq)
    then have "Command (log ?rf ! nat k) \<noteq> None" using cm by (simp add: has_commands_def)
    then have c: "Command (log ?rf ! nat k) = Some (f k)" by (simp add: f_def)
    then show ?thesis using entry_at_log(2) [OF lii k ca(1)] ca(2) by simp
  qed
  have "concat (map (msg_at ?rf) ks) = map (\<lambda>k. command_msg (f k) k) ks" if "set ks \<subseteq> {lastApplied ?rf + 1..commitIndex ?rf}" for ks
    using that
  proof (induction ks)
    case (Cons k ks)
    then show ?case using one [of k] by simp
  qed simp
  then have "snd (applier_collect ?rf) = map (\<lambda>k. command_msg (f k) k) [r + 1..commitIndex ?rf]"
    by (simp add: applier_collect_def r')
  then show ?thesis unfolding srv_ok_def using r r' lg one la by (intro conjI exI [of _ r] exI [of _ f]) auto
qed

lemma sys_move:
  assumes mv: "acks_move L A c L' A' c'" and ok: "srv_ok (agreed n L A) l rs ms"
  shows "srv_ok (agreed n L' A') l rs ms"
  by (rule srv_ok_mono [OF ok]) (rule agreed_mono [OF mv])

lemma late_move: "acks_move L A c L' A' c' \<Longrightarrow> late_ok (agreed n L A) qs \<Longrightarrow> late_ok (agreed n L' A') qs"
  by (erule late_ok_mono) (rule agreed_mono)

lemma sys_ok_logs:
  assumes "sys_ok n L A s" and rs: "rs \<in> set (srvs (tst s))"
  shows "\<forall>k v. logs rs k = Some v \<longrightarrow> agreed n L A k v"
proof -
  obtain j where "j < n" "rs = srvs (tst s) ! j" using assms by (auto simp: in_set_conv_nth sys_ok_def)
  then have "srv_ok (agreed n L A) (lastApplied (peer (cl s) j)) rs (chan s j)" using assms(1) by (simp add: sys_ok_def)
  then show ?thesis by (simp add: srv_ok_def)
qed

lemma sys_recv:
  assumes inv: "raft_inv n V K L Lead A W (cl s)" and ok: "sys_ok n L A s" and m: "chan s i = m # ms"
  shows "\<exists>ts. applier_msg i m (tst s) = Inr ts \<and> sys_ok n L A (s\<lparr>tst := ts, chan := (chan s)(i := ms)\<rparr>)"
proof -
  have i: "i < n" using ok m by (metis list.simps(3) not_le sys_ok_def)
  have srv: "srv_ok (agreed n L A) (lastApplied (peer (cl s) j)) (srvs (tst s) ! j) (chan s j)" if "j < n" for j
    using ok that by (simp add: sys_ok_def)
  have len: "length (srvs (tst s)) = n" using ok by (simp add: sys_ok_def)
  note all = sys_ok_logs [OF ok]
  have uniq: "v = w" if "agreed n L A k v" "agreed n L A k w" for k v w by (rule agreed_unique [OF inv that])
  obtain ts where ts: "applier_msg i m (tst s) = Inr ts" "length (srvs ts) = n"
    "srv_ok (agreed n L A) (lastApplied (peer (cl s) i)) (srvs ts ! i) ms" "\<And>j. j \<noteq> i \<Longrightarrow> srvs ts ! j = srvs (tst s) ! j"
    using recv_ok [of "tst s" "agreed n L A" i "lastApplied (peer (cl s) i)" m ms] all uniq srv [OF i] m i len by metis
  then have "sys_ok n L A (s\<lparr>tst := ts, chan := (chan s)(i := ms)\<rparr>)"
    using ok srv i by (auto simp: sys_ok_def)
  then show ?thesis using ts(1) by blast
qed

lemma sys_late:
  assumes inv: "raft_inv n V K L Lead A W (cl s)" and ok: "sys_ok n L A s" and k: "k < length (late s i)" "late s i ! k = m # ms"
  shows "applier_msg i m (tst s) = Inl (Fatal ''apply out of order'') \<or>
    (\<exists>ts. applier_msg i m (tst s) = Inr ts \<and> sys_ok n L A (s\<lparr>tst := ts, late := (late s)(i := (late s i)[k := ms])\<rparr>))"
proof -
  have i: "i < n" "length (srvs (tst s)) = n" using ok k(1) by (auto simp: sys_ok_def not_le [symmetric])
  have lo: "late_ok (agreed n L A) (late s i)" using ok by (simp add: sys_ok_def)
  then obtain x v where m: "m = command_msg v x" "agreed n L A x (Some v)"
    using nth_mem [OF k(1)] k(2) unfolding late_ok_def by (metis list.set_intros(1))
  have new: "sys_ok n L A (s\<lparr>tst := ts, late := (late s)(i := (late s i)[k := ms])\<rparr>)"
    if "length (srvs ts) = n" "\<forall>la ms. srv_ok (agreed n L A) la (srvs (tst s) ! i) ms \<longrightarrow> srv_ok (agreed n L A) la (srvs ts ! i) ms"
      "\<forall>j. j \<noteq> i \<longrightarrow> srvs ts ! j = srvs (tst s) ! j" for ts
  proof -
    have "srv_ok (agreed n L A) (lastApplied (peer (cl s) j)) (srvs ts ! j) (chan s j)" if "j < n" for j
      using that ok \<open>\<forall>la ms. _ la ms\<close> \<open>\<forall>j. j \<noteq> i \<longrightarrow> _ j\<close> by (cases "j = i") (simp_all add: sys_ok_def)
    then show ?thesis using ok that(1) late_ok_upd [OF lo k] i by (simp add: sys_ok_def)
  qed
  have "i < length (srvs (tst s))" using i by simp
  have "applier_msg i m (tst s) = Inl (Fatal ''apply out of order'') \<or> (\<exists>ts'. applier_msg i m (tst s) = Inr ts' \<and>
      length (srvs ts') = length (srvs (tst s)) \<and> (\<forall>la ms. srv_ok (agreed n L A) la (srvs (tst s) ! i) ms \<longrightarrow>
        srv_ok (agreed n L A) la (srvs ts' ! i) ms) \<and> (\<forall>j. j \<noteq> i \<longrightarrow> srvs ts' ! j = srvs (tst s) ! j))"
    by (rule late_recv_ok [where v = v and k = x and ag = "agreed n L A", OF _ _ \<open>i < length (srvs (tst s))\<close> m]) (use sys_ok_logs [OF ok] agreed_unique [OF inv] in blast)+
  then show ?thesis using new i(2) by (elim disjE exE conjE) (blast, simp)
qed

lemma mksrv_fresh: "mksrv i ps ts = Inr (ts\<lparr>srvs := (srvs ts)[i := fresh_srv]\<rparr>)"
  by (simp add: mksrv_def newRfsrv_def Let_def fresh_srv_def)

lemma sys_ok_step:
  assumes inv: "raft_inv n V K L Lead A W (cl s)" and ok: "sys_ok n L A s" and pr: "sys_prompt e s"
  shows "is_late e \<and> sys_do n e s = Inl (Fatal ''apply out of order'') \<or> (\<exists>r. sys_do n e s = Inr r \<and> (\<forall>s'. r = Some s' \<longrightarrow>
    (\<exists>V' K' L' Lead' A' W'. raft_inv n V' K' L' Lead' A' W' (cl s') \<and> sys_ok n L' A' s')))"
proof -
  have srv: "srv_ok (agreed n L A) (lastApplied (peer (cl s) j)) (srvs (tst s) ! j) (chan s j)" if "j < n" for j
    using ok that by (simp add: sys_ok_def)
  have cm: "cluster_commands n (cl s)" and len: "length (srvs (tst s)) = n" and out: "\<And>i. n \<le> i \<Longrightarrow> chan s i = []"
    and late: "\<And>i. n \<le> i \<Longrightarrow> late s i = []" "\<And>i. late_ok (agreed n L A) (late s i)"
    using ok by (simp_all add: sys_ok_def)
  show ?thesis
  proof (cases e)
    case (Net e1)
    have "\<exists>V' K' L' Lead' A' W'. raft_inv n V' K' L' Lead' A' W' c \<and> sys_ok n L' A' (s\<lparr>cl := c\<rparr>)"
      if c: "mild e1" "happen n e1 (cl s) = Some c" for c
    proof -
      have "plain e1" using c(1) by (auto simp: mild_def plain_def split: event.splits)
      then obtain V' K' L' Lead' A' W' where inv': "raft_inv n V' K' L' Lead' A' W' c" and mv: "acks_move L A (cl s) L' A' c"
        using raft_happen [OF inv _ _ c(2)] pr Net by (auto simp: sys_prompt_def)
      have "sys_ok n L' A' (s\<lparr>cl := c\<rparr>)"
        using happen_commands [OF inv cm c] srv sys_move [OF mv] late_move [OF mv] late len out by (simp add: sys_ok_def)
      then show ?thesis using inv' by blast
    qed
    then show ?thesis using Net by (auto simp: sys_do_def)
  next
    case (Collect i)
    let ?rf = "peer (cl s) i"
    have "\<exists>V' K' L' Lead' A' W'. raft_inv n V' K' L' Lead' A' W' c \<and>
        sys_ok n L' A' (s\<lparr>cl := c, chan := (chan s)(i := snd (applier_collect ?rf))\<rparr>)"
      if c: "happen n (ApplyCollect i) (cl s) = Some c" "chan s i = []" "lastApplied ?rf < commitIndex ?rf" for c
    proof -
      have i: "i < n" "c = put_peer i (fst (applier_collect ?rf)) (cl s)" using c(1) by (auto simp: happen_def subject_def split: if_splits)
      obtain V' K' L' Lead' A' W' where inv': "raft_inv n V' K' L' Lead' A' W' c" and mv: "acks_move L A (cl s) L' A' c"
        using raft_happen [OF inv _ _ c(1)] by (auto simp: plain_def)
      have cmi: "has_commands (log ?rf)" using cm i(1) by (simp add: cluster_commands_def)
      have "srv_ok (agreed n L' A') (commitIndex ?rf) (srvs (tst s) ! i) (snd (applier_collect ?rf))"
        by (rule sys_move [OF mv collect_ok [OF inv i(1) cmi c(3)]]) (use srv [OF i(1)] c(2) in simp)
      then have "sys_ok n L' A' (s\<lparr>cl := c, chan := (chan s)(i := snd (applier_collect ?rf))\<rparr>)"
        using srv sys_move [OF mv] late_move [OF mv] late len out i cm by (auto simp: sys_ok_def applier_collect_def cluster_commands_def)
      then show ?thesis using inv' by blast
    qed
    then show ?thesis using Collect by (auto simp: sys_do_def)
  next
    case (Receive i)
    show ?thesis
    proof (cases "chan s i")
      case (Cons m ms)
      obtain ts where ts: "applier_msg i m (tst s) = Inr ts" "sys_ok n L A (s\<lparr>tst := ts, chan := (chan s)(i := ms)\<rparr>)"
        using sys_recv [OF inv ok Cons] by blast
      have "raft_inv n V K L Lead A W (cl (s\<lparr>tst := ts, chan := (chan s)(i := ms)\<rparr>))" using inv by simp
      with ts(2) have "\<exists>V' K' L' Lead' A' W'. raft_inv n V' K' L' Lead' A' W' (cl (s\<lparr>tst := ts, chan := (chan s)(i := ms)\<rparr>)) \<and>
          sys_ok n L' A' (s\<lparr>tst := ts, chan := (chan s)(i := ms)\<rparr>)" by blast
      then show ?thesis using Receive Cons ts(1) by (simp add: sys_do_def)
    qed (simp add: Receive sys_do_def)
  next
    case (RestartServer i tk)
    have "\<exists>V' K' L' Lead' A' W'. raft_inv n V' K' L' Lead' A' W' c \<and>
        sys_ok n L' A' (s\<lparr>cl := c, tst := (tst s)\<lparr>srvs := (srvs (tst s))[i := fresh_srv]\<rparr>, chan := (chan s)(i := []),
          late := (late s)(i := late s i @ [chan s i])\<rparr>)"
      if c: "happen n (Restart i tk) (cl s) = Some c" for c
    proof -
      let ?rf' = "Make n (int i) (Persister_Copy (persister (peer (cl s) i))) tk"
      have i: "i < n" "peer c = (peer (cl s))(i := ?rf')" "net c = net (cl s)"
        using c by (auto simp: happen_def subject_def split: if_splits)
      obtain V' K' L' Lead' A' W' where inv': "raft_inv n V' K' L' Lead' A' W' c" and mv: "acks_move L A (cl s) L' A' c"
        using raft_happen [OF inv _ _ c] by (auto simp: plain_def)
      have dur: "durable (peer (cl s) i)" "me (peer (cl s) i) = int i" "npeers (peer (cl s) i) = n"
        using raft_own(11) [OF inv i(1)] by (auto simp: peer_ok_def)
      have lii: "lastIncludedIndex (peer (cl s) i) = 0" using raft_own(9) [OF inv i(1)] by (simp add: peer_match_def)
      have lg: "log ?rf' = log (peer (cl s) i)" "lastIncludedIndex ?rf' = 0" using restart_log [OF dur(1) refl, of tk] dur(2,3) lii by simp_all
      have "lastApplied ?rf' = max 0 (lastIncludedIndex ?rf')"
        by (auto simp: Make_def readPersist_def resetElectionTimeout_def split: option.splits)
      then have "lastApplied ?rf' = 0" using lg(2) by simp
      then have "sys_ok n L' A' (s\<lparr>cl := c, tst := (tst s)\<lparr>srvs := (srvs (tst s))[i := fresh_srv]\<rparr>, chan := (chan s)(i := []),
          late := (late s)(i := late s i @ [chan s i])\<rparr>)"
        using srv sys_move [OF mv] late_move [OF mv] late srv_ok_late [OF srv [OF i(1)]] len out i cm lg srv_fresh
        by (auto simp: sys_ok_def cluster_commands_def nth_list_update late_ok_append)
      then show ?thesis using inv' by blast
    qed
    then show ?thesis using RestartServer by (auto simp: sys_do_def mksrv_fresh split: option.splits)
  next
    case (LateReceive i k)
    show ?thesis
    proof (cases "k < length (late s i) \<and> late s i ! k \<noteq> []")
      case True
      then obtain m ms where m: "k < length (late s i)" "late s i ! k = m # ms" by (auto simp: neq_Nil_conv)
      let ?s = "\<lambda>ts. s\<lparr>tst := ts, late := (late s)(i := (late s i)[k := ms])\<rparr>"
      have "raft_inv n V K L Lead A W (cl (?s ts))" for ts using inv by simp
      then have "\<exists>V' K' L' Lead' A' W'. raft_inv n V' K' L' Lead' A' W' (cl (?s ts)) \<and> sys_ok n L' A' (?s ts)" if "sys_ok n L A (?s ts)" for ts
        using that by blast
      then show ?thesis using sys_late [OF inv ok m] m LateReceive by (auto simp: sys_do_def is_late_def)
    qed (auto simp: LateReceive sys_do_def)
  qed
qed

lemma sys_reachable_ok: "sys_reachable n s \<Longrightarrow> \<exists>V K L Lead A W. raft_inv n V K L Lead A W (cl s) \<and> sys_ok n L A s"
proof (induction rule: sys_reachable.induct)
  case (sys_start tk)
  let ?s = "sys_init n tk :: 'a tsys"
  obtain V K L Lead A W where inv: "raft_inv n V K L Lead A W (cl ?s)" using raft_init by (metis select_convs(1) sys_init_def)
  have "cluster_commands n (cl ?s)" "lastApplied (peer (cl ?s) i) = 0" for i
    by (simp_all add: sys_init_def cluster_commands_def cluster_init_def has_commands_def Make_def readPersist_def resetElectionTimeout_def)
  then have "sys_ok n L A ?s" using srv_fresh [of "agreed n L A"] by (simp add: sys_ok_def) (simp add: sys_init_def makeTest_def late_ok_def)
  then show ?case using inv by blast
next
  case (sys_step s e s')
  then obtain V K L Lead A W where inv: "raft_inv n V K L Lead A W (cl s)" "sys_ok n L A s" by blast
  show ?case using sys_ok_step [OF inv sys_step.hyps(2)] sys_step.hyps(3) by auto
qed

text \<open>\<open>nCommitted\<close> on logs that agree counts the servers that have the index.\<close>

lemma nCommitted_agree:
  assumes "\<And>rs v. rs \<in> set xs \<Longrightarrow> logs rs k = Some v \<Longrightarrow> v = w" and "0 \<le> cnt" and "0 < cnt \<Longrightarrow> c = w"
  shows "\<exists>c'. nCommitted_scan k xs cnt c = Inr (cnt + int (length (filter (\<lambda>rs. logs rs k \<noteq> None) xs)), c') \<and>
    (0 < cnt + int (length (filter (\<lambda>rs. logs rs k \<noteq> None) xs)) \<longrightarrow> c' = w)"
  using assms
proof (induction xs arbitrary: cnt c)
  case (Cons rs xs)
  show ?case
  proof (cases "logs rs k")
    case None
    moreover have "v = w" if "rs' \<in> set xs" "logs rs' k = Some v" for rs' v using Cons.prems(1) [of rs' v] that by simp
    ultimately show ?thesis using Cons.IH [of cnt c] Cons.prems(2,3) by (simp add: Logs_def)
  next
    case (Some v)
    then have v: "v = w" using Cons.prems(1) [of rs v] by simp
    moreover have "v = w" if "rs' \<in> set xs" "logs rs' k = Some v" for rs' v using Cons.prems(1) [of rs' v] that by simp
    moreover have "\<not> (0 < cnt \<and> c \<noteq> v)" using Cons.prems(3) v by blast
    ultimately show ?thesis using Cons.IH [of "cnt + 1" v] Cons.prems(2) Some by (auto simp: Logs_def algebra_simps)
  qed
qed simp

lemma sys_logs_agree:
  assumes "sys_reachable n s"
  shows "\<exists>w. \<forall>rs v. rs \<in> set (srvs (tst s)) \<and> logs rs k = Some v \<longrightarrow> v = w"
proof -
  obtain V K L Lead A W where inv: "raft_inv n V K L Lead A W (cl s)" and ok: "sys_ok n L A s" using sys_reachable_ok [OF assms] by blast
  have ag: "agreed n L A k v" if "rs \<in> set (srvs (tst s))" "logs rs k = Some v" for rs v
    using sys_ok_logs [OF ok that(1)] that(2) by blast
  show ?thesis
  proof (cases "\<exists>rs v. rs \<in> set (srvs (tst s)) \<and> logs rs k = Some v")
    case True
    then obtain rs w where "rs \<in> set (srvs (tst s))" "logs rs k = Some w" by blast
    then show ?thesis using ag agreed_unique [OF inv] by blast
  qed auto
qed

text \<open>What \<open>nCommitted\<close> sees.\<close>

lemma nCommitted_sound:
  assumes "sys_reachable n s"
  shows "\<exists>cmd. nCommitted k (tst s) = Inr (int (length (filter (\<lambda>rs. Logs k rs \<noteq> None) (srvs (tst s)))), cmd) \<and>
       (\<forall>rs \<in> set (srvs (tst s)). Logs k rs = None \<or> Logs k rs = Some cmd)"
proof -
  obtain w where w: "\<And>rs v. rs \<in> set (srvs (tst s)) \<Longrightarrow> logs rs k = Some v \<Longrightarrow> v = w" using sys_logs_agree [OF assms, of k] by blast
  obtain c where c: "nCommitted k (tst s) = Inr (int (length (filter (\<lambda>rs. logs rs k \<noteq> None) (srvs (tst s)))), c)"
    "0 < length (filter (\<lambda>rs. logs rs k \<noteq> None) (srvs (tst s))) \<longrightarrow> c = w"
    using nCommitted_agree [of "srvs (tst s)" k w 0 None] w by (auto simp: nCommitted_def)
  have "logs rs k = None \<or> logs rs k = Some c" if rs: "rs \<in> set (srvs (tst s))" for rs
  proof (cases "logs rs k")
    case (Some v)
    then have "filter (\<lambda>rs. logs rs k \<noteq> None) (srvs (tst s)) \<noteq> []" using rs by (auto simp: filter_empty_conv)
    then show ?thesis using c(2) w [OF rs Some] Some by simp
  qed simp
  then show ?thesis using c(1) by (auto simp: Logs_def)
qed

text \<open>C9: The services of a cluster agree, and the tester sees it. However the peers' sections, packets, appliers, services and
  restarts interleave, a killed peer's applier delivering to its former service included, no service ever finds that
  another one applied a different command at an index, and no service receives from its own peer a command out of order. The only
  event that can end the test is a message that a former instance of a restarted server delivers late, and then the
  complaint is that it is out of order. And \<open>nCommitted\<close> never finds different values at an index: it returns the
  number of servers that have applied it. (No peer times out again before its previous
  \<open>startElection\<close> got the lock; services take no snapshots; commands are not nil.)\<close>

theorem services_agree:
  assumes "sys_reachable n s"
  shows "(\<forall>e err. sys_prompt e s \<longrightarrow> sys_do n e s = Inl err \<longrightarrow> is_late e \<and> err = Fatal ''apply out of order'') \<and>
    (\<forall>k. \<exists>cmd. nCommitted k (tst s) = Inr (int (length (filter (\<lambda>rs. Logs k rs \<noteq> None) (srvs (tst s)))), cmd) \<and>
       (\<forall>rs \<in> set (srvs (tst s)). Logs k rs = None \<or> Logs k rs = Some cmd))"
proof -
  obtain V K L Lead A W where inv: "raft_inv n V K L Lead A W (cl s)" and ok: "sys_ok n L A s" using sys_reachable_ok [OF assms] by blast
  have "is_late e \<and> err = Fatal ''apply out of order''" if "sys_prompt e s" "sys_do n e s = Inl err" for e err
    using sys_ok_step [OF inv ok that(1)] that(2) by auto
  then show ?thesis using nCommitted_sound [OF assms] by blast
qed

section \<open>The tester's calls\<close>

text \<open>The system runs on between the steps of a call; its events are prompt. \<open>None\<close>: an event cannot happen.\<close>

fun sys_run :: "nat \<Rightarrow> 'c sys_event list \<Rightarrow> 'c tsys \<Rightarrow> 'c tsys option go" where
  "sys_run n [] s = Inr (Some s)"
| "sys_run n (e # es) s =
     (if sys_prompt e s then go_bind (sys_do n e s) (\<lambda>r. case r of None \<Rightarrow> Inr None | Some s' \<Rightarrow> sys_run n es s')
      else Inr None)"

definition then_run :: "nat \<Rightarrow> 'c sys_event list \<Rightarrow> 'c tsys \<Rightarrow> ('c tsys \<Rightarrow> 'a option go) \<Rightarrow> 'a option go" where
  "then_run n es s k = go_bind (sys_run n es s) (\<lambda>r. case r of None \<Rightarrow> Inr None | Some s' \<Rightarrow> k s')"

text \<open>\<open>one\<close>: the loop over the servers, starting after the last one tried. A server is asked if it is connected
  and not shut down.\<close>

fun start_round :: "nat \<Rightarrow> (nat \<Rightarrow> bool) \<Rightarrow> 'c \<Rightarrow> 'c sys_event list list \<Rightarrow> nat \<Rightarrow> 'c tsys \<Rightarrow> (int \<times> nat \<times> 'c tsys) option go" where
  "start_round n conn cmd [] starts s = Inr (Some (-1, starts, s))"
| "start_round n conn cmd (es # ess) starts s =
     (let st = (starts + 1) mod n in
      then_run n es s (\<lambda>s1.
        if conn st then
          (let (rf, index1, _, ok) = Start (Some cmd) (peer (cl s1) st); s2 = s1\<lparr>cl := put_peer st rf (cl s1)\<rparr> in
           if ok then Inr (Some (index1, st, s2)) else start_round n conn cmd ess st s2)
        else start_round n conn cmd ess st s1))"

text \<open>The two seconds of polling: whether the command was agreed on.\<close>

fun await_agreement :: "nat \<Rightarrow> int \<Rightarrow> 'c \<Rightarrow> int \<Rightarrow> 'c sys_event list list \<Rightarrow> 'c tsys \<Rightarrow> (bool \<times> 'c tsys) option go" where
  "await_agreement n index cmd expectedServers [] s = Inr (Some (False, s))"
| "await_agreement n index cmd expectedServers (es # ess) s =
     then_run n es s (\<lambda>s1. go_bind (nCommitted index (tst s1)) (\<lambda>(nd, cmd1).
       if nd > 0 \<and> nd \<ge> expectedServers \<and> cmd1 = Some cmd then Inr (Some (True, s1))
       else await_agreement n index cmd expectedServers ess s1))"

text \<open>The rounds of \<open>one\<close> until its ten seconds are over, with what happens before each start and before each
  poll; \<open>finished\<close> is whether the test was over before.\<close>

fun one :: "nat \<Rightarrow> (nat \<Rightarrow> bool) \<Rightarrow> 'c \<Rightarrow> int \<Rightarrow> bool \<Rightarrow> bool \<Rightarrow>
    ('c sys_event list list \<times> 'c sys_event list list) list \<Rightarrow> nat \<Rightarrow> 'c tsys \<Rightarrow> (int \<times> 'c tsys) option go" where
  "one n conn cmd expectedServers retry finished [] starts s =
     (if \<not> finished then Inl (Fatal ''one failed to reach agreement'') else Inr (Some (-1, s)))"
| "one n conn cmd expectedServers retry finished ((ess, polls) # rounds) starts s =
     go_bind (start_round n conn cmd (take n (ess @ replicate n [])) starts s) (\<lambda>r. case r of
       None \<Rightarrow> Inr None
     | Some (index, starts1, s1) \<Rightarrow>
         if index \<noteq> -1 then
           go_bind (await_agreement n index cmd expectedServers polls s1) (\<lambda>r1. case r1 of
             None \<Rightarrow> Inr None
           | Some (True, s2) \<Rightarrow> Inr (Some (index, s2))
           | Some (False, s2) \<Rightarrow>
               if \<not> retry then Inl (Fatal ''one failed to reach agreement'')
               else one n conn cmd expectedServers retry finished rounds starts1 s2)
         else one n conn cmd expectedServers retry finished rounds starts1 s1)"

text \<open>\<open>wait\<close>: at most thirty polls; it gives up when some server's term is beyond \<open>startTerm\<close>. A server that was
  shut down has no Raft peer to ask.\<close>

datatype 'c wait_result = MovedOn | Waited "'c option"

fun newer_term :: "(nat \<Rightarrow> bool) \<Rightarrow> int \<Rightarrow> 'c tsys \<Rightarrow> nat list \<Rightarrow> bool go" where
  "newer_term alive startTerm s [] = Inr False"
| "newer_term alive startTerm s (i # is) =
     (if \<not> alive i then Inl NilDereference
      else if fst (GetState (peer (cl s) i)) > startTerm then Inr True else newer_term alive startTerm s is)"

definition wait_end :: "int \<Rightarrow> int \<Rightarrow> 'c tsys \<Rightarrow> ('c wait_result \<times> 'c tsys) option go" where
  "wait_end index n s = go_bind (nCommitted index (tst s)) (\<lambda>(nd, cmd).
     if nd < n then Inl (Fatal ''only some decided'') else Inr (Some (Waited cmd, s)))"

fun wait_loop :: "nat \<Rightarrow> (nat \<Rightarrow> bool) \<Rightarrow> int \<Rightarrow> int \<Rightarrow> int \<Rightarrow> 'c sys_event list list \<Rightarrow> 'c tsys \<Rightarrow> ('c wait_result \<times> 'c tsys) option go" where
  "wait_loop N alive index n startTerm [] s = wait_end index n s"
| "wait_loop N alive index n startTerm (es # ess) s =
     go_bind (nCommitted index (tst s)) (\<lambda>(nd, _).
       if nd \<ge> n then wait_end index n s
       else then_run N es s (\<lambda>s1.
         if startTerm > -1 then
           go_bind (newer_term alive startTerm s1 [0..<N]) (\<lambda>b.
             if b then Inr (Some (MovedOn, s1)) else wait_loop N alive index n startTerm ess s1)
         else wait_loop N alive index n startTerm ess s1))"

definition wait :: "nat \<Rightarrow> (nat \<Rightarrow> bool) \<Rightarrow> int \<Rightarrow> int \<Rightarrow> int \<Rightarrow> 'c sys_event list list \<Rightarrow> 'c tsys \<Rightarrow> ('c wait_result \<times> 'c tsys) option go" where
  "wait N alive index n startTerm ess s = wait_loop N alive index n startTerm (take 30 (ess @ replicate 30 [])) s"

text \<open>\<open>checkTerms\<close> and \<open>checkNoLeader\<close> on what the connected servers answered.\<close>

fun checkTerms_scan :: "int \<Rightarrow> answers \<Rightarrow> int go" where
  "checkTerms_scan term [] = Inr term"
| "checkTerms_scan term ((i, xterm, _) # rs) =
     (if term = -1 then checkTerms_scan xterm rs
      else if term \<noteq> xterm then Inl (Fatal ''servers disagree on term'') else checkTerms_scan term rs)"

definition checkTerms :: "answers \<Rightarrow> int go" where
  "checkTerms rs = checkTerms_scan (-1) rs"

fun checkNoLeader :: "answers \<Rightarrow> unit go" where
  "checkNoLeader [] = Inr ()"
| "checkNoLeader ((i, _, is_leader) # rs) = (if is_leader then Inl (Fatal ''unexpected leader'') else checkNoLeader rs)"

lemma checkTerms_iff:
  assumes "\<forall>(i, t, l) \<in> set rs. 0 \<le> t"
  shows "checkTerms rs = Inr x \<longleftrightarrow> (if rs = [] then x = -1 else \<forall>(i, t, l) \<in> set rs. t = x)"
proof -
  have scan: "checkTerms_scan c xs = Inr x \<longleftrightarrow> x = c \<and> (\<forall>(i, t, l) \<in> set xs. t = c)" if "0 \<le> c" for c xs
    using that by (induction xs) (auto split: if_splits)
  show ?thesis using assms by (cases rs) (auto simp: checkTerms_def scan)
qed

section \<open>Soundness of the tester's calls\<close>

lemma sys_run_reachable: "sys_reachable n s \<Longrightarrow> sys_run n es s = Inr (Some s') \<Longrightarrow> sys_reachable n s'"
proof (induction es arbitrary: s)
  case (Cons e es)
  then show ?case by (auto simp: go_bind_eq_Inr split: if_splits option.splits intro: sys_reachable.sys_step)
qed simp

lemma sys_run_ok:
  "sys_reachable n s \<Longrightarrow> (\<exists>r. sys_run n es s = Inr r) \<or> list_ex is_late es \<and> sys_run n es s = Inl (Fatal ''apply out of order'')"
proof (induction es arbitrary: s)
  case (Cons e es)
  show ?case
  proof (cases "sys_prompt e s")
    case True
    obtain V K L Lead A W where inv: "raft_inv n V K L Lead A W (cl s)" and ok: "sys_ok n L A s"
      using sys_reachable_ok [OF Cons.prems] by blast
    consider "is_late e" "sys_do n e s = Inl (Fatal ''apply out of order'')" | "sys_do n e s = Inr None"
      | s' where "sys_do n e s = Inr (Some s')" using sys_ok_step [OF inv ok True] by (metis option.exhaust)
    then show ?thesis
    proof cases
      case 3
      then have "sys_reachable n s'" using Cons.prems True by (auto intro: sys_reachable.sys_step)
      then show ?thesis using Cons.IH [of s'] True 3 by auto
    qed (simp_all add: True)
  qed simp
qed simp

text \<open>A continuation that is sound from every state the events can lead to is sound after them.\<close>

lemma then_run_cases:
  assumes "sys_reachable n s"
  obtains (stuck) "then_run n es s k = Inr None" | (late) "list_ex is_late es" "then_run n es s k = Inl (Fatal ''apply out of order'')"
    | (runs) s' where "sys_reachable n s'" "then_run n es s k = k s'"
  using sys_run_ok [OF assms, of es] sys_run_reachable [OF assms, of es] that by (fastforce simp: then_run_def split: option.splits)

lemma start_reachable:
  assumes "sys_reachable n s" and "st < n"
  shows "sys_reachable n (s\<lparr>cl := put_peer st (fst (Start (Some cmd) (peer (cl s) st))) (cl s)\<rparr>)"
  by (rule sys_reachable.sys_step [OF assms(1), of "Net (ClientStart st (Some cmd))"])
    (use assms(2) in \<open>auto simp: sys_prompt_def sys_do_def mild_def happen_def subject_def\<close>)

lemma start_round_sound:
  assumes "sys_reachable n s" and "0 < n"
  shows "start_round n conn cmd ess starts s = Inr None \<or>
    list_ex (list_ex is_late) ess \<and> start_round n conn cmd ess starts s = Inl (Fatal ''apply out of order'') \<or>
    (\<exists>index st s'. start_round n conn cmd ess starts s = Inr (Some (index, st, s')) \<and> sys_reachable n s')"
  using assms
proof (induction ess arbitrary: starts s)
  case (Cons es ess)
  let ?st = "(starts + 1) mod n"
  define k where "k s1 = (if conn ?st then
          (let (rf, index1, _, ok) = Start (Some cmd) (peer (cl s1) ?st); s2 = s1\<lparr>cl := put_peer ?st rf (cl s1)\<rparr> in
           if ok then Inr (Some (index1, ?st, s2)) else start_round n conn cmd ess ?st s2)
        else start_round n conn cmd ess ?st s1)" for s1
  have st: "?st < n" using Cons.prems(2) by simp
  have k: "k s1 = Inr None \<or> list_ex (list_ex is_late) ess \<and> k s1 = Inl (Fatal ''apply out of order'') \<or>
      (\<exists>index st s'. k s1 = Inr (Some (index, st, s')) \<and> sys_reachable n s')" if s1: "sys_reachable n s1" for s1
  proof (cases "conn ?st")
    case True
    obtain rf index1 t ok where S: "Start (Some cmd) (peer (cl s1) ?st) = (rf, index1, t, ok)" by (cases "Start (Some cmd) (peer (cl s1) ?st)") auto
    have r2: "sys_reachable n (s1\<lparr>cl := put_peer ?st rf (cl s1)\<rparr>)" using start_reachable [OF s1 st, of cmd] S by simp
    show ?thesis using True S r2 Cons.IH [OF r2 Cons.prems(2), of ?st] by (cases ok) (auto simp: k_def)
  next
    case False
    then show ?thesis using Cons.IH [OF s1 Cons.prems(2), of ?st] by (simp add: k_def)
  qed
  have "start_round n conn cmd (es # ess) starts s = then_run n es s k" unfolding k_def [abs_def] start_round.simps Let_def by (rule refl)
  then show ?case by (cases rule: then_run_cases [OF Cons.prems(1), of es k]) (use k in \<open>auto simp del: start_round.simps\<close>)
qed simp

text \<open>A command is agreed on by at least so many servers.\<close>

definition agreement :: "int \<Rightarrow> 'c \<Rightarrow> int \<Rightarrow> 'c Test \<Rightarrow> bool" where
  "agreement index cmd expectedServers ts \<longleftrightarrow>
     expectedServers \<le> int (length (filter (\<lambda>rs. Logs index rs = Some (Some cmd)) (srvs ts))) \<and>
     (\<exists>rs \<in> set (srvs ts). Logs index rs = Some (Some cmd)) \<and>
     (\<forall>rs \<in> set (srvs ts). Logs index rs = None \<or> Logs index rs = Some (Some cmd))"

lemma agreement_seen:
  assumes "sys_reachable n s" and "nCommitted index (tst s) = Inr (nd, Some cmd)" and "0 < nd" and "expectedServers \<le> nd"
  shows "agreement index cmd expectedServers (tst s)"
proof -
  obtain c where c: "nCommitted index (tst s) = Inr (int (length (filter (\<lambda>rs. Logs index rs \<noteq> None) (srvs (tst s)))), c)"
    "\<forall>rs \<in> set (srvs (tst s)). Logs index rs = None \<or> Logs index rs = Some c" using nCommitted_sound [OF assms(1)] by blast
  then have nd: "nd = int (length (filter (\<lambda>rs. Logs index rs \<noteq> None) (srvs (tst s))))" and cc: "c = Some cmd" using assms(2) by auto
  have "filter (\<lambda>rs. Logs index rs \<noteq> None) (srvs (tst s)) = filter (\<lambda>rs. Logs index rs = Some (Some cmd)) (srvs (tst s))"
    by (rule filter_cong) (use c(2) cc in auto)
  then have f: "nd = int (length (filter (\<lambda>rs. Logs index rs = Some (Some cmd)) (srvs (tst s))))" using nd by simp
  then have "filter (\<lambda>rs. Logs index rs = Some (Some cmd)) (srvs (tst s)) \<noteq> []" using assms(3) by auto
  then have "\<exists>rs \<in> set (srvs (tst s)). Logs index rs = Some (Some cmd)" by (auto simp: filter_empty_conv)
  then show ?thesis using f c(2) cc assms(4) by (simp add: agreement_def)
qed

lemma await_sound:
  assumes "sys_reachable n s"
  shows "await_agreement n index cmd expectedServers ess s = Inr None \<or>
    list_ex (list_ex is_late) ess \<and> await_agreement n index cmd expectedServers ess s = Inl (Fatal ''apply out of order'') \<or>
    (\<exists>b s'. await_agreement n index cmd expectedServers ess s = Inr (Some (b, s')) \<and> sys_reachable n s' \<and>
       (b \<longrightarrow> agreement index cmd expectedServers (tst s')))"
  using assms
proof (induction ess arbitrary: s)
  case (Cons es ess)
  define k where "k s1 = go_bind (nCommitted index (tst s1)) (\<lambda>(nd, cmd1).
       if nd > 0 \<and> nd \<ge> expectedServers \<and> cmd1 = Some cmd then Inr (Some (True, s1))
       else await_agreement n index cmd expectedServers ess s1)" for s1
  have k: "k s1 = Inr None \<or> list_ex (list_ex is_late) ess \<and> k s1 = Inl (Fatal ''apply out of order'') \<or>
      (\<exists>b s'. k s1 = Inr (Some (b, s')) \<and> sys_reachable n s' \<and> (b \<longrightarrow> agreement index cmd expectedServers (tst s')))"
    if s1: "sys_reachable n s1" for s1
  proof -
    obtain nd cmd1 where nc: "nCommitted index (tst s1) = Inr (nd, cmd1)" using nCommitted_sound [OF s1, of index] by blast
    show ?thesis
    proof (cases "nd > 0 \<and> nd \<ge> expectedServers \<and> cmd1 = Some cmd")
      case True
      then show ?thesis using agreement_seen [OF s1, of index nd cmd expectedServers] nc s1 by (auto simp: k_def)
    next
      case False
      then have "k s1 = await_agreement n index cmd expectedServers ess s1" using nc by (auto simp: k_def)
      then show ?thesis using Cons.IH [OF s1] by simp
    qed
  qed
  have "await_agreement n index cmd expectedServers (es # ess) s = then_run n es s k" by (simp add: k_def [abs_def])
  then show ?case by (cases rule: then_run_cases [OF Cons.prems, of es k]) (use k in \<open>auto simp del: await_agreement.simps\<close>)
qed auto

text \<open>Whether a former instance of a server delivers something while \<open>one\<close> runs.\<close>

definition late_rounds :: "('c sys_event list list \<times> 'c sys_event list list) list \<Rightarrow> bool" where
  "late_rounds rounds \<longleftrightarrow> list_ex (\<lambda>(ess, polls). list_ex (list_ex is_late) ess \<or> list_ex (list_ex is_late) polls) rounds"

text \<open>C10: What \<open>one\<close> reports is true. On a cluster that runs on in between its steps, in any order of events, \<open>one\<close>
  fails because no agreement was reached in time, or because a former instance of a restarted server
  delivered a message late and out of order, and for no other reason: in particular no service or
  poll ever finds different values. When it returns an index, at least one and at least \<open>expectedServers\<close> of the servers have applied
  the command at that index, and no server has applied anything else there. It returns \<open>-1\<close> only when the test is over. (No peer times
  out again before its previous \<open>startElection\<close> got the lock; services take no snapshots; commands are not nil.)\<close>

theorem one_is_sound:
  assumes "sys_reachable n s" and "0 < n"
  shows "case one n conn cmd expectedServers retry finished rounds starts s of
     Inl err \<Rightarrow> err = Fatal ''one failed to reach agreement'' \<or> late_rounds rounds \<and> err = Fatal ''apply out of order''
   | Inr None \<Rightarrow> True
   | Inr (Some (index, s')) \<Rightarrow> sys_reachable n s' \<and>
       (if index = -1 then finished else agreement index cmd expectedServers (tst s'))"
  using assms
proof (induction rounds arbitrary: starts s)
  case (Cons r rounds)
  obtain ess polls where r: "r = (ess, polls)" by (cases r)
  let ?start = "start_round n conn cmd (take n (ess @ replicate n [])) starts s"
  have less: "list_ex (list_ex is_late) (take n (ess @ replicate n [])) \<Longrightarrow> list_ex (list_ex is_late) ess"
    by (fastforce simp: list_ex_iff dest: in_set_takeD)
  have more: "late_rounds rounds \<Longrightarrow> late_rounds (r # rounds)" by (simp add: late_rounds_def)
  consider "?start = Inr None" | "list_ex (list_ex is_late) ess" "?start = Inl (Fatal ''apply out of order'')"
    | index st s1 where "?start = Inr (Some (index, st, s1))" "sys_reachable n s1"
    using start_round_sound [OF Cons.prems] less by blast
  then show ?case
  proof cases
    case 3
    note IH = Cons.IH [OF _ Cons.prems(2), of _ st]
    show ?thesis
    proof (cases "index = -1")
      case True
      then show ?thesis using 3 IH [OF 3(2)] more r by (auto split: sum.splits option.splits)
    next
      case False
      let ?await = "await_agreement n index cmd expectedServers polls s1"
      consider "?await = Inr None" | "list_ex (list_ex is_late) polls" "?await = Inl (Fatal ''apply out of order'')"
        | b s2 where "?await = Inr (Some (b, s2))" "sys_reachable n s2" "b \<longrightarrow> agreement index cmd expectedServers (tst s2)"
        using await_sound [OF 3(2)] by blast
      then show ?thesis
      proof cases
        case a: 3
        show ?thesis using 3 a False r IH [OF a(2)] more by (cases b; cases retry) (auto split: sum.splits option.splits)
      qed (use 3 False r in \<open>simp_all add: late_rounds_def\<close>)
    qed
  qed (use r in \<open>simp_all add: late_rounds_def\<close>)
qed simp

text \<open>A run of \<open>one\<close> on three servers: server 0 is elected, servers 1 and 2 refuse, server 0 takes the command and replicates
  it to server 1, and both apply it.\<close>

definition demo_one :: "(nat sys_event list list \<times> nat sys_event list list) list" where
  "demo_one = [([map Net [Timeout 0 (1000, 0), RunElection 0, Deliver 0 (1000, 0), Deliver 1 (1000, 0)]],
     [map Net [SendTo 0 1, Deliver 1 (1001, 0), Deliver 1 (1002, 0), SendTo 0 1, Deliver 1 (1003, 0)] @ [Collect 0, Receive 0],
      [Collect 1, Receive 1]])]"

lemmas sys_eval = sys_init_def makeTest_def fresh_srv_def sys_do_def sys_prompt_def mild_def then_run_def
  applier_collect_def msg_at_def entry_at_def applier_msg_def command_msg_def checkLogs_def Logs_def nCommitted_def

lemma three: "replicate 3 x = [x, x, x]" "take 3 [a, b, c, d] = [a, b, c]"
  by (simp_all add: numeral_3_eq_3)

lemma demo_one_runs:
  "\<exists>s. one 3 (\<lambda>_. True) 7 2 False False demo_one 0 (sys_init 3 (\<lambda>_. (0, 0))) = Inr (Some (1, s))"
  by (simp add: demo_one_def sys_eval replicate_eval Let_def upt_conv_Cons upto.simps three)

theorem one_is_sound_witness:
  "\<exists>s. one 3 (\<lambda>_. True) 7 2 False False demo_one 0 (sys_init 3 (\<lambda>_. (0, 0))) = Inr (Some (1, s)) \<and>
     sys_reachable 3 s \<and> agreement 1 7 2 (tst s)"
proof -
  obtain s where s: "one 3 (\<lambda>_. True) 7 2 False False demo_one 0 (sys_init 3 (\<lambda>_. (0, 0))) = Inr (Some (1, s))" using demo_one_runs by blast
  have "sys_reachable 3 (sys_init 3 (\<lambda>_. (0, 0)))" by (rule sys_reachable.sys_start)
  from one_is_sound [OF this, where conn = "\<lambda>_. True" and cmd = "7 :: nat" and expectedServers = 2 and retry = False
      and finished = False and rounds = demo_one and starts = 0] s show ?thesis by simp
qed

text \<open>\<open>wait\<close> fails because too few servers applied the index, because of a late message, or because it asks a server that was shut down
  for its term; a value it returns is the one at least \<open>n\<close> servers applied.\<close>

definition wait_sound :: "nat \<Rightarrow> (nat \<Rightarrow> bool) \<Rightarrow> int \<Rightarrow> int \<Rightarrow> int \<Rightarrow> ('c wait_result \<times> 'c tsys) option go \<Rightarrow> bool" where
  "wait_sound N alive index n startTerm res \<longleftrightarrow> (case res of
     Inl err \<Rightarrow> err = Fatal ''only some decided'' \<or> err = Fatal ''apply out of order'' \<or> err = NilDereference \<and> (\<exists>i < N. \<not> alive i) \<and> startTerm > -1
   | Inr None \<Rightarrow> True
   | Inr (Some (MovedOn, s')) \<Rightarrow> sys_reachable N s' \<and> (\<exists>i < N. currentTerm (peer (cl s') i) > startTerm)
   | Inr (Some (Waited cmd, s')) \<Rightarrow> sys_reachable N s' \<and>
       n \<le> int (length (filter (\<lambda>rs. Logs index rs \<noteq> None) (srvs (tst s')))) \<and>
       (\<forall>rs \<in> set (srvs (tst s')). Logs index rs = None \<or> Logs index rs = Some cmd))"

lemma wait_end_sound: "sys_reachable N s \<Longrightarrow> wait_sound N alive index n startTerm (wait_end index n s)"
  using nCommitted_sound [of N s index] by (auto simp: wait_end_def wait_sound_def)

lemma newer_term_cases:
  "(newer_term alive startTerm s is = Inl NilDereference \<and> (\<exists>i \<in> set is. \<not> alive i)) \<or>
   (newer_term alive startTerm s is = Inr True \<and> (\<exists>i \<in> set is. currentTerm (peer (cl s) i) > startTerm)) \<or>
   newer_term alive startTerm s is = Inr False"
  by (induction "is") (auto simp: GetState_def)

lemma wait_loop_sound: "sys_reachable N s \<Longrightarrow> wait_sound N alive index n startTerm (wait_loop N alive index n startTerm ess s)"
proof (induction ess arbitrary: s)
  case (Cons es ess)
  obtain nd cmd where nc: "nCommitted index (tst s) = Inr (nd, cmd)" using nCommitted_sound [OF Cons.prems, of index] by blast
  define k where "k s1 = (if startTerm > -1 then
           go_bind (newer_term alive startTerm s1 [0..<N]) (\<lambda>b.
             if b then Inr (Some (MovedOn, s1)) else wait_loop N alive index n startTerm ess s1)
         else wait_loop N alive index n startTerm ess s1)" for s1
  have k: "wait_sound N alive index n startTerm (k s1)" if s1: "sys_reachable N s1" for s1
    using newer_term_cases [of alive startTerm s1 "[0..<N]"] Cons.IH [OF s1] s1
    by (elim disjE conjE) (auto simp: k_def, auto simp: wait_sound_def)
  show ?case
  proof (cases "nd \<ge> n")
    case False
    then have e: "wait_loop N alive index n startTerm (es # ess) s = then_run N es s k" using nc by (simp add: k_def [abs_def])
    show ?thesis unfolding e by (cases rule: then_run_cases [OF Cons.prems, of es k]) (use k in \<open>simp_all add: wait_sound_def\<close>)
  qed (use nc wait_end_sound [OF Cons.prems] in simp)
qed (simp add: wait_end_sound)

lemma wait_is_sound: "sys_reachable N s \<Longrightarrow> wait_sound N alive index n startTerm (wait N alive index n startTerm ess s)"
  unfolding wait_def by (rule wait_loop_sound)

text \<open>The same run as events of the system.\<close>

definition demo_sys :: "nat sys_event list" where
  "demo_sys = map Net [Timeout 0 (1000, 0), RunElection 0, Deliver 0 (1000, 0), Deliver 1 (1000, 0), ClientStart 0 (Some 7),
     SendTo 0 1, Deliver 1 (1001, 0), Deliver 1 (1002, 0), SendTo 0 1, Deliver 1 (1003, 0)] @ [Collect 0, Receive 0, Collect 1]"

lemma demo_sys_runs:
  "\<exists>s. sys_run 3 demo_sys (sys_init 3 (\<lambda>_. (0, 0))) = Inr (Some s) \<and> chan s 1 = [command_msg 7 1] \<and>
     length (filter (\<lambda>rs. Logs 1 rs \<noteq> None) (srvs (tst s))) = 1"
  by (simp add: demo_sys_def sys_eval replicate_eval Let_def upt_conv_Cons upto.simps three)

theorem services_agree_witness:
  "\<exists>s cmd. sys_reachable 3 s \<and> chan s 1 = [command_msg (7 :: nat) 1] \<and> (\<forall>err. sys_do 3 (Receive 1) s \<noteq> Inl err) \<and>
     nCommitted 1 (tst s) = Inr (1, cmd)"
proof -
  obtain s :: "nat tsys" where s: "sys_run 3 demo_sys (sys_init 3 (\<lambda>_. (0, 0))) = Inr (Some s)" "chan s 1 = [command_msg 7 1]"
    "length (filter (\<lambda>rs. Logs 1 rs \<noteq> None) (srvs (tst s))) = 1" using demo_sys_runs by blast
  have r: "sys_reachable 3 s" by (rule sys_run_reachable [OF sys_reachable.sys_start s(1)])
  note a = services_agree [OF r]
  have "\<forall>err. sys_do 3 (Receive 1) s \<noteq> Inl err"
    using conjunct1 [OF a, rule_format, of "Receive 1"] by (auto simp: sys_prompt_def is_late_def)
  moreover obtain cmd where "nCommitted 1 (tst s) = Inr (1, cmd)" using conjunct2 [OF a, rule_format, of 1] s(3) by auto
  ultimately show ?thesis using r s(2) by blast
qed

text \<open>\<open>checkLogs\<close> looks its server up by number. A killed peer's applier goes on sending the messages it has collected
  to its old service, which checks them against the logs of the service that has taken its place: any
  index after the first one is then out of order, and the whole process ends.\<close>

theorem late_message_is_fatal:
  assumes "mksrv i ps ts = Inr ts'" and "i < length (srvs ts)" and "CommandValid m" and "CommandIndex m > 1"
  shows "applier_msg i m ts' = Inl (Fatal ''apply out of order'')"
  using assms by (auto simp: mksrv_fresh applier_msg_def checkLogs_def fresh_srv_def Let_def)

end
