(* ===== verification/OpHistory.thy ===== *)
theory OpHistory
  imports KVClerk Annotations "HOL-Library.Multiset"
begin

text \<open>
  The operation log of the key/value tests (\<open>kvtest1/porcupine.go\<close>): clients call a clerk's \<open>Get\<close> and
  \<open>Put\<close> at the same time, and every completed call is logged with the times of its call and return.

  A call is cut at what can interleave: it begins, an attempt of the clerk is executed by the server,
  its reply gets lost or arrives, and the call returns and is logged. The result is that the log is
  linearizable in the sense of the checker the tests use: its operations can be put in an order that
  respects real time and that the sequential model accepts.
\<close>

section \<open>The log\<close>

record operation =
  OpInput :: KvInput
  OpOutput :: KvOutput
  OpCall :: int
  OpReturn :: int
  OpClientId :: int

definition OpLog_Len :: "operation list \<Rightarrow> int" where
  "OpLog_Len operations = int (length operations)"

definition OpLog_Append :: "operation \<Rightarrow> operation list \<Rightarrow> operation list" where
  "OpLog_Append op operations = operations @ [op]"

definition OpLog_Read :: "operation list \<Rightarrow> operation list" where
  "OpLog_Read operations = operations"

text \<open>What \<open>Get\<close> and \<open>Put\<close> log, and the count of operations; without a log only the count.\<close>

definition get_operation :: "string \<Rightarrow> GetReply \<Rightarrow> int \<Rightarrow> int \<Rightarrow> int \<Rightarrow> operation" where
  "get_operation key r start end cli =
     \<lparr>OpInput = fst (log_get key r), OpOutput = snd (log_get key r), OpCall = start, OpReturn = end, OpClientId = cli\<rparr>"

definition put_operation :: "PutArgs \<Rightarrow> Err \<Rightarrow> int \<Rightarrow> int \<Rightarrow> int \<Rightarrow> operation" where
  "put_operation args err start end cli =
     \<lparr>OpInput = fst (log_put args err), OpOutput = snd (log_put args err), OpCall = start, OpReturn = end, OpClientId = cli\<rparr>"

definition log_operation :: "operation \<Rightarrow> operation list option \<Rightarrow> operation list option" where
  "log_operation op log = map_option (OpLog_Append op) log"

section \<open>Concurrent clients\<close>

text \<open>Where a client is in a call: begun at a time, and, once the server has executed an attempt, with
  the reply on its way. A put knows whether the attempt is the first.\<close>

datatype call_pc =
    Idle
  | Getting string int
  | GetReplied string int GetReply
  | Putting PutArgs bool int
  | PutReplied PutArgs bool int Err

record op_sys =
  os_srv :: KVServer
  os_now :: int
  os_cl :: "nat \<Rightarrow> call_pc"
  os_log :: "operation list option"
  os_ops :: "32 word"

definition op_init :: "int \<Rightarrow> op_sys" where
  "op_init t = \<lparr>os_srv = MakeKVServer, os_now = t, os_cl = (\<lambda>_. Idle), os_log = Some [], os_ops = 0\<rparr>"

definition set_call :: "nat \<Rightarrow> call_pc \<Rightarrow> op_sys \<Rightarrow> op_sys" where
  "set_call c pc s = s\<lparr>os_cl := (os_cl s)(c := pc)\<rparr>"

definition finish_call :: "nat \<Rightarrow> operation \<Rightarrow> op_sys \<Rightarrow> op_sys" where
  "finish_call c op s = (set_call c Idle s)\<lparr>os_log := log_operation op (os_log s), os_ops := os_ops s + 1\<rparr>"

inductive op_step :: "(nat \<Rightarrow> int) \<Rightarrow> op_sys \<Rightarrow> op_sys \<Rightarrow> bool" for cli where
  clock: "os_now s \<le> t \<Longrightarrow> op_step cli s (s\<lparr>os_now := t\<rparr>)"
| call_get: "os_cl s c = Idle \<Longrightarrow> op_step cli s (set_call c (Getting key (os_now s)) s)"
| serve_get: "os_cl s c = Getting key t \<Longrightarrow> op_step cli s (set_call c (GetReplied key t (KVServer_Get (os_srv s) key)) s)"
| get_reply_lost: "os_cl s c = GetReplied key t r \<Longrightarrow> op_step cli s (set_call c (Getting key t) s)"
| return_get: "os_cl s c = GetReplied key t r \<Longrightarrow>
    op_step cli s (finish_call c (get_operation key r t (os_now s) (cli c)) s)"
| call_put: "os_cl s c = Idle \<Longrightarrow> op_step cli s (set_call c (Putting args True (os_now s)) s)"
| put_request_lost: "os_cl s c = Putting args f t \<Longrightarrow> op_step cli s (set_call c (Putting args False t) s)"
| serve_put: "os_cl s c = Putting args f t \<Longrightarrow> KVServer_Put (os_srv s) args = (kv', e) \<Longrightarrow>
    op_step cli s ((set_call c (PutReplied args f t e) s)\<lparr>os_srv := kv'\<rparr>)"
| put_reply_lost: "os_cl s c = PutReplied args f t e \<Longrightarrow> op_step cli s (set_call c (Putting args False t) s)"
| return_put: "os_cl s c = PutReplied args f t e \<Longrightarrow>
    op_step cli s (finish_call c (put_operation args (Clerk_Put_reply f e) t (os_now s) (cli c)) s)"

inductive op_run :: "(nat \<Rightarrow> int) \<Rightarrow> nat \<Rightarrow> op_sys \<Rightarrow> bool" for cli where
  op_start: "op_run cli 0 (op_init t)"
| op_more: "op_run cli n s \<Longrightarrow> op_step cli s s' \<Longrightarrow> op_run cli (Suc n) s'"

section \<open>Linearizable logs\<close>

definition op_io :: "operation \<Rightarrow> KvInput \<times> KvOutput" where
  "op_io op = (OpInput op, OpOutput op)"

text \<open>An operation that returned before another one was called comes first.\<close>

definition linearizable :: "operation list \<Rightarrow> bool" where
  "linearizable L \<longleftrightarrow> (\<exists>H. mset H = mset L \<and> sorted_wrt (\<lambda>x y. \<not> OpReturn y < OpCall x) H \<and>
     (\<forall>h \<in> set (KvModel_Partition (map op_io H)). model_run KvModel_Init h \<noteq> None))"

section \<open>A ghost order of the calls\<close>

text \<open>The order in which the server executed the attempts that count. An open slot belongs to a call
  that has not returned; its output is provisional: \<open>OK\<close> for a put that was applied, \<open>ErrVersion\<close> for
  one that was not.\<close>

datatype slot = Done operation | Open nat "KvInput \<times> KvOutput" int

fun slot_io :: "slot \<Rightarrow> KvInput \<times> KvOutput" where
  "slot_io (Done op) = op_io op"
| "slot_io (Open c io t) = io"

fun slot_call :: "slot \<Rightarrow> int" where
  "slot_call (Done op) = OpCall op"
| "slot_call (Open c io t) = t"

fun slot_before :: "slot \<Rightarrow> slot \<Rightarrow> bool" where
  "slot_before (Done op) x = (OpReturn op < slot_call x)"
| "slot_before (Open c io t) x = False"

fun open_by :: "nat \<Rightarrow> slot \<Rightarrow> bool" where
  "open_by c (Done op) = False"
| "open_by c (Open d io t) = (d = c)"

definition done_ops :: "slot list \<Rightarrow> operation list" where
  "done_ops H = concat (map (\<lambda>x. case x of Done op \<Rightarrow> [op] | Open c io t \<Rightarrow> []) H)"

definition slots_of :: "string \<Rightarrow> slot list \<Rightarrow> history" where
  "slots_of k H = filter (\<lambda>v. InKey (fst v) = k) (map slot_io H)"

definition close_slot :: "nat \<Rightarrow> operation \<Rightarrow> slot list \<Rightarrow> slot list" where
  "close_slot c op H = map (\<lambda>x. if open_by c x then Done op else x) H"

definition drop_slot :: "nat \<Rightarrow> slot list \<Rightarrow> slot list" where
  "drop_slot c H = filter (\<lambda>x. \<not> open_by c x) H"

text \<open>What a client's place in its call says of its slots, \<open>xs\<close>.\<close>

definition passed :: "nat \<Rightarrow> KVServer \<Rightarrow> PutArgs \<Rightarrow> bool" where
  "passed n kv args \<longleftrightarrow> (\<exists>j. Suc j \<le> n \<and> StVersion (kv_abs kv (PutKey args)) = PutVersion args + 1 + of_nat j) \<and>
     versions kv (PutKey args) \<noteq> None"

definition call_ok :: "nat \<Rightarrow> KVServer \<Rightarrow> nat \<Rightarrow> call_pc \<Rightarrow> slot list \<Rightarrow> bool" where
  "call_ok n kv c pc xs \<longleftrightarrow> (case pc of
     Idle \<Rightarrow> xs = []
   | Getting key t \<Rightarrow> xs = []
   | GetReplied key t r \<Rightarrow> xs = [Open c (log_get key r) t]
   | Putting args f t \<Rightarrow> xs = [] \<or> \<not> f \<and> xs = [Open c (log_put args OK) t] \<and> passed n kv args
   | PutReplied args f t e \<Rightarrow> (\<exists>e'. xs = [Open c (log_put args e') t] \<and>
       (e' = OK \<and> passed n kv args \<and> (e = OK \<or> \<not> f) \<or> e' = ErrVersion \<and> e \<noteq> OK)))"

definition call_time :: "call_pc \<Rightarrow> int option" where
  "call_time pc = (case pc of Idle \<Rightarrow> None | Getting key t \<Rightarrow> Some t | GetReplied key t r \<Rightarrow> Some t
     | Putting args f t \<Rightarrow> Some t | PutReplied args f t e \<Rightarrow> Some t)"

definition op_inv :: "nat \<Rightarrow> slot list \<Rightarrow> op_sys \<Rightarrow> bool" where
  "op_inv n H s \<longleftrightarrow> kv_inv (os_srv s) \<and>
     (\<exists>L. os_log s = Some L \<and> mset (done_ops H) = mset L) \<and>
     sorted_wrt (\<lambda>x y. \<not> slot_before y x) H \<and> (\<forall>x \<in> set H. slot_call x \<le> os_now s) \<and>
     (\<forall>c t. call_time (os_cl s c) = Some t \<longrightarrow> t \<le> os_now s) \<and>
     (\<forall>k. model_run KvModel_Init (slots_of k H) = Some (kv_abs (os_srv s) k)) \<and>
     (\<forall>c. call_ok n (os_srv s) c (os_cl s c) (filter (open_by c) H))"

section \<open>Changing the order\<close>

lemma filter_single:
  assumes "filter P H = [x]"
  shows "\<exists>A B. H = A @ x # B \<and> P x \<and> (\<forall>y \<in> set A \<union> set B. \<not> P y)"
proof -
  obtain A B where "H = A @ x # B" "\<forall>y \<in> set A. \<not> P y" "P x" "filter P B = []"
    using filter_eq_Cons_iff [of P H x "[]"] assms by auto
  then show ?thesis by (auto simp: filter_empty_conv)
qed

lemma open_slot:
  assumes "filter (open_by c) H = [x]"
  obtains A B where "H = A @ x # B" "\<And>op. close_slot c op H = A @ Done op # B" "drop_slot c H = A @ B"
proof -
  from filter_single [OF assms] obtain A B where H: "H = A @ x # B" "open_by c x" "\<forall>y \<in> set A \<union> set B. \<not> open_by c y" by blast
  have A: "map (\<lambda>y. if open_by c y then Done op else y) A = A" for op by (rule map_idI) (use H(3) in auto)
  have B: "map (\<lambda>y. if open_by c y then Done op else y) B = B" for op by (rule map_idI) (use H(3) in auto)
  have "filter (\<lambda>y. \<not> open_by c y) A = A" "filter (\<lambda>y. \<not> open_by c y) B = B" using H(3) by (auto intro: filter_True)
  then show ?thesis using that [of A B] H(1,2) A B by (simp add: close_slot_def drop_slot_def)
qed

lemma open_others:
  "d \<noteq> c \<Longrightarrow> filter (open_by d) (close_slot c op H) = filter (open_by d) H"
  "d \<noteq> c \<Longrightarrow> filter (open_by d) (drop_slot c H) = filter (open_by d) H"
  "filter (open_by c) (close_slot c op H) = []" "filter (open_by c) (drop_slot c H) = []"
proof -
  show "d \<noteq> c \<Longrightarrow> filter (open_by d) (close_slot c op H) = filter (open_by d) H"
  proof (induction H)
    case (Cons x H)
    then show ?case by (cases x) (auto simp: close_slot_def)
  qed (simp add: close_slot_def)
  show "d \<noteq> c \<Longrightarrow> filter (open_by d) (drop_slot c H) = filter (open_by d) H"
  proof (induction H)
    case (Cons x H)
    then show ?case by (cases x) (auto simp: drop_slot_def)
  qed (simp add: drop_slot_def)
  show "filter (open_by c) (close_slot c op H) = []" by (auto simp: close_slot_def filter_empty_conv)
  show "filter (open_by c) (drop_slot c H) = []" by (auto simp: drop_slot_def filter_empty_conv)
qed

text \<open>A slot's operation may become one the model accepts wherever it accepted the old one, or
  disappear if it did not change the state.\<close>

definition weaker :: "KvInput \<times> KvOutput \<Rightarrow> KvInput \<times> KvOutput \<Rightarrow> bool" where
  "weaker io io' \<longleftrightarrow> InKey (fst io') = InKey (fst io) \<and> (\<forall>st h r. model_run st (io # h) = Some r \<longrightarrow> model_run st (io' # h) = Some r)"

definition skippable :: "KvInput \<times> KvOutput \<Rightarrow> bool" where
  "skippable io \<longleftrightarrow> (\<forall>st h r. model_run st (io # h) = Some r \<longrightarrow> model_run st h = Some r)"

lemma slots_of_append [simp]: "slots_of k (A @ B) = slots_of k A @ slots_of k B"
  and slots_of_Cons: "slots_of k (x # B) = (if InKey (fst (slot_io x)) = k then slot_io x # slots_of k B else slots_of k B)"
  by (simp_all add: slots_of_def)

lemma run_mid:
  assumes "model_run st (slots_of k (A @ x # B)) = Some r"
  shows "\<exists>st'. (\<forall>C. model_run st (slots_of k A @ C) = model_run st' C) \<and> model_run st' (slots_of k (x # B)) = Some r"
  using assms by (auto simp: model_run_append simp del: model_run.simps split: option.splits)

lemma run_weaker:
  assumes w: "weaker (slot_io x) (slot_io y)" and r: "model_run st (slots_of k (A @ x # B)) = Some r"
  shows "model_run st (slots_of k (A @ y # B)) = Some r"
proof -
  obtain st' where st': "\<And>C. model_run st (slots_of k A @ C) = model_run st' C" "model_run st' (slots_of k (x # B)) = Some r"
    using run_mid [OF r] by blast
  have "model_run st' (slots_of k (y # B)) = Some r"
    using st'(2) w by (simp add: slots_of_Cons weaker_def del: model_run.simps split: if_splits)
  then show ?thesis using st'(1) by simp
qed

lemma run_skip:
  assumes sk: "skippable (slot_io x)" and r: "model_run st (slots_of k (A @ x # B)) = Some r"
  shows "model_run st (slots_of k (A @ B)) = Some r"
proof -
  obtain st' where st': "\<And>C. model_run st (slots_of k A @ C) = model_run st' C" "model_run st' (slots_of k (x # B)) = Some r"
    using run_mid [OF r] by blast
  have "model_run st' (slots_of k B) = Some r"
    using st'(2) sk [unfolded skippable_def, rule_format, of st' "slots_of k B" r]
    by (simp add: slots_of_Cons del: model_run.simps split: if_splits)
  then show ?thesis using st'(1) by simp
qed

lemma weaker_refl [simp]: "weaker io io"
  by (simp add: weaker_def)

lemma weaker_maybe: "weaker (log_put args e) (log_put args ErrMaybe)"
  by (auto simp: weaker_def log_put_def KvModel_Step_def split: if_splits bool.splits)

lemma skip_get: "skippable (log_get key r)"
  by (auto simp: skippable_def log_get_def KvModel_Step_def split: bool.splits)

lemma skip_missed: "skippable (log_put args ErrVersion)"
  by (auto simp: skippable_def log_put_def KvModel_Step_def split: if_splits bool.splits)

lemma sorted_close:
  assumes "sorted_wrt (\<lambda>x y. \<not> slot_before y x) (A @ Open c io t # B)" and "OpCall op = t"
    and "\<And>x. x \<in> set A \<Longrightarrow> slot_call x \<le> OpReturn op"
  shows "sorted_wrt (\<lambda>x y. \<not> slot_before y x) (A @ Done op # B)"
proof -
  have "slot_before y (Done op) = slot_before y (Open c io t)" for y using assms(2) by (cases y) simp_all
  then show ?thesis using assms by (auto simp: sorted_wrt_append not_less)
qed

lemma sorted_add: "sorted_wrt (\<lambda>x y. \<not> slot_before y x) H \<Longrightarrow> sorted_wrt (\<lambda>x y. \<not> slot_before y x) (H @ [Open c io t])"
  by (simp add: sorted_wrt_append)

lemma done_simps [simp]: "done_ops (A @ B) = done_ops A @ done_ops B" "done_ops (Done op # B) = op # done_ops B"
  "done_ops (Open c io t # B) = done_ops B" "done_ops [] = []"
  by (simp_all add: done_ops_def)

section \<open>Every step keeps the order\<close>

lemma passed_put:
  assumes "passed n kv args"
  shows "passed (Suc n) (fst (KVServer_Put kv a)) args"
proof -
  let ?kv' = "fst (KVServer_Put kv a)"
  obtain j where j: "Suc j \<le> n" "StVersion (kv_abs kv (PutKey args)) = PutVersion args + 1 + of_nat j"
    using assms by (auto simp: passed_def)
  obtain i where i: "i \<le> 1" "StVersion (kv_abs ?kv' (PutKey args)) = StVersion (kv_abs kv (PutKey args)) + of_nat i"
    using put_advance [of kv a "PutKey args"] by blast
  then have "StVersion (kv_abs ?kv' (PutKey args)) = PutVersion args + 1 + of_nat (j + i)" using j(2) by (simp add: add.assoc)
  moreover have "Suc (j + i) \<le> Suc n" using j(1) i(1) by simp
  ultimately have "\<exists>k. Suc k \<le> Suc n \<and> StVersion (kv_abs ?kv' (PutKey args)) = PutVersion args + 1 + of_nat k"
    by (intro exI [of _ "j + i"] conjI)
  moreover have "versions ?kv' (PutKey args) \<noteq> None"
    using assms by (auto simp: passed_def KVServer_Put_def split: option.splits)
  ultimately show ?thesis by (simp add: passed_def)
qed

lemma passed_Suc: "passed n kv args \<Longrightarrow> passed (Suc n) kv args"
  unfolding passed_def by (meson le_SucI)

lemma call_ok_Suc: "call_ok n kv c pc xs \<Longrightarrow> call_ok (Suc n) kv c pc xs"
  by (auto simp: call_ok_def passed_Suc split: call_pc.splits)

lemma call_ok_put: "call_ok n kv c pc xs \<Longrightarrow> call_ok (Suc n) (fst (KVServer_Put kv a)) c pc xs"
  by (auto simp: call_ok_def passed_put split: call_pc.splits)

text \<open>A put that has been applied once is not applied again.\<close>

lemma passed_miss:
  assumes "passed n kv args" and "n < 2 ^ 64" and "KVServer_Put kv args = (kv', e)"
  shows "kv' = kv \<and> e = ErrVersion"
proof -
  obtain j where j: "Suc j \<le> n" "StVersion (kv_abs kv (PutKey args)) = PutVersion args + 1 + of_nat j"
    and v: "versions kv (PutKey args) \<noteq> None" using assms(1) by (auto simp: passed_def)
  have "of_nat (Suc j) \<noteq> (0 :: 64 word)"
    using j(1) assms(2) by (simp add: word_of_nat_eq_0_iff nat_dvd_not_less del: of_nat_Suc)
  then have "StVersion (kv_abs kv (PutKey args)) \<noteq> PutVersion args" using j(2) by (simp add: add.assoc)
  then show ?thesis using v assms(3) by (auto simp: KVServer_Put_def kv_abs_def split: if_splits option.splits)
qed

lemma op_inv_own:
  assumes "op_inv n H s"
  shows "kv_inv (os_srv s)" "sorted_wrt (\<lambda>x y. \<not> slot_before y x) H" "x \<in> set H \<Longrightarrow> slot_call x \<le> os_now s"
    "call_time (os_cl s c) = Some t \<Longrightarrow> t \<le> os_now s"
    "model_run KvModel_Init (slots_of k H) = Some (kv_abs (os_srv s) k)"
    "call_ok n (os_srv s) c (os_cl s c) (filter (open_by c) H)" "\<exists>L. os_log s = Some L \<and> mset (done_ops H) = mset L"
  using assms by (auto simp: op_inv_def)

text \<open>A client moves on within its call, with another order.\<close>

lemma inv_move:
  assumes inv: "op_inv n H s" and H': "mset (done_ops H') = mset (done_ops H)" "sorted_wrt (\<lambda>x y. \<not> slot_before y x) H'"
      "\<And>x. x \<in> set H' \<Longrightarrow> slot_call x \<le> os_now s"
    and run: "\<And>k. model_run KvModel_Init (slots_of k H') = Some (kv_abs (fst (KVServer_Put (os_srv s) a)) k)"
    and oth: "\<And>d. d \<noteq> c \<Longrightarrow> filter (open_by d) H' = filter (open_by d) H"
    and own: "call_ok (Suc n) (fst (KVServer_Put (os_srv s) a)) c pc (filter (open_by c) H')" and t: "\<And>t. call_time pc = Some t \<Longrightarrow> t \<le> os_now s"
  shows "op_inv (Suc n) H' ((set_call c pc s)\<lparr>os_srv := fst (KVServer_Put (os_srv s) a)\<rparr>)"
proof -
  have "call_ok (Suc n) (fst (KVServer_Put (os_srv s) a)) d (if d = c then pc else os_cl s d) (filter (open_by d) H')" for d
    using own oth [of d] call_ok_put [OF op_inv_own(6) [OF inv, of d], of a] by (cases "d = c") simp_all
  then show ?thesis using inv H' run t kv_inv_put [OF op_inv_own(1) [OF inv], of a]
    by (auto simp: op_inv_def set_call_def)
qed

lemma op_inv_quiet:
  assumes inv: "op_inv n H s" and H': "mset (done_ops H') = mset (done_ops H)" "sorted_wrt (\<lambda>x y. \<not> slot_before y x) H'"
      "\<And>x. x \<in> set H' \<Longrightarrow> slot_call x \<le> os_now s"
    and run: "\<And>k. model_run KvModel_Init (slots_of k H') = Some (kv_abs (os_srv s) k)"
    and oth: "\<And>d. d \<noteq> c \<Longrightarrow> filter (open_by d) H' = filter (open_by d) H"
    and own: "call_ok (Suc n) (os_srv s) c pc (filter (open_by c) H')" and t: "\<And>t. call_time pc = Some t \<Longrightarrow> t \<le> os_now s"
  shows "op_inv (Suc n) H' (set_call c pc s)"
proof -
  have "call_ok (Suc n) (os_srv s) d (if d = c then pc else os_cl s d) (filter (open_by d) H')" for d
    using own oth [of d] call_ok_Suc [OF op_inv_own(6) [OF inv, of d]] by (cases "d = c") simp_all
  then show ?thesis using inv H' run t by (auto simp: op_inv_def set_call_def)
qed

lemma inv_finish:
  assumes inv: "op_inv n H s" and x: "filter (open_by c) H = [Open c io t]" and t: "OpCall op = t" "OpReturn op = os_now s"
    and w: "weaker io (op_io op)"
  shows "op_inv (Suc n) (close_slot c op H) (finish_call c op s)"
proof -
  note own = op_inv_own [OF inv]
  obtain A B where H: "H = A @ Open c io t # B" and cl: "close_slot c op H = A @ Done op # B" using open_slot [OF x] by metis
  have "sorted_wrt (\<lambda>x y. \<not> slot_before y x) (A @ Done op # B)"
    by (rule sorted_close [OF _ t(1)]) (use own(2,3) H t(2) in auto)
  moreover have "model_run KvModel_Init (slots_of k (A @ Done op # B)) = Some (kv_abs (os_srv s) k)" for k
    by (rule run_weaker [of "Open c io t"]) (use w own(5) H in simp_all)
  moreover have "call_ok (Suc n) (os_srv s) d (if d = c then Idle else os_cl s d) (filter (open_by d) (close_slot c op H))" for d
    using call_ok_Suc [OF own(6) [of d]] by (cases "d = c") (simp_all add: open_others call_ok_def)
  moreover have "slot_call (Done op) \<le> os_now s" using own(3) [of "Open c io t"] H t(1) by simp
  moreover obtain L where "os_log s = Some L" "mset (done_ops H) = mset L" using own(7) by blast
  ultimately show ?thesis using own(1,3,4) H cl
    by (auto simp: op_inv_def finish_call_def set_call_def log_operation_def OpLog_Append_def call_time_def)
qed

lemma inv_same:
  assumes "op_inv n H s" and "call_ok (Suc n) (os_srv s) c pc (filter (open_by c) H)" and "\<And>t. call_time pc = Some t \<Longrightarrow> t \<le> os_now s"
  shows "op_inv (Suc n) H (set_call c pc s)"
  by (rule op_inv_quiet [OF assms(1) refl]) (use op_inv_own [OF assms(1)] assms(2,3) in auto)

lemma inv_drop:
  assumes inv: "op_inv n H s" and x: "filter (open_by c) H = [Open c io t]" and sk: "skippable io"
    and pc: "call_ok (Suc n) (os_srv s) c pc []" "\<And>t. call_time pc = Some t \<Longrightarrow> t \<le> os_now s"
  shows "op_inv (Suc n) (drop_slot c H) (set_call c pc s)"
proof -
  note own = op_inv_own [OF inv]
  obtain A B where H: "H = A @ Open c io t # B" and dr: "drop_slot c H = A @ B" using open_slot [OF x] by metis
  show ?thesis
  proof (rule op_inv_quiet [OF inv])
    show "mset (done_ops (drop_slot c H)) = mset (done_ops H)" by (simp add: dr, simp add: H)
    show "sorted_wrt (\<lambda>x y. \<not> slot_before y x) (drop_slot c H)" using own(2) by (simp add: drop_slot_def sorted_wrt_filter)
    show "slot_call x \<le> os_now s" if "x \<in> set (drop_slot c H)" for x using that own(3) by (simp add: drop_slot_def)
    show "model_run KvModel_Init (slots_of k (drop_slot c H)) = Some (kv_abs (os_srv s) k)" for k
      unfolding dr by (rule run_skip [of "Open c io t"]) (use sk own(5) H in simp_all)
  qed (use pc in \<open>auto simp: open_others\<close>)
qed

lemma slots_snoc: "slots_of k (H @ [Open c io t]) = slots_of k H @ (if InKey (fst io) = k then [io] else [])"
  by (simp add: slots_of_def)

lemma open_snoc: "filter (open_by d) (H @ [Open c io t]) = filter (open_by d) H @ (if d = c then [Open c io t] else [])"
  by simp

lemma inv_serve_get:
  assumes inv: "op_inv n H s" and pc: "os_cl s c = Getting key t"
  shows "op_inv (Suc n) (H @ [Open c (log_get key (KVServer_Get (os_srv s) key)) t])
    (set_call c (GetReplied key t (KVServer_Get (os_srv s) key)) s)"
proof -
  note own = op_inv_own [OF inv]
  have t: "t \<le> os_now s" using own(4) [of c t] pc by (simp add: call_time_def)
  have e: "filter (open_by c) H = []" using own(6) [of c] pc by (simp add: call_ok_def)
  let ?io = "log_get key (KVServer_Get (os_srv s) key)"
  have run: "model_run KvModel_Init (slots_of k (H @ [Open c ?io t])) = Some (kv_abs (os_srv s) k)" for k
    using own(5) [of k] step_get [OF own(1), of key "[]"]
    by (auto simp: slots_snoc model_run_append simp del: model_run.simps(2) simp flip: slots_of_append)
  show ?thesis
    by (rule op_inv_quiet [OF inv _ sorted_add [OF own(2)] _ run]) (use own(3) t e in \<open>auto simp: call_ok_def call_time_def\<close>)
qed

lemma inv_serve_put:
  assumes inv: "op_inv n H s" and pc: "os_cl s c = Putting args f t" and put: "KVServer_Put (os_srv s) args = (kv', e)"
    and n: "n < 2 ^ 64"
  shows "\<exists>H'. op_inv (Suc n) H' ((set_call c (PutReplied args f t e) s)\<lparr>os_srv := kv'\<rparr>)"
proof -
  note own = op_inv_own [OF inv]
  have t: "t \<le> os_now s" using own(4) [of c t] pc by (simp add: call_time_def)
  have kv': "kv' = fst (KVServer_Put (os_srv s) args)" using put by simp
  consider (fresh) "filter (open_by c) H = []"
    | (again) "\<not> f" "filter (open_by c) H = [Open c (log_put args OK) t]" "passed n (os_srv s) args"
    using own(6) [of c] pc by (auto simp: call_ok_def)
  then show ?thesis
  proof cases
    case again
    have same: "kv' = os_srv s" "e = ErrVersion" using passed_miss [OF again(3) n put] by simp_all
    have "op_inv (Suc n) H (set_call c (PutReplied args f t e) s)"
      by (rule inv_same [OF inv]) (use again same t passed_Suc in \<open>auto simp: call_ok_def call_time_def\<close>)
    then show ?thesis using same by (auto simp: set_call_def intro!: exI [of _ H])
  next
    case fresh
    define e' where "e' = (if e = OK then OK else ErrVersion)"
    let ?k = "PutKey args" and ?x = "Open c (log_put args e') t"
    have ver: "e = OK \<longleftrightarrow> StVersion (kv_abs (os_srv s) ?k) = PutVersion args"
      using put_err [of "os_srv s" args] put by (auto split: if_splits)
    have abs: "kv_abs kv' ?k = (if e = OK then \<lparr>StValue = PutValue args, StVersion = PutVersion args + 1\<rparr> else kv_abs (os_srv s) ?k)"
      using kv_abs_put_same [OF put] ver by simp
    have st: "model_run (kv_abs (os_srv s) ?k) [log_put args e'] = Some (kv_abs kv' ?k)"
      using ver by (simp add: log_put_def KvModel_Step_def abs e'_def)
    have run: "model_run KvModel_Init (slots_of k (H @ [?x])) = Some (kv_abs kv' k)" for k
    proof (cases "k = ?k")
      case True
      then show ?thesis using own(5) [of k] st by (simp add: slots_snoc model_run_append del: model_run.simps(2) slots_of_append)
    next
      case False
      then show ?thesis using own(5) [of k] kv_abs_put_other [OF False, of "os_srv s"] kv' by (simp add: slots_snoc del: slots_of_append)
    qed
    have "passed (Suc n) kv' args" if ok: "e = OK"
    proof -
      have "versions kv' ?k \<noteq> None" using put ok by (auto simp: KVServer_Put_def split: option.splits if_splits)
      moreover have "StVersion (kv_abs kv' ?k) = PutVersion args + 1 + of_nat 0" using abs ok by simp
      ultimately show ?thesis unfolding passed_def by blast
    qed
    then have "call_ok (Suc n) kv' c (PutReplied args f t e) (filter (open_by c) (H @ [?x]))"
      using fresh by (auto simp: call_ok_def e'_def)
    then have "op_inv (Suc n) (H @ [?x]) ((set_call c (PutReplied args f t e) s)\<lparr>os_srv := kv'\<rparr>)"
      unfolding kv' by (intro inv_move [OF inv _ sorted_add [OF own(2)]]) (use own(3) t run in \<open>auto simp: call_time_def kv'\<close>)
    then show ?thesis by blast
  qed
qed

text \<open>A put returns: its slot becomes the logged operation, with the answer of the clerk.\<close>

lemma inv_return_put:
  assumes inv: "op_inv n H s" and pc: "os_cl s c = PutReplied args f t e" and nk: "Clerk_Put_reply f e \<noteq> ErrNoKey"
    and op: "op = put_operation args (Clerk_Put_reply f e) t (os_now s) i"
    and e: "e = OK \<or> e = ErrVersion \<or> e = ErrNoKey"
  shows "op_inv (Suc n) (close_slot c op H) (finish_call c op s)"
proof -
  obtain e' where x: "filter (open_by c) H = [Open c (log_put args e') t]"
    and e': "e' = OK \<and> (e = OK \<or> \<not> f) \<or> e' = ErrVersion \<and> e \<noteq> OK"
    using op_inv_own(6) [OF inv, of c] pc by (auto simp: call_ok_def)
  have io: "op_io op = log_put args (Clerk_Put_reply f e)" by (simp add: op op_io_def put_operation_def)
  have "Clerk_Put_reply f e = e' \<or> Clerk_Put_reply f e = ErrMaybe"
    using e' e nk by (auto simp: Clerk_Put_reply_def split: if_splits)
  then have "weaker (log_put args e') (op_io op)" using io weaker_maybe by auto
  then show ?thesis by (rule inv_finish [OF inv x, rotated 2]) (simp_all add: op put_operation_def)
qed

text \<open>An answer in flight is one of the server's.\<close>

definition replies_ok :: "op_sys \<Rightarrow> bool" where
  "replies_ok s \<longleftrightarrow> (\<forall>c args f t e. os_cl s c = PutReplied args f t e \<longrightarrow> e = OK \<or> e = ErrVersion \<or> e = ErrNoKey)"

lemma step_replies: "op_step cli s s' \<Longrightarrow> replies_ok s \<Longrightarrow> replies_ok s'"
proof (induction rule: op_step.induct)
  case (serve_put s c args f t kv' e)
  then show ?case using put_err [of "os_srv s" args] by (auto simp: replies_ok_def set_call_def split: if_splits)
qed (auto simp: replies_ok_def set_call_def finish_call_def split: if_splits)

definition log_of :: "op_sys \<Rightarrow> operation list" where
  "log_of s = (case os_log s of None \<Rightarrow> [] | Some L \<Rightarrow> L)"

lemma step_log: "op_step cli s s' \<Longrightarrow> no_put_nokey (map op_io (log_of s')) \<Longrightarrow> no_put_nokey (map op_io (log_of s))"
  by (induction rule: op_step.induct)
     (auto simp: log_of_def finish_call_def set_call_def log_operation_def OpLog_Append_def no_put_nokey_def split: option.splits)

lemma step_inv:
  assumes "op_step cli s s'" and inv: "op_inv n H s" and "replies_ok s" and n: "n < 2 ^ 64" and nk: "no_put_nokey (map op_io (log_of s'))"
  shows "\<exists>H'. op_inv (Suc n) H' s'"
  using assms
proof (induction rule: op_step.induct)
  case (clock s t)
  then have "op_inv (Suc n) H (s\<lparr>os_now := t\<rparr>)" by (fastforce simp: op_inv_def call_ok_Suc)
  then show ?case by blast
next
  case (call_get s c key)
  have "op_inv (Suc n) H (set_call c (Getting key (os_now s)) s)"
    by (rule inv_same [OF call_get(2)]) (use op_inv_own(6) [OF call_get(2), of c] call_get(1) in \<open>auto simp: call_ok_def call_time_def\<close>)
  then show ?case by blast
next
  case (serve_get s c key t)
  then show ?case using inv_serve_get by blast
next
  case (get_reply_lost s c key t r)
  have "filter (open_by c) H = [Open c (log_get key r) t]" "t \<le> os_now s"
    using op_inv_own(4,6) [OF get_reply_lost(2), of c] get_reply_lost(1) by (auto simp: call_ok_def call_time_def)
  then have "op_inv (Suc n) (drop_slot c H) (set_call c (Getting key t) s)"
    by (intro inv_drop [OF get_reply_lost(2) _ skip_get]) (auto simp: call_ok_def call_time_def)
  then show ?case by blast
next
  case (return_get s c key t r)
  have "filter (open_by c) H = [Open c (log_get key r) t]"
    using op_inv_own(6) [OF return_get(2), of c] return_get(1) by (simp add: call_ok_def)
  then have "op_inv (Suc n) (close_slot c (get_operation key r t (os_now s) (cli c)) H)
      (finish_call c (get_operation key r t (os_now s) (cli c)) s)"
    by (rule inv_finish [OF return_get(2)]) (simp_all add: get_operation_def op_io_def)
  then show ?case by blast
next
  case (call_put s c args)
  have "op_inv (Suc n) H (set_call c (Putting args True (os_now s)) s)"
    by (rule inv_same [OF call_put(2)]) (use op_inv_own(6) [OF call_put(2), of c] call_put(1) in \<open>auto simp: call_ok_def call_time_def\<close>)
  then show ?case by blast
next
  case (put_request_lost s c args f t)
  have "op_inv (Suc n) H (set_call c (Putting args False t) s)"
    by (rule inv_same [OF put_request_lost(2)])
       (use op_inv_own(4,6) [OF put_request_lost(2), of c] put_request_lost(1) passed_Suc in \<open>auto simp: call_ok_def call_time_def\<close>)
  then show ?case by blast
next
  case (serve_put s c args f t kv' e)
  then show ?case using inv_serve_put by blast
next
  case (put_reply_lost s c args f t e)
  note own = op_inv_own [OF put_reply_lost(2)]
  have t: "t \<le> os_now s" using own(4) [of c] put_reply_lost(1) by (simp add: call_time_def)
  consider (applied) "filter (open_by c) H = [Open c (log_put args OK) t]" "passed n (os_srv s) args"
    | (missed) "filter (open_by c) H = [Open c (log_put args ErrVersion) t]"
    using own(6) [of c] put_reply_lost(1) by (auto simp: call_ok_def)
  then show ?case
  proof cases
    case applied
    then have "op_inv (Suc n) H (set_call c (Putting args False t) s)"
      by (intro inv_same [OF put_reply_lost(2)]) (use t passed_Suc in \<open>auto simp: call_ok_def call_time_def\<close>)
    then show ?thesis by blast
  next
    case missed
    then have "op_inv (Suc n) (drop_slot c H) (set_call c (Putting args False t) s)"
      by (intro inv_drop [OF put_reply_lost(2) _ skip_missed]) (use t in \<open>auto simp: call_ok_def call_time_def\<close>)
    then show ?thesis by blast
  qed
next
  case (return_put s c args f t e)
  let ?op = "put_operation args (Clerk_Put_reply f e) t (os_now s) (cli c)"
  obtain L where "os_log s = Some L" using op_inv_own(7) [OF return_put(2)] by blast
  then have "?op \<in> set (log_of (finish_call c ?op s))"
    by (simp add: log_of_def finish_call_def log_operation_def OpLog_Append_def)
  then have "op_io ?op \<in> set (map op_io (log_of (finish_call c ?op s)))" by simp
  with return_put(5) have "case op_io ?op of (inp, out) \<Rightarrow> Op inp = 1 \<longrightarrow> OutErr out \<noteq> ErrNoKey"
    unfolding no_put_nokey_def by (rule bspec)
  then have "Clerk_Put_reply f e \<noteq> ErrNoKey" by (simp add: op_io_def put_operation_def log_put_def)
  moreover have "e = OK \<or> e = ErrVersion \<or> e = ErrNoKey" using return_put(1,3) unfolding replies_ok_def by blast
  ultimately have "op_inv (Suc n) (close_slot c ?op H) (finish_call c ?op s)" by (intro inv_return_put [OF return_put(2,1)]) auto
  then show ?case by blast
qed

lemma run_inv:
  assumes "op_run cli n s" and "n \<le> 2 ^ 64" and "no_put_nokey (map op_io (log_of s))"
  shows "(\<exists>H. op_inv n H s) \<and> replies_ok s"
  using assms
proof (induction rule: op_run.induct)
  case (op_start t)
  have "op_inv 0 [] (op_init t)" by (simp add: op_inv_def op_init_def call_ok_def call_time_def slots_of_def)
  then show ?case by (auto simp: replies_ok_def op_init_def)
next
  case (op_more n s s')
  then obtain H where "op_inv n H s" "replies_ok s" using step_log by fastforce
  then show ?case using step_inv [OF op_more.hyps(2)] step_replies [OF op_more.hyps(2)] op_more.prems by simp
qed

section \<open>The log is linearizable\<close>

lemma all_done:
  assumes "\<And>c. filter (open_by c) H = []"
  shows "H = map Done (done_ops H)"
proof -
  have "\<exists>op. x = Done op" if "x \<in> set H" for x
  proof (cases x)
    case (Open c io t)
    then show ?thesis using assms [of c] that by (auto simp: filter_empty_conv)
  qed simp
  then show ?thesis
  proof (induction H)
    case (Cons x H)
    then obtain op where "x = Done op" by auto
    then show ?case using Cons by simp
  qed simp
qed

lemma linearizable_inv:
  assumes inv: "op_inv n H s" and idle: "\<And>c. os_cl s c = Idle" and log: "os_log s = Some L"
  shows "linearizable L"
proof -
  note own = op_inv_own [OF inv]
  define ops where "ops = done_ops H"
  have H: "H = map Done ops" unfolding ops_def by (rule all_done) (use own(6) idle in \<open>simp add: call_ok_def\<close>)
  have "mset ops = mset L" using own(7) log by (simp add: ops_def)
  moreover have "sorted_wrt (\<lambda>x y. \<not> OpReturn y < OpCall x) ops" using own(2) by (simp add: H sorted_wrt_map)
  moreover have "model_run KvModel_Init h \<noteq> None" if part: "h \<in> set (KvModel_Partition (map op_io ops))" for h
  proof -
    obtain k where "h = filter (\<lambda>v. InKey (fst v) = k) (map op_io ops)" using partition_member [OF part] by blast
    then have "h = slots_of k H" by (simp add: slots_of_def H comp_def)
    then show ?thesis using own(5) [of k] by simp
  qed
  ultimately show ?thesis by (auto simp: linearizable_def)
qed

text \<open>C8: The log of concurrent clients is linearizable. However clients' gets and puts overlap and
  whatever requests and replies are lost and repeated: when all clients have returned, the
  operations of the log can be ordered such that an operation that returned before another was
  called comes first, and the sequential model accepts the order, key by key; unless some put was
  answered \<open>ErrNoKey\<close>. (At most 2 to the 64 steps, so that versions do not come round.)\<close>

theorem clerk_logs_linearizable:
  assumes "op_run cli n s" and "n \<le> 2 ^ 64" and "\<forall>c. os_cl s c = Idle" and "os_log s = Some L" and "no_put_nokey (map op_io L)"
  shows "linearizable L"
  using run_inv [OF assms(1,2)] linearizable_inv assms(3-5) by (auto simp: log_of_def)

section \<open>The check\<close>

text \<open>\<open>checkPorcupine\<close>: the checker's verdict within a time limit is \<open>check\<close>; whether the output file could be
  opened and the order in which the annotations' map is visited are arguments. The result is that of
  the test, the annotations drawn, and the annotations' state.\<close>

datatype CheckResult = CheckOk | CheckIllegal | CheckUnknown

definition checkPorcupine ::
  "(operation list \<Rightarrow> CheckResult) \<Rightarrow> string \<Rightarrow> bool \<Rightarrow> string list \<Rightarrow> int \<Rightarrow> int \<Rightarrow> operation list \<Rightarrow> tlog \<Rightarrow>
     unit go \<times> PAnnotation list option \<times> tlog" where
  "checkPorcupine check enabled file_opened order t t' opLog l =
     (let res = check (OpLog_Read opLog) in
      if res = CheckIllegal then
        let (drawn, l1) =
          (if \<not> file_opened then (None, l)
           else if enabled \<noteq> ''never'' then
             (let (xs, l1) = FinalizeAnnotations order t t' ''test failed'' l in (Some xs, l1))
           else (None, l))
        in (Inl (Fatal ''history is not linearizable''), drawn, l1)
      else if enabled = ''always'' \<and> GetAnnotationFinalized l then
        (if \<not> file_opened then (Inr (), None, l)
         else let (xs, l1) = FinalizeAnnotations order t t' ''test passed'' l in (Inr (), Some xs, l1))
      else (Inr (), None, l))"

text \<open>The check of a test passes. With a checker that rejects only histories that are not
  linearizable, \<open>checkPorcupine\<close> never fails on the log of clients that have all returned.\<close>

theorem porcupine_check_passes:
  assumes "op_run cli n s" and "n \<le> 2 ^ 64" and "\<forall>c. os_cl s c = Idle" and "os_log s = Some L" and "no_put_nokey (map op_io L)"
    and sound: "\<And>xs. check xs = CheckIllegal \<Longrightarrow> \<not> linearizable xs"
  shows "fst (checkPorcupine check enabled file_opened order t t' L l) = Inr ()"
proof -
  have "linearizable L" using run_inv [OF assms(1,2)] linearizable_inv assms(3-5) by (auto simp: log_of_def)
  then have "check L \<noteq> CheckIllegal" using sound by blast
  then show ?thesis by (simp add: checkPorcupine_def OpLog_Read_def Let_def case_prod_beta)
qed

text \<open>A check that passes draws nothing, even if drawing is always enabled, as long as the annotations
  have not been finalized before, which only drawing does.\<close>

theorem passed_check_draws_nothing:
  assumes "check (OpLog_Read L) \<noteq> CheckIllegal" and "\<not> GetAnnotationFinalized l"
  shows "checkPorcupine check ''always'' file_opened order t t' L l = (Inr (), None, l)"
  using assms by (simp add: checkPorcupine_def)

section \<open>A run\<close>

text \<open>Client 0's put is applied but its reply is lost; client 1 reads the value; client 0 tries again and
  is answered \<open>ErrMaybe\<close>.\<close>

definition demo_args :: PutArgs where
  "demo_args = \<lparr>PutKey = ''a'', PutValue = ''x'', PutVersion = 0\<rparr>"

definition demo_log :: "operation list" where
  "demo_log = [get_operation ''a'' \<lparr>ReplyValue = ''x'', ReplyVersion = 1, ReplyErr = OK\<rparr> 0 0 1,
     put_operation demo_args ErrMaybe 0 0 0]"

lemma demo_log_runs: "\<exists>s n. op_run int n s \<and> n \<le> 2 ^ 64 \<and> (\<forall>c. os_cl s c = Idle) \<and> os_log s = Some demo_log"
proof -
  define kv where "kv = fst (KVServer_Put MakeKVServer demo_args)"
  let ?r = "\<lparr>ReplyValue = ''x'', ReplyVersion = 1, ReplyErr = OK\<rparr>"
  have p1: "KVServer_Put MakeKVServer demo_args = (kv, OK)" by (simp add: kv_def KVServer_Put_def MakeKVServer_def demo_args_def)
  have p2: "KVServer_Put kv demo_args = (kv, ErrVersion)" by (simp add: kv_def KVServer_Put_def MakeKVServer_def demo_args_def)
  have g: "KVServer_Get kv ''a'' = ?r" by (simp add: kv_def KVServer_Put_def KVServer_Get_def MakeKVServer_def demo_args_def)
  define s0 where "s0 = op_init 0"
  define s1 where "s1 = set_call 0 (Putting demo_args True (os_now s0)) s0"
  define s2 where "s2 = (set_call 0 (PutReplied demo_args True 0 OK) s1)\<lparr>os_srv := kv\<rparr>"
  define s3 where "s3 = set_call 0 (Putting demo_args False 0) s2"
  define s4 where "s4 = set_call 1 (Getting ''a'' (os_now s3)) s3"
  define s5 where "s5 = set_call 1 (GetReplied ''a'' 0 (KVServer_Get (os_srv s4) ''a'')) s4"
  define s6 where "s6 = finish_call 1 (get_operation ''a'' ?r 0 (os_now s5) (int 1)) s5"
  define s7 where "s7 = (set_call 0 (PutReplied demo_args False 0 ErrVersion) s6)\<lparr>os_srv := kv\<rparr>"
  define s8 where "s8 = finish_call 0 (put_operation demo_args (Clerk_Put_reply False ErrVersion) 0 (os_now s7) (int 0)) s7"
  note sd = s0_def s1_def s2_def s3_def s4_def s5_def s6_def s7_def s8_def op_init_def set_call_def finish_call_def
  have r: "op_run int 0 s0" unfolding s0_def by (rule op_start)
  have t1: "op_step int s0 s1" unfolding s1_def by (rule call_put) (simp add: s0_def op_init_def)
  have t2: "op_step int s1 s2" unfolding s2_def by (rule serve_put [where s = s1]) (simp_all add: s1_def s0_def op_init_def set_call_def p1)
  have t3: "op_step int s2 s3" unfolding s3_def by (rule put_reply_lost [where s = s2]) (simp add: s2_def set_call_def)
  have t4: "op_step int s3 s4" unfolding s4_def by (rule call_get) (simp add: sd)
  have t5: "op_step int s4 s5" unfolding s5_def by (rule serve_get) (simp add: sd)
  have t6: "op_step int s5 s6" unfolding s6_def by (rule return_get [where s = s5]) (simp add: s5_def s4_def s3_def s2_def set_call_def g)
  have t7: "op_step int s6 s7" unfolding s7_def
    by (rule serve_put [where s = s6]) (simp_all add: s6_def s5_def s4_def s3_def s2_def set_call_def finish_call_def p2)
  have t8: "op_step int s7 s8" unfolding s8_def by (rule return_put [where s = s7]) (simp add: s7_def set_call_def)
  note op_more [OF op_more [OF op_more [OF op_more [OF op_more [OF op_more [OF op_more [OF op_more [OF r t1] t2] t3] t4] t5] t6] t7] t8]
  then have "op_run int (Suc (Suc (Suc (Suc (Suc (Suc (Suc (Suc 0)))))))) s8" .
  moreover have "\<forall>c. os_cl s8 c = Idle" by (simp add: sd)
  moreover have "os_log s8 = Some demo_log"
    by (simp add: sd demo_log_def log_operation_def OpLog_Append_def Clerk_Put_reply_def)
  ultimately show ?thesis by (intro exI [of _ s8] exI [of _ "Suc (Suc (Suc (Suc (Suc (Suc (Suc (Suc 0)))))))"]) simp
qed

lemma demo_log_nokey: "no_put_nokey (map op_io demo_log)"
  by (simp add: no_put_nokey_def demo_log_def get_operation_def put_operation_def op_io_def log_get_def log_put_def)

theorem clerk_logs_linearizable_witness: "linearizable demo_log"
  using clerk_logs_linearizable demo_log_runs demo_log_nokey by blast

text \<open>A checker that rejects the log of a read of a value nobody wrote, and no other.\<close>

definition demo_bad :: "operation list" where
  "demo_bad = [get_operation ''a'' \<lparr>ReplyValue = ''z'', ReplyVersion = 1, ReplyErr = OK\<rparr> 0 0 1]"

lemma demo_bad_not: "\<not> linearizable demo_bad"
proof
  assume "linearizable demo_bad"
  then obtain H where "mset H = mset demo_bad" "\<forall>h \<in> set (KvModel_Partition (map op_io H)). model_run KvModel_Init h \<noteq> None"
    by (auto simp: linearizable_def)
  then show False
    by (auto simp: demo_bad_def KvModel_Partition_def get_operation_def op_io_def log_get_def KvModel_Step_def KvModel_Init_def)
qed

theorem porcupine_check_passes_witness:
  "fst (checkPorcupine (\<lambda>xs. if xs = demo_bad then CheckIllegal else CheckOk) ''always'' True [] 0 0 demo_log
     \<lparr>an = mkAnnotation, finfo = None\<rparr>) = Inr ()"
proof -
  obtain s n where "op_run int n s" "n \<le> 2 ^ 64" "\<forall>c. os_cl s c = Idle" "os_log s = Some demo_log" using demo_log_runs by blast
  then show ?thesis by (rule porcupine_check_passes [OF _ _ _ _ demo_log_nokey]) (use demo_bad_not in \<open>auto split: if_splits\<close>)
qed

end
