(* ===== verification/KVRaft.thy ===== *)
theory KVRaft
  imports ReplicatedSM OpHistory TesterConfig
begin

text \<open>
  The key/value service over Raft (\<open>kvraft1\<close>) as far as it is written: a server that holds a replicated
  state machine but whose handlers and \<open>DoOp\<close> are empty, a clerk that answers without
  calling anybody, and the set-up of its tests. The results say what this means for a test: the
  server hands back the zero reply, and no history with a put passes the linearizability check.
\<close>

section \<open>The server\<close>

datatype kvr_req = KGet string | KPut PutArgs | KOp

record KVRServer =
  kvr_me :: int
  kvr_dead :: bool
  kvr_rsm :: "(kvr_req, nat) RSM option"

definition kvr_DoOp :: "kvr_req \<Rightarrow> KVRServer \<Rightarrow> 'p option \<times> KVRServer" where
  "kvr_DoOp req kv = (None, kv)"

definition kvr_Snapshot :: "KVRServer \<Rightarrow> nat list" where
  "kvr_Snapshot kv = []"

definition kvr_Restore :: "nat list \<Rightarrow> KVRServer \<Rightarrow> KVRServer" where
  "kvr_Restore bytes kv = kv"

text \<open>A handler fills in the reply its caller made; these do not.\<close>

definition kvr_Get :: "string \<Rightarrow> GetReply \<Rightarrow> KVRServer \<Rightarrow> GetReply \<times> KVRServer" where
  "kvr_Get key reply kv = (reply, kv)"

definition kvr_Put :: "PutArgs \<Rightarrow> Err \<Rightarrow> KVRServer \<Rightarrow> Err \<times> KVRServer" where
  "kvr_Put args reply kv = (reply, kv)"

definition kvr_Kill :: "KVRServer \<Rightarrow> KVRServer" where
  "kvr_Kill kv = kv\<lparr>kvr_dead := True\<rparr>"

definition kvr_killed :: "KVRServer \<Rightarrow> bool" where
  "kvr_killed kv = kvr_dead kv"

definition kvr_StartKVServer ::
  "nat \<Rightarrow> int \<Rightarrow> (kvr_req, nat) storage \<Rightarrow> int \<Rightarrow> tick \<Rightarrow> KVRServer \<times> (kvr_req, nat) Raft" where
  "kvr_StartKVServer nends i ps maxr tk =
     (let r = MakeRSM nends i ps maxr tk; kv = \<lparr>kvr_me = i, kvr_dead = False, kvr_rsm = Some r\<rparr> in (kv, RSM_Raft r))"

section \<open>The clerk\<close>

record kvr_Clerk =
  ck_clnt :: nat
  ck_servers :: "string list"

definition kvr_MakeClerk :: "nat \<Rightarrow> string list \<Rightarrow> kvr_Clerk" where
  "kvr_MakeClerk clnt names = \<lparr>ck_clnt = clnt, ck_servers = names\<rparr>"

definition kvr_Clerk_Get :: "string \<Rightarrow> kvr_Clerk \<Rightarrow> GetReply" where
  "kvr_Clerk_Get key ck = \<lparr>ReplyValue = [], ReplyVersion = 0, ReplyErr = []\<rparr>"

definition kvr_Clerk_Put :: "PutArgs \<Rightarrow> kvr_Clerk \<Rightarrow> Err" where
  "kvr_Clerk_Put args ck = []"

section \<open>The tests' set-up\<close>

record kvr_Test =
  part :: string
  nclients :: int
  nservers :: nat
  crash :: bool
  partitions :: bool
  kvr_maxraftstate :: int
  randomkeys :: bool

definition makeTitle :: "kvr_Test \<Rightarrow> string" where
  "makeTitle ts =
     (let title = ''Test: '';
          title = (if crash ts then title @ ''restarts, '' else title);
          title = (if partitions ts then title @ ''partitions, '' else title);
          title = (if kvr_maxraftstate ts \<noteq> -1 then title @ ''snapshots, '' else title);
          title = (if randomkeys ts then title @ ''random keys, '' else title);
          title = (if nclients ts > 1 then title @ ''many clients'' else title @ ''one client'')
      in title @ '' ('' @ part ts @ '')'')"

text \<open>\<open>MakeClerk\<close> and \<open>MakeClerkTo\<close>: the clerk knows all servers; the client of the second reaches only some. The
  group of the servers must be there.\<close>

definition kvr_Test_MakeClerk :: "('r, 's, 'o, 'a, 'q) Config \<Rightarrow> (kvr_Clerk \<times> ('r, 's, 'o, 'a, 'q) Config) go" where
  "kvr_Test_MakeClerk cfg =
     go_bind (MakeClient (cfg_clnts cfg)) (\<lambda>(clnt, cs).
       case Config_Group GRP0 cfg of
         None \<Rightarrow> Inl NilDereference
       | Some sg \<Rightarrow> Inr (kvr_MakeClerk clnt (SrvNames sg), cfg\<lparr>cfg_clnts := cs\<rparr>))"

definition kvr_MakeClerkTo :: "int list \<Rightarrow> ('r, 's, 'o, 'a, 'q) Config \<Rightarrow> (kvr_Clerk \<times> ('r, 's, 'o, 'a, 'q) Config) go" where
  "kvr_MakeClerkTo to cfg =
     (case Config_Group GRP0 cfg of
        None \<Rightarrow> Inl NilDereference
      | Some sg \<Rightarrow>
          go_bind (SrvNamesTo to sg) (\<lambda>ns.
          go_map (\<lambda>(clnt, cs). (kvr_MakeClerk clnt (SrvNames sg), cfg\<lparr>cfg_clnts := cs\<rparr>)) (MakeClientTo (Some ns) (cfg_clnts cfg))))"

definition kvr_DeleteClerk :: "kvr_Clerk \<Rightarrow> ('r, 's, 'o, 'a, 'q) Config \<Rightarrow> ('r, 's, 'o, 'a, 'q) Config go" where
  "kvr_DeleteClerk ck cfg =
     go_map (\<lambda>(cs, rn). cfg\<lparr>cfg_clnts := cs, cfg_world := (cfg_world cfg)\<lparr>rnet := rn\<rparr>\<rparr>)
       (DeleteClient (ck_clnt ck) (cfg_clnts cfg) (rnet (cfg_world cfg)))"

definition kvr_MakeTest ::
  "(nat \<Rightarrow> nat \<Rightarrow> string) \<Rightarrow> (nat \<Rightarrow> nat \<Rightarrow> string) \<Rightarrow> int \<Rightarrow> int \<Rightarrow> ('o, 'a, 'q) FstartServer \<Rightarrow> bool \<Rightarrow> kvr_Test \<Rightarrow>
     (string \<times> ('r, 's, 'o, 'a, 'q) Config) go" where
  "kvr_MakeTest rnd rnd' now now' start rel ts =
     go_map (Begin now' (makeTitle ts)) (MakeConfig rnd rnd' now (nservers ts) rel start)"

section \<open>What a test sees\<close>

lemma zero_put_rejected: "\<not> fst (KvModel_Step st (fst (log_put args [])) (snd (log_put args [])))"
  by (simp add: KvModel_Step_def log_put_def err_defs)

lemma model_run_rejects: "(inp, out) \<in> set h \<Longrightarrow> (\<And>st. \<not> fst (KvModel_Step st inp out)) \<Longrightarrow> model_run st h = None"
proof (induction h arbitrary: st)
  case (Cons x h)
  obtain i u where x: "x = (i, u)" by (cases x)
  obtain b st' where s: "KvModel_Step st i u = (b, st')" by (cases "KvModel_Step st i u")
  have "\<not> b" if "(inp, out) = x" using Cons.prems(2) [of st] that s x by simp
  then show ?case using Cons x s by (auto split: bool.splits option.splits)
qed simp

text \<open>A put through this clerk is never acceptable. Whatever else a test logged, and whatever the times, a log with a
  put answered by the clerk over Raft is not linearizable, so a checker that rejects every history
  that is not linearizable fails the test.\<close>

theorem kvraft_put_fails_check:
  assumes "put_operation args (kvr_Clerk_Put args ck) start stop cli \<in> set L"
    and "\<And>xs. \<not> linearizable xs \<Longrightarrow> check xs = CheckIllegal"
  shows "\<not> linearizable L \<and> fst (checkPorcupine check viz file_opened order t t' L l) = Inl (Fatal ''history is not linearizable'')"
proof -
  have "\<not> linearizable L"
  proof
    assume "linearizable L"
    then obtain H where H: "mset H = mset L" "\<forall>h \<in> set (KvModel_Partition (map op_io H)). model_run KvModel_Init h \<noteq> None"
      by (auto simp: linearizable_def)
    let ?io = "log_put args []"
    have "put_operation args [] start stop cli \<in> set H" using assms(1) H(1) by (metis kvr_Clerk_Put_def set_mset_mset)
    then have io: "?io \<in> set (map op_io H)" by (force simp: op_io_def put_operation_def)
    let ?h = "filter (\<lambda>v. InKey (fst v) = InKey (fst ?io)) (map op_io H)"
    have "InKey (fst ?io) \<in> set (sort (remdups (map (\<lambda>v. InKey (fst v)) (map op_io H))))"
      using imageI [OF io, of "\<lambda>v. InKey (fst v)"] by (simp add: image_image)
    then have "?h \<in> set (KvModel_Partition (map op_io H))" unfolding KvModel_Partition_def Let_def set_map by (rule imageI)
    moreover have "?io \<in> set ?h" using io by simp
    ultimately show False using H(2) model_run_rejects [of "fst ?io" "snd ?io" ?h] zero_put_rejected by (metis prod.collapse)
  qed
  then show ?thesis using assms(2) by (simp add: checkPorcupine_def OpLog_Read_def Let_def case_prod_beta)
qed

theorem kvraft_put_fails_check_witness:
  "fst (checkPorcupine (\<lambda>xs. if linearizable xs then CheckOk else CheckIllegal) ''never'' True [] 5 6
     [put_operation \<lparr>PutKey = ''k'', PutValue = ''v'', PutVersion = 0\<rparr>
        (kvr_Clerk_Put \<lparr>PutKey = ''k'', PutValue = ''v'', PutVersion = 0\<rparr> (kvr_MakeClerk 0 [''s''])) 1 2 0] \<lparr>an = mkAnnotation, finfo = None\<rparr>)
   = Inl (Fatal ''history is not linearizable'')"
  by (rule kvraft_put_fails_check [THEN conjunct2]) auto

text \<open>The service itself: a request that reaches a server comes back with the reply as it was sent, and a server
  executes and restores nothing, so two replicas that differ stay different.\<close>

lemma kvr_server_is_inert:
  "kvr_Get key reply kv = (reply, kv)" "kvr_Put args err kv = (err, kv)" "snd (kvr_DoOp req kv) = kv"
  "kvr_Restore (kvr_Snapshot kv) kv' = kv'"
  by (simp_all add: kvr_Get_def kvr_Put_def kvr_DoOp_def kvr_Restore_def)

text \<open>A restricted clerk is refused if one of the servers does not exist.\<close>

lemma SrvNamesTo_range: "SrvNamesTo to sg = Inr ns \<Longrightarrow> \<forall>i \<in> set to. 0 \<le> i \<and> i < int (length (servernames sg))"
proof -
  have "\<forall>i \<in> set to. 0 \<le> i \<and> i < int (length (servernames sg))"
    if "go_fold (\<lambda>i ns. go_map (\<lambda>n. ns @ [n]) (go_index (servernames sg) i)) to acc = Inr ns" for acc
    using that
  proof (induction to arbitrary: acc)
    case (Cons i to)
    then obtain x where "go_index (servernames sg) i = Inr x" by (auto simp: go_bind_eq_Inr go_map_eq_Inr)
    then have "0 \<le> i \<and> i < int (length (servernames sg))" by (simp add: go_index_def split: if_splits)
    then show ?case using Cons by simp
  qed simp
  then show "SrvNamesTo to sg = Inr ns \<Longrightarrow> \<forall>i \<in> set to. 0 \<le> i \<and> i < int (length (servernames sg))"
    unfolding SrvNamesTo_def .
qed

lemma MakeClerkTo_servers:
  assumes "kvr_MakeClerkTo to cfg = Inr (ck, cfg')"
  shows "\<exists>sg. Config_Group GRP0 cfg = Some sg \<and> ck_servers ck = SrvNames sg \<and> (\<forall>i \<in> set to. 0 \<le> i \<and> i < int (length (servernames sg)))"
  using assms SrvNamesTo_range by (fastforce simp: kvr_MakeClerkTo_def kvr_MakeClerk_def go_bind_eq_Inr go_map_eq_Inr split: option.splits)

end
