(* ===== verification/ShardCfg.thy ===== *)
theory ShardCfg
  imports Prelude
begin

text \<open>
  Shard configurations (\<open>shardkv1/shardcfg/shardcfg.go\<close>): the hash that places a key in a shard,
  the assignment of shards to replica groups, \<open>Join\<close> and \<open>Leave\<close>, and \<open>Rebalance\<close> with its
  loop that moves one shard at a time from the most to the least loaded group.

  \<open>Shards\<close> is the Go array \<open>[NShards]Tgid\<close>, a list of length 12; \<open>Groups\<close> is a Go map, an
  association list with distinct keys. Go iterates over a map in any order, so the argument of
  \<open>Join\<close> is the list in the order the iteration happens to take; \<open>analyze\<close> sorts its keys.
\<close>

section \<open>Configurations\<close>

type_synonym Tgid = int
type_synonym Tshid = int
type_synonym Tnum = int

definition NShards :: nat where "NShards = 12"

definition Key2Shard :: "string \<Rightarrow> Tshid" where
  "Key2Shard key = uint (fnv32a key) mod int NShards"

record ShardConfig =
  Num :: Tnum
  Shards :: "Tgid list"
  Groups :: "(Tgid \<times> string list) list"

definition MakeShardConfig :: ShardConfig where
  "MakeShardConfig = \<lparr>Num = 0, Shards = replicate NShards 0, Groups = []\<rparr>"

abbreviation gids :: "ShardConfig \<Rightarrow> Tgid set" where
  "gids c \<equiv> fst ` set (Groups c)"

text \<open>A configuration value of the Go types.\<close>

definition wf_cfg :: "ShardConfig \<Rightarrow> bool" where
  "wf_cfg c \<longleftrightarrow> length (Shards c) = NShards \<and> distinct (map fst (Groups c))"

text \<open>\<open>String\<close> and \<open>FromString\<close>; the JSON library is an argument, \<open>None\<close> its error.\<close>

definition ShardConfig_String :: "(ShardConfig \<Rightarrow> string option) \<Rightarrow> ShardConfig \<Rightarrow> string go" where
  "ShardConfig_String marshal cfg = (case marshal cfg of None \<Rightarrow> Inl (Fatal ''Unmarshall err'') | Some b \<Rightarrow> Inr b)"

definition FromString :: "(string \<Rightarrow> ShardConfig option) \<Rightarrow> string \<Rightarrow> ShardConfig go" where
  "FromString unmarshal s = (case unmarshal s of None \<Rightarrow> Inl (Fatal ''Unmarshall err'') | Some scfg \<Rightarrow> Inr scfg)"

definition ShardConfig_Copy :: "ShardConfig \<Rightarrow> ShardConfig" where
  "ShardConfig_Copy cfg =
     MakeShardConfig\<lparr>Num := Num cfg, Shards := Shards cfg,
       Groups := map (\<lambda>(k, srvs). (k, map (\<lambda>i. srvs ! i) [0..<length srvs])) (Groups cfg)\<rparr>"

section \<open>Load analysis\<close>

definition shard_counts :: "Tgid list \<Rightarrow> Tgid \<Rightarrow> int" where
  "shard_counts shards = fold (\<lambda>g m. m(g := m g + 1)) shards (\<lambda>_. 0)"

definition analyze_step ::
  "(Tgid \<Rightarrow> int) \<Rightarrow> Tgid \<Rightarrow> Tgid \<times> int \<times> Tgid \<times> int \<Rightarrow> Tgid \<times> int \<times> Tgid \<times> int" where
  "analyze_step counts g = (\<lambda>(mg, mn, lg, ln).
     let (ln', lg') = (if counts g < ln then (counts g, g) else (ln, lg));
         (mn', mg') = (if counts g > mn then (counts g, g) else (mn, mg))
     in (mg', mn', lg', ln'))"

definition analyze :: "ShardConfig \<Rightarrow> Tgid \<times> int \<times> Tgid \<times> int" where
  "analyze c = fold (analyze_step (shard_counts (Shards c))) (sort (map fst (Groups c))) (-1, -1, -1, 257)"

definition least :: "ShardConfig \<Rightarrow> Tgid" where
  "least c = (case analyze c of (_, _, lg, _) \<Rightarrow> lg)"

section \<open>Rebalance\<close>

text \<open>\<open>for s, g := range c.Shards\<close> ranges over a copy of the array.\<close>

definition assign_unassigned :: "ShardConfig \<Rightarrow> ShardConfig" where
  "assign_unassigned c =
     fold (\<lambda>(s, g) c. if g \<in> gids c then c else c\<lparr>Shards := (Shards c)[s := least c]\<rparr>)
       (enumerate 0 (Shards c)) c"

fun move_first :: "Tgid \<Rightarrow> Tgid \<Rightarrow> Tgid list \<Rightarrow> Tgid list" where
  "move_first mg lg [] = []"
| "move_first mg lg (g # gs) = (if g = mg then lg # gs else g # move_first mg lg gs)"

definition move_one :: "ShardConfig \<Rightarrow> ShardConfig" where
  "move_one c = (case analyze c of (mg, mn, lg, ln) \<Rightarrow> c\<lparr>Shards := move_first mg lg (Shards c)\<rparr>)"

definition unbalanced :: "ShardConfig \<Rightarrow> bool" where
  "unbalanced c \<longleftrightarrow> (case analyze c of (mg, mn, lg, ln) \<Rightarrow> \<not> mn < ln + 2)"

lemma shard_counts_eq: "shard_counts shards g = int (count_list shards g)"
proof -
  have "fold (\<lambda>g m. m(g := m g + 1)) shards m g = m g + int (count_list shards g)" for m
    by (induction shards arbitrary: m) auto
  then show ?thesis by (simp add: shard_counts_def)
qed

lemma analyze_step_apply:
  "analyze_step counts g (mg, mn, lg, ln) =
     (if counts g > mn then g else mg, if counts g > mn then counts g else mn,
      if counts g < ln then g else lg, if counts g < ln then counts g else ln)"
  by (simp add: analyze_step_def)

text \<open>What the scan over the sorted groups finds: a group of largest and one of smallest load.\<close>

lemma analyze_scan:
  assumes "\<And>g. g \<in> set gs \<Longrightarrow> counts g < 257" and "gs \<noteq> []"
    and "\<And>g. g \<in> set gs \<Longrightarrow> 0 \<le> counts g"
  shows "\<exists>mg lg. fold (analyze_step counts) gs (mg0, -1, lg0, 257) = (mg, counts mg, lg, counts lg) \<and>
     mg \<in> set gs \<and> lg \<in> set gs \<and> (\<forall>g \<in> set gs. counts lg \<le> counts g \<and> counts g \<le> counts mg)"
  using assms
proof (induction gs rule: rev_induct)
  case Nil
  then show ?case by simp
next
  case (snoc x gs)
  show ?case
  proof (cases "gs = []")
    case True
    then show ?thesis using snoc.prems by (auto simp: analyze_step_apply)
  next
    case False
    have pre: "g \<in> set gs \<Longrightarrow> counts g < 257" "g \<in> set gs \<Longrightarrow> 0 \<le> counts g" for g
      using snoc.prems by auto
    obtain mg lg where IH: "fold (analyze_step counts) gs (mg0, -1, lg0, 257) = (mg, counts mg, lg, counts lg)"
      "mg \<in> set gs" "lg \<in> set gs" "\<forall>g \<in> set gs. counts lg \<le> counts g \<and> counts g \<le> counts mg"
      using snoc.IH [OF pre(1) False pre(2)] by blast
    let ?mg = "if counts x > counts mg then x else mg" and ?lg = "if counts x < counts lg then x else lg"
    have "fold (analyze_step counts) (gs @ [x]) (mg0, -1, lg0, 257) = (?mg, counts ?mg, ?lg, counts ?lg)"
      using IH(1) by (simp add: analyze_step_apply)
    moreover have "?mg \<in> set (gs @ [x])" "?lg \<in> set (gs @ [x])"
      "\<forall>g \<in> set (gs @ [x]). counts ?lg \<le> counts g \<and> counts g \<le> counts ?mg"
      using IH(2-4) by auto
    ultimately show ?thesis by blast
  qed
qed

lemma count_list_le_length: "count_list xs x \<le> length xs"
  by (induction xs) auto

lemma analyze_spec:
  assumes "length (Shards c) = NShards" and "Groups c \<noteq> []"
  shows "\<exists>mg lg. analyze c = (mg, int (count_list (Shards c) mg), lg, int (count_list (Shards c) lg)) \<and>
    mg \<in> gids c \<and> lg \<in> gids c \<and>
    (\<forall>g \<in> gids c. count_list (Shards c) lg \<le> count_list (Shards c) g \<and>
                     count_list (Shards c) g \<le> count_list (Shards c) mg)"
proof -
  have small: "shard_counts (Shards c) g < 257" for g
    using count_list_le_length [of "Shards c" g] assms(1) by (simp add: shard_counts_eq NShards_def)
  have ne: "sort (map fst (Groups c)) \<noteq> []"
    using assms(2) by (metis length_0_conv length_map length_sort)
  have "\<exists>mg lg. analyze c = (mg, shard_counts (Shards c) mg, lg, shard_counts (Shards c) lg) \<and>
     mg \<in> gids c \<and> lg \<in> gids c \<and>
     (\<forall>g \<in> gids c. shard_counts (Shards c) lg \<le> shard_counts (Shards c) g \<and>
                      shard_counts (Shards c) g \<le> shard_counts (Shards c) mg)"
    using analyze_scan [of "sort (map fst (Groups c))" "shard_counts (Shards c)" "-1" "-1"] small ne
    by (simp add: analyze_def shard_counts_eq)
  then show ?thesis by (simp add: shard_counts_eq)
qed

lemma analyze_no_groups: "Groups c = [] \<Longrightarrow> analyze c = (-1, -1, -1, 257)"
  by (simp add: analyze_def)

section \<open>Moving one shard\<close>

lemma length_move_first [simp]: "length (move_first mg lg xs) = length xs"
  by (induction xs) auto

lemma set_move_first: "set (move_first mg lg xs) \<subseteq> insert lg (set xs)"
  by (induction xs) auto

lemma count_move_first:
  assumes "mg \<in> set xs" and "mg \<noteq> lg"
  shows "count_list xs g = count_list (move_first mg lg xs) g + (if g = mg then 1 else 0) - (if g = lg then 1 else 0)"
    and "count_list (move_first mg lg xs) lg = Suc (count_list xs lg)"
  using assms by (induction xs) (auto split: if_splits)

definition load :: "ShardConfig \<Rightarrow> nat" where
  "load c = (\<Sum>g \<in> gids c. (count_list (Shards c) g)\<^sup>2)"

lemma squares_decrease:
  fixes a b :: nat
  assumes "b + 2 \<le> a"
  shows "(a - 1)\<^sup>2 + (b + 1)\<^sup>2 < a\<^sup>2 + b\<^sup>2"
proof -
  obtain d where a: "a = b + 2 + d" using assms le_Suc_ex by blast
  show ?thesis unfolding a by (simp add: power2_eq_square algebra_simps)
qed

text \<open>One move strictly lowers the sum of the squared loads.\<close>

lemma move_one_load:
  assumes len: "length (Shards c) = NShards" and un: "unbalanced c"
  shows "load (move_one c) < load c"
proof -
  have ne: "Groups c \<noteq> []" using un by (auto simp: unbalanced_def analyze_no_groups)
  obtain mg lg where an: "analyze c = (mg, int (count_list (Shards c) mg), lg, int (count_list (Shards c) lg))"
    and mem: "mg \<in> gids c" "lg \<in> gids c"
    using analyze_spec [OF len ne] by metis
  let ?n = "count_list (Shards c)" and ?xs = "move_first mg lg (Shards c)"
  have gap: "?n lg + 2 \<le> ?n mg" using un an by (simp add: unbalanced_def)
  then have "mg \<noteq> lg" by auto
  have inS: "mg \<in> set (Shards c)" using gap count_notin [of mg "Shards c"] by (cases "mg \<in> set (Shards c)") auto
  note cnt = count_move_first [OF inS \<open>mg \<noteq> lg\<close>]
  let ?rest = "gids c - {mg, lg}"
  have split: "(\<Sum>g \<in> gids c. (f g :: nat)) = f mg + f lg + sum f ?rest" for f
  proof -
    have "gids c = insert mg (insert lg ?rest)" using mem by auto
    then have "sum f (gids c) = sum f (insert mg (insert lg ?rest))" by simp
    also have "\<dots> = f mg + f lg + sum f ?rest" using \<open>mg \<noteq> lg\<close> by simp
    finally show ?thesis .
  qed
  have same: "(\<Sum>g \<in> ?rest. (count_list ?xs g)\<^sup>2) = (\<Sum>g \<in> ?rest. (?n g)\<^sup>2)"
    by (rule sum.cong) (use cnt(1) in auto)
  have "count_list ?xs mg = ?n mg - 1" using cnt(1) [of mg] \<open>mg \<noteq> lg\<close> by simp
  moreover have "count_list ?xs lg = ?n lg + 1" using cnt(2) by simp
  ultimately have "(count_list ?xs mg)\<^sup>2 + (count_list ?xs lg)\<^sup>2 < (?n mg)\<^sup>2 + (?n lg)\<^sup>2"
    using squares_decrease [OF gap] by simp
  moreover have "load (move_one c) = (count_list ?xs mg)\<^sup>2 + (count_list ?xs lg)\<^sup>2 + (\<Sum>g \<in> ?rest. (?n g)\<^sup>2)"
    using split [of "\<lambda>g. (count_list ?xs g)\<^sup>2"] same by (simp add: load_def move_one_def an)
  moreover have "load c = (?n mg)\<^sup>2 + (?n lg)\<^sup>2 + (\<Sum>g \<in> ?rest. (?n g)\<^sup>2)"
    using split [of "\<lambda>g. (?n g)\<^sup>2"] by (simp add: load_def)
  ultimately show ?thesis by simp
qed

lemma move_one_fields [simp]:
  "Groups (move_one c) = Groups c" "Num (move_one c) = Num c"
  "length (Shards (move_one c)) = length (Shards c)"
  by (auto simp: move_one_def split: prod.splits)

text \<open>The \<open>for\<close> loop of \<open>Rebalance\<close>. Its guard includes that the array has its declared length,
  which lists of another length do not represent.\<close>

function balance_loop :: "ShardConfig \<Rightarrow> ShardConfig" where
  "balance_loop c =
     (if length (Shards c) = NShards \<and> unbalanced c then balance_loop (move_one c) else c)"
  by pat_completeness auto
termination
  by (relation "measure load") (simp_all add: move_one_load)

declare balance_loop.simps [simp del]

definition Rebalance :: "ShardConfig \<Rightarrow> ShardConfig" where
  "Rebalance c =
     (if length (Groups c) < 1 then c\<lparr>Shards := map (\<lambda>_. 0) (Shards c)\<rparr>
      else balance_loop (assign_unassigned c))"

section \<open>Join, Leave and lookups\<close>

definition shares_server :: "string list \<Rightarrow> ShardConfig \<Rightarrow> bool" where
  "shares_server srvs cfg \<longleftrightarrow> (\<exists>(xgid, xservers) \<in> set (Groups cfg). \<exists>s1 \<in> set xservers. \<exists>s2 \<in> set srvs. s1 = s2)"

text \<open>The loop over the new groups. An early \<open>return false\<close> leaves the groups added so far.\<close>

fun Join_loop :: "(Tgid \<times> string list) list \<Rightarrow> bool \<Rightarrow> ShardConfig \<Rightarrow> (bool \<times> ShardConfig) go" where
  "Join_loop [] changed cfg =
     (if \<not> changed then Inl (Fatal ''Join but no change'')
      else Inr (True, cfg\<lparr>Num := Num cfg + 1\<rparr>))"
| "Join_loop ((gid, srvs) # rest) changed cfg =
     (if gid \<in> gids cfg then Inr (False, cfg)
      else if shares_server srvs cfg then Inl (Fatal ''Join puts server in two groups'')
      else Join_loop rest True (cfg\<lparr>Groups := Groups cfg @ [(gid, srvs)]\<rparr>))"

definition Join :: "(Tgid \<times> string list) list \<Rightarrow> ShardConfig \<Rightarrow> (bool \<times> ShardConfig) go" where
  "Join servers cfg = Join_loop servers False cfg"

fun Leave_loop :: "Tgid list \<Rightarrow> bool \<Rightarrow> ShardConfig \<Rightarrow> (bool \<times> ShardConfig) go" where
  "Leave_loop [] changed cfg =
     (if \<not> changed then Inl (Fatal ''Leave but no change'')
      else Inr (True, cfg\<lparr>Num := Num cfg + 1\<rparr>))"
| "Leave_loop (gid # rest) changed cfg =
     (if gid \<notin> gids cfg then Inr (False, cfg)
      else Leave_loop rest True (cfg\<lparr>Groups := filter (\<lambda>(k, _). k \<noteq> gid) (Groups cfg)\<rparr>))"

definition Leave :: "Tgid list \<Rightarrow> ShardConfig \<Rightarrow> (bool \<times> ShardConfig) go" where
  "Leave gs cfg = Leave_loop gs False cfg"

definition JoinBalance :: "(Tgid \<times> string list) list \<Rightarrow> ShardConfig \<Rightarrow> (bool \<times> ShardConfig) go" where
  "JoinBalance servers cfg =
     go_map (\<lambda>(ok, c). if \<not> ok then (False, c) else (True, Rebalance c)) (Join servers cfg)"

definition LeaveBalance :: "Tgid list \<Rightarrow> ShardConfig \<Rightarrow> (bool \<times> ShardConfig) go" where
  "LeaveBalance gs cfg =
     go_map (\<lambda>(ok, c). if \<not> ok then (False, c) else (True, Rebalance c)) (Leave gs cfg)"

text \<open>\<open>GidServers\<close> indexes the array with the shard and the map with the group found there.\<close>

definition GidServers :: "ShardConfig \<Rightarrow> Tshid \<Rightarrow> (Tgid \<times> string list \<times> bool) go" where
  "GidServers cfg sh =
     go_map (\<lambda>gid. case map_of (Groups cfg) gid of
                     None \<Rightarrow> (gid, [], False) | Some srvs \<Rightarrow> (gid, srvs, True))
       (go_index (Shards cfg) sh)"

definition IsMember :: "ShardConfig \<Rightarrow> Tgid \<Rightarrow> bool" where
  "IsMember cfg gid \<longleftrightarrow> (\<exists>g \<in> set (Shards cfg). g = gid)"

text \<open>\<open>CheckConfig\<close> stops the test at the first check that fails.\<close>

definition CheckConfig :: "ShardConfig \<Rightarrow> Tgid list \<Rightarrow> unit go" where
  "CheckConfig cfg groups =
     (if length (Groups cfg) \<noteq> length groups then Inl (Fatal ''wrong number of groups'')
      else if \<exists>g \<in> set groups. g \<notin> gids cfg then Inl (Fatal ''missing group'')
      else if length groups > 0 \<and> (\<exists>g \<in> set (Shards cfg). g \<notin> gids cfg) then Inl (Fatal ''invalid group'')
      else
        let counts = shard_counts (Shards cfg);
            (mn, mx) = fold (\<lambda>g (mn, mx). (if counts g < mn then counts g else mn,
                                            if counts g > mx then counts g else mx))
                         (map fst (Groups cfg)) (257, 0)
        in if mx > mn + 1 then Inl (Fatal ''max too much larger than min'') else Inr ())"

section \<open>The phases of Rebalance\<close>

lemma least_member: "length (Shards c) = NShards \<Longrightarrow> Groups c \<noteq> [] \<Longrightarrow> least c \<in> gids c"
  using analyze_spec [of c] by (auto simp: least_def)

lemma assign_fold:
  fixes ps :: "(nat \<times> Tgid) list" and c :: ShardConfig
  defines "F \<equiv> \<lambda>(s, g) c. if g \<in> gids c then c else c\<lparr>Shards := (Shards c)[s := least c]\<rparr>"
  assumes "length (Shards c) = NShards" and "Groups c \<noteq> []"
    and "\<forall>(s, g) \<in> set ps. s < NShards \<and> Shards c ! s = g" and "distinct (map fst ps)"
  shows "Groups (fold F ps c) = Groups c \<and> Num (fold F ps c) = Num c \<and>
    length (Shards (fold F ps c)) = NShards \<and>
    (\<forall>s \<in> fst ` set ps. Shards (fold F ps c) ! s \<in> gids c) \<and>
    (\<forall>s. s \<notin> fst ` set ps \<longrightarrow> Shards (fold F ps c) ! s = Shards c ! s)"
  using assms(2-5)
proof (induction ps arbitrary: c)
  case Nil
  then show ?case by simp
next
  case (Cons a ps)
  obtain s g where a: "a = (s, g)" by (cases a)
  let ?c1 = "F (s, g) c"
  have s: "s < NShards" "Shards c ! s = g" "s \<notin> fst ` set ps" using Cons.prems(3,4) by (auto simp: a)
  have c1: "Groups ?c1 = Groups c" "Num ?c1 = Num c" "length (Shards ?c1) = NShards"
    "\<And>t. t \<noteq> s \<Longrightarrow> Shards ?c1 ! t = Shards c ! t"
    using Cons.prems(1) by (auto simp: F_def)
  have c1s: "Shards ?c1 ! s \<in> gids c"
    using s Cons.prems(1,2) least_member [of c] by (auto simp: F_def)
  have pre: "\<forall>(t, h) \<in> set ps. t < NShards \<and> Shards ?c1 ! t = h"
  proof clarify
    fix t h assume th: "(t, h) \<in> set ps"
    then have "t \<noteq> s" using s(3) by (metis fst_conv image_eqI)
    then show "t < NShards \<and> Shards ?c1 ! t = h" using th Cons.prems(3) c1(4) by auto
  qed
  note IH = Cons.IH [OF c1(3) _ pre]
  show ?case using IH Cons.prems(2,4) c1 c1s s by (simp add: a)
qed

lemma assign_unassigned_spec:
  assumes "length (Shards c) = NShards" and "Groups c \<noteq> []"
  shows "Groups (assign_unassigned c) = Groups c \<and> Num (assign_unassigned c) = Num c \<and>
    length (Shards (assign_unassigned c)) = NShards \<and> set (Shards (assign_unassigned c)) \<subseteq> gids c"
proof -
  let ?ps = "enumerate 0 (Shards c)"
  have fsts: "map fst ?ps = [0..<NShards]" using assms(1) by simp
  have "\<forall>(s, g) \<in> set ?ps. s < NShards \<and> Shards c ! s = g"
    using assms(1) by (auto simp: enumerate_eq_zip in_set_zip)
  moreover have "distinct (map fst ?ps)" unfolding fsts by simp
  moreover have "fst ` set ?ps = {0..<NShards}" using arg_cong [OF fsts, of set] unfolding set_map by simp
  ultimately show ?thesis using assign_fold [OF assms, of ?ps]
    by (auto simp: assign_unassigned_def in_set_conv_nth)
qed

lemma assign_unassigned_id:
  assumes "set (Shards c) \<subseteq> gids c"
  shows "assign_unassigned c = c"
proof -
  have "fold (\<lambda>(s, g) c. if g \<in> gids c then c else c\<lparr>Shards := (Shards c)[s := least c]\<rparr>) ps c = c"
    if "snd ` set ps \<subseteq> gids c" for ps :: "(nat \<times> Tgid) list"
    using that by (induction ps) auto
  then show ?thesis using assms
    by (simp add: assign_unassigned_def flip: set_map)
qed

definition spread :: "ShardConfig \<Rightarrow> bool" where
  "spread c \<longleftrightarrow> (\<forall>g \<in> gids c. \<forall>h \<in> gids c. count_list (Shards c) g \<le> count_list (Shards c) h + 1)"

lemma unbalanced_iff:
  assumes "length (Shards c) = NShards" and "Groups c \<noteq> []"
  shows "unbalanced c \<longleftrightarrow> \<not> spread c"
proof -
  obtain mg lg where an: "analyze c = (mg, int (count_list (Shards c) mg), lg, int (count_list (Shards c) lg))"
    and mem: "mg \<in> gids c" "lg \<in> gids c"
    and ext: "\<forall>g \<in> gids c. count_list (Shards c) lg \<le> count_list (Shards c) g \<and>
                          count_list (Shards c) g \<le> count_list (Shards c) mg"
    using analyze_spec [OF assms] by metis
  have "spread c \<longleftrightarrow> count_list (Shards c) mg \<le> count_list (Shards c) lg + 1"
  proof
    assume "spread c"
    then show "count_list (Shards c) mg \<le> count_list (Shards c) lg + 1"
      using mem unfolding spread_def by blast
  next
    assume gap: "count_list (Shards c) mg \<le> count_list (Shards c) lg + 1"
    show "spread c" unfolding spread_def
    proof (intro ballI)
      fix g h assume "g \<in> gids c" "h \<in> gids c"
      then have "count_list (Shards c) g \<le> count_list (Shards c) mg"
        and "count_list (Shards c) lg \<le> count_list (Shards c) h" using ext by blast+
      then show "count_list (Shards c) g \<le> count_list (Shards c) h + 1" using gap by linarith
    qed
  qed
  then show ?thesis by (auto simp: unbalanced_def an)
qed

lemma move_one_set:
  assumes "length (Shards c) = NShards" and "Groups c \<noteq> []" and "set (Shards c) \<subseteq> gids c"
  shows "set (Shards (move_one c)) \<subseteq> gids c"
proof -
  obtain mg mn lg ln where an: "analyze c = (mg, mn, lg, ln)" and "lg \<in> gids c"
    using analyze_spec [OF assms(1,2)] by auto
  then show ?thesis using set_move_first [of mg lg "Shards c"] assms(3) by (auto simp: move_one_def)
qed

lemma balance_loop_spec:
  assumes "length (Shards c) = NShards" and "Groups c \<noteq> []" and "set (Shards c) \<subseteq> gids c"
  shows "Groups (balance_loop c) = Groups c \<and> Num (balance_loop c) = Num c \<and>
    length (Shards (balance_loop c)) = NShards \<and> set (Shards (balance_loop c)) \<subseteq> gids c \<and>
    spread (balance_loop c)"
  using assms
proof (induction c rule: balance_loop.induct)
  case (1 c)
  show ?case
  proof (cases "unbalanced c")
    case True
    have "set (Shards (move_one c)) \<subseteq> gids (move_one c)" using move_one_set [OF "1.prems"] by simp
    then show ?thesis using "1.IH" True "1.prems" by (simp add: balance_loop.simps [of c])
  next
    case False
    then show ?thesis using "1.prems" unbalanced_iff [of c] by (simp add: balance_loop.simps [of c])
  qed
qed

lemma Rebalance_spec:
  assumes "wf_cfg c" and "Groups c \<noteq> []"
  shows "Groups (Rebalance c) = Groups c \<and> Num (Rebalance c) = Num c \<and> wf_cfg (Rebalance c) \<and>
    set (Shards (Rebalance c)) \<subseteq> gids c \<and> spread (Rebalance c)"
proof -
  let ?a = "assign_unassigned c"
  have a: "Groups ?a = Groups c" "Num ?a = Num c" "length (Shards ?a) = NShards"
    "set (Shards ?a) \<subseteq> gids c"
    using assign_unassigned_spec [of c] assms by (auto simp: wf_cfg_def)
  have "Groups (balance_loop ?a) = Groups c \<and> Num (balance_loop ?a) = Num c \<and>
    length (Shards (balance_loop ?a)) = NShards \<and> set (Shards (balance_loop ?a)) \<subseteq> gids c \<and>
    spread (balance_loop ?a)"
    using balance_loop_spec [of ?a] a assms(2) by simp
  then show ?thesis using assms by (simp add: Rebalance_def wf_cfg_def Suc_le_eq)
qed

section \<open>Join and the checker\<close>

lemma Join_loop_True:
  assumes "Join_loop servers changed cfg = Inr (True, c')" and "wf_cfg cfg"
  shows "Groups c' = Groups cfg @ servers \<and> Num c' = Num cfg + 1 \<and> wf_cfg c' \<and>
    Shards c' = Shards cfg \<and> (changed \<or> servers \<noteq> [])"
  using assms
proof (induction servers changed cfg rule: Join_loop.induct)
  case (1 changed cfg)
  then show ?case by (auto simp: wf_cfg_def split: if_splits)
next
  case (2 gid srvs rest changed cfg)
  from "2.prems"(1) have new: "gid \<notin> gids cfg" "\<not> shares_server srvs cfg"
    and rec: "Join_loop rest True (cfg\<lparr>Groups := Groups cfg @ [(gid, srvs)]\<rparr>) = Inr (True, c')"
    by (simp_all split: if_splits)
  have "wf_cfg (cfg\<lparr>Groups := Groups cfg @ [(gid, srvs)]\<rparr>)"
    using "2.prems"(2) new(1) by (simp add: wf_cfg_def)
  from "2.IH" [OF new rec this] show ?case by simp
qed

lemma minmax_fold:
  fixes counts :: "Tgid \<Rightarrow> int"
  assumes "fold (\<lambda>g (mn, mx). (if counts g < mn then counts g else mn,
                               if counts g > mx then counts g else mx)) gs (a, b) = (mn, mx)"
  shows "(mn = a \<or> (\<exists>g \<in> set gs. mn = counts g)) \<and> (mx = b \<or> (\<exists>g \<in> set gs. mx = counts g))"
  using assms by (induction gs arbitrary: a b) (fastforce split: if_splits)+

lemma CheckConfig_ok:
  assumes "wf_cfg c" and "Groups c = [] \<or> set (Shards c) \<subseteq> gids c" and "spread c"
  shows "CheckConfig c (map fst (Groups c)) = Inr ()"
proof -
  let ?n = "shard_counts (Shards c)"
  obtain mn mx where f: "fold (\<lambda>g (mn, mx). (if ?n g < mn then ?n g else mn, if ?n g > mx then ?n g else mx))
      (map fst (Groups c)) (257, 0) = (mn, mx)" by (rule prod.exhaust)
  have small: "?n g \<le> 12" for g
    using count_list_le_length [of "Shards c" g] assms(1)
    by (simp add: shard_counts_eq wf_cfg_def NShards_def)
  have near: "?n g \<le> ?n h + 1" if "g \<in> gids c" "h \<in> gids c" for g h
    using assms(3) that unfolding spread_def shard_counts_eq by (metis of_nat_1 of_nat_add of_nat_le_iff)
  have nonneg: "0 \<le> ?n g" for g by (simp add: shard_counts_eq)
  have mem: "g \<in> set (map fst (Groups c)) \<Longrightarrow> g \<in> gids c" for g by simp
  have "mx \<le> mn + 1"
  proof (cases "mx = 0")
    case True
    then show ?thesis using minmax_fold [OF f] nonneg by fastforce
  next
    case False
    then obtain g where g: "g \<in> gids c" "mx = ?n g" using minmax_fold [OF f] mem by metis
    then show ?thesis
    proof (cases "mn = 257")
      case True
      then show ?thesis using small [of g] g by simp
    next
      case False
      then obtain h where "h \<in> gids c" "mn = ?n h" using minmax_fold [OF f] mem by metis
      then show ?thesis using near g by simp
    qed
  qed
  then show ?thesis using assms(2) f by (auto simp: CheckConfig_def)
qed

lemma Key2Shard_bound: "0 \<le> Key2Shard key \<and> Key2Shard key < int NShards"
  by (simp add: Key2Shard_def NShards_def)

lemma GidServers_member:
  assumes "distinct (map fst (Groups c))" and "length (Shards c) = NShards"
    and "set (Shards c) \<subseteq> gids c" and "0 \<le> sh" and "sh < int NShards"
  shows "\<exists>g srvs. GidServers c sh = Inr (g, srvs, True) \<and> (g, srvs) \<in> set (Groups c)"
proof -
  have "Shards c ! nat sh \<in> gids c" using assms(2-5) nth_mem [of "nat sh" "Shards c"] by auto
  then obtain srvs where mem: "(Shards c ! nat sh, srvs) \<in> set (Groups c)" by auto
  then have "map_of (Groups c) (Shards c ! nat sh) = Some srvs" using assms(1) by simp
  then show ?thesis using mem assms(2,4,5) by (simp add: GidServers_def)
qed

definition demo_cfg :: ShardConfig where
  "demo_cfg = MakeShardConfig\<lparr>Groups := [(1, [''x'', ''y'']), (2, [''z''])]\<rparr>"

lemma demo_cfg_wf: "wf_cfg demo_cfg" "Groups demo_cfg \<noteq> []"
  by (simp_all add: demo_cfg_def MakeShardConfig_def wf_cfg_def)

section \<open>Properties\<close>

text \<open>C23: \<open>Rebalance\<close> terminates with a balanced assignment. Given at least one group, every shard
  ends at an existing group, the loads of any two groups differ by at most one, and the
  configuration number and the groups are untouched.\<close>

theorem rebalance_balances:
  assumes "wf_cfg c" and "Groups c \<noteq> []"
  shows "let c' = Rebalance c in
     Groups c' = Groups c \<and> Num c' = Num c \<and> wf_cfg c' \<and> set (Shards c') \<subseteq> gids c \<and>
     (\<forall>g \<in> gids c. \<forall>h \<in> gids c. count_list (Shards c') g \<le> count_list (Shards c') h + 1)"
  using Rebalance_spec [OF assms] by (simp add: Let_def spread_def)

theorem rebalance_balances_witness:
  "set (Shards (Rebalance demo_cfg)) \<subseteq> {1, 2} \<and>
   count_list (Shards (Rebalance demo_cfg)) 1 \<le> count_list (Shards (Rebalance demo_cfg)) 2 + 1"
  using rebalance_balances [OF demo_cfg_wf] by (simp add: Let_def demo_cfg_def MakeShardConfig_def)

text \<open>\<open>Rebalance\<close> moves nothing it need not: an assignment that already gives every shard to an
  existing group with loads at most one apart is returned unchanged.\<close>

theorem rebalance_keeps_balanced:
  assumes "wf_cfg c" and "Groups c \<noteq> []" and "set (Shards c) \<subseteq> gids c"
    and "\<forall>g \<in> gids c. \<forall>h \<in> gids c. count_list (Shards c) g \<le> count_list (Shards c) h + 1"
  shows "Rebalance c = c"
proof -
  have len: "length (Shards c) = NShards" using assms(1) by (simp add: wf_cfg_def)
  have "\<not> unbalanced c" using unbalanced_iff [OF len assms(2)] assms(4) by (simp add: spread_def)
  then show ?thesis using assms(2,3)
    by (simp add: Rebalance_def assign_unassigned_id balance_loop.simps [of c] Suc_le_eq)
qed

definition demo_balanced :: ShardConfig where
  "demo_balanced = demo_cfg\<lparr>Shards := replicate 6 1 @ replicate 6 2\<rparr>"

theorem rebalance_keeps_balanced_witness: "Rebalance demo_balanced = demo_balanced"
  by (rule rebalance_keeps_balanced)
     (simp_all add: demo_balanced_def demo_cfg_def MakeShardConfig_def wf_cfg_def NShards_def numeral_eq_Suc)

text \<open>After \<open>Rebalance\<close> every key has a home: the shard \<open>Key2Shard\<close> computes is in range and
  \<open>GidServers\<close> finds a group of the configuration with its servers.\<close>

theorem every_key_is_served:
  assumes "wf_cfg c" and "Groups c \<noteq> []"
  shows "\<exists>g srvs. GidServers (Rebalance c) (Key2Shard key) = Inr (g, srvs, True) \<and> (g, srvs) \<in> set (Groups c)"
  using GidServers_member [of "Rebalance c" "Key2Shard key"] Rebalance_spec [OF assms] Key2Shard_bound [of key]
    assms(1)
  by (simp add: wf_cfg_def)

theorem every_key_is_served_witness:
  "\<exists>g srvs. GidServers (Rebalance demo_cfg) (Key2Shard ''k0'') = Inr (g, srvs, True) \<and>
     (g, srvs) \<in> set (Groups demo_cfg)"
  by (rule every_key_is_served [OF demo_cfg_wf])

text \<open>A \<open>JoinBalance\<close> that reports success has added exactly the given groups, advanced the
  configuration number by one and produced a configuration that passes \<open>CheckConfig\<close>.\<close>

theorem join_balance_checks:
  assumes "wf_cfg c" and "JoinBalance servers c = Inr (True, c')"
  shows "Groups c' = Groups c @ servers \<and> Num c' = Num c + 1 \<and> wf_cfg c' \<and>
         CheckConfig c' (map fst (Groups c')) = Inr ()"
proof -
  obtain c1 where j: "Join servers c = Inr (True, c1)" and c': "c' = Rebalance c1"
    using assms(2) by (auto simp: JoinBalance_def go_map_eq_Inr split: if_splits)
  from Join_loop_True [OF j [unfolded Join_def] assms(1)]
  have c1: "Groups c1 = Groups c @ servers" "Num c1 = Num c + 1" "wf_cfg c1" "servers \<noteq> []" by auto
  have "Groups c1 \<noteq> []" using c1 by simp
  from Rebalance_spec [OF c1(3) this] CheckConfig_ok [of c'] show ?thesis using c1 c' by auto
qed

theorem join_balance_checks_witness:
  "\<exists>c'. JoinBalance [(3, [''w''])] demo_cfg = Inr (True, c') \<and> Num c' = 1 \<and>
     CheckConfig c' (map fst (Groups c')) = Inr ()"
proof -
  have "\<exists>c'. JoinBalance [(3, [''w''])] demo_cfg = Inr (True, c')"
    by (simp add: JoinBalance_def Join_def demo_cfg_def MakeShardConfig_def shares_server_def)
  then show ?thesis using join_balance_checks [OF demo_cfg_wf(1)]
    by (auto simp: demo_cfg_def MakeShardConfig_def)
qed

text \<open>A \<open>Join\<close> that reports failure can leave groups behind, and whether it does depends on
  the order in which Go iterates over the argument map: with group 1 present, joining groups
  1 and 9 reports failure in both orders, changing the configuration in one of them.\<close>

theorem failed_join_depends_on_order:
  "Join [(1, [''v'']), (9, [''w''])] demo_cfg = Inr (False, demo_cfg) \<and>
   (\<exists>c'. Join [(9, [''w'']), (1, [''v''])] demo_cfg = Inr (False, c') \<and>
         Groups c' = Groups demo_cfg @ [(9, [''w''])] \<and> Num c' = Num demo_cfg)"
  by (auto simp: Join_def demo_cfg_def MakeShardConfig_def shares_server_def)

end
