(* ===== verification/ShardTest.thy ===== *)
theory ShardTest
  imports ShardCfg TesterConfig ReplicatedSM
begin

text \<open>
  The sharded store (\<open>shardkv1\<close>) above its configurations: the shard controller, shard group servers and
  clerks as far as they are written (handlers and calls are empty, \<open>Query\<close> returns nil), and
  the tester's operations on them (\<open>shardkv1/test.go\<close>): fresh groups, setting up the
  service, groups that join and leave, and the check that data is sharded.

  Joining and leaving are split where they call the controller: from the configuration a query returned
  to the one the controller is asked to change to.
\<close>

section \<open>The controller (\<open>shardctrler.go\<close>)\<close>

record ShardCtrler =
  sck_clnt :: nat
  sck_server :: string

definition MakeShardCtrler :: "nat \<Rightarrow> ShardCtrler" where
  "MakeShardCtrler clnt = \<lparr>sck_clnt = clnt, sck_server = ServerName GRP0 0\<rparr>"

definition InitController :: "ShardCtrler \<Rightarrow> ShardCtrler" where
  "InitController sck = sck"

definition InitConfig :: "ShardConfig \<Rightarrow> ShardCtrler \<Rightarrow> ShardCtrler" where
  "InitConfig cfg sck = sck"

definition ChangeConfigTo :: "ShardConfig \<Rightarrow> ShardCtrler \<Rightarrow> ShardCtrler" where
  "ChangeConfigTo new sck = sck"

definition Query :: "ShardCtrler \<Rightarrow> ShardConfig option" where
  "Query sck = None"

section \<open>Shard groups (\<open>shardgrp/server.go\<close>, \<open>client.go\<close>, \<open>shardrpc.go\<close>)\<close>

datatype shard_req = SGet string | SPut PutArgs | SFreeze | SInstall | SDelete | SOp

record ShardServer =
  sg_me :: int
  sg_dead :: bool
  sg_rsm :: "(shard_req, nat) RSM option"
  sg_gid :: Tgid

record FreezeShardArgs =
  fz_Shard :: Tshid
  fz_Num :: Tnum

record FreezeShardReply =
  fz_State :: "nat list"
  fz_RNum :: Tnum
  fz_Err :: Err

record InstallShardArgs =
  in_Shard :: Tshid
  in_State :: "nat list"
  in_Num :: Tnum

record DeleteShardArgs =
  de_Shard :: Tshid
  de_Num :: Tnum

definition sg_DoOp :: "shard_req \<Rightarrow> ShardServer \<Rightarrow> 'p option \<times> ShardServer" where
  "sg_DoOp req kv = (None, kv)"

definition sg_Snapshot :: "ShardServer \<Rightarrow> nat list" where
  "sg_Snapshot kv = []"

definition sg_Restore :: "nat list \<Rightarrow> ShardServer \<Rightarrow> ShardServer" where
  "sg_Restore bytes kv = kv"

definition sg_Get :: "string \<Rightarrow> GetReply \<Rightarrow> ShardServer \<Rightarrow> GetReply \<times> ShardServer" where
  "sg_Get key reply kv = (reply, kv)"

definition sg_Put :: "PutArgs \<Rightarrow> Err \<Rightarrow> ShardServer \<Rightarrow> Err \<times> ShardServer" where
  "sg_Put args reply kv = (reply, kv)"

definition sg_FreezeShard :: "FreezeShardArgs \<Rightarrow> FreezeShardReply \<Rightarrow> ShardServer \<Rightarrow> FreezeShardReply \<times> ShardServer" where
  "sg_FreezeShard args reply kv = (reply, kv)"

definition sg_InstallShard :: "InstallShardArgs \<Rightarrow> Err \<Rightarrow> ShardServer \<Rightarrow> Err \<times> ShardServer" where
  "sg_InstallShard args reply kv = (reply, kv)"

definition sg_DeleteShard :: "DeleteShardArgs \<Rightarrow> Err \<Rightarrow> ShardServer \<Rightarrow> Err \<times> ShardServer" where
  "sg_DeleteShard args reply kv = (reply, kv)"

definition sg_Kill :: "ShardServer \<Rightarrow> ShardServer" where
  "sg_Kill kv = kv\<lparr>sg_dead := True\<rparr>"

definition sg_killed :: "ShardServer \<Rightarrow> bool" where
  "sg_killed kv = sg_dead kv"

definition StartServerShardGrp ::
  "nat \<Rightarrow> Tgid \<Rightarrow> int \<Rightarrow> (shard_req, nat) storage \<Rightarrow> int \<Rightarrow> tick \<Rightarrow> ShardServer \<times> (shard_req, nat) Raft" where
  "StartServerShardGrp nends gid i ps maxr tk =
     (let r = MakeRSM nends i ps maxr tk; kv = \<lparr>sg_me = i, sg_dead = False, sg_rsm = Some r, sg_gid = gid\<rparr> in (kv, RSM_Raft r))"

record sg_Clerk =
  sgc_clnt :: nat
  sgc_servers :: "string list"

definition sg_MakeClerk :: "nat \<Rightarrow> string list \<Rightarrow> sg_Clerk" where
  "sg_MakeClerk clnt names = \<lparr>sgc_clnt = clnt, sgc_servers = names\<rparr>"

definition zero_reply :: GetReply where
  "zero_reply = \<lparr>ReplyValue = [], ReplyVersion = 0, ReplyErr = []\<rparr>"

definition sgc_Get :: "string \<Rightarrow> sg_Clerk \<Rightarrow> GetReply" where
  "sgc_Get key ck = zero_reply"

definition sgc_Put :: "PutArgs \<Rightarrow> sg_Clerk \<Rightarrow> Err" where
  "sgc_Put args ck = []"

definition sgc_FreezeShard :: "Tshid \<Rightarrow> Tnum \<Rightarrow> sg_Clerk \<Rightarrow> nat list option \<times> Err" where
  "sgc_FreezeShard s num ck = (None, [])"

definition sgc_InstallShard :: "Tshid \<Rightarrow> nat list \<Rightarrow> Tnum \<Rightarrow> sg_Clerk \<Rightarrow> Err" where
  "sgc_InstallShard s st num ck = []"

definition sgc_DeleteShard :: "Tshid \<Rightarrow> Tnum \<Rightarrow> sg_Clerk \<Rightarrow> Err" where
  "sgc_DeleteShard s num ck = []"

section \<open>The clerk of the sharded store (\<open>client.go\<close>)\<close>

record skv_Clerk =
  skv_clnt :: nat
  skv_sck :: ShardCtrler

definition skv_MakeClerk :: "nat \<Rightarrow> ShardCtrler \<Rightarrow> skv_Clerk" where
  "skv_MakeClerk clnt sck = \<lparr>skv_clnt = clnt, skv_sck = sck\<rparr>"

definition skv_Get :: "string \<Rightarrow> skv_Clerk \<Rightarrow> GetReply" where
  "skv_Get key ck = zero_reply"

definition skv_Put :: "PutArgs \<Rightarrow> skv_Clerk \<Rightarrow> Err" where
  "skv_Put args ck = []"

section \<open>The tester (\<open>test.go\<close>)\<close>

record ('r, 's, 'o, 'a, 'q) shard_Test =
  st_cfg :: "('r, 's, 'o, 'a, 'q) Config"
  st_sck :: "ShardCtrler option"
  ngid :: Tgid

definition Gid1 :: Tgid where "Gid1 = 1"

definition shard_NSRV :: nat where "shard_NSRV = 3"

definition newGid :: "('r, 's, 'o, 'a, 'q) shard_Test \<Rightarrow> Tgid \<times> ('r, 's, 'o, 'a, 'q) shard_Test" where
  "newGid ts = (ngid ts, ts\<lparr>ngid := ngid ts + 1\<rparr>)"

fun fresh_groups :: "nat \<Rightarrow> ('r, 's, 'o, 'a, 'q) shard_Test \<Rightarrow> Tgid list \<times> ('r, 's, 'o, 'a, 'q) shard_Test" where
  "fresh_groups 0 ts = ([], ts)"
| "fresh_groups (Suc n) ts = (let (gid, ts1) = newGid ts; (grps, ts2) = fresh_groups n ts1 in (gid # grps, ts2))"

definition makeShardCtrlerClnt ::
  "('r, 's, 'o, 'a, 'q) shard_Test \<Rightarrow> (ShardCtrler \<times> nat \<times> ('r, 's, 'o, 'a, 'q) shard_Test) go" where
  "makeShardCtrlerClnt ts =
     go_map (\<lambda>(clnt, cs). (MakeShardCtrler clnt, clnt, ts\<lparr>st_cfg := (st_cfg ts)\<lparr>cfg_clnts := cs\<rparr>\<rparr>))
       (MakeClient (cfg_clnts (st_cfg ts)))"

text \<open>The servers of a group; a group that is not there is nil.\<close>

definition group_names :: "Tgid \<Rightarrow> ('r, 's, 'o, 'a, 'q) Config \<Rightarrow> string list go" where
  "group_names gid cfg = (case Config_Group gid cfg of None \<Rightarrow> Inl NilDereference | Some sg \<Rightarrow> Inr (SrvNames sg))"

text \<open>The service starts with one group, which the first configuration gives every shard.\<close>

definition first_config :: "string list \<Rightarrow> ShardConfig go" where
  "first_config names = go_map snd (JoinBalance [(Gid1, names)] MakeShardConfig)"

definition setupKVService ::
  "(nat \<Rightarrow> nat \<Rightarrow> string) \<Rightarrow> (nat \<Rightarrow> nat \<Rightarrow> string) \<Rightarrow> ('o, 'a, 'q) FstartServer \<Rightarrow>
     ('r, 's, 'o, 'a, 'q) shard_Test \<Rightarrow> (Tgid \<times> ('r, 's, 'o, 'a, 'q) shard_Test) go" where
  "setupKVService rnd rnd' start ts =
     go_bind (makeShardCtrlerClnt ts) (\<lambda>(sck, _, ts1).
     go_bind (MakeGroupStart rnd rnd' Gid1 shard_NSRV start (st_cfg ts1)) (\<lambda>cfg.
     go_bind (group_names Gid1 cfg) (\<lambda>names.
     go_map (\<lambda>scfg. (Gid1, ts1\<lparr>st_cfg := cfg, st_sck := Some (InitConfig scfg sck)\<rparr>)) (first_config names))))"

definition checkMember :: "ShardCtrler \<Rightarrow> Tgid \<Rightarrow> bool go" where
  "checkMember sck gid = (case Query sck of None \<Rightarrow> Inl NilDereference | Some cfg \<Rightarrow> Inr (IsMember cfg gid))"

text \<open>What \<open>join\<close> and \<open>leave\<close> make of the configuration the query returned.\<close>

definition join_config :: "ShardConfig option \<Rightarrow> Tgid \<Rightarrow> string list \<Rightarrow> ShardConfig go" where
  "join_config q gid names =
     (case q of
        None \<Rightarrow> Inl NilDereference
      | Some cfg \<Rightarrow> go_bind (JoinBalance [(gid, names)] (ShardConfig_Copy cfg)) (\<lambda>(ok, newcfg).
          if \<not> ok then Inl (Fatal ''join: group is already present'') else Inr newcfg))"

definition leave_config :: "ShardConfig option \<Rightarrow> Tgid \<Rightarrow> ShardConfig go" where
  "leave_config q gid =
     (case q of
        None \<Rightarrow> Inl NilDereference
      | Some cfg \<Rightarrow> go_bind (LeaveBalance [gid] (ShardConfig_Copy cfg)) (\<lambda>(ok, newcfg).
          if \<not> ok then Inl (Fatal ''leave: group is already not present'') else Inr newcfg))"

definition join :: "ShardCtrler \<Rightarrow> Tgid \<Rightarrow> string list \<Rightarrow> ShardCtrler go" where
  "join sck gid names = go_map (\<lambda>newcfg. ChangeConfigTo newcfg sck) (join_config (Query sck) gid names)"

definition leave :: "ShardCtrler \<Rightarrow> Tgid \<Rightarrow> ShardCtrler go" where
  "leave sck gid = go_map (\<lambda>newcfg. ChangeConfigTo newcfg sck) (leave_config (Query sck) gid)"

fun joinGroups ::
  "(nat \<Rightarrow> nat \<Rightarrow> string) \<Rightarrow> (nat \<Rightarrow> nat \<Rightarrow> string) \<Rightarrow> ('o, 'a, 'q) FstartServer \<Rightarrow> ShardCtrler \<Rightarrow> Tgid list \<Rightarrow>
     ('r, 's, 'o, 'a, 'q) Config \<Rightarrow> (bool \<times> ShardCtrler \<times> ('r, 's, 'o, 'a, 'q) Config) go" where
  "joinGroups rnd rnd' start sck [] cfg = Inr (True, sck, cfg)"
| "joinGroups rnd rnd' start sck (gid # rest) cfg =
     go_bind (MakeGroupStart rnd rnd' gid shard_NSRV start cfg) (\<lambda>cfg1.
     go_bind (group_names gid cfg1) (\<lambda>names.
     go_bind (join sck gid names) (\<lambda>sck1.
     go_bind (checkMember sck1 gid) (\<lambda>ok.
       if \<not> ok then Inr (False, sck1, cfg1) else joinGroups rnd rnd' start sck1 rest cfg1))))"

fun leaveGroups ::
  "('o \<Rightarrow> 'o) \<Rightarrow> ShardCtrler \<Rightarrow> Tgid list \<Rightarrow> ('r, 's, 'o, 'a, 'q) Config \<Rightarrow> (bool \<times> ShardCtrler \<times> ('r, 's, 'o, 'a, 'q) Config) go" where
  "leaveGroups kill sck [] cfg = Inr (True, sck, cfg)"
| "leaveGroups kill sck (gid # rest) cfg =
     go_bind (leave sck gid) (\<lambda>sck1.
     go_bind (checkMember sck1 gid) (\<lambda>ok.
       if ok then Inr (False, sck1, cfg)
       else go_bind (ExitGroup kill gid cfg) (leaveGroups kill sck1 rest)))"

text \<open>\<open>disconnectClntFromLeader\<close>: the peers of the group's services tell who leads.\<close>

definition disconnectClntFromLeader ::
  "('o \<Rightarrow> 'o) \<Rightarrow> ('c, 'd) Raft option list list \<Rightarrow> Tgid \<Rightarrow> ('r, 's, 'o, 'a, 'q) Config \<Rightarrow> (nat \<times> ('r, 's, 'o, 'a, 'q) Config) go" where
  "disconnectClntFromLeader kill peers gid cfg =
     (let (ok, l) = Leader_of peers in
      if \<not> ok then Inl (Fatal ''Leader failed'')
      else go_map (\<lambda>cfg'. (l, cfg')) (on_group gid (ShutdownServer kill (int l)) cfg))"

text \<open>A clerk and its controller have a client each.\<close>

definition skv_Test_MakeClerk :: "('r, 's, 'o, 'a, 'q) Config \<Rightarrow> (skv_Clerk \<times> ('r, 's, 'o, 'a, 'q) Config) go" where
  "skv_Test_MakeClerk cfg =
     go_bind (MakeClient (cfg_clnts cfg)) (\<lambda>(clnt, cs).
     go_map (\<lambda>(clnt', cs'). (skv_MakeClerk clnt (MakeShardCtrler clnt'), cfg\<lparr>cfg_clnts := cs'\<rparr>)) (MakeClient cs))"

definition skv_DeleteClerk :: "skv_Clerk \<Rightarrow> ('r, 's, 'o, 'a, 'q) Config \<Rightarrow> ('r, 's, 'o, 'a, 'q) Config go" where
  "skv_DeleteClerk ck cfg =
     go_map (\<lambda>(cs, rn). cfg\<lparr>cfg_clnts := cs, cfg_world := (cfg_world cfg)\<lparr>rnet := rn\<rparr>\<rparr>)
       (DeleteClient (skv_clnt ck) (cfg_clnts cfg) (rnet (cfg_world cfg)))"

text \<open>The values that arrive before two seconds pass without one, with the index of their key.\<close>

fun await_gets :: "string list \<Rightarrow> (nat \<times> string) list \<Rightarrow> nat \<Rightarrow> nat go" where
  "await_gets va [] ndone = Inr ndone"
| "await_gets va ((i, v) # msgs) ndone =
     go_bind (go_index va (int i)) (\<lambda>w.
       if v \<noteq> w then Inl (Fatal ''Get: unexpected value'') else await_gets va msgs (ndone + 1))"

definition checkShutdownSharding ::
  "(nat \<Rightarrow> nat \<Rightarrow> string) \<Rightarrow> ('o \<Rightarrow> 'o) \<Rightarrow> Tgid \<Rightarrow> string list \<Rightarrow> string list \<Rightarrow> (nat \<times> string) list \<Rightarrow>
     ('r, 's, 'o, 'a, 'q) Config \<Rightarrow> ('r, 's, 'o, 'a, 'q) Config go" where
  "checkShutdownSharding rnd' kill dgid ka va msgs cfg =
     go_bind (on_group dgid (Grp_Shutdown kill) cfg) (\<lambda>cfg0.
     go_bind (go_fold (\<lambda>_ c. go_map snd (skv_Test_MakeClerk c)) [0..<length ka] cfg0) (\<lambda>cfg1.
     go_bind (await_gets va msgs 0) (\<lambda>ndone.
       if ndone \<ge> length ka then Inl (Fatal ''expected less completions with shard down'')
       else on_group dgid (StartServers rnd') cfg1)))"

text \<open>\<open>partitionCtrler\<close> at its end: the number of the configuration before, what the new controller's query
  returned, and what the partitioned controller was doing; the result is whether its group must leave.\<close>

datatype ctrl_state = NEITHER | JOINING | LEAVING

definition check_recovery :: "ShardConfig option \<Rightarrow> ShardConfig option \<Rightarrow> ctrl_state \<Rightarrow> Tgid \<Rightarrow> bool go" where
  "check_recovery before after st gid =
     (case before of
        None \<Rightarrow> Inl NilDereference
      | Some c0 \<Rightarrow> (case after of
          None \<Rightarrow> Inl NilDereference
        | Some cfg \<Rightarrow>
            if Num cfg \<le> Num c0 then Inl (Fatal ''didn't recover'')
            else
              let present = IsMember cfg gid in
              if (st = JOINING \<and> \<not> present) \<or> (st = LEAVING \<and> present) then Inl (Fatal ''didn't recover correctly'')
              else Inr (st = JOINING \<and> present)))"

text \<open>Setting up a test: a configuration with one server for the controller, whose starter is \<open>kvsrv.StartKVServer\<close>
  (an argument), the annotations of the test and its begin. Groups are numbered from after the first one.\<close>

record ('r, 's, 'o, 'a, 'q) skv_Test = "('r, 's, 'o, 'a, 'q) shard_Test" +
  skv_partition :: bool
  skv_maxraftstate :: int

definition MakeTestMaxRaft ::
  "(nat \<Rightarrow> nat \<Rightarrow> string) \<Rightarrow> (nat \<Rightarrow> nat \<Rightarrow> string) \<Rightarrow> int \<times> int \<times> int \<Rightarrow> ('o, 'a, 'q) FstartServer \<Rightarrow> string \<Rightarrow> bool \<Rightarrow> bool \<Rightarrow> int \<Rightarrow> tlog \<Rightarrow>
     (string \<times> ('r, 's, 'o, 'a, 'q) skv_Test \<times> tlog) go" where
  "MakeTestMaxRaft rnd rnd' now startKV part rel parts maxstate l =
     (case now of (now0, now1, now2) \<Rightarrow>
        go_map (\<lambda>cfg.
          let l1 = AnnotateTest now1 part 1 l; (msg, cfg1) = Begin now2 part cfg in
          (msg, shard_Test.extend \<lparr>st_cfg = cfg1, st_sck = None, ngid = Gid1 + 1\<rparr> (skv_Test.fields parts maxstate), l1))
        (MakeConfig rnd rnd' now0 1 rel startKV))"

definition skv_MakeTest ::
  "(nat \<Rightarrow> nat \<Rightarrow> string) \<Rightarrow> (nat \<Rightarrow> nat \<Rightarrow> string) \<Rightarrow> int \<times> int \<times> int \<Rightarrow> ('o, 'a, 'q) FstartServer \<Rightarrow> string \<Rightarrow> bool \<Rightarrow> tlog \<Rightarrow>
     (string \<times> ('r, 's, 'o, 'a, 'q) skv_Test \<times> tlog) go" where
  "skv_MakeTest rnd rnd' now startKV part rel l = MakeTestMaxRaft rnd rnd' now startKV part rel False (-1) l"

definition MakeTestLeases ::
  "(nat \<Rightarrow> nat \<Rightarrow> string) \<Rightarrow> (nat \<Rightarrow> nat \<Rightarrow> string) \<Rightarrow> int \<times> int \<times> int \<Rightarrow> ('o, 'a, 'q) FstartServer \<Rightarrow> string \<Rightarrow> bool \<Rightarrow> tlog \<Rightarrow>
     (string \<times> ('r, 's, 'o, 'a, 'q) skv_Test \<times> tlog) go" where
  "MakeTestLeases rnd rnd' now startKV part rel l = MakeTestMaxRaft rnd rnd' now startKV part rel True (-1) l"

definition makeShardCtrler :: "('r, 's, 'o, 'a, 'q) shard_Test \<Rightarrow> (ShardCtrler \<times> ('r, 's, 'o, 'a, 'q) shard_Test) go" where
  "makeShardCtrler ts = go_map (\<lambda>(ck, _, ts1). (ck, ts1)) (makeShardCtrlerClnt ts)"

text \<open>\<open>makeKVClerk\<close>: a new client and the name of the controller's server, of which a clerk of \<open>kvsrv1\<close> is made.\<close>

definition makeKVClerk :: "('r, 's, 'o, 'a, 'q) shard_Test \<Rightarrow> ((nat \<times> string) \<times> ('r, 's, 'o, 'a, 'q) shard_Test) go" where
  "makeKVClerk ts =
     go_map (\<lambda>(clnt, cs). ((clnt, ServerName GRP0 0), ts\<lparr>st_cfg := (st_cfg ts)\<lparr>cfg_clnts := cs\<rparr>\<rparr>)) (MakeClient (cfg_clnts (st_cfg ts)))"

text \<open>One round of a controller goroutine of \<open>concurCtrler\<close>: a new group joins and leaves.\<close>

definition join_leave_round ::
  "(nat \<Rightarrow> nat \<Rightarrow> string) \<Rightarrow> (nat \<Rightarrow> nat \<Rightarrow> string) \<Rightarrow> ('o, 'a, 'q) FstartServer \<Rightarrow> ('o \<Rightarrow> 'o) \<Rightarrow>
     ('r, 's, 'o, 'a, 'q) shard_Test \<Rightarrow> ('r, 's, 'o, 'a, 'q) shard_Test go" where
  "join_leave_round rnd rnd' start kill ts =
     (let (gid, ts1) = newGid ts in
      go_bind (makeShardCtrler ts1) (\<lambda>(sck0, ts2).
      let sck = InitController sck0 in
      go_bind (joinGroups rnd rnd' start sck [gid] (st_cfg ts2)) (\<lambda>(_, sck1, cfg).
      go_bind (checkMember sck1 gid) (\<lambda>ok.
        if ok then go_map (\<lambda>(_, _, cfg'). ts2\<lparr>st_cfg := cfg'\<rparr>) (leaveGroups kill sck1 [gid] cfg)
        else Inr (ts2\<lparr>st_cfg := cfg\<rparr>)))))"

text \<open>\<open>partitionCtrler\<close> up to the start of its goroutine: the controller to be partitioned, its client, and the number of
  the present configuration.\<close>

definition partition_begin ::
  "('r, 's, 'o, 'a, 'q) shard_Test \<Rightarrow> (ShardCtrler \<times> nat \<times> Tnum \<times> ('r, 's, 'o, 'a, 'q) shard_Test) go" where
  "partition_begin ts =
     go_bind (makeShardCtrlerClnt ts) (\<lambda>(sck, clnt, ts1).
       case Option.bind (st_sck ts1) Query of
         None \<Rightarrow> Inl NilDereference
       | Some cfg \<Rightarrow> Inr (InitController sck, clnt, Num cfg, ts1))"

text \<open>Neither gets anywhere with the controller as it is: its query returns nil, which both dereference.\<close>

lemma controllers_need_query:
  "\<exists>err. partition_begin ts = Inl err" "\<exists>err. join_leave_round rnd rnd' start kill ts = Inl err"
proof -
  have q: "Option.bind o1 Query = None" for o1 by (cases o1) (simp_all add: Query_def)
  show "\<exists>err. partition_begin ts = Inl err"
    by (cases "makeShardCtrlerClnt ts") (auto simp: partition_begin_def q split: prod.splits)
  have j: "\<exists>err. joinGroups rnd rnd' start sck [gid] cfg = Inl err" for sck gid cfg
    by (cases "MakeGroupStart rnd rnd' gid shard_NSRV start cfg")
       (auto simp: join_def join_config_def Query_def go_bind_def split: sum.splits)
  show "\<exists>err. join_leave_round rnd rnd' start kill ts = Inl err"
  proof (cases "makeShardCtrler (snd (newGid ts))")
    case (Inr p)
    obtain sck ts2 where p: "p = (sck, ts2)" by (cases p)
    obtain err where "joinGroups rnd rnd' start (InitController sck) [fst (newGid ts)] (st_cfg ts2) = Inl err" using j by blast
    then show ?thesis using Inr p by (simp add: join_leave_round_def case_prod_beta Let_def)
  qed (simp add: join_leave_round_def case_prod_beta)
qed

section \<open>Joining and leaving\<close>

lemma Copy_same [simp]: "ShardConfig_Copy cfg = cfg"
proof -
  have "map (\<lambda>(k, srvs). (k, map (\<lambda>i. srvs ! i) [0..<length srvs])) (Groups cfg) = Groups cfg"
    by (rule map_idI) (auto simp: map_nth)
  then show ?thesis by (simp add: ShardConfig_Copy_def MakeShardConfig_def)
qed

lemma count_le_one_distinct: "(\<And>x. count_list xs x \<le> 1) \<Longrightarrow> distinct xs"
proof (induction xs)
  case (Cons y xs)
  have "count_list xs x \<le> 1" for x using Cons.prems [of x] by (simp split: if_splits)
  moreover have "y \<notin> set xs" using Cons.prems [of y] by (simp add: count_list_0_iff)
  ultimately show ?case using Cons.IH by simp
qed simp

text \<open>With no more groups than shards, balanced means that every group has one.\<close>

lemma balanced_members:
  assumes "wf_cfg c" and "set (Shards c) \<subseteq> gids c" and "spread c" and "length (Groups c) \<le> NShards" and g: "g \<in> gids c"
  shows "IsMember c g"
proof (rule ccontr)
  assume "\<not> IsMember c g"
  then have out: "g \<notin> set (Shards c)" by (auto simp: IsMember_def)
  then have "count_list (Shards c) g = 0" by (simp add: count_list_0_iff)
  then have "count_list (Shards c) h \<le> 1" if "h \<in> gids c" for h
    using assms(3) [unfolded spread_def, rule_format, OF that g] by simp
  moreover have "count_list (Shards c) h = 0" if "h \<notin> gids c" for h using assms(2) that by (auto simp: count_list_0_iff)
  ultimately have "distinct (Shards c)" by (metis count_le_one_distinct le_numeral_extra(1))
  then have "card (set (Shards c)) = NShards" using assms(1) by (simp add: wf_cfg_def distinct_card)
  moreover have "card (set (Shards c)) \<le> card (gids c - {g})" using assms(2) out by (intro card_mono) auto
  moreover have "card (gids c) = length (Groups c)" using assms(1) distinct_card [of "map fst (Groups c)"] by (simp add: wf_cfg_def)
  moreover have "card (gids c - {g}) < card (gids c)" by (rule card_Diff1_less [OF _ g]) simp
  ultimately show False using assms(4) by simp
qed

text \<open>With more groups than shards some group owns none, and \<open>IsMember\<close> denies that it is a member.\<close>

lemma crowded_nonmember:
  assumes "wf_cfg c" and "NShards < length (Groups c)"
  shows "\<exists>g \<in> gids c. \<not> IsMember c g"
proof (rule ccontr)
  assume "\<not> ?thesis"
  then have "gids c \<subseteq> set (Shards c)" by (auto simp: IsMember_def)
  then have "card (gids c) \<le> card (set (Shards c))" by (rule card_mono [OF finite_set])
  moreover have "card (set (Shards c)) \<le> NShards" using assms(1) card_length [of "Shards c"] by (simp add: wf_cfg_def)
  moreover have "card (gids c) = length (Groups c)" using assms(1) distinct_card [of "map fst (Groups c)"] by (simp add: wf_cfg_def)
  ultimately show False using assms(2) by simp
qed

lemma join_config_spec:
  assumes "wf_cfg cfg" and "join_config (Some cfg) gid names = Inr new"
  shows "gid \<notin> gids cfg \<and> Groups new = Groups cfg @ [(gid, names)] \<and> Num new = Num cfg + 1 \<and> wf_cfg new \<and>
    set (Shards new) \<subseteq> gids new \<and> spread new"
proof -
  obtain c1 where j: "Join_loop [(gid, names)] False cfg = Inr (True, c1)" and new: "new = Rebalance c1"
    using assms(2) by (auto simp: join_config_def JoinBalance_def Join_def go_bind_eq_Inr go_map_eq_Inr split: if_splits)
  have c1: "Groups c1 = Groups cfg @ [(gid, names)]" "Num c1 = Num cfg + 1" "wf_cfg c1" using Join_loop_True [OF j assms(1)] by auto
  have "gid \<notin> gids cfg" using j by (simp split: if_splits)
  then show ?thesis using Rebalance_spec [OF c1(3)] c1 new by simp
qed

lemma leave_config_spec:
  assumes "wf_cfg cfg" and "gid \<in> gids cfg"
  shows "\<exists>new. leave_config (Some cfg) gid = Inr new \<and> Groups new = filter (\<lambda>(k, _). k \<noteq> gid) (Groups cfg) \<and> Num new = Num cfg + 1 \<and>
    wf_cfg new \<and> (if Groups new = [] then set (Shards new) = {0} else set (Shards new) \<subseteq> gids new) \<and> spread new"
proof -
  let ?c = "cfg\<lparr>Groups := filter (\<lambda>(k, _). k \<noteq> gid) (Groups cfg), Num := Num cfg + 1\<rparr>"
  have l: "leave_config (Some cfg) gid = Inr (Rebalance ?c)"
    using assms(2) by (simp add: leave_config_def LeaveBalance_def Leave_def)
  have wf: "wf_cfg ?c" using assms(1) by (auto simp: wf_cfg_def intro: distinct_map_filter)
  show ?thesis
  proof (cases "Groups ?c = []")
    case True
    then have "Rebalance ?c = ?c\<lparr>Shards := map (\<lambda>_. 0) (Shards ?c)\<rparr>" by (simp add: Rebalance_def)
    moreover have "Shards cfg \<noteq> []" using assms(1) by (auto simp: wf_cfg_def NShards_def)
    ultimately show ?thesis using l wf True by (auto simp: wf_cfg_def spread_def image_constant_conv)
  next
    case False
    then show ?thesis using l Rebalance_spec [OF wf False] by simp
  qed
qed

text \<open>C24: Joining and leaving undo each other. From a well-formed configuration with fewer groups than shards, a new group, whose
  number is not 0, whose join succeeds owns a shard afterwards, as does every other group; when it leaves again it owns none, the
  groups are the ones there were before, and both configurations pass \<open>CheckConfig\<close>.\<close>

theorem join_then_leave:
  assumes "wf_cfg cfg" and "length (Groups cfg) < NShards" and "gid \<noteq> 0" and "join_config (Some cfg) gid names = Inr c1"
  shows "(\<forall>g \<in> insert gid (gids cfg). IsMember c1 g) \<and> CheckConfig c1 (map fst (Groups c1)) = Inr () \<and>
    (\<exists>c2. leave_config (Some c1) gid = Inr c2 \<and> \<not> IsMember c2 gid \<and> Groups c2 = Groups cfg \<and> Num c2 = Num cfg + 2 \<and>
       CheckConfig c2 (map fst (Groups c2)) = Inr ())"
proof -
  have c1: "gid \<notin> gids cfg" "Groups c1 = Groups cfg @ [(gid, names)]" "Num c1 = Num cfg + 1" "wf_cfg c1"
    "set (Shards c1) \<subseteq> gids c1" "spread c1" using join_config_spec [OF assms(1,4)] by auto
  have mem: "IsMember c1 g" if "g \<in> insert gid (gids cfg)" for g
    by (rule balanced_members [OF c1(4,5,6)]) (use assms(2) c1(2) that in auto)
  have "gid \<in> gids c1" using c1(2) by simp
  from leave_config_spec [OF c1(4) this] obtain c2 where c2: "leave_config (Some c1) gid = Inr c2"
    "Groups c2 = filter (\<lambda>(k, _). k \<noteq> gid) (Groups c1)" "Num c2 = Num c1 + 1" "wf_cfg c2"
    "if Groups c2 = [] then set (Shards c2) = {0} else set (Shards c2) \<subseteq> gids c2" "spread c2" by auto
  have "filter (\<lambda>(k, _). k \<noteq> gid) (Groups cfg) = Groups cfg" using c1(1) by (force simp: filter_id_conv)
  then have g2: "Groups c2 = Groups cfg" using c1(2) c2(2) by simp
  have "\<not> IsMember c2 gid" using c2(5) g2 c1(1) assms(3) by (auto simp: IsMember_def split: if_splits)
  moreover have "CheckConfig c2 (map fst (Groups c2)) = Inr ()" using c2(4,5,6) by (intro CheckConfig_ok) (auto split: if_splits)
  ultimately show ?thesis using mem c2(1,3) g2 c1 CheckConfig_ok [OF c1(4) _ c1(6)] by auto
qed

theorem join_then_leave_witness:
  "\<exists>c1 c2. join_config (Some demo_cfg) 5 [''w''] = Inr c1 \<and> IsMember c1 5 \<and> leave_config (Some c1) 5 = Inr c2 \<and>
     Groups c2 = Groups demo_cfg \<and> Num c2 = 2"
proof -
  obtain c1 where c1: "join_config (Some demo_cfg) 5 [''w''] = Inr c1"
    by (simp add: join_config_def JoinBalance_def Join_def demo_cfg_def MakeShardConfig_def shares_server_def)
  from join_then_leave [OF demo_cfg_wf(1) _ _ c1] show ?thesis using c1
    by (auto simp: demo_cfg_def MakeShardConfig_def NShards_def)
qed

section \<open>Setting up\<close>

text \<open>The first configuration gives every shard to the first group.\<close>

lemma first_config_owns_all:
  "\<exists>cfg. first_config names = Inr cfg \<and> Num cfg = 1 \<and> Groups cfg = [(Gid1, names)] \<and> Shards cfg = replicate NShards Gid1"
proof -
  have wf: "wf_cfg MakeShardConfig" by (simp add: wf_cfg_def MakeShardConfig_def)
  have "\<exists>c. JoinBalance [(Gid1, names)] MakeShardConfig = Inr (True, c)"
    by (simp add: JoinBalance_def Join_def MakeShardConfig_def shares_server_def)
  then obtain c where c: "JoinBalance [(Gid1, names)] MakeShardConfig = Inr (True, c)" by blast
  then have "join_config (Some MakeShardConfig) Gid1 names = Inr c" by (simp add: join_config_def)
  from join_config_spec [OF wf this] have s: "Groups c = [(Gid1, names)]" "Num c = 1" "length (Shards c) = NShards" "set (Shards c) \<subseteq> {Gid1}"
    by (auto simp: wf_cfg_def MakeShardConfig_def)
  then have "Shards c = replicate NShards Gid1" by (metis replicate_length_same singletonD subsetD)
  then show ?thesis using c s by (simp add: first_config_def)
qed

text \<open>Fresh groups are numbered consecutively from the next free one.\<close>

lemma fresh_groups_numbers:
  "fresh_groups n ts = (map (\<lambda>i. ngid ts + int i) [0..<n], ts\<lparr>ngid := ngid ts + int n\<rparr>)"
proof (induction n arbitrary: ts)
  case (Suc n)
  have "[0..<Suc n] = 0 # map Suc [0..<n]" by (simp add: upt_conv_Cons map_Suc_upt del: upt_Suc)
  then show ?case using Suc by (simp add: newGid_def o_def algebra_simps)
qed simp

text \<open>Two calls never hand out a group twice.\<close>

lemma fresh_groups_distinct:
  assumes "fresh_groups n ts = (gs, ts1)" and "fresh_groups m ts1 = (hs, ts2)"
  shows "distinct (gs @ hs)"
  using assms by (auto simp: fresh_groups_numbers distinct_map inj_on_def)

section \<open>The unwritten controller\<close>

text \<open>Without a controller no group ever joins or leaves. \<open>Query\<close> returns nil, so \<open>join\<close>, \<open>leave\<close> and
  \<open>checkMember\<close> dereference nil, and \<open>joinGroups\<close> and \<open>leaveGroups\<close> never return for a
  non-empty list of groups.\<close>

theorem controller_is_missing:
  assumes "gids' \<noteq> []"
  shows "join sck gid names = Inl NilDereference \<and> leave sck gid = Inl NilDereference \<and> checkMember sck gid = Inl NilDereference \<and>
    (\<exists>e. joinGroups rnd rnd' start sck gids' cfg = Inl e) \<and> leaveGroups kill sck gids' cfg = Inl NilDereference"
proof -
  have j: "join sck g ns = Inl NilDereference" "leave sck g = Inl NilDereference" for g ns
    by (simp_all add: join_def leave_def join_config_def leave_config_def Query_def)
  obtain g gs where g: "gids' = g # gs" using assms by (cases gids') auto
  have "\<exists>e. joinGroups rnd rnd' start sck gids' cfg = Inl e"
    unfolding g joinGroups.simps j by (auto simp: go_bind_def split: sum.splits)
  then show ?thesis using j g by (simp add: checkMember_def Query_def)
qed

theorem controller_is_missing_witness:
  "leaveGroups (\<lambda>x. x) (MakeShardCtrler 0) [2]
     (\<lparr>cfg_clnts = makeClnts, cfg_groups = newGroups, cfg_world = new_world, cfg_start = 0, cfg_t0 = 0, rpcs0 = 0, ops = 0\<rparr> ::
        (nat, nat, nat, nat, nat) Config) = Inl NilDereference"
  by (rule controller_is_missing [THEN conjunct2, THEN conjunct2, THEN conjunct2, THEN conjunct2]) simp

text \<open>\<open>checkShutdownSharding\<close> accepts exactly if every value that came is right and some did not come.\<close>

lemma await_gets_iff:
  "await_gets va msgs k = Inr r \<longleftrightarrow> r = k + length msgs \<and> (\<forall>(i, v) \<in> set msgs. i < length va \<and> v = va ! i)"
  by (induction msgs arbitrary: k) (auto simp: go_bind_eq_Inr go_index_def split: if_splits)

end
