(* ===== verification/MRPlugins.thy ===== *)
theory MRPlugins
  imports MRJob JsonEntries
begin

text \<open>
  The other MapReduce applications (\<open>src/mrapps\<close>): \<open>crash.go\<close> and \<open>nocrash.go\<close>, which exit or stall at
  random, \<open>early_exit.go\<close>, \<open>jobcount.go\<close>, which counts the runs of map tasks in files, and
  \<open>mtiming.go\<close> and \<open>rtiming.go\<close>, which count the workers that run at the same time. Random numbers, process
  numbers, the directory and which processes live are arguments.
\<close>

section \<open>crash.go and nocrash.go\<close>

text \<open>What \<open>maybeCrash\<close> does: the process exits, sleeps for some milliseconds, or goes on.\<close>

datatype fate = Exit | Delay int | Continue

definition maybeCrash :: "int \<Rightarrow> int \<Rightarrow> fate" where
  "maybeCrash rr ms = (if rr < 330 then Exit else if rr < 660 then Delay ms else Continue)"

definition nocrash_maybeCrash :: "int \<Rightarrow> fate" where
  "nocrash_maybeCrash rr = (if False \<and> rr < 500 then Exit else Continue)"

definition crash_Map :: map_fun where
  "crash_Map filename contents =
     [\<lparr>Key = ''a'', Value = filename\<rparr>, \<lparr>Key = ''b'', Value = Itoa (int (length filename))\<rparr>,
      \<lparr>Key = ''c'', Value = Itoa (int (length contents))\<rparr>, \<lparr>Key = ''d'', Value = ''xyzzy''\<rparr>]"

definition crash_Reduce :: reduce_fun where
  "crash_Reduce key values = Join_with '' '' (sort values)"

text \<open>A call of the plugin returns only if the process does not exit.\<close>

definition crash_Map_call :: "fate \<Rightarrow> string \<Rightarrow> string \<Rightarrow> KeyValue list option" where
  "crash_Map_call f filename contents = (if f = Exit then None else Some (crash_Map filename contents))"

definition crash_Reduce_call :: "fate \<Rightarrow> string \<Rightarrow> string list \<Rightarrow> string option" where
  "crash_Reduce_call f key values = (if f = Exit then None else Some (crash_Reduce key values))"

section \<open>early\_exit.go\<close>

definition early_exit_Map :: map_fun where
  "early_exit_Map filename contents = [\<lparr>Key = filename, Value = ''1''\<rparr>]"

definition early_exit_Reduce :: reduce_fun where
  "early_exit_Reduce key values = Itoa (int (length values))"

section \<open>jobcount.go\<close>

definition jobcount_file :: "int \<Rightarrow> int \<Rightarrow> string" where
  "jobcount_file pid n = ''mr-worker-jobcount-'' @ Itoa pid @ ''-'' @ Itoa n"

text \<open>The directory and the variable \<open>count\<close> of the process.\<close>

definition jobcount_Map :: "int \<Rightarrow> filesys \<times> int \<Rightarrow> KeyValue list \<times> filesys \<times> int" where
  "jobcount_Map pid = (\<lambda>(fs, n). ([\<lparr>Key = ''a'', Value = ''x''\<rparr>], fs(jobcount_file pid n \<mapsto> Text ''x''), n + 1))"

definition HasPrefix :: "string \<Rightarrow> string \<Rightarrow> bool" where
  "HasPrefix s p \<longleftrightarrow> take (length p) s = p"

text \<open>The entries of the directory, in the order of their names.\<close>

definition jobcount_Reduce :: "string list \<Rightarrow> string" where
  "jobcount_Reduce names = Itoa (int (length (filter (\<lambda>f. HasPrefix f ''mr-worker-jobcount'') names)))"

section \<open>mtiming.go and rtiming.go\<close>

definition worker_file :: "string \<Rightarrow> int \<Rightarrow> string" where
  "worker_file ph pid = ''mr-worker-'' @ ph @ ''-'' @ Itoa pid"

text \<open>\<open>Sscanf\<close> with the pattern of a phase: the text before the verb must match; the number may have a sign, and
  what follows it does not matter.\<close>

definition scan_pid :: "string \<Rightarrow> string \<Rightarrow> int option" where
  "scan_pid ph name =
     (let p = ''mr-worker-'' @ ph @ ''-'' in
      if HasPrefix name p
      then map_option fst (parse_int (case dropWhile (\<lambda>c. c = CHR '' '') (drop (length p) name) of
             c # s \<Rightarrow> if c = CHR ''+'' \<and> s \<noteq> [] \<and> is_digit (hd s) then s else c # s | [] \<Rightarrow> []))
      else None)"

definition count_alive :: "string \<Rightarrow> (int \<Rightarrow> bool) \<Rightarrow> string list \<Rightarrow> int" where
  "count_alive ph alive names =
     int (length (filter (\<lambda>name. case scan_pid ph name of None \<Rightarrow> False | Some xpid \<Rightarrow> alive xpid) names))"

text \<open>\<open>nparallel\<close>: the worker's file is made, later the directory is read, and a second later the file is removed;
  other workers' files come and go in between.\<close>

definition nparallel_enter :: "string \<Rightarrow> int \<Rightarrow> filesys \<Rightarrow> filesys" where
  "nparallel_enter ph pid fs = fs(worker_file ph pid \<mapsto> Text ''x'')"

definition nparallel_leave :: "string \<Rightarrow> int \<Rightarrow> filesys \<Rightarrow> filesys go" where
  "nparallel_leave ph pid fs =
     (case fs (worker_file ph pid) of
        None \<Rightarrow> Inl (Fatal ''panic: remove'')
      | Some _ \<Rightarrow> Inr (fs(worker_file ph pid := None)))"

text \<open>\<open>rtiming\<close> has a copy of these functions.\<close>

definition rtiming_enter :: "string \<Rightarrow> int \<Rightarrow> filesys \<Rightarrow> filesys" where
  "rtiming_enter ph pid fs = fs(worker_file ph pid \<mapsto> Text ''x'')"

definition rtiming_count :: "string \<Rightarrow> (int \<Rightarrow> bool) \<Rightarrow> string list \<Rightarrow> int" where
  "rtiming_count ph alive names =
     foldl (\<lambda>ret name. case scan_pid ph name of None \<Rightarrow> ret | Some xpid \<Rightarrow> if alive xpid then ret + 1 else ret) 0 names"

definition rtiming_leave :: "string \<Rightarrow> int \<Rightarrow> filesys \<Rightarrow> filesys go" where
  "rtiming_leave ph pid fs =
     (if fs (worker_file ph pid) = None then Inl (Fatal ''panic: remove'') else Inr (fs(worker_file ph pid := None)))"

lemma rtiming_is_mtiming:
  "rtiming_enter ph pid fs = nparallel_enter ph pid fs" "rtiming_leave ph pid fs = nparallel_leave ph pid fs"
  "rtiming_count ph alive names = count_alive ph alive names"
proof -
  have "foldl (\<lambda>ret name. case scan_pid ph name of None \<Rightarrow> ret | Some xpid \<Rightarrow> if alive xpid then ret + 1 else ret) k names =
      k + count_alive ph alive names" for k
    by (induction names arbitrary: k) (auto simp: count_alive_def split: option.splits)
  then show "rtiming_count ph alive names = count_alive ph alive names" by (simp add: rtiming_count_def)
qed (simp_all add: rtiming_enter_def nparallel_enter_def rtiming_leave_def nparallel_leave_def split: option.splits)

text \<open>The time is formatted by the library.\<close>

definition mtiming_Map :: "int \<Rightarrow> string \<Rightarrow> int \<Rightarrow> KeyValue list" where
  "mtiming_Map pid shown_time n =
     [\<lparr>Key = ''times-'' @ Itoa pid, Value = shown_time\<rparr>, \<lparr>Key = ''parallel-'' @ Itoa pid, Value = Itoa n\<rparr>]"

definition mtiming_Reduce :: reduce_fun where
  "mtiming_Reduce key values = Join_with '' '' (sort values)"

definition rtiming_Map :: map_fun where
  "rtiming_Map filename contents = map (\<lambda>c. \<lparr>Key = [c], Value = ''1''\<rparr>) ''abcdefghij''"

definition rtiming_Reduce :: "int \<Rightarrow> string" where
  "rtiming_Reduce n = Itoa n"

section \<open>The contract of reduce functions\<close>

lemma join_sorted_reducer: "reducer (\<lambda>key values. Join_with sep (sort values))"
proof
  fix vs ws :: "string list" and k :: string
  assume "mset vs = mset ws"
  then have "sort vs = sort ws" by (intro properties_for_sort) simp_all
  then show "Join_with sep (sort vs) = Join_with sep (sort ws)" by simp
qed

lemma reducers: "reducer crash_Reduce" "reducer mtiming_Reduce" "reducer early_exit_Reduce"
proof -
  show "reducer crash_Reduce" using join_sorted_reducer unfolding crash_Reduce_def [abs_def] .
  show "reducer mtiming_Reduce" using join_sorted_reducer unfolding mtiming_Reduce_def [abs_def] .
  show "reducer early_exit_Reduce" by unfold_locales (auto simp: early_exit_Reduce_def dest: mset_eq_length)
qed

interpretation crash: reduce_phase "sort_key Key" crash_Reduce
  by (intro reduce_phase_intro stable.key_sorter_axioms reducers)

interpretation mtiming: reduce_phase "sort_key Key" mtiming_Reduce
  by (intro reduce_phase_intro stable.key_sorter_axioms reducers)

interpretation early_exit: reduce_phase "sort_key Key" early_exit_Reduce
  by (intro reduce_phase_intro stable.key_sorter_axioms reducers)

section \<open>Counting workers\<close>

lemma HasPrefix_append [simp]: "HasPrefix (p @ s) p"
  by (simp add: HasPrefix_def)

lemma scan_worker_file: "scan_pid ph (worker_file ph pid) = Some pid"
proof -
  have n: "HasPrefix (worker_file ph pid) (''mr-worker-'' @ ph @ ''-'')" "drop (length (''mr-worker-'' @ ph @ ''-'')) (worker_file ph pid) = Itoa pid"
    by (simp_all add: worker_file_def HasPrefix_def)
  obtain c s where cs: "Itoa pid = c # s" by (cases "Itoa pid") (auto simp: Itoa_def split: if_splits)
  have "c = CHR ''-'' \<or> is_digit c" using cs digits_are_digits [of c "nat pid"] by (auto simp: Itoa_def split: if_splits)
  then have c: "c \<noteq> CHR '' ''" "c \<noteq> CHR ''+''" by (auto simp: is_digit_def)
  have "parse_int (Itoa pid) = Some (pid, [])" using parse_Itoa [of "[]" pid] by simp
  then show ?thesis using n c cs by (simp add: scan_pid_def Let_def)
qed

lemma worker_file_inj: "worker_file ph pid = worker_file ph pid' \<Longrightarrow> pid = pid'"
  by (metis option.inject scan_worker_file)

text \<open>\<open>nparallel\<close> counts every worker that runs. If the directory lists the files of some live workers, the count is at
  least their number; and if every listed file belongs to a live worker or to none, it is exactly the
  number of listed worker files. A worker finds at least itself.\<close>

theorem nparallel_counts_workers:
  assumes "distinct names" and "finite P" and "\<forall>pid \<in> P. alive pid \<and> worker_file ph pid \<in> set names"
  shows "int (card P) \<le> count_alive ph alive names \<and>
    ((\<forall>name \<in> set names. scan_pid ph name = None \<or> (\<exists>pid \<in> P. name = worker_file ph pid)) \<longrightarrow> count_alive ph alive names = int (card P))"
proof -
  let ?live = "\<lambda>name. case scan_pid ph name of None \<Rightarrow> False | Some xpid \<Rightarrow> alive xpid"
  have c: "count_alive ph alive names = int (card (set (filter ?live names)))"
    using assms(1) by (simp add: count_alive_def distinct_card del: set_filter)
  have inj: "card (worker_file ph ` P) = card P" by (rule card_image) (auto intro: inj_onI worker_file_inj)
  have sub: "worker_file ph ` P \<subseteq> set (filter ?live names)" using assms(3) by (auto simp: scan_worker_file)
  have "set (filter ?live names) = worker_file ph ` P"
    if "\<forall>name \<in> set names. scan_pid ph name = None \<or> (\<exists>pid \<in> P. name = worker_file ph pid)"
  proof
    show "set (filter ?live names) \<subseteq> worker_file ph ` P" using that by (force split: option.splits)
  qed (rule sub)
  then show ?thesis using c inj card_mono [OF _ sub] by auto
qed

theorem nparallel_counts_workers_witness:
  "count_alive ''map'' (\<lambda>pid. pid \<in> {41, 42}) [worker_file ''map'' 41, worker_file ''map'' 42] = 2"
proof -
  have d: "distinct [worker_file ''map'' 41, worker_file ''map'' 42]" using worker_file_inj [of "''map''" 41 42] by auto
  show ?thesis
    using nparallel_counts_workers [OF d, of "{41, 42}" "\<lambda>pid. pid \<in> {41, 42}" "''map''"] by simp
qed

text \<open>The file a worker removes at the end is the one it made, whatever other workers do meanwhile.\<close>

lemma nparallel_cleans_up:
  assumes "fs' (worker_file ph pid) = nparallel_enter ph pid fs (worker_file ph pid)"
  shows "nparallel_leave ph pid fs' = Inr (fs'(worker_file ph pid := None))"
  using assms by (simp add: nparallel_enter_def nparallel_leave_def)

text \<open>Every run of a map task leaves a file of its own, so the count is the number of runs.\<close>

fun jobcount_runs :: "int \<Rightarrow> nat \<Rightarrow> filesys \<times> int \<Rightarrow> filesys \<times> int" where
  "jobcount_runs pid 0 st = st"
| "jobcount_runs pid (Suc k) st = jobcount_runs pid k (snd (jobcount_Map pid st))"

lemma jobcount_file_inj:
  assumes "0 \<le> m" and "0 \<le> n" and "jobcount_file pid m = jobcount_file pid n"
  shows "m = n"
  using assms Itoa_inject [of m n] by (simp add: jobcount_file_def)

lemma jobcount_runs_files:
  assumes "0 \<le> n"
  shows "jobcount_runs pid k (fs, n) =
     ((\<lambda>f. if \<exists>i < k. f = jobcount_file pid (n + int i) then Some (Text ''x'') else fs f), n + int k)"
  using assms
proof (induction k arbitrary: fs n)
  case (Suc k)
  have e: "(\<exists>i < Suc k. f = jobcount_file pid (n + int i)) \<longleftrightarrow> f = jobcount_file pid n \<or> (\<exists>i < k. f = jobcount_file pid (n + 1 + int i))" for f
    by (auto simp: less_Suc_eq_0_disj algebra_simps)
  have "0 \<le> n + 1" using Suc.prems by simp
  from Suc.IH [OF this, of "fs(jobcount_file pid n \<mapsto> Text ''x'')"] show ?case unfolding e
    by (simp add: jobcount_Map_def fun_upd_def) (auto simp: fun_eq_iff)
qed simp

section \<open>A crash while reducing\<close>

text \<open>The lines a reduce task has written when a call of the plugin ends the process: \<open>fates\<close> are those of the calls
  in turn.\<close>

fun lines_until :: "fate list \<Rightarrow> (string \<times> string) list \<Rightarrow> (string \<times> string) list" where
  "lines_until fates [] = []"
| "lines_until [] ls = ls"
| "lines_until (f # fates) (l # ls) = (if f = Exit then [] else l # lines_until fates ls)"

definition interrupted_reduce :: "sort_fun \<Rightarrow> reduce_fun \<Rightarrow> fate list \<Rightarrow> Task \<Rightarrow> filesys \<Rightarrow> filesys" where
  "interrupted_reduce sortf reducef fates task fs =
     fs(out_name (TaskId task) \<mapsto>
       Text (output_text (lines_until fates (reduce_groups reducef (sortf (read_intermediate reliable (TaskId task) (NMap task) fs))))))"

text \<open>A process that does not exit writes what the reduce task writes.\<close>

lemma uninterrupted_reduce:
  assumes "Exit \<notin> set fates"
  shows "performReduceTask sortf reducef reliable task fs = (interrupted_reduce sortf reducef fates task fs, True)"
proof -
  have "lines_until fates ls = ls" for ls using assms by (induction fates ls rule: lines_until.induct) auto
  then show ?thesis by (simp add: performReduceTask_def interrupted_reduce_def reliable_def Let_def)
qed

definition slow_job :: "job_event list" where
  "slow_job = [Ask 0 0, Run 0 reliable crash_Map, Report 0, Ask 1 1000, Check 20000, Ask 2 20000, Run 2 reliable crash_Map, Report 2]"

lemma crash_pairs: "crash_Map ''f'' ''b a b'' =
    [\<lparr>Key = ''a'', Value = ''f''\<rparr>, \<lparr>Key = ''b'', Value = ''1''\<rparr>, \<lparr>Key = ''c'', Value = ''5''\<rparr>, \<lparr>Key = ''d'', Value = ''xyzzy''\<rparr>]"
proof -
  have "Itoa 1 = ''1''" "Itoa 5 = ''5''" by code_simp+
  then show ?thesis by (simp add: crash_Map_def)
qed

lemma slow_job_runs:
  "\<exists>j t. job_steps (sort_key Key) crash_Reduce slow_job (job_start demo_coord demo_disk) = Some j \<and> Done (coord j) \<and>
     workers j 1 = Working t \<and> TaskType_of t = ReduceTask \<and> TaskId t = 0 \<and>
     disk j ''mr-out-0'' = Some (Text (output_text [(''a'', ''f''), (''b'', ''1''), (''c'', ''5''), (''d'', ''xyzzy'')]))"
  by (simp add: slow_job_def job_eval demo_disk_def crash_pairs demo_names Done_def reliable_def encode_reliable json_read_def utf8_replaced_ascii crash_Reduce_def)

text \<open>C38: A crash can destroy the output of a finished job. A worker that got a reduce task and is slow loses it to another
  one, which completes it, and the job is done with all its lines; if the slow worker then gets to its task,
  which starts by creating the output file anew, and the application exits in the first call, the output is empty.\<close>

theorem late_crash_destroys_output:
  "\<exists>j t. job_steps (sort_key Key) crash_Reduce slow_job (job_start demo_coord demo_disk) = Some j \<and> Done (coord j) \<and>
     disk j ''mr-out-0'' = Some (Text (output_text [(''a'', ''f''), (''b'', ''1''), (''c'', ''5''), (''d'', ''xyzzy'')])) \<and>
     workers j 1 = Working t \<and> interrupted_reduce (sort_key Key) crash_Reduce [maybeCrash 7 0] t (disk j) ''mr-out-0'' = Some (Text '''')"
proof -
  obtain j t where j: "job_steps (sort_key Key) crash_Reduce slow_job (job_start demo_coord demo_disk) = Some j" "Done (coord j)"
    "workers j 1 = Working t" "TaskId t = 0"
    "disk j ''mr-out-0'' = Some (Text (output_text [(''a'', ''f''), (''b'', ''1''), (''c'', ''5''), (''d'', ''xyzzy'')]))"
    using slow_job_runs by blast
  have "lines_until [Exit] ls = []" for ls by (cases ls) auto
  then have "interrupted_reduce (sort_key Key) crash_Reduce [maybeCrash 7 0] t (disk j) ''mr-out-0'' = Some (Text '''')"
    using j(4) by (simp add: interrupted_reduce_def maybeCrash_def demo_names output_text_def)
  then show ?thesis using j by blast
qed

end
