(* ===== verification/NetClerk.thy ===== *)
theory NetClerk
  imports LabRPC KVClerk
begin

text \<open>
  A clerk of the key/value server over the simulated network: \<open>kvsrv1/client.go\<close> on top of
  \<open>labrpc/labrpc.go\<close>. The server is a labrpc service with the methods \<open>Get\<close> and \<open>Put\<close>; the clerk sends its put,
  waits until the network answers the call, and sends it again as long as the call fails, while
  other clients' requests are sent, run, delayed and dropped in any order. Ends stay enabled and the
  server stays in place.

  The result justifies the clerk's model in \<open>KVClerk\<close>: every such run is one of its schedules.
\<close>

section \<open>The service\<close>

datatype kv_rep = GetRep GetReply | PutRep Err

definition answer :: "KVServer \<Rightarrow> kv_req \<Rightarrow> KVServer \<times> kv_rep" where
  "answer kv a =
     (case a of
        ReqGet key \<Rightarrow> (kv, GetRep (KVServer_Get kv key))
      | ReqPut args \<Rightarrow> (let (kv', e) = KVServer_Put kv args in (kv', PutRep e)))"

text \<open>The methods of \<open>*KVServer\<close>; \<open>Kill\<close> is not a handler, so what it does to a request does not matter. A handler is only called
  with arguments of its type.\<close>

definition kv_reflect :: "(KVServer, kv_req, kv_rep) reflect_method list" where
  "kv_reflect =
     [\<lparr>m_name = ''Get'', m_pkgpath = [], m_numin = 3, m_in2_ptr = True, m_numout = 0, m_func = answer\<rparr>,
      \<lparr>m_name = ''Kill'', m_pkgpath = [], m_numin = 1, m_in2_ptr = False, m_numout = 0, m_func = answer\<rparr>,
      \<lparr>m_name = ''Put'', m_pkgpath = [], m_numin = 3, m_in2_ptr = True, m_numout = 0, m_func = answer\<rparr>]"

definition kv_service :: "KVServer \<Rightarrow> (KVServer, kv_req, kv_rep) Service" where
  "kv_service kv = MakeService ''KVServer'' kv kv_reflect"

lemma kv_service_eq: "kv_service kv = \<lparr>svc_name = ''KVServer'', rcvr = kv, methods = [''Get'' \<mapsto> answer, ''Put'' \<mapsto> answer]\<rparr>"
  by (simp add: kv_service_def MakeService_def kv_reflect_def not_a_handler_def)

definition meth_of :: "kv_req \<Rightarrow> string" where
  "meth_of a = (case a of ReqGet _ \<Rightarrow> ''KVServer.Get'' | ReqPut _ \<Rightarrow> ''KVServer.Put'')"

section \<open>The system\<close>

type_synonym kvnet = "(nat, string, KVServer, kv_req, kv_rep) net_sys"

record kcsys =
  kc_net :: kvnet
  kc_att :: "nat option"       \<comment> \<open>the request of the clerk's present attempt\<close>
  kc_first :: bool             \<comment> \<open>\<open>firstAttempt\<close>\<close>
  kc_fin :: "Err option"       \<comment> \<open>what \<open>Put\<close> has returned\<close>

datatype kact =
    KSend nat kv_req           \<comment> \<open>another client, through an end\<close>
  | KBegin nat bool
  | KHandle nat
  | KEnd nat bool bool
  | KRelease nat
  | KFlags bool bool bool      \<comment> \<open>\<open>Reliable\<close>, \<open>LongDelays\<close>, \<open>LongReordering\<close>\<close>
  | KPut                       \<comment> \<open>the clerk sends its put, for the first time or again\<close>
  | KDone                      \<comment> \<open>the clerk's call has succeeded\<close>

definition kv_server_name :: string where "kv_server_name = ''server-0-0''"

definition kc_network :: "KVServer \<Rightarrow> (nat, string, KVServer, kv_req, kv_rep) Network" where
  "kc_network kv = MakeNetwork\<lparr>enabled := (\<lambda>_. True), connections := (\<lambda>_. Some kv_server_name),
     servers := [kv_server_name \<mapsto> 0], objs := (\<lambda>_. MakeServer)(0 := AddService (kv_service kv) MakeServer)\<rparr>"

definition kc_init :: "KVServer \<Rightarrow> kcsys" where
  "kc_init kv = \<lparr>kc_net = \<lparr>network = kc_network kv, requests = []\<rparr>, kc_att = None, kc_first = True, kc_fin = None\<rparr>"

definition send_request :: "nat \<Rightarrow> kv_req \<Rightarrow> kvnet \<Rightarrow> kvnet" where
  "send_request e a ns = ns\<lparr>network := (network ns)\<lparr>rn_count := rn_count (network ns) + 1\<rparr>,
     requests := requests ns @ [new_request e (meth_of a) a]\<rparr>"

definition set_request :: "nat \<Rightarrow> (nat, string, kv_req, kv_rep) request_state \<Rightarrow> kvnet \<Rightarrow> kvnet" where
  "set_request k q ns = ns\<lparr>requests := (requests ns)[k := q]\<rparr>"

text \<open>A request by its number; \<open>None\<close> of \<open>kc_do\<close>: the action is not possible now.\<close>

definition kc_do :: "nat \<Rightarrow> PutArgs \<Rightarrow> kact \<Rightarrow> kcsys \<Rightarrow> kcsys option" where
  "kc_do e args act s =
     (let ns = kc_net s; rn = network ns; rs = requests ns in
      case act of
        KSend e' a \<Rightarrow> Some (s\<lparr>kc_net := send_request e' a ns\<rparr>)
      | KBegin k dropped \<Rightarrow>
          if k < length rs \<and> target (rs ! k) = None \<and> held (rs ! k) = None \<and> replied (rs ! k) = None
          then Some (s\<lparr>kc_net := set_request k (begin_request dropped rn (rs ! k)) ns\<rparr>) else None
      | KHandle k \<Rightarrow>
          if k < length rs \<and> target (rs ! k) \<noteq> None \<and> handler (rs ! k) = None
          then (case run_handler rn (rs ! k) of
                  Inl _ \<Rightarrow> None
                | Inr (rn', q) \<Rightarrow> Some (s\<lparr>kc_net := \<lparr>network = rn', requests = rs[k := q]\<rparr>\<rparr>)) else None
      | KEnd k dropped delay \<Rightarrow>
          if k < length rs \<and> target (rs ! k) \<noteq> None \<and> held (rs ! k) = None \<and> replied (rs ! k) = None
          then Some (s\<lparr>kc_net := set_request k (end_request dropped delay rn (rs ! k)) ns\<rparr>) else None
      | KRelease k \<Rightarrow>
          if k < length rs then Some (s\<lparr>kc_net := set_request k (release_held (rs ! k)) ns\<rparr>) else None
      | KFlags rel del re \<Rightarrow> Some (s\<lparr>kc_net := ns\<lparr>network := LongReordering re (LongDelays del (Reliable rel rn))\<rparr>\<rparr>)
      | KPut \<Rightarrow>
          if kc_fin s = None \<and> (case kc_att s of None \<Rightarrow> True | Some k \<Rightarrow> Call_result (rs ! k) = Some None)
          then Some (s\<lparr>kc_net := send_request e (ReqPut args) ns, kc_att := Some (length rs), kc_first := (kc_att s = None)\<rparr>)
          else None
      | KDone \<Rightarrow>
          (case kc_att s of
             None \<Rightarrow> None
           | Some k \<Rightarrow>
               (case Call_result (rs ! k) of
                  Some (Some (PutRep err)) \<Rightarrow>
                    if kc_fin s = None then Some (s\<lparr>kc_fin := Some (Clerk_Put_reply (kc_first s) err)\<rparr>) else None
                | _ \<Rightarrow> None)))"

inductive kc_run :: "nat \<Rightarrow> PutArgs \<Rightarrow> KVServer \<Rightarrow> kcsys \<Rightarrow> bool" for e args kv0 where
  kc_start: "kc_run e args kv0 (kc_init kv0)"
| kc_step: "kc_run e args kv0 s \<Longrightarrow> kc_do e args act s = Some s' \<Longrightarrow> kc_run e args kv0 s'"

text \<open>Its network is one of \<open>LabRPC\<close>.\<close>

lemma kc_init_net: "net_run (kc_net (kc_init kv))"
proof -
  let ?s0 = "\<lparr>network = MakeNetwork, requests = []\<rparr> :: kvnet"
  have a: "net_step ?s0 (?s0\<lparr>network := (network ?s0)\<lparr>objs := (objs (network ?s0))(0 := AddService (kv_service kv) (objs (network ?s0) 0))\<rparr>\<rparr>)" (is "net_step _ ?s1")
    by (rule net_step.adds)
  have b: "net_step ?s1 (?s1\<lparr>network := kc_network kv\<rparr>)"
    by (rule net_step.changes) (simp add: kc_network_def MakeNetwork_def fun_upd_def)
  show ?thesis using net_next [OF net_next [OF net_init a] b] by (simp add: kc_init_def)
qed

lemma kc_do_net:
  assumes "kc_do e args act s = Some s'"
  shows "kc_net s' = kc_net s \<or> net_step (kc_net s) (kc_net s')"
proof (cases act)
  case (KSend e' a)
  then show ?thesis using assms net_step.send [of "kc_net s" e' "meth_of a" a] by (auto simp: kc_do_def Let_def send_request_def)
next
  case (KBegin k dropped)
  then show ?thesis using assms net_step.begins [OF _ refl, of k "kc_net s" dropped]
    by (auto simp: kc_do_def Let_def set_request_def split: if_splits)
next
  case (KHandle k)
  then show ?thesis using assms net_step.handles [OF _ refl, of k "kc_net s"]
    by (auto simp: kc_do_def Let_def split: if_splits sum.splits)
next
  case (KEnd k dropped delay)
  then show ?thesis using assms net_step.ends [OF _ refl, of k "kc_net s" dropped delay]
    by (auto simp: kc_do_def Let_def set_request_def split: if_splits)
next
  case (KRelease k)
  then show ?thesis using assms net_step.releases [OF _ refl, of k "kc_net s"]
    by (auto simp: kc_do_def Let_def set_request_def split: if_splits)
next
  case (KFlags rel del re)
  have "objs (LongReordering re (LongDelays del (Reliable rel (network (kc_net s))))) = objs (network (kc_net s))"
    by (simp add: LongReordering_def LongDelays_def Reliable_def)
  from net_step.changes [OF this] show ?thesis using assms KFlags by (auto simp: kc_do_def Let_def)
next
  case KPut
  then show ?thesis using assms net_step.send [of "kc_net s" e "meth_of (ReqPut args)" "ReqPut args"]
    by (auto simp: kc_do_def Let_def send_request_def split: if_splits)
next
  case KDone
  then show ?thesis using assms by (auto simp: kc_do_def Let_def split: if_splits option.splits kv_rep.splits)
qed

lemma kc_run_net: "kc_run e args kv0 s \<Longrightarrow> net_run (kc_net s)"
proof (induction rule: kc_run.induct)
  case kc_start
  show ?case by (rule kc_init_net)
next
  case (kc_step s act s')
  then show ?case using kc_do_net net_next by metis
qed

section \<open>What the server has executed\<close>

abbreviation after :: "KVServer \<Rightarrow> kv_req list \<Rightarrow> KVServer" where
  "after kv as \<equiv> snd (serve kv as)"

lemma after_Cons: "after kv (a # as) = after (fst (answer kv a)) as"
  by (simp add: serve_Cons answer_def Let_def case_prod_beta split: kv_req.splits)

lemma after_append: "after kv (as @ bs) = after (after kv as) bs"
  by (induction as arbitrary: kv) (simp_all add: after_Cons del: serve.simps(2,3))

lemma after_snoc: "after kv (as @ [a]) = fst (answer (after kv as) a)"
  by (simp add: after_append after_Cons del: serve.simps(2,3))

lemma dispatch_kv:
  assumes "services obj ''KVServer'' = Some (kv_service kv)"
  shows "\<exists>obj'. Server_dispatch (meth_of a) a obj = Inr (obj', snd (answer kv a)) \<and>
    services obj' ''KVServer'' = Some (kv_service (fst (answer kv a)))"
proof -
  have m: "split_method (meth_of a) = Inr (''KVServer'', case a of ReqGet _ \<Rightarrow> ''Get'' | ReqPut _ \<Rightarrow> ''Put'')"
    by (cases a) (simp_all add: meth_of_def split_method_def Let_def go_slice_to_def go_slice_from_def)
  have "Service_dispatch (case a of ReqGet _ \<Rightarrow> ''Get'' | ReqPut _ \<Rightarrow> ''Put'') a (kv_service kv) = Inr (kv_service (fst (answer kv a)), snd (answer kv a))"
    by (cases a) (simp_all add: Service_dispatch_def kv_service_eq Let_def case_prod_beta)
  then show ?thesis using assms m by (simp add: Server_dispatch_def Let_def)
qed

text \<open>\<open>ran_ks\<close> are the requests the server has executed, in that order; an answered request that was not executed never
  will be.\<close>

definition request_ok :: "(nat, string, kv_req, kv_rep) request_state \<Rightarrow> bool" where
  "request_ok q \<longleftrightarrow> svcMeth q = meth_of (req_args q) \<and> (target q = None \<longrightarrow> handler q = None) \<and>
     (\<forall>t. target q = Some t \<longrightarrow> (\<exists>rel lr. t = (kv_server_name, 0, rel, lr))) \<and>
     (replied q \<noteq> None \<or> held q \<noteq> None \<longrightarrow> target q = None \<or> handler q \<noteq> None) \<and>
     (\<forall>r. replied q = Some (Some r) \<or> held q = Some (Some r) \<longrightarrow> handler q = Some r)"

definition args_of :: "kvnet \<Rightarrow> nat list \<Rightarrow> kv_req list" where
  "args_of ns ran_ks = map (\<lambda>k. req_args (requests ns ! k)) ran_ks"

definition network_ok :: "(nat, string, KVServer, kv_req, kv_rep) Network \<Rightarrow> bool" where
  "network_ok rn \<longleftrightarrow> (\<forall>x. enabled rn x \<and> connections rn x = Some kv_server_name) \<and> servers rn kv_server_name = Some 0"

definition net_ok :: "KVServer \<Rightarrow> nat list \<Rightarrow> kvnet \<Rightarrow> bool" where
  "net_ok kv0 ran_ks ns \<longleftrightarrow> network_ok (network ns) \<and> distinct ran_ks \<and>
     services (objs (network ns) 0) ''KVServer'' = Some (kv_service (after kv0 (args_of ns ran_ks))) \<and>
     (\<forall>k. k \<in> set ran_ks \<longleftrightarrow> k < length (requests ns) \<and> handler (requests ns ! k) \<noteq> None) \<and>
     (\<forall>xs k ys. ran_ks = xs @ k # ys \<longrightarrow> handler (requests ns ! k) = Some (snd (answer (after kv0 (args_of ns xs)) (req_args (requests ns ! k))))) \<and>
     (\<forall>q \<in> set (requests ns). request_ok q)"

lemma network_ok_simps [simp]:
  "network_ok (rn\<lparr>rn_count := c\<rparr>) = network_ok rn" "network_ok (rn\<lparr>objs := ob\<rparr>) = network_ok rn"
  "network_ok (LongReordering re (LongDelays del (Reliable rel rn))) = network_ok rn"
  by (simp_all add: network_ok_def LongReordering_def LongDelays_def Reliable_def)

text \<open>A change of one request that does not run it.\<close>

lemma net_ok_set:
  assumes ok: "net_ok kv0 ran_ks ns" and k: "k < length (requests ns)" and q: "request_ok q"
    "handler q = handler (requests ns ! k)" "req_args q = req_args (requests ns ! k)"
  shows "net_ok kv0 ran_ks (set_request k q ns)" and "args_of (set_request k q ns) xs = args_of ns xs"
proof -
  have a: "req_args ((requests ns)[k := q] ! i) = req_args (requests ns ! i)" for i using q(3) k by (cases "i = k") auto
  have h: "handler ((requests ns)[k := q] ! i) = handler (requests ns ! i)" for i using q(2) k by (cases "i = k") auto
  show args: "args_of (set_request k q ns) xs = args_of ns xs" for xs by (simp add: args_of_def set_request_def a)
  have "\<forall>q' \<in> set ((requests ns)[k := q]). request_ok q'"
    using ok q(1) set_update_subset_insert [of "requests ns" k q] unfolding net_ok_def by blast
  then show "net_ok kv0 ran_ks (set_request k q ns)" using ok unfolding net_ok_def args by (simp add: set_request_def a h)
qed

lemma net_ok_send:
  assumes ok: "net_ok kv0 ran_ks ns"
  shows "net_ok kv0 ran_ks (send_request e a ns)" and "set xs \<subseteq> set ran_ks \<Longrightarrow> args_of (send_request e a ns) xs = args_of ns xs"
proof -
  have lt: "\<And>i. i \<in> set ran_ks \<Longrightarrow> i < length (requests ns)" using ok by (auto simp: net_ok_def)
  show args: "args_of (send_request e a ns) xs = args_of ns xs" if "set xs \<subseteq> set ran_ks" for xs
    using that lt by (auto simp: args_of_def send_request_def nth_append)
  have "handler (requests (send_request e a ns) ! k) =
      Some (snd (answer (after kv0 (args_of (send_request e a ns) xs)) (req_args (requests (send_request e a ns) ! k))))" if r: "ran_ks = xs @ k # ys" for xs k ys
  proof -
    have old: "handler (requests ns ! k) = Some (snd (answer (after kv0 (args_of ns xs)) (req_args (requests ns ! k))))"
      using ok r unfolding net_ok_def by blast
    have "args_of (send_request e a ns) xs = args_of ns xs" "k < length (requests ns)" using args [of xs] lt [of k] r by auto
    then show ?thesis using old by (simp add: send_request_def nth_append)
  qed
  moreover have "k \<in> set ran_ks \<longleftrightarrow> k < length (requests (send_request e a ns)) \<and> handler (requests (send_request e a ns) ! k) \<noteq> None" for k
    using ok by (auto simp: net_ok_def send_request_def nth_append new_request_def less_Suc_eq)
  moreover have "\<forall>q \<in> set (requests (send_request e a ns)). request_ok q"
    using ok by (auto simp: net_ok_def send_request_def request_ok_def new_request_def)
  ultimately show "net_ok kv0 ran_ks (send_request e a ns)"
    using ok args [of ran_ks] unfolding net_ok_def by (simp add: send_request_def)
qed

text \<open>Running a request.\<close>

lemma net_ok_handle:
  assumes ok: "net_ok kv0 ran_ks ns" and k: "k < length (requests ns)" "target (requests ns ! k) \<noteq> None" "handler (requests ns ! k) = None"
  shows "\<exists>rn q. run_handler (network ns) (requests ns ! k) = Inr (rn, q) \<and> req_args q = req_args (requests ns ! k) \<and>
    net_ok kv0 (ran_ks @ [k]) \<lparr>network = rn, requests = (requests ns)[k := q]\<rparr> \<and>
    (\<forall>xs. args_of \<lparr>network = rn, requests = (requests ns)[k := q]\<rparr> xs = args_of ns xs)"
proof -
  let ?q = "requests ns ! k" and ?kv = "after kv0 (args_of ns ran_ks)"
  have rq: "request_ok ?q" using ok k(1) by (auto simp: net_ok_def)
  then obtain rel lr where t: "target ?q = Some (kv_server_name, 0, rel, lr)" using k(2) by (auto simp: request_ok_def)
  have m: "svcMeth ?q = meth_of (req_args ?q)" using rq by (simp add: request_ok_def)
  have nk: "k \<notin> set ran_ks" using ok k(3) by (auto simp: net_ok_def)
  obtain obj where d: "Server_dispatch (meth_of (req_args ?q)) (req_args ?q) (objs (network ns) 0) = Inr (obj, snd (answer ?kv (req_args ?q)))"
    "services obj ''KVServer'' = Some (kv_service (fst (answer ?kv (req_args ?q))))" using dispatch_kv ok unfolding net_ok_def by blast
  define q where "q = ?q\<lparr>handler := Some (snd (answer ?kv (req_args ?q)))\<rparr>"
  define rn where "rn = (network ns)\<lparr>objs := (objs (network ns))(0 := obj)\<rparr>"
  let ?ns = "\<lparr>network = rn, requests = (requests ns)[k := q]\<rparr>"
  have run: "run_handler (network ns) ?q = Inr (rn, q)" using t m d(1) by (simp add: run_handler_def rn_def q_def)
  have a: "req_args ((requests ns)[k := q] ! i) = req_args (requests ns ! i)" for i using k(1) by (cases "i = k") (auto simp: q_def)
  have args: "args_of ?ns xs = args_of ns xs" for xs by (simp add: args_of_def a)
  have "request_ok q" using rq t k(3) by (auto simp: request_ok_def q_def)
  then have all: "\<forall>q' \<in> set ((requests ns)[k := q]). request_ok q'"
    using ok set_update_subset_insert [of "requests ns" k q] unfolding net_ok_def by blast
  have "handler ((requests ns)[k := q] ! i) = Some (snd (answer (after kv0 (args_of ns xs)) (req_args (requests ns ! i))))"
    if r: "ran_ks @ [k] = xs @ i # ys" for xs i ys
  proof (cases ys rule: rev_cases)
    case Nil
    then show ?thesis using r k(1) by (simp add: q_def)
  next
    case (snoc zs z)
    then have r': "ran_ks = xs @ i # zs" using r by simp
    then have "i \<noteq> k" using nk by auto
    then show ?thesis using ok r' unfolding net_ok_def by auto
  qed
  moreover have "i \<in> set (ran_ks @ [k]) \<longleftrightarrow> i < length (requests ns) \<and> handler ((requests ns)[k := q] ! i) \<noteq> None" for i
    using ok k(1) by (cases "i = k") (auto simp: net_ok_def q_def)
  moreover have "after kv0 (args_of ns (ran_ks @ [k])) = fst (answer ?kv (req_args ?q))" by (simp add: args_of_def after_snoc)
  ultimately have "net_ok kv0 (ran_ks @ [k]) ?ns" using ok all d(2) nk unfolding net_ok_def args by (simp add: a) (simp add: rn_def)
  then show ?thesis using run args by (intro exI [of _ rn] exI [of _ q]) (simp add: q_def)
qed

text \<open>The network's other treatment of a request keeps it in order, as ends stay enabled and the server in place.\<close>

lemma begin_ok:
  assumes "network_ok rn" and "request_ok q" and "target q = None" and "held q = None" and "replied q = None"
  shows "request_ok (begin_request dropped rn q)" "handler (begin_request dropped rn q) = handler q" "req_args (begin_request dropped rn q) = req_args q"
  using assms by (auto simp: begin_request_def readEndnameInfo_def network_ok_def request_ok_def)

lemma end_ok:
  assumes "network_ok rn" and "request_ok q"
  shows "request_ok (end_request dropped delay rn q)" "handler (end_request dropped delay rn q) = handler q"
    "req_args (end_request dropped delay rn q) = req_args q"
proof -
  have "\<not> isServerDead (endname q) kv_server_name 0 rn" using assms(1) by (simp add: isServerDead_def network_ok_def)
  then show "request_ok (end_request dropped delay rn q)" "handler (end_request dropped delay rn q) = handler q"
    "req_args (end_request dropped delay rn q) = req_args q"
    using assms(2) by (auto simp: end_request_def request_ok_def Let_def split: option.splits)
qed

lemma release_ok:
  assumes "request_ok q"
  shows "request_ok (release_held q)" "handler (release_held q) = handler q" "req_args (release_held q) = req_args q"
  using assms by (auto simp: release_held_def request_ok_def split: option.splits)

section \<open>The clerk\<close>

lemma loop_append:
  "Delivered \<notin> snd ` set sch \<Longrightarrow> \<exists>kv' n. Clerk_Put_loop f kv args sch = (None, kv', n) \<and>
     (\<forall>later. Clerk_Put_loop f kv args (sch @ later) =
        (let (r, kv2, m) = Clerk_Put_loop (f \<and> sch = []) kv' args later in (r, kv2, m + n)))"
proof (induction sch arbitrary: f kv)
  case (Cons x sch)
  obtain env out where x: "x = (env, out)" by (cases x)
  have nd: "out \<noteq> Delivered" "Delivered \<notin> snd ` set sch" using Cons.prems x by auto
  let ?kv1 = "after kv env"
  let ?kv2 = "if out = ReqLost then ?kv1 else fst (KVServer_Put ?kv1 args)"
  obtain kv' n where l: "Clerk_Put_loop False ?kv2 args sch = (None, kv', n)"
    "\<And>later. Clerk_Put_loop False ?kv2 args (sch @ later) = (let (r, kv2, m) = Clerk_Put_loop False kv' args later in (r, kv2, m + n))"
    using Cons.IH [OF nd(2), of False ?kv2] by auto
  show ?case using l nd(1) x by (cases out) (auto simp: Let_def case_prod_beta add.assoc)
qed auto

text \<open>What the server executes under a schedule, in order.\<close>

definition executed :: "PutArgs \<Rightarrow> schedule \<Rightarrow> kv_req list" where
  "executed args sch = concat (map (\<lambda>(env, out). if out = ReqLost then env else env @ [ReqPut args]) sch)"

text \<open>The schedule of the clerk's failed attempts takes the server from its start to the state after \<open>ran1\<close>; of the
  present attempt, if it has been executed, the requests executed before it are \<open>xs\<close>.\<close>

definition clerk_ok :: "KVServer \<Rightarrow> PutArgs \<Rightarrow> nat list \<Rightarrow> kcsys \<Rightarrow> bool" where
  "clerk_ok kv0 args ran_ks s \<longleftrightarrow>
     (case kc_fin s of
        None \<Rightarrow> \<exists>sch ran1 ran2 n. ran_ks = ran1 @ ran2 \<and> args_of (kc_net s) ran1 = executed args sch \<and> Delivered \<notin> snd ` set sch \<and>
          Clerk_Put kv0 args sch = (None, after kv0 (args_of (kc_net s) ran1), n) \<and>
          (case kc_att s of
             None \<Rightarrow> sch = []
           | Some k \<Rightarrow> kc_first s = (sch = []) \<and> k < length (requests (kc_net s)) \<and> req_args (requests (kc_net s) ! k) = ReqPut args \<and> k \<notin> set ran1)
      | Some err \<Rightarrow> \<exists>sch ran1 ran2 n. ran_ks = ran1 @ ran2 \<and> args_of (kc_net s) ran1 = executed args sch \<and> Clerk_Put kv0 args sch = (Some err, after kv0 (args_of (kc_net s) ran1), n))"

lemma put_after: "fst (KVServer_Put (after kv as) args) = after kv (as @ [ReqPut args])"
  by (simp add: after_snoc answer_def Let_def case_prod_beta)

lemma clerk_retry:
  assumes net: "net_ok kv0 ran_ks (kc_net s)" and ck: "clerk_ok kv0 args ran_ks s" and fin: "kc_fin s = None"
    and att: "kc_att s = Some k" and rep: "replied (requests (kc_net s) ! k) = Some None"
  shows "\<exists>sch ran1 ran2 n. ran_ks = ran1 @ ran2 \<and> args_of (kc_net s) ran1 = executed args sch \<and> sch \<noteq> [] \<and> Delivered \<notin> snd ` set sch \<and>
    Clerk_Put kv0 args sch = (None, after kv0 (args_of (kc_net s) ran1), n)"
proof -
  let ?A = "args_of (kc_net s)"
  obtain sch ran1 ran2 n where c: "ran_ks = ran1 @ ran2" "Delivered \<notin> snd ` set sch" "Clerk_Put kv0 args sch = (None, after kv0 (?A ran1), n)"
    "k < length (requests (kc_net s))" "req_args (requests (kc_net s) ! k) = ReqPut args" "k \<notin> set ran1" "?A ran1 = executed args sch"
    using ck unfolding clerk_ok_def fin att option.case by blast
  have app: "?A (xs @ ys) = ?A xs @ ?A ys" for xs ys by (simp add: args_of_def)
  have l: "Clerk_Put kv0 args (sch @ later) = (let (r, kv2, m) = Clerk_Put_loop (sch = []) (after kv0 (?A ran1)) args later in (r, kv2, m + n))" for later
    using loop_append [OF c(2), of True kv0 args] c(3) by (auto simp: Clerk_Put_def)
  show ?thesis
  proof (cases "k \<in> set ran2")
    case True
    then obtain xs ys where r2: "ran2 = xs @ k # ys" using split_list by metis
    have "after (after kv0 (?A ran1)) (?A xs) = after kv0 (?A (ran1 @ xs))" by (simp add: app after_append)
    moreover have "fst (KVServer_Put (after kv0 (?A (ran1 @ xs))) args) = after kv0 (?A (ran1 @ xs @ [k]))"
      using c(5) by (simp add: put_after args_of_def)
    ultimately have "\<exists>m. Clerk_Put kv0 args (sch @ [(?A xs, RepLost)]) = (None, after kv0 (?A (ran1 @ xs @ [k])), m)"
      by (simp add: l Let_def case_prod_beta)
    then show ?thesis using c(1,2,5,7) r2 by (intro exI [of _ "sch @ [(?A xs, RepLost)]"] exI [of _ "ran1 @ xs @ [k]"] exI [of _ ys]) (auto simp: executed_def args_of_def)
  next
    case False
    have "after (after kv0 (?A ran1)) (?A ran2) = after kv0 (?A (ran1 @ ran2))" by (simp add: app after_append)
    then have "\<exists>m. Clerk_Put kv0 args (sch @ [(?A ran2, ReqLost)]) = (None, after kv0 (?A (ran1 @ ran2)), m)"
      by (simp add: l Let_def case_prod_beta)
    then show ?thesis using c(1,2,7) by (intro exI [of _ "sch @ [(?A ran2, ReqLost)]"] exI [of _ "ran1 @ ran2"] exI [of _ "[]"]) (auto simp: executed_def args_of_def)
  qed
qed

lemma clerk_done:
  assumes net: "net_ok kv0 ran_ks (kc_net s)" and ck: "clerk_ok kv0 args ran_ks s" and fin: "kc_fin s = None"
    and att: "kc_att s = Some k" and rep: "replied (requests (kc_net s) ! k) = Some (Some (PutRep err))"
  shows "\<exists>sch ran1 ran2 n. ran_ks = ran1 @ ran2 \<and> args_of (kc_net s) ran1 = executed args sch \<and>
    Clerk_Put kv0 args sch = (Some (Clerk_Put_reply (kc_first s) err), after kv0 (args_of (kc_net s) ran1), n)"
proof -
  let ?A = "args_of (kc_net s)" and ?q = "requests (kc_net s) ! k"
  obtain sch ran1 ran2 n where c: "ran_ks = ran1 @ ran2" "Delivered \<notin> snd ` set sch" "Clerk_Put kv0 args sch = (None, after kv0 (?A ran1), n)"
    "k < length (requests (kc_net s))" "req_args ?q = ReqPut args" "k \<notin> set ran1"
    "kc_first s = (sch = [])" "?A ran1 = executed args sch" using ck fin att by (auto simp: clerk_ok_def)
  have "request_ok ?q" using net c(4) by (auto simp: net_ok_def)
  then have h: "handler ?q = Some (PutRep err)" using rep by (auto simp: request_ok_def)
  then have "k \<in> set ran_ks" using net c(4) by (auto simp: net_ok_def)
  then have "k \<in> set ran2" using c(1,6) by simp
  then obtain xs ys where r2: "ran2 = xs @ k # ys" using split_list by metis
  have "ran_ks = (ran1 @ xs) @ k # ys" using c(1) r2 by simp
  then have "handler ?q = Some (snd (answer (after kv0 (?A (ran1 @ xs))) (ReqPut args)))" using net c(5) unfolding net_ok_def by metis
  then have e: "snd (KVServer_Put (after kv0 (?A (ran1 @ xs))) args) = err" using h by (simp add: answer_def Let_def case_prod_beta)
  have app: "?A (xs @ ys) = ?A xs @ ?A ys" for xs ys by (simp add: args_of_def)
  have l: "Clerk_Put kv0 args (sch @ later) = (let (r, kv2, m) = Clerk_Put_loop (sch = []) (after kv0 (?A ran1)) args later in (r, kv2, m + n))" for later
    using loop_append [OF c(2), of True kv0 args] c(3) by (auto simp: Clerk_Put_def)
  have "after (after kv0 (?A ran1)) (?A xs) = after kv0 (?A (ran1 @ xs))" by (simp add: app after_append)
  moreover have "fst (KVServer_Put (after kv0 (?A (ran1 @ xs))) args) = after kv0 (?A (ran1 @ xs @ [k]))"
    using c(5) by (simp add: put_after args_of_def)
  ultimately have "\<exists>m. Clerk_Put kv0 args (sch @ [(?A xs, Delivered)]) = (Some (Clerk_Put_reply (kc_first s) err), after kv0 (?A (ran1 @ xs @ [k])), m)"
    using e c(7) by (simp add: l Let_def case_prod_beta)
  then show ?thesis using c(1,5,8) r2 by (intro exI [of _ "sch @ [(?A xs, Delivered)]"] exI [of _ "ran1 @ xs @ [k]"] exI [of _ ys]) (auto simp: executed_def args_of_def)
qed

lemma clerk_ok_frame:
  assumes ck: "clerk_ok kv0 args ran_ks s" and same: "kc_att s' = kc_att s" "kc_first s' = kc_first s" "kc_fin s' = kc_fin s"
    and arg: "\<And>xs. set xs \<subseteq> set ran_ks \<Longrightarrow> args_of (kc_net s') xs = args_of (kc_net s) xs"
    and req: "length (requests (kc_net s)) \<le> length (requests (kc_net s'))"
      "\<And>k. k < length (requests (kc_net s)) \<Longrightarrow> req_args (requests (kc_net s') ! k) = req_args (requests (kc_net s) ! k)"
  shows "clerk_ok kv0 args (ran_ks @ later) s'"
proof (cases "kc_fin s")
  case None
  then obtain sch ran1 ran2 n where c: "ran_ks = ran1 @ ran2" "Delivered \<notin> snd ` set sch"
    "Clerk_Put kv0 args sch = (None, after kv0 (args_of (kc_net s) ran1), n)"
    "case kc_att s of None \<Rightarrow> sch = []
     | Some k \<Rightarrow> kc_first s = (sch = []) \<and> k < length (requests (kc_net s)) \<and> req_args (requests (kc_net s) ! k) = ReqPut args \<and> k \<notin> set ran1"
    "args_of (kc_net s) ran1 = executed args sch"
    using ck unfolding clerk_ok_def by auto
  have "args_of (kc_net s') ran1 = args_of (kc_net s) ran1" using c(1) by (intro arg) simp
  moreover have "case kc_att s' of None \<Rightarrow> sch = []
     | Some k \<Rightarrow> kc_first s' = (sch = []) \<and> k < length (requests (kc_net s')) \<and> req_args (requests (kc_net s') ! k) = ReqPut args \<and> k \<notin> set ran1"
    using c(4) same req by (cases "kc_att s") auto
  moreover have "ran_ks @ later = ran1 @ (ran2 @ later)" using c(1) by simp
  ultimately have "\<exists>sch ran1 ran2 n. ran_ks @ later = ran1 @ ran2 \<and> args_of (kc_net s') ran1 = executed args sch \<and> Delivered \<notin> snd ` set sch \<and>
      Clerk_Put kv0 args sch = (None, after kv0 (args_of (kc_net s') ran1), n) \<and>
      (case kc_att s' of None \<Rightarrow> sch = []
       | Some k \<Rightarrow> kc_first s' = (sch = []) \<and> k < length (requests (kc_net s')) \<and> req_args (requests (kc_net s') ! k) = ReqPut args \<and> k \<notin> set ran1)"
    using c(2,3,5) by (intro exI [of _ sch] exI [of _ ran1] exI [of _ "ran2 @ later"] exI [of _ n]) simp
  then show ?thesis using None same(3) unfolding clerk_ok_def by simp
next
  case (Some err)
  then obtain sch ran1 ran2 n where c: "ran_ks = ran1 @ ran2" "Clerk_Put kv0 args sch = (Some err, after kv0 (args_of (kc_net s) ran1), n)"
    "args_of (kc_net s) ran1 = executed args sch"
    using ck unfolding clerk_ok_def by auto
  have "args_of (kc_net s') ran1 = args_of (kc_net s) ran1" using c(1) by (intro arg) simp
  moreover have "ran_ks @ later = ran1 @ (ran2 @ later)" using c(1) by simp
  ultimately have "\<exists>sch ran1 ran2 n. ran_ks @ later = ran1 @ ran2 \<and> args_of (kc_net s') ran1 = executed args sch \<and> Clerk_Put kv0 args sch = (Some err, after kv0 (args_of (kc_net s') ran1), n)"
    using c(2,3) by (intro exI [of _ sch] exI [of _ ran1] exI [of _ "ran2 @ later"] exI [of _ n]) simp
  then show ?thesis using Some same(3) unfolding clerk_ok_def by simp
qed

lemma set_frame:
  assumes ok: "net_ok kv0 ran_ks (kc_net s)" "clerk_ok kv0 args ran_ks s" and k: "k < length (requests (kc_net s))"
    and q: "request_ok q" "handler q = handler (requests (kc_net s) ! k)" "req_args q = req_args (requests (kc_net s) ! k)"
  shows "\<exists>ran_ks. net_ok kv0 ran_ks (set_request k q (kc_net s)) \<and> clerk_ok kv0 args ran_ks (s\<lparr>kc_net := set_request k q (kc_net s)\<rparr>)"
proof -
  note n = net_ok_set [OF ok(1) k q]
  have "clerk_ok kv0 args (ran_ks @ []) (s\<lparr>kc_net := set_request k q (kc_net s)\<rparr>)"
    by (rule clerk_ok_frame [OF ok(2)]) (use n(2) q(3) k in \<open>auto simp: set_request_def nth_list_update\<close>)
  then show ?thesis using n(1) by auto
qed

lemma kc_step_ok:
  assumes ok: "net_ok kv0 ran_ks (kc_net s)" "clerk_ok kv0 args ran_ks s" and d: "kc_do e args act s = Some s'"
  shows "\<exists>ran_ks. net_ok kv0 ran_ks (kc_net s') \<and> clerk_ok kv0 args ran_ks s'"
proof -
  have nok: "network_ok (network (kc_net s))" using ok(1) by (simp add: net_ok_def)
  have rok: "request_ok (requests (kc_net s) ! k)" if "k < length (requests (kc_net s))" for k using ok(1) that by (auto simp: net_ok_def)
  have lt: "k < length (requests (kc_net s))" if "k \<in> set ran_ks" for k using ok(1) that by (auto simp: net_ok_def)
  have old: "req_args (requests (send_request e' a (kc_net s)) ! k) = req_args (requests (kc_net s) ! k)" if "k < length (requests (kc_net s))" for e' a k
    using that by (simp add: send_request_def nth_append)
  show ?thesis
  proof (cases act)
    case (KSend e' a)
    note n = net_ok_send [OF ok(1), where e = e' and a = a]
    have "clerk_ok kv0 args (ran_ks @ []) (s\<lparr>kc_net := send_request e' a (kc_net s)\<rparr>)"
      by (rule clerk_ok_frame [OF ok(2)]) (use n(2) old in \<open>auto simp: send_request_def\<close>)
    then show ?thesis using n(1) d KSend by (auto simp: kc_do_def Let_def)
  next
    case (KBegin k dropped)
    then show ?thesis using d set_frame [OF ok, of k "begin_request dropped (network (kc_net s)) (requests (kc_net s) ! k)"]
        begin_ok [OF nok rok] by (auto simp: kc_do_def Let_def split: if_splits)
  next
    case (KHandle k)
    then have k: "k < length (requests (kc_net s))" "target (requests (kc_net s) ! k) \<noteq> None" "handler (requests (kc_net s) ! k) = None"
      using d by (auto simp: kc_do_def Let_def split: if_splits)
    obtain rn q where h: "run_handler (network (kc_net s)) (requests (kc_net s) ! k) = Inr (rn, q)" "req_args q = req_args (requests (kc_net s) ! k)"
      "net_ok kv0 (ran_ks @ [k]) \<lparr>network = rn, requests = (requests (kc_net s))[k := q]\<rparr>"
      "\<And>xs. args_of \<lparr>network = rn, requests = (requests (kc_net s))[k := q]\<rparr> xs = args_of (kc_net s) xs"
      using net_ok_handle [OF ok(1) k] by blast
    have "clerk_ok kv0 args (ran_ks @ [k]) (s\<lparr>kc_net := \<lparr>network = rn, requests = (requests (kc_net s))[k := q]\<rparr>\<rparr>)"
      by (rule clerk_ok_frame [OF ok(2)]) (use h(2,4) k(1) in \<open>auto simp: nth_list_update\<close>)
    then show ?thesis using d KHandle h(1,3) by (auto simp: kc_do_def Let_def split: if_splits)
  next
    case (KEnd k dropped delay)
    then show ?thesis using d set_frame [OF ok, of k "end_request dropped delay (network (kc_net s)) (requests (kc_net s) ! k)"]
        end_ok [OF nok rok] by (auto simp: kc_do_def Let_def split: if_splits)
  next
    case (KRelease k)
    then show ?thesis using d set_frame [OF ok, of k "release_held (requests (kc_net s) ! k)"] release_ok [OF rok]
      by (auto simp: kc_do_def Let_def split: if_splits)
  next
    case (KFlags rel del re)
    let ?ns = "(kc_net s)\<lparr>network := LongReordering re (LongDelays del (Reliable rel (network (kc_net s))))\<rparr>"
    have a: "args_of ?ns xs = args_of (kc_net s) xs" for xs by (simp add: args_of_def)
    have "net_ok kv0 ran_ks ?ns" using ok(1) unfolding net_ok_def a by (simp add: LongReordering_def LongDelays_def Reliable_def network_ok_def)
    moreover have "clerk_ok kv0 args (ran_ks @ []) (s\<lparr>kc_net := ?ns\<rparr>)" by (rule clerk_ok_frame [OF ok(2)]) (use a in auto)
    ultimately show ?thesis using d KFlags by (auto simp: kc_do_def Let_def)
  next
    case KPut
    let ?ns = "send_request e (ReqPut args) (kc_net s)" and ?k = "length (requests (kc_net s))"
    note n = net_ok_send [OF ok(1), where e = e and a = "ReqPut args"]
    have fin: "kc_fin s = None" and s': "s' = s\<lparr>kc_net := ?ns, kc_att := Some ?k, kc_first := (kc_att s = None)\<rparr>"
      using d KPut by (auto simp: kc_do_def Let_def split: if_splits)
    obtain sch ran1 ran2 m where c: "ran_ks = ran1 @ ran2" "Delivered \<notin> snd ` set sch" "(sch = []) = (kc_att s = None)"
      "Clerk_Put kv0 args sch = (None, after kv0 (args_of (kc_net s) ran1), m)" "args_of (kc_net s) ran1 = executed args sch"
    proof (cases "kc_att s")
      case None
      then show ?thesis using ok(2) fin that unfolding clerk_ok_def by auto
    next
      case (Some k)
      then have "replied (requests (kc_net s) ! k) = Some None" using d KPut by (auto simp: kc_do_def Let_def Call_result_def split: if_splits)
      from clerk_retry [OF ok fin Some this] show ?thesis using that Some by auto
    qed
    have "args_of ?ns ran1 = args_of (kc_net s) ran1" using c(1) n(2) by simp
    moreover have "req_args (requests ?ns ! ?k) = ReqPut args" "?k < length (requests ?ns)" by (simp_all add: send_request_def new_request_def)
    moreover have "?k \<notin> set ran1" using lt [of ?k] c(1) by auto
    ultimately have "clerk_ok kv0 args ran_ks s'" using c fin unfolding s' clerk_ok_def
      by simp (rule exI [of _ sch], rule exI [of _ ran1], simp)
    then show ?thesis using n(1) s' by auto
  next
    case KDone
    then obtain k err where k: "kc_att s = Some k" "replied (requests (kc_net s) ! k) = Some (Some (PutRep err))" "kc_fin s = None"
      "s' = s\<lparr>kc_fin := Some (Clerk_Put_reply (kc_first s) err)\<rparr>"
      using d by (auto simp: kc_do_def Let_def Call_result_def split: if_splits option.splits kv_rep.splits)
    from clerk_done [OF ok k(3,1,2)] have "clerk_ok kv0 args ran_ks s'" unfolding k(4) clerk_ok_def by simp
    then show ?thesis using ok(1) k(4) by auto
  qed
qed

lemma kc_run_ok: "kc_run e args kv0 s \<Longrightarrow> \<exists>ran_ks. net_ok kv0 ran_ks (kc_net s) \<and> clerk_ok kv0 args ran_ks s"
proof (induction rule: kc_run.induct)
  case kc_start
  have "net_ok kv0 [] (kc_net (kc_init kv0))"
    by (simp add: net_ok_def kc_init_def kc_network_def MakeNetwork_def network_ok_def args_of_def AddService_def MakeServer_def) (simp add: kv_service_eq)
  moreover have "clerk_ok kv0 args [] (kc_init kv0)" by (simp add: clerk_ok_def kc_init_def Clerk_Put_def args_of_def executed_def)
  ultimately show ?case by blast
next
  case (kc_step s act s')
  then show ?case using kc_step_ok by blast
qed

text \<open>C21: A clerk's put over the simulated network refines the clerk's model: when \<open>Put\<close> has returned, after any traffic, delays,
  losses and retries, the requests the server executed are, in order and each once, those of a schedule of \<open>KVClerk\<close> followed
  by later ones; \<open>Put\<close> returned what that schedule gives, and the server's state is the one those requests lead to.\<close>

theorem clerk_put_over_network:
  assumes "kc_run e args kv0 s" and "kc_fin s = Some err"
  shows "\<exists>ks sch env n. distinct ks \<and>
    set ks = {k. k < length (requests (kc_net s)) \<and> handler (requests (kc_net s) ! k) \<noteq> None} \<and>
    map (\<lambda>k. req_args (requests (kc_net s) ! k)) ks = executed args sch @ env \<and>
    Clerk_Put kv0 args sch = (Some err, snd (serve kv0 (executed args sch)), n) \<and>
    services (objs (network (kc_net s)) 0) ''KVServer'' = Some (kv_service (snd (serve kv0 (executed args sch @ env)))) \<and>
    net_run (kc_net s)"
proof -
  obtain ks where ok: "net_ok kv0 ks (kc_net s)" "clerk_ok kv0 args ks s" using kc_run_ok [OF assms(1)] by blast
  obtain sch ran1 ran2 n where c: "ks = ran1 @ ran2" "args_of (kc_net s) ran1 = executed args sch"
    "Clerk_Put kv0 args sch = (Some err, after kv0 (executed args sch), n)" using ok(2) assms(2) by (auto simp: clerk_ok_def)
  have "map (\<lambda>k. req_args (requests (kc_net s) ! k)) ks = executed args sch @ args_of (kc_net s) ran2"
    using c(1,2) by (simp add: args_of_def)
  moreover from this have "services (objs (network (kc_net s)) 0) ''KVServer'' = Some (kv_service (after kv0 (executed args sch @ args_of (kc_net s) ran2)))"
    using ok(1) by (simp add: net_ok_def args_of_def)
  moreover have "distinct ks" "set ks = {k. k < length (requests (kc_net s)) \<and> handler (requests (kc_net s) ! k) \<noteq> None}"
    using ok(1) by (auto simp: net_ok_def)
  ultimately show ?thesis using c(3) kc_run_net [OF assms(1)] by blast
qed

text \<open>A run: the first reply is lost, the put is sent again, and the clerk cannot tell.\<close>

fun kc_exec :: "nat \<Rightarrow> PutArgs \<Rightarrow> kact list \<Rightarrow> kcsys \<Rightarrow> kcsys option" where
  "kc_exec e args [] s = Some s"
| "kc_exec e args (act # acts) s = Option.bind (kc_do e args act s) (kc_exec e args acts)"

lemma kc_exec_run: "kc_run e args kv0 s \<Longrightarrow> kc_exec e args acts s = Some s' \<Longrightarrow> kc_run e args kv0 s'"
  by (induction acts arbitrary: s) (auto split: bind_splits intro: kc_run.kc_step)

definition demo_run :: "kact list" where
  "demo_run = [KFlags False False False, KPut, KBegin 0 False, KHandle 0, KEnd 0 True False,
               KPut, KBegin 1 False, KHandle 1, KEnd 1 False False, KDone]"

lemmas kc_exec_defs = kc_do_def demo_run_def demo_put_def kc_init_def kc_network_def MakeNetwork_def MakeServer_def
  AddService_def kv_service_eq kv_server_name_def send_request_def set_request_def new_request_def
  meth_of_def begin_request_def readEndnameInfo_def run_handler_def end_request_def isServerDead_def Call_result_def
  Server_dispatch_def Service_dispatch_def split_method_def go_slice_to_def go_slice_from_def answer_def
  KVServer_Put_def Clerk_Put_reply_def LongReordering_def LongDelays_def Reliable_def MakeKVServer_def Let_def

lemma demo_run_ends:
  "\<exists>s. kc_exec 5 demo_put demo_run (kc_init MakeKVServer) = Some s \<and> kc_fin s = Some ErrMaybe \<and> length (requests (kc_net s)) = 2"
  by (simp add: kc_exec_defs) blast

theorem clerk_put_over_network_witness:
  "\<exists>s sch env n. kc_run 5 demo_put MakeKVServer s \<and> kc_fin s = Some ErrMaybe \<and>
    Clerk_Put MakeKVServer demo_put sch = (Some ErrMaybe, snd (serve MakeKVServer (executed demo_put sch)), n) \<and>
    services (objs (network (kc_net s)) 0) ''KVServer'' = Some (kv_service (snd (serve MakeKVServer (executed demo_put sch @ env))))"
proof -
  obtain s where s: "kc_exec 5 demo_put demo_run (kc_init MakeKVServer) = Some s" "kc_fin s = Some ErrMaybe" using demo_run_ends by blast
  have "kc_run 5 demo_put MakeKVServer s" by (rule kc_exec_run [OF kc_run.kc_start s(1)])
  with clerk_put_over_network [OF this s(2)] s(2) show ?thesis by blast
qed

end
