(* ===== verification/KVLab.thy ===== *)
theory KVLab
  imports NetClerk OpHistory TesterConfig
begin

text \<open>
  A test of the key/value server from end to end: \<open>kvsrv1/test.go\<close> with \<open>StartKVServer\<close> and \<open>MakeClerk\<close>, on the test of
  \<open>kvtest1/kvtest.go\<close>, the tester's configuration, its clients and the simulated network. Random
  names and the network's coins are arguments.

  The result: the calls of a clerk of such a test on a reliable network are answered as the server
  itself would answer them, one after the other.
\<close>

section \<open>The server and the clerk\<close>

type_synonym ('r, 's) kv_config = "('r, 's, KVServer, kv_req, kv_rep) Config"

definition KVServer_Kill :: "KVServer \<Rightarrow> KVServer" where
  "KVServer_Kill kv = kv"

definition StartKVServer :: "(KVServer, kv_req, kv_rep) FstartServer" where
  "StartKVServer ends_of_srv gid srv persister = [kv_service MakeKVServer]"

record kvs_Clerk =
  kvs_clnt :: nat
  kvs_server :: string

definition kvs_MakeClerk :: "nat \<Rightarrow> string \<Rightarrow> kvs_Clerk" where
  "kvs_MakeClerk clnt server = \<lparr>kvs_clnt = clnt, kvs_server = server\<rparr>"

section \<open>The test\<close>

record ('r, 's) kv_test =
  kt_cfg :: "('r, 's) kv_config"
  kt_oplog :: "operation list"
  kt_randomkeys :: bool

record ('r, 's) TestKV = "('r, 's) kv_test" +
  tk_reliable :: bool

definition kvtest_MakeTest :: "('r, 's) kv_config \<Rightarrow> bool \<Rightarrow> ('r, 's) kv_test" where
  "kvtest_MakeTest cfg rkeys = \<lparr>kt_cfg = cfg, kt_oplog = [], kt_randomkeys = rkeys\<rparr>"

definition MakeTestKV :: "(nat \<Rightarrow> nat \<Rightarrow> string) \<Rightarrow> (nat \<Rightarrow> nat \<Rightarrow> string) \<Rightarrow> int \<Rightarrow> bool \<Rightarrow> ('r, 's) TestKV go" where
  "MakeTestKV rnd rnd' now rel =
     go_map (\<lambda>cfg. kv_test.extend (kvtest_MakeTest cfg False) (TestKV.fields rel))
       (MakeConfig rnd rnd' now 1 rel StartKVServer)"

definition TestKV_MakeClerk :: "('r, 's) TestKV \<Rightarrow> (kvs_Clerk \<times> ('r, 's) TestKV) go" where
  "TestKV_MakeClerk ts =
     go_map (\<lambda>(clnt, cs). (kvs_MakeClerk clnt (ServerName GRP0 0), ts\<lparr>kt_cfg := (kt_cfg ts)\<lparr>cfg_clnts := cs\<rparr>\<rparr>))
       (MakeClient (cfg_clnts (kt_cfg ts)))"

definition TestKV_DeleteClerk :: "kvs_Clerk \<Rightarrow> ('r, 's) TestKV \<Rightarrow> ('r, 's) TestKV go" where
  "TestKV_DeleteClerk ck ts =
     go_map (\<lambda>(cs, rn). ts\<lparr>kt_cfg := (kt_cfg ts)\<lparr>cfg_clnts := cs, cfg_world := (cfg_world (kt_cfg ts))\<lparr>rnet := rn\<rparr>\<rparr>\<rparr>)
       (DeleteClient (kvs_clnt ck) (cfg_clnts (kt_cfg ts)) (rnet (cfg_world (kt_cfg ts))))"

text \<open>\<open>Test.ConnectClnts\<close> and \<open>Test.Cleanup\<close>.\<close>

definition ConnectClnts :: "nat list \<Rightarrow> ('r, 's) kv_config \<Rightarrow> ('r, 's) kv_config" where
  "ConnectClnts clnts cfg =
     fold (\<lambda>p cfg. let (c, rn) = Clnt_ConnectAll (heap (cfg_clnts cfg) p) (rnet (cfg_world cfg)) in
       cfg\<lparr>cfg_clnts := (cfg_clnts cfg)\<lparr>heap := (heap (cfg_clnts cfg))(p := c)\<rparr>, cfg_world := (cfg_world cfg)\<lparr>rnet := rn\<rparr>\<rparr>) clnts cfg"

definition kv_Test_Cleanup where
  "kv_Test_Cleanup order clean failed now now' ts l =
     go_bind (End failed now (kt_cfg ts)) (\<lambda>_. Config_Cleanup KVServer_Kill order clean failed now' (kt_cfg ts, l))"

section \<open>A call of the clerk\<close>

text \<open>One \<open>ck.clnt.Call\<close> that the network handles at once: \<open>d\<close> and \<open>d'\<close> are its coins for dropping the request and
  the reply, \<open>delay\<close> the one for delaying the reply.\<close>

definition clerk_call ::
  "string \<Rightarrow> bool \<times> bool \<times> bool \<Rightarrow> kvs_Clerk \<Rightarrow> kv_req \<Rightarrow> ('r, 's) TestKV \<Rightarrow> (kv_rep option option \<times> ('r, 's) TestKV) go" where
  "clerk_call rnd coins ck a ts =
     (let (d, d', delay) = coins; cfg = kt_cfg ts; cs = cfg_clnts cfg in
      go_bind (Clnt_Call rnd (kvs_server ck) (meth_of a) a (heap cs (kvs_clnt ck)) (rnet (cfg_world cfg))) (\<lambda>(q, clnt, rn).
      go_map (\<lambda>(rn', q'). (Call_result (release_held (end_request d' delay rn' q')),
           ts\<lparr>kt_cfg := cfg\<lparr>cfg_clnts := cs\<lparr>heap := (heap cs)(kvs_clnt ck := clnt)\<rparr>, cfg_world := (cfg_world cfg)\<lparr>rnet := rn'\<rparr>\<rparr>\<rparr>))
        (run_handler rn (begin_request d rn q))))"

text \<open>A test's calls, one after the other, by one clerk.\<close>

fun clerk_calls ::
  "(nat \<Rightarrow> string) \<Rightarrow> (nat \<Rightarrow> bool \<times> bool \<times> bool) \<Rightarrow> kvs_Clerk \<Rightarrow> kv_req list \<Rightarrow> ('r, 's) TestKV \<Rightarrow> (kv_rep option option list \<times> ('r, 's) TestKV) go" where
  "clerk_calls rnd coins ck [] ts = Inr ([], ts)"
| "clerk_calls rnd coins ck (a # as) ts =
     go_bind (clerk_call (rnd 0) (coins 0) ck a ts) (\<lambda>(r, ts1).
     go_map (\<lambda>(rs, ts2). (r # rs, ts2)) (clerk_calls (rnd \<circ> Suc) (coins \<circ> Suc) ck as ts1))"

fun answers :: "KVServer \<Rightarrow> kv_req list \<Rightarrow> kv_rep list" where
  "answers kv [] = []"
| "answers kv (a # as) = snd (answer kv a) # answers (fst (answer kv a)) as"

section \<open>A clerk in place\<close>

definition served_by :: "KVServer \<Rightarrow> ('r, 's) TestKV \<Rightarrow> bool" where
  "served_by kv ts \<longleftrightarrow> (let rn = rnet (cfg_world (kt_cfg ts)) in
     reliable rn \<and> servers rn (ServerName GRP0 0) = Some 0 \<and> services (objs rn 0) ''KVServer'' = Some (kv_service kv))"

definition clerk_linked :: "kvs_Clerk \<Rightarrow> ('r, 's) TestKV \<Rightarrow> bool" where
  "clerk_linked ck ts \<longleftrightarrow> (let rn = rnet (cfg_world (kt_cfg ts)); c = heap (cfg_clnts (kt_cfg ts)) (kvs_clnt ck) in
     kvs_server ck = ServerName GRP0 0 \<and>
     (\<exists>e. map_of (clnt_ends c) (ServerName GRP0 0) = Some e \<and> enabled rn e \<and> connections rn e = Some (ServerName GRP0 0)))"

definition clerk_new :: "string \<Rightarrow> kvs_Clerk \<Rightarrow> ('r, 's) TestKV \<Rightarrow> bool" where
  "clerk_new rnd ck ts \<longleftrightarrow> kvs_server ck = ServerName GRP0 0 \<and>
     heap (cfg_clnts (kt_cfg ts)) (kvs_clnt ck) = makeClntTo None \<and> rnd \<notin> ends (rnet (cfg_world (kt_cfg ts)))"

text \<open>The network's part of a call.\<close>

lemma handled_at_once:
  assumes "reliable rn" "enabled rn e" "connections rn e = Some sn" "servers rn sn = Some 0"
    and "services (objs rn 0) ''KVServer'' = Some (kv_service kv)"
  shows "\<exists>obj q. run_handler rn (begin_request d rn (new_request e (meth_of a) a)) = Inr (rn\<lparr>objs := (objs rn)(0 := obj)\<rparr>, q) \<and>
    services obj ''KVServer'' = Some (kv_service (fst (answer kv a))) \<and>
    Call_result (release_held (end_request d' delay (rn\<lparr>objs := (objs rn)(0 := obj)\<rparr>) q)) = Some (Some (snd (answer kv a)))"
proof -
  obtain obj where o: "Server_dispatch (meth_of a) a (objs rn 0) = Inr (obj, snd (answer kv a))"
    "services obj ''KVServer'' = Some (kv_service (fst (answer kv a)))" using dispatch_kv [OF assms(5)] by blast
  then show ?thesis using assms(1-4)
    by (intro exI [of _ obj]) (simp add: new_request_def begin_request_def readEndnameInfo_def run_handler_def end_request_def
        isServerDead_def Let_def Call_result_def release_held_def)
qed

lemma call_served:
  assumes s: "served_by kv ts" and c: "clerk_linked ck ts \<or> clerk_new rnd ck ts"
  shows "\<exists>ts'. clerk_call rnd coins ck a ts = Inr (Some (Some (snd (answer kv a))), ts') \<and>
    served_by (fst (answer kv a)) ts' \<and> clerk_linked ck ts'"
proof -
  let ?rn = "rnet (cfg_world (kt_cfg ts))" and ?c = "heap (cfg_clnts (kt_cfg ts)) (kvs_clnt ck)" and ?sn = "ServerName GRP0 0"
  obtain d d' delay where co: "coins = (d, d', delay)" by (cases coins) auto
  have "\<exists>e clnt rn. Clnt_Call rnd (kvs_server ck) (meth_of a) a ?c ?rn = Inr (new_request e (meth_of a) a, clnt, rn) \<and>
      reliable rn \<and> enabled rn e \<and> connections rn e = Some ?sn \<and> servers rn ?sn = Some 0 \<and> objs rn = objs ?rn \<and>
      map_of (clnt_ends clnt) ?sn = Some e \<and> kvs_server ck = ?sn"
    using c s unfolding clerk_linked_def clerk_new_def served_by_def Let_def
    by (auto simp: Clnt_Call_def Clnt_makeEnd_def makeClntTo_def MakeEnd_def Connect_def Enable_def allowedL_def)
  then obtain e clnt rn where k: "Clnt_Call rnd (kvs_server ck) (meth_of a) a ?c ?rn = Inr (new_request e (meth_of a) a, clnt, rn)"
    "reliable rn" "enabled rn e" "connections rn e = Some ?sn" "servers rn ?sn = Some 0" "objs rn = objs ?rn"
    "map_of (clnt_ends clnt) ?sn = Some e" "kvs_server ck = ?sn" by blast
  have v: "services (objs rn 0) ''KVServer'' = Some (kv_service kv)" using s k(6) by (simp add: served_by_def Let_def)
  obtain obj q where h: "run_handler rn (begin_request d rn (new_request e (meth_of a) a)) = Inr (rn\<lparr>objs := (objs rn)(0 := obj)\<rparr>, q)"
    "services obj ''KVServer'' = Some (kv_service (fst (answer kv a)))"
    "Call_result (release_held (end_request d' delay (rn\<lparr>objs := (objs rn)(0 := obj)\<rparr>) q)) = Some (Some (snd (answer kv a)))"
    using handled_at_once [OF k(2-5) v] by blast
  show ?thesis using k h by (auto simp: clerk_call_def co Let_def served_by_def clerk_linked_def)
qed

lemma calls_served:
  assumes "served_by kv ts" and "clerk_linked ck ts \<or> clerk_new (rnd 0) ck ts"
  shows "\<exists>ts'. clerk_calls rnd coins ck as ts = Inr (map (\<lambda>r. Some (Some r)) (answers kv as), ts') \<and> served_by (snd (serve kv as)) ts'"
  using assms
proof (induction as arbitrary: kv ts rnd coins)
  case (Cons a as)
  obtain ts1 where t: "clerk_call (rnd 0) (coins 0) ck a ts = Inr (Some (Some (snd (answer kv a))), ts1)"
    "served_by (fst (answer kv a)) ts1" "clerk_linked ck ts1" using call_served [OF Cons.prems] by blast
  from Cons.IH [OF t(2) disjI1 [OF t(3)], of "rnd \<circ> Suc" "coins \<circ> Suc"] show ?case
    using t(1) by (auto simp: after_Cons comp_def simp del: serve.simps(2,3))
qed simp

section \<open>A new test\<close>

lemma new_test:
  assumes "rnd 0 0 \<noteq> rnd' 0 0"
  shows "\<exists>ts :: ('r, 's) TestKV. MakeTestKV rnd rnd' now True = Inr ts \<and> served_by MakeKVServer ts \<and>
    cfg_clnts (kt_cfg ts) = makeClnts \<and> ends (rnet (cfg_world (kt_cfg ts))) = {rnd 0 0, rnd' 0 0}"
  using assms
  by (simp add: MakeTestKV_def MakeConfig_def MakeGroupStart_def MakeGroup_def on_group_def on_net_def lookupGroup_def newGroups_def
      makeSrvGrp_def makeServer_def make_one_end_def MakeEnd_def Connect_def Enable_def new_world_def MakeNetwork_def
      StartServers_def Grp_start_def all_srvs_def StartServer_def startServer_def names_of_def new_disk_def AddServer_def Let_def
      ConnectAll_def ConnectOne_def Grp_connect_def Server_connect_def StartKVServer_def Reliable_def go_index_def go_set_def
      kv_test.defs TestKV.defs kvtest_MakeTest_def served_by_def AddService_def MakeServer_def insert_commute)
    (simp add: kv_service_eq)

text \<open>C27: A test of the key/value server on a reliable network works from end to end: with fresh names, the configuration, the
  server and a clerk are made without a failure, and every call of the clerk, through its client, the
  network and the dispatch of the server's methods, is answered, with the answers the server's
  handlers give on the requests in order, whatever the network's coins.\<close>

theorem reliable_test_is_served:
  assumes "distinct [rnd 0 0, rnd' 0 0, names 0]"
  shows "\<exists>(ts :: ('r, 's) TestKV) ck ts1 ts2. MakeTestKV rnd rnd' now True = Inr ts \<and> TestKV_MakeClerk ts = Inr (ck, ts1) \<and>
    clerk_calls names coins ck as ts1 = Inr (map (\<lambda>r. Some (Some r)) (answers MakeKVServer as), ts2) \<and>
    services (objs (rnet (cfg_world (kt_cfg ts2))) 0) ''KVServer'' = Some (kv_service (snd (serve MakeKVServer as)))"
proof -
  obtain ts :: "('r, 's) TestKV" where t: "MakeTestKV rnd rnd' now True = Inr ts" "served_by MakeKVServer ts"
    "cfg_clnts (kt_cfg ts) = makeClnts" "ends (rnet (cfg_world (kt_cfg ts))) = {rnd 0 0, rnd' 0 0}" using new_test [of rnd rnd' now] assms by auto
  obtain ck ts1 where c: "TestKV_MakeClerk ts = Inr (ck, ts1)" "served_by MakeKVServer ts1" "clerk_new (names 0) ck ts1"
    using t(2-4) assms by (auto simp: TestKV_MakeClerk_def MakeClient_def MakeClientTo_def makeClnts_def Let_def kvs_MakeClerk_def served_by_def clerk_new_def)
  from calls_served [of MakeKVServer ts1 ck names coins as] c(2,3)
  show ?thesis using t(1) c(1) by (auto simp: served_by_def Let_def)
qed

theorem reliable_test_is_served_witness:
  "\<exists>(ts :: (nat, nat) TestKV) ck ts1 ts2. MakeTestKV (\<lambda>_ _. ''a'') (\<lambda>_ _. ''b'') 0 True = Inr ts \<and> TestKV_MakeClerk ts = Inr (ck, ts1) \<and>
    clerk_calls (\<lambda>_. ''c'') (\<lambda>_. (True, True, False)) ck [ReqPut demo_put, ReqGet ''a'', ReqPut demo_put] ts1 =
      Inr ([Some (Some (PutRep OK)), Some (Some (GetRep \<lparr>ReplyValue = ''x'', ReplyVersion = 1, ReplyErr = OK\<rparr>)), Some (Some (PutRep ErrVersion))], ts2)"
proof -
  have "\<exists>(ts :: (nat, nat) TestKV) ck ts1 ts2. MakeTestKV (\<lambda>_ _. ''a'') (\<lambda>_ _. ''b'') 0 True = Inr ts \<and> TestKV_MakeClerk ts = Inr (ck, ts1) \<and>
    clerk_calls (\<lambda>_. ''c'') (\<lambda>_. (True, True, False)) ck [ReqPut demo_put, ReqGet ''a'', ReqPut demo_put] ts1 =
      Inr (map (\<lambda>r. Some (Some r)) (answers MakeKVServer [ReqPut demo_put, ReqGet ''a'', ReqPut demo_put]), ts2) \<and>
    services (objs (rnet (cfg_world (kt_cfg ts2))) 0) ''KVServer'' = Some (kv_service (snd (serve MakeKVServer [ReqPut demo_put, ReqGet ''a'', ReqPut demo_put])))"
    by (rule reliable_test_is_served) simp
  moreover have "answers MakeKVServer [ReqPut demo_put, ReqGet ''a'', ReqPut demo_put] =
      [PutRep OK, GetRep \<lparr>ReplyValue = ''x'', ReplyVersion = 1, ReplyErr = OK\<rparr>, PutRep ErrVersion]"
    by (simp add: answer_def KVServer_Put_def KVServer_Get_def demo_put_def MakeKVServer_def Let_def)
  ultimately show ?thesis by auto
qed

end
