(* ===== verification/SpawnClients.thy ===== *)
theory SpawnClients
  imports Prelude
begin

text \<open>
  \<open>SpawnClientsAndWait\<close> and \<open>runClient\<close> of \<open>kvtest1/kvtest.go\<close>: a goroutine for each client, a token for each on the unbuffered
  channel \<open>done\<close> after a sleep, and the results collected in the order of the clients. What a
  client does between two looks at \<open>done\<close>, and the clerk maker, are arguments; a client returns when it receives
  a token, as the client functions of the tests do.

  Shown: the call cannot get stuck, only finitely many steps are not iterations of clients, and the
  results it returns are those of the clients in order.
\<close>

section \<open>The goroutines\<close>

datatype main_pc =
    Spawning nat       \<comment> \<open>the first loop\<close>
  | Sleeping
  | Telling nat        \<comment> \<open>\<open>done <- struct{}{}\<close>\<close>
  | Collecting nat     \<comment> \<open>\<open>rs[cli] = <-ca[cli]\<close>\<close>
  | Returned

datatype ('k, 'c, 'r) client_pc =
    NotStarted
  | Starting           \<comment> \<open>before \<open>mkc.MakeClerk()\<close>\<close>
  | Working 'k 'c      \<comment> \<open>in \<open>fn\<close>, with its clerk and its local state\<close>
  | Sending 'k 'r      \<comment> \<open>\<open>ca <- v\<close>\<close>
  | Deleting 'k
  | Ended

text \<open>\<open>sp_ret\<close> keeps what \<open>fn\<close> returned; the code does not read it.\<close>

record ('k, 'c, 'r, 'w) spawn_sys =
  sp_main :: main_pc
  sp_cl :: "nat \<Rightarrow> ('k, 'c, 'r) client_pc"
  sp_rs :: "'r list"
  sp_world :: 'w
  sp_ret :: "nat \<Rightarrow> 'r option"

definition spawn_init :: "'w \<Rightarrow> ('k, 'c, 'r, 'w) spawn_sys" where
  "spawn_init w = \<lparr>sp_main = Spawning 0, sp_cl = (\<lambda>_. NotStarted), sp_rs = [], sp_world = w, sp_ret = (\<lambda>_. None)\<rparr>"

text \<open>The function \<open>fn\<close> of a client: its state before the first iteration, an iteration, and its result.\<close>

record ('k, 'c, 'r, 'w) client_fn =
  fn_start :: "nat \<Rightarrow> 'c"
  fn_iter :: "nat \<Rightarrow> 'k \<Rightarrow> 'c \<Rightarrow> 'w \<Rightarrow> 'c \<times> 'w"
  fn_result :: "'c \<Rightarrow> 'r"
  mk_clerk :: "'w \<Rightarrow> 'k \<times> 'w"
  del_clerk :: "'k \<Rightarrow> 'w \<Rightarrow> 'w"

inductive spawn_step :: "nat \<Rightarrow> 'r \<Rightarrow> ('k, 'c, 'r, 'w) client_fn \<Rightarrow> ('k, 'c, 'r, 'w) spawn_sys \<Rightarrow> ('k, 'c, 'r, 'w) spawn_sys \<Rightarrow> bool"
  for n z fn where
  spawn: "sp_main s = Spawning i \<Longrightarrow> i < n \<Longrightarrow>
    spawn_step n z fn s (s\<lparr>sp_main := Spawning (i + 1), sp_cl := (sp_cl s)(i := Starting)\<rparr>)"
| spawned: "sp_main s = Spawning i \<Longrightarrow> \<not> i < n \<Longrightarrow> spawn_step n z fn s (s\<lparr>sp_main := Sleeping\<rparr>)"
| slept: "sp_main s = Sleeping \<Longrightarrow> spawn_step n z fn s (s\<lparr>sp_main := Telling 0\<rparr>)"
| tell: "sp_main s = Telling i \<Longrightarrow> i < n \<Longrightarrow> sp_cl s c = Working k x \<Longrightarrow>
    spawn_step n z fn s (s\<lparr>sp_main := Telling (i + 1), sp_cl := (sp_cl s)(c := Sending k (fn_result fn x)),
      sp_ret := (sp_ret s)(c \<mapsto> fn_result fn x)\<rparr>)"
| told: "sp_main s = Telling i \<Longrightarrow> \<not> i < n \<Longrightarrow> spawn_step n z fn s (s\<lparr>sp_main := Collecting 0, sp_rs := replicate n z\<rparr>)"
| collect: "sp_main s = Collecting i \<Longrightarrow> i < n \<Longrightarrow> sp_cl s i = Sending k r \<Longrightarrow>
    spawn_step n z fn s (s\<lparr>sp_main := Collecting (i + 1), sp_cl := (sp_cl s)(i := Deleting k), sp_rs := (sp_rs s)[i := r]\<rparr>)"
| collected: "sp_main s = Collecting i \<Longrightarrow> \<not> i < n \<Longrightarrow> spawn_step n z fn s (s\<lparr>sp_main := Returned\<rparr>)"
| makes: "sp_cl s c = Starting \<Longrightarrow> mk_clerk fn (sp_world s) = (k, w) \<Longrightarrow>
    spawn_step n z fn s (s\<lparr>sp_cl := (sp_cl s)(c := Working k (fn_start fn c)), sp_world := w\<rparr>)"
| deletes: "sp_cl s c = Deleting k \<Longrightarrow>
    spawn_step n z fn s (s\<lparr>sp_cl := (sp_cl s)(c := Ended), sp_world := del_clerk fn k (sp_world s)\<rparr>)"

inductive iterate :: "('k, 'c, 'r, 'w) client_fn \<Rightarrow> ('k, 'c, 'r, 'w) spawn_sys \<Rightarrow> ('k, 'c, 'r, 'w) spawn_sys \<Rightarrow> bool" for fn where
  "sp_cl s c = Working k x \<Longrightarrow> fn_iter fn c k x (sp_world s) = (x', w) \<Longrightarrow>
   iterate fn s (s\<lparr>sp_cl := (sp_cl s)(c := Working k x'), sp_world := w\<rparr>)"

inductive spawn_run :: "nat \<Rightarrow> 'r \<Rightarrow> ('k, 'c, 'r, 'w) client_fn \<Rightarrow> ('k, 'c, 'r, 'w) spawn_sys \<Rightarrow> bool" for n z fn where
  start: "spawn_run n z fn (spawn_init w)"
| step: "spawn_run n z fn s \<Longrightarrow> spawn_step n z fn s s' \<or> iterate fn s s' \<Longrightarrow> spawn_run n z fn s'"

section \<open>The invariant\<close>

fun told :: "('k, 'c, 'r) client_pc \<Rightarrow> bool" where
  "told (Sending k r) = True" | "told (Deleting k) = True" | "told Ended = True" | "told _ = False"

fun freed :: "('k, 'c, 'r) client_pc \<Rightarrow> bool" where
  "freed (Deleting k) = True" | "freed Ended = True" | "freed _ = False"

text \<open>How many clients were started, told and collected from, as the program counter says.\<close>

fun n_started :: "nat \<Rightarrow> main_pc \<Rightarrow> nat" where
  "n_started n (Spawning i) = i" | "n_started n _ = n"

fun n_told :: "nat \<Rightarrow> main_pc \<Rightarrow> nat" where
  "n_told n (Spawning i) = 0" | "n_told n Sleeping = 0" | "n_told n (Telling i) = i" | "n_told n _ = n"

fun n_collected :: "nat \<Rightarrow> main_pc \<Rightarrow> nat" where
  "n_collected n (Collecting i) = i" | "n_collected n Returned = n" | "n_collected n _ = 0"

fun has_results :: "main_pc \<Rightarrow> bool" where
  "has_results (Collecting i) = True" | "has_results Returned = True" | "has_results _ = False"

definition told_set :: "(nat \<Rightarrow> ('k, 'c, 'r) client_pc) \<Rightarrow> nat set" where
  "told_set cl = {c. told (cl c)}"

definition spawn_inv :: "nat \<Rightarrow> ('k, 'c, 'r, 'w) spawn_sys \<Rightarrow> bool" where
  "spawn_inv n s \<longleftrightarrow>
     n_started n (sp_main s) \<le> n \<and> n_told n (sp_main s) \<le> n \<and> n_collected n (sp_main s) \<le> n \<and>
     (\<forall>c. sp_cl s c = NotStarted \<longleftrightarrow> \<not> c < n_started n (sp_main s)) \<and>
     card (told_set (sp_cl s)) = n_told n (sp_main s) \<and>
     (\<forall>c. freed (sp_cl s c) \<longleftrightarrow> c < n_collected n (sp_main s)) \<and>
     (\<forall>c k r. sp_cl s c = Sending k r \<longrightarrow> sp_ret s c = Some r) \<and>
     (has_results (sp_main s) \<longrightarrow> length (sp_rs s) = n \<and> (\<forall>c < n_collected n (sp_main s). sp_ret s c = Some (sp_rs s ! c)))"

lemma started_lt: "spawn_inv n s \<Longrightarrow> sp_cl s c \<noteq> NotStarted \<Longrightarrow> c < n"
  by (auto simp: spawn_inv_def)

lemma told_started: "spawn_inv n s \<Longrightarrow> told (sp_cl s c) \<Longrightarrow> c < n"
  by (rule started_lt) auto

lemma told_finite: "spawn_inv n s \<Longrightarrow> finite (told_set (sp_cl s))"
  unfolding told_set_def by (rule finite_subset [of _ "{..<n}"]) (auto dest: told_started)

text \<open>A change of one client that was not told stays so, or is told now.\<close>

lemma told_upd:
  "told pc = told (cl c) \<Longrightarrow> told_set (cl(c := pc)) = told_set cl"
  "told pc \<Longrightarrow> told_set (cl(c := pc)) = insert c (told_set cl)"
  by (auto simp: told_set_def)

text \<open>A step of a client alone.\<close>

lemma client_inv:
  assumes inv: "spawn_inv n s" and c: "sp_cl s c \<noteq> NotStarted" "pc \<noteq> NotStarted" "told pc = told (sp_cl s c)" "freed pc = freed (sp_cl s c)"
    "\<And>k r. pc \<noteq> Sending k r"
  shows "spawn_inv n (s\<lparr>sp_cl := (sp_cl s)(c := pc), sp_world := w\<rparr>)"
proof -
  have "c < n_started n (sp_main s)" "freed pc = (c < n_collected n (sp_main s))" using inv c(1,4) by (auto simp: spawn_inv_def)
  then show ?thesis using inv c(2,5) told_upd(1) [of pc "sp_cl s" c, OF c(3)] by (auto simp: spawn_inv_def)
qed

lemma iterate_inv: "iterate fn s s' \<Longrightarrow> spawn_inv n s \<Longrightarrow> spawn_inv n s'"
  by (induction rule: iterate.induct) (rule client_inv; simp)

lemma spawn_step_inv: "spawn_step n z fn s s' \<Longrightarrow> spawn_inv n s \<Longrightarrow> spawn_inv n s'"
proof (induction rule: spawn_step.induct)
  case (spawn s i)
  then have "sp_cl s i = NotStarted" by (simp add: spawn_inv_def)
  then show ?case using spawn told_upd(1) [of Starting "sp_cl s" i] by (auto simp: spawn_inv_def less_Suc_eq)
next
  case (spawned s i)
  then show ?case by (auto simp: spawn_inv_def)
next
  case (slept s)
  then show ?case by (auto simp: spawn_inv_def)
next
  case (tell s i c k x)
  then have "card (insert c (told_set (sp_cl s))) = Suc i" using told_finite [OF tell(4)] by (simp add: spawn_inv_def told_set_def)
  moreover have "c < n" using started_lt [OF tell(4), of c] tell(3) by simp
  ultimately show ?case using tell by (auto simp: spawn_inv_def told_upd(2))
next
  case (told s i)
  then show ?case by (auto simp: spawn_inv_def)
next
  case (collect s i k r)
  then show ?case by (auto simp: spawn_inv_def told_upd(1) less_Suc_eq)
next
  case (collected s i)
  then have "i = n" by (simp add: spawn_inv_def)
  then show ?case using collected by (auto simp: spawn_inv_def)
next
  case (makes s c k w)
  then show ?case by (intro client_inv) simp_all
next
  case (deletes s c k)
  then show ?case by (intro client_inv) simp_all
qed

lemma spawn_run_inv: "spawn_run n z fn s \<Longrightarrow> spawn_inv n s"
proof (induction rule: spawn_run.induct)
  case (start w)
  show ?case by (simp add: spawn_inv_def spawn_init_def told_set_def)
next
  case (step s s')
  then show ?case by (metis spawn_step_inv iterate_inv)
qed

section \<open>Progress\<close>

fun client_rank :: "('k, 'c, 'r) client_pc \<Rightarrow> nat" where
  "client_rank NotStarted = 5" | "client_rank Starting = 4" | "client_rank (Working k c) = 3" | "client_rank (Sending k r) = 2" |
  "client_rank (Deleting k) = 1" | "client_rank Ended = 0"

fun main_rank :: "nat \<Rightarrow> main_pc \<Rightarrow> nat" where
  "main_rank n (Spawning i) = 3 * n + 4 - i" | "main_rank n Sleeping = 2 * n + 3" | "main_rank n (Telling i) = 2 * n + 2 - i" |
  "main_rank n (Collecting i) = n + 1 - i" | "main_rank n Returned = 0"

definition ranks :: "nat \<Rightarrow> (nat \<Rightarrow> ('k, 'c, 'r) client_pc) \<Rightarrow> nat" where
  "ranks n cl = (\<Sum>c < n. client_rank (cl c))"

definition work_left :: "nat \<Rightarrow> ('k, 'c, 'r, 'w) spawn_sys \<Rightarrow> nat" where
  "work_left n s = main_rank n (sp_main s) + ranks n (sp_cl s)"

lemma rank_upd: "c < n \<Longrightarrow> client_rank pc < client_rank (cl c) \<Longrightarrow> ranks n (cl(c := pc)) < ranks n cl"
  unfolding ranks_def by (rule sum_strict_mono_ex1) (auto intro: bexI [of _ c])

lemma step_lowers: "spawn_step n z fn s s' \<Longrightarrow> spawn_inv n s \<Longrightarrow> work_left n s' < work_left n s"
proof (induction rule: spawn_step.induct)
  case (spawn s i)
  then have "sp_cl s i = NotStarted" by (simp add: spawn_inv_def)
  then show ?case using spawn rank_upd [of i n Starting "sp_cl s"] by (simp add: spawn_inv_def work_left_def)
next
  case (tell s i c k x)
  moreover from tell have "c < n" using started_lt [of n s c] by simp
  ultimately show ?case using rank_upd [of c n "Sending k (fn_result fn x)" "sp_cl s"] by (simp add: work_left_def)
next
  case (collect s i k r)
  then show ?case using rank_upd [of i n "Deleting k" "sp_cl s"] by (simp add: work_left_def)
next
  case (makes s c k w)
  moreover from makes have "c < n" using started_lt [of n s c] by simp
  ultimately show ?case using rank_upd [of c n "Working k (fn_start fn c)" "sp_cl s"] by (simp add: work_left_def)
next
  case (deletes s c k)
  moreover from deletes have "c < n" using started_lt [of n s c] by simp
  ultimately show ?case using rank_upd [of c n Ended "sp_cl s"] by (simp add: work_left_def)
qed (auto simp: work_left_def spawn_inv_def)

lemma never_stuck:
  assumes inv: "spawn_inv n s" and nr: "sp_main s \<noteq> Returned"
  shows "\<exists>s'. spawn_step n z fn s s'"
proof (cases "sp_main s")
  case (Telling i)
  show ?thesis
  proof (cases "i < n")
    case True
    have "\<exists>c < n. \<not> told (sp_cl s c)"
    proof (rule ccontr)
      assume "\<not> (\<exists>c < n. \<not> told (sp_cl s c))"
      then have "told_set (sp_cl s) = {..<n}" using told_started [OF inv] by (auto simp: told_set_def)
      then show False using inv True Telling by (simp add: spawn_inv_def)
    qed
    then obtain c where c: "c < n" "\<not> told (sp_cl s c)" by blast
    then have "sp_cl s c \<noteq> NotStarted" using inv Telling by (simp add: spawn_inv_def)
    then consider "sp_cl s c = Starting" | k x where "sp_cl s c = Working k x" using c(2) by (cases "sp_cl s c") auto
    then show ?thesis
    proof cases
      case 1
      obtain k w where "mk_clerk fn (sp_world s) = (k, w)" by fastforce
      with 1 show ?thesis using spawn_step.makes [OF 1] by blast
    next
      case 2
      then show ?thesis using spawn_step.tell [OF Telling True] by blast
    qed
  qed (use spawn_step.told [OF Telling] in blast)
next
  case (Collecting i)
  show ?thesis
  proof (cases "i < n")
    case True
    have "told_set (sp_cl s) \<subseteq> {..<n}" "card (told_set (sp_cl s)) = card {..<n}" using told_started [OF inv] inv Collecting by (auto simp: spawn_inv_def told_set_def)
    then have "told_set (sp_cl s) = {..<n}" by (intro card_subset_eq) auto
    then have "told (sp_cl s i)" using True unfolding told_set_def by blast
    moreover have "\<not> freed (sp_cl s i)" using inv Collecting by (simp add: spawn_inv_def)
    ultimately obtain k r where "sp_cl s i = Sending k r" by (cases "sp_cl s i") auto
    then show ?thesis using spawn_step.collect [OF Collecting True] by blast
  qed (use spawn_step.collected [OF Collecting] in blast)
next
  case (Spawning i)
  then show ?thesis using spawn_step.spawn [OF Spawning] spawn_step.spawned [OF Spawning] by blast
next
  case Sleeping
  then show ?thesis using spawn_step.slept [OF Sleeping] by blast
qed (use nr in simp)

text \<open>C22: \<open>SpawnClientsAndWait\<close> cannot get stuck and returns what its clients returned: in every state of a run, until it has
  returned, some goroutine can take a step that is not an iteration of a client, and such a step
  lowers the number of steps left, so that only waiting for iterations can delay it; and once it
  has returned, entry \<open>c\<close> of the results is what client \<open>c\<close> returned.\<close>

theorem spawn_returns_results:
  assumes "spawn_run n z fn s"
  shows "(sp_main s \<noteq> Returned \<longrightarrow> (\<exists>s'. spawn_step n z fn s s')) \<and>
    (\<forall>s'. spawn_step n z fn s s' \<longrightarrow> work_left n s' < work_left n s) \<and>
    (sp_main s = Returned \<longrightarrow> length (sp_rs s) = n \<and> (\<forall>c < n. sp_ret s c = Some (sp_rs s ! c)))"
proof -
  have inv: "spawn_inv n s" by (rule spawn_run_inv [OF assms])
  have "sp_main s = Returned \<Longrightarrow> length (sp_rs s) = n \<and> (\<forall>c < n. sp_ret s c = Some (sp_rs s ! c))" using inv by (simp add: spawn_inv_def)
  then show ?thesis using never_stuck [OF inv, of z fn] step_lowers [OF _ inv, of z fn] by blast
qed

text \<open>Two clients that count their iterations, the second told first.\<close>

definition counting :: "(nat, nat, nat, nat) client_fn" where
  "counting = \<lparr>fn_start = (\<lambda>_. 0), fn_iter = (\<lambda>_ _ x w. (x + 1, w)), fn_result = id, mk_clerk = (\<lambda>w. (w, w + 1)), del_clerk = (\<lambda>_ w. w)\<rparr>"

definition counting_end :: "(nat, nat, nat, nat) spawn_sys" where
  "counting_end = \<lparr>sp_main = Returned, sp_cl = (\<lambda>_. NotStarted)(0 := Deleting 0, 1 := Deleting 1), sp_rs = [0, 1], sp_world = 2,
     sp_ret = [0 \<mapsto> 0, 1 \<mapsto> 1]\<rparr>"

lemma counting_run: "spawn_run 2 0 counting counting_end"
proof -
  let ?mk = "\<lambda>m cl rs w ret. \<lparr>sp_main = m, sp_cl = cl, sp_rs = rs, sp_world = w, sp_ret = ret\<rparr> :: (nat, nat, nat, nat) spawn_sys"
  let ?n = "(\<lambda>_. NotStarted) :: nat \<Rightarrow> (nat, nat, nat) client_pc"
  have step: "spawn_run 2 0 counting s'" if "spawn_run 2 0 counting s" "spawn_step 2 0 counting s t" "t = s'" for s t s' using that spawn_run.step by metis
  have iter: "spawn_run 2 0 counting s'" if "spawn_run 2 0 counting s" "iterate counting s t" "t = s'" for s t s' using that spawn_run.step by metis
  note upd = fun_upd_twist [of "0 :: nat" "Suc 0"]
  have "spawn_run 2 0 counting (?mk (Spawning 0) ?n [] 0 Map.empty)" using spawn_run.start [of 2 0 counting 0] by (simp add: spawn_init_def)
  then have "spawn_run 2 0 counting (?mk (Spawning 1) (?n(0 := Starting)) [] 0 Map.empty)" by (rule step [OF _ spawn_step.spawn]) simp_all
  then have "spawn_run 2 0 counting (?mk (Spawning 2) (?n(0 := Starting, 1 := Starting)) [] 0 Map.empty)" by (rule step [OF _ spawn_step.spawn]) simp_all
  then have "spawn_run 2 0 counting (?mk Sleeping (?n(0 := Starting, 1 := Starting)) [] 0 Map.empty)" by (rule step [OF _ spawn_step.spawned [of _ 2]]) simp_all
  then have "spawn_run 2 0 counting (?mk Sleeping (?n(0 := Working 0 0, 1 := Starting)) [] 1 Map.empty)"
    by (rule step [OF _ spawn_step.makes [of _ 0]]) (simp_all add: counting_def upd)
  then have "spawn_run 2 0 counting (?mk Sleeping (?n(0 := Working 0 0, 1 := Working 1 0)) [] 2 Map.empty)"
    by (rule step [OF _ spawn_step.makes [of _ 1]]) (simp_all add: counting_def)
  then have "spawn_run 2 0 counting (?mk Sleeping (?n(0 := Working 0 0, 1 := Working 1 1)) [] 2 Map.empty)"
    by (rule iter [OF _ iterate.intros [of _ 1]]) (simp_all add: counting_def)
  then have "spawn_run 2 0 counting (?mk (Telling 0) (?n(0 := Working 0 0, 1 := Working 1 1)) [] 2 Map.empty)"
    by (rule step [OF _ spawn_step.slept]) simp_all
  then have "spawn_run 2 0 counting (?mk (Telling 1) (?n(0 := Working 0 0, 1 := Sending 1 1)) [] 2 [1 \<mapsto> 1])"
    by (rule step [OF _ spawn_step.tell [where c = 1]]) (simp_all add: counting_def)
  then have "spawn_run 2 0 counting (?mk (Telling 2) (?n(0 := Sending 0 0, 1 := Sending 1 1)) [] 2 [0 \<mapsto> 0, 1 \<mapsto> 1])"
    by (rule step [OF _ spawn_step.tell [where c = 0]]) (simp_all add: counting_def upd)
  then have "spawn_run 2 0 counting (?mk (Collecting 0) (?n(0 := Sending 0 0, 1 := Sending 1 1)) [0, 0] 2 [0 \<mapsto> 0, 1 \<mapsto> 1])"
    by (rule step [OF _ spawn_step.told [of _ 2]]) (simp_all add: numeral_2_eq_2)
  then have "spawn_run 2 0 counting (?mk (Collecting 1) (?n(0 := Deleting 0, 1 := Sending 1 1)) [0, 0] 2 [0 \<mapsto> 0, 1 \<mapsto> 1])"
    by (rule step [OF _ spawn_step.collect [of _ 0 _ 0 0]]) (simp_all add: upd)
  then have "spawn_run 2 0 counting (?mk (Collecting 2) (?n(0 := Deleting 0, 1 := Deleting 1)) [0, 1] 2 [0 \<mapsto> 0, 1 \<mapsto> 1])"
    by (rule step [OF _ spawn_step.collect [of _ 1 _ 1 1]]) simp_all
  then show ?thesis by (rule step [OF _ spawn_step.collected [of _ 2]]) (simp_all add: counting_end_def)
qed

theorem spawn_returns_results_witness:
  "spawn_run 2 0 counting counting_end \<and> length (sp_rs counting_end) = 2 \<and>
   sp_ret counting_end 0 = Some (sp_rs counting_end ! 0) \<and> sp_ret counting_end 1 = Some (sp_rs counting_end ! 1)"
proof -
  have "sp_main counting_end = Returned" by (simp add: counting_end_def)
  then show ?thesis using counting_run spawn_returns_results [OF counting_run] by auto
qed

end
