(* ===== verification/KVTest.thy ===== *)
theory KVTest
  imports KVClerk Annotations TesterGroup JsonEntries
begin

text \<open>
  The test drivers of the key/value service (\<open>kvtest1/kvtest.go\<close>): clients that put and append to a
  shared key through clerks, and the checks of what they leave on the server.

  A driver's loop is cut at its calls of the clerk: a function gives what it does with an answer.
  Theories \<open>AppendTest\<close> and \<open>PutTest\<close> run any number of such clients against the server, one RPC
  attempt at a time. Random numbers and the clock are arguments. \<open>Fatalf\<close> is an error value.
\<close>

section \<open>Values\<close>

definition letterBytes :: string where
  "letterBytes = ''abcdefghijklmnopqrstuvwxyzABCDEFGHIJKLMNOPQRSTUVWXYZ''"

definition RandValue :: "nat list \<Rightarrow> string" where
  "RandValue rs = map (\<lambda>r. letterBytes ! (r mod length letterBytes)) rs"

record EntryN =
  eId :: int
  eN :: int

record EntryV =
  evId :: int
  evV :: Tversion

record ClntRes =
  Nok :: int
  Nmaybe :: int

definition marshal_entries :: "EntryN list \<Rightarrow> string" where
  "marshal_entries es = marshal_slice ''Id'' ''N'' (map (\<lambda>e. (eId e, eN e)) es)"

definition unmarshal_entries :: "string \<Rightarrow> EntryN list option" where
  "unmarshal_entries s = map_option (map (\<lambda>(i, n). \<lparr>eId = i, eN = n\<rparr>)) (unmarshal_slice ''Id'' ''N'' s)"

definition marshal_EntryV :: "EntryV \<Rightarrow> string" where
  "marshal_EntryV e = marshal_pair ''Id'' ''V'' (evId e, uint (evV e))"

text \<open>A number that does not fit an unsigned 64-bit field is an error.\<close>

definition unmarshal_EntryV :: "string \<Rightarrow> EntryV option" where
  "unmarshal_EntryV s = Option.bind (unmarshal_pair ''Id'' ''V'' s) (\<lambda>(i, v).
     if 0 \<le> v \<and> v < 2 ^ 64 then Some \<lparr>evId = i, evV = word_of_int v\<rparr> else None)"

lemma unmarshal_entries_marshal [simp]: "unmarshal_entries (marshal_entries es) = Some es"
  by (simp add: unmarshal_entries_def marshal_entries_def unmarshal_marshal comp_def map_idI)

lemma unmarshal_EntryV_marshal [simp]: "unmarshal_EntryV (marshal_EntryV e) = Some e"
  using uint_lt2p [of "evV e"] by (simp add: unmarshal_EntryV_def marshal_EntryV_def unmarshal_marshal_pair)

text \<open>Versions that have not come round.\<close>

lemma of_nat64_inject: "a < 2 ^ 64 \<Longrightarrow> b < 2 ^ 64 \<Longrightarrow> (of_nat a :: 64 word) = of_nat b \<longleftrightarrow> a = b"
  by (simp add: word_of_nat_eq_iff take_bit_nat_eq_self)

section \<open>Reading and writing\<close>

definition GetJson :: "(string \<Rightarrow> 'v option) \<Rightarrow> GetReply \<Rightarrow> ('v \<times> Tversion) go" where
  "GetJson unmarshal r =
     (if ReplyErr r = OK then
        (case unmarshal (ReplyValue r) of None \<Rightarrow> Inl (Fatal ''Unmarshal err'') | Some v \<Rightarrow> Inr (v, ReplyVersion r))
      else Inl (Fatal ''Get err''))"

definition PutJson :: "('v \<Rightarrow> string) \<Rightarrow> string \<Rightarrow> 'v \<Rightarrow> Tversion \<Rightarrow> PutArgs" where
  "PutJson marshal key v ver = \<lparr>PutKey = key, PutValue = marshal v, PutVersion = ver\<rparr>"

text \<open>\<open>PutAtLeastOnce\<close>: one schedule per put. The result is the version it returns, if it has.\<close>

definition PutAtLeastOnce_answer :: "Tversion \<Rightarrow> Err \<Rightarrow> (Tversion \<times> bool) go" where
  "PutAtLeastOnce_answer ver err =
     (if err = OK then Inr (ver + 1, True)
      else if err = ErrMaybe \<or> err = ErrVersion then Inr (ver + 1, False)
      else if ver \<noteq> 0 then Inl (Fatal ''Put ver err'')
      else Inr (ver, False))"

definition show_version :: "Tversion \<Rightarrow> string" where
  "show_version v = Itoa (uint v)"

definition PutAtLeastOnce_note :: "int \<Rightarrow> string \<Rightarrow> string \<Rightarrow> Tversion \<Rightarrow> Tversion \<Rightarrow> tlog \<Rightarrow> tlog" where
  "PutAtLeastOnce_note t key value verPrev ver =
     AnnotateInfo t (''Put('' @ key @ '', '' @ value @ '') completes'') (''version: '' @ show_version verPrev @ '' -> '' @ show_version ver)"

fun PutAtLeastOnce_loop ::
  "KVServer \<Rightarrow> string \<Rightarrow> string \<Rightarrow> Tversion \<Rightarrow> schedule list \<Rightarrow> (Tversion option \<times> KVServer) go" where
  "PutAtLeastOnce_loop kv key value ver [] = Inr (None, kv)"
| "PutAtLeastOnce_loop kv key value ver (sch # schs) =
     (case Clerk_Put kv \<lparr>PutKey = key, PutValue = value, PutVersion = ver\<rparr> sch of
        (None, kv', _) \<Rightarrow> Inr (None, kv')
      | (Some err, kv', _) \<Rightarrow> go_bind (PutAtLeastOnce_answer ver err) (\<lambda>(ver', done).
          if done then Inr (Some ver', kv') else PutAtLeastOnce_loop kv' key value ver' schs))"

definition PutAtLeastOnce ::
  "int \<Rightarrow> string \<Rightarrow> string \<Rightarrow> Tversion \<Rightarrow> schedule list \<Rightarrow> KVServer \<times> tlog \<Rightarrow> (Tversion option \<times> KVServer \<times> tlog) go" where
  "PutAtLeastOnce t key value ver schs = (\<lambda>(kv, l).
     go_map (\<lambda>(r, kv'). (r, kv', case r of None \<Rightarrow> l | Some ver' \<Rightarrow> PutAtLeastOnce_note t key value ver ver' l))
       (PutAtLeastOnce_loop kv key value ver schs))"

text \<open>\<open>PutAtLeastOnceJson\<close> passes version 0 in every attempt; its argument only counts.\<close>

fun PutAtLeastOnceJson :: "('v \<Rightarrow> string) \<Rightarrow> KVServer \<Rightarrow> string \<Rightarrow> 'v \<Rightarrow> Tversion \<Rightarrow> schedule list \<Rightarrow> Tversion option \<times> KVServer" where
  "PutAtLeastOnceJson marshal kv key value ver [] = (None, kv)"
| "PutAtLeastOnceJson marshal kv key value ver (sch # schs) =
     (case Clerk_Put kv (PutJson marshal key value 0) sch of
        (None, kv', _) \<Rightarrow> (None, kv')
      | (Some err, kv', _) \<Rightarrow> (if err \<noteq> ErrMaybe then (Some ver, kv') else PutAtLeastOnceJson marshal kv' key value (ver + 1) schs))"

definition CheckGet :: "int \<Rightarrow> int \<Rightarrow> string \<Rightarrow> string \<Rightarrow> Tversion \<Rightarrow> GetReply \<Rightarrow> tlog \<Rightarrow> tlog go" where
  "CheckGet t t' key value version r l =
     go_bind (AnnotateCheckerBegin t (''checking Get('' @ key @ '') = ('' @ value @ '', '' @ show_version version @ '')'') l) (\<lambda>l1.
     if ReplyErr r \<noteq> OK then
       (let text = ''Get('' @ key @ '') returns error = '' @ ReplyErr r in
        go_bind (AnnotateCheckerFailure t' text text l1) (\<lambda>_. Inl (Fatal text)))
     else if ReplyValue r \<noteq> value \<or> ReplyVersion r \<noteq> version then
       (let text = ''Get('' @ key @ '') returns ('' @ ReplyValue r @ '', '' @ show_version (ReplyVersion r) @ '') != ('' @ value @ '', '' @
              show_version version @ '')'' in
        go_bind (AnnotateCheckerFailure t' text text l1) (\<lambda>_. Inl (Fatal text)))
     else AnnotateCheckerSuccess t' (''Get('' @ key @ '') returns ('' @ ReplyValue r @ '', '' @ show_version (ReplyVersion r) @ '') as expected'') ''OK'' l1)"

section \<open>Concurrent puts\<close>

text \<open>What \<open>OnePut\<close> does with the answers to its put and get: the new version, and whether it returns
  (and with which flag).\<close>

definition OnePut_answer :: "int \<Rightarrow> Tversion \<Rightarrow> Err \<Rightarrow> EntryV \<times> Tversion \<Rightarrow> (Tversion \<times> bool option) go" where
  "OnePut_answer me ver err = (\<lambda>(e, ver0).
     if \<not> (err = OK \<or> err = ErrVersion \<or> err = ErrMaybe) then Inl (Fatal ''Wrong error'')
     else if err = OK \<and> ver0 = ver + 1 \<and> evId e \<noteq> me \<and> evV e \<noteq> ver then Inl (Fatal ''Wrong value'')
     else if err = OK \<or> err = ErrMaybe then Inr (ver0, Some (err = OK))
     else Inr (ver0, None))"

definition OneClientPut_count :: "ClntRes \<Rightarrow> bool \<Rightarrow> ClntRes" where
  "OneClientPut_count res ok = (if ok then res\<lparr>Nok := Nok res + 1\<rparr> else res\<lparr>Nmaybe := Nmaybe res + 1\<rparr>)"

definition total_res :: "ClntRes list \<Rightarrow> ClntRes \<Rightarrow> ClntRes" where
  "total_res rs res = foldl (\<lambda>res r. res\<lparr>Nok := Nok res + Nok r, Nmaybe := Nmaybe res + Nmaybe r\<rparr>) res rs"

text \<open>The counts are converted to the unsigned version type.\<close>

definition CheckPutConcurrent :: "GetReply \<Rightarrow> ClntRes list \<Rightarrow> ClntRes \<Rightarrow> bool \<Rightarrow> ClntRes go" where
  "CheckPutConcurrent r rs res rel =
     go_bind (GetJson unmarshal_EntryV r) (\<lambda>(e, ver0).
       let res' = total_res rs res in
       if rel then (if ver0 \<noteq> word_of_int (Nok res') then Inl (Fatal ''Reliable: Wrong number of puts'') else Inr res')
       else if word_of_int (Nok res' + Nmaybe res') < ver0 then Inl (Fatal ''Unreliable: Wrong number of puts'')
       else Inr res')"

section \<open>Concurrent appends\<close>

text \<open>Iteration \<open>i\<close> of \<open>OneClientAppend\<close>: the put after a get, and the counts after the answer to it;
  None means to try the iteration again.\<close>

definition append_put :: "int \<Rightarrow> int \<Rightarrow> GetReply \<Rightarrow> PutArgs go" where
  "append_put me i r =
     go_map (\<lambda>(es, ver). PutJson marshal_entries ''k'' (es @ [\<lparr>eId = me, eN = i\<rparr>]) ver) (GetJson unmarshal_entries r)"

definition append_answer :: "ClntRes \<Rightarrow> Err \<Rightarrow> ClntRes option" where
  "append_answer res err =
     (if err = OK then Some (res\<lparr>Nok := Nok res + 1\<rparr>)
      else if err = ErrMaybe then Some (res\<lparr>Nmaybe := Nmaybe res + 1\<rparr>)
      else None)"

text \<open>\<open>CheckAppends\<close>: the maps \<open>expect\<close> and \<open>skipped\<close>, whose missing entries read as 0.\<close>

definition zero_of :: "(int \<rightharpoonup> int) \<Rightarrow> int \<Rightarrow> int" where
  "zero_of m i = (case m i of None \<Rightarrow> 0 | Some n \<Rightarrow> n)"

definition check_entry :: "EntryN \<Rightarrow> (int \<rightharpoonup> int) \<times> (int \<rightharpoonup> int) \<Rightarrow> ((int \<rightharpoonup> int) \<times> (int \<rightharpoonup> int)) go" where
  "check_entry e = (\<lambda>(expect, skipped).
     if zero_of expect (eId e) > eN e then Inl (Fatal ''wrong expecting'')
     else if zero_of expect (eId e) = eN e then Inr (expect(eId e \<mapsto> zero_of expect (eId e) + 1), skipped)
     else let s = eN e - zero_of expect (eId e) in
       Inr (expect(eId e \<mapsto> eN e + 1), skipped(eId e \<mapsto> zero_of skipped (eId e) + s)))"

definition check_client :: "ClntRes list \<Rightarrow> (int \<rightharpoonup> int) \<Rightarrow> (int \<rightharpoonup> int) \<Rightarrow> int \<Rightarrow> unit go" where
  "check_client rs expect skipped c =
     go_bind (go_index rs c) (\<lambda>r.
       if zero_of skipped c > Nmaybe r then Inl (Fatal ''skipped puts'')
       else if zero_of expect c > Nok r + Nmaybe r then Inl (Fatal ''puts on server'')
       else Inr ())"

text \<open>The last loop visits the keys of \<open>expect\<close> in some order.\<close>

definition CheckAppends :: "(int set \<Rightarrow> int list) \<Rightarrow> EntryN list \<Rightarrow> nat \<Rightarrow> ClntRes list \<Rightarrow> Tversion \<Rightarrow> unit go" where
  "CheckAppends order es nclnt rs ver =
     (let zeros = (\<lambda>i. if 0 \<le> i \<and> i < int nclnt then Some 0 else None) in
      go_bind (go_fold check_entry es (zeros, zeros)) (\<lambda>(expect, skipped).
        if int (length es) + 1 \<noteq> sint ver then Inl (Fatal ''appends in val != puts on server'')
        else go_fold (\<lambda>c _. check_client rs expect skipped c) (order (dom expect)) ()))"

section \<open>Keys\<close>

definition MakeKeys :: "nat \<Rightarrow> string list" where
  "MakeKeys n = map (\<lambda>i. ''k'' @ Itoa (int i)) [0..<n]"

text \<open>\<open>SpreadPutsSize\<close> with the random values as an argument; every call of the clerk has a schedule.\<close>

fun spread_puts :: "(string \<times> string) list \<Rightarrow> schedule list \<Rightarrow> KVServer \<Rightarrow> KVServer option" where
  "spread_puts [] schs kv = Some kv"
| "spread_puts ((k, v) # kvs) schs kv =
     (case schs of [] \<Rightarrow> None
      | sch # schs' \<Rightarrow> (case Clerk_Put kv \<lparr>PutKey = k, PutValue = v, PutVersion = 0\<rparr> sch of
           (None, _) \<Rightarrow> None
         | (Some _, kv', _) \<Rightarrow> spread_puts kvs schs' kv'))"

fun spread_checks :: "int \<Rightarrow> int \<Rightarrow> (string \<times> string) list \<Rightarrow> schedule list \<Rightarrow> KVServer \<times> tlog \<Rightarrow> (KVServer \<times> tlog) option go" where
  "spread_checks t t' [] schs (kv, l) = Inr (Some (kv, l))"
| "spread_checks t t' ((k, v) # kvs) schs (kv, l) =
     (case schs of [] \<Rightarrow> Inr None
      | sch # schs' \<Rightarrow> (case Clerk_Get kv k sch of
           (None, _) \<Rightarrow> Inr None
         | (Some r, kv') \<Rightarrow> go_bind (CheckGet t t' k v 1 r l) (\<lambda>l'. spread_checks t t' kvs schs' (kv', l'))))"

definition SpreadPutsSize ::
  "int \<Rightarrow> int \<Rightarrow> nat \<Rightarrow> string list \<Rightarrow> schedule list \<Rightarrow> schedule list \<Rightarrow> KVServer \<times> tlog \<Rightarrow> (string list \<times> string list \<times> KVServer \<times> tlog) option go" where
  "SpreadPutsSize t t' n va schs schs' = (\<lambda>(kv, l).
     let ka = MakeKeys n in
     case spread_puts (zip ka va) schs kv of
       None \<Rightarrow> Inr None
     | Some kv1 \<Rightarrow> go_map (map_option (\<lambda>(kv2, l2). (ka, va, kv2, l2))) (spread_checks t t' (zip ka va) schs' (kv1, l)))"

text \<open>\<open>SpreadPuts\<close>: values of 20 characters.\<close>

definition SpreadPuts ::
  "int \<Rightarrow> int \<Rightarrow> nat \<Rightarrow> (nat \<Rightarrow> nat \<Rightarrow> string) \<Rightarrow> schedule list \<Rightarrow> schedule list \<Rightarrow> KVServer \<times> tlog \<Rightarrow> (string list \<times> string list \<times> KVServer \<times> tlog) option go" where
  "SpreadPuts t t' n rnd schs schs' = SpreadPutsSize t t' n (map (rnd 20) [0..<n]) schs schs'"

section \<open>Partitions\<close>

text \<open>One round of \<open>Partitioner\<close>: every server tosses a coin.\<close>

definition coin_parts :: "nat list \<Rightarrow> int list \<times> int list" where
  "coin_parts a = (map int (filter (\<lambda>j. a ! j = 0) [0..<length a]), map int (filter (\<lambda>j. a ! j = 1) [0..<length a]))"

definition Partitioner_round ::
  "(nat \<Rightarrow> nat) \<Rightarrow> int \<Rightarrow> ('r, 's, 'o, 'a, 'q) grp_state \<Rightarrow> tlog \<Rightarrow> (('r, 's, 'o, 'a, 'q) grp_state \<times> tlog) go" where
  "Partitioner_round rnd t st l =
     (let a = map (\<lambda>i. rnd i mod 2) [0..<Grp_N (fst st)]; (p0, p1) = coin_parts a in
      go_map (\<lambda>st'. (st', AnnotateTwoPartitions t p0 p1 l)) (Partition p0 p1 st))"

section \<open>A client that has its key for itself\<close>

definition quiet :: "string \<Rightarrow> schedule \<Rightarrow> bool" where
  "quiet key sch \<longleftrightarrow> (\<forall>(env, _) \<in> set sch. \<forall>args. ReqPut args \<in> set env \<longrightarrow> PutKey args \<noteq> key)"

lemma serve_quiet:
  "(\<And>args. ReqPut args \<in> set env \<Longrightarrow> PutKey args \<noteq> key) \<Longrightarrow> kv_abs (snd (serve kv env)) key = kv_abs kv key"
proof (induction env arbitrary: kv)
  case (Cons r env)
  have "kv_abs (case r of ReqGet k \<Rightarrow> kv | ReqPut args \<Rightarrow> fst (KVServer_Put kv args)) key = kv_abs kv key"
    using Cons.prems by (cases r) (auto intro!: kv_abs_put_other)
  then show ?case unfolding serve_Cons using Cons by simp
qed simp

lemma put_miss: "StVersion (kv_abs kv (PutKey args)) \<noteq> PutVersion args \<Longrightarrow> fst (KVServer_Put kv args) = kv"
  by (auto simp: KVServer_Put_def kv_abs_def split: option.splits)

text \<open>After the put was applied, the loop can only end with \<open>ErrMaybe\<close>, and changes nothing.\<close>

lemma quiet_loop_applied:
  assumes "quiet (PutKey args) sch" and "StVersion (kv_abs kv (PutKey args)) = PutVersion args + 1"
    and "versions kv (PutKey args) \<noteq> None" and "Clerk_Put_loop False kv args sch = (r, kv', m)"
  shows "kv_abs kv' (PutKey args) = kv_abs kv (PutKey args) \<and> r \<in> {None, Some ErrMaybe}"
  using assms
proof (induction sch arbitrary: kv r kv' m)
  case (Cons a sch)
  obtain env out where a: "a = (env, out)" by (rule prod.exhaust)
  define kv1 where "kv1 = snd (serve kv env)"
  have kv1: "kv_abs kv1 (PutKey args) = kv_abs kv (PutKey args)" "versions kv1 (PutKey args) \<noteq> None"
    using Cons.prems(1,3) serve_quiet [of env "PutKey args" kv] serve_keeps_key [of kv "PutKey args" env] by (auto simp: quiet_def a kv1_def)
  have put: "KVServer_Put kv1 args = (kv1, ErrVersion)"
    using kv1 Cons.prems(2) put_err [of kv1 args] put_miss [of kv1 args] by (intro prod_eqI) auto
  have q: "quiet (PutKey args) sch" using Cons.prems(1) by (simp add: quiet_def a)
  have IH: "Clerk_Put_loop False kv1 args sch = (r', kv'', m') \<Longrightarrow> kv_abs kv'' (PutKey args) = kv_abs kv (PutKey args) \<and> r' \<in> {None, Some ErrMaybe}"
    for r' kv'' m' using Cons.IH [OF q _ kv1(2)] kv1(1) Cons.prems(2) by simp
  show ?case using Cons.prems(4) IH kv1(1) put
    by (cases out) (auto simp: a Let_def Clerk_Put_reply_def simp flip: kv1_def split: prod.splits)
qed simp

lemma quiet_loop:
  assumes "quiet (PutKey args) sch" and "StVersion (kv_abs kv (PutKey args)) = PutVersion args"
    and "Clerk_Put_loop f kv args sch = (Some e, kv', m)"
  shows "kv_abs kv' (PutKey args) = \<lparr>StValue = PutValue args, StVersion = PutVersion args + 1\<rparr> \<and> (e = OK \<or> e = ErrMaybe)"
  using assms
proof (induction sch arbitrary: kv f m)
  case (Cons a sch)
  obtain env out where a: "a = (env, out)" by (rule prod.exhaust)
  define kv1 where "kv1 = snd (serve kv env)"
  obtain kv2 e2 where put: "KVServer_Put kv1 args = (kv2, e2)" by (rule prod.exhaust)
  have kv1: "StVersion (kv_abs kv1 (PutKey args)) = PutVersion args"
    using Cons.prems(1,2) serve_quiet [of env "PutKey args" kv] by (simp add: quiet_def a kv1_def)
  have hit: "e2 = OK" "kv_abs kv2 (PutKey args) = \<lparr>StValue = PutValue args, StVersion = PutVersion args + 1\<rparr>" "versions kv2 (PutKey args) \<noteq> None"
    using kv1 put put_err [of kv1 args] kv_abs_put_same [OF put] put_hit [of kv1 args kv2] by auto
  have q: "quiet (PutKey args) sch" using Cons.prems(1) by (simp add: quiet_def a)
  show ?case
  proof (cases out)
    case ReqLost
    then show ?thesis using Cons.IH [OF q kv1] Cons.prems(3) put by (simp add: a Let_def flip: kv1_def)
  next
    case RepLost
    then obtain m' where "Clerk_Put_loop False kv2 args sch = (Some e, kv', m')"
      using Cons.prems(3) put by (auto simp: a Let_def simp flip: kv1_def split: prod.splits)
    then show ?thesis using quiet_loop_applied [OF q _ hit(3)] hit(2) by auto
  next
    case Delivered
    then show ?thesis using Cons.prems(3) put hit by (simp add: a Let_def Clerk_Put_reply_def flip: kv1_def)
  qed
qed simp

lemma PutAtLeastOnce_loop_quiet:
  assumes "\<And>sch. sch \<in> set schs \<Longrightarrow> quiet key sch" and "StVersion (kv_abs kv key) = ver"
  shows "\<exists>r kv'. PutAtLeastOnce_loop kv key value ver schs = Inr (r, kv') \<and>
    (\<forall>ver'. r = Some ver' \<longrightarrow> kv_abs kv' key = \<lparr>StValue = value, StVersion = ver'\<rparr>)"
  using assms
proof (induction schs arbitrary: kv ver)
  case (Cons sch schs)
  obtain r kv1 m where put: "Clerk_Put kv \<lparr>PutKey = key, PutValue = value, PutVersion = ver\<rparr> sch = (r, kv1, m)" by (metis prod.exhaust)
  show ?case
  proof (cases r)
    case None
    then show ?thesis using put by simp
  next
    case (Some e)
    have e: "kv_abs kv1 key = \<lparr>StValue = value, StVersion = ver + 1\<rparr>" "e = OK \<or> e = ErrMaybe"
      using quiet_loop [of "\<lparr>PutKey = key, PutValue = value, PutVersion = ver\<rparr>" sch kv True e kv1 m] put Some Cons.prems
      by (auto simp: Clerk_Put_def)
    then show ?thesis using put Some Cons.IH [of kv1 "ver + 1"] Cons.prems(1) by (auto simp: PutAtLeastOnce_answer_def)
  qed
qed simp

text \<open>\<open>PutAtLeastOnce\<close> on a key nobody else writes to, called with the key's version: it never fails,
  and when it returns, the server holds the value at the version it returns.\<close>

theorem put_at_least_once_leaves_value:
  assumes "\<And>sch. sch \<in> set schs \<Longrightarrow> quiet key sch" and "StVersion (kv_abs kv key) = ver"
  shows "\<exists>r kv' l'. PutAtLeastOnce t key value ver schs (kv, l) = Inr (r, kv', l') \<and>
    (\<forall>ver'. r = Some ver' \<longrightarrow> kv_abs kv' key = \<lparr>StValue = value, StVersion = ver'\<rparr>)"
  using PutAtLeastOnce_loop_quiet [of schs key kv ver "value"] assms by (auto simp: PutAtLeastOnce_def)

definition RepLost_first :: schedule where
  "RepLost_first = [([], RepLost), ([], Delivered)]"

definition Delivered_first :: schedule where
  "Delivered_first = [([ReqGet ''a''], Delivered)]"

theorem put_at_least_once_leaves_value_witness:
  "\<exists>kv' l'. PutAtLeastOnce 5 ''a'' ''x'' 0 [RepLost_first, Delivered_first]
       (MakeKVServer, \<lparr>an = mkAnnotation, finfo = None\<rparr>) = Inr (Some 2, kv', l') \<and> kv_abs kv' ''a'' = \<lparr>StValue = ''x'', StVersion = 2\<rparr>"
proof -
  let ?schs = "[RepLost_first, Delivered_first]"
  have q: "sch \<in> set ?schs \<Longrightarrow> quiet ''a'' sch" for sch by (auto simp: quiet_def RepLost_first_def Delivered_first_def)
  have v: "StVersion (kv_abs MakeKVServer ''a'') = 0" by (simp add: KvModel_Init_def)
  have "fst (projr (PutAtLeastOnce_loop MakeKVServer ''a'' ''x'' 0 ?schs)) = Some 2"
    by (simp add: Clerk_Put_def MakeKVServer_def KVServer_Put_def Clerk_Put_reply_def PutAtLeastOnce_answer_def RepLost_first_def Delivered_first_def)
  then show ?thesis
    using put_at_least_once_leaves_value [of ?schs, OF q v, of 5 "''x''" "\<lparr>an = mkAnnotation, finfo = None\<rparr>"]
    by (auto simp: PutAtLeastOnce_def go_map_eq_Inr)
qed

section \<open>One round of the partitioner\<close>

text \<open>After a round, two servers are linked exactly if they tossed the same side, and the log shows
  the two parts.\<close>

theorem partitioner_splits_by_coin:
  assumes "wired (fst st)" and "n = length (srvs (fst st))"
  shows "\<exists>st' l'. Partitioner_round rnd t st l = Inr (st', l') \<and> same_wires st st' \<and>
    (\<forall>a < n. \<forall>b < n. linked st' a b \<longleftrightarrow> rnd a mod 2 = rnd b mod 2) \<and>
    shown_fault l' = Some (''partition = '' @ show_ints (map int (filter (\<lambda>j. rnd j mod 2 = 0) [0..<n])) @ '' '' @
      show_ints (map int (filter (\<lambda>j. rnd j mod 2 = 1) [0..<n])))"
proof -
  let ?p = "\<lambda>v. filter (\<lambda>j. rnd j mod 2 = v) [0..<n]"
  have sub: "set (?p 0) \<subseteq> {..<n}" "set (?p 1) \<subseteq> {..<n}" "set (?p 0) \<inter> set (?p 1) = {}" by auto
  have parts: "coin_parts (map (\<lambda>i. rnd i mod 2) [0..<Grp_N (fst st)]) = (map int (?p 0), map int (?p 1))"
    using assms(2) by (auto simp: coin_parts_def Grp_N_def intro!: filter_cong)
  obtain st' where st': "Partition (map int (?p 0)) (map int (?p 1)) st = Inr st'" "same_wires st st'"
    "\<And>a b. a < n \<Longrightarrow> b < n \<Longrightarrow> linked st' a b \<longleftrightarrow>
       (if a \<in> set (?p 0) \<union> set (?p 1) \<and> b \<in> set (?p 0) \<union> set (?p 1) then a \<in> set (?p 0) \<longleftrightarrow> b \<in> set (?p 0) else linked st a b)"
    using partition_splits_core [OF assms sub] by blast
  have coin: "x mod 2 = (0 :: nat) \<or> x mod 2 = 1" for x by auto
  have "linked st' a b \<longleftrightarrow> rnd a mod 2 = rnd b mod 2" if "a < n" "b < n" for a b
    using st'(3) [OF that] that coin [of "rnd a"] coin [of "rnd b"] by auto
  then show ?thesis using st'(1,2) parts by (simp add: Partitioner_round_def AnnotateTwoPartitions_def Let_def)
qed

theorem partitioner_splits_by_coin_witness:
  "\<exists>st' l'. Partitioner_round (\<lambda>i. i) 7 (demo_grp, demo_world) \<lparr>an = mkAnnotation, finfo = None\<rparr> = Inr (st', l') \<and> linked st' 0 2 \<and> \<not> linked st' 0 1"
proof -
  obtain st' l' where "Partitioner_round (\<lambda>i. i) 7 (demo_grp, demo_world) \<lparr>an = mkAnnotation, finfo = None\<rparr> = Inr (st', l')"
      "\<And>a b. a < 3 \<Longrightarrow> b < 3 \<Longrightarrow> linked st' a b \<longleftrightarrow> a mod 2 = b mod 2"
    using partitioner_splits_by_coin [of "(demo_grp, demo_world)" 3 "\<lambda>i. i" 7 "\<lparr>an = mkAnnotation, finfo = None\<rparr>"] demo_grp_wired demo_grp_length
    by auto
  then show ?thesis by auto
qed

section \<open>What the append check accepts\<close>

text \<open>The numbers a client appended, in order; the number after its last one; the numbers below that
  which are missing.\<close>

definition es_of :: "int \<Rightarrow> EntryN list \<Rightarrow> int list" where
  "es_of c es = map eN (filter (\<lambda>e. eId e = c) es)"

definition next_of :: "int \<Rightarrow> EntryN list \<Rightarrow> int" where
  "next_of c es = (if es_of c es = [] then 0 else last (es_of c es) + 1)"

definition missing :: "int \<Rightarrow> EntryN list \<Rightarrow> int set" where
  "missing c es = {0..<next_of c es} - set (es_of c es)"

definition increasing :: "EntryN list \<Rightarrow> bool" where
  "increasing es \<longleftrightarrow> (\<forall>c. sorted_wrt (<) (es_of c es) \<and> (\<forall>n \<in> set (es_of c es). 0 \<le> n))"

lemma es_of_snoc: "es_of c (es @ [e]) = (if eId e = c then es_of c es @ [eN e] else es_of c es)"
  by (simp add: es_of_def)

lemma next_of_snoc: "next_of c (es @ [e]) = (if eId e = c then eN e + 1 else next_of c es)"
  by (simp add: next_of_def es_of_snoc)

lemma es_of_bounds: "increasing es \<Longrightarrow> n \<in> set (es_of c es) \<Longrightarrow> 0 \<le> n \<and> n < next_of c es"
proof -
  assume inc: "increasing es" and n: "n \<in> set (es_of c es)"
  have "sorted_wrt (<) (es_of c es)" "0 \<le> n" using inc n by (auto simp: increasing_def)
  moreover obtain xs x where xs: "es_of c es = xs @ [x]" using n by (cases "es_of c es" rule: rev_cases) auto
  ultimately show ?thesis using n by (auto simp: next_of_def sorted_wrt_append xs)
qed

lemma increasing_snoc: "increasing (es @ [e]) \<longleftrightarrow> increasing es \<and> next_of (eId e) es \<le> eN e"
proof -
  have "increasing (es @ [e]) \<longleftrightarrow> increasing es \<and> (\<forall>n \<in> set (es_of (eId e) es). n < eN e) \<and> 0 \<le> eN e"
    by (auto simp: increasing_def es_of_snoc sorted_wrt_append split: if_splits)
  moreover have "(\<forall>n \<in> set (es_of (eId e) es). n < eN e) \<and> 0 \<le> eN e \<longleftrightarrow> next_of (eId e) es \<le> eN e" if inc: "increasing es"
  proof (cases "es_of (eId e) es = []")
    case False
    then have l: "last (es_of (eId e) es) \<in> set (es_of (eId e) es)" "next_of (eId e) es = last (es_of (eId e) es) + 1"
      by (simp_all add: next_of_def)
    then show ?thesis using es_of_bounds [OF inc, of _ "eId e"] by fastforce
  qed (simp add: next_of_def)
  ultimately show ?thesis by blast
qed

lemma card_missing:
  assumes "increasing es"
  shows "int (card (missing c es)) = next_of c es - int (length (es_of c es))"
proof -
  have "sorted_wrt (<) (es_of c es)" using assms by (simp add: increasing_def)
  then have "distinct (es_of c es)" by (simp add: strict_sorted_iff)
  then have "card (set (es_of c es)) = length (es_of c es)" by (rule distinct_card)
  moreover have sub: "set (es_of c es) \<subseteq> {0..<next_of c es}" using es_of_bounds [OF assms] by auto
  moreover have "0 \<le> next_of c es"
  proof (cases "es_of c es")
    case (Cons n ns)
    then show ?thesis using es_of_bounds [OF assms, of n c] by simp
  qed (simp add: next_of_def)
  moreover have "card (set (es_of c es)) \<le> card {0..<next_of c es}" using sub by (intro card_mono) auto
  ultimately show ?thesis by (simp add: missing_def card_Diff_subset)
qed

text \<open>The first loop: its maps hold the next number of each client and how many are missing.\<close>

lemma zero_of_upd [simp]: "zero_of (m(i \<mapsto> n)) j = (if j = i then n else zero_of m j)"
  by (simp add: zero_of_def)

lemma check_entry_eq:
  "check_entry e (expect, skipped) =
     (if zero_of expect (eId e) > eN e then Inl (Fatal ''wrong expecting'')
      else if zero_of expect (eId e) = eN e then Inr (expect(eId e \<mapsto> eN e + 1), skipped)
      else Inr (expect(eId e \<mapsto> eN e + 1), skipped(eId e \<mapsto> zero_of skipped (eId e) + (eN e - zero_of expect (eId e)))))"
  by (simp add: check_entry_def Let_def)

lemma check_entries:
  assumes "z = (\<lambda>i. if 0 \<le> i \<and> i < int nclnt then Some 0 else None)"
  shows "(increasing es \<longrightarrow> (\<exists>expect skipped. go_fold check_entry es (z, z) = Inr (expect, skipped) \<and>
      dom expect = {0..<int nclnt} \<union> eId ` set es \<and> (\<forall>c. zero_of expect c = next_of c es) \<and>
      (\<forall>c. zero_of skipped c = next_of c es - int (length (es_of c es))))) \<and>
    (\<not> increasing es \<longrightarrow> go_fold check_entry es (z, z) = Inl (Fatal ''wrong expecting''))"
proof (induction es rule: rev_induct)
  case Nil
  then show ?case using assms by (auto simp: increasing_def es_of_def next_of_def zero_of_def dom_def)
next
  case (snoc e es)
  show ?case
  proof (cases "increasing es")
    case False
    then show ?thesis using snoc by (simp add: go_fold_append increasing_snoc)
  next
    case True
    then obtain expect skipped where m: "go_fold check_entry es (z, z) = Inr (expect, skipped)"
      "dom expect = {0..<int nclnt} \<union> eId ` set es" "\<And>c. zero_of expect c = next_of c es"
      "\<And>c. zero_of skipped c = next_of c es - int (length (es_of c es))"
      using snoc by blast
    have f: "go_fold check_entry (es @ [e]) (z, z) = check_entry e (expect, skipped)"
      using m(1) by (simp add: go_fold_append go_bind_def split: sum.splits)
    show ?thesis
    proof (cases "next_of (eId e) es \<le> eN e")
      case False
      then show ?thesis using f m(3) True by (simp add: check_entry_eq increasing_snoc)
    next
      case le: True
      have "\<exists>expect' skipped'. check_entry e (expect, skipped) = Inr (expect', skipped') \<and>
          dom expect' = {0..<int nclnt} \<union> eId ` set (es @ [e]) \<and> (\<forall>c. zero_of expect' c = next_of c (es @ [e])) \<and>
          (\<forall>c. zero_of skipped' c = next_of c (es @ [e]) - int (length (es_of c (es @ [e]))))"
      proof (cases "next_of (eId e) es = eN e")
        case True
        then show ?thesis using m(2-4) by (auto simp: check_entry_eq next_of_snoc es_of_snoc)
      next
        case False
        then show ?thesis using le m(2-4) by (auto simp: check_entry_eq next_of_snoc es_of_snoc)
      qed
      then show ?thesis using True le f by (simp add: increasing_snoc)
    qed
  qed
qed

lemma check_clients:
  "go_fold (\<lambda>c _. check_client rs expect skipped c) cs () = Inr () \<longleftrightarrow> (\<forall>c \<in> set cs. check_client rs expect skipped c = Inr ())"
  by (induction cs) (auto simp: go_bind_eq_Inr)

lemma CheckAppends_accepts:
  assumes order: "\<And>S. finite S \<Longrightarrow> set (order S) = S"
  shows "CheckAppends order es nclnt rs ver = Inr () \<longleftrightarrow>
    increasing es \<and> int (length es) + 1 = sint ver \<and>
    (\<forall>c \<in> {0..<int nclnt} \<union> eId ` set es. 0 \<le> c \<and> c < int (length rs) \<and>
       int (card (missing c es)) \<le> Nmaybe (rs ! nat c) \<and> next_of c es \<le> Nok (rs ! nat c) + Nmaybe (rs ! nat c))"
proof (cases "increasing es")
  case False
  then show ?thesis using check_entries [OF refl, of es nclnt] by (simp add: CheckAppends_def Let_def)
next
  case True
  let ?z = "\<lambda>i. if 0 \<le> i \<and> i < int nclnt then Some 0 else None"
  obtain expect skipped where m: "go_fold check_entry es (?z, ?z) = Inr (expect, skipped)"
      "dom expect = {0..<int nclnt} \<union> eId ` set es" "\<And>c. zero_of expect c = next_of c es"
      "\<And>c. zero_of skipped c = next_of c es - int (length (es_of c es))"
    using check_entries [OF refl, of es nclnt] True by blast
  have "check_client rs expect skipped c = Inr () \<longleftrightarrow> 0 \<le> c \<and> c < int (length rs) \<and>
       int (card (missing c es)) \<le> Nmaybe (rs ! nat c) \<and> next_of c es \<le> Nok (rs ! nat c) + Nmaybe (rs ! nat c)" for c
    using m(3,4) [of c] card_missing [OF True, of c] by (auto simp: check_client_def go_index_def)
  moreover have "set (order (dom expect)) = {0..<int nclnt} \<union> eId ` set es" using order m(2) by simp
  ultimately show ?thesis using m(1) True by (simp add: CheckAppends_def check_clients Let_def)
qed

text \<open>C30: \<open>CheckAppends\<close> accepts a value exactly if every client's numbers are increasing, the version is
  one more than the number of entries, every client named has a result, and per client the
  numbers that are missing are no more than its puts of unknown outcome and its last number is
  covered by its successful puts and those.\<close>

theorem CheckAppends_iff:
  assumes "\<And>S. finite S \<Longrightarrow> set (order S) = S"
  shows "CheckAppends order es nclnt rs ver = Inr () \<longleftrightarrow>
    increasing es \<and> int (length es) + 1 = sint ver \<and>
    (\<forall>c \<in> {0..<int nclnt} \<union> eId ` set es. 0 \<le> c \<and> c < int (length rs) \<and>
       int (card (missing c es)) \<le> Nmaybe (rs ! nat c) \<and> next_of c es \<le> Nok (rs ! nat c) + Nmaybe (rs ! nat c))"
  by (rule CheckAppends_accepts [OF assms])

text \<open>A client appended 0 and 2, and one of its puts had an unknown outcome.\<close>

theorem CheckAppends_iff_witness:
  "CheckAppends sorted_list_of_set [\<lparr>eId = 0, eN = 0\<rparr>, \<lparr>eId = 0, eN = 2\<rparr>] 1 [\<lparr>Nok = 2, Nmaybe = 1\<rparr>] 3 = Inr ()"
proof -
  have e: "es_of 0 [\<lparr>eId = 0, eN = 0\<rparr>, \<lparr>eId = 0, eN = 2\<rparr>] = [0, 2]" "es_of c [\<lparr>eId = 0, eN = 0\<rparr>, \<lparr>eId = 0, eN = 2\<rparr>] = []" if "c \<noteq> 0" for c
    using that by (simp_all add: es_of_def)
  have inc: "increasing [\<lparr>eId = 0, eN = 0\<rparr>, \<lparr>eId = 0, eN = 2\<rparr>]"
    unfolding increasing_def
  proof
    fix c
    show "sorted_wrt (<) (es_of c [\<lparr>eId = 0, eN = 0\<rparr>, \<lparr>eId = 0, eN = 2\<rparr>]) \<and> (\<forall>n \<in> set (es_of c [\<lparr>eId = 0, eN = 0\<rparr>, \<lparr>eId = 0, eN = 2\<rparr>]). 0 \<le> n)"
      by (cases "c = 0") (simp_all add: es_of_def)
  qed
  have m: "missing 0 [\<lparr>eId = 0, eN = 0\<rparr>, \<lparr>eId = 0, eN = 2\<rparr>] = {1}" by (auto simp: missing_def next_of_def es_of_def)
  have ids: "{0..<int 1} \<union> eId ` set [\<lparr>eId = 0, eN = 0\<rparr>, \<lparr>eId = 0, eN = 2\<rparr>] = {0}" by auto
  have "set (sorted_list_of_set S) = S" if "finite S" for S :: "int set" using that by simp
  from CheckAppends_iff [OF this, of "[\<lparr>eId = 0, eN = 0\<rparr>, \<lparr>eId = 0, eN = 2\<rparr>]" 1 "[\<lparr>Nok = 2, Nmaybe = 1\<rparr>]" 3, unfolded ids] inc m
  show ?thesis by (simp add: next_of_def es_of_def)
qed

end
