(* ===== verification/AppendTest.thy ===== *)
theory AppendTest
  imports KVTest
begin

text \<open>
  Concurrent clients of \<open>OneClientAppend\<close> (\<open>kvtest1/kvtest.go\<close>) on one server: each appends its
  numbers to a shared key by a get and a conditional put, through clerks that lose requests and
  replies and repeat them. Every RPC attempt is a step. The result is that \<open>CheckAppends\<close> accepts
  what they leave.
\<close>

section \<open>The system\<close>

datatype append_pc =
    AtSelect               \<comment> \<open>before the \<open>select\<close> on \<open>done\<close>\<close>
  | InGet                  \<comment> \<open>in \<open>GetJson\<close>\<close>
  | InPut PutArgs bool     \<comment> \<open>in \<open>PutJson\<close>; first attempt?\<close>
  | Stopped
  | Broken go_error

record aclient =
  ac_i :: nat
  ac_pc :: append_pc
  ac_res :: ClntRes

record append_sys =
  as_srv :: KVServer
  as_cl :: "nat \<Rightarrow> aclient"

definition append_init :: append_sys where
  "append_init = \<lparr>as_srv = fst (KVServer_Put MakeKVServer (PutJson marshal_entries ''k'' [] 0)),
     as_cl = (\<lambda>_. \<lparr>ac_i = 0, ac_pc = AtSelect, ac_res = \<lparr>Nok = 0, Nmaybe = 0\<rparr>\<rparr>)\<rparr>"

definition set_aclient :: "nat \<Rightarrow> aclient \<Rightarrow> append_sys \<Rightarrow> append_sys" where
  "set_aclient c a s = s\<lparr>as_cl := (as_cl s)(c := a)\<rparr>"

definition got :: "nat \<Rightarrow> GetReply \<Rightarrow> aclient \<Rightarrow> aclient" where
  "got c r a = a\<lparr>ac_pc := (case append_put (int c) (int (ac_i a)) r of Inl e \<Rightarrow> Broken e | Inr args \<Rightarrow> InPut args True)\<rparr>"

definition answered :: "Err \<Rightarrow> aclient \<Rightarrow> aclient" where
  "answered e a = (case append_answer (ac_res a) e of
     Some res \<Rightarrow> a\<lparr>ac_i := ac_i a + 1, ac_pc := AtSelect, ac_res := res\<rparr> | None \<Rightarrow> a\<lparr>ac_pc := InGet\<rparr>)"

inductive append_step :: "nat \<Rightarrow> append_sys \<Rightarrow> append_sys \<Rightarrow> bool" for nclnt where
  goes_on: "c < nclnt \<Longrightarrow> ac_pc (as_cl s c) = AtSelect \<Longrightarrow>
    append_step nclnt s (set_aclient c ((as_cl s c)\<lparr>ac_pc := InGet\<rparr>) s)"
| stops: "c < nclnt \<Longrightarrow> ac_pc (as_cl s c) = AtSelect \<Longrightarrow>
    append_step nclnt s (set_aclient c ((as_cl s c)\<lparr>ac_pc := Stopped\<rparr>) s)"
| get_answered: "c < nclnt \<Longrightarrow> ac_pc (as_cl s c) = InGet \<Longrightarrow>
    append_step nclnt s (set_aclient c (got c (KVServer_Get (as_srv s) ''k'') (as_cl s c)) s)"
| request_lost: "c < nclnt \<Longrightarrow> ac_pc (as_cl s c) = InPut args f \<Longrightarrow>
    append_step nclnt s (set_aclient c ((as_cl s c)\<lparr>ac_pc := InPut args False\<rparr>) s)"
| reply_lost: "c < nclnt \<Longrightarrow> ac_pc (as_cl s c) = InPut args f \<Longrightarrow>
    append_step nclnt s ((set_aclient c ((as_cl s c)\<lparr>ac_pc := InPut args False\<rparr>) s)\<lparr>as_srv := fst (KVServer_Put (as_srv s) args)\<rparr>)"
| put_answered: "c < nclnt \<Longrightarrow> ac_pc (as_cl s c) = InPut args f \<Longrightarrow> KVServer_Put (as_srv s) args = (kv', e) \<Longrightarrow>
    append_step nclnt s ((set_aclient c (answered (Clerk_Put_reply f e) (as_cl s c)) s)\<lparr>as_srv := kv'\<rparr>)"

inductive append_run :: "nat \<Rightarrow> nat \<Rightarrow> append_sys \<Rightarrow> bool" for nclnt where
  append_start: "append_run nclnt 0 append_init"
| append_more: "append_run nclnt n s \<Longrightarrow> append_step nclnt s s' \<Longrightarrow> append_run nclnt (Suc n) s'"

section \<open>The invariant\<close>

definition srv_has :: "EntryN list \<Rightarrow> KVServer \<Rightarrow> bool" where
  "srv_has es kv \<longleftrightarrow> data kv ''k'' = Some (marshal_entries es) \<and> versions kv ''k'' = Some (of_nat (length es + 1))"

abbreviation mine :: "nat \<Rightarrow> aclient \<Rightarrow> EntryN" where
  "mine c a \<equiv> \<lparr>eId = int c, eN = int (ac_i a)\<rparr>"

text \<open>A put in flight was made from a prefix of the current value; the number it carries is there
  only if the put was sent before and has been overtaken by its own effect.\<close>

definition pc_ok :: "EntryN list \<Rightarrow> nat \<Rightarrow> aclient \<Rightarrow> bool" where
  "pc_ok es c a \<longleftrightarrow> (case ac_pc a of
     InPut args f \<Rightarrow> (\<exists>k \<le> length es. args = PutJson marshal_entries ''k'' (take k es @ [mine c a]) (of_nat (k + 1)) \<and>
       (int (ac_i a) \<in> set (es_of (int c) es) \<longrightarrow> \<not> f \<and> k < length es))
   | Broken e \<Rightarrow> False
   | _ \<Rightarrow> int (ac_i a) \<notin> set (es_of (int c) es))"

definition aclient_inv :: "EntryN list \<Rightarrow> nat \<Rightarrow> aclient \<Rightarrow> bool" where
  "aclient_inv es c a \<longleftrightarrow> Nok (ac_res a) + Nmaybe (ac_res a) = int (ac_i a) \<and>
     (\<forall>m \<in> set (es_of (int c) es). m \<le> int (ac_i a)) \<and>
     int (card ({0..<int (ac_i a)} - set (es_of (int c) es))) \<le> Nmaybe (ac_res a) \<and> pc_ok es c a"

definition append_inv :: "nat \<Rightarrow> nat \<Rightarrow> EntryN list \<Rightarrow> append_sys \<Rightarrow> bool" where
  "append_inv nclnt n es s \<longleftrightarrow> srv_has es (as_srv s) \<and> length es \<le> n \<and> increasing es \<and>
     eId ` set es \<subseteq> int ` {..<nclnt} \<and> (\<forall>c < nclnt. aclient_inv es c (as_cl s c))"

lemma append_inv_init: "append_inv nclnt 0 [] append_init"
  by (simp add: append_inv_def append_init_def srv_has_def KVServer_Put_def MakeKVServer_def PutJson_def increasing_def es_of_def
      aclient_inv_def pc_ok_def)

text \<open>The server's answer to a put made from a prefix.\<close>

lemma put_from_prefix:
  assumes has: "srv_has es kv" and k: "k \<le> length es" and small: "length es + 1 < 2 ^ 64"
    and args: "args = PutJson marshal_entries ''k'' (take k es @ [e]) (of_nat (k + 1))"
  shows "k < length es \<Longrightarrow> KVServer_Put kv args = (kv, ErrVersion)"
    and "k = length es \<Longrightarrow> \<exists>kv'. KVServer_Put kv args = (kv', OK) \<and> srv_has (es @ [e]) kv'"
proof -
  have eq: "(of_nat (k + 1) :: 64 word) = of_nat (length es + 1) \<longleftrightarrow> k = length es"
    using k small of_nat64_inject [of "k + 1" "length es + 1"] by simp
  show "k < length es \<Longrightarrow> KVServer_Put kv args = (kv, ErrVersion)"
    using has eq by (simp add: srv_has_def KVServer_Put_def args PutJson_def del: of_nat_Suc of_nat_add)
  show "k = length es \<Longrightarrow> \<exists>kv'. KVServer_Put kv args = (kv', OK) \<and> srv_has (es @ [e]) kv'"
    using has by (simp add: srv_has_def KVServer_Put_def args PutJson_def)
qed

text \<open>Another client's entry does not touch a client's invariant.\<close>

lemma pc_ok_append:
  assumes "pc_ok es c a" and "eId e \<noteq> int c"
  shows "pc_ok (es @ [e]) c a"
proof -
  have same: "es_of (int c) (es @ [e]) = es_of (int c) es" using assms(2) by (simp add: es_of_snoc)
  show ?thesis
  proof (cases "ac_pc a")
    case (InPut args f)
    then obtain k where "k \<le> length es" "args = PutJson marshal_entries ''k'' (take k es @ [mine c a]) (of_nat (k + 1))"
        "int (ac_i a) \<in> set (es_of (int c) es) \<longrightarrow> \<not> f \<and> k < length es"
      using assms(1) by (auto simp: pc_ok_def)
    then show ?thesis using InPut same by (auto simp: pc_ok_def intro!: exI [of _ k])
  qed (use assms(1) same in \<open>auto simp: pc_ok_def\<close>)
qed

lemma aclient_inv_append: "aclient_inv es c a \<Longrightarrow> eId e \<noteq> int c \<Longrightarrow> aclient_inv (es @ [e]) c a"
  using pc_ok_append by (simp add: aclient_inv_def es_of_snoc)

lemma append_inv_client:
  assumes "append_inv nclnt n es s" and "aclient_inv es c a"
  shows "append_inv nclnt (Suc n) es (set_aclient c a s)"
  using assms by (simp add: append_inv_def set_aclient_def)

section \<open>Preservation\<close>

lemma below_next: "aclient_inv es c a \<Longrightarrow> int (ac_i a) \<notin> set (es_of (int c) es) \<Longrightarrow> \<forall>m \<in> set (es_of (int c) es). m < int (ac_i a)"
  unfolding aclient_inv_def by (metis order_le_less)

lemma next_le: "aclient_inv es c a \<Longrightarrow> int (ac_i a) \<notin> set (es_of (int c) es) \<Longrightarrow> next_of (int c) es \<le> int (ac_i a)"
  using bspec [OF below_next [of es c a] last_in_set [of "es_of (int c) es"]] by (auto simp: next_of_def aclient_inv_def)

text \<open>A client's own entry is applied: its number is the next one of the client.\<close>

lemma own_append:
  assumes inv: "append_inv nclnt n es s" and c: "c < nclnt" and new: "int (ac_i (as_cl s c)) \<notin> set (es_of (int c) es)"
    and a': "aclient_inv (es @ [mine c (as_cl s c)]) c a'" and kv': "srv_has (es @ [mine c (as_cl s c)]) kv'"
  shows "append_inv nclnt (Suc n) (es @ [mine c (as_cl s c)]) ((set_aclient c a' s)\<lparr>as_srv := kv'\<rparr>)"
proof -
  let ?i = "int (ac_i (as_cl s c))"
  have inc: "increasing es" and ci: "aclient_inv es c (as_cl s c)" using inv c by (auto simp: append_inv_def)
  have "next_of (int c) es \<le> ?i" by (rule next_le [OF ci new])
  then have "increasing (es @ [mine c (as_cl s c)])" using inc by (simp add: increasing_snoc)
  moreover have "aclient_inv (es @ [mine c (as_cl s c)]) d (as_cl s d)" if "d < nclnt" "d \<noteq> c" for d
    by (rule aclient_inv_append) (use inv that in \<open>auto simp: append_inv_def\<close>)
  ultimately show ?thesis using inv a' kv' c by (auto simp: append_inv_def set_aclient_def)
qed

lemma own_missing:
  "es_of (int c) (es @ [mine c a]) = es_of (int c) es @ [int (ac_i a)]"
  by (simp add: es_of_snoc)

lemma missing_drop:
  "{0..<int (i + 1)} - set (xs @ [int i]) = {0..<int i} - set xs"
  by auto

lemma missing_step: "int (card ({0..<int (i + 1)} - S)) \<le> int (card ({0..<int i} - S)) + 1"
proof -
  have "{0..<int (i + 1)} - S \<subseteq> insert (int i) ({0..<int i} - S)" by auto
  then have "card ({0..<int (i + 1)} - S) \<le> card (insert (int i) ({0..<int i} - S))" by (intro card_mono) auto
  also have "\<dots> \<le> Suc (card ({0..<int i} - S))" by (rule card_insert_le_m1) auto
  finally show ?thesis by simp
qed

text \<open>What the answers do to the client.\<close>

lemma answered_OK:
  assumes "aclient_inv es c a" and "int (ac_i a) \<notin> set (es_of (int c) es)"
  shows "aclient_inv (es @ [mine c a]) c (answered OK a)"
proof -
  have "{0..<int (ac_i a + 1)} - set (es_of (int c) (es @ [mine c a])) = {0..<int (ac_i a)} - set (es_of (int c) es)"
    unfolding own_missing by (rule missing_drop)
  moreover have "\<forall>m \<in> set (es_of (int c) es). m < int (ac_i a)" by (rule below_next [OF assms])
  ultimately show ?thesis using assms(1) by (auto simp: aclient_inv_def answered_def append_answer_def own_missing pc_ok_def)
qed

lemma answered_Maybe: "aclient_inv es c a \<Longrightarrow> aclient_inv es c (answered ErrMaybe a)"
  using missing_step [of "ac_i a" "set (es_of (int c) es)"]
  by (force simp: aclient_inv_def answered_def append_answer_def pc_ok_def)

lemma append_step_inv:
  assumes step: "append_step nclnt s s'" and inv: "append_inv nclnt n es s" and small: "n + 1 < 2 ^ 64"
  shows "\<exists>es'. append_inv nclnt (Suc n) es' s'"
  using step
proof cases
  case (goes_on c)
  then have "aclient_inv es c ((as_cl s c)\<lparr>ac_pc := InGet\<rparr>)" using inv by (force simp: append_inv_def aclient_inv_def pc_ok_def)
  then show ?thesis using append_inv_client [OF inv] goes_on by blast
next
  case (stops c)
  then have "aclient_inv es c ((as_cl s c)\<lparr>ac_pc := Stopped\<rparr>)" using inv by (force simp: append_inv_def aclient_inv_def pc_ok_def)
  then show ?thesis using append_inv_client [OF inv] stops by blast
next
  case (get_answered c)
  let ?a = "as_cl s c"
  have a: "aclient_inv es c ?a" "srv_has es (as_srv s)" using inv get_answered by (auto simp: append_inv_def)
  have "append_put (int c) (int (ac_i ?a)) (KVServer_Get (as_srv s) ''k'') = Inr (PutJson marshal_entries ''k'' (es @ [mine c ?a]) (of_nat (length es + 1)))"
    using a(2) by (simp add: append_put_def GetJson_def KVServer_Get_def srv_has_def)
  then have "aclient_inv es c (got c (KVServer_Get (as_srv s) ''k'') ?a)"
    using a(1) get_answered by (auto simp: got_def aclient_inv_def pc_ok_def intro!: exI [of _ "length es"])
  then show ?thesis using append_inv_client [OF inv] get_answered by blast
next
  case (request_lost c args f)
  then have "aclient_inv es c ((as_cl s c)\<lparr>ac_pc := InPut args False\<rparr>)" using inv by (force simp: append_inv_def aclient_inv_def pc_ok_def)
  then show ?thesis using append_inv_client [OF inv] request_lost by blast
next
  case (reply_lost c args f)
  let ?a = "as_cl s c"
  have a: "aclient_inv es c ?a" "srv_has es (as_srv s)" "length es \<le> n" using inv reply_lost by (auto simp: append_inv_def)
  then obtain k where k: "k \<le> length es" "args = PutJson marshal_entries ''k'' (take k es @ [mine c ?a]) (of_nat (k + 1))"
      "int (ac_i ?a) \<in> set (es_of (int c) es) \<Longrightarrow> \<not> f \<and> k < length es"
    using reply_lost by (auto simp: aclient_inv_def pc_ok_def)
  have sm: "length es + 1 < 2 ^ 64" using a(3) small by simp
  show ?thesis
  proof (cases "k < length es")
    case True
    then have "aclient_inv es c (?a\<lparr>ac_pc := InPut args False\<rparr>)" using a(1) k by (auto simp: aclient_inv_def pc_ok_def intro!: exI [of _ k])
    then have "append_inv nclnt (Suc n) es (set_aclient c (?a\<lparr>ac_pc := InPut args False\<rparr>) s)" by (rule append_inv_client [OF inv])
    moreover have "fst (KVServer_Put (as_srv s) args) = as_srv s" using put_from_prefix(1) [OF a(2) k(1) sm k(2) True] by simp
    ultimately show ?thesis using reply_lost by (auto simp: set_aclient_def)
  next
    case False
    then have kl: "k = length es" using k(1) by simp
    then have new: "int (ac_i ?a) \<notin> set (es_of (int c) es)" using k(3) by blast
    obtain kv' where kv': "KVServer_Put (as_srv s) args = (kv', OK)" "srv_has (es @ [mine c ?a]) kv'"
      using put_from_prefix(2) [OF a(2) k(1) sm k(2) kl] by blast
    have "{0..<int (ac_i ?a)} - set (es_of (int c) (es @ [mine c ?a])) = {0..<int (ac_i ?a)} - set (es_of (int c) es)"
      unfolding own_missing by auto
    moreover have "pc_ok (es @ [mine c ?a]) c (?a\<lparr>ac_pc := InPut args False\<rparr>)"
      using k(2) kl by (auto simp: pc_ok_def intro!: exI [of _ "length es"])
    ultimately have "aclient_inv (es @ [mine c ?a]) c (?a\<lparr>ac_pc := InPut args False\<rparr>)"
      using a(1) by (auto simp: aclient_inv_def own_missing)
    from own_append [OF inv _ new this kv'(2)] show ?thesis using reply_lost kv'(1) by auto
  qed
next
  case (put_answered c args f kv' e)
  let ?a = "as_cl s c"
  have a: "aclient_inv es c ?a" "srv_has es (as_srv s)" "length es \<le> n" using inv put_answered by (auto simp: append_inv_def)
  then obtain k where k: "k \<le> length es" "args = PutJson marshal_entries ''k'' (take k es @ [mine c ?a]) (of_nat (k + 1))"
      "int (ac_i ?a) \<in> set (es_of (int c) es) \<Longrightarrow> \<not> f \<and> k < length es"
    using put_answered by (auto simp: aclient_inv_def pc_ok_def)
  have sm: "length es + 1 < 2 ^ 64" using a(3) small by simp
  show ?thesis
  proof (cases "k < length es")
    case True
    then have put: "kv' = as_srv s" "e = ErrVersion" using put_from_prefix(1) [OF a(2) k(1) sm k(2) True] put_answered by auto
    have "aclient_inv es c (answered (Clerk_Put_reply f e) ?a)"
    proof (cases f)
      case True
      then show ?thesis using a(1) k(3) put(2) by (auto simp: Clerk_Put_reply_def answered_def append_answer_def aclient_inv_def pc_ok_def)
    next
      case False
      then show ?thesis using answered_Maybe [OF a(1)] put(2) by (simp add: Clerk_Put_reply_def)
    qed
    from append_inv_client [OF inv this] show ?thesis using put_answered put(1) by (auto simp: set_aclient_def)
  next
    case False
    then have kl: "k = length es" using k(1) by simp
    then have new: "int (ac_i ?a) \<notin> set (es_of (int c) es)" using k(3) by blast
    obtain kv2 where kv2: "KVServer_Put (as_srv s) args = (kv2, OK)" "srv_has (es @ [mine c ?a]) kv2"
      using put_from_prefix(2) [OF a(2) k(1) sm k(2) kl] by blast
    then have "e = OK" "kv' = kv2" using put_answered by auto
    from own_append [OF inv _ new answered_OK [OF a(1) new] kv2(2)] show ?thesis
      using put_answered \<open>e = OK\<close> \<open>kv' = kv2\<close> by (auto simp: Clerk_Put_reply_def)
  qed
qed

lemma append_run_inv: "append_run nclnt n s \<Longrightarrow> n < 2 ^ 64 \<Longrightarrow> \<exists>es. append_inv nclnt n es s"
proof (induction rule: append_run.induct)
  case append_start
  show ?case using append_inv_init by blast
next
  case (append_more n s s')
  then show ?case using append_step_inv [of nclnt s s' n] by (metis Suc_eq_plus1 less_SucI not_less_eq Suc_lessD)
qed

section \<open>The check accepts\<close>

text \<open>C28: However the clients' requests interleave and whatever is lost: when all clients have stopped,
  reading the key succeeds and \<open>CheckAppends\<close> accepts the entries, the version and the clients'
  counts. (Fewer than 2 to the 63 steps, as the check converts the version to a signed integer.)\<close>

theorem append_test_passes:
  assumes run: "append_run nclnt n s" and small: "n + 1 < 2 ^ 63" and stopped: "\<forall>c < nclnt. ac_pc (as_cl s c) = Stopped"
    and order: "\<And>S. finite S \<Longrightarrow> set (order S) = S"
  shows "\<exists>es ver. GetJson unmarshal_entries (KVServer_Get (as_srv s) ''k'') = Inr (es, ver) \<and>
    CheckAppends order es nclnt (map (\<lambda>c. ac_res (as_cl s c)) [0..<nclnt]) ver = Inr ()"
proof -
  obtain es where inv: "append_inv nclnt n es s" using append_run_inv [OF run] small by auto
  have has: "srv_has es (as_srv s)" and inc: "increasing es" and len: "length es \<le> n" and ids: "eId ` set es \<subseteq> int ` {..<nclnt}"
    using inv by (auto simp: append_inv_def)
  have get: "GetJson unmarshal_entries (KVServer_Get (as_srv s) ''k'') = Inr (es, of_nat (length es + 1))"
    using has by (simp add: GetJson_def KVServer_Get_def srv_has_def)
  have "length es + 1 < 2 ^ 63" using len small by simp
  then have ver: "int (length es) + 1 = sint (of_nat (length es + 1) :: Tversion)"
    by (simp add: signed_of_nat signed_take_bit_int_eq_self del: of_nat_Suc of_nat_add)
  have client: "int (card (missing (int c) es)) \<le> Nmaybe (ac_res (as_cl s c)) \<and>
      next_of (int c) es \<le> Nok (ac_res (as_cl s c)) + Nmaybe (ac_res (as_cl s c))" if "c < nclnt" for c
  proof -
    have a: "aclient_inv es c (as_cl s c)" "int (ac_i (as_cl s c)) \<notin> set (es_of (int c) es)"
      using inv stopped that by (auto simp: append_inv_def aclient_inv_def pc_ok_def)
    then have le: "next_of (int c) es \<le> int (ac_i (as_cl s c))" by (rule next_le)
    then have "missing (int c) es \<subseteq> {0..<int (ac_i (as_cl s c))} - set (es_of (int c) es)" by (auto simp: missing_def)
    then have "card (missing (int c) es) \<le> card ({0..<int (ac_i (as_cl s c))} - set (es_of (int c) es))" by (intro card_mono) auto
    then show ?thesis using a(1) le by (simp add: aclient_inv_def)
  qed
  have "CheckAppends order es nclnt (map (\<lambda>c. ac_res (as_cl s c)) [0..<nclnt]) (of_nat (length es + 1)) = Inr ()"
  proof (rule CheckAppends_accepts [OF order, THEN iffD2], assumption, intro conjI ballI inc ver)
    fix c
    assume "c \<in> {0..<int nclnt} \<union> eId ` set es"
    then obtain d where "c = int d" "d < nclnt" using ids by (auto dest!: zero_le_imp_eq_int)
    then show "0 \<le> c" "c < int (length (map (\<lambda>c. ac_res (as_cl s c)) [0..<nclnt]))"
      "int (card (missing c es)) \<le> Nmaybe (map (\<lambda>c. ac_res (as_cl s c)) [0..<nclnt] ! nat c)"
      "next_of c es \<le> Nok (map (\<lambda>c. ac_res (as_cl s c)) [0..<nclnt] ! nat c) + Nmaybe (map (\<lambda>c. ac_res (as_cl s c)) [0..<nclnt] ! nat c)"
      using client [of d] by auto
  qed
  then show ?thesis using get by blast
qed

text \<open>One client that appends once and stops.\<close>

lemma demo_append_run: "\<exists>s. append_run 1 4 s \<and> ac_pc (as_cl s 0) = Stopped \<and> ac_res (as_cl s 0) = \<lparr>Nok = 1, Nmaybe = 0\<rparr>"
proof -
  define args where "args = PutJson marshal_entries ''k'' [\<lparr>eId = 0, eN = 0\<rparr>] 1"
  define s1 where "s1 = set_aclient 0 ((as_cl append_init 0)\<lparr>ac_pc := InGet\<rparr>) append_init"
  define s2 where "s2 = set_aclient 0 (got 0 (KVServer_Get (as_srv s1) ''k'') (as_cl s1 0)) s1"
  have srv: "srv_has [] (as_srv s1)" "as_srv s2 = as_srv s1"
    using append_inv_init [of 0] by (simp_all add: s2_def s1_def set_aclient_def append_inv_def)
  have p1: "ac_pc (as_cl s1 0) = InGet" "ac_i (as_cl s1 0) = 0" "ac_res (as_cl s1 0) = \<lparr>Nok = 0, Nmaybe = 0\<rparr>"
    by (simp_all add: s1_def set_aclient_def append_init_def)
  have p2: "ac_pc (as_cl s2 0) = InPut args True" "ac_i (as_cl s2 0) = 0" "ac_res (as_cl s2 0) = \<lparr>Nok = 0, Nmaybe = 0\<rparr>"
    using srv(1) p1 by (simp_all add: s2_def set_aclient_def got_def append_put_def GetJson_def KVServer_Get_def srv_has_def args_def)
  have "\<exists>kv'. KVServer_Put (as_srv s2) args = (kv', OK)"
    using put_from_prefix(2) [OF srv(1), of 0 args "\<lparr>eId = 0, eN = 0\<rparr>"] srv(2) by (auto simp: args_def)
  then obtain kv' where kv': "KVServer_Put (as_srv s2) args = (kv', OK)" ..
  define s3 where "s3 = (set_aclient 0 (answered (Clerk_Put_reply True OK) (as_cl s2 0)) s2)\<lparr>as_srv := kv'\<rparr>"
  define s4 where "s4 = set_aclient 0 ((as_cl s3 0)\<lparr>ac_pc := Stopped\<rparr>) s3"
  have p3: "ac_pc (as_cl s3 0) = AtSelect" "ac_res (as_cl s3 0) = \<lparr>Nok = 1, Nmaybe = 0\<rparr>"
    using p2 by (simp_all add: s3_def set_aclient_def answered_def append_answer_def Clerk_Put_reply_def)
  have "append_run 1 1 s1"
    using append_more [OF append_start goes_on [of 0 1 append_init]] by (simp add: s1_def append_init_def)
  then have "append_run 1 2 s2" using append_more [OF _ get_answered [of 0 1 s1]] p1(1) by (simp add: s2_def numeral_2_eq_2)
  then have "append_run 1 3 s3" using append_more [OF _ put_answered [of 0 1 s2, OF _ p2(1) kv']] by (simp add: s3_def numeral_2_eq_2 numeral_3_eq_3)
  then have "append_run 1 4 s4" using append_more [OF _ stops [of 0 1 s3]] p3(1) by (simp add: s4_def eval_nat_numeral)
  then show ?thesis using p3(2) by (intro exI [of _ s4]) (simp add: s4_def set_aclient_def)
qed

theorem append_test_passes_witness:
  "\<exists>s es ver. append_run 1 4 s \<and> GetJson unmarshal_entries (KVServer_Get (as_srv s) ''k'') = Inr (es, ver) \<and>
     CheckAppends sorted_list_of_set es 1 [\<lparr>Nok = 1, Nmaybe = 0\<rparr>] ver = Inr ()"
proof -
  obtain s where s: "append_run 1 4 s" "ac_pc (as_cl s 0) = Stopped" "ac_res (as_cl s 0) = \<lparr>Nok = 1, Nmaybe = 0\<rparr>"
    using demo_append_run by blast
  have "set (sorted_list_of_set S) = S" if "finite S" for S :: "int set" using that by simp
  from append_test_passes [OF s(1) _ _ this] s show ?thesis by auto
qed

end
