(* ===== verification/PutTest.thy ===== *)
theory PutTest
  imports KVTest
begin

text \<open>
  Concurrent clients of \<open>OneClientPut\<close> with \<open>OnePut\<close> (\<open>kvtest1/kvtest.go\<close>) on one key of one server:
  each puts with the version it knows and then reads the key to learn the new one. Every RPC
  attempt is a step; a run is reliable if no request and no reply was lost. The result is that
  \<open>CheckPutConcurrent\<close> accepts the version they leave.
\<close>

section \<open>The system\<close>

datatype put_pc =
    PSelect              \<comment> \<open>before the \<open>select\<close> on \<open>done\<close>\<close>
  | PPut bool            \<comment> \<open>in \<open>PutJson\<close> of \<open>OnePut\<close>; first attempt?\<close>
  | PGet Err             \<comment> \<open>in \<open>GetJson\<close> of \<open>OnePut\<close>, after this answer to the put\<close>
  | PStopped
  | PBroken go_error

record pclient =
  pc_at :: put_pc
  pc_ver :: Tversion
  pc_res :: ClntRes

record put_sys =
  ps_srv :: KVServer
  ps_cl :: "nat \<Rightarrow> pclient"

definition put_init :: put_sys where
  "put_init = \<lparr>ps_srv = MakeKVServer, ps_cl = (\<lambda>_. \<lparr>pc_at = PSelect, pc_ver = 0, pc_res = \<lparr>Nok = 0, Nmaybe = 0\<rparr>\<rparr>)\<rparr>"

definition set_pclient :: "nat \<Rightarrow> pclient \<Rightarrow> put_sys \<Rightarrow> put_sys" where
  "set_pclient c a s = s\<lparr>ps_cl := (ps_cl s)(c := a)\<rparr>"

definition one_put :: "string \<Rightarrow> nat \<Rightarrow> pclient \<Rightarrow> PutArgs" where
  "one_put key c a = PutJson marshal_EntryV key \<lparr>evId = int c, evV = pc_ver a\<rparr> (pc_ver a)"

definition read_back :: "nat \<Rightarrow> Err \<Rightarrow> GetReply \<Rightarrow> pclient \<Rightarrow> pclient" where
  "read_back c err r a =
     (case go_bind (GetJson unmarshal_EntryV r) (OnePut_answer (int c) (pc_ver a) err) of
        Inl e \<Rightarrow> a\<lparr>pc_at := PBroken e\<rparr>
      | Inr (ver, Some ok) \<Rightarrow> a\<lparr>pc_at := PSelect, pc_ver := ver, pc_res := OneClientPut_count (pc_res a) ok\<rparr>
      | Inr (ver, None) \<Rightarrow> a\<lparr>pc_at := PPut True, pc_ver := ver\<rparr>)"

inductive put_step :: "string \<Rightarrow> nat \<Rightarrow> bool \<Rightarrow> put_sys \<Rightarrow> put_sys \<Rightarrow> bool" for key nclnt where
  p_goes_on: "c < nclnt \<Longrightarrow> pc_at (ps_cl s c) = PSelect \<Longrightarrow>
    put_step key nclnt rel s (set_pclient c ((ps_cl s c)\<lparr>pc_at := PPut True\<rparr>) s)"
| p_stops: "c < nclnt \<Longrightarrow> pc_at (ps_cl s c) = PSelect \<Longrightarrow>
    put_step key nclnt rel s (set_pclient c ((ps_cl s c)\<lparr>pc_at := PStopped\<rparr>) s)"
| p_request_lost: "c < nclnt \<Longrightarrow> pc_at (ps_cl s c) = PPut f \<Longrightarrow>
    put_step key nclnt False s (set_pclient c ((ps_cl s c)\<lparr>pc_at := PPut False\<rparr>) s)"
| p_reply_lost: "c < nclnt \<Longrightarrow> pc_at (ps_cl s c) = PPut f \<Longrightarrow>
    put_step key nclnt False s ((set_pclient c ((ps_cl s c)\<lparr>pc_at := PPut False\<rparr>) s)
      \<lparr>ps_srv := fst (KVServer_Put (ps_srv s) (one_put key c (ps_cl s c)))\<rparr>)"
| p_put_answered: "c < nclnt \<Longrightarrow> pc_at (ps_cl s c) = PPut f \<Longrightarrow>
    KVServer_Put (ps_srv s) (one_put key c (ps_cl s c)) = (kv', e) \<Longrightarrow>
    put_step key nclnt rel s ((set_pclient c ((ps_cl s c)\<lparr>pc_at := PGet (Clerk_Put_reply f e)\<rparr>) s)\<lparr>ps_srv := kv'\<rparr>)"
| p_get_answered: "c < nclnt \<Longrightarrow> pc_at (ps_cl s c) = PGet err \<Longrightarrow>
    put_step key nclnt rel s (set_pclient c (read_back c err (KVServer_Get (ps_srv s) key) (ps_cl s c)) s)"

inductive put_run :: "string \<Rightarrow> nat \<Rightarrow> bool \<Rightarrow> nat \<Rightarrow> put_sys \<Rightarrow> bool" for key nclnt rel where
  put_start: "put_run key nclnt rel 0 put_init"
| put_more: "put_run key nclnt rel n s \<Longrightarrow> put_step key nclnt rel s s' \<Longrightarrow> put_run key nclnt rel (Suc n) s'"

section \<open>The invariant\<close>

text \<open>The key at version \<open>V\<close> with the last entry written.\<close>

definition srv_at :: "string \<Rightarrow> nat \<Rightarrow> EntryV \<Rightarrow> KVServer \<Rightarrow> bool" where
  "srv_at key V e kv \<longleftrightarrow> (if V = 0 then data kv key = None \<and> versions kv key = None
     else data kv key = Some (marshal_EntryV e) \<and> versions kv key = Some (of_nat V))"

text \<open>A put that is in flight may have been applied already.\<close>

fun slack :: "nat \<Rightarrow> nat \<Rightarrow> put_pc \<Rightarrow> int" where
  "slack vn V (PPut f) = (if \<not> f \<and> vn < V then 1 else 0)"
| "slack vn V (PGet e) = (if e = OK \<or> e = ErrMaybe then 1 else 0)"
| "slack vn V _ = 0"

fun put_pc_ok :: "bool \<Rightarrow> nat \<Rightarrow> nat \<Rightarrow> EntryV \<Rightarrow> nat \<Rightarrow> put_pc \<Rightarrow> bool" where
  "put_pc_ok rel vn V le c (PPut f) = (rel \<longrightarrow> f)"
| "put_pc_ok rel vn V le c (PGet e) = (e \<in> {OK, ErrVersion, ErrMaybe} \<and> (rel \<longrightarrow> e \<noteq> ErrMaybe) \<and> 0 < V \<and>
     (e = OK \<longrightarrow> vn < V \<and> (V = vn + 1 \<longrightarrow> le = \<lparr>evId = int c, evV = of_nat vn\<rparr>)))"
| "put_pc_ok rel vn V le c (PBroken e) = False"
| "put_pc_ok rel vn V le c _ = True"

text \<open>\<open>x\<close> counts the puts of the client that were applied.\<close>

definition pclient_inv :: "bool \<Rightarrow> nat \<Rightarrow> EntryV \<Rightarrow> nat \<Rightarrow> int \<Rightarrow> pclient \<Rightarrow> bool" where
  "pclient_inv rel V le c x a \<longleftrightarrow> (\<exists>vn \<le> V. pc_ver a = of_nat vn \<and> put_pc_ok rel vn V le c (pc_at a) \<and>
     x \<le> Nok (pc_res a) + Nmaybe (pc_res a) + slack vn V (pc_at a) \<and> 0 \<le> Nok (pc_res a) \<and> 0 \<le> Nmaybe (pc_res a) \<and>
     (rel \<longrightarrow> Nmaybe (pc_res a) = 0 \<and> x = Nok (pc_res a) + (if pc_at a = PGet OK then 1 else 0)) \<and>
     (0 < Nok (pc_res a) + Nmaybe (pc_res a) \<longrightarrow> 0 < V))"

definition counted :: "nat \<Rightarrow> put_sys \<Rightarrow> int" where
  "counted nclnt s = (\<Sum>c < nclnt. Nok (pc_res (ps_cl s c)) + Nmaybe (pc_res (ps_cl s c)))"

definition put_inv :: "string \<Rightarrow> nat \<Rightarrow> bool \<Rightarrow> nat \<Rightarrow> nat \<Rightarrow> EntryV \<Rightarrow> (nat \<Rightarrow> int) \<Rightarrow> put_sys \<Rightarrow> bool" where
  "put_inv key nclnt rel n V le x s \<longleftrightarrow> srv_at key V le (ps_srv s) \<and> V \<le> n \<and> int V = (\<Sum>c < nclnt. x c) \<and>
     counted nclnt s \<le> int n \<and> (\<forall>c < nclnt. pclient_inv rel V le c (x c) (ps_cl s c))"

lemma put_inv_init: "put_inv key nclnt rel 0 0 e (\<lambda>_. 0) put_init"
  by (simp add: put_inv_def put_init_def srv_at_def MakeKVServer_def pclient_inv_def counted_def)

lemma put_at_version:
  assumes at: "srv_at key V le kv" and v: "vn \<le> V" "V < 2 ^ 64" and args: "PutKey args = key" "PutVersion args = of_nat vn"
    and val: "PutValue args = marshal_EntryV e"
  shows "vn < V \<Longrightarrow> KVServer_Put kv args = (kv, ErrVersion)"
    and "vn = V \<Longrightarrow> V + 1 < 2 ^ 64 \<Longrightarrow> \<exists>kv'. KVServer_Put kv args = (kv', OK) \<and> srv_at key (V + 1) e kv'"
proof -
  have eq: "(of_nat vn :: 64 word) = of_nat V \<longleftrightarrow> vn = V" using v by (intro of_nat64_inject) auto
  show "vn < V \<Longrightarrow> KVServer_Put kv args = (kv, ErrVersion)"
    using at eq args by (simp add: srv_at_def KVServer_Put_def)
  show "vn = V \<Longrightarrow> V + 1 < 2 ^ 64 \<Longrightarrow> \<exists>kv'. KVServer_Put kv args = (kv', OK) \<and> srv_at key (V + 1) e kv'"
    using at args val by (cases "V = 0") (simp_all add: srv_at_def KVServer_Put_def add.commute)
qed

section \<open>Preservation\<close>

lemma pclient_inv_grow:
  assumes "pclient_inv rel V le c x a"
  shows "pclient_inv rel (V + 1) e c x a"
proof -
  obtain vn where v: "vn \<le> V" "pc_ver a = of_nat vn" "put_pc_ok rel vn V le c (pc_at a)"
     "x \<le> Nok (pc_res a) + Nmaybe (pc_res a) + slack vn V (pc_at a)" "0 \<le> Nok (pc_res a)" "0 \<le> Nmaybe (pc_res a)"
     "rel \<longrightarrow> Nmaybe (pc_res a) = 0 \<and> x = Nok (pc_res a) + (if pc_at a = PGet OK then 1 else 0)"
    using assms by (auto simp: pclient_inv_def)
  have "put_pc_ok rel vn (V + 1) e c (pc_at a)" using v(1,3) by (cases "pc_at a") auto
  moreover have "slack vn V (pc_at a) \<le> slack vn (V + 1) (pc_at a)" by (cases "pc_at a") auto
  ultimately show ?thesis using v unfolding pclient_inv_def by (intro exI [of _ vn]) auto
qed

lemma sum_upd:
  fixes x :: "nat \<Rightarrow> int"
  assumes "c < n"
  shows "(\<Sum>d < n. (x(c := y)) d) = (\<Sum>d < n. x d) - x c + y"
  using assms by (simp add: sum.remove [of "{..<n}" c])

lemma counted_set:
  assumes "c < nclnt"
  shows "counted nclnt (set_pclient c a s) = counted nclnt s - (Nok (pc_res (ps_cl s c)) + Nmaybe (pc_res (ps_cl s c))) + (Nok (pc_res a) + Nmaybe (pc_res a))"
proof -
  have "(\<lambda>d. Nok (pc_res (ps_cl (set_pclient c a s) d)) + Nmaybe (pc_res (ps_cl (set_pclient c a s) d))) =
      (\<lambda>d. Nok (pc_res (ps_cl s d)) + Nmaybe (pc_res (ps_cl s d)))(c := Nok (pc_res a) + Nmaybe (pc_res a))"
    by (auto simp: set_pclient_def)
  then show ?thesis unfolding counted_def by (simp only: sum_upd [OF assms])
qed

lemma put_inv_client:
  assumes inv: "put_inv key nclnt rel n V le x s" and c: "c < nclnt" and a: "pclient_inv rel V le c (x c) a"
    and res: "Nok (pc_res a) + Nmaybe (pc_res a) \<le> Nok (pc_res (ps_cl s c)) + Nmaybe (pc_res (ps_cl s c)) + 1"
  shows "put_inv key nclnt rel (Suc n) V le x (set_pclient c a s)"
  using inv a res counted_set [OF c, of a s] by (auto simp: put_inv_def set_pclient_def)

lemma put_inv_pc:
  assumes "put_inv key nclnt rel n V le x s" and "c < nclnt" and "pclient_inv rel V le c (x c) ((ps_cl s c)\<lparr>pc_at := p\<rparr>)"
  shows "\<exists>V' le' x'. put_inv key nclnt rel (Suc n) V' le' x' (set_pclient c ((ps_cl s c)\<lparr>pc_at := p\<rparr>) s)"
  using put_inv_client [OF assms] by auto

text \<open>A put of client \<open>c\<close> is applied.\<close>

lemma put_inv_applied:
  assumes inv: "put_inv key nclnt rel n V le x s" and c: "c < nclnt" and srv: "srv_at key (V + 1) e kv'"
    and a: "pclient_inv rel (V + 1) e c (x c + 1) a" and res: "pc_res a = pc_res (ps_cl s c)"
  shows "put_inv key nclnt rel (Suc n) (V + 1) e (x(c := x c + 1)) ((set_pclient c a s)\<lparr>ps_srv := kv'\<rparr>)"
proof -
  have "counted nclnt ((set_pclient c a s)\<lparr>ps_srv := kv'\<rparr>) = counted nclnt s"
    using counted_set [OF c, of a s] res by (simp add: counted_def)
  moreover have "int (V + 1) = (\<Sum>d < nclnt. (x(c := x c + 1)) d)" using inv sum_upd [OF c, of x "x c + 1"] by (simp add: put_inv_def)
  moreover have "pclient_inv rel (V + 1) e d ((x(c := x c + 1)) d) (ps_cl (set_pclient c a s) d)" if "d < nclnt" for d
    using inv a that pclient_inv_grow [of rel V le d "x d" "ps_cl s d" e] by (auto simp: put_inv_def set_pclient_def)
  ultimately show ?thesis using inv srv by (simp add: put_inv_def)
qed

text \<open>What the clerk's answer and the read-back do to the client.\<close>

lemma after_lost:
  assumes "pclient_inv rel V le c x a" and "pc_at a = PPut f" and "\<not> rel"
  shows "pclient_inv rel V le c x (a\<lparr>pc_at := PPut False\<rparr>)"
proof -
  obtain vn where v: "vn \<le> V" "pc_ver a = of_nat vn" "x \<le> Nok (pc_res a) + Nmaybe (pc_res a) + slack vn V (PPut f)"
      "0 \<le> Nok (pc_res a)" "0 \<le> Nmaybe (pc_res a)" "0 < Nok (pc_res a) + Nmaybe (pc_res a) \<longrightarrow> 0 < V"
    using assms(1,2) by (auto simp: pclient_inv_def)
  then show ?thesis using assms(3) unfolding pclient_inv_def by (intro exI [of _ vn]) (auto split: if_splits)
qed

lemma after_put_missed:
  assumes "pclient_inv rel V le c x a" and "pc_at a = PPut f" and "0 < V"
  shows "pclient_inv rel V le c x (a\<lparr>pc_at := PGet (Clerk_Put_reply f ErrVersion)\<rparr>)"
proof -
  obtain vn where v: "vn \<le> V" "pc_ver a = of_nat vn" "rel \<longrightarrow> f" "x \<le> Nok (pc_res a) + Nmaybe (pc_res a) + slack vn V (PPut f)"
      "0 \<le> Nok (pc_res a)" "0 \<le> Nmaybe (pc_res a)" "rel \<longrightarrow> Nmaybe (pc_res a) = 0 \<and> x = Nok (pc_res a)"
    using assms(1,2) by (auto simp: pclient_inv_def)
  then show ?thesis using assms(3) by (cases f) (auto simp: pclient_inv_def Clerk_Put_reply_def intro!: exI [of _ vn] split: if_splits)
qed

lemma after_put_hit:
  assumes "pclient_inv rel V le c x a" and "pc_at a = PPut f" and "pc_ver a = of_nat V" and "V + 1 < 2 ^ 64"
  shows "pclient_inv rel (V + 1) \<lparr>evId = int c, evV = pc_ver a\<rparr> c (x + 1) (a\<lparr>pc_at := PGet OK\<rparr>)"
    and "\<not> rel \<Longrightarrow> pclient_inv rel (V + 1) \<lparr>evId = int c, evV = pc_ver a\<rparr> c (x + 1) (a\<lparr>pc_at := PPut False\<rparr>)"
proof -
  obtain vn where v: "vn \<le> V" "pc_ver a = of_nat vn" "rel \<longrightarrow> f" "x \<le> Nok (pc_res a) + Nmaybe (pc_res a) + slack vn V (PPut f)"
      "0 \<le> Nok (pc_res a)" "0 \<le> Nmaybe (pc_res a)" "rel \<longrightarrow> Nmaybe (pc_res a) = 0 \<and> x = Nok (pc_res a)"
    using assms(1,2) by (auto simp: pclient_inv_def)
  have "vn = V" using v(1,2) assms(3,4) of_nat64_inject [of vn V] by simp
  then have x: "x \<le> Nok (pc_res a) + Nmaybe (pc_res a)" using v(4) by simp
  show "pclient_inv rel (V + 1) \<lparr>evId = int c, evV = pc_ver a\<rparr> c (x + 1) (a\<lparr>pc_at := PGet OK\<rparr>)"
    using v x \<open>vn = V\<close> unfolding pclient_inv_def by (intro exI [of _ V]) auto
  show "pclient_inv rel (V + 1) \<lparr>evId = int c, evV = pc_ver a\<rparr> c (x + 1) (a\<lparr>pc_at := PPut False\<rparr>)" if "\<not> rel"
    using v x \<open>vn = V\<close> that unfolding pclient_inv_def by (intro exI [of _ V]) auto
qed

lemma after_read_back:
  assumes inv: "pclient_inv rel V le c x a" and pc: "pc_at a = PGet err" and at: "srv_at key V le kv" and small: "V < 2 ^ 64"
  shows "pclient_inv rel V le c x (read_back c err (KVServer_Get kv key) a)"
    and "Nok (pc_res (read_back c err (KVServer_Get kv key) a)) + Nmaybe (pc_res (read_back c err (KVServer_Get kv key) a)) \<le>
      Nok (pc_res a) + Nmaybe (pc_res a) + 1"
proof -
  obtain vn where v: "vn \<le> V" "pc_ver a = of_nat vn" "put_pc_ok rel vn V le c (PGet err)"
      "x \<le> Nok (pc_res a) + Nmaybe (pc_res a) + slack vn V (PGet err)" "0 \<le> Nok (pc_res a)" "0 \<le> Nmaybe (pc_res a)"
      "rel \<longrightarrow> Nmaybe (pc_res a) = 0 \<and> x = Nok (pc_res a) + (if err = OK then 1 else 0)"
    using inv pc by (auto simp: pclient_inv_def)
  have V: "0 < V" and e: "err \<in> {OK, ErrVersion, ErrMaybe}" "rel \<Longrightarrow> err \<noteq> ErrMaybe" using v(3) by auto
  have get: "GetJson unmarshal_EntryV (KVServer_Get kv key) = Inr (le, of_nat V)"
    using at V by (simp add: GetJson_def KVServer_Get_def srv_at_def)
  have fine: "\<not> (err = OK \<and> of_nat V = pc_ver a + 1 \<and> evId le \<noteq> int c \<and> evV le \<noteq> pc_ver a)"
  proof
    assume bad: "err = OK \<and> of_nat V = pc_ver a + 1 \<and> evId le \<noteq> int c \<and> evV le \<noteq> pc_ver a"
    then have lt: "vn < V" "V = vn + 1 \<longrightarrow> le = \<lparr>evId = int c, evV = of_nat vn\<rparr>" using v(3) by auto
    have "(of_nat V :: 64 word) = of_nat (vn + 1)" using bad v(2) by (simp add: add.commute)
    then have "V = vn + 1" using lt(1) small of_nat64_inject [of V "vn + 1"] by simp
    then show False using lt(2) bad by simp
  qed
  have ans: "OnePut_answer (int c) (pc_ver a) err (le, of_nat V) =
      Inr (of_nat V, if err = OK \<or> err = ErrMaybe then Some (err = OK) else None)"
    using e(1) fine by (auto simp: OnePut_answer_def)
  have rbk: "read_back c err (KVServer_Get kv key) a =
      (if err = OK \<or> err = ErrMaybe then a\<lparr>pc_at := PSelect, pc_ver := of_nat V, pc_res := OneClientPut_count (pc_res a) (err = OK)\<rparr>
       else a\<lparr>pc_at := PPut True, pc_ver := of_nat V\<rparr>)"
    by (simp add: read_back_def get ans)
  show "pclient_inv rel V le c x (read_back c err (KVServer_Get kv key) a)"
    unfolding rbk using v(4-7) e V by (auto simp: pclient_inv_def OneClientPut_count_def intro!: exI [of _ V])
  show "Nok (pc_res (read_back c err (KVServer_Get kv key) a)) + Nmaybe (pc_res (read_back c err (KVServer_Get kv key) a)) \<le>
      Nok (pc_res a) + Nmaybe (pc_res a) + 1"
    unfolding rbk by (simp add: OneClientPut_count_def)
qed

lemma put_step_inv:
  assumes step: "put_step key nclnt rel s s'" and inv: "put_inv key nclnt rel n V le x s" and small: "n + 1 < 2 ^ 64"
  shows "\<exists>V' le' x'. put_inv key nclnt rel (Suc n) V' le' x' s'"
  using step
proof cases
  case (p_goes_on c)
  then have "pclient_inv rel V le c (x c) ((ps_cl s c)\<lparr>pc_at := PPut True\<rparr>)" using inv by (force simp: put_inv_def pclient_inv_def)
  from put_inv_pc [OF inv _ this] show ?thesis using p_goes_on by simp
next
  case (p_stops c)
  then have "pclient_inv rel V le c (x c) ((ps_cl s c)\<lparr>pc_at := PStopped\<rparr>)" using inv by (force simp: put_inv_def pclient_inv_def)
  from put_inv_pc [OF inv _ this] show ?thesis using p_stops by simp
next
  case (p_request_lost c f)
  then have "pclient_inv rel V le c (x c) ((ps_cl s c)\<lparr>pc_at := PPut False\<rparr>)" using inv by (auto simp: put_inv_def intro: after_lost)
  from put_inv_pc [OF inv _ this] show ?thesis using p_request_lost by simp
next
  case (p_get_answered c err)
  have a: "pclient_inv rel V le c (x c) (ps_cl s c)" "srv_at key V le (ps_srv s)" "V \<le> n" using inv p_get_answered by (auto simp: put_inv_def)
  have "V < 2 ^ 64" using a(3) small by simp
  note rb = after_read_back [OF a(1) p_get_answered(3) a(2) this]
  from put_inv_client [OF inv _ rb] show ?thesis using p_get_answered by auto
next
  case (p_reply_lost c f)
  let ?a = "ps_cl s c" and ?args = "one_put key c (ps_cl s c)"
  have a: "pclient_inv rel V le c (x c) ?a" "srv_at key V le (ps_srv s)" "V \<le> n" using inv p_reply_lost by (auto simp: put_inv_def)
  obtain vn where vn: "vn \<le> V" "pc_ver ?a = of_nat vn" using a(1) by (auto simp: pclient_inv_def)
  have args: "PutKey ?args = key" "PutVersion ?args = of_nat vn" "PutValue ?args = marshal_EntryV \<lparr>evId = int c, evV = pc_ver ?a\<rparr>"
    using vn by (simp_all add: one_put_def PutJson_def)
  have sm: "V < 2 ^ 64" "V + 1 < 2 ^ 64" using a(3) small by auto
  show ?thesis
  proof (cases "vn < V")
    case True
    then have "fst (KVServer_Put (ps_srv s) ?args) = ps_srv s" using put_at_version(1) [OF a(2) vn(1) sm(1) args] by simp
    moreover have "pclient_inv rel V le c (x c) (?a\<lparr>pc_at := PPut False\<rparr>)" using a(1) p_reply_lost by (auto intro: after_lost)
    ultimately show ?thesis using put_inv_pc [OF inv, of c "PPut False"] p_reply_lost by (simp add: set_pclient_def)
  next
    case False
    then have "vn = V" using vn(1) by simp
    then obtain kv' where kv': "KVServer_Put (ps_srv s) ?args = (kv', OK)" "srv_at key (V + 1) \<lparr>evId = int c, evV = pc_ver ?a\<rparr> kv'"
      using put_at_version(2) [OF a(2) vn(1) sm(1) args _ sm(2)] by blast
    have "\<not> rel" using p_reply_lost by simp
    from put_inv_applied [OF inv _ kv'(2) after_put_hit(2) [OF a(1) _ _ sm(2) this]] show ?thesis
      using p_reply_lost kv'(1) vn(2) \<open>vn = V\<close> by auto
  qed
next
  case (p_put_answered c f kv' e)
  let ?a = "ps_cl s c" and ?args = "one_put key c (ps_cl s c)"
  have a: "pclient_inv rel V le c (x c) ?a" "srv_at key V le (ps_srv s)" "V \<le> n" using inv p_put_answered by (auto simp: put_inv_def)
  obtain vn where vn: "vn \<le> V" "pc_ver ?a = of_nat vn" using a(1) by (auto simp: pclient_inv_def)
  have args: "PutKey ?args = key" "PutVersion ?args = of_nat vn" "PutValue ?args = marshal_EntryV \<lparr>evId = int c, evV = pc_ver ?a\<rparr>"
    using vn by (simp_all add: one_put_def PutJson_def)
  have sm: "V < 2 ^ 64" "V + 1 < 2 ^ 64" using a(3) small by auto
  show ?thesis
  proof (cases "vn < V")
    case True
    then have put: "kv' = ps_srv s" "e = ErrVersion" using put_at_version(1) [OF a(2) vn(1) sm(1) args] p_put_answered by auto
    have "pclient_inv rel V le c (x c) (?a\<lparr>pc_at := PGet (Clerk_Put_reply f e)\<rparr>)"
      using after_put_missed [OF a(1)] p_put_answered True put(2) by simp
    then show ?thesis using put_inv_pc [OF inv, of c "PGet (Clerk_Put_reply f e)"] p_put_answered put(1) by (simp add: set_pclient_def)
  next
    case False
    then have "vn = V" using vn(1) by simp
    then obtain kv2 where kv2: "KVServer_Put (ps_srv s) ?args = (kv2, OK)" "srv_at key (V + 1) \<lparr>evId = int c, evV = pc_ver ?a\<rparr> kv2"
      using put_at_version(2) [OF a(2) vn(1) sm(1) args _ sm(2)] by blast
    from put_inv_applied [OF inv _ kv2(2) after_put_hit(1) [OF a(1) _ _ sm(2)]] show ?thesis
      using p_put_answered kv2(1) vn(2) \<open>vn = V\<close> by (auto simp: Clerk_Put_reply_def)
  qed
qed

lemma put_run_inv: "put_run key nclnt rel n s \<Longrightarrow> n < 2 ^ 64 \<Longrightarrow> \<exists>V le x. put_inv key nclnt rel n V le x s"
proof (induction rule: put_run.induct)
  case put_start
  show ?case using put_inv_init by blast
next
  case (put_more n s s')
  then have "n < 2 ^ 64" "n + 1 < 2 ^ 64" by auto
  then show ?case using put_more.IH put_step_inv [OF put_more.hyps(2)] by blast
qed

section \<open>The check accepts\<close>

lemma total_res_eq:
  "total_res rs res = res\<lparr>Nok := Nok res + sum_list (map Nok rs), Nmaybe := Nmaybe res + sum_list (map Nmaybe rs)\<rparr>"
  unfolding total_res_def by (induction rs arbitrary: res) (simp_all add: add.assoc)

lemma sum_list_clients: "sum_list (map f [0..<n]) = (\<Sum>c < n. f c :: int)"
  by (simp add: interv_sum_list_conv_sum_set_nat atLeast0LessThan)

lemma of_nat64_less: "a < 2 ^ 64 \<Longrightarrow> b < 2 ^ 64 \<Longrightarrow> (of_nat a :: 64 word) < of_nat b \<longleftrightarrow> a < b"
  by (simp add: word_less_nat_alt unat_of_nat take_bit_nat_eq_self)

text \<open>C29: However the puts of the clients interleave: when all have stopped and one has put, reading the
  key succeeds and \<open>CheckPutConcurrent\<close> accepts. On a reliable network the version is the number of
  puts answered \<open>OK\<close>; otherwise it is at most that of those answered \<open>OK\<close> or \<open>ErrMaybe\<close>.\<close>

theorem put_test_passes:
  assumes run: "put_run key nclnt rel n s" and small: "n + 1 < 2 ^ 64" and stopped: "\<forall>c < nclnt. pc_at (ps_cl s c) = PStopped"
    and some_put: "0 < counted nclnt s"
  shows "\<exists>res. CheckPutConcurrent (KVServer_Get (ps_srv s) key) (map (\<lambda>c. pc_res (ps_cl s c)) [0..<nclnt]) \<lparr>Nok = 0, Nmaybe = 0\<rparr> rel = Inr res"
proof -
  obtain V le x where inv: "put_inv key nclnt rel n V le x s" using put_run_inv [OF run] small by auto
  have at: "srv_at key V le (ps_srv s)" and V: "V \<le> n" "int V = (\<Sum>c < nclnt. x c)" and cn: "counted nclnt s \<le> int n"
    using inv by (auto simp: put_inv_def)
  have cl: "x c \<le> Nok (pc_res (ps_cl s c)) + Nmaybe (pc_res (ps_cl s c)) \<and> (rel \<longrightarrow> x c = Nok (pc_res (ps_cl s c))) \<and>
      (0 < Nok (pc_res (ps_cl s c)) + Nmaybe (pc_res (ps_cl s c)) \<longrightarrow> 0 < V)" if "c < nclnt" for c
    using inv stopped that by (force simp: put_inv_def pclient_inv_def)
  have "\<exists>c < nclnt. 0 < Nok (pc_res (ps_cl s c)) + Nmaybe (pc_res (ps_cl s c))"
  proof (rule ccontr)
    assume "\<not> ?thesis"
    then have "\<forall>c < nclnt. Nok (pc_res (ps_cl s c)) + Nmaybe (pc_res (ps_cl s c)) \<le> 0" by (meson not_less)
    then have "counted nclnt s \<le> 0" unfolding counted_def by (intro sum_nonpos) simp
    then show False using some_put by simp
  qed
  then have pos: "0 < V" using cl by blast
  have get: "GetJson unmarshal_EntryV (KVServer_Get (ps_srv s) key) = Inr (le, of_nat V)"
    using at pos by (simp add: GetJson_def KVServer_Get_def srv_at_def)
  let ?res = "total_res (map (\<lambda>c. pc_res (ps_cl s c)) [0..<nclnt]) \<lparr>Nok = 0, Nmaybe = 0\<rparr>"
  have tot: "Nok ?res = (\<Sum>c < nclnt. Nok (pc_res (ps_cl s c)))" "Nok ?res + Nmaybe ?res = counted nclnt s"
    by (simp_all add: total_res_eq sum_list_clients comp_def counted_def sum.distrib)
  show ?thesis
  proof (cases rel)
    case True
    then have "int V = Nok ?res" unfolding V(2) tot(1) using cl by (intro sum.cong) auto
    then have "of_nat V = (word_of_int (Nok ?res) :: 64 word)" by (metis of_int_of_nat_eq)
    then show ?thesis using True get by (simp add: CheckPutConcurrent_def Let_def)
  next
    case False
    have le: "int V \<le> counted nclnt s" unfolding V(2) counted_def using cl by (intro sum_mono) auto
    obtain t where t: "counted nclnt s = int t" using some_put by (metis zero_le_imp_eq_int less_imp_le)
    have "\<not> (of_nat t :: 64 word) < of_nat V" using of_nat64_less [of t V] le t cn V(1) small by simp
    then have "\<not> word_of_int (Nok ?res + Nmaybe ?res) < (of_nat V :: 64 word)" unfolding tot(2) t by simp
    then show ?thesis using False get by (simp add: CheckPutConcurrent_def Let_def)
  qed
qed

text \<open>One client that puts once and stops.\<close>

lemma demo_put_run: "\<exists>s. put_run ''k'' 1 True 4 s \<and> pc_at (ps_cl s 0) = PStopped \<and> pc_res (ps_cl s 0) = \<lparr>Nok = 1, Nmaybe = 0\<rparr>"
proof -
  define s1 where "s1 = set_pclient 0 ((ps_cl put_init 0)\<lparr>pc_at := PPut True\<rparr>) put_init"
  have p1: "ps_cl s1 0 = \<lparr>pc_at = PPut True, pc_ver = 0, pc_res = \<lparr>Nok = 0, Nmaybe = 0\<rparr>\<rparr>" "ps_srv s1 = MakeKVServer"
    by (simp_all add: s1_def set_pclient_def put_init_def)
  let ?le = "\<lparr>evId = int 0, evV = pc_ver (ps_cl s1 0)\<rparr>"
  have "srv_at ''k'' 0 ?le (ps_srv s1)" using p1(2) by (simp add: srv_at_def MakeKVServer_def)
  then obtain kv' where kv': "KVServer_Put (ps_srv s1) (one_put ''k'' 0 (ps_cl s1 0)) = (kv', OK)" "srv_at ''k'' 1 ?le kv'"
    using put_at_version(2) [of "''k''" 0 ?le "ps_srv s1" 0 "one_put ''k'' 0 (ps_cl s1 0)" ?le] p1(1) by (auto simp: one_put_def PutJson_def)
  define s2 where "s2 = (set_pclient 0 ((ps_cl s1 0)\<lparr>pc_at := PGet (Clerk_Put_reply True OK)\<rparr>) s1)\<lparr>ps_srv := kv'\<rparr>"
  have p2: "ps_cl s2 0 = \<lparr>pc_at = PGet OK, pc_ver = 0, pc_res = \<lparr>Nok = 0, Nmaybe = 0\<rparr>\<rparr>" "ps_srv s2 = kv'"
    using p1 by (simp_all add: s2_def set_pclient_def Clerk_Put_reply_def)
  define s3 where "s3 = set_pclient 0 (read_back 0 OK (KVServer_Get (ps_srv s2) ''k'') (ps_cl s2 0)) s2"
  have p3: "pc_at (ps_cl s3 0) = PSelect" "pc_res (ps_cl s3 0) = \<lparr>Nok = 1, Nmaybe = 0\<rparr>"
    using kv'(2) p1 p2 by (simp_all add: s3_def set_pclient_def read_back_def GetJson_def KVServer_Get_def srv_at_def OnePut_answer_def OneClientPut_count_def)
  define s4 where "s4 = set_pclient 0 ((ps_cl s3 0)\<lparr>pc_at := PStopped\<rparr>) s3"
  have "put_run ''k'' 1 True 1 s1" using put_more [OF put_start p_goes_on [of 0 1 put_init]] by (simp add: s1_def put_init_def)
  then have "put_run ''k'' 1 True 2 s2" using put_more [OF _ p_put_answered [of 0 1 s1 True, OF _ _ kv'(1)]] p1(1) by (simp add: s2_def numeral_2_eq_2)
  then have "put_run ''k'' 1 True 3 s3" using put_more [OF _ p_get_answered [of 0 1 s2 OK]] p2(1) by (simp add: s3_def numeral_2_eq_2 numeral_3_eq_3)
  then have "put_run ''k'' 1 True 4 s4" using put_more [OF _ p_stops [of 0 1 s3]] p3(1) by (simp add: s4_def eval_nat_numeral)
  then show ?thesis using p3(2) by (intro exI [of _ s4]) (simp add: s4_def set_pclient_def)
qed

theorem put_test_passes_witness:
  "\<exists>s res. put_run ''k'' 1 True 4 s \<and> CheckPutConcurrent (KVServer_Get (ps_srv s) ''k'') [\<lparr>Nok = 1, Nmaybe = 0\<rparr>] \<lparr>Nok = 0, Nmaybe = 0\<rparr> True = Inr res"
proof -
  obtain s where s: "put_run ''k'' 1 True 4 s" "pc_at (ps_cl s 0) = PStopped" "pc_res (ps_cl s 0) = \<lparr>Nok = 1, Nmaybe = 0\<rparr>"
    using demo_put_run by blast
  then show ?thesis using put_test_passes [OF s(1)] by (auto simp: counted_def)
qed

end
