(* ===== verification/LabGob.thy ===== *)
theory LabGob
  imports Prelude
begin

text \<open>
  The checks of \<open>labgob/labgob.go\<close> around Go's \<open>encoding/gob\<close>: a warning for every lower-case field
  of a type that is sent, and for decoding into a variable that is not zero.

  Types are numbers, described by a table, as types refer to themselves through pointers, slices
  and maps; the table stands for what \<open>reflect\<close> tells. The two global variables \<open>checked\<close> and
  \<open>errorCount\<close> and the printed warnings are the state. The recursion over types has fuel, with the
  theorem that one more than the number of types is enough. Encoding and decoding are \<open>gob\<close>'s and
  are arguments.
\<close>

section \<open>Types\<close>

datatype tkind =
    KStruct "(string \<times> nat) list"
  | KElem nat               \<comment> \<open>slice, array or pointer\<close>
  | KMap nat nat            \<comment> \<open>key and element\<close>
  | KOther

record gob_state =
  checked :: "nat set"
  errorCount :: int
  warnings :: "string list"

text \<open>\<open>unicode.IsUpper\<close> of the first rune of a name. \<open>other\<close> decides for runes beyond ASCII.\<close>

definition first_upper :: "(string \<Rightarrow> bool) \<Rightarrow> string \<Rightarrow> bool" where
  "first_upper other name = (case name of [] \<Rightarrow> False
     | c # _ \<Rightarrow> (if (of_char c :: nat) < 128 then 65 \<le> (of_char c :: nat) \<and> (of_char c :: nat) \<le> 90 else other name))"

definition warn_field :: "(string \<Rightarrow> bool) \<Rightarrow> string \<Rightarrow> gob_state \<Rightarrow> gob_state" where
  "warn_field other name st =
     (if first_upper other name = False
      then st\<lparr>warnings := warnings st @ [''lower-case field '' @ name], errorCount := errorCount st + 1\<rparr> else st)"

text \<open>The loop over the fields of a struct.\<close>

fun check_fields :: "(nat \<Rightarrow> gob_state \<Rightarrow> gob_state option) \<Rightarrow> (string \<Rightarrow> bool) \<Rightarrow> (string \<times> nat) list \<Rightarrow> gob_state \<Rightarrow> gob_state option" where
  "check_fields rec other [] st = Some st"
| "check_fields rec other ((name, t) # fs) st = Option.bind (rec t (warn_field other name st)) (check_fields rec other fs)"

fun checkType :: "(string \<Rightarrow> bool) \<Rightarrow> (nat \<Rightarrow> tkind) \<Rightarrow> nat \<Rightarrow> nat \<Rightarrow> gob_state \<Rightarrow> gob_state option" where
  "checkType other ty 0 t st = None"
| "checkType other ty (Suc n) t st =
     (if t \<in> checked st then Some st
      else let st1 = st\<lparr>checked := insert t (checked st)\<rparr> in
        case ty t of
          KStruct fs \<Rightarrow> check_fields (checkType other ty n) other fs st1
        | KElem e \<Rightarrow> checkType other ty n e st1
        | KMap k e \<Rightarrow> Option.bind (checkType other ty n e st1) (checkType other ty n k)
        | KOther \<Rightarrow> Some st1)"

section \<open>Values\<close>

text \<open>A value as \<open>checkDefault1\<close> sees it. A basic value has the name of its type and tells whether it is
  the zero value.\<close>

datatype gval =
    VStruct "(string \<times> gval) list"
  | VPtr "gval option"
  | VBasic string bool
  | VOther

definition warn_default :: "string \<Rightarrow> string \<Rightarrow> gob_state \<Rightarrow> gob_state" where
  "warn_default name tname st =
     (let st1 = (if errorCount st < 1
        then st\<lparr>warnings := warnings st @ [''Decoding into a non-default variable/field '' @ (if name = [] then tname else name)]\<rparr> else st)
      in st1\<lparr>errorCount := errorCount st1 + 1\<rparr>)"

fun checkDefault1 :: "gval \<Rightarrow> nat \<Rightarrow> string \<Rightarrow> gob_state \<Rightarrow> gob_state" where
  "checkDefault1 (VStruct fs) depth name st =
     (if depth > 3 then st
      else fold (\<lambda>(fname, vv) st. checkDefault1 vv (depth + 1) (if name \<noteq> [] then name @ ''.'' @ fname else fname) st) fs st)"
| "checkDefault1 (VPtr None) depth name st = st"
| "checkDefault1 (VPtr (Some v)) depth name st = (if depth > 3 then st else checkDefault1 v (depth + 1) name st)"
| "checkDefault1 (VBasic tname zero) depth name st =
     (if depth > 3 then st else if zero = False then warn_default name tname st else st)"
| "checkDefault1 VOther depth name st = st"

definition checkDefault :: "gval option \<Rightarrow> gob_state \<Rightarrow> gob_state" where
  "checkDefault v st = (case v of None \<Rightarrow> st | Some value \<Rightarrow> checkDefault1 value 1 [] st)"

section \<open>Encoding and decoding\<close>

text \<open>\<open>gob\<close> is the operation of the library on the stream \<open>'s\<close>; the fuel is that of the program's types.\<close>

definition Encode :: "(string \<Rightarrow> bool) \<Rightarrow> (nat \<Rightarrow> tkind) \<Rightarrow> nat \<Rightarrow> ('v \<Rightarrow> 's \<Rightarrow> 's) \<Rightarrow> nat \<times> 'v \<Rightarrow> gob_state \<times> 's \<Rightarrow> (gob_state \<times> 's) option" where
  "Encode other ty fuel gob = (\<lambda>(t, v) (st, s). map_option (\<lambda>st'. (st', gob v s)) (checkType other ty fuel t st))"

definition Decode ::
  "(string \<Rightarrow> bool) \<Rightarrow> (nat \<Rightarrow> tkind) \<Rightarrow> nat \<Rightarrow> ('s \<Rightarrow> 'v \<times> 's) \<Rightarrow> nat \<times> gval option \<Rightarrow> gob_state \<times> 's \<Rightarrow> (gob_state \<times> 'v \<times> 's) option" where
  "Decode other ty fuel gob = (\<lambda>(t, e) (st, s). map_option (\<lambda>st'. (checkDefault e st', gob s)) (checkType other ty fuel t st))"

definition Register :: "(string \<Rightarrow> bool) \<Rightarrow> (nat \<Rightarrow> tkind) \<Rightarrow> nat \<Rightarrow> nat \<Rightarrow> gob_state \<Rightarrow> gob_state option" where
  "Register other ty fuel t st = checkType other ty fuel t st"

text \<open>\<open>EncodeValue\<close> and \<open>RegisterName\<close> check the type of the value and leave the rest to gob.\<close>

definition checkValue :: "(string \<Rightarrow> bool) \<Rightarrow> (nat \<Rightarrow> tkind) \<Rightarrow> nat \<Rightarrow> nat \<Rightarrow> gob_state \<Rightarrow> gob_state option" where
  "checkValue other ty fuel t st = checkType other ty fuel t st"

definition EncodeValue :: "(string \<Rightarrow> bool) \<Rightarrow> (nat \<Rightarrow> tkind) \<Rightarrow> nat \<Rightarrow> ('v \<Rightarrow> 's \<Rightarrow> 's) \<Rightarrow> nat \<times> 'v \<Rightarrow> gob_state \<times> 's \<Rightarrow> (gob_state \<times> 's) option" where
  "EncodeValue other ty fuel gob = (\<lambda>(t, v) (st, s). map_option (\<lambda>st'. (st', gob v s)) (checkValue other ty fuel t st))"

definition RegisterName ::
  "(string \<Rightarrow> bool) \<Rightarrow> (nat \<Rightarrow> tkind) \<Rightarrow> nat \<Rightarrow> string \<Rightarrow> nat \<Rightarrow> gob_state \<times> (string \<rightharpoonup> nat) \<Rightarrow> (gob_state \<times> (string \<rightharpoonup> nat)) option" where
  "RegisterName other ty fuel name t = (\<lambda>(st, names). map_option (\<lambda>st'. (st', names(name \<mapsto> t))) (checkValue other ty fuel t st))"

section \<open>The types that are checked\<close>

definition children :: "(nat \<Rightarrow> tkind) \<Rightarrow> nat \<Rightarrow> nat set" where
  "children ty t = (case ty t of KStruct fs \<Rightarrow> snd ` set fs | KElem e \<Rightarrow> {e} | KMap k e \<Rightarrow> {k, e} | KOther \<Rightarrow> {})"

definition child :: "(nat \<Rightarrow> tkind) \<Rightarrow> nat \<Rightarrow> nat \<Rightarrow> bool" where
  "child ty t u \<longleftrightarrow> u \<in> children ty t"

definition lowers :: "(string \<Rightarrow> bool) \<Rightarrow> (nat \<Rightarrow> tkind) \<Rightarrow> nat \<Rightarrow> nat" where
  "lowers other ty t = (case ty t of KStruct fs \<Rightarrow> length (filter (\<lambda>(name, _). \<not> first_upper other name) fs) | _ \<Rightarrow> 0)"

text \<open>What a call leaves: everything it newly checked is reachable, its children are checked too, and
  the lower-case fields of the newly checked types are counted, and \<open>k\<close> more.\<close>

definition explored :: "(string \<Rightarrow> bool) \<Rightarrow> (nat \<Rightarrow> tkind) \<Rightarrow> nat \<Rightarrow> nat set \<Rightarrow> nat set \<Rightarrow> gob_state \<Rightarrow> gob_state \<Rightarrow> bool" where
  "explored other ty k T R st st' \<longleftrightarrow> checked st \<subseteq> checked st' \<and> T \<subseteq> checked st' \<and> checked st' \<subseteq> checked st \<union> R \<and>
     finite (checked st' - checked st) \<and>
     (\<forall>u \<in> checked st' - checked st. children ty u \<subseteq> checked st') \<and>
     errorCount st' = errorCount st + int k + int (\<Sum>u \<in> checked st' - checked st. lowers other ty u)"

lemma explored_trans:
  assumes "explored other ty k T R st st1" and "explored other ty k' T' R st1 st2"
  shows "explored other ty (k + k') (T \<union> T') R st st2"
proof -
  have d: "checked st2 - checked st = (checked st2 - checked st1) \<union> (checked st1 - checked st)"
      "(checked st2 - checked st1) \<inter> (checked st1 - checked st) = {}"
    using assms by (auto simp: explored_def)
  have fin: "finite (checked st2 - checked st1)" "finite (checked st1 - checked st)" using assms by (auto simp: explored_def)
  have "(\<Sum>u \<in> checked st2 - checked st. lowers other ty u) =
      (\<Sum>u \<in> checked st2 - checked st1. lowers other ty u) + (\<Sum>u \<in> checked st1 - checked st. lowers other ty u)"
    unfolding d(1) by (rule sum.union_disjoint [OF fin d(2)])
  moreover have "\<forall>u \<in> checked st2 - checked st. children ty u \<subseteq> checked st2"
    using assms unfolding explored_def d(1) by blast
  moreover have "finite (checked st2 - checked st)" unfolding d(1) using fin by simp
  ultimately show ?thesis using assms by (auto simp: explored_def simp del: of_nat_sum)
qed

lemma explored_mono: "explored other ty k T R st st' \<Longrightarrow> R \<subseteq> R' \<Longrightarrow> explored other ty k T R' st st'"
  by (auto simp: explored_def)

lemma explored_refl: "T \<subseteq> checked st \<Longrightarrow> explored other ty 0 T R st st"
  by (simp add: explored_def)

lemma explored_warn:
  "explored other ty (if first_upper other name then 0 else 1) {} R st (warn_field other name st)"
  by (simp add: explored_def warn_field_def)

text \<open>Entering a type: it is marked before its children, and its own fields are counted in the loop.\<close>

lemma explored_enter:
  assumes new: "t \<notin> checked st" and e: "explored other ty (lowers other ty t) (children ty t) R (st\<lparr>checked := insert t (checked st)\<rparr>) st'"
    and t: "t \<in> R"
  shows "explored other ty 0 {t} R st st'"
proof -
  have c: "insert t (checked st) \<subseteq> checked st'" "finite (checked st' - insert t (checked st))" "children ty t \<subseteq> checked st'"
    using e by (auto simp: explored_def)
  have d: "checked st' - checked st = insert t (checked st' - insert t (checked st))" using c(1) new by auto
  have "(\<Sum>u \<in> checked st' - checked st. lowers other ty u) = lowers other ty t + (\<Sum>u \<in> checked st' - insert t (checked st). lowers other ty u)"
    unfolding d using c(2) by simp
  moreover have "finite (checked st' - checked st)" unfolding d using c(2) by simp
  ultimately show ?thesis using e c t unfolding explored_def by auto
qed

lemma check_fields_explores:
  assumes rec: "\<And>t st. t \<in> snd ` set fs \<Longrightarrow> C \<subseteq> checked st \<Longrightarrow> \<exists>st'. rec t st = Some st' \<and> explored other ty 0 {t} R st st'"
    and C: "C \<subseteq> checked st"
  shows "\<exists>st'. check_fields rec other fs st = Some st' \<and>
    explored other ty (length (filter (\<lambda>(name, _). \<not> first_upper other name) fs)) (snd ` set fs) R st st'"
  using assms
proof (induction fs arbitrary: st)
  case Nil
  then show ?case by (simp add: explored_refl)
next
  case (Cons f fs)
  obtain name t where f: "f = (name, t)" by (rule prod.exhaust)
  have "C \<subseteq> checked (warn_field other name st)" using Cons.prems(2) by (simp add: warn_field_def)
  then obtain st1 where s1: "rec t (warn_field other name st) = Some st1" "explored other ty 0 {t} R (warn_field other name st) st1"
    using Cons.prems(1) [of t] f by auto
  have e1: "explored other ty (if first_upper other name then 0 else 1) {t} R st st1"
    using explored_trans [OF explored_warn [where other = other and ty = ty and R = R] s1(2)] by simp
  then have C1: "C \<subseteq> checked st1" using Cons.prems(2) by (auto simp: explored_def)
  have "\<exists>st'. check_fields rec other fs st1 = Some st' \<and>
      explored other ty (length (filter (\<lambda>(name, _). \<not> first_upper other name) fs)) (snd ` set fs) R st1 st'"
    by (rule Cons.IH [OF _ C1]) (rule Cons.prems(1), simp_all)
  then obtain st' where st': "check_fields rec other fs st1 = Some st'"
      "explored other ty (length (filter (\<lambda>(name, _). \<not> first_upper other name) fs)) (snd ` set fs) R st1 st'" by blast
  show ?case using explored_trans [OF e1 st'(2)] st'(1) s1(1) f by (cases "first_upper other name") simp_all
qed

text \<open>With more fuel than unchecked types, a call returns.\<close>

lemma checkType_explores:
  assumes "finite U" and "\<And>u. u \<in> U \<Longrightarrow> children ty u \<subseteq> U" and "t \<in> U" and "card (U - checked st) < n"
  shows "\<exists>st'. checkType other ty n t st = Some st' \<and> explored other ty 0 {t} {u. (child ty)\<^sup>*\<^sup>* t u} st st'"
  using assms(3,4)
proof (induction n arbitrary: t st)
  case (Suc n)
  let ?R = "{u. (child ty)\<^sup>*\<^sup>* t u}" and ?st1 = "st\<lparr>checked := insert t (checked st)\<rparr>"
  show ?case
  proof (cases "t \<in> checked st")
    case True
    then show ?thesis by (simp add: explored_refl)
  next
    case new: False
    have small: "card (U - checked st') < n" if "insert t (checked st) \<subseteq> checked st'" for st' :: gob_state
    proof -
      have "U - checked st' \<subset> U - checked st" using that new Suc.prems(1) by auto
      then have "card (U - checked st') < card (U - checked st)" using assms(1) by (intro psubset_card_mono) auto
      then show ?thesis using Suc.prems(2) by simp
    qed
    have step: "\<exists>st'. checkType other ty n u st0 = Some st' \<and> explored other ty 0 {u} ?R st0 st'"
      if u: "u \<in> children ty t" and st0: "insert t (checked st) \<subseteq> checked st0" for u st0
    proof -
      have "u \<in> U" using assms(2) [OF Suc.prems(1)] u by blast
      then obtain st' where st': "checkType other ty n u st0 = Some st'" "explored other ty 0 {u} {v. (child ty)\<^sup>*\<^sup>* u v} st0 st'"
        using Suc.IH [OF _ small [OF st0]] by blast
      have "{v. (child ty)\<^sup>*\<^sup>* u v} \<subseteq> ?R" using u by (auto simp: child_def intro: converse_rtranclp_into_rtranclp)
      then show ?thesis using st' explored_mono by blast
    qed
    have "\<exists>st'. checkType other ty (Suc n) t st = Some st' \<and> explored other ty (lowers other ty t) (children ty t) ?R ?st1 st'"
    proof (cases "ty t")
      case (KStruct fs)
      then show ?thesis
        using check_fields_explores [of fs "insert t (checked st)" "checkType other ty n" other ty ?R ?st1] step new
        by (auto simp: children_def lowers_def Let_def)
    next
      case (KElem e)
      then show ?thesis using step [of e ?st1] new by (auto simp: children_def lowers_def Let_def)
    next
      case (KMap k e)
      obtain s1 where s1: "checkType other ty n e ?st1 = Some s1" "explored other ty 0 {e} ?R ?st1 s1"
        using step [of e ?st1] KMap by (auto simp: children_def)
      then have "insert t (checked st) \<subseteq> checked s1" by (auto simp: explored_def)
      then obtain s2 where s2: "checkType other ty n k s1 = Some s2" "explored other ty 0 {k} ?R s1 s2"
        using step [of k s1] KMap by (auto simp: children_def)
      show ?thesis using s1(1) s2(1) explored_trans [OF s1(2) s2(2)] KMap new by (simp add: children_def lowers_def Let_def insert_commute)
    next
      case KOther
      then show ?thesis using new by (simp add: children_def lowers_def explored_refl)
    qed
    then show ?thesis using explored_enter [OF new] by blast
  qed
qed simp

section \<open>Properties\<close>

text \<open>C36: Checking a type ends, also for types that contain themselves: fuel of one more than the number of
  types is enough. It checks exactly the types that can be reached, and counts every lower-case
  field of a type once, however often the type occurs. Types checked before are closed.\<close>

theorem checkType_checks_reachable:
  assumes U: "finite U" "\<And>u. u \<in> U \<Longrightarrow> children ty u \<subseteq> U" and t: "t \<in> U"
    and closed: "\<And>u. u \<in> checked st \<Longrightarrow> children ty u \<subseteq> checked st"
  shows "\<exists>st'. checkType other ty (card U + 1) t st = Some st' \<and> checked st' = checked st \<union> {u. (child ty)\<^sup>*\<^sup>* t u} \<and>
    errorCount st' = errorCount st + int (\<Sum>u \<in> {u. (child ty)\<^sup>*\<^sup>* t u} - checked st. lowers other ty u)"
proof -
  have "card (U - checked st) < card U + 1" using U(1) by (simp add: less_Suc_eq_le card_mono)
  then obtain st' where st': "checkType other ty (card U + 1) t st = Some st'" "explored other ty 0 {t} {u. (child ty)\<^sup>*\<^sup>* t u} st st'"
    using checkType_explores [OF U t] by blast
  have cl: "children ty u \<subseteq> checked st'" if "u \<in> checked st'" for u
    using st'(2) closed [of u] that unfolding explored_def by (cases "u \<in> checked st") auto
  have "u \<in> checked st'" if "(child ty)\<^sup>*\<^sup>* t u" for u
    using that
  proof (induction rule: rtranclp_induct)
    case base
    show ?case using st'(2) by (simp add: explored_def)
  next
    case (step u v)
    then show ?case using cl [of u] by (auto simp: child_def)
  qed
  then have eq: "checked st' = checked st \<union> {u. (child ty)\<^sup>*\<^sup>* t u}" using st'(2) by (auto simp: explored_def)
  then have "checked st' - checked st = {u. (child ty)\<^sup>*\<^sup>* t u} - checked st" by auto
  then show ?thesis using st' eq by (auto simp: explored_def simp del: of_nat_sum)
qed

text \<open>A list node: a struct with a value and a pointer to the next node.\<close>

definition demo_types :: "nat \<Rightarrow> tkind" where
  "demo_types t = (if t = 0 then KStruct [(''Val'', 2), (''next'', 1)] else if t = 1 then KElem 0 else KOther)"

theorem checkType_checks_reachable_witness:
  "\<exists>st'. checkType (\<lambda>_. False) demo_types 4 0 \<lparr>checked = {}, errorCount = 0, warnings = []\<rparr> = Some st' \<and>
     checked st' = {u. (child demo_types)\<^sup>*\<^sup>* 0 u} \<and>
     errorCount st' = int (\<Sum>u \<in> {u. (child demo_types)\<^sup>*\<^sup>* 0 u}. lowers (\<lambda>_. False) demo_types u)"
proof -
  have "children demo_types u \<subseteq> {0, 1, 2}" if "u \<in> {0, 1, 2}" for u using that by (auto simp: children_def demo_types_def)
  moreover have four: "card {0, 1, 2 :: nat} + 1 = 4" by simp
  ultimately show ?thesis
    using checkType_checks_reachable [of "{0, 1, 2}" demo_types 0 "\<lparr>checked = {}, errorCount = 0, warnings = []\<rparr>" "\<lambda>_. False", unfolded four]
    by (simp del: checkType.simps)
qed

text \<open>The non-zero basic values that \<open>checkDefault\<close> looks at: those within three levels.\<close>

fun nondefault :: "nat \<Rightarrow> gval \<Rightarrow> nat" where
  "nondefault d (VStruct fs) = (if d = 0 then 0 else sum_list (map (\<lambda>(_, v). nondefault (d - 1) v) fs))"
| "nondefault d (VPtr None) = 0"
| "nondefault d (VPtr (Some v)) = (if d = 0 then 0 else nondefault (d - 1) v)"
| "nondefault d (VBasic _ zero) = (if d = 0 \<or> zero then 0 else 1)"
| "nondefault d VOther = 0"

text \<open>One warning, if there was no error before.\<close>

definition warned :: "nat \<Rightarrow> gob_state \<Rightarrow> gob_state \<Rightarrow> bool" where
  "warned k st st' \<longleftrightarrow> errorCount st' = errorCount st + int k \<and> checked st' = checked st \<and>
     (if errorCount st < 1 \<and> 0 < k then \<exists>w. warnings st' = warnings st @ [w] else warnings st' = warnings st)"

lemma warned_trans: "0 \<le> errorCount st \<Longrightarrow> warned k st st1 \<Longrightarrow> warned k' st1 st2 \<Longrightarrow> warned (k + k') st st2"
  by (auto simp: warned_def split: if_splits)

lemma depth_down: "\<not> depth > 3 \<Longrightarrow> 4 - depth \<noteq> 0 \<and> 4 - depth - 1 = 3 - depth \<and> 4 - Suc depth = 3 - (depth :: nat)"
  by simp

lemma checkDefault1_warned: "0 \<le> errorCount st \<Longrightarrow> warned (nondefault (4 - depth) v) st (checkDefault1 v depth name st)"
proof (induction v depth name st rule: checkDefault1.induct)
  case (1 fs depth name st)
  let ?step = "\<lambda>(fname, vv) st. checkDefault1 vv (depth + 1) (if name \<noteq> [] then name @ ''.'' @ fname else fname) st"
  show ?case
  proof (cases "depth > 3")
    case True
    then show ?thesis by (simp add: warned_def)
  next
    case False
    have "warned (sum_list (map (\<lambda>(_, v). nondefault (3 - depth) v) gs)) s (fold ?step gs s)"
      if "set gs \<subseteq> set fs" "0 \<le> errorCount s" for gs s
      using that
    proof (induction gs arbitrary: s)
      case (Cons g gs)
      obtain fname vv where g: "g = (fname, vv)" by (rule prod.exhaust)
      have one: "warned (nondefault (3 - depth) vv) s (?step g s)"
      proof -
        have "g \<in> set fs" "0 \<le> errorCount s" using Cons.prems by auto
        from "1.IH" [OF False this(1) g [symmetric] this(2)] show ?thesis unfolding g prod.case by simp
      qed
      then have "0 \<le> errorCount (?step g s)" using Cons.prems(2) by (auto simp: warned_def)
      then have "warned (sum_list (map (\<lambda>(_, v). nondefault (3 - depth) v) gs)) (?step g s) (fold ?step gs (?step g s))"
        using Cons.IH Cons.prems(1) by simp
      then show ?case using warned_trans [OF Cons.prems(2) one] g by simp
    qed (simp add: warned_def)
    from this [of fs st] show ?thesis using False "1.prems" by (simp add: depth_down)
  qed
next
  case (3 v depth name st)
  then show ?case by (cases "depth > 3") (simp_all add: warned_def depth_down)
qed (auto simp: warned_def warn_default_def Let_def)

text \<open>Decoding into a variable counts every non-zero basic value within three levels of it as an error,
  none below, and prints at most one warning, and none if there was an error before.\<close>

theorem checkDefault_counts:
  assumes "0 \<le> errorCount st"
  shows "errorCount (checkDefault (Some v) st) = errorCount st + int (nondefault 3 v) \<and>
    length (warnings (checkDefault (Some v) st)) = length (warnings st) + (if errorCount st < 1 \<and> 0 < nondefault 3 v then 1 else 0)"
  using checkDefault1_warned [OF assms, of 1 v "[]"] by (auto simp: checkDefault_def warned_def split: if_splits)

theorem checkDefault_counts_witness:
  "errorCount (checkDefault (Some (VPtr (Some (VStruct [(''Term'', VBasic ''int'' False), (''Log'', VStruct [(''N'', VBasic ''int'' False)])]))))
     \<lparr>checked = {}, errorCount = 0, warnings = []\<rparr>) = 1"
  using checkDefault_counts [of "\<lparr>checked = {}, errorCount = 0, warnings = []\<rparr>"
    "VPtr (Some (VStruct [(''Term'', VBasic ''int'' False), (''Log'', VStruct [(''N'', VBasic ''int'' False)])]))"]
  by (simp del: checkDefault1.simps)

end
