(* ===== verification/Spec2Isabelle.thy ===== *)
theory Spec2Isabelle
  imports Commands NetBytes TestSetup LockService RaftProgress RaftSnapshots RaftTester OpHistory KVRaft ShardTest MRPlugins KVLab SpawnClients AppendTest PutTest LabGob
begin

text \<open>
  \<^bold>\<open>A verification library for LearingProj6824\<close> (a Go implementation of the 6.5840 labs).

  \<^bold>\<open>The program.\<close> The repository holds a MapReduce framework (\<open>src/mr\<close>, with the sequential reference
  \<open>src/main/mrsequential.go\<close> and plugins in \<open>src/mrapps\<close>), a versioned key/value server with a
  retrying clerk and a lock on top of it (\<open>src/kvsrv1\<close>), a Raft library (\<open>src/raft1/raft.go\<close>) with a
  service that applies its log (\<open>src/raft1/server.go\<close>), the beginnings of a replicated state machine and a
  key/value service over Raft (\<open>src/kvraft1\<close>) and of a sharded store (\<open>src/shardkv1\<close>, with finished shard
  configurations), and the tester: a simulated network (\<open>src/labrpc\<close>), checked encoding (\<open>src/labgob\<close>), stable
  storage, server groups, clients and annotations (\<open>src/tester1\<close>), a linearizability model (\<open>src/models1\<close>), an operation
  log and test drivers (\<open>src/kvtest1\<close>). All of it runs as goroutines that share objects under a
  mutex and talk by RPC over that network.

  \<^bold>\<open>How code is modelled.\<close> A struct is a record, an enumeration a datatype, a function or method one
  definition with the name of the source. A goroutine that holds a mutex from lock to unlock is one
  atomic operation on explicit state; one that releases it in between is several operations. Calls
  that log or sleep are left out. The clock, random choices, map iteration orders and outcomes of
  system calls are arguments. Go's \<open>int\<close> is \<open>int\<close>, so terms, indices and
  counts of that type do not wrap around at \<open>2 ^ 63\<close> here, which no run reaches; \<open>uint64\<close> versions, 32-bit hashes and
  the counters of the network are words.
  A run-time panic or \<open>log.Fatalf\<close> is a left value of \<open>'a go\<close> (theory \<open>Prelude\<close>), with the bounds checks of
  slices written out. A gob encoding is the sequence of values encoded; the JSON of the test entries is written out, and the JSON of intermediate files is the
  sequence of pairs, read back with the bytes that are no well-formed UTF-8 replaced, as \<open>encoding/json\<close> does.

  \<^bold>\<open>Theories, in the order of import.\<close>

  \<^item> \<open>Prelude\<close>: results of Go code, slices, FNV-1a, majorities (locale \<open>quorums\<close>, interpreted as \<open>maj\<close>), list lemmas.
  \<^item> \<open>Persister\<close>: \<open>tester1/persister.go\<close>; locale \<open>stable_storage\<close>, interpreted as \<open>ps\<close>: what was saved is read back,
    also through copies.
  \<^item> \<open>KVServer\<close>: \<open>kvsrv1/server.go\<close> and \<open>rpc.go\<close>, and \<open>models1/kv.go\<close>. \<open>kv_abs\<close> maps the server to the per-key model
    state; every sequential history of the server runs through the model, with the one answer it rejects shown apart.
  \<^item> \<open>KVClerk\<close>: \<open>kvsrv1/client.go\<close>. The network is a schedule of outcomes; other clients' requests run in
    between. Locale \<open>versioned_register\<close> (interpreted as \<open>kvreg\<close> for each key) states what a put promises
    and gives the at-most-once argument.
  \<^item> \<open>LockService\<close>: \<open>kvsrv1/lock/lock.go\<close> as a machine with a program counter per client, a step relation
    \<open>lock_step\<close> over the key/value server, and the invariant behind mutual exclusion. Runs are bounded by
    \<open>2 ^ 64\<close> steps because a version that wraps around could be reused.
  \<^item> \<open>OpHistory\<close>: \<open>kvtest1/porcupine.go\<close>. Concurrent calls of clerks as a step relation \<open>op_step\<close>; the log they leave is
    linearizable, by a ghost order of the calls in which the server executed them (bounded by \<open>2 ^ 64\<close> steps as above).
  \<^item> \<open>NetClerk\<close>: the server as a labrpc service and the clerk's put over \<open>LabRPC\<close>, with ends that stay enabled and a server that
    stays in place; every run is a schedule of \<open>KVClerk\<close>. \<open>KVLab\<close>: \<open>kvsrv1/test.go\<close> over the tester's configuration, clients and network.
  \<^item> \<open>ShardCfg\<close>: \<open>shardkv1/shardcfg/shardcfg.go\<close>. The balancing loop is a function whose termination proof is
    that every move lowers the sum of squared loads; properties say it ends balanced. \<open>ShardTest\<close>: the unwritten
    controller, shard groups and clerk, and the tester's joining and leaving of groups.
  \<^item> \<open>RaftPeer\<close>: every locked section of \<open>raft1/raft.go\<close> over the record \<open>Raft\<close>. \<open>RaftLog\<close>: log
    invariant \<open>peer_wf\<close>, the log as a map from indices (\<open>entry_at\<close>), \<open>AppendEntries\<close>, commitment and
    snapshots in these terms. \<open>RaftDurable\<close>: every section leaves storage and memory in agreement, from which
    \<open>RaftElection\<close> has what a peer of a running cluster recovers after a crash.
    \<open>RaftApply\<close>: \<open>InstallSnapshot\<close>, conflict back-off and the applier.
  \<^item> \<open>RaftCluster\<close>: a cluster of peers with packets in flight and restarts as an executable event function
    \<open>happen\<close>; \<open>reachable\<close> runs, and \<open>prompt_reachable\<close> ones, in which no peer times out twice before its
    first \<open>startElection\<close> goroutine has run. \<open>RaftElection\<close>: the invariant with vote histories
    and counted votes as ghost state, election safety, and what breaks without promptness.
  \<^item> \<open>RaftMatching\<close>, \<open>RaftChosen\<close>, \<open>RaftReplication\<close>, \<open>RaftAgreement\<close>: the invariant \<open>raft_inv\<close> of clusters whose peers keep
    their whole logs, with the log of every term's leader and the acknowledged indices as ghost state: logs
    match, what is committed was acknowledged by a majority and is in every later leader's log. \<open>RaftProgress\<close>: without
    snapshots no section panics.
  \<^item> \<open>RaftCompaction\<close>, \<open>RaftSnapshots\<close>: clusters that take snapshots. A peer is related to the same peer with its whole log
    (\<open>expands\<close>); every section, \<open>Snapshot\<close> and \<open>InstallSnapshot\<close> included, does the same to both, where an installed
    snapshot is an append of everything it covers. The cluster is thereby simulated by one that satisfies \<open>raft_inv\<close>, and log
    matching, leader completeness, state machine safety and the agreement of snapshots follow for \<open>tidy\<close> runs: prompt ones in which services
    snapshot committed indices and no snapshot lands on a log with another entry at its last index.
  \<^item> \<open>RaftService\<close>: \<open>raft1/server.go\<close> and the checks \<open>checkLogs\<close>, \<open>nCommitted\<close>, \<open>checkNoAgreement\<close>, \<open>checkOneLeader\<close>
    of \<open>raft1/test.go\<close>, and that the service accepts what its peer's applier delivers. \<open>RaftTester\<close>: a cluster with
    its appliers, services and restarts as one system \<open>sys_do\<close>, in which the applier of a killed peer may go on delivering to its former
    service; the services never disagree, only such a late message can end the test, and what \<open>one\<close> and
    \<open>wait\<close> report is true while the system runs on. The number of rounds and polls is that of the lists of
    events given to them, at most as many as the source's limits.
  \<^item> \<open>MRCoordinator\<close>, \<open>MRWorker\<close>, \<open>MRJob\<close>: \<open>mr/coordinator.go\<close> and \<open>rpc.go\<close> with the invariant \<open>coord_inv\<close>; \<open>mr/worker.go\<close>,
    \<open>mrsequential.go\<close>, \<open>wc.go\<close> and \<open>indexer.go\<close> over a file system, with the contracts of the sort and of reduce
    functions as locales \<open>key_sorter\<close>, \<open>reducer\<close>, \<open>reduce_phase\<close> (interpreted on the stable sort, word count
    and indexer); whole jobs as runs of a coordinator with any number of workers, and that a finished job
    has the output of the sequential program. The run of a task is one step there, and that result is for runs whose
    file operations all succeed. \<open>MRPlugins\<close>: the other applications, which fulfil the same contracts, and
    what a crash in one of them can destroy. \<open>Commands\<close>: the programs of \<open>main\<close>, their arguments, plugins and the calls between the
    MapReduce programs; what \<open>mrcoordinator\<close> has done when it returns.
  \<^item> \<open>LabRPC\<close>: \<open>labrpc/labrpc.go\<close>: dispatch, network administration, and the life of a request. \<open>NetBytes\<close>: its counts of requests and
    bytes and its end, over any lengths of encodings. \<open>LabGob\<close>:
    \<open>labgob/labgob.go\<close>, the checks of types and decoding targets.
  \<^item> \<open>TesterGroup\<close>, \<open>TesterClients\<close>, \<open>TesterConfig\<close>: \<open>tester1/group.go\<close>, \<open>srv.go\<close>, \<open>clnts.go\<close>, \<open>config.go\<close> over \<open>LabRPC\<close>:
    who is linked to whom, what a restart reads, and that a client used in order reaches the servers it may. \<open>Annotations\<close>: \<open>tester1/annotation.go\<close>.
  \<^item> \<open>SpawnClients\<close>: the goroutines and channels of \<open>SpawnClientsAndWait\<close> and \<open>runClient\<close>. \<open>JsonEntries\<close>, \<open>KVTest\<close>, \<open>AppendTest\<close>, \<open>PutTest\<close>: \<open>kvtest1/kvtest.go\<close>: the entries clients write, the checks, and that
    the append and put tests pass over the key/value server.
  \<^item> \<open>ReplicatedSM\<close>: \<open>kvraft1/rsm\<close>: \<open>MakeRSM\<close>, the refusing \<open>Submit\<close>, the counter service and its tests' helpers. \<open>KVRaft\<close>:
    \<open>kvraft1\<close>, with empty handlers and a clerk that calls nobody.
  \<^item> \<open>TestSetup\<close>: making, restarting and cleaning up in the tests of Raft and of the state machine, over \<open>TesterConfig\<close>.
  \<^item> This theory: the tester's leader check over a running cluster.

  \<^bold>\<open>What goes wrong.\<close> Some theorems show behaviour the code does not intend: votes counted twice, a panic in
  \<open>AppendEntries\<close> that a late heartbeat causes, an index mix-up in the back-off, a suffix kept behind a foreign snapshot, a snapshot the
  applier loses, a single peer that never leads, a half-applied \<open>Join\<close>, truncated intermediate and output files, a
  job without input that never ends, an answer of the server the linearizability model rejects, late messages
  that end a test, checks that never draw, clients and partitions of the tester that reach too much, and the
  services over Raft that are not written.

  \<^bold>\<open>Not modelled.\<close> Sockets below \<open>net/rpc\<close>, the lengths of random delays in \<open>labrpc\<close>, the goroutines of
  \<open>partitionCtrler\<close> and \<open>concurCtrler\<close> (which cannot get past the nil configuration), test functions. Time passes only as arguments; liveness is stated
  per operation, not of the whole cluster. The safety of the Raft cluster is stated for tidy
  runs, because the flaws above break it outside them (votes counted twice, a suffix kept behind a foreign snapshot).

  \<^bold>\<open>Plan.\<close> Next: the services of \<open>RaftTester\<close> with snapshots, and crashes inside a reduce task in \<open>MRJob\<close>.
\<close>

section \<open>The leader check of the tester on a running cluster\<close>

text \<open>\<open>checkOneLeader\<close> asks the connected servers one after the other, while the cluster runs on:
  before each answer some events happen.\<close>

fun poll :: "nat \<Rightarrow> (nat \<Rightarrow> bool) \<Rightarrow> ('c, 's) event list list \<Rightarrow> nat \<Rightarrow> ('c, 's) cluster \<Rightarrow> answers option" where
  "poll n conn [] i s = Some []"
| "poll n conn (es # ess) i s =
     Option.bind (run_events n es s) (\<lambda>s1.
       map_option (\<lambda>rest. if conn i then (i, GetState (peer s1 i)) # rest else rest)
         (poll n conn ess (Suc i) s1))"

fun prompt_poll :: "nat \<Rightarrow> ('c, 's) event list list \<Rightarrow> ('c, 's) cluster \<Rightarrow> bool" where
  "prompt_poll n [] s \<longleftrightarrow> True"
| "prompt_poll n (es # ess) s \<longleftrightarrow> prompt_events n es s \<and>
     (case run_events n es s of None \<Rightarrow> True | Some s1 \<Rightarrow> prompt_poll n ess s1)"

lemma run_events_append: "run_events n (es @ fs) s = Option.bind (run_events n es s) (run_events n fs)"
  by (induction es arbitrary: s) (auto simp: Option.bind_eq_None_conv split: bind_splits)

lemma prompt_events_append:
  "prompt_events n es s \<Longrightarrow> run_events n es s = Some s1 \<Longrightarrow> prompt_events n fs s1 \<Longrightarrow> prompt_events n (es @ fs) s"
  by (induction es arbitrary: s) (auto simp: bind_eq_Some_conv)

text \<open>An answer is the state of the server at some moment of the run.\<close>

lemma poll_answer:
  assumes "poll n conn ess i s = Some rs" and "prompt_poll n ess s" and "(j, t, l) \<in> set rs"
  shows "i \<le> j \<and> j < i + length ess \<and>
    (\<exists>es s'. prompt_events n es s \<and> run_events n es s = Some s' \<and> GetState (peer s' j) = (t, l))"
  using assms
proof (induction ess arbitrary: i s rs)
  case (Cons es ess)
  then obtain s1 rest where s1: "run_events n es s = Some s1" and rest: "poll n conn ess (Suc i) s1 = Some rest"
    and rs: "rs = (if conn i then (i, GetState (peer s1 i)) # rest else rest)"
    by (auto simp: bind_eq_Some_conv)
  have p: "prompt_events n es s" "prompt_poll n ess s1" using Cons.prems(2) s1 by auto
  consider "j = i" "GetState (peer s1 i) = (t, l)" | "(j, t, l) \<in> set rest"
    using Cons.prems(3) rs by (auto split: if_splits)
  then show ?case
  proof cases
    case 1
    then show ?thesis using p s1 by (intro conjI exI [of _ es] exI [of _ s1]) auto
  next
    case 2
    then obtain fs s' where f: "prompt_events n fs s1" "run_events n fs s1 = Some s'" "GetState (peer s' j) = (t, l)"
      "Suc i \<le> j" "j < Suc i + length ess" using Cons.IH [OF rest p(2)] by auto
    then have "prompt_events n (es @ fs) s" "run_events n (es @ fs) s = Some s'"
      using prompt_events_append [OF p(1) s1] s1 by (auto simp: run_events_append)
    then show ?thesis using f by (intro conjI exI [of _ "es @ fs"] exI [of _ s']) auto
  qed
qed simp

lemma poll_distinct: "poll n conn ess i s = Some rs \<Longrightarrow> distinct (map fst rs) \<and> (\<forall>r \<in> set rs. i \<le> fst r)"
proof (induction ess arbitrary: i s rs)
  case (Cons es ess)
  then obtain s1 rest where rest: "poll n conn ess (Suc i) s1 = Some rest"
    and rs: "rs = (if conn i then (i, GetState (peer s1 i)) # rest else rest)"
    by (auto simp: bind_eq_Some_conv)
  have "i \<notin> fst ` set rest" "\<forall>r \<in> set rest. i \<le> fst r" "distinct (map fst rest)"
    using Cons.IH [OF rest] by fastforce+
  then show ?case by (simp add: rs)
qed simp

lemma poll_one_leader:
  assumes "prompt_reachable n s" and "poll n conn ess i s = Some rs" and "prompt_poll n ess s"
    and "i + length ess \<le> n" and "(j, t, True) \<in> set rs" and "(k, t, True) \<in> set rs"
  shows "j = k"
  using assms
proof (induction ess arbitrary: i s rs)
  case (Cons es ess)
  then obtain s1 rest where s1: "run_events n es s = Some s1" and rest: "poll n conn ess (Suc i) s1 = Some rest"
    and rs: "rs = (if conn i then (i, GetState (peer s1 i)) # rest else rest)"
    by (auto simp: bind_eq_Some_conv)
  have p: "prompt_events n es s" "prompt_poll n ess s1" using Cons.prems(3) s1 by auto
  have r1: "prompt_reachable n s1" by (rule run_prompt_reachable [OF Cons.prems(1) p(1) s1])
  have later: "m = i" if now: "GetState (peer s1 i) = (t, True)" and m: "(m, t, True) \<in> set rest" for m
  proof -
    obtain fs s' where f: "prompt_events n fs s1" "run_events n fs s1 = Some s'" "GetState (peer s' m) = (t, True)"
      "m < Suc i + length ess" using poll_answer [OF rest p(2) m] by auto
    have "i = m" by (rule one_leader_per_term [OF r1 f(1,2)])
        (use now f(3,4) Cons.prems(4) in \<open>auto simp: GetState_def\<close>)
    then show ?thesis by simp
  qed
  show ?case
  proof (cases "(j, t, True) \<in> set rest \<and> (k, t, True) \<in> set rest")
    case True
    then show ?thesis using Cons.IH [OF r1 rest p(2)] Cons.prems(4) by simp
  next
    case False
    have "GetState (peer s1 i) = (t, True) \<and> x = i \<or> (x, t, True) \<in> set rest" if "(x, t, True) \<in> set rs" for x
      using that rs by (auto split: if_splits)
    then show ?thesis using Cons.prems(5,6) False later by metis
  qed
qed simp

lemma reachable_term: "reachable n s \<Longrightarrow> i < n \<Longrightarrow> 0 \<le> currentTerm (peer s i)"
proof (induction rule: reachable.induct)
  case (start tk)
  then show ?case by (simp add: cluster_init_def Make_def readPersist_def)
next
  case (step s e s')
  then show ?case using happen_keeps [OF reachable_peer_ok [OF step(1)] step(2)] by (fastforce simp: keeps_vote_def)
qed

text \<open>C13: The tester's leader check never finds two leaders. However the cluster runs on while the
  connected servers are asked in turn, before and during that with no peer timing out again before its
  previous \<open>startElection\<close> got the lock, one iteration of \<open>checkOneLeader\<close> does not fail with
  several leaders of a term. It returns a server that answered to be leader, with the latest of the terms in which
  some server answered to be leader, or finds that no server answered so.\<close>

theorem leader_check_passes:
  assumes "prompt_reachable n s" and "prompt_poll n ess s" and "length ess \<le> n"
    and "poll n conn ess 0 s = Some rs"
  shows "\<exists>l. checkOneLeader_round rs = Inr l \<and>
    (case l of None \<Rightarrow> \<forall>i t. (i, t, True) \<notin> set rs
     | Some i \<Rightarrow> \<exists>t. (i, t, True) \<in> set rs \<and> (\<forall>j u. (j, u, True) \<in> set rs \<longrightarrow> u \<le> t))"
proof (rule checkOneLeader_round_ok)
  show "distinct (map fst rs)" using poll_distinct [OF assms(4)] by blast
  show "(i, t, True) \<in> set rs \<Longrightarrow> (j, t, True) \<in> set rs \<Longrightarrow> i = j" for i j t
    using poll_one_leader [OF assms(1,4,2)] assms(3) by simp
  show "0 \<le> t" if a: "(i, t, True) \<in> set rs" for i t
  proof -
    obtain es s' where "prompt_events n es s" "run_events n es s = Some s'" "GetState (peer s' i) = (t, True)" "i < n"
      using poll_answer [OF assms(4,2) a] assms(3) by auto
    then show ?thesis using reachable_term [OF prompt_reachable_reachable [OF run_prompt_reachable [OF assms(1)]]]
      by (auto simp: GetState_def)
  qed
qed

theorem leader_check_passes_witness:
  "\<exists>s rs l. run_events 3 demo_election (demo_start 3) = Some s \<and> poll 3 (\<lambda>_. True) [[], [], []] 0 s = Some rs \<and>
     checkOneLeader_round rs = Inr l \<and> l = Some 0"
proof -
  obtain s where s: "run_events 3 demo_election (demo_start 3) = Some s" "prompt_events 3 demo_election (demo_start 3)"
    "state (peer s 0) = Leader" "state (peer s 1) = Follower" "state (peer s 2) = Follower"
    using demo_election_runs by blast
  have r: "prompt_reachable 3 s"
    by (rule run_prompt_reachable [OF _ s(2,1)]) (simp add: demo_start_def prompt_reachable.prompt_start)
  obtain rs where rs: "poll 3 (\<lambda>_. True) [[], [], []] 0 s = Some rs" "(0, currentTerm (peer s 0), True) \<in> set rs"
    "\<And>i t. (i, t, True) \<in> set rs \<Longrightarrow> i = 0"
    using s(3-5) by (auto simp: GetState_def numeral_2_eq_2)
  have "prompt_poll 3 [[], [], []] s" by simp
  from leader_check_passes [OF r this _ rs(1)] obtain l where "checkOneLeader_round rs = Inr l"
    "case l of None \<Rightarrow> \<forall>i t. (i, t, True) \<notin> set rs | Some i \<Rightarrow> \<exists>t. (i, t, True) \<in> set rs" by (fastforce split: option.splits)
  then show ?thesis using s(1) rs by (cases l) auto
qed

end
